(* ===== verification/Prelude.thy ===== *)
theory Prelude
  imports Main "HOL-Library.Monad_Syntax" "HOL-Library.AList" "HOL-Library.Word"
begin

text \<open>
  Shared vocabulary of the development.

  A C++ operation of yogi-core is a function on an explicit state.  Its result type is
  \<open>'a option\<close> wherever the source contains a \<^verbatim>\<open>YOGI_ASSERT\<close>, a \<^verbatim>\<open>YOGI_NEVER_REACHED\<close>
  or a null or end-iterator dereference: \<open>None\<close> is the failed assertion (config.h aborts the
  process there in a debug build and leaves the behaviour undefined in a release build).  API exceptions
  (\<^verbatim>\<open>api::ExceptionT\<close>) are ordinary values of \<open>error_code + 'a\<close>.

  The collections \<open>reg_simps\<close>, \<open>ring_simps\<close>, \<open>wire_simps\<close> and \<open>fsm_simps\<close> gather the
  rewrite rules of the registers, the ring buffer, the wire format and the object state machine.
\<close>

named_theorems reg_simps "rewrite rules of the object registers"
named_theorems ring_simps "rewrite rules of the ring buffer"
named_theorems wire_simps "rewrite rules of the wire format"
named_theorems fsm_simps "rewrite rules of the mapped object state machine"

section \<open>Assertions\<close>

definition yassert :: "bool \<Rightarrow> unit option" where
  "yassert b = (if b then Some () else None)"

lemma yassert_eq_Some [simp]: "yassert b = Some u \<longleftrightarrow> b"
  by (simp add: yassert_def)

lemma yassert_eq_None [simp]: "yassert b = None \<longleftrightarrow> \<not> b"
  by (simp add: yassert_def)

lemma yassert_True [simp]: "yassert True = Some ()"
  by (simp add: yassert_def)

lemma yassert_False [simp]: "yassert False = None"
  by (simp add: yassert_def)

lemma yassert_bind [simp]: "Option.bind (yassert b) f = (if b then f () else None)"
  by (simp add: yassert_def)

lemma bind_SomeE:
  assumes "Option.bind m f = Some y"
  obtains x where "m = Some x" "f x = Some y"
  using assms by (auto simp: bind_eq_Some_conv)

section \<open>Loops over a snapshot\<close>

text \<open>A range-based \<^verbatim>\<open>for\<close> whose body threads the state and may fail an assertion.\<close>

fun for_each :: "'a list \<Rightarrow> ('a \<Rightarrow> 's \<Rightarrow> 's option) \<Rightarrow> 's \<Rightarrow> 's option" where
  "for_each [] f s = Some s"
| "for_each (x # xs) f s = Option.bind (f x s) (for_each xs f)"

lemma for_each_append:
  "for_each (xs @ ys) f s = Option.bind (for_each xs f s) (for_each ys f)"
  by (induction xs arbitrary: s) (auto split: Option.bind_splits)

lemma for_each_invariant:
  assumes "for_each xs f s = Some t" and "P s"
    and "\<And>x u v. x \<in> set xs \<Longrightarrow> P u \<Longrightarrow> f x u = Some v \<Longrightarrow> P v"
  shows "P t"
  using assms by (induction xs arbitrary: s) (auto simp: bind_eq_Some_conv)

text \<open>A loop over distinct keys whose body rewrites the entry of its key and nothing else.\<close>

lemma for_each_pointwise:
  assumes "for_each xs f s = Some t" and "distinct xs" and "P s"
    and "\<And>x u u'. x \<in> set xs \<Longrightarrow> P u \<Longrightarrow> V u x = V s x \<Longrightarrow> f x u = Some u' \<Longrightarrow>
      P u' \<and> V u' = (V u)(x := G x (V u x))"
  shows "P t \<and> V t = (\<lambda>i. if i \<in> set xs then G i (V s i) else V s i)"
  using assms
proof (induction xs arbitrary: s)
  case Nil
  then show ?case by simp
next
  case (Cons x xs)
  obtain s1 where s1: "f x s = Some s1" "for_each xs f s1 = Some t"
    using Cons.prems(1) by (auto simp: bind_eq_Some_conv)
  have V1: "P s1" "V s1 = (V s)(x := G x (V s x))"
    using Cons.prems(4)[of x s s1] Cons.prems(3) s1(1) by (simp_all add: fun_upd_def)
  have "P t \<and> V t = (\<lambda>i. if i \<in> set xs then G i (V s1 i) else V s1 i)"
  proof (rule Cons.IH[OF s1(2) _ V1(1)])
    show "distinct xs" using Cons.prems(2) by simp
    fix y u u'
    assume "y \<in> set xs" "P u" "V u y = V s1 y" "f y u = Some u'"
    then show "P u' \<and> V u' = (V u)(y := G y (V u y))"
      using Cons.prems(4)[of y u u'] Cons.prems(2) V1(2) by auto
  qed
  then show ?case using V1(2) Cons.prems(2) by (auto simp: fun_eq_iff)
qed

lemma for_each_total:
  assumes "P s" and "\<And>x u. x \<in> set xs \<Longrightarrow> P u \<Longrightarrow> \<exists>v. f x u = Some v \<and> P v"
  shows "\<exists>t. for_each xs f s = Some t \<and> P t"
  using assms
proof (induction xs arbitrary: s)
  case Nil
  then show ?case by simp
next
  case (Cons x xs)
  from Cons.prems(1) Cons.prems(2)[of x s] obtain v where v: "f x s = Some v" "P v"
    by auto
  from Cons.IH[OF v(2)] Cons.prems(2) obtain t where "for_each xs f v = Some t \<and> P t"
    by auto
  with v show ?case by auto
qed

lemma for_each_cong [fundef_cong]:
  assumes "xs = ys" and "s = t" and "\<And>x u. x \<in> set ys \<Longrightarrow> f x u = g x u"
  shows "for_each xs f s = for_each ys g t"
  using assms(3) unfolding assms(1,2)
  by (induction ys arbitrary: t) (auto split: Option.bind_splits)

section \<open>Association lists for unordered maps\<close>

text \<open>
  \<^verbatim>\<open>std::unordered_map\<close> has no specified iteration order; an association list with distinct
  keys stands for the map together with the order in which one run iterates over it.
\<close>

abbreviation distinct_keys :: "('k \<times> 'v) list \<Rightarrow> bool" where
  "distinct_keys al \<equiv> distinct (map fst al)"

lemma distinct_keys_update: "distinct_keys al \<Longrightarrow> distinct_keys (AList.update k v al)"
  by (simp add: distinct_update)

lemma distinct_keys_delete: "distinct_keys al \<Longrightarrow> distinct_keys (AList.delete k al)"
  by (simp add: distinct_delete)

lemma map_of_alist_delete: "map_of (AList.delete k al) x = (if x = k then None else map_of al x)"
  by (simp add: delete_conv')

lemma map_of_alist_update: "map_of (AList.update k v al) x = (if x = k then Some v else map_of al x)"
  by (simp add: update_conv')

section \<open>Machine words\<close>

lemma unat_word_of_nat64: "n < 2 ^ 64 \<Longrightarrow> unat (word_of_nat n :: 64 word) = n"
  by (simp add: unat_of_nat take_bit_nat_eq_self)

end
