(* ===== verification/Ring_Buffer.thy ===== *)
theory Ring_Buffer
  imports Prelude
begin

unbundle bit_operations_syntax

text \<open>
  \<^verbatim>\<open>base/LockFreeRingBuffer.hpp\<close>: a single-producer single-consumer ring over an array of
  \<open>MAX_SIZE\<close> characters.  \<open>MAX_SIZE\<close> is the length of \<open>m_data\<close>; \<open>ring_init\<close> builds the buffer
  with the size config.h gives it.  Iterators into the caller's buffer are the lists they range
  over, and the returned iterator of \<^verbatim>\<open>write\<close> is the number of characters taken.
\<close>

record 'a ring =
  write_idx :: nat
  read_idx :: nat
  m_data :: "'a list"

definition YOGI_RING_BUFFER_SIZE :: nat where
  "YOGI_RING_BUFFER_SIZE = 64 * 1024 - 1"

abbreviation max_size :: "'a ring \<Rightarrow> nat" where
  "max_size r \<equiv> length (m_data r)"

definition ring_init :: "'a \<Rightarrow> 'a ring" where
  "ring_init x = \<lparr>write_idx = 0, read_idx = 0, m_data = replicate (YOGI_RING_BUFFER_SIZE + 1) x\<rparr>"

definition capacity :: "'a ring \<Rightarrow> nat" where
  "capacity r = max_size r - 1"

section \<open>Index arithmetic\<close>

definition read_available :: "nat \<Rightarrow> nat \<Rightarrow> nat \<Rightarrow> nat" where
  "read_available mx wi ri = (if wi \<ge> ri then wi - ri else wi + mx - ri)"

text \<open>The subtraction is on \<^verbatim>\<open>std::size_t\<close> and wraps when the reader is not ahead.\<close>

definition write_available :: "nat \<Rightarrow> nat \<Rightarrow> nat \<Rightarrow> nat" where
  "write_available mx wi ri =
     (let n = word_of_nat ri - word_of_nat wi - 1 :: 64 word
      in unat (if wi \<ge> ri then n + word_of_nat mx else n))"

definition next_index :: "nat \<Rightarrow> nat \<Rightarrow> nat" where
  "next_index mx idx = (let idx1 = idx + 1 in if idx1 \<ge> mx then idx1 - mx else idx1)"

section \<open>Operations\<close>

definition ring_empty :: "'a ring \<Rightarrow> bool" where
  "ring_empty r \<longleftrightarrow> write_idx r = read_idx r"

definition ring_full :: "'a ring \<Rightarrow> bool" where
  "ring_full r \<longleftrightarrow> write_available (max_size r) (write_idx r) (read_idx r) = 0"

definition ring_front :: "'a ring \<Rightarrow> 'a" where
  "ring_front r = m_data r ! read_idx r"

definition ring_pop :: "'a ring \<Rightarrow> 'a ring option" where
  "ring_pop r = do { yassert (\<not> ring_empty r);
     Some (r\<lparr>read_idx := next_index (max_size r) (read_idx r)\<rparr>) }"

text \<open>\<^verbatim>\<open>std::copy\<close> out of and into the array.\<close>

definition slice :: "'a list \<Rightarrow> nat \<Rightarrow> nat \<Rightarrow> 'a list" where
  "slice d from to = take (to - from) (drop from d)"

definition overwrite :: "'a list \<Rightarrow> nat \<Rightarrow> 'a list \<Rightarrow> 'a list" where
  "overwrite d from xs = take from d @ xs @ drop (from + length xs) d"

text \<open>The array accesses of \<^verbatim>\<open>read\<close> and \<^verbatim>\<open>write\<close> for given indices and count.\<close>

definition copy_out :: "'a list \<Rightarrow> nat \<Rightarrow> nat \<Rightarrow> 'a list \<times> nat" where
  "copy_out d ri n = (let mx = length d; newRi = ri + n in
     if newRi > mx then
       (let count0 = mx - ri; count1 = n - count0
        in (slice d ri mx @ slice d 0 count1, newRi - mx))
     else (slice d ri (ri + n), if newRi = mx then 0 else newRi))"

definition copy_in :: "'a list \<Rightarrow> nat \<Rightarrow> 'a list \<Rightarrow> 'a list \<times> nat" where
  "copy_in d wi xs = (let mx = length d; newWi = wi + length xs in
     if newWi > mx then
       (let count0 = mx - wi
        in (overwrite (overwrite d wi (take count0 xs)) 0 (drop count0 xs), newWi - mx))
     else (overwrite d wi xs, if newWi = mx then 0 else newWi))"

definition ring_read :: "nat \<Rightarrow> 'a ring \<Rightarrow> 'a list \<times> 'a ring" where
  "ring_read maxSize r = (let wi = write_idx r; ri = read_idx r; avail = read_available (max_size r) wi ri in
     if avail = 0 then ([], r)
     else (let (out, newRi) = copy_out (m_data r) ri (min maxSize avail)
       in (out, r\<lparr>read_idx := newRi\<rparr>)))"

definition ring_write :: "'a list \<Rightarrow> 'a ring \<Rightarrow> nat \<times> 'a ring" where
  "ring_write xs r = (let wi = write_idx r; ri = read_idx r; avail = write_available (max_size r) wi ri in
     if avail = 0 then (0, r)
     else (let inputCnt = min (length xs) avail; (d, newWi) = copy_in (m_data r) wi (take inputCnt xs)
       in (inputCnt, r\<lparr>m_data := d, write_idx := newWi\<rparr>)))"

text \<open>The contiguous regions handed to the socket: offset and size.\<close>

definition first_read_array :: "'a ring \<Rightarrow> nat \<times> nat" where
  "first_read_array r = (let wi = write_idx r; ri = read_idx r in
     if wi < ri then (ri, max_size r - ri) else (ri, wi - ri))"

definition first_write_array :: "'a ring \<Rightarrow> nat \<times> nat" where
  "first_write_array r = (let wi = write_idx r; ri = read_idx r in
     if wi < ri then (wi, ri - wi - 1) else (wi, max_size r - wi - (if ri = 0 then 1 else 0)))"

definition commit_first_read_array :: "nat \<Rightarrow> 'a ring \<Rightarrow> 'a ring option" where
  "commit_first_read_array n r = do { yassert (n \<le> snd (first_read_array r));
     let ri = read_idx r + n in
     Some (r\<lparr>read_idx := (if ri = max_size r then 0 else ri)\<rparr>) }"

definition commit_first_write_array :: "nat \<Rightarrow> 'a ring \<Rightarrow> 'a ring option" where
  "commit_first_write_array n r = do { yassert (n \<le> snd (first_write_array r));
     let wi = write_idx r + n in
     Some (r\<lparr>write_idx := (if wi \<ge> max_size r then wi - max_size r else wi)\<rparr>) }"

text \<open>What the socket does with the regions: read the characters, or fill in received ones.\<close>

definition region :: "'a ring \<Rightarrow> nat \<Rightarrow> 'a list" where
  "region r n = take n (slice (m_data r) (fst (first_read_array r))
     (fst (first_read_array r) + snd (first_read_array r)))"

definition fill_region :: "'a list \<Rightarrow> 'a ring \<Rightarrow> 'a ring" where
  "fill_region xs r = r\<lparr>m_data := overwrite (m_data r) (fst (first_write_array r)) xs\<rparr>"

section \<open>The queue a ring represents\<close>

definition ring_ok :: "'a ring \<Rightarrow> bool" where
  "ring_ok r \<longleftrightarrow> write_idx r < max_size r \<and> read_idx r < max_size r \<and> max_size r < 2 ^ 64"

definition contents :: "'a ring \<Rightarrow> 'a list" where
  "contents r = map (\<lambda>k. m_data r ! ((read_idx r + k) mod max_size r))
     [0..<read_available (max_size r) (write_idx r) (read_idx r)]"

lemma ring_init_ok: "ring_ok (ring_init x)"
  by (simp add: ring_ok_def ring_init_def YOGI_RING_BUFFER_SIZE_def)

lemma contents_init: "contents (ring_init x) = []"
  by (simp add: contents_def ring_init_def read_available_def)

lemma length_contents: "length (contents r) = read_available (max_size r) (write_idx r) (read_idx r)"
  by (simp add: contents_def)

lemma write_available_eq:
  assumes "wi < mx" "ri < mx" "mx < 2 ^ 64"
  shows "write_available mx wi ri = mx - 1 - read_available mx wi ri"
proof (cases "wi \<ge> ri")
  case True
  have eq: "word_of_nat ri - word_of_nat wi - 1 + word_of_nat mx = (word_of_nat (mx + ri - wi - 1) :: 64 word)"
    using True assms by (simp add: of_nat_diff algebra_simps)
  have "write_available mx wi ri = unat (word_of_nat ri - word_of_nat wi - 1 + word_of_nat mx :: 64 word)"
    using True by (simp only: write_available_def Let_def if_True)
  also have "\<dots> = mx + ri - wi - 1"
    unfolding eq by (rule unat_word_of_nat64) (use assms True in simp)
  finally show ?thesis using True assms by (simp add: read_available_def)
next
  case False
  have eq: "word_of_nat ri - word_of_nat wi - 1 = (word_of_nat (ri - wi - 1) :: 64 word)"
    using False assms by (simp add: of_nat_diff algebra_simps)
  have "write_available mx wi ri = unat (word_of_nat ri - word_of_nat wi - 1 :: 64 word)"
    using False by (simp add: write_available_def Let_def)
  also have "\<dots> = ri - wi - 1"
    unfolding eq by (rule unat_word_of_nat64) (use assms False in simp)
  finally show ?thesis using False assms by (simp add: read_available_def)
qed

lemma ring_okD:
  assumes "ring_ok r"
  shows "write_idx r < max_size r" "read_idx r < max_size r"
    "write_available (max_size r) (write_idx r) (read_idx r) = capacity r - length (contents r)"
    "length (contents r) \<le> capacity r"
  using assms by (auto simp: ring_ok_def write_available_eq length_contents capacity_def read_available_def)

section \<open>Copying in and out\<close>

lemma mod_once: "(a::nat) < 2 * n \<Longrightarrow> a mod n = (if a < n then a else a - n)"
  by (simp add: le_mod_geq)

lemma nth_overwrite:
  assumes "from + length xs \<le> length d" "k < length d"
  shows "overwrite d from xs ! k = (if from \<le> k \<and> k < from + length xs then xs ! (k - from) else d ! k)"
  using assms by (auto simp: overwrite_def nth_append min_def)

lemma length_overwrite [simp]:
  "from + length xs \<le> length d \<Longrightarrow> length (overwrite d from xs) = length d"
  by (simp add: overwrite_def)

lemma nth_slice: "k < to - from \<Longrightarrow> to \<le> length d \<Longrightarrow> slice d from to ! k = d ! (from + k)"
  by (simp add: slice_def)

lemma length_slice [simp]: "to \<le> length d \<Longrightarrow> length (slice d from to) = to - from"
  by (simp add: slice_def)

text \<open>The index after advancing by \<open>n\<close>, and the characters read on the way.\<close>

lemma copy_out_eq:
  assumes "ri < length d" "n \<le> length d"
  shows "copy_out d ri n = (map (\<lambda>k. d ! ((ri + k) mod length d)) [0..<n], (ri + n) mod length d)"
proof (cases "ri + n > length d")
  case True
  have "slice d ri (length d) @ slice d 0 (n - (length d - ri)) =
    map (\<lambda>k. d ! ((ri + k) mod length d)) [0..<n]"
    using True assms
    by (intro nth_equalityI) (auto simp: nth_append nth_slice mod_if slice_def add.commute)
  moreover have "ri + n - length d = (ri + n) mod length d" using True assms by (simp add: mod_if)
  ultimately show ?thesis using True by (simp add: copy_out_def Let_def)
next
  case False
  have "slice d ri (ri + n) = map (\<lambda>k. d ! ((ri + k) mod length d)) [0..<n]"
    using False assms by (intro nth_equalityI) (auto simp: nth_slice slice_def)
  then show ?thesis using False by (auto simp: copy_out_def Let_def)
qed

lemma copy_in_idx:
  assumes "wi < length d" "length xs \<le> length d"
  shows "snd (copy_in d wi xs) = (wi + length xs) mod length d"
    and "length (fst (copy_in d wi xs)) = length d"
  using assms by (auto simp: copy_in_def Let_def mod_if)

lemma copy_in_nth:
  assumes "wi < length d" "length xs \<le> length d" "k < length d"
  shows "fst (copy_in d wi xs) ! k =
    (let m = (if wi \<le> k then k - wi else k + length d - wi) in if m < length xs then xs ! m else d ! k)"
proof (cases "wi + length xs > length d")
  case True
  then show ?thesis using assms
    by (auto simp: copy_in_def Let_def nth_overwrite add.commute)
next
  case False
  then show ?thesis using assms
    by (auto simp: copy_in_def Let_def nth_overwrite)
qed

section \<open>Windows of the circular array\<close>

definition window :: "'a list \<Rightarrow> nat \<Rightarrow> nat \<Rightarrow> 'a list" where
  "window d ri n = map (\<lambda>k. d ! ((ri + k) mod length d)) [0..<n]"

lemma contents_window:
  "contents r = window (m_data r) (read_idx r) (read_available (max_size r) (write_idx r) (read_idx r))"
  by (simp add: contents_def window_def)

lemma length_window [simp]: "length (window d ri n) = n"
  by (simp add: window_def)

lemma window_0 [simp]: "window d ri 0 = []"
  by (simp add: window_def)

lemma nth_window: "k < n \<Longrightarrow> window d ri n ! k = d ! ((ri + k) mod length d)"
  by (simp add: window_def)

lemma take_window: "take n (window d ri m) = window d ri (min n m)"
  by (simp add: window_def take_map min_def)

lemma drop_window: "drop n (window d ri m) = window d ((ri + n) mod length d) (m - n)"
  by (rule nth_equalityI) (auto simp: nth_window mod_add_left_eq add.assoc)

lemma window_copy_in:
  assumes "ri < length d" "m + length xs \<le> length d"
  shows "window (fst (copy_in d ((ri + m) mod length d) xs)) ri (m + length xs) = window d ri m @ xs"
    (is "window ?d ri ?n = _")
proof (cases "length d = 0")
  case True
  then show ?thesis using assms by simp
next
  case False
  define wi where "wi = (ri + m) mod length d"
  have wi: "wi < length d" using False by (simp add: wi_def)
  have len: "length ?d = length d" using copy_in_idx(2)[OF wi, of xs] assms(2) by (simp add: wi_def)
  show ?thesis
  proof (rule nth_equalityI)
    show "length (window ?d ri ?n) = length (window d ri m @ xs)" by simp
    fix k assume "k < length (window ?d ri ?n)"
    then have k: "k < m + length xs" by simp
    define p where "p = (ri + k) mod length d"
    have p: "p < length d" using False by (simp add: p_def)
    have "?d ! p = (let j = (if wi \<le> p then p - wi else p + length d - wi) in if j < length xs then xs ! j else d ! p)"
      using copy_in_nth[OF wi _ p, of xs] assms(2) by (simp add: wi_def)
    moreover have "(if wi \<le> p then p - wi else p + length d - wi) = (if m \<le> k then k - m else k + length d - m)"
    proof -
      have "wi = (if ri + m < length d then ri + m else ri + m - length d)"
        unfolding wi_def using assms by (intro mod_once) simp
      moreover have "p = (if ri + k < length d then ri + k else ri + k - length d)"
        unfolding p_def using assms k by (intro mod_once) simp
      ultimately show ?thesis using assms k by (auto split: if_splits)
    qed
    ultimately show "window ?d ri ?n ! k = (window d ri m @ xs) ! k"
      using k assms(2) by (auto simp: nth_window nth_append len Let_def p_def)
  qed
qed

lemma read_available_advance:
  assumes "wi < mx" "ri < mx"
  shows "n \<le> read_available mx wi ri \<Longrightarrow> read_available mx wi ((ri + n) mod mx) = read_available mx wi ri - n"
    and "read_available mx wi ri + n < mx \<Longrightarrow>
      read_available mx ((wi + n) mod mx) ri = read_available mx wi ri + n"
    and "(ri + read_available mx wi ri) mod mx = wi"
proof -
  note two = mod_once[of _ mx]
  show "n \<le> read_available mx wi ri \<Longrightarrow> read_available mx wi ((ri + n) mod mx) = read_available mx wi ri - n"
    using assms two[of "ri + n"] by (auto simp: read_available_def split: if_splits)
  show "read_available mx wi ri + n < mx \<Longrightarrow>
      read_available mx ((wi + n) mod mx) ri = read_available mx wi ri + n"
    using assms two[of "wi + n"] by (auto simp: read_available_def split: if_splits)
  show "(ri + read_available mx wi ri) mod mx = wi"
    using assms two[of "ri + read_available mx wi ri"] by (auto simp: read_available_def split: if_splits)
qed

section \<open>Refinement of the bounded queue\<close>

lemma ring_read_spec:
  assumes "ring_ok r"
  shows "fst (ring_read n r) = take n (contents r)"
    and "contents (snd (ring_read n r)) = drop n (contents r)"
    and "ring_ok (snd (ring_read n r))" and "max_size (snd (ring_read n r)) = max_size r"
proof -
  define mx where "mx = max_size r"
  define ra where "ra = read_available mx (write_idx r) (read_idx r)"
  have idx: "write_idx r < mx" "read_idx r < mx" "ra < mx"
    using assms by (auto simp: ring_ok_def mx_def ra_def read_available_def)
  have rd: "ring_read n r = (window (m_data r) (read_idx r) (min n ra),
    r\<lparr>read_idx := (read_idx r + min n ra) mod mx\<rparr>)"
  proof (cases "ra = 0")
    case True
    then show ?thesis using idx by (simp add: ring_read_def Let_def ra_def mx_def window_def)
  next
    case False
    then show ?thesis using idx copy_out_eq[of "read_idx r" "m_data r" "min n ra"]
      by (simp add: ring_read_def Let_def ra_def mx_def window_def)
  qed
  have m: "(read_idx r + min n ra) mod mx < mx" by (rule mod_less_divisor) (use idx(3) in simp)
  have c: "contents r = window (m_data r) (read_idx r) ra"
    by (simp add: contents_window ra_def mx_def)
  show "fst (ring_read n r) = take n (contents r)" by (simp add: rd c take_window)
  show "contents (snd (ring_read n r)) = drop n (contents r)"
    using read_available_advance(1)[OF idx(1,2), of "min n ra"] idx(3)
    by (auto simp: rd contents_window take_window drop_window ra_def[symmetric] mx_def[symmetric] min_def)
  show "ring_ok (snd (ring_read n r))" "max_size (snd (ring_read n r)) = max_size r"
    using assms idx m by (auto simp: rd ring_ok_def mx_def)
qed

lemma ring_write_spec:
  assumes "ring_ok r"
  shows "fst (ring_write xs r) = min (length xs) (capacity r - length (contents r))"
    and "contents (snd (ring_write xs r)) = contents r @ take (fst (ring_write xs r)) xs"
    and "ring_ok (snd (ring_write xs r))" and "max_size (snd (ring_write xs r)) = max_size r"
proof -
  define mx where "mx = max_size r"
  define ra where "ra = read_available mx (write_idx r) (read_idx r)"
  define n where "n = min (length xs) (mx - 1 - ra)"
  have idx: "write_idx r < mx" "read_idx r < mx" "ra < mx" "mx < 2 ^ 64"
    using assms by (auto simp: ring_ok_def mx_def ra_def read_available_def)
  have wa: "write_available mx (write_idx r) (read_idx r) = mx - 1 - ra"
    using write_available_eq[OF idx(1,2,4)] by (simp add: ra_def)
  have nle: "n \<le> length (m_data r)" "length (take n xs) = n" using idx by (auto simp: n_def mx_def)
  define d where "d = fst (copy_in (m_data r) (write_idx r) (take n xs))"
  have d: "copy_in (m_data r) (write_idx r) (take n xs) = (d, (write_idx r + n) mod mx)" "length d = mx"
    using copy_in_idx[of "write_idx r" "m_data r" "take n xs"] idx nle
    by (auto simp: d_def mx_def prod_eq_iff)
  have wr: "fst (ring_write xs r) = n"
    "m_data (snd (ring_write xs r)) = (if mx - 1 - ra = 0 then m_data r else d)"
    "write_idx (snd (ring_write xs r)) = (if mx - 1 - ra = 0 then write_idx r else (write_idx r + n) mod mx)"
    "read_idx (snd (ring_write xs r)) = read_idx r"
    using wa d by (auto simp: ring_write_def Let_def mx_def[symmetric] n_def min_def)
  have m: "(write_idx r + n) mod mx < mx" by (rule mod_less_divisor) (use idx(3) in simp)
  show "fst (ring_write xs r) = min (length xs) (capacity r - length (contents r))"
    by (simp add: wr n_def capacity_def mx_def ra_def length_contents)
  show "ring_ok (snd (ring_write xs r))" "max_size (snd (ring_write xs r)) = max_size r"
    using idx d m by (auto simp: ring_ok_def wr mx_def)
  have c: "contents r = window (m_data r) (read_idx r) ra"
    by (simp add: contents_window ra_def mx_def)
  show "contents (snd (ring_write xs r)) = contents r @ take (fst (ring_write xs r)) xs"
  proof (cases "mx - 1 - ra = 0")
    case True
    then show ?thesis by (simp add: c wr contents_window n_def mx_def ra_def)
  next
    case False
    have "ra + n < mx" using False idx by (auto simp: n_def)
    then have "contents (snd (ring_write xs r)) = window d (read_idx r) (ra + n)"
      using False read_available_advance(2)[OF idx(1,2), of n] d
      by (simp add: contents_window wr ra_def[symmetric])
    also have "\<dots> = window (m_data r) (read_idx r) ra @ take n xs"
      using window_copy_in[of "read_idx r" "m_data r" ra "take n xs"] read_available_advance(3)[OF idx(1,2)]
        idx nle \<open>ra + n < mx\<close> by (simp add: d_def mx_def[symmetric] ra_def[symmetric])
    finally show ?thesis by (simp add: c wr)
  qed
qed

lemma ring_empty_spec: "ring_ok r \<Longrightarrow> ring_empty r \<longleftrightarrow> contents r = []"
  by (auto simp: ring_empty_def contents_def read_available_def ring_ok_def split: if_splits)

lemma ring_full_spec: "ring_ok r \<Longrightarrow> ring_full r \<longleftrightarrow> length (contents r) = capacity r"
  using ring_okD(3,4)[of r] by (auto simp: ring_full_def)

lemma ring_pop_spec:
  assumes "ring_ok r" "contents r \<noteq> []"
  shows "\<exists>r'. ring_pop r = Some r' \<and> ring_ok r' \<and> contents r = ring_front r # contents r' \<and> max_size r' = max_size r"
proof -
  define r' where "r' = r\<lparr>read_idx := next_index (max_size r) (read_idx r)\<rparr>"
  have idx: "write_idx r < max_size r" "read_idx r < max_size r" using ring_okD[OF assms(1)] by auto
  have ra: "1 \<le> read_available (max_size r) (write_idx r) (read_idx r)"
    using assms(2) length_contents[of r] by (cases "contents r") auto
  have nx: "next_index (max_size r) (read_idx r) = (read_idx r + 1) mod max_size r"
    using idx mod_once[of "read_idx r + 1" "max_size r"] by (auto simp: next_index_def Let_def)
  have "contents r = take 1 (contents r) @ drop 1 (contents r)" by simp
  moreover have "take 1 (contents r) = [ring_front r]"
    using ra idx by (simp only: contents_window take_window) (simp add: window_def ring_front_def min_def)
  moreover have "drop 1 (contents r) = contents r'"
    using read_available_advance(1)[OF idx ra]
    by (simp add: contents_window drop_window r'_def nx)
  ultimately have "contents r = ring_front r # contents r'" by (metis append_Cons append_Nil)
  moreover have "ring_ok r'"
    using assms(1) idx by (auto simp: ring_ok_def r'_def next_index_def Let_def)
  moreover have "ring_pop r = Some r'"
    using ring_empty_spec[OF assms(1)] assms(2) by (simp add: ring_pop_def r'_def)
  ultimately show ?thesis by (auto simp: r'_def)
qed

section \<open>The regions for the socket\<close>

text \<open>
  Sending from the first region and committing is a \<^verbatim>\<open>read\<close> of that many characters, receiving
  into the first free region and committing is a \<^verbatim>\<open>write\<close>.
\<close>

lemma first_read_array_bounds:
  assumes "ring_ok r"
  shows "fst (first_read_array r) = read_idx r"
    "snd (first_read_array r) \<le> read_available (max_size r) (write_idx r) (read_idx r)"
    "read_idx r + snd (first_read_array r) \<le> max_size r"
    "snd (first_read_array r) = 0 \<longleftrightarrow> contents r = []"
  using assms length_contents[of r]
  by (auto simp: first_read_array_def Let_def ring_ok_def read_available_def)

lemma commit_first_read_array_spec:
  assumes ok: "ring_ok r" and n: "n \<le> snd (first_read_array r)"
  shows "region r n = fst (ring_read n r)" "commit_first_read_array n r = Some (snd (ring_read n r))"
proof -
  note b = first_read_array_bounds[OF ok]
  define avail where "avail = read_available (max_size r) (write_idx r) (read_idx r)"
  have le: "n \<le> avail" "read_idx r + n \<le> max_size r" using b n by (simp_all add: avail_def)
  have lt: "read_idx r < max_size r" using ok by (simp add: ring_ok_def)
  have com: "commit_first_read_array n r =
      Some (r\<lparr>read_idx := (if read_idx r + n = max_size r then 0 else read_idx r + n)\<rparr>)"
    using n by (simp add: commit_first_read_array_def)
  have reg: "region r n = slice (m_data r) (read_idx r) (read_idx r + n)"
    using n b by (simp add: region_def slice_def)
  have rd: "ring_read n r = (if avail = 0 then ([], r)
      else (slice (m_data r) (read_idx r) (read_idx r + n),
        r\<lparr>read_idx := (if read_idx r + n = max_size r then 0 else read_idx r + n)\<rparr>))"
    using le by (simp add: ring_read_def avail_def[symmetric] copy_out_def Let_def)
  show "region r n = fst (ring_read n r)" using rd reg le by (auto simp: slice_def)
  show "commit_first_read_array n r = Some (snd (ring_read n r))"
    using rd com le lt by (cases "avail = 0") simp_all
qed

lemma first_write_array_bounds:
  assumes "ring_ok r"
  shows "fst (first_write_array r) = write_idx r"
    "snd (first_write_array r) \<le> write_available (max_size r) (write_idx r) (read_idx r)"
    "write_idx r + snd (first_write_array r) \<le> max_size r"
  using assms write_available_eq[of "write_idx r" "max_size r" "read_idx r"]
  by (auto simp: first_write_array_def Let_def ring_ok_def read_available_def)

lemma commit_first_write_array_spec:
  assumes ok: "ring_ok r" and n: "length xs \<le> snd (first_write_array r)"
  shows "fst (ring_write xs r) = length xs"
    "commit_first_write_array (length xs) (fill_region xs r) = Some (snd (ring_write xs r))"
proof -
  note b = first_write_array_bounds[OF ok]
  define avail where "avail = write_available (max_size r) (write_idx r) (read_idx r)"
  have le: "length xs \<le> avail" "write_idx r + length xs \<le> max_size r" using b n by (simp_all add: avail_def)
  have lt: "write_idx r < max_size r" using ok by (simp add: ring_ok_def)
  have mx: "max_size (fill_region xs r) = max_size r"
    using le b by (simp add: fill_region_def)
  have com: "commit_first_write_array (length xs) (fill_region xs r) =
      Some (r\<lparr>m_data := overwrite (m_data r) (write_idx r) xs,
        write_idx := (if write_idx r + length xs = max_size r then 0 else write_idx r + length xs)\<rparr>)"
  proof -
    have "first_write_array (fill_region xs r) = first_write_array r"
      unfolding first_write_array_def Let_def using mx by (simp add: fill_region_def)
    then show ?thesis using n b le mx
      by (auto simp: commit_first_write_array_def fill_region_def Let_def)
  qed
  have wr: "ring_write xs r = (if avail = 0 then (0, r)
      else (length xs, r\<lparr>m_data := overwrite (m_data r) (write_idx r) xs,
        write_idx := (if write_idx r + length xs = max_size r then 0 else write_idx r + length xs)\<rparr>))"
    using le by (simp add: ring_write_def avail_def[symmetric] copy_in_def Let_def)
  show "fst (ring_write xs r) = length xs" using wr le by auto
  show "commit_first_write_array (length xs) (fill_region xs r) = Some (snd (ring_write xs r))"
    using wr com le lt by (cases "avail = 0") (auto simp: overwrite_def)
qed

section \<open>The contract of a bounded queue of characters\<close>

locale bounded_queue =
  fixes ok :: "'q \<Rightarrow> bool" and elems :: "'q \<Rightarrow> 'a list" and cap :: "'q \<Rightarrow> nat"
    and put :: "'a list \<Rightarrow> 'q \<Rightarrow> nat \<times> 'q" and get :: "nat \<Rightarrow> 'q \<Rightarrow> 'a list \<times> 'q"
  assumes put_count: "ok q \<Longrightarrow> fst (put xs q) = min (length xs) (cap q - length (elems q))"
    and put_elems: "ok q \<Longrightarrow> elems (snd (put xs q)) = elems q @ take (fst (put xs q)) xs"
    and put_ok: "ok q \<Longrightarrow> ok (snd (put xs q))" and put_cap: "ok q \<Longrightarrow> cap (snd (put xs q)) = cap q"
    and get_out: "ok q \<Longrightarrow> fst (get n q) = take n (elems q)"
    and get_elems: "ok q \<Longrightarrow> elems (snd (get n q)) = drop n (elems q)"
    and get_ok: "ok q \<Longrightarrow> ok (snd (get n q))" and get_cap: "ok q \<Longrightarrow> cap (snd (get n q)) = cap q"
    and bound: "ok q \<Longrightarrow> length (elems q) \<le> cap q"
begin

text \<open>
  A writer that always goes on behind what the queue has taken, against a reader that takes
  chunks of the given sizes: what has been read, is queued and is still unsent is the input.
\<close>

fun pump :: "nat list \<Rightarrow> 'a list \<Rightarrow> 'q \<Rightarrow> 'a list \<times> 'a list \<times> 'q" where
  "pump [] xs q = ([], xs, q)"
| "pump (n # ns) xs q =
    (let (k, q1) = put xs q; (out, q2) = get n q1; (outs, rest, q3) = pump ns (drop k xs) q2
     in (out @ outs, rest, q3))"

lemma pump_conserves:
  "ok q \<Longrightarrow> pump ns xs q = (out, rest, q') \<Longrightarrow> out @ elems q' @ rest = elems q @ xs \<and> ok q' \<and> cap q' = cap q"
proof (induction ns arbitrary: xs q out rest q')
  case Nil
  then show ?case by simp
next
  case (Cons n ns)
  obtain k q1 where q1: "put xs q = (k, q1)" by force
  obtain o1 q2 where q2: "get n q1 = (o1, q2)" by force
  obtain o2 rs q3 where q3: "pump ns (drop k xs) q2 = (o2, rs, q3)" by (metis prod_cases3)
  have 1: "ok q1" "elems q1 = elems q @ take k xs" "cap q1 = cap q"
    using put_ok[OF Cons.prems(1), of xs] put_elems[OF Cons.prems(1), of xs] put_cap[OF Cons.prems(1), of xs] q1
    by auto
  have 2: "ok q2" "o1 = take n (elems q1)" "elems q2 = drop n (elems q1)" "cap q2 = cap q1"
    using get_ok[OF 1(1), of n] get_out[OF 1(1), of n] get_elems[OF 1(1), of n] get_cap[OF 1(1), of n] q2 by auto
  have eq: "out = o1 @ o2" "rest = rs" "q' = q3" using Cons.prems(2) q1 q2 q3 by auto
  have "o2 @ elems q3 @ rs = elems q2 @ drop k xs" "ok q3" "cap q3 = cap q2"
    using Cons.IH[OF 2(1) q3] by auto
  then have "out @ elems q' @ rest = o1 @ elems q2 @ drop k xs" by (simp add: eq)
  also have "\<dots> = elems q1 @ drop k xs" by (simp add: 2(2,3) flip: append_assoc)
  also have "\<dots> = elems q @ xs" by (simp add: 1(2))
  finally show ?case using \<open>ok q3\<close> \<open>cap q3 = cap q2\<close> 1 2 eq by simp
qed

lemma pump_all_sent:
  assumes "ok q" "0 < cap q" "elems q = []" "length xs \<le> length ns" "\<forall>n \<in> set ns. cap q \<le> n"
    "pump ns xs q = (out, rest, q')"
  shows "out = xs \<and> rest = [] \<and> elems q' = []"
  using assms
proof (induction ns arbitrary: xs q out)
  case Nil
  then show ?case by simp
next
  case (Cons n ns)
  obtain k q1 where q1: "put xs q = (k, q1)" by force
  obtain o1 q2 where q2: "get n q1 = (o1, q2)" by force
  obtain o2 rs q3 where q3: "pump ns (drop k xs) q2 = (o2, rs, q3)" by (metis prod_cases3)
  have k: "k = min (length xs) (cap q)"
    using put_count[OF Cons.prems(1), of xs] q1 Cons.prems(3) by simp
  have 1: "ok q1" "elems q1 = take k xs" "cap q1 = cap q"
    using put_ok[OF Cons.prems(1), of xs] put_elems[OF Cons.prems(1), of xs] put_cap[OF Cons.prems(1), of xs]
      q1 Cons.prems(3) by auto
  have len: "length (elems q1) \<le> n" using bound[OF 1(1)] 1(3) Cons.prems(5) by auto
  have 2: "ok q2" "o1 = elems q1" "elems q2 = []" "cap q2 = cap q"
    using get_ok[OF 1(1), of n] get_out[OF 1(1), of n] get_elems[OF 1(1), of n] get_cap[OF 1(1), of n]
      q2 len 1(3) by auto
  have "length (drop k xs) \<le> length ns" using k Cons.prems(2,4) by auto
  then have "o2 = drop k xs \<and> rest = [] \<and> elems q' = []"
    using Cons.IH[of q2 "drop k xs" o2] 2 q3 Cons.prems q1 q2 by auto
  then show ?case using Cons.prems(6) q1 q2 q3 2(2) 1(2) by auto
qed

end

interpretation ring: bounded_queue ring_ok contents capacity ring_write ring_read
  by unfold_locales (simp_all add: ring_write_spec ring_read_spec capacity_def ring_okD(4)[unfolded capacity_def, simplified])

section \<open>Properties\<close>

text \<open>C22: The ring is a bounded queue: \<^verbatim>\<open>write\<close> appends the longest prefix that fits and returns its
  length, \<^verbatim>\<open>read\<close> removes and returns a prefix of the queue, and both keep the indices in range,
  whether or not the copy wraps around.\<close>

theorem ring_refines_queue:
  assumes "ring_ok r"
  shows "(\<exists>n r'. ring_write xs r = (n, r') \<and> n = min (length xs) (capacity r - length (contents r)) \<and>
      contents r' = contents r @ take n xs \<and> ring_ok r' \<and> capacity r' = capacity r) \<and>
    (\<exists>r'. ring_read n r = (take n (contents r), r') \<and> contents r' = drop n (contents r) \<and>
      ring_ok r' \<and> capacity r' = capacity r)"
  using ring.put_count[OF assms, of xs] ring.put_elems[OF assms, of xs] ring.put_ok[OF assms, of xs]
    ring.put_cap[OF assms, of xs] ring.get_out[OF assms, of n] ring.get_elems[OF assms, of n]
    ring.get_ok[OF assms, of n] ring.get_cap[OF assms, of n]
  by (cases "ring_write xs r"; cases "ring_read n r") simp

definition wrapped_ring :: "nat ring" where
  "wrapped_ring = \<lparr>write_idx = 3, read_idx = 3, m_data = [0, 0, 0, 0]\<rparr>"

lemma ring_refines_queue_witness:
  "contents (snd (ring_write [1, 2, 3, 4] wrapped_ring)) = [1, 2, 3] \<and>
   fst (ring_read 2 (snd (ring_write [1, 2, 3, 4] wrapped_ring))) = [1, 2]"
proof -
  have w: "ring_ok wrapped_ring" "contents wrapped_ring = []" "capacity wrapped_ring = 3"
    by (simp_all add: wrapped_ring_def ring_ok_def contents_def read_available_def capacity_def)
  from ring_refines_queue[OF w(1), of "[1, 2, 3, 4]" 0] w obtain r' where
    1: "ring_write [1, 2, 3, 4] wrapped_ring = (3, r')" "contents r' = [1, 2, 3]" "ring_ok r'"
    by (auto simp: numeral_3_eq_3)
  from ring_refines_queue[OF 1(3), of "[]" 2] 1 show ?thesis by auto
qed

text \<open>C23: Sending from the first readable region and committing is a \<^verbatim>\<open>read\<close>; receiving into the first
  writable region and committing is a \<^verbatim>\<open>write\<close> that fits.  The assertions of the commits hold for
  what a socket can have transferred.\<close>

theorem socket_regions:
  assumes "ring_ok r"
  shows "(n \<le> snd (first_read_array r) \<longrightarrow>
      commit_first_read_array n r = Some (snd (ring_read n r)) \<and> region r n = fst (ring_read n r)) \<and>
    (length xs \<le> snd (first_write_array r) \<longrightarrow>
      commit_first_write_array (length xs) (fill_region xs r) = Some (snd (ring_write xs r)) \<and>
      fst (ring_write xs r) = length xs)"
  using commit_first_read_array_spec[OF assms] commit_first_write_array_spec[OF assms] by auto

lemma socket_regions_witness:
  "commit_first_write_array 1 (fill_region [5] wrapped_ring) = Some (snd (ring_write [5] wrapped_ring)) \<and>
   commit_first_read_array 0 wrapped_ring = Some (snd (ring_read 0 wrapped_ring))"
proof -
  have w: "ring_ok wrapped_ring" "length [5 :: nat] \<le> snd (first_write_array wrapped_ring)"
    by (simp_all add: wrapped_ring_def ring_ok_def first_write_array_def Let_def)
  show ?thesis using socket_regions[OF w(1), of 0 "[5]"] w(2) by simp
qed

end
