(* ===== verification/Ring_Concurrent.thy ===== *)
theory Ring_Concurrent
  imports Ring_Buffer
begin

text \<open>
  The ring buffer shared by one producer and one consumer thread.  A call of \<^verbatim>\<open>write\<close> or
  \<^verbatim>\<open>read\<close> is three steps: load both indices, copy, store the own index.  Steps of the two
  threads interleave freely, so each thread works with an index of the other one that may be
  stale.  Memory is sequentially consistent; the acquire and release orders of the source give
  this for the accesses modelled here (an index is stored after the copy it publishes).
\<close>

datatype 'a producer = P_Idle | P_Loaded "'a list" nat nat | P_Copied "'a list" nat

datatype 'a consumer = C_Idle | C_Loaded nat nat nat | C_Copied "'a list" nat

record 'a spsc =
  rg :: "'a ring"
  producer :: "'a producer"
  consumer :: "'a consumer"
  produced :: "'a list"
  consumed :: "'a list"

definition spsc_init :: "'a ring \<Rightarrow> 'a spsc" where
  "spsc_init r = \<lparr>rg = r, producer = P_Idle, consumer = C_Idle, produced = [], consumed = []\<rparr>"

inductive spsc_step :: "'a spsc \<Rightarrow> 'a spsc \<Rightarrow> bool" where
  p_load: "producer s = P_Idle \<Longrightarrow>
    spsc_step s (s\<lparr>producer := P_Loaded xs (write_idx (rg s)) (read_idx (rg s))\<rparr>)"
| p_full: "producer s = P_Loaded xs wi ri \<Longrightarrow> write_available (max_size (rg s)) wi ri = 0 \<Longrightarrow>
    spsc_step s (s\<lparr>producer := P_Idle\<rparr>)"
| p_copy: "producer s = P_Loaded xs wi ri \<Longrightarrow> avail = write_available (max_size (rg s)) wi ri \<Longrightarrow> avail \<noteq> 0 \<Longrightarrow>
    ys = take (min (length xs) avail) xs \<Longrightarrow> copy_in (m_data (rg s)) wi ys = (d, newWi) \<Longrightarrow>
    spsc_step s (s\<lparr>rg := (rg s)\<lparr>m_data := d\<rparr>, producer := P_Copied ys newWi\<rparr>)"
| p_store: "producer s = P_Copied ys newWi \<Longrightarrow>
    spsc_step s (s\<lparr>rg := (rg s)\<lparr>write_idx := newWi\<rparr>, producer := P_Idle, produced := produced s @ ys\<rparr>)"
| c_load: "consumer s = C_Idle \<Longrightarrow>
    spsc_step s (s\<lparr>consumer := C_Loaded n (write_idx (rg s)) (read_idx (rg s))\<rparr>)"
| c_empty: "consumer s = C_Loaded n wi ri \<Longrightarrow> read_available (max_size (rg s)) wi ri = 0 \<Longrightarrow>
    spsc_step s (s\<lparr>consumer := C_Idle\<rparr>)"
| c_copy: "consumer s = C_Loaded n wi ri \<Longrightarrow> avail = read_available (max_size (rg s)) wi ri \<Longrightarrow> avail \<noteq> 0 \<Longrightarrow>
    copy_out (m_data (rg s)) ri (min n avail) = (out, newRi) \<Longrightarrow>
    spsc_step s (s\<lparr>consumer := C_Copied out newRi\<rparr>)"
| c_store: "consumer s = C_Copied out newRi \<Longrightarrow>
    spsc_step s (s\<lparr>rg := (rg s)\<lparr>read_idx := newRi\<rparr>, consumer := C_Idle, consumed := consumed s @ out\<rparr>)"

inductive spsc_reachable :: "'a ring \<Rightarrow> 'a spsc \<Rightarrow> bool" for r where
  start: "spsc_reachable r (spsc_init r)"
| step: "spsc_reachable r s \<Longrightarrow> spsc_step s t \<Longrightarrow> spsc_reachable r t"

text \<open>What each thread knows: its own index is exact, the other one is stale but safe.\<close>

definition producer_ok :: "'a ring \<Rightarrow> 'a producer \<Rightarrow> bool" where
  "producer_ok r p = (case p of P_Idle \<Rightarrow> True
    | P_Loaded xs wi ri \<Rightarrow> wi = write_idx r \<and> ri < max_size r \<and>
        length (contents r) \<le> read_available (max_size r) wi ri
    | P_Copied ys newWi \<Rightarrow> length (contents r) + length ys < max_size r \<and>
        newWi = (write_idx r + length ys) mod max_size r \<and>
        window (m_data r) (read_idx r) (length (contents r) + length ys) = contents r @ ys)"

definition consumer_ok :: "'a ring \<Rightarrow> 'a consumer \<Rightarrow> bool" where
  "consumer_ok r c = (case c of C_Idle \<Rightarrow> True
    | C_Loaded n wi ri \<Rightarrow> ri = read_idx r \<and> wi < max_size r \<and>
        read_available (max_size r) wi ri \<le> length (contents r)
    | C_Copied out newRi \<Rightarrow> length out \<le> length (contents r) \<and> out = take (length out) (contents r) \<and>
        newRi = (read_idx r + length out) mod max_size r)"

definition spsc_inv :: "'a spsc \<Rightarrow> bool" where
  "spsc_inv s \<longleftrightarrow> ring_ok (rg s) \<and> consumed s @ contents (rg s) = produced s
     \<and> producer_ok (rg s) (producer s) \<and> consumer_ok (rg s) (consumer s)"

lemma spsc_inv_init: "ring_ok r \<Longrightarrow> contents r = [] \<Longrightarrow> spsc_inv (spsc_init r)"
  by (simp add: spsc_inv_def spsc_init_def producer_ok_def consumer_ok_def)

text \<open>The copy of the producer does not touch what the consumer may read.\<close>

lemma producer_copy:
  assumes ok: "ring_ok r" and ri: "ri < max_size r"
    and stale: "length (contents r) \<le> read_available (max_size r) (write_idx r) ri"
    and ys: "length ys \<le> write_available (max_size r) (write_idx r) ri"
    and cp: "copy_in (m_data r) (write_idx r) ys = (d, newWi)"
  shows "ring_ok (r\<lparr>m_data := d\<rparr>)" and "contents (r\<lparr>m_data := d\<rparr>) = contents r"
    and "producer_ok (r\<lparr>m_data := d\<rparr>) (P_Copied ys newWi)" and "length d = max_size r"
proof -
  have idx: "write_idx r < max_size r" "read_idx r < max_size r" "max_size r < 2 ^ 64"
    using ok by (auto simp: ring_ok_def)
  have "write_available (max_size r) (write_idx r) ri = max_size r - 1 - read_available (max_size r) (write_idx r) ri"
    by (rule write_available_eq[OF idx(1) ri idx(3)])
  moreover have "length (contents r) < max_size r"
    using ring_okD(4)[OF ok] idx by (auto simp: capacity_def)
  ultimately have len: "length (contents r) + length ys < max_size r" using ys stale by linarith
  have d: "length d = max_size r" "newWi = (write_idx r + length ys) mod max_size r"
    using copy_in_idx[of "write_idx r" "m_data r" ys] cp idx len by auto
  show "length d = max_size r" by (rule d)
  show "ring_ok (r\<lparr>m_data := d\<rparr>)" using ok d by (simp add: ring_ok_def)
  have wi: "(read_idx r + length (contents r)) mod max_size r = write_idx r"
    using read_available_advance(3)[OF idx(1,2)] by (simp add: length_contents)
  have w: "window d (read_idx r) (length (contents r) + length ys) = contents r @ ys"
    using window_copy_in[OF idx(2), of "length (contents r)" ys] len cp wi
    by (simp add: contents_window length_contents)
  have "contents (r\<lparr>m_data := d\<rparr>) = window d (read_idx r) (length (contents r))"
    by (simp add: contents_window d(1) length_contents)
  also have "\<dots> = take (length (contents r)) (contents r @ ys)"
    by (simp only: w[symmetric] take_window) (simp add: min_def)
  finally show c: "contents (r\<lparr>m_data := d\<rparr>) = contents r" by simp
  show "producer_ok (r\<lparr>m_data := d\<rparr>) (P_Copied ys newWi)"
    using len d w c by (simp add: producer_ok_def)
qed

lemma mod_self_less: "(a::nat) < mx \<Longrightarrow> x mod mx < mx"
  by (cases "mx = 0") auto

text \<open>Publishing the written characters moves them into the queue; the reader only gains.\<close>

lemma producer_store:
  assumes ok: "ring_ok r" and p: "producer_ok r (P_Copied ys newWi)"
  shows "ring_ok (r\<lparr>write_idx := newWi\<rparr>)" and "contents (r\<lparr>write_idx := newWi\<rparr>) = contents r @ ys"
    and "consumer_ok r c \<Longrightarrow> consumer_ok (r\<lparr>write_idx := newWi\<rparr>) c"
proof -
  have idx: "write_idx r < max_size r" "read_idx r < max_size r" using ok by (auto simp: ring_ok_def)
  have p': "length (contents r) + length ys < max_size r" "newWi = (write_idx r + length ys) mod max_size r"
    "window (m_data r) (read_idx r) (length (contents r) + length ys) = contents r @ ys"
    using p by (auto simp: producer_ok_def)
  show "ring_ok (r\<lparr>write_idx := newWi\<rparr>)"
    using ok p'(2) mod_self_less[OF idx(1), of "write_idx r + length ys"] by (simp add: ring_ok_def)
  have "read_available (max_size r) newWi (read_idx r) = length (contents r) + length ys"
    using read_available_advance(2)[OF idx, of "length ys"] p' by (simp add: length_contents)
  then show c: "contents (r\<lparr>write_idx := newWi\<rparr>) = contents r @ ys"
    using p'(3) by (simp add: contents_window)
  show "consumer_ok (r\<lparr>write_idx := newWi\<rparr>) c" if "consumer_ok r c"
    using that c by (auto simp: consumer_ok_def split: consumer.splits)
qed

text \<open>Publishing the new read index removes what was read; the writer only gains.\<close>

lemma consumer_store:
  assumes ok: "ring_ok r" and c: "consumer_ok r (C_Copied out newRi)"
  shows "ring_ok (r\<lparr>read_idx := newRi\<rparr>)" and "out @ contents (r\<lparr>read_idx := newRi\<rparr>) = contents r"
    and "producer_ok r p \<Longrightarrow> producer_ok (r\<lparr>read_idx := newRi\<rparr>) p"
proof -
  have idx: "write_idx r < max_size r" "read_idx r < max_size r" using ok by (auto simp: ring_ok_def)
  have c': "length out \<le> length (contents r)" "out = take (length out) (contents r)"
    "newRi = (read_idx r + length out) mod max_size r"
    using c by (auto simp: consumer_ok_def)
  show "ring_ok (r\<lparr>read_idx := newRi\<rparr>)"
    using ok c'(3) mod_self_less[OF idx(1), of "read_idx r + length out"] by (simp add: ring_ok_def)
  have new: "contents (r\<lparr>read_idx := newRi\<rparr>) = drop (length out) (contents r)"
    using read_available_advance(1)[OF idx, of "length out"] c'
    by (simp add: contents_window drop_window length_contents)
  then show "out @ contents (r\<lparr>read_idx := newRi\<rparr>) = contents r"
    using c'(2) by (metis append_take_drop_id)
  have "window (m_data r) newRi (length (contents r) - length out + length ys) = drop (length out) (contents r) @ ys"
    if "window (m_data r) (read_idx r) (length (contents r) + length ys) = contents r @ ys" for ys
  proof -
    have "window (m_data r) newRi (length (contents r) - length out + length ys) =
      drop (length out) (window (m_data r) (read_idx r) (length (contents r) + length ys))"
      using c'(1,3) by (simp add: drop_window)
    then show ?thesis using that c'(1) by simp
  qed
  then show "producer_ok (r\<lparr>read_idx := newRi\<rparr>) p" if "producer_ok r p"
    using that new c'(1) by (auto simp: producer_ok_def split: producer.splits)
qed

lemma consumer_copy:
  assumes ok: "ring_ok r" and c: "consumer_ok r (C_Loaded n wi ri)"
    and cp: "copy_out (m_data r) ri (min n (read_available (max_size r) wi ri)) = (out, newRi)"
  shows "consumer_ok r (C_Copied out newRi)"
proof -
  define k where "k = min n (read_available (max_size r) wi ri)"
  have c': "ri = read_idx r" "k \<le> length (contents r)" using c by (auto simp: consumer_ok_def k_def)
  have len: "length (contents r) < max_size r"
    using ring_okD(1,4)[OF ok] by (auto simp: capacity_def)
  have "out = window (m_data r) ri k" "newRi = (ri + k) mod max_size r"
    using copy_out_eq[of ri "m_data r" k] cp[folded k_def] c' len ring_okD(2)[OF ok] by (auto simp: window_def)
  then show ?thesis using c'
    by (auto simp: consumer_ok_def contents_window take_window min_def length_contents)
qed

lemma spsc_step_inv: "spsc_step s t \<Longrightarrow> spsc_inv s \<Longrightarrow> spsc_inv t"
proof (induction rule: spsc_step.induct)
  case (p_load s xs)
  then show ?case using ring_okD(2)[of "rg s"]
    by (auto simp: spsc_inv_def producer_ok_def length_contents)
next
  case (p_copy s xs wi ri avail ys d newWi)
  from p_copy.prems p_copy.hyps(1) have ok: "ring_ok (rg s)" "ri < max_size (rg s)"
    "length (contents (rg s)) \<le> read_available (max_size (rg s)) (write_idx (rg s)) ri" "wi = write_idx (rg s)"
    by (auto simp: spsc_inv_def producer_ok_def)
  have "length ys \<le> write_available (max_size (rg s)) (write_idx (rg s)) ri"
    using p_copy.hyps ok(4) by simp
  note pc = producer_copy[OF ok(1-3) this p_copy.hyps(5)[unfolded ok(4)]]
  then show ?case using p_copy.prems
    by (auto simp: spsc_inv_def consumer_ok_def split: consumer.splits)
next
  case (p_store s ys newWi)
  then have ok: "ring_ok (rg s)" "producer_ok (rg s) (P_Copied ys newWi)" by (auto simp: spsc_inv_def)
  from p_store show ?case using producer_store[OF ok]
    by (auto simp: spsc_inv_def producer_ok_def[of _ P_Idle])
next
  case (c_load s n)
  then show ?case using ring_okD(1)[of "rg s"]
    by (auto simp: spsc_inv_def consumer_ok_def length_contents)
next
  case (c_copy s n wi ri avail out newRi)
  then show ?case using consumer_copy[of "rg s" n wi ri out newRi] by (auto simp: spsc_inv_def)
next
  case (c_store s out newRi)
  then have ok: "ring_ok (rg s)" "consumer_ok (rg s) (C_Copied out newRi)" by (auto simp: spsc_inv_def)
  from c_store show ?case using consumer_store[OF ok]
    by (auto simp: spsc_inv_def consumer_ok_def[of _ C_Idle])
qed (auto simp: spsc_inv_def producer_ok_def consumer_ok_def)

lemma spsc_reachable_inv:
  assumes "spsc_reachable r s" "ring_ok r" "contents r = []"
  shows "spsc_inv s"
  using assms by (induction rule: spsc_reachable.induct) (auto intro: spsc_inv_init spsc_step_inv)

section \<open>Properties\<close>

text \<open>C21: However the steps of the producer and of the consumer interleave, the consumer gets the
  produced characters in order, each once, and the ring never holds more than its capacity.\<close>

theorem spsc_fifo:
  assumes "spsc_reachable r s" "ring_ok r" "contents r = []"
  shows "consumed s @ contents (rg s) = produced s \<and> length (contents (rg s)) \<le> capacity (rg s)"
proof -
  have "spsc_inv s" using assms by (rule spsc_reachable_inv)
  then show ?thesis using ring.bound[of "rg s"] by (auto simp: spsc_inv_def)
qed

definition tiny_ring :: "nat ring" where
  "tiny_ring = \<lparr>write_idx = 2, read_idx = 2, m_data = [0, 0, 0]\<rparr>"

lemma tiny_run:
  "spsc_reachable tiny_ring \<lparr>rg = \<lparr>write_idx = 1, read_idx = 0, m_data = [8, 0, 7]\<rparr>,
     producer = P_Idle, consumer = C_Idle, produced = [7, 8], consumed = [7]\<rparr>"
proof -
  note step = spsc_reachable.step[of tiny_ring]
  note defs = spsc_init_def tiny_ring_def write_available_def read_available_def copy_in_def copy_out_def
    overwrite_def slice_def
  have 1: "spsc_reachable tiny_ring ((spsc_init tiny_ring)\<lparr>producer := P_Loaded [7, 8] 2 2\<rparr>)"
    using step[OF spsc_reachable.start p_load[of _ "[7, 8]"]] by (simp add: defs)
  have 2: "spsc_reachable tiny_ring \<lparr>rg = \<lparr>write_idx = 2, read_idx = 2, m_data = [8, 0, 7]\<rparr>,
      producer = P_Copied [7, 8] 1, consumer = C_Idle, produced = [], consumed = []\<rparr>"
    using step[OF 1 p_copy[of _ "[7, 8]" 2 2 2 "[7, 8]" "[8, 0, 7]" 1]] by (simp add: defs)
  have 3: "spsc_reachable tiny_ring \<lparr>rg = \<lparr>write_idx = 1, read_idx = 2, m_data = [8, 0, 7]\<rparr>,
      producer = P_Idle, consumer = C_Idle, produced = [7, 8], consumed = []\<rparr>"
    using step[OF 2 p_store[of _ "[7, 8]" 1]] by simp
  have 4: "spsc_reachable tiny_ring \<lparr>rg = \<lparr>write_idx = 1, read_idx = 2, m_data = [8, 0, 7]\<rparr>,
      producer = P_Idle, consumer = C_Loaded 1 1 2, produced = [7, 8], consumed = []\<rparr>"
    using step[OF 3 c_load[of _ 1]] by simp
  have 5: "spsc_reachable tiny_ring \<lparr>rg = \<lparr>write_idx = 1, read_idx = 2, m_data = [8, 0, 7]\<rparr>,
      producer = P_Idle, consumer = C_Copied [7] 0, produced = [7, 8], consumed = []\<rparr>"
    using step[OF 4 c_copy[of _ 1 1 2 2 "[7]" 0]] by (simp add: defs)
  show ?thesis using step[OF 5 c_store[of _ "[7]" 0]] by simp
qed

lemma spsc_fifo_witness:
  "\<exists>s. spsc_reachable tiny_ring s \<and> consumed s = [7] \<and> produced s = [7, 8] \<and> contents (rg s) = [8]"
  using tiny_run spsc_fifo[OF tiny_run] by (force simp: ring_ok_def contents_def tiny_ring_def read_available_def)

end
