(* ===== verification/Ids.thy ===== *)
theory Ids
  imports Prelude
begin

text \<open>
  \<^verbatim>\<open>base/Id.hpp\<close> and \<^verbatim>\<open>base/Identifier.hpp\<close>.  An \<^verbatim>\<open>Id\<close> is a number whose value 0 is the
  invalid Id of a default constructed object; an \<^verbatim>\<open>Identifier\<close> is a signature, a ident_name and a flag.
  The number is kept as a natural number: the registers only ever count slots of a vector; its
  64-bit width becomes visible on the wire, in theory Serialization.
\<close>

section \<open>Id\<close>

datatype id = Id (number: nat)

definition invalid_number :: nat where
  "invalid_number = 0"

definition default_id :: id where
  "default_id = Id invalid_number"

text \<open>The explicit constructor asserts that the number is not the invalid one.\<close>

definition make_id :: "nat \<Rightarrow> id option" where
  "make_id n = do { yassert (n \<noteq> invalid_number); Some (Id n) }"

definition id_valid :: "id \<Rightarrow> bool" where
  "id_valid i \<longleftrightarrow> number i \<noteq> invalid_number"

text \<open>The stream operator prints the number, or two question marks for an invalid Id.\<close>

fun show_digits :: "nat \<Rightarrow> string" where
  "show_digits n = (if n < 10 then [char_of (48 + n)]
     else show_digits (n div 10) @ [char_of (48 + n mod 10)])"

definition show_id :: "id \<Rightarrow> string" where
  "show_id i = (if id_valid i then show_digits (number i) else ''??'')"

declare show_digits.simps [simp del]

lemma id_valid_Id [simp]: "id_valid (Id n) \<longleftrightarrow> n \<noteq> 0"
  by (simp add: id_valid_def invalid_number_def)

lemma default_not_valid [simp]: "\<not> id_valid default_id"
  by (simp add: default_id_def invalid_number_def)

lemma id_not_valid_iff: "\<not> id_valid i \<longleftrightarrow> i = default_id"
  by (cases i) (simp add: default_id_def invalid_number_def)

lemma make_id_eq_Some [simp]: "make_id n = Some i \<longleftrightarrow> n \<noteq> 0 \<and> i = Id n"
  by (auto simp: make_id_def invalid_number_def)

instantiation id :: linorder
begin

definition less_eq_id :: "id \<Rightarrow> id \<Rightarrow> bool" where
  "less_eq_id i j \<longleftrightarrow> number i \<le> number j"

definition less_id :: "id \<Rightarrow> id \<Rightarrow> bool" where
  "less_id i j \<longleftrightarrow> number i < number j"

instance
  by standard (auto simp: less_eq_id_def less_id_def id.expand)

end

section \<open>Identifier\<close>

record ident =
  ident_signature :: nat
  ident_name :: string
  ident_hidden :: bool

definition default_ident :: ident where
  "default_ident = \<lparr>ident_signature = 0, ident_name = [], ident_hidden = False\<rparr>"

text \<open>\<^verbatim>\<open>operator==\<close> compares all three members; on records this is equality.\<close>

definition ident_eq :: "ident \<Rightarrow> ident \<Rightarrow> bool" where
  "ident_eq a b \<longleftrightarrow> ident_signature a = ident_signature b \<and> ident_name a = ident_name b \<and> ident_hidden a = ident_hidden b"

lemma ident_eq_iff [simp]: "ident_eq a b \<longleftrightarrow> a = b"
  by (auto simp: ident_eq_def)

definition show_ident :: "ident \<Rightarrow> string" where
  "show_ident i = ''('' @ show_digits (ident_signature i) @ '', '' @ ident_name i @
     (if ident_hidden i then '', hidden)'' else '')'')"

end
