(* ===== verification/Serialization.thy ===== *)
theory Serialization
  imports Ids
begin

unbundle bit_operations_syntax

text \<open>
  \<^verbatim>\<open>serialization/\<close>: the wire format of the message fields.  A buffer is a list of
  bytes, an iterator into it is the list of bytes still ahead, and \<^verbatim>\<open>*it++\<close> at the end of
  the buffer is \<open>None\<close>.  \<^verbatim>\<open>std::size_t\<close> is 64 bits wide.
\<close>

type_synonym byte = "8 word"
type_synonym size_t = "64 word"
type_synonym buffer = "byte list"

section \<open>bool\<close>

definition serialize_bool :: "bool \<Rightarrow> buffer" where
  "serialize_bool b = [if b then 1 else 0]"

definition deserialize_bool :: "buffer \<Rightarrow> (bool \<times> buffer) option" where
  "deserialize_bool bs = (case bs of [] \<Rightarrow> None | b # rest \<Rightarrow> Some (b \<noteq> 0, rest))"

section \<open>std::size_t\<close>

text \<open>Seven bits per byte, most significant group first, the top bit marks a continuation.\<close>

definition size_length :: "size_t \<Rightarrow> nat" where
  "size_length v = 1 + of_bool (v \<ge> 2 ^ 7) + of_bool (v \<ge> 2 ^ 14) + of_bool (v \<ge> 2 ^ 21) + of_bool (v \<ge> 2 ^ 28)"

definition size_byte :: "size_t \<Rightarrow> nat \<Rightarrow> byte" where
  "size_byte v i = (let b = ucast (drop_bit ((i - 1) * 7) v AND 0x7F) in
     if i > 1 then b OR push_bit 7 1 else b)"

fun size_bytes :: "nat \<Rightarrow> size_t \<Rightarrow> buffer" where
  "size_bytes 0 v = []"
| "size_bytes (Suc i) v = size_byte v (Suc i) # size_bytes i v"

definition serialize_size :: "size_t \<Rightarrow> buffer" where
  "serialize_size v = size_bytes (size_length v) v"

text \<open>
  The loop stops at the first byte without continuation bit.  At the end of the buffer it stops
  without assigning the result: the caller keeps whatever its variable held.
\<close>

fun deserialize_size_loop :: "size_t \<Rightarrow> buffer \<Rightarrow> size_t option \<times> buffer" where
  "deserialize_size_loop tmp [] = (None, [])"
| "deserialize_size_loop tmp (b # rest) =
     (let tmp1 = tmp OR ucast (b AND 0x7F) in
      if \<not> bit b 7 then (Some tmp1, rest) else deserialize_size_loop (push_bit 7 tmp1) rest)"

definition deserialize_size :: "size_t \<Rightarrow> buffer \<Rightarrow> size_t \<times> buffer" where
  "deserialize_size old bs = (case deserialize_size_loop 0 bs of
     (Some v, rest) \<Rightarrow> (v, rest) | (None, rest) \<Rightarrow> (old, rest))"

fun can_deserialize_size :: "buffer \<Rightarrow> bool" where
  "can_deserialize_size [] = False"
| "can_deserialize_size (b # rest) = (if \<not> bit b 7 then True else can_deserialize_size rest)"

section \<open>Id\<close>

definition serialize_id :: "id \<Rightarrow> buffer" where
  "serialize_id i = serialize_size (word_of_nat (number i))"

text \<open>\<^verbatim>\<open>base::Id{number}\<close> asserts that the number is not the invalid one.\<close>

definition deserialize_id :: "buffer \<Rightarrow> (id \<times> buffer) option" where
  "deserialize_id bs = (let (n, rest) = deserialize_size (word_of_nat (number default_id)) bs in
     do { i \<leftarrow> make_id (unat n); Some (i, rest) })"

section \<open>Buffers and identifiers\<close>

definition byte_of_char :: "char \<Rightarrow> byte" where
  "byte_of_char c = word_of_nat (of_char c)"

definition char_of_byte :: "byte \<Rightarrow> char" where
  "char_of_byte b = char_of (unat b)"

text \<open>
  The length of a name or of a buffer is read into an uninitialised variable; a buffer that
  ends inside the length leaves it indeterminate, which is \<open>None\<close> here, as is a failed assertion.
\<close>

definition take_counted :: "buffer \<Rightarrow> (buffer \<times> buffer) option" where
  "take_counted bs = (case deserialize_size_loop 0 bs of
     (None, rest) \<Rightarrow> None
   | (Some n, rest) \<Rightarrow> do { yassert (length rest \<ge> unat n); Some (take (unat n) rest, drop (unat n) rest) })"

definition serialize_buffer :: "buffer \<Rightarrow> buffer" where
  "serialize_buffer d = serialize_size (word_of_nat (length d)) @ d"

definition deserialize_buffer :: "buffer \<Rightarrow> (buffer \<times> buffer) option" where
  "deserialize_buffer bs = take_counted bs"

definition serialize_ident :: "ident \<Rightarrow> buffer" where
  "serialize_ident x = serialize_size (word_of_nat (ident_signature x)) @ serialize_bool (ident_hidden x)
     @ serialize_size (word_of_nat (length (ident_name x))) @ map byte_of_char (ident_name x)"

definition deserialize_ident :: "buffer \<Rightarrow> (ident \<times> buffer) option" where
  "deserialize_ident bs = (let (sig, r1) = deserialize_size 0 bs in
     do { (hid, r2) \<leftarrow> deserialize_bool r1; (nm, r3) \<leftarrow> take_counted r2;
       Some (\<lparr>ident_signature = unat sig, ident_name = map char_of_byte nm, ident_hidden = hid\<rparr>, r3) })"

section \<open>gather_flags\<close>

text \<open>The enumeration is an \<^verbatim>\<open>int\<close>; on the wire it is one \<^verbatim>\<open>char\<close>, read back with sign.\<close>

type_synonym gather_flags = "32 word"

definition serialize_flags :: "gather_flags \<Rightarrow> buffer option" where
  "serialize_flags f = do { yassert (sint f \<le> 127); Some [ucast f] }"

definition deserialize_flags :: "buffer \<Rightarrow> (gather_flags \<times> buffer) option" where
  "deserialize_flags bs = (case bs of [] \<Rightarrow> None | b # rest \<Rightarrow> Some (scast b, rest))"

section \<open>Round trips\<close>

lemma size_byte_bits:
  "size_byte v (Suc i) AND 0x7F = ucast (take_bit 7 (drop_bit (7 * i) v))"
  "bit (size_byte v (Suc i)) 7 \<longleftrightarrow> 0 < i"
proof -
  have m: "(0x7F :: byte) = mask 7" "(0x7F :: size_t) = mask 7" by (simp_all add: mask_eq_exp_minus_1)
  have top: "bit (push_bit 7 1 :: byte) n \<longleftrightarrow> n = 7" for n
    by (auto simp: bit_push_bit_iff bit_1_iff simp del: push_bit_of_1)
  show "size_byte v (Suc i) AND 0x7F = ucast (take_bit 7 (drop_bit (7 * i) v))"
    unfolding size_byte_def Let_def m take_bit_eq_mask
    by (rule bit_eqI) (auto simp: bit_and_iff bit_or_iff bit_mask_iff bit_unsigned_iff bit_drop_bit_eq top
        mult.commute simp del: push_bit_of_1)
  show "bit (size_byte v (Suc i)) 7 \<longleftrightarrow> 0 < i"
    unfolding size_byte_def Let_def m
    by (auto simp: bit_and_iff bit_or_iff bit_mask_iff bit_unsigned_iff top simp del: push_bit_of_1)
qed

lemma ucast_byte_group: "(ucast (ucast (take_bit 7 (w :: size_t)) :: byte) :: size_t) = take_bit 7 w"
  by (rule bit_eqI) (auto simp: bit_simps)

lemma deserialize_size_bytes:
  "deserialize_size_loop tmp (size_bytes (Suc i) v @ rest) =
    (Some (push_bit (7 * i) tmp OR take_bit (7 * Suc i) v), rest)"
proof (induction i arbitrary: tmp)
  case 0
  have nb: "\<not> bit (size_byte v (Suc 0)) 7" by (simp add: size_byte_bits)
  have "deserialize_size_loop tmp (size_bytes (Suc 0) v @ rest) = (Some (tmp OR take_bit 7 v), rest)"
    using nb by (simp add: Let_def size_byte_bits ucast_byte_group)
  then show ?case by simp
next
  case (Suc i)
  have b: "bit (size_byte v (Suc (Suc i))) 7" by (simp add: size_byte_bits)
  define tmp1 where "tmp1 = tmp OR take_bit 7 (drop_bit (7 * Suc i) v)"
  have "deserialize_size_loop tmp (size_bytes (Suc (Suc i)) v @ rest) =
    deserialize_size_loop (push_bit 7 tmp1) (size_bytes (Suc i) v @ rest)"
    using b by (simp del: mult_Suc_right add: Let_def size_byte_bits ucast_byte_group tmp1_def)
  also have "\<dots> = (Some (push_bit (7 * i) (push_bit 7 tmp1) OR take_bit (7 * Suc i) v), rest)"
    by (rule Suc.IH)
  also have "push_bit (7 * i) (push_bit 7 tmp1) OR take_bit (7 * Suc i) v =
      push_bit (7 * Suc i) tmp OR take_bit (7 * Suc (Suc i)) v"
    unfolding tmp1_def by (rule bit_eqI) (auto simp: bit_simps ac_simps)
  finally show ?case .
qed

lemma unat_power_lower64: "n < 64 \<Longrightarrow> unat (2 ^ n :: 64 word) = 2 ^ n"
proof -
  assume "n < 64"
  then have "(2 :: nat) ^ n < 2 ^ 64" by (intro power_strict_increasing) simp_all
  then have "take_bit 64 ((2 :: nat) ^ n) = 2 ^ n" by (rule take_bit_nat_eq_self)
  then have "unat (word_of_nat (2 ^ n) :: 64 word) = 2 ^ n" by (simp only: unsigned_of_nat) simp
  then show ?thesis by (simp only: of_nat_power of_nat_numeral)
qed

lemma size_length_bounds:
  "0 < size_length v" "size_length v \<le> 5" "take_bit (7 * size_length v) v = take_bit 35 v"
proof -
  show "0 < size_length v" "size_length v \<le> 5" by (auto simp: size_length_def)
  have eq: "take_bit (7 * n) v = take_bit 35 v" if "v < 2 ^ (7 * n)" "n \<le> 5" for n
  proof -
    have "take_bit (7 * n) v = v" using that(1) by (simp add: take_bit_eq_mask less_mask_eq)
    moreover have "take_bit 35 (take_bit (7 * n) v) = take_bit (7 * n) v" using that(2) by simp
    ultimately show ?thesis by metis
  qed
  define x where "x = unat v"
  have lt: "v < 2 ^ n \<longleftrightarrow> x < 2 ^ n" if "n < 64" for n
    using that by (simp add: word_less_nat_alt x_def unat_power_lower64)
  have len: "size_length v = 1 + of_bool (x \<ge> 2 ^ 7) + of_bool (x \<ge> 2 ^ 14) + of_bool (x \<ge> 2 ^ 21) + of_bool (x \<ge> 2 ^ 28)"
    by (simp add: size_length_def word_le_nat_alt x_def)
  consider "x < 2 ^ 7" | "2 ^ 7 \<le> x" "x < 2 ^ 14" | "2 ^ 14 \<le> x" "x < 2 ^ 21" | "2 ^ 21 \<le> x" "x < 2 ^ 28"
    | "2 ^ 28 \<le> x"
    by linarith
  then show "take_bit (7 * size_length v) v = take_bit 35 v"
  proof cases
    case 1
    then show ?thesis using eq[of 1] lt[of 7] len by simp
  next
    case 2
    then show ?thesis using eq[of 2] lt[of 14] len by simp
  next
    case 3
    then show ?thesis using eq[of 3] lt[of 21] len by simp
  next
    case 4
    then show ?thesis using eq[of 4] lt[of 28] len by simp
  next
    case 5
    then show ?thesis using len by simp
  qed
qed

lemma size_loop_serialize [wire_simps]:
  "deserialize_size_loop 0 (serialize_size v @ rest) = (Some (take_bit 35 v), rest)"
proof -
  obtain n where n: "size_length v = Suc n" using size_length_bounds(1)[of v] by (cases "size_length v") auto
  show ?thesis using size_length_bounds(3)[of v] by (simp only: serialize_size_def n deserialize_size_bytes) simp
qed

text \<open>The values the five groups can carry; \<open>size_loop_serialize\<close> shows what happens to the others.\<close>

definition wire_size :: "nat \<Rightarrow> bool" where
  "wire_size n \<longleftrightarrow> n < 2 ^ 35"

lemma take_bit_wire_size: "wire_size n \<Longrightarrow> take_bit 35 (word_of_nat n :: size_t) = word_of_nat n"
proof -
  assume "wire_size n"
  then have n: "n < 2 ^ 35" by (simp add: wire_size_def)
  then have "(word_of_nat n :: size_t) < 2 ^ 35"
    by (simp add: word_less_nat_alt unat_word_of_nat64)
  then show ?thesis by (simp add: take_bit_eq_mask less_mask_eq)
qed

lemma unat_wire_size: "wire_size n \<Longrightarrow> unat (word_of_nat n :: size_t) = n"
  by (rule unat_word_of_nat64) (simp add: wire_size_def)

lemma size_loop_wire [wire_simps]:
  "wire_size n \<Longrightarrow> deserialize_size_loop 0 (serialize_size (word_of_nat n) @ rest) = (Some (word_of_nat n), rest)"
  by (simp add: size_loop_serialize take_bit_wire_size)

lemma deserialize_size_serialize [wire_simps]:
  "deserialize_size old (serialize_size v @ rest) = (take_bit 35 v, rest)"
  by (simp add: deserialize_size_def size_loop_serialize)

lemma deserialize_bool_serialize [wire_simps]:
  "deserialize_bool (serialize_bool b @ rest) = Some (b, rest)"
  by (simp add: deserialize_bool_def serialize_bool_def)

lemma deserialize_id_serialize [wire_simps]:
  "id_valid i \<Longrightarrow> wire_size (number i) \<Longrightarrow> deserialize_id (serialize_id i @ rest) = Some (i, rest)"
  by (cases i) (simp add: deserialize_id_def serialize_id_def deserialize_size_serialize
      take_bit_wire_size unat_wire_size make_id_def invalid_number_def)

lemma take_counted_serialize [wire_simps]:
  "wire_size (length d) \<Longrightarrow> take_counted (serialize_size (word_of_nat (length d)) @ d @ rest) = Some (d, rest)"
  by (simp add: take_counted_def size_loop_wire unat_wire_size)

lemma deserialize_buffer_serialize [wire_simps]:
  "wire_size (length d) \<Longrightarrow> deserialize_buffer (serialize_buffer d @ rest) = Some (d, rest)"
  by (simp add: deserialize_buffer_def serialize_buffer_def take_counted_serialize)

lemma char_of_byte_of_char [simp]: "char_of_byte (byte_of_char c) = c"
proof -
  have "(of_char c :: nat) < 256" by (simp add: nat_less_iff)
  then have "unat (word_of_nat (of_char c) :: byte) = of_char c"
    by (simp add: unat_of_nat take_bit_nat_eq_self)
  then show ?thesis by (simp add: char_of_byte_def byte_of_char_def)
qed

definition wire_ident :: "ident \<Rightarrow> bool" where
  "wire_ident x \<longleftrightarrow> wire_size (ident_signature x) \<and> wire_size (length (ident_name x))"

lemma deserialize_ident_serialize [wire_simps]:
  assumes "wire_ident x"
  shows "deserialize_ident (serialize_ident x @ rest) = Some (x, rest)"
proof -
  have "take_counted (serialize_size (word_of_nat (length (ident_name x))) @ map byte_of_char (ident_name x) @ rest)
      = Some (map byte_of_char (ident_name x), rest)"
    using take_counted_serialize[of "map byte_of_char (ident_name x)" rest] assms by (simp add: wire_ident_def)
  then show ?thesis using assms
    by (simp add: deserialize_ident_def serialize_ident_def deserialize_size_serialize deserialize_bool_serialize
        wire_ident_def take_bit_wire_size unat_wire_size comp_def)
qed

lemma signed_ucast_eq_sint:
  assumes "- 128 \<le> sint f" "sint f \<le> 127"
  shows "sint (ucast (f :: gather_flags) :: byte) = sint f"
proof -
  have "ucast f = (scast f :: byte)"
    by (rule bit_word_eqI) (simp add: bit_simps min_def)
  moreover have "sint (scast f :: byte) = sint f"
    using assms by (simp add: signed_scast_eq[where 'a = int] signed_take_bit_int_eq_self del: signed_scast_eq)
  ultimately show ?thesis by simp
qed

text \<open>Flags survive when they fit into a signed byte, which the assertion checks from above only.\<close>

lemma deserialize_flags_serialize [wire_simps]:
  "- 128 \<le> sint f \<Longrightarrow> serialize_flags f = Some bs \<Longrightarrow> deserialize_flags (bs @ rest) = Some (f, rest)"
proof -
  assume lo: "- 128 \<le> sint f" and "serialize_flags f = Some bs"
  then have hi: "sint f \<le> 127" and bs: "bs = [ucast f]" by (auto simp: serialize_flags_def split: if_splits)
  have b: "sint (ucast f :: byte) = sint f"
    using lo hi by (metis signed_ucast_eq_sint)
  have "(scast (ucast f :: byte) :: gather_flags) = f"
  proof (rule signed_word_eqI[where 'a = int])
    show "sint (scast (ucast f :: byte) :: gather_flags) = sint f"
      using lo hi b by (simp only: signed_scast_eq[where 'a = int]) (simp add: signed_take_bit_int_eq_self)
  qed
  then show ?thesis by (simp add: bs deserialize_flags_def)
qed

section \<open>Properties\<close>

lemma can_deserialize_bytes:
  "can_deserialize_size (take k (size_bytes (Suc i) v) @ rest) \<longleftrightarrow> i < k \<or> can_deserialize_size rest"
proof (induction i arbitrary: k)
  case 0
  then show ?case by (cases k) (simp_all add: size_byte_bits)
next
  case (Suc i)
  show ?case
  proof (cases k)
    case (Suc k')
    then have "take k (size_bytes (Suc (Suc i)) v) = size_byte v (Suc (Suc i)) # take k' (size_bytes (Suc i) v)"
      by simp
    then show ?thesis using Suc.IH[of k'] Suc by (simp add: size_byte_bits del: size_bytes.simps)
  qed simp
qed

text \<open>C29: A serialised size has between one and five bytes; it decodes to the lowest 35 bits of the value
  wherever it stands in a buffer, and a strict prefix of it is never taken for a complete size.
  So values below \<open>2 ^ 35\<close> survive and larger ones silently lose their high bits.\<close>

theorem size_round_trip:
  "1 \<le> length (serialize_size v) \<and> length (serialize_size v) \<le> 5 \<and>
   deserialize_size old (serialize_size v @ rest) = (take_bit 35 v, rest) \<and>
   (can_deserialize_size (take k (serialize_size v)) \<longleftrightarrow> length (serialize_size v) \<le> k)"
proof -
  have len: "length (size_bytes n v) = n" for n by (induction n) auto
  obtain n where n: "size_length v = Suc n" using size_length_bounds(1)[of v] by (cases "size_length v") auto
  show ?thesis
    using size_length_bounds(1,2)[of v] deserialize_size_serialize[of old v rest] can_deserialize_bytes[of k n v "[]"] n
    by (simp add: serialize_size_def len Suc_le_eq del: size_bytes.simps)
qed

lemma size_loses_high_bits: "deserialize_size 0 (serialize_size (2 ^ 35 + 5)) = (5, [])"
  using deserialize_size_serialize[of 0 "2 ^ 35 + 5" "[]"] by simp

end
