(* ===== verification/Messages.thy ===== *)
theory Messages
  imports Serialization
begin

text \<open>
  \<^verbatim>\<open>messaging/\<close>: the fields, the messages of the nine terminal classes and the register that
  numbers them.  \<open>body\<close> is a message without its class, the form in which the leaf and node
  logic handle it; \<open>values\<close> is the tuple of its \<^verbatim>\<open>FieldMember\<close>s.
\<close>

section \<open>Fields\<close>

datatype field = F_Identifier | F_Id | F_TerminalId | F_BindingId | F_SubscriptionId | F_OperationId
  | F_MappedId | F_Data | F_GatherFlags

datatype val = V_Ident ident | V_Id id | V_Buffer buffer | V_Flags gather_flags

fun has_type :: "val \<Rightarrow> field \<Rightarrow> bool" where
  "has_type (V_Ident _) f = (f = F_Identifier)"
| "has_type (V_Id _) f = (f \<in> {F_Id, F_TerminalId, F_BindingId, F_SubscriptionId, F_OperationId, F_MappedId})"
| "has_type (V_Buffer _) f = (f = F_Data)"
| "has_type (V_Flags _) f = (f = F_GatherFlags)"

fun serialize_one :: "val \<Rightarrow> buffer option" where
  "serialize_one (V_Ident x) = Some (serialize_ident x)"
| "serialize_one (V_Id i) = Some (serialize_id i)"
| "serialize_one (V_Buffer d) = Some (serialize_buffer d)"
| "serialize_one (V_Flags f) = serialize_flags f"

fun deserialize_one :: "field \<Rightarrow> buffer \<Rightarrow> (val \<times> buffer) option" where
  "deserialize_one F_Identifier bs = map_option (apfst V_Ident) (deserialize_ident bs)"
| "deserialize_one F_Data bs = map_option (apfst V_Buffer) (deserialize_buffer bs)"
| "deserialize_one F_GatherFlags bs = map_option (apfst V_Flags) (deserialize_flags bs)"
| "deserialize_one _ bs = map_option (apfst V_Id) (deserialize_id bs)"

text \<open>The parameter packs of \<^verbatim>\<open>serialize\<close> and \<^verbatim>\<open>deserialize\<close>, in field order.\<close>

fun serialize_values :: "val list \<Rightarrow> buffer option" where
  "serialize_values [] = Some []"
| "serialize_values (v # vs) = do { b \<leftarrow> serialize_one v; bs \<leftarrow> serialize_values vs; Some (b @ bs) }"

fun deserialize_values :: "field list \<Rightarrow> buffer \<Rightarrow> (val list \<times> buffer) option" where
  "deserialize_values [] bs = Some ([], bs)"
| "deserialize_values (f # fs) bs = do { (v, r1) \<leftarrow> deserialize_one f bs;
     (vs, r2) \<leftarrow> deserialize_values fs r1; Some (v # vs, r2) }"

section \<open>Message types\<close>

datatype tclass = DeafMute | PublishSubscribe | ScatterGather | CachedPublishSubscribe | ProducerConsumer
  | CachedProducerConsumer | MasterSlave | CachedMasterSlave | ServiceClient

datatype kind = K_TerminalDescription | K_TerminalMapping | K_TerminalNoticed | K_TerminalRemoved
  | K_TerminalRemovedAck | K_BindingDescription | K_BindingMapping | K_BindingNoticed | K_BindingRemoved
  | K_BindingRemovedAck | K_BindingEstablished | K_BindingReleased | K_Subscribe | K_Unsubscribe
  | K_Data | K_CachedData | K_Scatter | K_Gather

type_synonym declarations = "(kind \<times> field list) list"

text \<open>\<^verbatim>\<open>InheritedMessage\<close> takes over the fields of the message it derives from.\<close>

definition inherit :: "declarations \<Rightarrow> kind list \<Rightarrow> declarations" where
  "inherit base ks = map (\<lambda>k. (k, the (map_of base k))) ks"

definition DeafMute_messages :: declarations where
  "DeafMute_messages =
    [(K_TerminalDescription, [F_Identifier, F_Id]),
     (K_TerminalMapping, [F_TerminalId, F_MappedId]),
     (K_TerminalNoticed, [F_TerminalId]),
     (K_TerminalRemoved, [F_MappedId]),
     (K_TerminalRemovedAck, [F_TerminalId]),
     (K_BindingDescription, [F_Identifier, F_Id]),
     (K_BindingMapping, [F_BindingId, F_MappedId]),
     (K_BindingNoticed, [F_BindingId]),
     (K_BindingRemoved, [F_MappedId]),
     (K_BindingRemovedAck, [F_BindingId]),
     (K_BindingEstablished, [F_BindingId]),
     (K_BindingReleased, [F_BindingId])]"

definition PublishSubscribe_messages :: declarations where
  "PublishSubscribe_messages = inherit DeafMute_messages
     [K_TerminalDescription, K_TerminalMapping, K_TerminalNoticed, K_TerminalRemoved, K_TerminalRemovedAck,
      K_BindingDescription, K_BindingMapping, K_BindingNoticed, K_BindingRemoved, K_BindingRemovedAck,
      K_BindingEstablished, K_BindingReleased] @
    [(K_Subscribe, [F_TerminalId]),
     (K_Unsubscribe, [F_TerminalId]),
     (K_Data, [F_SubscriptionId, F_Data])]"

definition ScatterGather_messages :: declarations where
  "ScatterGather_messages = inherit DeafMute_messages
     [K_TerminalDescription, K_TerminalMapping, K_TerminalNoticed, K_TerminalRemoved, K_TerminalRemovedAck,
      K_BindingDescription, K_BindingMapping, K_BindingNoticed, K_BindingRemoved, K_BindingRemovedAck,
      K_BindingEstablished, K_BindingReleased] @
    inherit PublishSubscribe_messages [K_Subscribe, K_Unsubscribe] @
    [(K_Scatter, [F_SubscriptionId, F_OperationId, F_Data]),
     (K_Gather, [F_OperationId, F_GatherFlags, F_Data])]"

definition CachedPublishSubscribe_messages :: declarations where
  "CachedPublishSubscribe_messages = inherit PublishSubscribe_messages
     [K_TerminalDescription, K_TerminalMapping, K_TerminalNoticed, K_TerminalRemoved, K_TerminalRemovedAck,
      K_BindingDescription, K_BindingMapping, K_BindingNoticed, K_BindingRemoved, K_BindingRemovedAck,
      K_BindingEstablished, K_BindingReleased, K_Subscribe, K_Unsubscribe, K_Data] @
    [(K_CachedData, [F_SubscriptionId, F_Data])]"

definition ProducerConsumer_messages :: declarations where
  "ProducerConsumer_messages = inherit PublishSubscribe_messages
     [K_TerminalDescription, K_TerminalMapping, K_TerminalNoticed, K_TerminalRemoved, K_TerminalRemovedAck,
      K_BindingDescription, K_BindingMapping, K_BindingNoticed, K_BindingRemoved, K_BindingRemovedAck,
      K_BindingEstablished, K_BindingReleased, K_Subscribe, K_Unsubscribe, K_Data]"

definition CachedProducerConsumer_messages :: declarations where
  "CachedProducerConsumer_messages = inherit CachedPublishSubscribe_messages
     [K_TerminalDescription, K_TerminalMapping, K_TerminalNoticed, K_TerminalRemoved, K_TerminalRemovedAck,
      K_BindingDescription, K_BindingMapping, K_BindingNoticed, K_BindingRemoved, K_BindingRemovedAck,
      K_BindingEstablished, K_BindingReleased, K_Subscribe, K_Unsubscribe, K_Data, K_CachedData]"

definition MasterSlave_messages :: declarations where
  "MasterSlave_messages = inherit PublishSubscribe_messages
     [K_TerminalDescription, K_TerminalMapping, K_TerminalNoticed, K_TerminalRemoved, K_TerminalRemovedAck,
      K_BindingDescription, K_BindingMapping, K_BindingNoticed, K_BindingRemoved, K_BindingRemovedAck,
      K_BindingEstablished, K_BindingReleased, K_Subscribe, K_Unsubscribe, K_Data]"

definition CachedMasterSlave_messages :: declarations where
  "CachedMasterSlave_messages = inherit CachedPublishSubscribe_messages
     [K_TerminalDescription, K_TerminalMapping, K_TerminalNoticed, K_TerminalRemoved, K_TerminalRemovedAck,
      K_BindingDescription, K_BindingMapping, K_BindingNoticed, K_BindingRemoved, K_BindingRemovedAck,
      K_BindingEstablished, K_BindingReleased, K_Subscribe, K_Unsubscribe, K_Data, K_CachedData]"

definition ServiceClient_messages :: declarations where
  "ServiceClient_messages = inherit ScatterGather_messages
     [K_TerminalDescription, K_TerminalMapping, K_TerminalNoticed, K_TerminalRemoved, K_TerminalRemovedAck,
      K_BindingDescription, K_BindingMapping, K_BindingNoticed, K_BindingRemoved, K_BindingRemovedAck,
      K_BindingEstablished, K_BindingReleased, K_Subscribe, K_Unsubscribe, K_Scatter, K_Gather]"

fun class_messages :: "tclass \<Rightarrow> declarations" where
  "class_messages DeafMute = DeafMute_messages"
| "class_messages PublishSubscribe = PublishSubscribe_messages"
| "class_messages ScatterGather = ScatterGather_messages"
| "class_messages CachedPublishSubscribe = CachedPublishSubscribe_messages"
| "class_messages ProducerConsumer = ProducerConsumer_messages"
| "class_messages CachedProducerConsumer = CachedProducerConsumer_messages"
| "class_messages MasterSlave = MasterSlave_messages"
| "class_messages CachedMasterSlave = CachedMasterSlave_messages"
| "class_messages ServiceClient = ServiceClient_messages"

section \<open>The register\<close>

text \<open>
  The template argument list of \<^verbatim>\<open>MessageRegister\<close>: class by class, and inside a class in the
  order in which the class declares its messages.
\<close>

type_synonym msg_type = "tclass \<times> kind"

definition message_register :: "msg_type list" where
  "message_register = concat (map (\<lambda>c. map (\<lambda>(k, fs). (c, k)) (class_messages c))
     [DeafMute, PublishSubscribe, ScatterGather, CachedPublishSubscribe, ProducerConsumer,
      CachedProducerConsumer, MasterSlave, CachedMasterSlave, ServiceClient])"

fun index_of :: "'a \<Rightarrow> 'a list \<Rightarrow> nat option" where
  "index_of t [] = None"
| "index_of t (x # xs) = (if t = x then Some 0 else map_option Suc (index_of t xs))"

text \<open>A type that is not registered does not compile; here its Id is the invalid one.\<close>

definition message_type_id :: "msg_type \<Rightarrow> id" where
  "message_type_id t = (case index_of t message_register of Some n \<Rightarrow> Id (n + 1) | None \<Rightarrow> default_id)"

definition message_type_of_id :: "id \<Rightarrow> msg_type option" where
  "message_type_of_id i = do { yassert (id_valid i); yassert (number i \<le> length message_register);
     Some (message_register ! (number i - 1)) }"

definition message_fields :: "msg_type \<Rightarrow> field list" where
  "message_fields t = (case map_of (class_messages (fst t)) (snd t) of Some fs \<Rightarrow> fs | None \<Rightarrow> [])"

definition registered :: "msg_type \<Rightarrow> bool" where
  "registered t \<longleftrightarrow> t \<in> set message_register"

section \<open>Messages\<close>

datatype body =
    TerminalDescription ident id
  | TerminalMapping id id
  | TerminalNoticed id
  | TerminalRemoved id
  | TerminalRemovedAck id
  | BindingDescription ident id
  | BindingMapping id id
  | BindingNoticed id
  | BindingRemoved id
  | BindingRemovedAck id
  | BindingEstablished id
  | BindingReleased id
  | Subscribe id
  | Unsubscribe id
  | Data id buffer
  | CachedData id buffer
  | Scatter id id buffer
  | Gather id gather_flags buffer

type_synonym message = "tclass \<times> body"

fun body_kind :: "body \<Rightarrow> kind" where
  "body_kind (TerminalDescription _ _) = K_TerminalDescription"
| "body_kind (TerminalMapping _ _) = K_TerminalMapping"
| "body_kind (TerminalNoticed _) = K_TerminalNoticed"
| "body_kind (TerminalRemoved _) = K_TerminalRemoved"
| "body_kind (TerminalRemovedAck _) = K_TerminalRemovedAck"
| "body_kind (BindingDescription _ _) = K_BindingDescription"
| "body_kind (BindingMapping _ _) = K_BindingMapping"
| "body_kind (BindingNoticed _) = K_BindingNoticed"
| "body_kind (BindingRemoved _) = K_BindingRemoved"
| "body_kind (BindingRemovedAck _) = K_BindingRemovedAck"
| "body_kind (BindingEstablished _) = K_BindingEstablished"
| "body_kind (BindingReleased _) = K_BindingReleased"
| "body_kind (Subscribe _) = K_Subscribe"
| "body_kind (Unsubscribe _) = K_Unsubscribe"
| "body_kind (Data _ _) = K_Data"
| "body_kind (CachedData _ _) = K_CachedData"
| "body_kind (Scatter _ _ _) = K_Scatter"
| "body_kind (Gather _ _ _) = K_Gather"

fun body_values :: "body \<Rightarrow> val list" where
  "body_values (TerminalDescription x i) = [V_Ident x, V_Id i]"
| "body_values (TerminalMapping i m) = [V_Id i, V_Id m]"
| "body_values (TerminalNoticed i) = [V_Id i]"
| "body_values (TerminalRemoved m) = [V_Id m]"
| "body_values (TerminalRemovedAck i) = [V_Id i]"
| "body_values (BindingDescription x i) = [V_Ident x, V_Id i]"
| "body_values (BindingMapping i m) = [V_Id i, V_Id m]"
| "body_values (BindingNoticed i) = [V_Id i]"
| "body_values (BindingRemoved m) = [V_Id m]"
| "body_values (BindingRemovedAck i) = [V_Id i]"
| "body_values (BindingEstablished i) = [V_Id i]"
| "body_values (BindingReleased i) = [V_Id i]"
| "body_values (Subscribe i) = [V_Id i]"
| "body_values (Unsubscribe i) = [V_Id i]"
| "body_values (Data i d) = [V_Id i, V_Buffer d]"
| "body_values (CachedData i d) = [V_Id i, V_Buffer d]"
| "body_values (Scatter i n d) = [V_Id i, V_Id n, V_Buffer d]"
| "body_values (Gather n f d) = [V_Id n, V_Flags f, V_Buffer d]"

text \<open>Reading the members of a message back, with the types its class declares.\<close>

fun with_id :: "(id \<Rightarrow> body) \<Rightarrow> val list \<Rightarrow> body option" where
  "with_id c [V_Id i] = Some (c i)"
| "with_id c _ = None"

fun with_ids :: "(id \<Rightarrow> id \<Rightarrow> body) \<Rightarrow> val list \<Rightarrow> body option" where
  "with_ids c [V_Id i, V_Id m] = Some (c i m)"
| "with_ids c _ = None"

fun with_ident_id :: "(ident \<Rightarrow> id \<Rightarrow> body) \<Rightarrow> val list \<Rightarrow> body option" where
  "with_ident_id c [V_Ident x, V_Id i] = Some (c x i)"
| "with_ident_id c _ = None"

fun with_id_data :: "(id \<Rightarrow> buffer \<Rightarrow> body) \<Rightarrow> val list \<Rightarrow> body option" where
  "with_id_data c [V_Id i, V_Buffer d] = Some (c i d)"
| "with_id_data c _ = None"

fun with_ids_data :: "(id \<Rightarrow> id \<Rightarrow> buffer \<Rightarrow> body) \<Rightarrow> val list \<Rightarrow> body option" where
  "with_ids_data c [V_Id i, V_Id n, V_Buffer d] = Some (c i n d)"
| "with_ids_data c _ = None"

fun with_flags_data :: "(id \<Rightarrow> gather_flags \<Rightarrow> buffer \<Rightarrow> body) \<Rightarrow> val list \<Rightarrow> body option" where
  "with_flags_data c [V_Id n, V_Flags f, V_Buffer d] = Some (c n f d)"
| "with_flags_data c _ = None"

fun make_body :: "kind \<Rightarrow> val list \<Rightarrow> body option" where
  "make_body K_TerminalDescription = with_ident_id TerminalDescription"
| "make_body K_TerminalMapping = with_ids TerminalMapping"
| "make_body K_TerminalNoticed = with_id TerminalNoticed"
| "make_body K_TerminalRemoved = with_id TerminalRemoved"
| "make_body K_TerminalRemovedAck = with_id TerminalRemovedAck"
| "make_body K_BindingDescription = with_ident_id BindingDescription"
| "make_body K_BindingMapping = with_ids BindingMapping"
| "make_body K_BindingNoticed = with_id BindingNoticed"
| "make_body K_BindingRemoved = with_id BindingRemoved"
| "make_body K_BindingRemovedAck = with_id BindingRemovedAck"
| "make_body K_BindingEstablished = with_id BindingEstablished"
| "make_body K_BindingReleased = with_id BindingReleased"
| "make_body K_Subscribe = with_id Subscribe"
| "make_body K_Unsubscribe = with_id Unsubscribe"
| "make_body K_Data = with_id_data Data"
| "make_body K_CachedData = with_id_data CachedData"
| "make_body K_Scatter = with_ids_data Scatter"
| "make_body K_Gather = with_flags_data Gather"

definition message_type :: "message \<Rightarrow> msg_type" where
  "message_type m = (fst m, body_kind (snd m))"

definition type_id :: "message \<Rightarrow> id" where
  "type_id m = message_type_id (message_type m)"

definition serialize_message :: "message \<Rightarrow> buffer option" where
  "serialize_message m = serialize_values (body_values (snd m))"

definition deserialize_message :: "msg_type \<Rightarrow> buffer \<Rightarrow> message option" where
  "deserialize_message t bs = do { (vs, rest) \<leftarrow> deserialize_values (message_fields t) bs;
     b \<leftarrow> make_body (snd t) vs; Some (fst t, b) }"

text \<open>The message that \<^verbatim>\<open>deserialize_and_forward_message\<close> hands to the communicator.\<close>

definition deserialize_and_forward :: "id \<Rightarrow> buffer \<Rightarrow> message option" where
  "deserialize_and_forward i bs = do { t \<leftarrow> message_type_of_id i; deserialize_message t bs }"

section \<open>Round trips\<close>

fun wire_val :: "val \<Rightarrow> bool" where
  "wire_val (V_Ident x) = wire_ident x"
| "wire_val (V_Id i) = (id_valid i \<and> wire_size (number i))"
| "wire_val (V_Buffer d) = wire_size (length d)"
| "wire_val (V_Flags f) = (- 128 \<le> sint f \<and> sint f \<le> 127)"

text \<open>A message the library can send: a registered type, valid Ids and sizes below \<open>2 ^ 35\<close>.\<close>

definition sendable :: "message \<Rightarrow> bool" where
  "sendable m \<longleftrightarrow> registered (message_type m) \<and> list_all wire_val (body_values (snd m))"

lemma deserialize_one_serialize:
  assumes "has_type v f" "wire_val v"
  obtains b where "serialize_one v = Some b" "\<And>rest. deserialize_one f (b @ rest) = Some (v, rest)"
proof (cases v)
  case (V_Ident x)
  then show ?thesis using assms that[of "serialize_ident x"] by (simp add: wire_simps)
next
  case (V_Id i)
  then have "deserialize_one f = (\<lambda>bs. map_option (apfst V_Id) (deserialize_id bs))"
    using assms(1) by (cases f) auto
  then show ?thesis using V_Id assms that[of "serialize_id i"] by (simp add: wire_simps)
next
  case (V_Buffer d)
  then show ?thesis using assms that[of "serialize_buffer d"] by (simp add: wire_simps)
next
  case (V_Flags g)
  then obtain b where "serialize_flags g = Some b" using assms(2) by (auto simp: serialize_flags_def)
  then show ?thesis using V_Flags assms that[of b] by (simp add: wire_simps)
qed

lemma deserialize_values_serialize:
  assumes "list_all2 has_type vs fs" "list_all wire_val vs"
  shows "\<exists>bs. serialize_values vs = Some bs \<and> (\<forall>rest. deserialize_values fs (bs @ rest) = Some (vs, rest))"
  using assms
proof (induction vs fs rule: list_all2_induct)
  case Nil
  then show ?case by simp
next
  case (Cons v vs f fs)
  obtain b where b: "serialize_one v = Some b" "\<And>rest. deserialize_one f (b @ rest) = Some (v, rest)"
    using Cons deserialize_one_serialize[of v f] by auto
  obtain bs where "serialize_values vs = Some bs" "\<And>rest. deserialize_values fs (bs @ rest) = Some (vs, rest)"
    using Cons by auto
  with b show ?case by simp
qed

lemma message_register_eq:
  "length message_register = 137" "distinct message_register"
  "list_all (\<lambda>t. map_of (class_messages (fst t)) (snd t) \<noteq> None) message_register"
  by code_simp+

lemma make_body_values: "make_body (body_kind b) (body_values b) = Some b"
  by (cases b) auto


lemma message_types_declared:
  "list_all (\<lambda>t. list_all2 (\<lambda>f g. f = g) (message_fields t)
      (case snd t of
         K_TerminalDescription \<Rightarrow> [F_Identifier, F_Id] | K_BindingDescription \<Rightarrow> [F_Identifier, F_Id]
       | K_TerminalMapping \<Rightarrow> [F_TerminalId, F_MappedId] | K_BindingMapping \<Rightarrow> [F_BindingId, F_MappedId]
       | K_TerminalRemoved \<Rightarrow> [F_MappedId] | K_BindingRemoved \<Rightarrow> [F_MappedId]
       | K_TerminalNoticed \<Rightarrow> [F_TerminalId] | K_TerminalRemovedAck \<Rightarrow> [F_TerminalId]
       | K_Subscribe \<Rightarrow> [F_TerminalId] | K_Unsubscribe \<Rightarrow> [F_TerminalId]
       | K_Data \<Rightarrow> [F_SubscriptionId, F_Data] | K_CachedData \<Rightarrow> [F_SubscriptionId, F_Data]
       | K_Scatter \<Rightarrow> [F_SubscriptionId, F_OperationId, F_Data]
       | K_Gather \<Rightarrow> [F_OperationId, F_GatherFlags, F_Data]
       | _ \<Rightarrow> [F_BindingId])) message_register"
  by code_simp

lemma body_values_typed:
  "registered (c, body_kind b) \<Longrightarrow> list_all2 has_type (body_values b) (message_fields (c, body_kind b))"
proof -
  assume "registered (c, body_kind b)"
  then have "(c, body_kind b) \<in> set message_register" by (simp add: registered_def)
  with message_types_declared show ?thesis
    by (cases b) (auto simp: list_all_iff list.rel_eq)
qed

lemma index_of_nth: "index_of t xs = Some n \<Longrightarrow> n < length xs \<and> xs ! n = t"
  by (induction xs arbitrary: n) (auto split: if_splits)

lemma index_of_mem: "t \<in> set xs \<Longrightarrow> \<exists>n. index_of t xs = Some n"
  by (induction xs) auto

lemma message_type_of_type_id:
  assumes "registered t"
  shows "message_type_of_id (message_type_id t) = Some t" "id_valid (message_type_id t)"
    "number (message_type_id t) \<le> 137"
proof -
  obtain n where n: "index_of t message_register = Some n"
    using index_of_mem[of t message_register] assms unfolding registered_def by blast
  note nth = index_of_nth[OF n]
  show "id_valid (message_type_id t)" by (simp add: message_type_id_def n)
  show "message_type_of_id (message_type_id t) = Some t"
    using nth by (simp add: message_type_of_id_def message_type_id_def n)
  show "number (message_type_id t) \<le> 137"
    using nth message_register_eq(1) by (simp add: message_type_id_def n)
qed

lemma serialize_message_sendable:
  assumes "sendable m"
  obtains bs where "serialize_message m = Some bs"
    "\<And>rest. deserialize_and_forward (type_id m) (bs @ rest) = Some m"
proof -
  obtain c b where m: "m = (c, b)" by force
  from assms m have r: "registered (c, body_kind b)" and w: "list_all wire_val (body_values b)"
    by (auto simp: sendable_def message_type_def)
  from deserialize_values_serialize[OF body_values_typed[OF r] w] obtain bs where
    bs: "serialize_values (body_values b) = Some bs"
    "\<And>rest. deserialize_values (message_fields (c, body_kind b)) (bs @ rest) = Some (body_values b, rest)"
    by blast
  show ?thesis
  proof (rule that[of bs])
    show "serialize_message m = Some bs" using bs m by (simp add: serialize_message_def)
    show "deserialize_and_forward (type_id m) (bs @ rest) = Some m" for rest
      using bs(2) m r by (simp add: deserialize_and_forward_def deserialize_message_def type_id_def
          message_type_def message_type_of_type_id make_body_values)
  qed
qed

section \<open>Properties\<close>

text \<open>C30: Every message with valid Ids, sizes below \<open>2 ^ 35\<close> and flags of a signed byte is serialised, and
  dispatching the bytes by the message's type Id hands the communicator the same message, whatever
  bytes follow.\<close>

theorem message_round_trip:
  assumes "sendable m"
  shows "\<exists>bs. serialize_message m = Some bs \<and> (\<forall>rest. deserialize_and_forward (type_id m) (bs @ rest) = Some m)"
  by (rule serialize_message_sendable[OF assms]) blast

definition sample_message :: message where
  "sample_message = (ScatterGather, Gather (Id 300) 5 [1, 2])"

lemma sample_sendable: "sendable sample_message"
proof -
  have "registered (ScatterGather, K_Gather)" by code_simp
  then show ?thesis by (simp add: sendable_def sample_message_def message_type_def wire_size_def)
qed

lemma message_round_trip_witness:
  "serialize_message sample_message = Some [0x82, 0x2C, 5, 2, 1, 2] \<and>
   deserialize_and_forward (type_id sample_message) [0x82, 0x2C, 5, 2, 1, 2, 99] = Some sample_message"
proof -
  have "serialize_message sample_message = Some [0x82, 0x2C, 5, 2, 1, 2]" by code_simp
  moreover obtain bs where "serialize_message sample_message = Some bs"
    "deserialize_and_forward (type_id sample_message) (bs @ [99]) = Some sample_message"
    using message_round_trip[OF sample_sendable] by blast
  ultimately show ?thesis by simp
qed

text \<open>The register gives every message type an Id between 1 and 137, different types different
  Ids, and the dispatch table maps the Id back to the type.\<close>

theorem message_type_ids:
  assumes "registered t" "registered t'"
  shows "message_type_of_id (message_type_id t) = Some t \<and> id_valid (message_type_id t) \<and>
    number (message_type_id t) \<le> 137 \<and> (message_type_id t = message_type_id t' \<longleftrightarrow> t = t')"
proof -
  have "t = t'" if "message_type_id t = message_type_id t'"
    using message_type_of_type_id(1)[OF assms(1)] message_type_of_type_id(1)[OF assms(2)] that by (metis option.inject)
  then show ?thesis using message_type_of_type_id[OF assms(1)] by blast
qed

lemma message_type_ids_witness:
  "message_type_id (DeafMute, K_TerminalDescription) = Id 1 \<and> message_type_id (ServiceClient, K_Gather) = Id 137 \<and>
   message_type_id (DeafMute, K_TerminalDescription) \<noteq> message_type_id (ServiceClient, K_Gather)"
proof -
  have r: "registered (DeafMute, K_TerminalDescription)" "registered (ServiceClient, K_Gather)" by code_simp+
  have "message_type_id (DeafMute, K_TerminalDescription) = Id 1" "message_type_id (ServiceClient, K_Gather) = Id 137"
    by code_simp+
  then show ?thesis using message_type_ids[OF r] by simp
qed

end
