(* ===== verification/Tcp_Stream.thy ===== *)
theory Tcp_Stream
  imports Messages Ring_Buffer
begin

text \<open>
  The byte stream of a TCP connection, \<^verbatim>\<open>connections/tcp/TcpConnection.cpp\<close>: framing of messages
  and heartbeats, the receiver's state machine, and the sender's loop around the ring buffer.
\<close>

section \<open>Framing\<close>

text \<open>
  \<^verbatim>\<open>send\<close> puts the size of type Id and message, the type Id and the message into the stream; a
  heartbeat is a size of zero.
\<close>

definition header_buffer :: "message \<Rightarrow> buffer option" where
  "header_buffer m = do { msg \<leftarrow> serialize_message m;
     let typeId = serialize_id (type_id m);
     Some (serialize_size (word_of_nat (length msg + length typeId)) @ typeId) }"

definition message_frame :: "message \<Rightarrow> buffer option" where
  "message_frame m = do { hdr \<leftarrow> header_buffer m; msg \<leftarrow> serialize_message m; Some (hdr @ msg) }"

definition heartbeat :: buffer where
  "heartbeat = [0]"

section \<open>Receiving\<close>

text \<open>
  \<open>rx_tmp\<close> and \<open>rx_remaining\<close> are \<^verbatim>\<open>m_tmpInBuffer\<close> and \<^verbatim>\<open>m_remainingMsgPayload\<close>; the content of
  the ring buffer is the list the ring represents (theory Ring_Buffer).
\<close>

record rx =
  rx_tmp :: buffer
  rx_remaining :: nat

definition rx_init :: rx where
  "rx_init = \<lparr>rx_tmp = [], rx_remaining = 0\<rparr>"

definition resize :: "nat \<Rightarrow> buffer \<Rightarrow> buffer" where
  "resize n bs = take n bs @ replicate (n - length bs) 0"

text \<open>The inner loop: move bytes over until they form a size.\<close>

fun read_size :: "buffer \<Rightarrow> buffer \<Rightarrow> buffer \<times> buffer \<times> bool" where
  "read_size tmp inb = (if can_deserialize_size tmp then (tmp, inb, True)
     else (case inb of [] \<Rightarrow> (tmp, [], False) | b # bs \<Rightarrow> read_size (tmp @ [b]) bs))"

declare read_size.simps [simp del]

definition payload_size :: "buffer \<Rightarrow> nat" where
  "payload_size tmp = unat (fst (deserialize_size 0 tmp))"

text \<open>The rest of the outer loop's body for a known size: what is left, and the payload if complete.\<close>

definition read_payload :: "rx \<Rightarrow> buffer \<Rightarrow> rx \<times> buffer \<times> buffer option" where
  "read_payload s inb = (
     let k = min (rx_remaining s) (length inb);
         tmp = overwrite (rx_tmp s) (length (rx_tmp s) - rx_remaining s) (take k inb);
         remaining = rx_remaining s - k
     in if remaining > 0 then (\<lparr>rx_tmp = tmp, rx_remaining = remaining\<rparr>, drop k inb, None)
        else (\<lparr>rx_tmp = [], rx_remaining = 0\<rparr>, drop k inb, Some tmp))"

lemma read_size_length:
  "read_size tmp inb = (tmp', inb', b) \<Longrightarrow>
    length inb' \<le> length inb \<and> (b \<longrightarrow> can_deserialize_size tmp') \<and> tmp @ inb = tmp' @ inb'"
proof (induction inb arbitrary: tmp)
  case Nil
  then show ?case by (simp add: read_size.simps[of tmp] split: if_splits)
next
  case (Cons x inb)
  show ?case
  proof (cases "can_deserialize_size tmp")
    case True
    then show ?thesis using Cons.prems by (simp add: read_size.simps[of tmp])
  next
    case False
    then have "read_size (tmp @ [x]) inb = (tmp', inb', b)" using Cons.prems by (simp add: read_size.simps[of tmp])
    then show ?thesis using Cons.IH by fastforce
  qed
qed

text \<open>One iteration of the outer loop: wait for more data, or go on, perhaps with a payload.\<close>

datatype rx_result = Wait rx | Continue rx buffer "buffer option"

definition finish_payload :: "rx \<Rightarrow> buffer \<Rightarrow> rx_result" where
  "finish_payload s inb = (case read_payload s inb of
      (s', inb', None) \<Rightarrow> Wait s' | (s', inb', Some p) \<Rightarrow> Continue s' inb' (Some p))"

definition sized :: "buffer \<Rightarrow> rx" where
  "sized tmp = \<lparr>rx_tmp = resize (payload_size tmp) tmp, rx_remaining = payload_size tmp\<rparr>"

definition rx_iteration :: "rx \<Rightarrow> buffer \<Rightarrow> rx_result" where
  "rx_iteration s inb = (
     if rx_remaining s = 0 then
       (case read_size (rx_tmp s) inb of (tmp, inb1, found) \<Rightarrow>
          if \<not> found then Wait (s\<lparr>rx_tmp := tmp\<rparr>)
          else if payload_size tmp = 0 then Continue (sized tmp) inb1 None
          else finish_payload (sized tmp) inb1)
     else finish_payload s inb)"

lemma rx_iteration_payload: "rx_remaining s \<noteq> 0 \<Longrightarrow> rx_iteration s inb = finish_payload s inb"
  by (simp add: rx_iteration_def)

lemma rx_iteration_size:
  assumes "rx_remaining s = 0" "read_size (rx_tmp s) inb = (tmp, inb1, found)"
  shows "rx_iteration s inb = (if \<not> found then Wait (s\<lparr>rx_tmp := tmp\<rparr>)
      else if payload_size tmp = 0 then Continue (sized tmp) inb1 None else finish_payload (sized tmp) inb1)"
  by (simp add: rx_iteration_def assms)

lemma read_payload_length:
  "read_payload s inb = (s', inb', Some p) \<Longrightarrow> length inb' = length inb - rx_remaining s \<and>
    rx_remaining s \<le> length inb \<and> s' = rx_init"
  by (auto simp: read_payload_def Let_def rx_init_def split: if_splits)

lemma finish_payload_length:
  "finish_payload s inb = Continue s' inb' p \<Longrightarrow> length inb' = length inb - rx_remaining s \<and>
    rx_remaining s \<le> length inb \<and> s' = rx_init"
  by (cases "read_payload s inb")
    (auto simp: finish_payload_def split: option.splits dest: read_payload_length)

lemma rx_iteration_decreases:
  assumes "rx_iteration s inb = Continue s' inb' p"
  shows "length inb' < length inb \<or> length inb' = length inb \<and> length (rx_tmp s') < length (rx_tmp s)"
proof (cases "rx_remaining s = 0")
  case False
  then have "finish_payload s inb = Continue s' inb' p" using assms by (simp add: rx_iteration_def)
  then show ?thesis using finish_payload_length[of s inb s' inb' p] False by auto
next
  case True
  obtain tmp inb1 found where r: "read_size (rx_tmp s) inb = (tmp, inb1, found)" by (metis prod_cases3)
  note it = rx_iteration_size[OF True r]
  have found: found using assms it by (cases found) simp_all
  note l = read_size_length[OF r]
  have ne: "tmp \<noteq> []" using l found by auto
  have len: "length (rx_tmp s) + length inb = length tmp + length inb1" using l by (metis length_append)
  show ?thesis
  proof (cases "payload_size tmp = 0")
    case zero: True
    then have "s' = sized tmp" "inb' = inb1" using assms it found by simp_all
    moreover have "rx_tmp (sized tmp) = []" using zero by (simp add: sized_def resize_def)
    moreover have "0 < length tmp" "length inb1 \<le> length inb" using ne l by simp_all
    ultimately show ?thesis using len by (cases "length inb1 = length inb") simp_all
  next
    case False
    then have "finish_payload (sized tmp) inb1 = Continue s' inb' p" using assms it found by simp
    from finish_payload_length[OF this] show ?thesis using False l by (auto simp: sized_def)
  qed
qed

function rx_deserialize :: "rx \<Rightarrow> buffer \<Rightarrow> rx \<times> buffer list" where
  "rx_deserialize s inb = (case rx_iteration s inb of
      Wait s' \<Rightarrow> (s', [])
    | Continue s' inb' p \<Rightarrow> (let (s'', ps) = rx_deserialize s' inb' in
        (s'', (case p of None \<Rightarrow> ps | Some x \<Rightarrow> x # ps))))"
  by pat_completeness auto
termination
  by (relation "measures [\<lambda>(s, inb). length inb, \<lambda>(s, inb). length (rx_tmp s)]")
    (auto dest: rx_iteration_decreases)

declare rx_deserialize.simps [simp del]

text \<open>
  The payload goes to the message register; an undecodable one is a failed assertion.  A dead
  connection drops it.
\<close>

definition deliver :: "bool \<Rightarrow> buffer \<Rightarrow> message option option" where
  "deliver alive p = do { (i, rest) \<leftarrow> deserialize_id p;
     if alive then do { m \<leftarrow> deserialize_and_forward i rest; Some (Some m) } else Some None }"

subsection \<open>Chunks do not matter\<close>

text \<open>States in which the receiver waits: a partial size, or a payload buffer of the final length.\<close>

definition rx_ok :: "rx \<Rightarrow> bool" where
  "rx_ok s \<longleftrightarrow> rx_remaining s \<le> length (rx_tmp s)"

lemma read_size_append:
  "read_size tmp xs = (tmp', xs', True) \<Longrightarrow> read_size tmp (xs @ ys) = (tmp', xs' @ ys, True)"
  "read_size tmp xs = (tmp', xs', False) \<Longrightarrow> xs' = [] \<and> read_size tmp (xs @ ys) = read_size tmp' ys"
proof (induction xs arbitrary: tmp)
  case Nil
  { case 1 then show ?case by (simp add: read_size.simps[of tmp] split: if_splits) }
  { case 2 then show ?case by (simp add: read_size.simps[of tmp "[]"] split: if_splits) }
next
  case (Cons x xs)
  { case 1
    then show ?case using Cons.IH(1)[of "tmp @ [x]"]
      by (auto simp: read_size.simps[of tmp] split: if_splits) }
  { case 2
    then show ?case using Cons.IH(2)[of "tmp @ [x]"]
      by (auto simp: read_size.simps[of tmp "x # _"] split: if_splits) }
qed

lemma overwrite_twice:
  assumes "from + length xs + length ys \<le> length d"
  shows "overwrite (overwrite d from xs) (from + length xs) ys = overwrite d from (xs @ ys)"
proof (rule nth_equalityI)
  show "length (overwrite (overwrite d from xs) (from + length xs) ys) = length (overwrite d from (xs @ ys))"
    using assms by simp
  fix k
  assume "k < length (overwrite (overwrite d from xs) (from + length xs) ys)"
  then have "k < length d" using assms by simp
  then show "overwrite (overwrite d from xs) (from + length xs) ys ! k = overwrite d from (xs @ ys) ! k"
    using assms by (auto simp: nth_overwrite nth_append)
qed

lemma finish_payload_append:
  assumes ok: "rx_ok s" and pos: "rx_remaining s \<noteq> 0"
  shows "finish_payload s xs = Continue s' xs' p \<Longrightarrow> finish_payload s (xs @ ys) = Continue s' (xs' @ ys) p"
    "finish_payload s xs = Wait s' \<Longrightarrow> rx_ok s' \<and> rx_remaining s' \<noteq> 0 \<and>
      finish_payload s (xs @ ys) = finish_payload s' ys"
proof -
  define r where "r = rx_remaining s"
  define d where "d = rx_tmp s"
  have le: "r \<le> length d" using ok by (simp add: rx_ok_def r_def d_def)
  show "finish_payload s (xs @ ys) = Continue s' (xs' @ ys) p" if c: "finish_payload s xs = Continue s' xs' p"
  proof -
    have "r \<le> length xs" using finish_payload_length[OF c] by (simp add: r_def)
    then show ?thesis using c by (auto simp: finish_payload_def read_payload_def Let_def min_def r_def)
  qed
  show "rx_ok s' \<and> rx_remaining s' \<noteq> 0 \<and> finish_payload s (xs @ ys) = finish_payload s' ys"
    if w: "finish_payload s xs = Wait s'"
  proof -
    have lt: "length xs < r" using w by (auto simp: finish_payload_def read_payload_def Let_def r_def split: if_splits)
    have s': "s' = \<lparr>rx_tmp = overwrite d (length d - r) xs, rx_remaining = r - length xs\<rparr>"
      using w lt by (auto simp: finish_payload_def read_payload_def Let_def min_def r_def d_def)
    have len: "length (overwrite d (length d - r) xs) = length d" using le lt by simp
    define k where "k = min (r - length xs) (length ys)"
    have k: "min r (length xs + length ys) = length xs + k" "take (length xs + k) (xs @ ys) = xs @ take k ys"
      "drop (length xs + k) (xs @ ys) = drop k ys"
      using lt by (auto simp: k_def min_def)
    have ov: "overwrite (overwrite d (length d - r) xs) (length d + length xs - r) (take k ys) =
        overwrite d (length d - r) (xs @ take k ys)"
    proof -
      have "length d + length xs - r = length d - r + length xs" using le lt by simp
      moreover have "length d - r + length xs + length (take k ys) \<le> length d"
        using le lt by (simp add: k_def)
      ultimately show ?thesis using overwrite_twice by metis
    qed
    have "finish_payload s (xs @ ys) = finish_payload s' ys"
      using ov len lt le
      by (simp add: finish_payload_def read_payload_def Let_def s' k k_def[symmetric] r_def[symmetric] d_def[symmetric])
    then show ?thesis using le lt len by (simp add: s' rx_ok_def)
  qed
qed

lemma sized_ok: "rx_ok (sized tmp)"
  by (simp add: sized_def rx_ok_def resize_def)

lemma rx_iteration_append:
  assumes ok: "rx_ok s"
  shows "rx_iteration s xs = Continue s' xs' p \<Longrightarrow> rx_iteration s (xs @ ys) = Continue s' (xs' @ ys) p"
    "rx_iteration s xs = Wait s' \<Longrightarrow> rx_ok s' \<and> rx_iteration s (xs @ ys) = rx_iteration s' ys"
proof -
  obtain tmp xs1 found where r: "read_size (rx_tmp s) xs = (tmp, xs1, found)" by (metis prod_cases3)
  have r2: "read_size (rx_tmp s) (xs @ ys) = (tmp, xs1 @ ys, True)" if found
    using read_size_append(1) r that by simp
  note fin = finish_payload_append[OF ok, of xs] and fin1 = finish_payload_append[OF sized_ok, of tmp xs1]
  have pos: "rx_remaining (sized tmp) = payload_size tmp" by (simp add: sized_def)
  show "rx_iteration s (xs @ ys) = Continue s' (xs' @ ys) p" if c: "rx_iteration s xs = Continue s' xs' p"
  proof (cases "rx_remaining s = 0")
    case False
    then show ?thesis using c fin(1)[of s' xs' p ys] by (simp add: rx_iteration_payload)
  next
    case True
    note it = rx_iteration_size[OF True r]
    have found: found using c it by (cases found) simp_all
    note it2 = rx_iteration_size[OF True r2[OF found]]
    show ?thesis
    proof (cases "payload_size tmp = 0")
      case zero: True
      then show ?thesis using c it it2 found by simp
    next
      case nz: False
      then have "finish_payload (sized tmp) xs1 = Continue s' xs' p" using c it found by simp
      then show ?thesis using it2 nz fin1(1)[of s' xs' p ys] pos by simp
    qed
  qed
  show "rx_ok s' \<and> rx_iteration s (xs @ ys) = rx_iteration s' ys" if w: "rx_iteration s xs = Wait s'"
  proof (cases "rx_remaining s = 0")
    case False
    then have "rx_ok s' \<and> rx_remaining s' \<noteq> 0 \<and> finish_payload s (xs @ ys) = finish_payload s' ys"
      using w fin(2)[of s' ys] by (simp add: rx_iteration_payload)
    then show ?thesis using False by (simp add: rx_iteration_payload)
  next
    case True
    note it = rx_iteration_size[OF True r]
    show ?thesis
    proof (cases found)
      case False
      then have s': "s' = s\<lparr>rx_tmp := tmp\<rparr>" using w it by simp
      have "read_size (rx_tmp s) (xs @ ys) = read_size tmp ys"
        using read_size_append(2)[of "rx_tmp s" xs tmp xs1 ys] r False by simp
      then show ?thesis using True s' by (simp add: rx_iteration_def rx_ok_def split: prod.splits)
    next
      case found: True
      note it2 = rx_iteration_size[OF True r2[OF found]]
      have nz: "payload_size tmp \<noteq> 0" and f: "finish_payload (sized tmp) xs1 = Wait s'"
        using w it found by (auto split: if_splits)
      have "rx_ok s' \<and> rx_remaining s' \<noteq> 0 \<and> finish_payload (sized tmp) (xs1 @ ys) = finish_payload s' ys"
        using fin1(2)[OF _ f, of ys] nz pos by simp
      then show ?thesis using it2 nz by (simp add: rx_iteration_payload)
    qed
  qed
qed

lemma rx_iteration_ok: "rx_iteration s xs = Continue s' xs' p \<Longrightarrow> rx_ok s'"
  using sized_ok
  by (auto simp: rx_iteration_def rx_ok_def rx_init_def split: prod.splits if_splits dest: finish_payload_length)

lemma rx_deserialize_append:
  "rx_ok s \<Longrightarrow> rx_deserialize s xs = (s1, ps) \<Longrightarrow> rx_deserialize s1 ys = (s2, qs) \<Longrightarrow>
    rx_ok s1 \<and> rx_deserialize s (xs @ ys) = (s2, ps @ qs)"
proof (induction s xs arbitrary: s1 ps rule: rx_deserialize.induct)
  case (1 s xs)
  show ?case
  proof (cases "rx_iteration s xs")
    case (Wait s')
    then have "s1 = s'" "ps = []" using "1.prems"(2) by (simp_all add: rx_deserialize.simps[of s xs])
    moreover note rx_iteration_append(2)[OF "1.prems"(1) Wait, of ys]
    ultimately show ?thesis using "1.prems"(3) by (simp add: rx_deserialize.simps[of s "xs @ ys"] rx_deserialize.simps[of s' ys])
  next
    case (Continue s' xs' p)
    obtain s'' ps' where r: "rx_deserialize s' xs' = (s'', ps')" by force
    have eq: "s1 = s''" "ps = (case p of None \<Rightarrow> ps' | Some x \<Rightarrow> x # ps')"
      using "1.prems"(2) Continue r by (simp_all add: rx_deserialize.simps[of s xs])
    have "rx_ok s'' \<and> rx_deserialize s' (xs' @ ys) = (s2, ps' @ qs)"
      using "1.IH"[OF Continue rx_iteration_ok[OF Continue] r] "1.prems"(3) eq(1) by simp
    then show ?thesis
      using rx_iteration_append(1)[OF "1.prems"(1) Continue, of ys] eq
      by (simp add: rx_deserialize.simps[of s "xs @ ys"] split: option.splits)
  qed
qed

text \<open>Data arriving in pieces, each followed by a run of \<^verbatim>\<open>deserialize()\<close>.\<close>

fun rx_feed :: "rx \<Rightarrow> buffer list \<Rightarrow> rx \<times> buffer list" where
  "rx_feed s [] = (s, [])"
| "rx_feed s (c # cs) = (let (s1, ps) = rx_deserialize s c; (s2, qs) = rx_feed s1 cs in (s2, ps @ qs))"

lemma rx_feed_concat: "rx_ok s \<Longrightarrow> rx_deserialize s [] = (s, []) \<Longrightarrow> rx_feed s cs = rx_deserialize s (concat cs)"
proof (induction cs arbitrary: s)
  case Nil
  then show ?case by simp
next
  case (Cons c cs)
  obtain s1 ps where 1: "rx_deserialize s c = (s1, ps)" by force
  obtain s2 qs where 2: "rx_deserialize s1 (concat cs) = (s2, qs)" by force
  obtain s3 rs where 3: "rx_deserialize s1 [] = (s3, rs)" by force
  have ok: "rx_ok s1" using rx_deserialize_append[OF Cons.prems(1) 1 2] by simp
  have "rx_deserialize s c = (s3, ps @ rs)" using rx_deserialize_append[OF Cons.prems(1) 1 3] by simp
  then have "rx_deserialize s1 [] = (s1, [])" using 1 3 by simp
  then have "rx_feed s1 cs = (s2, qs)" using Cons.IH[OF ok] 2 by simp
  then show ?case using rx_deserialize_append[OF Cons.prems(1) 1 2] 1 by simp
qed

lemma rx_init_waits: "rx_ok rx_init" "rx_deserialize rx_init [] = (rx_init, [])"
  by (simp_all add: rx_ok_def rx_init_def rx_deserialize.simps rx_iteration_def read_size.simps)

subsection \<open>What was framed is received\<close>

lemma can_deserialize_size_append1:
  "\<not> can_deserialize_size tmp \<Longrightarrow> can_deserialize_size (tmp @ [b]) \<longleftrightarrow> \<not> bit b 7"
  by (induction tmp) (auto split: if_splits)

lemma read_size_bytes:
  "\<not> can_deserialize_size tmp \<Longrightarrow>
    read_size tmp (size_bytes (Suc i) v @ xs) = (tmp @ size_bytes (Suc i) v, xs, True)"
proof (induction i arbitrary: tmp)
  case 0
  then have "can_deserialize_size (tmp @ [size_byte v (Suc 0)])"
    by (simp add: can_deserialize_size_append1 size_byte_bits)
  then show ?case using 0 by (simp add: read_size.simps[of tmp] read_size.simps[of "tmp @ _"])
next
  case (Suc i)
  have "\<not> can_deserialize_size (tmp @ [size_byte v (Suc (Suc i))])"
    using Suc.prems by (simp add: can_deserialize_size_append1 size_byte_bits)
  from Suc.IH[OF this] show ?case using Suc.prems by (simp add: read_size.simps[of tmp])
qed

lemma read_size_serialize: "read_size [] (serialize_size v @ xs) = (serialize_size v, xs, True)"
proof -
  obtain n where "size_length v = Suc n" using size_length_bounds(1)[of v] by (cases "size_length v") auto
  then show ?thesis using read_size_bytes[of "[]" n v xs] by (simp add: serialize_size_def)
qed

lemma payload_size_serialize: "wire_size n \<Longrightarrow> payload_size (serialize_size (word_of_nat n)) = n"
  using deserialize_size_serialize[of 0 "word_of_nat n" "[]"]
  by (simp add: payload_size_def take_bit_wire_size unat_wire_size)

text \<open>A frame on an idle receiver; \<open>p = []\<close> is the heartbeat.\<close>

lemma rx_deserialize_frame:
  assumes p: "wire_size (length p)"
  shows "rx_deserialize rx_init (serialize_size (word_of_nat (length p)) @ p @ rest) =
    (let (s, ps) = rx_deserialize rx_init rest in (s, if p = [] then ps else p # ps))"
proof -
  define hdr where "hdr = serialize_size (word_of_nat (length p))"
  have r: "read_size (rx_tmp rx_init) (hdr @ p @ rest) = (hdr, p @ rest, True)"
    using read_size_serialize by (simp add: rx_init_def hdr_def)
  have n: "payload_size hdr = length p" using payload_size_serialize[OF p] by (simp add: hdr_def)
  have it: "rx_iteration rx_init (hdr @ p @ rest) =
      (if p = [] then Continue (sized hdr) (p @ rest) None else finish_payload (sized hdr) (p @ rest))"
    using rx_iteration_size[OF _ r] n by (simp add: rx_init_def)
  have "rx_deserialize rx_init (hdr @ p @ rest) =
    (let (s, ps) = rx_deserialize rx_init rest in (s, if p = [] then ps else p # ps))"
  proof (cases "p = []")
    case True
    then have "sized hdr = rx_init" using n by (simp add: sized_def rx_init_def resize_def)
    then show ?thesis
      using it True by (simp add: rx_deserialize.simps[of rx_init "hdr @ rest"] split: prod.splits)
  next
    case False
    have "length (resize (length p) hdr) = length p" by (simp add: resize_def)
    then have "finish_payload (sized hdr) (p @ rest) = Continue rx_init rest (Some p)"
      using n by (simp add: finish_payload_def read_payload_def sized_def rx_init_def overwrite_def)
    then show ?thesis
      using it False by (simp add: rx_deserialize.simps[of rx_init "hdr @ p @ rest"] split: prod.splits)
  qed
  then show ?thesis by (simp only: hdr_def)
qed

text \<open>What a sender puts into the stream: messages and heartbeats.\<close>

type_synonym item = "message option"

definition item_ok :: "item \<Rightarrow> bool" where
  "item_ok it = (case it of None \<Rightarrow> True
    | Some m \<Rightarrow> sendable m \<and> (\<exists>bs. serialize_message m = Some bs \<and>
        wire_size (length bs + length (serialize_id (type_id m)))))"

definition item_frame :: "item \<Rightarrow> buffer" where
  "item_frame it = (case it of None \<Rightarrow> heartbeat | Some m \<Rightarrow> the (message_frame m))"

lemma item_frame_received:
  assumes "item_ok it"
  obtains p where "\<And>rest. rx_deserialize rx_init (item_frame it @ rest) =
      (let (s, ps) = rx_deserialize rx_init rest in (s, if it = None then ps else p # ps))"
    "\<And>m. it = Some m \<Longrightarrow> deliver True p = Some (Some m)"
proof (cases it)
  case None
  have "wire_size (length ([] :: buffer))" by (simp add: wire_size_def)
  moreover have "serialize_size 0 = heartbeat" by (simp add: heartbeat_def) code_simp
  ultimately show ?thesis
    using that[of "[]"] rx_deserialize_frame[of "[]"] None by (simp add: item_frame_def)
next
  case (Some m)
  then have send: "sendable m" using assms by (simp add: item_ok_def)
  obtain bs where bs: "serialize_message m = Some bs"
    "\<And>rest. deserialize_and_forward (type_id m) (bs @ rest) = Some m"
    by (rule serialize_message_sendable[OF send], rule that)
  define p where "p = serialize_id (type_id m) @ bs"
  have fr: "item_frame it = serialize_size (word_of_nat (length p)) @ p"
    using bs Some by (simp add: item_frame_def message_frame_def header_buffer_def p_def Let_def add.commute)
  have w: "wire_size (length p)" using assms Some bs by (simp add: item_ok_def p_def add.commute)
  have reg: "registered (message_type m)" using send by (simp add: sendable_def)
  have tid: "id_valid (type_id m)" "wire_size (number (type_id m))"
    using message_type_of_type_id(2,3)[OF reg] by (simp_all add: type_id_def wire_size_def)
  have "deliver True p = Some (Some m)"
    using deserialize_id_serialize[OF tid] bs(2)[of "[]"] by (simp add: deliver_def p_def)
  moreover have "p \<noteq> []"
    by (simp add: p_def serialize_id_def serialize_size_def)
      (metis gr0_implies_Suc list.distinct(1) size_bytes.simps(2) size_length_bounds(1))
  ultimately show ?thesis
    using that[of p] rx_deserialize_frame[OF w] Some fr by simp
qed

lemma items_received:
  "list_all item_ok its \<Longrightarrow> \<exists>ps. rx_deserialize rx_init (concat (map item_frame its)) = (rx_init, ps) \<and>
    map (deliver True) ps = map (\<lambda>m. Some (Some m)) (List.map_filter (\<lambda>it. it) its)"
proof (induction its)
  case Nil
  then show ?case using rx_init_waits(2) by (simp add: List.map_filter_simps)
next
  case (Cons it its)
  then obtain ps where ps: "rx_deserialize rx_init (concat (map item_frame its)) = (rx_init, ps)"
    "map (deliver True) ps = map (\<lambda>m. Some (Some m)) (List.map_filter (\<lambda>it. it) its)" by auto
  obtain p where p: "\<And>rest. rx_deserialize rx_init (item_frame it @ rest) =
      (let (s, ps) = rx_deserialize rx_init rest in (s, if it = None then ps else p # ps))"
    "\<And>m. it = Some m \<Longrightarrow> deliver True p = Some (Some m)"
    using item_frame_received[of it] Cons.prems by auto
  show ?case using p(1)[of "concat (map item_frame its)"] p(2) ps
    by (cases it) (auto simp: List.map_filter_simps)
qed

section \<open>Sending\<close>

text \<open>
  \<^verbatim>\<open>send\<close> writes as much as fits and waits on a condition variable whose predicate writes the rest.
  The predicate is evaluated at once and again after every completed \<^verbatim>\<open>async_send\<close>; \<open>ns\<close> lists how
  many bytes the socket takes before each further evaluation.  The iterator \<open>it\<close> is captured and
  the predicate does not advance it.  The results are the bytes the socket took, the ring and
  whether the wait ended.  The connection stays alive meanwhile.
\<close>

fun send_wait :: "nat list \<Rightarrow> buffer \<Rightarrow> byte ring \<Rightarrow> buffer \<times> byte ring \<times> bool" where
  "send_wait [] it r = (let (n, r1) = ring_write it r in ([], r1, n = length it))"
| "send_wait (k # ks) it r = (let (n, r1) = ring_write it r in
     if n = length it then ([], r1, True)
     else (let (out, r2) = ring_read k r1; (outs, r3, fin) = send_wait ks it r2 in (out @ outs, r3, fin)))"

definition send_part :: "nat list \<Rightarrow> buffer \<Rightarrow> byte ring \<Rightarrow> buffer \<times> byte ring \<times> bool" where
  "send_part ns d r = (let (n, r1) = ring_write d r in send_wait ns (drop n d) r1)"

definition tcp_send :: "nat list \<Rightarrow> nat list \<Rightarrow> message \<Rightarrow> byte ring \<Rightarrow> (buffer \<times> byte ring \<times> bool) option" where
  "tcp_send ns1 ns2 m r = do { hdr \<leftarrow> header_buffer m; msg \<leftarrow> serialize_message m;
     let (out1, r1, fin1) = send_part ns1 hdr r;
     if fin1 then (let (out2, r2, fin2) = send_part ns2 msg r1 in Some (out1 @ out2, r2, fin2))
     else Some (out1, r1, False) }"

definition send_heartbeat :: "nat list \<Rightarrow> byte ring \<Rightarrow> buffer \<times> byte ring \<times> bool" where
  "send_heartbeat ns r = send_part ns heartbeat r"

definition free :: "byte ring \<Rightarrow> nat" where
  "free r = capacity r - length (contents r)"

lemma send_wait_nil: "ring_ok r \<Longrightarrow> \<exists>r'. send_wait ns [] r = ([], r', True) \<and> ring_ok r' \<and>
    max_size r' = max_size r \<and> contents r' = contents r"
  using ring_write_spec[of r "[]"]
  by (cases ns; cases "ring_write [] r") auto

lemma send_part_fits:
  assumes ok: "ring_ok r" and fits: "length d \<le> free r"
  shows "\<exists>r'. send_part ns d r = ([], r', True) \<and> ring_ok r' \<and> max_size r' = max_size r \<and> contents r' = contents r @ d"
proof -
  obtain n r1 where w: "ring_write d r = (n, r1)" by force
  have 1: "n = length d" "contents r1 = contents r @ d" "ring_ok r1" "max_size r1 = max_size r"
    using ring_write_spec[OF ok, of d] fits w by (simp_all add: free_def)
  then show ?thesis using send_wait_nil[OF 1(3), of ns] w by (auto simp: send_part_def)
qed

lemma tcp_send_fits:
  assumes ok: "ring_ok r" and fr: "message_frame m = Some fr" and fits: "length fr \<le> free r"
  shows "\<exists>r'. tcp_send ns1 ns2 m r = Some ([], r', True) \<and> ring_ok r' \<and> contents r' = contents r @ fr"
proof -
  obtain hdr msg where h: "header_buffer m = Some hdr" "serialize_message m = Some msg" "fr = hdr @ msg"
    using fr by (auto simp: message_frame_def elim!: bind_SomeE)
  obtain r1 where r1: "send_part ns1 hdr r = ([], r1, True)" "ring_ok r1" "max_size r1 = max_size r"
    "contents r1 = contents r @ hdr"
    using send_part_fits[OF ok, of hdr ns1] fits h by auto
  have "length msg \<le> free r1" using fits h r1 by (simp add: free_def capacity_def)
  then obtain r2 where "send_part ns2 msg r1 = ([], r2, True)" "ring_ok r2" "contents r2 = contents r1 @ msg"
    using send_part_fits[OF r1(2), of msg ns2] by auto
  then show ?thesis using h r1 by (simp add: tcp_send_def)
qed

text \<open>
  What reaches the stream in general: every evaluation that writes only a part of the rest adds
  that part once more.
\<close>

lemma send_wait_stream:
  "ring_ok r \<Longrightarrow> send_wait ns it r = (out, r', fin) \<Longrightarrow>
    \<exists>ks. ring_ok r' \<and> max_size r' = max_size r \<and> list_all (\<lambda>k. k < length it) ks \<and>
      out @ contents r' = contents r @ concat (map (\<lambda>k. take k it) ks) @ (if fin then it else [])"
proof (induction ns arbitrary: r out)
  case Nil
  obtain n r1 where w: "ring_write it r = (n, r1)" by force
  have 1: "n \<le> length it" "contents r1 = contents r @ take n it" "ring_ok r1" "max_size r1 = max_size r"
    using ring_write_spec[OF Nil(1), of it] w by simp_all
  have eq: "out = []" "r' = r1" "fin = (n = length it)" using Nil(2) w by auto
  show ?case
  proof (cases fin)
    case True
    then show ?thesis using 1 eq by (intro exI[of _ "[]"]) simp
  next
    case False
    then show ?thesis using 1 eq by (intro exI[of _ "[n]"]) simp
  qed
next
  case (Cons k ns)
  obtain n r1 where w: "ring_write it r = (n, r1)" by force
  have 1: "n \<le> length it" "contents r1 = contents r @ take n it" "ring_ok r1" "max_size r1 = max_size r"
    using ring_write_spec[OF Cons.prems(1), of it] w by simp_all
  show ?case
  proof (cases "n = length it")
    case True
    then have "out = []" "r' = r1" "fin" using Cons.prems(2) w by auto
    then show ?thesis using 1 True by (intro exI[of _ "[]"]) simp
  next
    case False
    obtain o1 r2 where rd: "ring_read k r1 = (o1, r2)" by force
    have 2: "o1 @ contents r2 = contents r1" "ring_ok r2" "max_size r2 = max_size r1"
      using ring_read_spec[OF 1(3), of k] rd by simp_all
    obtain o2 where w2: "send_wait ns it r2 = (o2, r', fin)" and out: "out = o1 @ o2"
      using Cons.prems(2) w rd False by (auto split: prod.splits)
    obtain ks where ks: "ring_ok r'" "max_size r' = max_size r2" "list_all (\<lambda>k. k < length it) ks"
      "o2 @ contents r' = contents r2 @ concat (map (\<lambda>k. take k it) ks) @ (if fin then it else [])"
      using Cons.IH[OF 2(2) w2] by auto
    define X where "X = concat (map (\<lambda>k. take k it) ks) @ (if fin then it else [])"
    have "out @ contents r' = (o1 @ contents r2) @ X" using ks(4) out by (simp add: X_def)
    also have "\<dots> = contents r @ take n it @ X" by (simp add: 2(1) 1(2))
    finally have "out @ contents r' = contents r @ concat (map (\<lambda>k. take k it) (n # ks)) @ (if fin then it else [])"
      by (simp add: X_def)
    then show ?thesis using ks 1 2 False by (intro exI[of _ "n # ks"]) simp
  qed
qed

text \<open>The predicate can only become true if the rest of the data fits into an empty ring.\<close>

lemma send_wait_rest_fits: "ring_ok r \<Longrightarrow> send_wait ns it r = (out, r', True) \<Longrightarrow> length it \<le> capacity r"
proof (induction ns arbitrary: r out)
  case Nil
  then show ?case using ring_write_spec(1)[OF Nil(1), of it] by (auto split: prod.splits)
next
  case (Cons k ns)
  obtain n r1 where w: "ring_write it r = (n, r1)" by force
  have 1: "n \<le> capacity r" "ring_ok r1" "capacity r1 = capacity r"
    using ring_write_spec[OF Cons.prems(1), of it] w by (auto simp: capacity_def)
  show ?case
  proof (cases "n = length it")
    case False
    obtain o1 r2 where rd: "ring_read k r1 = (o1, r2)" by force
    have 2: "ring_ok r2" "capacity r2 = capacity r1" using ring_read_spec[OF 1(2), of k] rd by (simp_all add: capacity_def)
    obtain o2 where "send_wait ns it r2 = (o2, r', True)" using Cons.prems(2) w rd False by (auto split: prod.splits)
    then show ?thesis using Cons.IH[OF 2(1)] 2(2) 1(3) by simp
  qed (use 1 in simp)
qed

text \<open>
  Data that does not fit, into a ring with any contents: what reaches the stream, and the schedule in which the socket takes
  \<open>k\<close> bytes, the predicate writes \<open>k\<close> bytes of the rest, and when the socket has taken the ring's contents it writes
  the whole rest again.
\<close>

lemma send_part_overflows:
  assumes ok: "ring_ok r" and o: "free r < length d" and s: "send_part ns d r = (out, r', fin)"
  defines "it \<equiv> drop (free r) d"
  shows "\<exists>ks. list_all (\<lambda>k. k < length it) ks \<and>
      out @ contents r' = contents r @ take (free r) d @ concat (map (\<lambda>k. take k it) ks) @ (if fin then it else [])"
    and "capacity r < length it \<Longrightarrow> \<not> fin"
proof -
  obtain n r1 where w: "ring_write d r = (n, r1)" by force
  have 1: "n = free r" "contents r1 = contents r @ take n d" "ring_ok r1" "capacity r1 = capacity r"
    using ring_write_spec[OF ok, of d] w o by (simp_all add: free_def capacity_def)
  have s1: "send_wait ns it r1 = (out, r', fin)" using s w 1(1) by (simp add: send_part_def it_def)
  show "\<exists>ks. list_all (\<lambda>k. k < length it) ks \<and>
      out @ contents r' = contents r @ take (free r) d @ concat (map (\<lambda>k. take k it) ks) @ (if fin then it else [])"
    using send_wait_stream[OF 1(3) s1] 1 by auto
  show "capacity r < length it \<Longrightarrow> \<not> fin" using send_wait_rest_fits[OF 1(3), of ns it out r'] s1 1(4) by (cases fin) auto
qed

lemma send_part_repeats:
  assumes ok: "ring_ok r" and o: "free r < length d" and k: "0 < k" "k < length (drop (free r) d)"
    and c: "length (drop (free r) d) \<le> capacity r"
  shows "\<exists>out r'. send_part [k, capacity r] d r = (out, r', True) \<and>
    out @ contents r' = contents r @ take (free r) d @ take k (drop (free r) d) @ drop (free r) d"
proof -
  define c where "c = capacity r"
  define it where "it = drop (free r) d"
  define X where "X = contents r @ take (free r) d"
  note put = ring.put_count ring.put_elems ring.put_ok ring.put_cap
  note get = ring.get_out ring.get_elems ring.get_ok ring.get_cap
  have X: "length X = c" using o ring.bound[OF ok] by (simp add: X_def c_def free_def)
  have m: "k < length it" "length it \<le> c" using k(2) c by (simp_all add: it_def c_def)
  obtain n r1 where w1: "ring_write d r = (n, r1)" by force
  have 1: "n = free r" "contents r1 = X" "ring_ok r1" "capacity r1 = c"
    using put[OF ok, of d] w1 o by (simp_all add: c_def X_def free_def)
  obtain n2 r2 where w2: "ring_write it r1 = (n2, r2)" by force
  have 2: "n2 = 0" "contents r2 = X" "ring_ok r2" "capacity r2 = c"
    using put[OF 1(3), of it] w2 1 X by simp_all
  obtain o3 r3 where rd: "ring_read k r2 = (o3, r3)" by force
  have 3: "o3 = take k X" "contents r3 = drop k X" "ring_ok r3" "capacity r3 = c"
    using get[OF 2(3), of k] rd 2 by simp_all
  have len3: "length (contents r3) = c - k" using 3 X by simp
  obtain n4 r4 where w4: "ring_write it r3 = (n4, r4)" by force
  have 4: "n4 = k" "contents r4 = drop k X @ take k it" "ring_ok r4" "capacity r4 = c"
    using put[OF 3(3), of it] w4 3 len3 m by simp_all
  obtain o5 r5 where rd5: "ring_read c r4 = (o5, r5)" by force
  have len4: "length (contents r4) = c" using 4 m X by simp
  have 5: "o5 = contents r4" "contents r5 = []" "ring_ok r5" "capacity r5 = c"
    using get[OF 4(3), of c] rd5 4(4) len4 by simp_all
  obtain n6 r6 where w6: "ring_write it r5 = (n6, r6)" by force
  have 6: "n6 = length it" "contents r6 = it"
    using put[OF 5(3), of it] w6 5 m by simp_all
  have "send_part [k, c] d r = (o3 @ o5, r6, True)"
    using w1 w2 rd w4 rd5 w6 1 2 4 6 m k o by (simp add: send_part_def it_def[symmetric])
  moreover have "(o3 @ o5) @ contents r6 = X @ take k it @ it"
    using 3(1) 4(2) 5(1) 6(2) by (metis append.assoc append_take_drop_id)
  ultimately show ?thesis by (auto simp: c_def it_def X_def)
qed

text \<open>The header of a message fits; then \<^verbatim>\<open>send\<close> writes the message behind it.\<close>

lemma tcp_send_header_fits:
  assumes "ring_ok r" "header_buffer m = Some hdr" "serialize_message m = Some msg" "length hdr \<le> free r"
  shows "\<exists>r1. ring_ok r1 \<and> contents r1 = contents r @ hdr \<and> capacity r1 = capacity r \<and> free r1 = free r - length hdr \<and>
    tcp_send ns1 ns2 m r = Some (send_part ns2 msg r1)"
proof -
  obtain r1 where "send_part ns1 hdr r = ([], r1, True)" "ring_ok r1" "max_size r1 = max_size r" "contents r1 = contents r @ hdr"
    using send_part_fits[OF assms(1,4), of ns1] by blast
  then show ?thesis using assms by (intro exI[of _ r1]) (auto simp: tcp_send_def free_def capacity_def split: prod.split)
qed

section \<open>Properties\<close>

text \<open>C35: The receiver reassembles the stream: however the bytes of a sequence of messages and heartbeats
  are cut into chunks, exactly the messages are handed to the communicator, complete and in order,
  and the receiver ends in its initial state.\<close>

theorem tcp_stream_delivery:
  assumes "list_all item_ok its" "concat chunks = concat (map item_frame its)"
  shows "\<exists>ps. rx_feed rx_init chunks = (rx_init, ps) \<and>
    map (deliver True) ps = map (\<lambda>m. Some (Some m)) (List.map_filter (\<lambda>it. it) its)"
  using items_received[OF assms(1)] rx_feed_concat[OF rx_init_waits, of chunks] assms(2) by simp

definition sample_items :: "item list" where
  "sample_items = [Some sample_message, None, Some sample_message]"

lemma sample_frame: "message_frame sample_message = Some [7, 43, 130, 44, 5, 2, 1, 2]"
  by code_simp

lemma sample_items:
  "list_all item_ok sample_items"
  "concat (map item_frame sample_items) = [7, 43, 130, 44, 5, 2, 1, 2, 0, 7, 43, 130, 44, 5, 2, 1, 2]"
proof -
  have "serialize_message sample_message = Some [130, 44, 5, 2, 1, 2]" "serialize_id (type_id sample_message) = [43]"
    by code_simp+
  then show "list_all item_ok sample_items"
    using sample_sendable by (simp add: sample_items_def item_ok_def wire_size_def)
  show "concat (map item_frame sample_items) = [7, 43, 130, 44, 5, 2, 1, 2, 0, 7, 43, 130, 44, 5, 2, 1, 2]"
    by (simp add: sample_items_def item_frame_def sample_frame heartbeat_def)
qed

lemma tcp_stream_delivery_witness:
  "\<exists>ps. rx_feed rx_init [[7, 43, 130], [44, 5, 2, 1], [2, 0, 7], [43, 130, 44, 5, 2, 1, 2]] = (rx_init, ps) \<and>
     map (deliver True) ps = [Some (Some sample_message), Some (Some sample_message)]"
  using tcp_stream_delivery[OF sample_items(1), of "[[7, 43, 130], [44, 5, 2, 1], [2, 0, 7], [43, 130, 44, 5, 2, 1, 2]]"]
  by (simp add: sample_items(2)) (simp add: sample_items_def List.map_filter_simps)

text \<open>When the frame of a message fits into the free space of the ring, \<^verbatim>\<open>send\<close> returns without waiting for
  the socket and the ring holds the frame behind what it held before.\<close>

theorem tcp_send_appends_frame:
  assumes "ring_ok r" "message_frame m = Some fr" "length fr \<le> free r"
  shows "\<exists>r'. tcp_send ns1 ns2 m r = Some ([], r', True) \<and> ring_ok r' \<and> contents r' = contents r @ fr"
  using assms by (rule tcp_send_fits)

definition small_ring :: "nat \<Rightarrow> byte ring" where
  "small_ring n = \<lparr>write_idx = 0, read_idx = 0, m_data = replicate (Suc n) 0\<rparr>"

lemma small_ring: "n < 100 \<Longrightarrow> ring_ok (small_ring n)" "contents (small_ring n) = []" "capacity (small_ring n) = n"
  by (simp_all add: small_ring_def ring_ok_def contents_def read_available_def capacity_def)

lemma tcp_send_appends_frame_witness:
  "\<exists>r'. tcp_send [] [] sample_message (small_ring 10) = Some ([], r', True) \<and> contents r' = [7, 43, 130, 44, 5, 2, 1, 2]"
  using tcp_send_appends_frame[OF small_ring(1) sample_frame, of 10 "[]" "[]"] by (auto simp: small_ring free_def)

text \<open>C36: When a message does not fit behind its header, \<^verbatim>\<open>send\<close> may corrupt the stream or never return.  The wait
  predicate writes from the same position every time: whatever the schedule of the socket, each evaluation that writes only a part of the
  rest puts that part into the stream once more.  If the socket takes some bytes first and the rest of the ring later, these bytes
  of the message reach the peer twice, for every message whose rest fits into the ring; if the rest is
  larger than the ring, no schedule lets \<^verbatim>\<open>send\<close> return while the connection is alive.\<close>

theorem tcp_send_repeats_bytes:
  assumes "ring_ok r" "header_buffer m = Some hdr" "serialize_message m = Some msg"
    and "length hdr \<le> free r" "free r < length hdr + length msg"
    and sent: "sent = take (free r - length hdr) msg" and rest: "rest = drop (free r - length hdr) msg"
  shows "(\<forall>ns1 ns2 out r' fin. tcp_send ns1 ns2 m r = Some (out, r', fin) \<longrightarrow>
      (\<exists>ks. list_all (\<lambda>k. k < length rest) ks \<and>
        out @ contents r' = contents r @ hdr @ sent @ concat (map (\<lambda>k. take k rest) ks) @ (if fin then rest else [])) \<and>
      (capacity r < length rest \<longrightarrow> \<not> fin)) \<and>
    (\<forall>ns1 k. 0 < k \<longrightarrow> k < length rest \<longrightarrow> length rest \<le> capacity r \<longrightarrow>
      (\<exists>out r'. tcp_send ns1 [k, capacity r] m r = Some (out, r', True) \<and>
        out @ contents r' = contents r @ hdr @ sent @ take k rest @ rest \<and> out @ contents r' \<noteq> contents r @ hdr @ msg))"
proof (intro conjI allI impI)
  fix ns1 ns2 out r' fin
  assume t: "tcp_send ns1 ns2 m r = Some (out, r', fin)"
  obtain r1 where r1: "ring_ok r1" "contents r1 = contents r @ hdr" "capacity r1 = capacity r" "free r1 = free r - length hdr"
      "send_part ns2 msg r1 = (out, r', fin)"
    using tcp_send_header_fits[OF assms(1-4), of ns1 ns2] t by auto
  have o: "free r1 < length msg" using r1(4) assms(4,5) by simp
  show "\<exists>ks. list_all (\<lambda>k. k < length rest) ks \<and>
      out @ contents r' = contents r @ hdr @ sent @ concat (map (\<lambda>k. take k rest) ks) @ (if fin then rest else [])"
    using send_part_overflows(1)[OF r1(1) o r1(5)] unfolding r1(2,4) sent[symmetric] rest[symmetric] append_assoc .
  show "\<not> fin" if "capacity r < length rest" using send_part_overflows(2)[OF r1(1) o r1(5)] r1 rest that by simp
next
  fix ns1 :: "nat list" and k
  assume k: "0 < k" "k < length rest" "length rest \<le> capacity r"
  obtain r1 where r1: "ring_ok r1" "contents r1 = contents r @ hdr" "capacity r1 = capacity r" "free r1 = free r - length hdr"
      "tcp_send ns1 [k, capacity r] m r = Some (send_part [k, capacity r] msg r1)"
    using tcp_send_header_fits[OF assms(1-4), of ns1 "[k, capacity r]"] by auto
  have o: "free r1 < length msg" using r1(4) assms(4,5) by simp
  obtain out r' where s: "send_part [k, capacity r] msg r1 = (out, r', True)"
      "out @ contents r' = contents r @ hdr @ sent @ take k rest @ rest"
    using send_part_repeats[OF r1(1) o, of k] r1 k sent rest by auto
  have "length (out @ contents r') \<noteq> length (contents r @ hdr @ msg)" unfolding s(2) using k sent rest by simp
  then have "out @ contents r' \<noteq> contents r @ hdr @ msg" by metis
  then show "\<exists>out r'. tcp_send ns1 [k, capacity r] m r = Some (out, r', True) \<and>
      out @ contents r' = contents r @ hdr @ sent @ take k rest @ rest \<and> out @ contents r' \<noteq> contents r @ hdr @ msg"
    using s r1(5) by auto
qed

text \<open>A message of 70000 bytes on a new connection, whose ring has 65535 bytes.\<close>

lemma serialize_size_length: "0 < length (serialize_size v) \<and> length (serialize_size v) \<le> 5"
proof -
  have "length (size_bytes n v) = n" for n by (induction n) simp_all
  then show ?thesis using size_length_bounds(1,2)[of v] by (simp add: serialize_size_def)
qed

lemma large_message:
  "\<exists>hdr msg. header_buffer (PublishSubscribe, Data (Id 1) (replicate n 0)) = Some hdr \<and>
     serialize_message (PublishSubscribe, Data (Id 1) (replicate n 0)) = Some msg \<and>
     length hdr \<le> 10 \<and> n + 1 \<le> length msg \<and> length msg \<le> n + 10"
proof -
  have "\<exists>msg. serialize_message (PublishSubscribe, Data (Id 1) (replicate n 0)) = Some msg \<and> n + 1 \<le> length msg \<and> length msg \<le> n + 10"
    using serialize_size_length[of "word_of_nat 1"] serialize_size_length[of "word_of_nat n"]
    by (auto simp: serialize_message_def serialize_id_def serialize_buffer_def Suc_le_eq)
  then obtain msg where m: "serialize_message (PublishSubscribe, Data (Id 1) (replicate n 0)) = Some msg" "n + 1 \<le> length msg"
      "length msg \<le> n + 10" by blast
  show ?thesis using m serialize_size_length[of "word_of_nat (number (type_id (PublishSubscribe, Data (Id 1) (replicate n 0))))"]
      serialize_size_length[of "word_of_nat (length msg + length (serialize_id (type_id (PublishSubscribe, Data (Id 1) (replicate n 0)))))"]
    by (auto simp: header_buffer_def serialize_id_def Let_def)
qed

lemma new_ring: "ring_ok (ring_init 0)" "contents (ring_init 0) = []" "capacity (ring_init 0) = 65535" "free (ring_init 0) = 65535"
proof -
  show "ring_ok (ring_init 0)" "contents (ring_init 0) = []" by (rule ring_init_ok contents_init)+
  show c: "capacity (ring_init 0) = 65535" by (simp add: capacity_def ring_init_def YOGI_RING_BUFFER_SIZE_def)
  show "free (ring_init 0) = 65535" unfolding free_def c contents_init by simp
qed

lemma tcp_send_repeats_bytes_witness:
  "\<exists>hdr msg out r'. header_buffer (PublishSubscribe, Data (Id 1) (replicate 70000 0)) = Some hdr \<and>
     serialize_message (PublishSubscribe, Data (Id 1) (replicate 70000 0)) = Some msg \<and>
     tcp_send [] [1, 65535] (PublishSubscribe, Data (Id 1) (replicate 70000 0)) (ring_init 0) = Some (out, r', True) \<and>
     out @ contents r' \<noteq> hdr @ msg"
proof -
  obtain hdr msg where m: "header_buffer (PublishSubscribe, Data (Id 1) (replicate 70000 0)) = Some hdr"
      "serialize_message (PublishSubscribe, Data (Id 1) (replicate 70000 0)) = Some msg"
      "length hdr \<le> 10" "70000 + 1 \<le> length msg" "length msg \<le> 70000 + 10"
    using large_message[of 70000] by blast
  define rest where "rest = drop (free (ring_init 0) - length hdr) msg"
  have l: "1 < length rest" "length rest \<le> 65535" using m by (simp_all add: rest_def new_ring)
  have f: "length hdr \<le> free (ring_init 0)" "free (ring_init 0) < length hdr + length msg" using m by (simp_all add: new_ring)
  note c = conjunct2[OF tcp_send_repeats_bytes[OF new_ring(1) m(1,2) f refl rest_def], rule_format, of 1 "[]"]
  obtain out r' where "tcp_send [] [1, 65535] (PublishSubscribe, Data (Id 1) (replicate 70000 0)) (ring_init 0) = Some (out, r', True)"
      "out @ contents r' \<noteq> hdr @ msg"
    using c l by (auto simp: new_ring)
  then show ?thesis using m(1,2) by blast
qed

end
