(* ===== verification/Api.thy ===== *)
theory Api
  imports Prelude
begin

text \<open>
  \<^verbatim>\<open>api/\<close>: the error codes, the evaluation of an API call to an error code, and the register of
  the objects that live behind the handles of the shared library.
\<close>

section \<open>Error codes\<close>

datatype api_error = ERR_UNKNOWN | ERR_INVALID_HANDLE | ERR_WRONG_OBJECT_TYPE | ERR_OBJECT_STILL_USED
  | ERR_BAD_ALLOCATION | ERR_INVALID_PARAM | ERR_ALREADY_CONNECTED | ERR_AMBIGUOUS_IDENTIFIER
  | ERR_ALREADY_INITIALISED | ERR_NOT_INITIALISED | ERR_CANNOT_CREATE_LOG_FILE | ERR_CANCELED
  | ERR_ASYNC_OPERATION_RUNNING | ERR_BUFFER_TOO_SMALL | ERR_NOT_BOUND | ERR_INVALID_ID
  | ERR_IDENTIFICATION_TOO_LARGE | ERR_INVALID_IP_ADDRESS | ERR_INVALID_PORT_NUMBER
  | ERR_CANNOT_OPEN_SOCKET | ERR_CANNOT_BIND_SOCKET | ERR_CANNOT_LISTEN_ON_SOCKET | ERR_SOCKET_BROKEN
  | ERR_INVALID_MAGIC_PREFIX | ERR_INCOMPATIBLE_VERSION | ERR_ACCEPT_FAILED | ERR_TIMEOUT
  | ERR_ADDRESS_IN_USE | ERR_RESOLVE_FAILED | ERR_CONNECTION_REFUSED | ERR_HOST_UNREACHABLE
  | ERR_NETWORK_DOWN | ERR_CONNECT_FAILED | ERR_NOT_READY | ERR_ALREADY_ASSIGNED | ERR_CONNECTION_DEAD
  | ERR_CONNECTION_CLOSED | ERR_UNINITIALIZED

fun error_code :: "api_error \<Rightarrow> int" where
  "error_code ERR_UNKNOWN = -1"
| "error_code ERR_INVALID_HANDLE = -2"
| "error_code ERR_WRONG_OBJECT_TYPE = -3"
| "error_code ERR_OBJECT_STILL_USED = -4"
| "error_code ERR_BAD_ALLOCATION = -5"
| "error_code ERR_INVALID_PARAM = -6"
| "error_code ERR_ALREADY_CONNECTED = -7"
| "error_code ERR_AMBIGUOUS_IDENTIFIER = -8"
| "error_code ERR_ALREADY_INITIALISED = -9"
| "error_code ERR_NOT_INITIALISED = -10"
| "error_code ERR_CANNOT_CREATE_LOG_FILE = -11"
| "error_code ERR_CANCELED = -12"
| "error_code ERR_ASYNC_OPERATION_RUNNING = -13"
| "error_code ERR_BUFFER_TOO_SMALL = -14"
| "error_code ERR_NOT_BOUND = -15"
| "error_code ERR_INVALID_ID = -16"
| "error_code ERR_IDENTIFICATION_TOO_LARGE = -17"
| "error_code ERR_INVALID_IP_ADDRESS = -18"
| "error_code ERR_INVALID_PORT_NUMBER = -19"
| "error_code ERR_CANNOT_OPEN_SOCKET = -20"
| "error_code ERR_CANNOT_BIND_SOCKET = -21"
| "error_code ERR_CANNOT_LISTEN_ON_SOCKET = -22"
| "error_code ERR_SOCKET_BROKEN = -23"
| "error_code ERR_INVALID_MAGIC_PREFIX = -24"
| "error_code ERR_INCOMPATIBLE_VERSION = -25"
| "error_code ERR_ACCEPT_FAILED = -26"
| "error_code ERR_TIMEOUT = -27"
| "error_code ERR_ADDRESS_IN_USE = -28"
| "error_code ERR_RESOLVE_FAILED = -29"
| "error_code ERR_CONNECTION_REFUSED = -30"
| "error_code ERR_HOST_UNREACHABLE = -31"
| "error_code ERR_NETWORK_DOWN = -32"
| "error_code ERR_CONNECT_FAILED = -33"
| "error_code ERR_NOT_READY = -34"
| "error_code ERR_ALREADY_ASSIGNED = -35"
| "error_code ERR_CONNECTION_DEAD = -36"
| "error_code ERR_CONNECTION_CLOSED = -37"
| "error_code ERR_UNINITIALIZED = -38"

text \<open>
  What the body of an API function can do: return nothing, return an \<^verbatim>\<open>int\<close>, or throw one of the
  library's exceptions, \<^verbatim>\<open>std::bad_alloc\<close>, or anything else.
\<close>

datatype call_result = Returned_void | Returned_int int | Threw api_error | Threw_bad_alloc | Threw_other

fun evaluate :: "call_result \<Rightarrow> int" where
  "evaluate Returned_void = 0"
| "evaluate (Returned_int n) = n"
| "evaluate (Threw e) = error_code e"
| "evaluate Threw_bad_alloc = error_code ERR_BAD_ALLOCATION"
| "evaluate Threw_other = error_code ERR_UNKNOWN"

lemma error_code_inj: "error_code e = error_code e' \<Longrightarrow> e = e'"
  by (cases e; cases e') simp_all

lemma error_code_neg: "error_code e < 0"
  by (cases e) simp_all

section \<open>The register of public objects\<close>

text \<open>
  A handle is the address of its object.  An object keeps other objects alive: \<open>po_refs\<close> are the
  handles of the objects it holds a \<^verbatim>\<open>shared_ptr\<close> to, \<open>po_external\<close> counts the pointers held by
  anything that is not in the register.  \<open>'k\<close> is what a handle's \<^verbatim>\<open>dynamic_cast\<close> looks at.
\<close>

type_synonym handle = nat

record 'k pobject =
  po_kind :: 'k
  po_refs :: "handle list"
  po_external :: nat

type_synonym 'k objects = "(handle \<times> 'k pobject) list"

definition get_s :: "('k \<Rightarrow> bool) \<Rightarrow> 'k objects \<Rightarrow> handle \<Rightarrow> api_error + handle" where
  "get_s castable objs h = (case map_of objs h of
      None \<Rightarrow> Inl ERR_INVALID_HANDLE
    | Some ob \<Rightarrow> if castable (po_kind ob) then Inr h else Inl ERR_WRONG_OBJECT_TYPE)"

definition create_object :: "handle \<Rightarrow> 'k pobject \<Rightarrow> 'k objects \<Rightarrow> handle \<times> 'k objects" where
  "create_object h ob objs = (h, AList.update h ob objs)"

definition add_object :: "handle \<Rightarrow> 'k pobject \<Rightarrow> 'k objects \<Rightarrow> (handle \<times> 'k objects) option" where
  "add_object h ob objs = do { yassert (map_of objs h = None); Some (h, AList.update h ob objs) }"

text \<open>\<^verbatim>\<open>shared_ptr::unique()\<close>: the register's own pointer is the only one.\<close>

definition unique :: "'k objects \<Rightarrow> handle \<Rightarrow> 'k pobject \<Rightarrow> bool" where
  "unique objs h ob \<longleftrightarrow> po_external ob = 0 \<and> (\<forall>(k, ob') \<in> set objs. h \<notin> set (po_refs ob'))"

definition destroy_object :: "handle \<Rightarrow> 'k objects \<Rightarrow> api_error + 'k objects" where
  "destroy_object h objs = (case map_of objs h of
      None \<Rightarrow> Inl ERR_INVALID_HANDLE
    | Some ob \<Rightarrow> if unique objs h ob then Inr (AList.delete h objs) else Inl ERR_OBJECT_STILL_USED)"

text \<open>
  \<^verbatim>\<open>clear\<close>: passes over the objects, each erasing those that nothing points to any more, until a
  pass erases nothing.  \<open>sweep done rest\<close> has \<open>rest\<close> still ahead of the iterator.
\<close>

fun sweep :: "'k objects \<Rightarrow> 'k objects \<Rightarrow> 'k objects" where
  "sweep kept [] = kept"
| "sweep kept ((h, ob) # rest) =
     (if unique (kept @ (h, ob) # rest) h ob then sweep kept rest else sweep (kept @ [(h, ob)]) rest)"

lemma sweep_length: "length (sweep kept rest) \<le> length kept + length rest"
proof (induction kept rest rule: sweep.induct)
  case (1 kept)
  then show ?case by simp
next
  case (2 kept h ob rest)
  then show ?case by (cases "unique (kept @ (h, ob) # rest) h ob") auto
qed

function clear_loop :: "nat option \<Rightarrow> 'k objects \<Rightarrow> 'k objects" where
  "clear_loop oldSize objs =
     (if (case oldSize of None \<Rightarrow> True | Some n \<Rightarrow> length objs < n)
      then clear_loop (Some (length objs)) (sweep [] objs) else objs)"
  by pat_completeness auto
termination
proof (relation "measure (\<lambda>(old, objs). case old of None \<Rightarrow> length objs + 2 | Some n \<Rightarrow> n + 1)", goal_cases)
  case 1
  then show ?case by simp
next
  case (2 old objs)
  then show ?case by (cases old) auto
qed

declare clear_loop.simps [simp del]

text \<open>The old size starts as the largest \<^verbatim>\<open>size_t\<close>; the final assertion wants an empty map.\<close>

definition clear_objects :: "'k objects \<Rightarrow> 'k objects option" where
  "clear_objects objs = (let rest = clear_loop None objs in do { yassert (rest = []); Some [] })"

subsection \<open>Clearing succeeds when nothing is left over\<close>

text \<open>
  The precondition: no pointer from outside and a ranking that decreases along every pointer, which
  excludes cycles.  A cycle of \<^verbatim>\<open>shared_ptr\<close>s would never be unique.
\<close>

definition self_contained :: "'k objects \<Rightarrow> (handle \<Rightarrow> nat) \<Rightarrow> bool" where
  "self_contained objs rank \<longleftrightarrow> distinct_keys objs \<and> (\<forall>(h, ob) \<in> set objs. po_external ob = 0
     \<and> (\<forall>k \<in> set (po_refs ob). rank k < rank h))"

lemma sweep_subset: "set (sweep kept rest) \<subseteq> set kept \<union> set rest"
proof (induction kept rest rule: sweep.induct)
  case (1 kept)
  then show ?case by simp
next
  case (2 kept h ob rest)
  then show ?case by (cases "unique (kept @ (h, ob) # rest) h ob") auto
qed

lemma sweep_distinct: "distinct_keys (kept @ rest) \<Longrightarrow> distinct_keys (sweep kept rest)"
proof (induction kept rest rule: sweep.induct)
  case (1 kept)
  then show ?case by simp
next
  case (2 kept h ob rest)
  then show ?case by (cases "unique (kept @ (h, ob) # rest) h ob") auto
qed

lemma unique_mono: "unique objs h ob \<Longrightarrow> set objs' \<subseteq> set objs \<Longrightarrow> unique objs' h ob"
  by (auto simp: unique_def)

text \<open>An object that is unique when a pass starts does not survive the pass.\<close>

lemma sweep_removes:
  "(h, ob) \<in> set rest \<Longrightarrow> unique (kept @ rest) h ob \<Longrightarrow> distinct_keys (kept @ rest) \<Longrightarrow>
    (h, ob) \<notin> set (sweep kept rest)"
proof (induction kept rest rule: sweep.induct)
  case (1 kept)
  then show ?case by simp
next
  case (2 kept k po rest)
  show ?case
  proof (cases "unique (kept @ (k, po) # rest) k po")
    case True
    show ?thesis
    proof (cases "(h, ob) = (k, po)")
      case True': True
      have "h \<notin> fst ` (set kept \<union> set rest)" using "2.prems"(3) True' by auto
      then have "(h, ob) \<notin> set (sweep kept rest)" using sweep_subset[of kept rest] by force
      then show ?thesis using True by simp
    next
      case False
      have "unique (kept @ rest) h ob" using "2.prems"(2) by (rule unique_mono) auto
      then show ?thesis using "2.IH"(1)[OF True] "2.prems" False True by auto
    qed
  next
    case False
    then have ne: "(h, ob) \<noteq> (k, po)" using "2.prems"(2) by auto
    then show ?thesis using "2.IH"(2)[OF False] "2.prems" False by auto
  qed
qed

lemma self_contained_sweep: "self_contained objs rank \<Longrightarrow> self_contained (sweep [] objs) rank"
  using sweep_subset[of "[]" objs] sweep_distinct[of "[]" objs] by (fastforce simp: self_contained_def)

lemma sweep_shrinks:
  assumes sc: "self_contained objs rank" and ne: "objs \<noteq> []"
  shows "length (sweep [] objs) < length objs"
proof -
  define m where "m = Max (rank ` fst ` set objs)"
  have fin: "finite (rank ` fst ` set objs)" by simp
  obtain h ob where h: "(h, ob) \<in> set objs" "rank h = m"
    using Max_in[OF fin] ne unfolding m_def by fastforce
  have top: "rank k \<le> m" if "(k, po) \<in> set objs" for k po
    unfolding m_def by (rule Max_ge[OF fin]) (use that in force)
  have u: "unique objs h ob"
    unfolding unique_def
  proof (intro conjI ballI)
    show "po_external ob = 0" using sc h(1) by (auto simp: self_contained_def)
    fix x
    assume x: "x \<in> set objs"
    obtain k po where kp: "x = (k, po)" by force
    have "rank i < rank k" if "i \<in> set (po_refs po)" for i
      using sc x kp that by (auto simp: self_contained_def)
    then have "h \<notin> set (po_refs po)" using top[of k po] x kp h(2) by (metis leD)
    then show "case x of (k, ob') \<Rightarrow> h \<notin> set (po_refs ob')" using kp by simp
  qed
  have d: "distinct_keys objs" using sc by (simp add: self_contained_def)
  have "(h, ob) \<notin> set (sweep [] objs)" using sweep_removes[OF h(1)] u d by simp
  then have "set (sweep [] objs) \<subset> set objs" using sweep_subset[of "[]" objs] h(1) by auto
  then have "card (set (sweep [] objs)) < card (set objs)" by (simp add: psubset_card_mono)
  moreover have "distinct objs" "distinct (sweep [] objs)"
    using d sweep_distinct[of "[]" objs] by (simp_all add: distinct_map)
  ultimately show ?thesis by (simp add: distinct_card)
qed

lemma clear_loop_empty:
  "self_contained objs rank \<Longrightarrow> (case old of None \<Rightarrow> True | Some n \<Rightarrow> length objs < n \<or> objs = []) \<Longrightarrow>
    clear_loop old objs = []"
proof (induction old objs rule: clear_loop.induct)
  case (1 old objs)
  show ?case
  proof (cases "case old of None \<Rightarrow> True | Some n \<Rightarrow> length objs < n")
    case True
    have "length (sweep [] objs) < length objs \<or> sweep [] objs = []"
      using sweep_shrinks[OF "1.prems"(1)] by (cases "objs = []") auto
    then have "clear_loop (Some (length objs)) (sweep [] objs) = []"
      using "1.IH"[OF True self_contained_sweep[OF "1.prems"(1)]] by simp
    then show ?thesis using True by (simp add: clear_loop.simps[of old objs])
  next
    case False
    then have "objs = []" using "1.prems"(2) by (cases old) auto
    then show ?thesis using False by (subst clear_loop.simps) simp
  qed
qed

section \<open>Properties\<close>

text \<open>C31: \<^verbatim>\<open>clear()\<close> destroys every public object and its final assertion holds, when nothing outside the
  register owns an object and the ownership between objects has no cycle; the loop terminates for
  every register.\<close>

theorem clear_empties_register:
  assumes "self_contained objs rank"
  shows "clear_objects objs = Some []"
  using clear_loop_empty[OF assms, of None] by (simp add: clear_objects_def)

definition leaf_with_terminal :: "string objects" where
  "leaf_with_terminal = [(10, \<lparr>po_kind = ''Scheduler'', po_refs = [], po_external = 0\<rparr>),
     (20, \<lparr>po_kind = ''Leaf'', po_refs = [10], po_external = 0\<rparr>),
     (30, \<lparr>po_kind = ''Terminal'', po_refs = [20], po_external = 0\<rparr>)]"

lemma clear_empties_register_witness: "clear_objects leaf_with_terminal = Some []"
  by (rule clear_empties_register[where rank = "\<lambda>h. h"]) (simp add: self_contained_def leaf_with_terminal_def)

end
