(* ===== verification/Tcp_Handshake.thy ===== *)
theory Tcp_Handshake
  imports Serialization Api
begin

text \<open>
  \<^verbatim>\<open>connections/tcp/TcpConnectionFactory\<close>: the handshake on a new socket.  Both ends send a header and
  check the one they receive, while a timer runs.  The first of the two activities to end stores its
  result and cancels the other one, which then reports it.

  The socket and the timer are boost::asio's: an operation that was started completes exactly once,
  with an error code, and a read that succeeds fills its buffer.
\<close>

unbundle bit_operations_syntax

section \<open>The header\<close>

definition yogi_version :: string where
  "yogi_version = ''0.0.2-alpha''"

definition version_info_size :: nat where
  "version_info_size = 20"

definition max_identification_size :: nat where
  "max_identification_size = 16 * 1024"

definition make_magic_prefix :: buffer where
  "make_magic_prefix = map byte_of_char ''YOGI ''"

text \<open>The version is an argument, so that the two ends can have different ones.\<close>

definition make_version_info :: "string \<Rightarrow> buffer option" where
  "make_version_info s = do { yassert (length s < version_info_size);
     Some (map byte_of_char s @ replicate (version_info_size - length s) 0) }"

text \<open>The bytes of a number in network order.\<close>

definition htonl_bytes :: "32 word \<Rightarrow> buffer" where
  "htonl_bytes w = [ucast (drop_bit 24 w), ucast (drop_bit 16 w), ucast (drop_bit 8 w), ucast w]"

fun ntohl_bytes :: "buffer \<Rightarrow> 32 word" where
  "ntohl_bytes [a, b, c, d] = push_bit 24 (ucast a) OR push_bit 16 (ucast b) OR push_bit 8 (ucast c) OR ucast d"
| "ntohl_bytes _ = 0"

definition make_identification :: "buffer \<Rightarrow> api_error + buffer" where
  "make_identification buf = (if length buf > max_identification_size then Inl ERR_IDENTIFICATION_TOO_LARGE
     else Inr (htonl_bytes (word_of_nat (length buf)) @ buf))"

text \<open>\<^verbatim>\<open>s.substr(0, s.find_last_of('.'))\<close>\<close>

definition major_minor :: "string \<Rightarrow> string" where
  "major_minor s = (if CHR ''.'' \<in> set s then rev (tl (dropWhile (\<lambda>c. c \<noteq> CHR ''.'') (rev s))) else s)"

definition versions_are_compatible :: "string \<Rightarrow> string \<Rightarrow> bool" where
  "versions_are_compatible own remote \<longleftrightarrow> major_minor remote = major_minor own"

section \<open>State\<close>

datatype errc = No_Error | Operation_Aborted | Connection_Refused | Host_Unreachable | Network_Down
  | Address_In_Use | Other_Error

datatype result = OK | Err api_error

text \<open>The operation of the socket that is under way.\<close>

datatype stage = Send_Header | Receive_Magic_Prefix | Receive_Version_Info | Receive_Identification_Size
  | Receive_Identification_Data

datatype socket = Open | Closed | Moved

text \<open>A connection consists of the version and the identification of the other end.\<close>

type_synonym tcp_connection = "string \<times> buffer"

text \<open>
  The last components stand for boost::asio: the operation under way, whether the timer runs and
  whether it was cancelled, and everything that was read so far.
\<close>

record factory =
  m_firstResult :: "result option"
  m_remoteVersion :: string
  m_buffer :: buffer
  m_canceled :: bool
  m_socket :: socket
  f_stage :: "stage option"
  f_timer :: bool
  f_timerCanceled :: bool
  f_received :: buffer

definition factory_new :: factory where
  "factory_new = \<lparr>m_firstResult = None, m_remoteVersion = [], m_buffer = [], m_canceled = False, m_socket = Closed,
     f_stage = None, f_timer = False, f_timerCanceled = False, f_received = []\<rparr>"

text \<open>The calls of \<^verbatim>\<open>on_shake_hands_completed\<close>.\<close>

type_synonym completion = "result \<times> tcp_connection option"
type_synonym factory_result = "(factory \<times> completion list) option"

definition cancel_timer :: "factory \<Rightarrow> factory" where
  "cancel_timer f = (if f_timer f then f\<lparr>f_timerCanceled := True\<rparr> else f)"

definition cancel_socket :: "factory \<Rightarrow> factory" where
  "cancel_socket f = f\<lparr>m_canceled := True\<rparr>"

definition make_connection :: "factory \<Rightarrow> factory \<times> tcp_connection" where
  "make_connection f = (f\<lparr>m_socket := Moved\<rparr>, (m_remoteVersion f, m_buffer f))"

definition close_socket :: "factory \<Rightarrow> factory" where
  "close_socket f = f\<lparr>m_socket := Closed\<rparr>"

section \<open>Operations\<close>

definition completion_handler :: "errc \<Rightarrow> (factory \<Rightarrow> factory_result) \<Rightarrow> factory \<Rightarrow> factory_result" where
  "completion_handler ec fn f = (
     if \<not> m_canceled f \<and> ec = No_Error then fn f
     else if m_canceled f \<or> ec = Operation_Aborted then
       (case m_firstResult f of
          Some r \<Rightarrow>
            if r = Err ERR_TIMEOUT then Some (close_socket f, [(Err ERR_TIMEOUT, None)])
            else if r = Err ERR_CANCELED then (let (f1, conn) = make_connection f in Some (f1, [(OK, Some conn)]))
            else Some (close_socket f, [(r, None)])
        | None \<Rightarrow> Some (cancel_timer (f\<lparr>m_firstResult := Some (Err ERR_CANCELED)\<rparr>), []))
     else
       (case m_firstResult f of
          Some r \<Rightarrow> Some (f, [(Err ERR_SOCKET_BROKEN, None)])
        | None \<Rightarrow> Some (cancel_timer (f\<lparr>m_firstResult := Some (Err ERR_SOCKET_BROKEN)\<rparr>), [])))"

definition handle_protocol_error :: "api_error \<Rightarrow> factory \<Rightarrow> factory_result" where
  "handle_protocol_error e f = (case m_firstResult f of
      Some r \<Rightarrow> Some (close_socket f, [(Err ERR_TIMEOUT, None)])
    | None \<Rightarrow> Some (cancel_timer (f\<lparr>m_firstResult := Some (Err e)\<rparr>), []))"

definition start_async_send_header :: "factory \<Rightarrow> factory" where
  "start_async_send_header f = f\<lparr>f_stage := Some Send_Header\<rparr>"

text \<open>A read of as many bytes as the buffer has after \<^verbatim>\<open>resize\<close>.\<close>

definition start_async_read :: "stage \<Rightarrow> nat \<Rightarrow> factory \<Rightarrow> factory" where
  "start_async_read st n f = f\<lparr>f_stage := Some st, m_buffer := take n (m_buffer f) @ replicate (n - length (m_buffer f)) 0\<rparr>"

definition on_send_header_succeeded :: "factory \<Rightarrow> factory_result" where
  "on_send_header_succeeded f = Some (start_async_read Receive_Magic_Prefix (length make_magic_prefix) f, [])"

definition on_receive_magic_prefix_succeeded :: "factory \<Rightarrow> factory_result" where
  "on_receive_magic_prefix_succeeded f =
     (if m_buffer f = make_magic_prefix then Some (start_async_read Receive_Version_Info version_info_size f, [])
      else handle_protocol_error ERR_INVALID_MAGIC_PREFIX f)"

text \<open>The last byte is set to 0, so that there is an end of the string.\<close>

definition c_string :: "buffer \<Rightarrow> string" where
  "c_string b = map char_of_byte (takeWhile (\<lambda>x. x \<noteq> 0) (butlast b))"

definition on_receive_version_info_succeeded :: "string \<Rightarrow> factory \<Rightarrow> factory_result" where
  "on_receive_version_info_succeeded own f = (
     let f1 = f\<lparr>m_buffer := butlast (m_buffer f) @ [0], m_remoteVersion := c_string (m_buffer f)\<rparr> in
     if versions_are_compatible own (m_remoteVersion f1)
     then Some (start_async_read Receive_Identification_Size 4 f1, [])
     else handle_protocol_error ERR_INCOMPATIBLE_VERSION f1)"

definition on_receive_identification_size_succeeded :: "factory \<Rightarrow> factory_result" where
  "on_receive_identification_size_succeeded f = do {
     yassert (length (m_buffer f) = 4);
     let size = unat (ntohl_bytes (m_buffer f));
     if size \<le> max_identification_size
     then Some (start_async_read Receive_Identification_Data size f, [])
     else handle_protocol_error ERR_IDENTIFICATION_TOO_LARGE f }"

definition on_receive_identification_data_succeeded :: "factory \<Rightarrow> factory_result" where
  "on_receive_identification_data_succeeded f = (case m_firstResult f of
      Some r \<Rightarrow> Some (close_socket f, [(r, None)])
    | None \<Rightarrow> Some (cancel_timer (f\<lparr>m_firstResult := Some OK\<rparr>), []))"

definition on_timeout :: "errc \<Rightarrow> factory \<Rightarrow> factory_result" where
  "on_timeout ec f = (case m_firstResult f of
      Some r \<Rightarrow>
        if r = OK then (let (f1, conn) = make_connection f in Some (f1, [(r, Some conn)]))
        else Some (close_socket f, [(r, None)])
    | None \<Rightarrow>
        Some (cancel_socket (f\<lparr>m_firstResult := Some (if ec = No_Error then Err ERR_TIMEOUT else Err ERR_CANCELED)\<rparr>), []))"

text \<open>
  \<open>option_ec\<close> is the result of setting the option of the socket and \<open>timer_ec\<close> that of starting the
  timer, which is not reported for an infiniteTimeout timeout: then the variable still holds the former.
\<close>

definition start_async_shake_hands :: "errc \<Rightarrow> bool \<Rightarrow> errc \<Rightarrow> factory \<Rightarrow> factory" where
  "start_async_shake_hands option_ec infiniteTimeout timer_ec f = (
     let f1 = start_async_send_header (f\<lparr>m_firstResult := None, m_socket := Open, m_canceled := False, f_received := []\<rparr>);
         ec = (if infiniteTimeout then option_ec else timer_ec);
         f2 = (if ec \<noteq> No_Error then cancel_socket f1 else f1)
     in f2\<lparr>f_timer := True, f_timerCanceled := False\<rparr>)"

definition cancel_shake_hands :: "factory \<Rightarrow> factory" where
  "cancel_shake_hands f = cancel_socket f"

section \<open>Events\<close>

fun stage_succeeded :: "string \<Rightarrow> stage \<Rightarrow> factory \<Rightarrow> factory_result" where
  "stage_succeeded own Send_Header = on_send_header_succeeded"
| "stage_succeeded own Receive_Magic_Prefix = on_receive_magic_prefix_succeeded"
| "stage_succeeded own Receive_Version_Info = on_receive_version_info_succeeded own"
| "stage_succeeded own Receive_Identification_Size = on_receive_identification_size_succeeded"
| "stage_succeeded own Receive_Identification_Data = on_receive_identification_data_succeeded"

datatype factory_event = Socket_Completes errc buffer | Timer_Completes errc | Cancel_Shake_Hands

text \<open>A read that fails may have filled a part of the buffer.  The timer fails only when it is cancelled.\<close>

fun factory_event_ok :: "factory_event \<Rightarrow> factory \<Rightarrow> bool" where
  "factory_event_ok (Socket_Completes ec data) f = (case f_stage f of
      None \<Rightarrow> False
    | Some Send_Header \<Rightarrow> data = []
    | Some st \<Rightarrow> if ec = No_Error then length data = length (m_buffer f) else length data \<le> length (m_buffer f))"
| "factory_event_ok (Timer_Completes ec) f = (f_timer f \<and> (ec \<noteq> No_Error \<longrightarrow> f_timerCanceled f))"
| "factory_event_ok Cancel_Shake_Hands f = True"

fun factory_do :: "string \<Rightarrow> factory_event \<Rightarrow> factory \<Rightarrow> factory_result" where
  "factory_do own (Socket_Completes ec data) f = (case f_stage f of
      None \<Rightarrow> None
    | Some st \<Rightarrow> completion_handler ec (stage_succeeded own st)
        (f\<lparr>f_stage := None, m_buffer := data @ drop (length data) (m_buffer f), f_received := f_received f @ data\<rparr>))"
| "factory_do own (Timer_Completes ec) f = on_timeout ec (f\<lparr>f_timer := False\<rparr>)"
| "factory_do own Cancel_Shake_Hands f = Some (cancel_shake_hands f, [])"

fun factory_run :: "string \<Rightarrow> factory_event list \<Rightarrow> factory \<Rightarrow> factory_result" where
  "factory_run own [] f = Some (f, [])"
| "factory_run own (e # es) f = do { (f1, out1) \<leftarrow> factory_do own e f; (f2, out2) \<leftarrow> factory_run own es f1; Some (f2, out1 @ out2) }"

fun factory_legal :: "string \<Rightarrow> factory_event list \<Rightarrow> factory \<Rightarrow> bool" where
  "factory_legal own [] f = True"
| "factory_legal own (e # es) f = (factory_event_ok e f \<and> (case factory_do own e f of None \<Rightarrow> True | Some (f1, out) \<Rightarrow> factory_legal own es f1))"

section \<open>Invariant\<close>

text \<open>What a complete and acceptable header consists of.\<close>

definition version_received :: "string \<Rightarrow> buffer \<Rightarrow> string \<Rightarrow> bool" where
  "version_received own bs v \<longleftrightarrow> (\<exists>ver. bs = make_magic_prefix @ ver \<and> length ver = version_info_size \<and>
     v = c_string ver \<and> versions_are_compatible own v)"

definition size_received :: "string \<Rightarrow> buffer \<Rightarrow> string \<Rightarrow> nat \<Rightarrow> bool" where
  "size_received own bs v n \<longleftrightarrow> (\<exists>bs' sz. bs = bs' @ sz \<and> version_received own bs' v \<and> length sz = 4 \<and>
     n = unat (ntohl_bytes sz) \<and> n \<le> max_identification_size)"

definition header_received :: "string \<Rightarrow> buffer \<Rightarrow> tcp_connection \<Rightarrow> bool" where
  "header_received own bs conn \<longleftrightarrow> (case conn of (v, ident) \<Rightarrow> \<exists>bs'. bs = bs' @ ident \<and> size_received own bs' v (length ident))"

fun stage_ok :: "string \<Rightarrow> stage \<Rightarrow> factory \<Rightarrow> bool" where
  "stage_ok own Send_Header f = (f_received f = [])"
| "stage_ok own Receive_Magic_Prefix f = (f_received f = [] \<and> length (m_buffer f) = length make_magic_prefix)"
| "stage_ok own Receive_Version_Info f = (f_received f = make_magic_prefix \<and> length (m_buffer f) = version_info_size)"
| "stage_ok own Receive_Identification_Size f = (version_received own (f_received f) (m_remoteVersion f) \<and> length (m_buffer f) = 4)"
| "stage_ok own Receive_Identification_Data f = size_received own (f_received f) (m_remoteVersion f) (length (m_buffer f))"

text \<open>
  While nothing has ended, both activities are under way; afterwards exactly the other one, which has been
  cancelled.
\<close>

definition shaking :: "string \<Rightarrow> factory \<Rightarrow> bool" where
  "shaking own f \<longleftrightarrow> m_socket f = Open \<and> (case f_stage f of
      Some st \<Rightarrow> stage_ok own st f \<and>
        (if f_timer f then m_firstResult f = None \<and> \<not> f_timerCanceled f
         else m_firstResult f = Some (Err ERR_TIMEOUT) \<and> m_canceled f)
    | None \<Rightarrow> f_timer f \<and> f_timerCanceled f \<and> (\<exists>r. m_firstResult f = Some r \<and> r \<noteq> Err ERR_TIMEOUT \<and>
        (r = OK \<longrightarrow> header_received own (f_received f) (m_remoteVersion f, m_buffer f))))"

definition ended :: "factory \<Rightarrow> bool" where
  "ended f \<longleftrightarrow> f_stage f = None \<and> \<not> f_timer f"

definition completion_ok :: "string \<Rightarrow> factory \<Rightarrow> completion \<Rightarrow> bool" where
  "completion_ok own f c \<longleftrightarrow> (case c of (r, conn) \<Rightarrow> (r = OK \<longleftrightarrow> conn \<noteq> None) \<and>
     (\<forall>x. conn = Some x \<longrightarrow> header_received own (f_received f) x) \<and> m_socket f = (if r = OK then Moved else Closed))"

lemma shaking_start: "shaking own (start_async_shake_hands oec i tec f)"
  by (auto simp: shaking_def start_async_shake_hands_def start_async_send_header_def cancel_socket_def Let_def)

lemma magic_prefix_length: "length make_magic_prefix = 5"
  by (simp add: make_magic_prefix_def)

text \<open>A stage that succeeds goes on to the next one or ends with a result.\<close>

definition goes_on :: "string \<Rightarrow> factory \<Rightarrow> factory \<Rightarrow> bool" where
  "goes_on own f f' \<longleftrightarrow> m_socket f' = m_socket f \<and> m_canceled f' = m_canceled f \<and> f_timer f' = f_timer f \<and>
     (case f_stage f' of
        Some st \<Rightarrow> stage_ok own st f' \<and> m_firstResult f' = m_firstResult f \<and> f_timerCanceled f' = f_timerCanceled f
      | None \<Rightarrow> f_timerCanceled f' \<and> (\<exists>r. m_firstResult f' = Some r \<and> r \<noteq> Err ERR_TIMEOUT \<and>
          (r = OK \<longrightarrow> header_received own (f_received f') (m_remoteVersion f', m_buffer f'))))"

lemma read_length: "min a n + (n - a) = (n :: nat)"
  by simp

lemma stage_goes_on:
  assumes "stage_ok own st f" "f_stage f = Some st" "m_firstResult f = None" "f_timer f"
    and "data = [] \<and> st = Send_Header \<or> st \<noteq> Send_Header \<and> length data = length (m_buffer f)"
  shows "\<exists>f'. stage_succeeded own st (f\<lparr>f_stage := None, m_buffer := data @ drop (length data) (m_buffer f), f_received := f_received f @ data\<rparr>) = Some (f', [])
    \<and> goes_on own f f'"
proof (cases st)
  case Send_Header
  then show ?thesis using assms
    by (simp add: on_send_header_succeeded_def start_async_read_def goes_on_def)
next
  case Receive_Magic_Prefix
  then show ?thesis using assms
    by (simp add: on_receive_magic_prefix_succeeded_def start_async_read_def goes_on_def handle_protocol_error_def cancel_timer_def
      magic_prefix_length version_info_size_def)
next
  case Receive_Version_Info
  then show ?thesis using assms
    by (auto simp: on_receive_version_info_succeeded_def start_async_read_def goes_on_def handle_protocol_error_def
      cancel_timer_def version_received_def Let_def)
next
  case Receive_Identification_Size
  then show ?thesis using assms
    by (auto simp: read_length on_receive_identification_size_succeeded_def start_async_read_def goes_on_def handle_protocol_error_def
      cancel_timer_def size_received_def Let_def)
next
  case Receive_Identification_Data
  then show ?thesis using assms
    by (auto simp: on_receive_identification_data_succeeded_def goes_on_def cancel_timer_def header_received_def)
qed

lemma factory_do_ok:
  assumes "shaking own f" "factory_event_ok e f"
  shows "case factory_do own e f of None \<Rightarrow> False | Some (f', out) \<Rightarrow>
    shaking own f' \<and> out = [] \<or> ended f' \<and> (\<exists>c. out = [c] \<and> completion_ok own f' c)"
proof (cases e)
  case (Socket_Completes ec data)
  then obtain st where st: "f_stage f = Some st" using assms(2) by (cases "f_stage f") auto
  show ?thesis
  proof (cases "\<not> m_canceled f \<and> ec = No_Error")
    case True
    have f: "stage_ok own st f" "m_firstResult f = None" "f_timer f" "m_socket f = Open" "\<not> f_timerCanceled f"
      using assms(1) st True by (auto simp: shaking_def split: if_splits)
    have "data = [] \<and> st = Send_Header \<or> st \<noteq> Send_Header \<and> length data = length (m_buffer f)"
      using assms(2) Socket_Completes st True by (cases st) auto
    from stage_goes_on[OF f(1) st f(2,3) this] show ?thesis
      using Socket_Completes st True f by (auto simp: completion_handler_def shaking_def goes_on_def split: option.splits)
  next
    case False
    then show ?thesis using assms(1) Socket_Completes st
      by (cases "f_timer f")
        (auto simp: completion_handler_def shaking_def ended_def completion_ok_def close_socket_def cancel_timer_def)
  qed
next
  case (Timer_Completes ec)
  show ?thesis
  proof (cases "f_stage f")
    case None
    then obtain r where r: "m_firstResult f = Some r" "r = OK \<longrightarrow> header_received own (f_received f) (m_remoteVersion f, m_buffer f)"
      using assms(1) by (auto simp: shaking_def)
    then show ?thesis using None Timer_Completes
      by (simp add: on_timeout_def ended_def completion_ok_def close_socket_def make_connection_def)
  next
    case (Some st)
    then have "m_firstResult f = None" "ec = No_Error" "stage_ok own st f" "m_socket f = Open"
      using assms Timer_Completes by (auto simp: shaking_def)
    then show ?thesis using Some Timer_Completes
      by (cases st) (simp_all add: on_timeout_def cancel_socket_def shaking_def)
  qed
next
  case Cancel_Shake_Hands
  then show ?thesis using assms
    by (cases "f_stage f"; cases "the (f_stage f)") (auto simp: cancel_shake_hands_def cancel_socket_def shaking_def)
qed

lemma ended_do: "ended f \<Longrightarrow> factory_event_ok e f \<Longrightarrow> factory_do own e f = Some (f\<lparr>m_canceled := True\<rparr>, [])"
  by (cases e) (auto simp: ended_def cancel_shake_hands_def cancel_socket_def)

lemma ended_run:
  assumes "ended f" "factory_legal own es f" "m_socket f = x"
  shows "\<exists>f'. factory_run own es f = Some (f', []) \<and> ended f' \<and> m_socket f' = x \<and> f_received f' = f_received f"
  using assms
proof (induction es arbitrary: f)
  case (Cons e es)
  have d: "factory_do own e f = Some (f\<lparr>m_canceled := True\<rparr>, [])" using Cons.prems by (simp add: ended_do)
  have "\<exists>f'. factory_run own es (f\<lparr>m_canceled := True\<rparr>) = Some (f', []) \<and> ended f' \<and> m_socket f' = x \<and> f_received f' = f_received f"
    using Cons.IH[of "f\<lparr>m_canceled := True\<rparr>"] Cons.prems d by (simp add: ended_def)
  then show ?case by (auto simp: d)
qed simp

lemma shaking_run:
  assumes "shaking own f" "factory_legal own es f"
  shows "case factory_run own es f of None \<Rightarrow> False | Some (f', out) \<Rightarrow>
    shaking own f' \<and> out = [] \<or> ended f' \<and> (\<exists>c. out = [c] \<and> completion_ok own f' c)"
  using assms
proof (induction es arbitrary: f)
  case (Cons e es)
  obtain f1 out1 where d: "factory_do own e f = Some (f1, out1)"
    and r: "shaking own f1 \<and> out1 = [] \<or> ended f1 \<and> (\<exists>c. out1 = [c] \<and> completion_ok own f1 c)"
    using factory_do_ok[OF Cons.prems(1), of e] Cons.prems(2) by (auto split: option.splits)
  have l: "factory_legal own es f1" using Cons.prems(2) d by simp
  show ?case
  proof (cases "shaking own f1 \<and> out1 = []")
    case True
    then show ?thesis using Cons.IH[OF _ l] d by (auto split: option.splits)
  next
    case False
    then obtain c where c: "ended f1" "out1 = [c]" "completion_ok own f1 c" using r by blast
    obtain f' where f': "factory_run own es f1 = Some (f', [])" "ended f'" "m_socket f' = m_socket f1" "f_received f' = f_received f1"
      using ended_run[OF c(1) l refl] by blast
    then have "completion_ok own f' c" using c(3) by (simp only: completion_ok_def)
    then show ?thesis using d c(2) f' by (cases c) simp
  qed
qed simp

section \<open>Progress\<close>

fun stage_rank :: "stage \<Rightarrow> nat" where
  "stage_rank Send_Header = 5"
| "stage_rank Receive_Magic_Prefix = 4"
| "stage_rank Receive_Version_Info = 3"
| "stage_rank Receive_Identification_Size = 2"
| "stage_rank Receive_Identification_Data = 1"

definition to_come :: "factory \<Rightarrow> nat" where
  "to_come f = (case f_stage f of None \<Rightarrow> 0 | Some st \<Rightarrow> stage_rank st) + (if f_timer f then 1 else 0)"

definition is_completion :: "factory_event \<Rightarrow> bool" where
  "is_completion e \<longleftrightarrow> e \<noteq> Cancel_Shake_Hands"

lemma cancel_timer_simps [simp]: "f_stage (cancel_timer f) = f_stage f" "f_timer (cancel_timer f) = f_timer f"
    "f_received (cancel_timer f) = f_received f"
  by (simp_all add: cancel_timer_def)

lemma stage_succeeds_to:
  assumes "stage_succeeded own st f = Some (f', out)" "f_stage f = None"
  shows "f_timer f' = f_timer f \<and> f_received f' = f_received f \<and>
    (case f_stage f' of None \<Rightarrow> True | Some st' \<Rightarrow> stage_rank st' < stage_rank st)"
  using assms
  by (cases st) (auto simp: on_send_header_succeeded_def on_receive_magic_prefix_succeeded_def on_receive_version_info_succeeded_def
    on_receive_identification_size_succeeded_def on_receive_identification_data_succeeded_def handle_protocol_error_def
    start_async_read_def close_socket_def Let_def split: if_splits option.splits)

lemma completion_handler_to:
  assumes "completion_handler ec (stage_succeeded own st) f = Some (f', out)" "f_stage f = None"
  shows "f_timer f' = f_timer f \<and> f_received f' = f_received f \<and>
    (case f_stage f' of None \<Rightarrow> True | Some st' \<Rightarrow> stage_rank st' < stage_rank st)"
  using assms stage_succeeds_to[of own st f f' out]
  by (auto simp: completion_handler_def close_socket_def make_connection_def split: if_splits option.splits)

lemma stage_rank_pos: "0 < stage_rank st"
  by (cases st) simp_all

lemma completions_to_come:
  assumes "factory_do own e f = Some (f', out)" "factory_event_ok e f"
  shows "to_come f' + (if is_completion e then 1 else 0) \<le> to_come f"
proof (cases e)
  case (Socket_Completes ec data)
  then obtain st where st: "f_stage f = Some st" using assms(2) by (cases "f_stage f") auto
  then show ?thesis using assms Socket_Completes completion_handler_to[of ec own st _ f' out] stage_rank_pos[of st]
    by (fastforce simp: to_come_def is_completion_def split: option.splits)
next
  case (Timer_Completes ec)
  then show ?thesis using assms
    by (auto simp: on_timeout_def to_come_def is_completion_def close_socket_def cancel_socket_def make_connection_def split: option.splits if_splits)
next
  case Cancel_Shake_Hands
  then show ?thesis using assms by (auto simp: to_come_def is_completion_def cancel_shake_hands_def cancel_socket_def)
qed

lemma completions_bounded:
  "factory_run own es f = Some (f', out) \<Longrightarrow> factory_legal own es f \<Longrightarrow> length (filter is_completion es) + to_come f' \<le> to_come f"
proof (induction es arbitrary: f out)
  case (Cons e es)
  then obtain f1 out1 out2 where d: "factory_do own e f = Some (f1, out1)" "factory_run own es f1 = Some (f', out2)"
    by (auto simp: bind_eq_Some_conv)
  then show ?case using Cons.IH[OF d(2)] completions_to_come[OF d(1)] Cons.prems by (simp split: if_splits)
qed simp

lemma start_to_come: "to_come (start_async_shake_hands oec i tec f) = 6"
  by (auto simp: to_come_def start_async_shake_hands_def start_async_send_header_def cancel_socket_def Let_def)

text \<open>Some completion can still happen before the end.\<close>

lemma shaking_possible: "shaking own f \<Longrightarrow> \<exists>e. is_completion e \<and> factory_event_ok e f"
proof (cases "f_stage f")
  case (Some st)
  then show ?thesis
    by (intro exI[of _ "Socket_Completes Other_Error []"]) (cases st; simp add: is_completion_def)
qed (auto simp: shaking_def is_completion_def intro!: exI[of _ "Timer_Completes No_Error"])

section \<open>Sizes\<close>

lemma stage_size:
  assumes "stage_ok own st f" "st \<noteq> Send_Header"
  shows "length (f_received f) + length (m_buffer f) \<le> 29 + max_identification_size \<and> length (m_buffer f) \<le> max_identification_size"
  using assms
  by (cases st) (auto simp: magic_prefix_length version_received_def size_received_def version_info_size_def max_identification_size_def)

lemma received_bounded_do:
  assumes "shaking own f" "factory_event_ok e f" "factory_do own e f = Some (f', out)"
    and "length (f_received f) \<le> 29 + max_identification_size"
  shows "length (f_received f') \<le> 29 + max_identification_size"
proof (cases e)
  case (Socket_Completes ec data)
  then obtain st where st: "f_stage f = Some st" "stage_ok own st f" using assms(1,2) by (cases "f_stage f") (auto simp: shaking_def)
  have r: "f_received f' = f_received f @ data"
    using assms(3) Socket_Completes st completion_handler_to[of ec own st _ f' out] by fastforce
  have "data = [] \<or> st \<noteq> Send_Header \<and> length data \<le> length (m_buffer f)"
    using assms(2) Socket_Completes st(1) by (cases st) (auto split: if_splits)
  then show ?thesis using r assms(4) stage_size[OF st(2)] by auto
next
  case (Timer_Completes ec)
  then show ?thesis using assms
    by (auto simp: on_timeout_def close_socket_def cancel_socket_def make_connection_def split: option.splits if_splits)
next
  case Cancel_Shake_Hands
  then show ?thesis using assms by (auto simp: cancel_shake_hands_def cancel_socket_def)
qed

lemma received_bounded_run:
  "shaking own f \<Longrightarrow> factory_legal own es f \<Longrightarrow> factory_run own es f = Some (f', out) \<Longrightarrow>
    length (f_received f) \<le> 29 + max_identification_size \<Longrightarrow> length (f_received f') \<le> 29 + max_identification_size"
proof (induction es arbitrary: f out)
  case (Cons e es)
  then obtain f1 out1 out2 where d: "factory_do own e f = Some (f1, out1)" "factory_run own es f1 = Some (f', out2)"
    by (auto simp: bind_eq_Some_conv)
  have l: "factory_event_ok e f" "factory_legal own es f1" using Cons.prems(2) d by simp_all
  have b: "length (f_received f1) \<le> 29 + max_identification_size" using received_bounded_do[OF Cons.prems(1) l(1) d(1) Cons.prems(4)] .
  have "shaking own f1 \<or> ended f1" using factory_do_ok[OF Cons.prems(1) l(1)] d(1) by auto
  then show ?case using Cons.IH[OF _ l(2) d(2) b] ended_run[OF _ l(2) refl] d(2) b by fastforce
qed simp

section \<open>The header of the other end\<close>

lemma ntohl_htonl: "ntohl_bytes (htonl_bytes w) = w"
proof (rule bit_word_eqI)
  fix n
  assume "n < LENGTH(32)"
  then consider "n < 8" | "8 \<le> n" "n < 16" | "16 \<le> n" "n < 24" | "24 \<le> n" "n < 32" by fastforce
  then show "bit (ntohl_bytes (htonl_bytes w)) n = bit w n"
    by cases (auto simp: htonl_bytes_def bit_simps)
qed

lemma byte_of_char_zero: "byte_of_char c = 0 \<Longrightarrow> c = CHR 0x00"
proof -
  assume "byte_of_char c = 0"
  then have "c = char_of_byte 0" by (metis char_of_byte_of_char)
  then show ?thesis by (simp add: char_of_byte_def char_of_def)
qed

lemma c_string_version:
  assumes "make_version_info v = Some vi" "CHR 0x00 \<notin> set v"
  shows "c_string vi = v" "length vi = version_info_size"
proof -
  have v: "length v < version_info_size" "vi = map byte_of_char v @ replicate (version_info_size - length v) 0"
    using assms(1) by (auto simp: make_version_info_def split: if_splits)
  then show "length vi = version_info_size" by simp
  obtain n where n: "version_info_size - length v = Suc n" using v(1) by (metis Suc_diff_Suc)
  have "butlast vi = map byte_of_char v @ replicate n 0" using v(2) n by (simp add: butlast_append replicate_append_same[symmetric])
  moreover have "\<And>x. x \<in> set (map byte_of_char v) \<Longrightarrow> x \<noteq> 0" using assms(2) byte_of_char_zero by auto
  ultimately have "takeWhile (\<lambda>x. x \<noteq> 0) (butlast vi) = map byte_of_char v @ takeWhile (\<lambda>x. x \<noteq> 0) (replicate n 0)"
    using takeWhile_append2[of "map byte_of_char v" "\<lambda>x. x \<noteq> 0" "replicate n 0"] by simp
  then have "takeWhile (\<lambda>x. x \<noteq> 0) (butlast vi) = map byte_of_char v" by (cases n) simp_all
  then show "c_string vi = v" by (simp add: c_string_def comp_def)
qed

lemma identification_parts:
  assumes "make_identification ident = Inr idn"
  shows "length (take 4 idn) = 4" "unat (ntohl_bytes (take 4 idn)) = length ident" "drop 4 idn = ident" "length ident \<le> max_identification_size"
proof -
  have i: "length ident \<le> max_identification_size" "idn = htonl_bytes (word_of_nat (length ident)) @ ident"
    using assms by (auto simp: make_identification_def split: if_splits)
  have four: "length (htonl_bytes w) = 4" for w by (simp add: htonl_bytes_def)
  show "length (take 4 idn) = 4" "drop 4 idn = ident" "length ident \<le> max_identification_size" using i four by simp_all
  have "unat (word_of_nat (length ident) :: 32 word) = length ident"
    using i(1) by (simp add: unat_of_nat take_bit_nat_eq_self max_identification_size_def)
  then show "unat (ntohl_bytes (take 4 idn)) = length ident" using i(2) four by (simp add: ntohl_htonl)
qed

section \<open>Cancellation\<close>

definition doomed :: "factory \<Rightarrow> bool" where
  "doomed f \<longleftrightarrow> m_canceled f \<and> (f_stage f \<noteq> None \<or> m_firstResult f = Some (Err ERR_CANCELED))"

definition failure :: "completion \<Rightarrow> bool" where
  "failure c \<longleftrightarrow> c = (Err ERR_CANCELED, None) \<or> c = (Err ERR_TIMEOUT, None)"

lemma doomed_do:
  assumes "shaking own f" "doomed f" "factory_event_ok e f" "factory_do own e f = Some (f', out)"
  shows "(out = [] \<longrightarrow> doomed f') \<and> list_all failure out"
proof (cases e)
  case (Socket_Completes ec data)
  then obtain st where st: "f_stage f = Some st" using assms(3) by (cases "f_stage f") auto
  then show ?thesis using assms Socket_Completes
    by (cases "f_timer f") (auto simp: shaking_def doomed_def completion_handler_def failure_def cancel_timer_def)
next
  case (Timer_Completes ec)
  then show ?thesis using assms
    by (cases "f_stage f") (auto simp: on_timeout_def shaking_def doomed_def cancel_socket_def failure_def)
next
  case Cancel_Shake_Hands
  then show ?thesis using assms by (auto simp: cancel_shake_hands_def cancel_socket_def doomed_def)
qed

lemma doomed_run:
  "shaking own f \<Longrightarrow> doomed f \<Longrightarrow> factory_legal own es f \<Longrightarrow> factory_run own es f = Some (f', out) \<Longrightarrow> list_all failure out"
proof (induction es arbitrary: f out)
  case (Cons e es)
  then obtain f1 out1 out2 where d: "factory_do own e f = Some (f1, out1)" "factory_run own es f1 = Some (f', out2)" "out = out1 @ out2"
    by (auto simp: bind_eq_Some_conv)
  have l: "factory_event_ok e f" "factory_legal own es f1" using Cons.prems(3) d by simp_all
  note dd = doomed_do[OF Cons.prems(1,2) l(1) d(1)]
  have "shaking own f1 \<and> out1 = [] \<or> ended f1" using factory_do_ok[OF Cons.prems(1) l(1)] d(1) by auto
  then show ?case
  proof
    assume "shaking own f1 \<and> out1 = []"
    then show ?thesis using Cons.IH[OF _ _ l(2) d(2)] dd d(3) by simp
  next
    assume "ended f1"
    then show ?thesis using ended_run[OF _ l(2) refl] d dd by fastforce
  qed
qed simp

lemma factory_run_append:
  "factory_run own (es @ es') f = do { (f1, out1) \<leftarrow> factory_run own es f; (f2, out2) \<leftarrow> factory_run own es' f1; Some (f2, out1 @ out2) }"
  by (induction es arbitrary: f) (auto simp: bind_assoc case_prod_beta split: bind_splits)

lemma factory_legal_append:
  "factory_legal own (es @ es') f \<longleftrightarrow> factory_legal own es f \<and> (case factory_run own es f of None \<Rightarrow> True | Some (f1, out) \<Rightarrow> factory_legal own es' f1)"
  by (induction es arbitrary: f) (auto simp: case_prod_beta split: option.splits bind_splits)

section \<open>Properties\<close>

text \<open>C24: Every handshake ends exactly once: however the socket, the timer and a cancellation interleave, at most
  six operations complete; as long as \<^verbatim>\<open>on_shake_hands_completed\<close> has not been called one more
  can, and when it has been called nothing is under way, the socket has been closed or has gone into the
  connection, and there is a connection exactly if the result is OK.\<close>

theorem handshake_ends_once:
  assumes "factory_legal own es (start_async_shake_hands oec i tec f0)"
  shows "\<exists>f out. factory_run own es (start_async_shake_hands oec i tec f0) = Some (f, out) \<and> length (filter is_completion es) \<le> 6 \<and>
    (out = [] \<and> (\<exists>e. is_completion e \<and> factory_event_ok e f) \<or>
     (\<exists>r conn. out = [(r, conn)] \<and> (r = OK \<longleftrightarrow> conn \<noteq> None) \<and> m_socket f = (if r = OK then Moved else Closed) \<and> f_stage f = None \<and> \<not> f_timer f))"
proof -
  let ?f = "start_async_shake_hands oec i tec f0"
  obtain f out where r: "factory_run own es ?f = Some (f, out)"
    and c: "shaking own f \<and> out = [] \<or> ended f \<and> (\<exists>c. out = [c] \<and> completion_ok own f c)"
    using shaking_run[OF shaking_start assms] by (auto split: option.splits)
  have "length (filter is_completion es) \<le> 6" using completions_bounded[OF r assms] by (simp add: start_to_come)
  then show ?thesis using r c shaking_possible by (fastforce simp: completion_ok_def ended_def)
qed

text \<open>C25: A connection comes only from a complete header of a compatible version: the bytes received are the magic
  prefix, a version whose part before the last dot is one's own, the size of the identification and that
  many bytes of it.\<close>

theorem handshake_accepts_header:
  assumes "factory_legal own es (start_async_shake_hands oec i tec f0)"
    and "factory_run own es (start_async_shake_hands oec i tec f0) = Some (f, [(OK, Some (v, ident))])"
  shows "\<exists>ver sz. f_received f = make_magic_prefix @ ver @ sz @ ident \<and> length ver = version_info_size \<and> v = c_string ver \<and>
    versions_are_compatible own v \<and> unat (ntohl_bytes sz) = length ident"
proof -
  have "header_received own (f_received f) (v, ident)"
    using shaking_run[OF shaking_start assms(1)] assms(2) by (auto simp: completion_ok_def)
  then obtain ver sz where "f_received f = make_magic_prefix @ ver @ sz @ ident" "length ver = version_info_size" "v = c_string ver"
      "versions_are_compatible own v" "unat (ntohl_bytes sz) = length ident"
    by (force simp: header_received_def size_received_def version_received_def)
  then show ?thesis by blast
qed

text \<open>C26: The other end cannot make the handshake read or hold more than the limits allow.\<close>

theorem handshake_bounded:
  assumes "factory_legal own es (start_async_shake_hands oec i tec f0)"
    and "factory_run own es (start_async_shake_hands oec i tec f0) = Some (f, out)"
  shows "length (f_received f) \<le> 29 + max_identification_size \<and>
    (f_stage f \<noteq> None \<and> f_stage f \<noteq> Some Send_Header \<longrightarrow> length (m_buffer f) \<le> max_identification_size)"
proof -
  have "f_received (start_async_shake_hands oec i tec f0) = []"
    by (auto simp: start_async_shake_hands_def start_async_send_header_def cancel_socket_def Let_def)
  then have "length (f_received f) \<le> 29 + max_identification_size"
    using received_bounded_run[OF shaking_start assms] by simp
  moreover have "shaking own f \<or> f_stage f = None" using shaking_run[OF shaking_start assms(1)] assms(2) by (auto simp: ended_def)
  ultimately show ?thesis using stage_size by (fastforce simp: shaking_def)
qed

text \<open>C27: The header that one end sends is accepted by the other one if the versions are compatible, which then has
  the version and the identification it was given.\<close>

theorem handshake_round_trip:
  assumes "make_version_info v = Some vi" "make_identification ident = Inr idn" "versions_are_compatible own v" "CHR 0x00 \<notin> set v"
  shows "map_option snd (factory_run own [Socket_Completes No_Error [], Socket_Completes No_Error make_magic_prefix, Socket_Completes No_Error vi,
      Socket_Completes No_Error (take 4 idn), Socket_Completes No_Error (drop 4 idn), Timer_Completes Operation_Aborted]
      (start_async_shake_hands No_Error i No_Error f0)) = Some [(OK, Some (v, ident))]"
  using c_string_version[OF assms(1,4)] identification_parts[OF assms(2)] assms(3)
  by (simp add: start_async_shake_hands_def start_async_send_header_def completion_handler_def on_send_header_succeeded_def
    on_receive_magic_prefix_succeeded_def on_receive_version_info_succeeded_def on_receive_identification_size_succeeded_def
    on_receive_identification_data_succeeded_def on_timeout_def start_async_read_def cancel_timer_def make_connection_def
    magic_prefix_length Let_def)

text \<open>A handshake that is cancelled before the last byte of the header has arrived does not lead to a connection
  any more: it ends with CANCELED, or with TIMEOUT if the timer was faster.\<close>

theorem canceled_handshake_fails:
  assumes "factory_legal own (es @ Cancel_Shake_Hands # es') (start_async_shake_hands oec i tec f0)"
    and "factory_run own es (start_async_shake_hands oec i tec f0) = Some (f, [])" "f_stage f \<noteq> None"
    and "factory_run own (es @ Cancel_Shake_Hands # es') (start_async_shake_hands oec i tec f0) = Some (f', [(r, conn)])"
  shows "conn = None \<and> (r = Err ERR_CANCELED \<or> r = Err ERR_TIMEOUT)"
proof -
  let ?f = "start_async_shake_hands oec i tec f0"
  have l: "factory_legal own es ?f" "factory_legal own (Cancel_Shake_Hands # es') f" using assms(1,2) by (simp_all add: factory_legal_append)
  have s: "shaking own f" using shaking_run[OF shaking_start l(1)] assms(2) by simp
  let ?g = "cancel_shake_hands f"
  have g: "shaking own ?g" using factory_do_ok[OF s, of Cancel_Shake_Hands] by simp
  have d: "doomed ?g" using assms(3) by (simp add: doomed_def cancel_shake_hands_def cancel_socket_def)
  have "factory_run own es' ?g = Some (f', [(r, conn)])" using assms(2,4) by (auto simp: factory_run_append bind_eq_Some_conv)
  then have "failure (r, conn)" using doomed_run[OF g d] l(2) by fastforce
  then show ?thesis by (auto simp: failure_def)
qed

section \<open>Examples\<close>

text \<open>The header of version 0.0.3 with the identification 7.\<close>

definition sample_handshake :: "factory_event list" where
  "sample_handshake = [Socket_Completes No_Error [], Socket_Completes No_Error make_magic_prefix,
     Socket_Completes No_Error (map byte_of_char ''0.0.3'' @ replicate 15 0), Socket_Completes No_Error [0, 0, 0, 1],
     Socket_Completes No_Error [7]]"

abbreviation sample_start :: factory where
  "sample_start \<equiv> start_async_shake_hands No_Error False No_Error factory_new"

lemma handshake_ends_once_witness:
  "\<exists>f. factory_run yogi_version (sample_handshake @ [Timer_Completes Operation_Aborted]) sample_start = Some (f, [(OK, Some (''0.0.3'', [7]))]) \<and>
    m_socket f = Moved \<and> \<not> f_timer f"
proof -
  let ?es = "sample_handshake @ [Timer_Completes Operation_Aborted]"
  have l: "factory_legal yogi_version ?es sample_start" by code_simp
  have r: "map_option snd (factory_run yogi_version ?es sample_start) = Some [(OK, Some (''0.0.3'', [7]))]" by code_simp
  show ?thesis using handshake_ends_once[OF l] r by auto
qed

lemma handshake_accepts_header_witness:
  "\<exists>(f :: factory) ver sz. f_received f = make_magic_prefix @ ver @ sz @ [7] \<and> ''0.0.3'' = c_string ver \<and> unat (ntohl_bytes sz) = length [7 :: byte]"
proof -
  let ?es = "sample_handshake @ [Timer_Completes Operation_Aborted]"
  have l: "factory_legal yogi_version ?es sample_start" by code_simp
  have r: "map_option snd (factory_run yogi_version ?es sample_start) = Some [(OK, Some (''0.0.3'', [7]))]" by code_simp
  then obtain f where "factory_run yogi_version ?es sample_start = Some (f, [(OK, Some (''0.0.3'', [7]))])" by auto
  from handshake_accepts_header[OF l this] show ?thesis by blast
qed

lemma handshake_bounded_witness:
  "\<exists>f out. factory_run yogi_version (take 4 sample_handshake) sample_start = Some (f, out) \<and> length (m_buffer f) \<le> max_identification_size"
proof -
  have l: "factory_legal yogi_version (take 4 sample_handshake) sample_start" by code_simp
  have s: "map_option (\<lambda>x. f_stage (fst x)) (factory_run yogi_version (take 4 sample_handshake) sample_start) = Some (Some Receive_Identification_Data)"
    by code_simp
  then obtain f out where r: "factory_run yogi_version (take 4 sample_handshake) sample_start = Some (f, out)" "f_stage f = Some Receive_Identification_Data" by auto
  show ?thesis using handshake_bounded[OF l r(1)] r by auto
qed

lemma handshake_round_trip_witness:
  "\<exists>vi idn. make_version_info ''0.0.3'' = Some vi \<and> make_identification [7] = Inr idn \<and>
    map_option snd (factory_run yogi_version [Socket_Completes No_Error [], Socket_Completes No_Error make_magic_prefix, Socket_Completes No_Error vi,
      Socket_Completes No_Error (take 4 idn), Socket_Completes No_Error (drop 4 idn), Timer_Completes Operation_Aborted] sample_start) =
    Some [(OK, Some (''0.0.3'', [7]))]"
proof -
  have v: "make_version_info ''0.0.3'' = Some (map byte_of_char ''0.0.3'' @ replicate 15 0)" by code_simp
  have i: "make_identification [7] = Inr [0, 0, 0, 1, 7]" by code_simp
  have c: "versions_are_compatible yogi_version ''0.0.3''" by code_simp
  have n: "CHR 0x00 \<notin> set ''0.0.3''" by code_simp
  show ?thesis using v i handshake_round_trip[OF v i c n, of False factory_new] by blast
qed

lemma canceled_handshake_fails_witness:
  "\<exists>f' r. factory_run yogi_version (take 3 sample_handshake @ Cancel_Shake_Hands # [Socket_Completes Operation_Aborted [], Timer_Completes Operation_Aborted])
      sample_start = Some (f', [(r, None)]) \<and> (r = Err ERR_CANCELED \<or> r = Err ERR_TIMEOUT)"
proof -
  let ?es = "take 3 sample_handshake" and ?es' = "[Socket_Completes Operation_Aborted [], Timer_Completes Operation_Aborted]"
  have l: "factory_legal yogi_version (?es @ Cancel_Shake_Hands # ?es') sample_start" by code_simp
  have s: "map_option (\<lambda>x. (f_stage (fst x), snd x)) (factory_run yogi_version ?es sample_start) = Some (Some Receive_Identification_Size, [])" by code_simp
  then obtain f where f: "factory_run yogi_version ?es sample_start = Some (f, [])" "f_stage f \<noteq> None" by auto
  have "map_option snd (factory_run yogi_version (?es @ Cancel_Shake_Hands # ?es') sample_start) = Some [(Err ERR_CANCELED, None)]" by code_simp
  then obtain f' where f': "factory_run yogi_version (?es @ Cancel_Shake_Hands # ?es') sample_start = Some (f', [(Err ERR_CANCELED, None)])" by auto
  show ?thesis using canceled_handshake_fails[OF l f f'] f' by blast
qed

end
