(* ===== verification/Async_Op.thy ===== *)
theory Async_Op
  imports Api "HOL-Library.Multiset"
begin

text \<open>
  \<^verbatim>\<open>base/AsyncOperation.hpp\<close>: a handler that is armed by one thread and fired or disarmed by another.
  A handler is an opaque value \<open>'h\<close>; \<^verbatim>\<open>fire\<close> takes it out under the mutex, calls it without the
  mutex and then, under the mutex again, counts the operation as finished.
\<close>

section \<open>State and critical sections\<close>

record 'h async_op =
  m_armedHandler :: "'h option"
  m_runningOperations :: int

definition async_init :: "'h async_op" where
  "async_init = \<lparr>m_armedHandler = None, m_runningOperations = 0\<rparr>"

definition take_armed_handler :: "'h async_op \<Rightarrow> 'h option \<times> 'h async_op" where
  "take_armed_handler a = (m_armedHandler a, a\<lparr>m_armedHandler := None\<rparr>)"

definition get_armed_handler :: "'h async_op \<Rightarrow> 'h option" where
  "get_armed_handler a = m_armedHandler a"

definition armed :: "'h async_op \<Rightarrow> bool" where
  "armed a \<longleftrightarrow> m_armedHandler a \<noteq> None"

definition arm :: "'h \<Rightarrow> 'h async_op \<Rightarrow> api_error + 'h async_op" where
  "arm h a = (if m_armedHandler a \<noteq> None then Inl ERR_ASYNC_OPERATION_RUNNING
     else Inr (a\<lparr>m_armedHandler := Some h, m_runningOperations := m_runningOperations a + 1\<rparr>))"

definition disarm :: "'h async_op \<Rightarrow> 'h async_op" where
  "disarm a = (if m_armedHandler a \<noteq> None
     then a\<lparr>m_armedHandler := None, m_runningOperations := m_runningOperations a - 1\<rparr> else a)"

definition idle :: "'h async_op \<Rightarrow> bool" where
  "idle a \<longleftrightarrow> m_runningOperations a = 0"

definition finish_operation :: "'h async_op \<Rightarrow> 'h async_op" where
  "finish_operation a = a\<lparr>m_runningOperations := m_runningOperations a - 1\<rparr>"

text \<open>
  A complete \<^verbatim>\<open>fire\<close> by one thread: the handler that gets called, if any, and what \<open>run\<close>, the
  call itself, makes of the operation (a handler may arm it again).
\<close>

definition fire :: "('h \<Rightarrow> 'h async_op \<Rightarrow> 'h async_op) \<Rightarrow> 'h async_op \<Rightarrow> 'h option \<times> 'h async_op" where
  "fire run a = (case take_armed_handler a of
      (Some h, a1) \<Rightarrow> (Some h, finish_operation (run h a1))
    | (None, a1) \<Rightarrow> (None, a1))"

definition fire_and_reload :: "'h async_op \<Rightarrow> 'h option" where
  "fire_and_reload a = get_armed_handler a"

section \<open>Threads\<close>

text \<open>
  All threads that use one operation: \<open>calls\<close> are the handlers that \<^verbatim>\<open>fire\<close> is calling right now, by any
  thread and in any number, \<open>reloads\<close> those that \<^verbatim>\<open>fire_and_reload\<close> is calling: it copies the armed handler under the
  mutex and calls the copy without the mutex, and it counts nothing.  The last four components are history.
\<close>

record 'h async_world =
  op :: "'h async_op"
  calls :: "'h list"
  reloads :: "'h list"
  w_armed :: "'h list"
  w_fired :: "'h list"
  w_disarmed :: "'h list"
  w_reloaded :: "'h list"

inductive async_step :: "'h async_world \<Rightarrow> 'h async_world \<Rightarrow> bool" where
  s_arm: "arm h (op w) = Inr a \<Longrightarrow> async_step w (w\<lparr>op := a, w_armed := h # w_armed w\<rparr>)"
| s_arm_fails: "arm h (op w) = Inl e \<Longrightarrow> async_step w w"
| s_disarm: "async_step w (w\<lparr>op := disarm (op w),
    w_disarmed := (case m_armedHandler (op w) of Some h \<Rightarrow> h # w_disarmed w | None \<Rightarrow> w_disarmed w)\<rparr>)"
| s_fire: "take_armed_handler (op w) = (Some h, a) \<Longrightarrow>
    async_step w (w\<lparr>op := a, calls := h # calls w, w_fired := h # w_fired w\<rparr>)"
| s_fire_nothing: "take_armed_handler (op w) = (None, a) \<Longrightarrow> async_step w (w\<lparr>op := a\<rparr>)"
| s_return: "calls w = hs1 @ h # hs2 \<Longrightarrow>
    async_step w (w\<lparr>op := finish_operation (op w), calls := hs1 @ hs2\<rparr>)"
| s_reload: "fire_and_reload (op w) = Some h \<Longrightarrow> async_step w (w\<lparr>reloads := h # reloads w, w_reloaded := h # w_reloaded w\<rparr>)"
| s_reload_nothing: "fire_and_reload (op w) = None \<Longrightarrow> async_step w w"
| s_reload_return: "reloads w = hs1 @ h # hs2 \<Longrightarrow> async_step w (w\<lparr>reloads := hs1 @ hs2\<rparr>)"

inductive async_reachable :: "'h async_world \<Rightarrow> bool" where
  start: "async_reachable \<lparr>op = async_init, calls = [], reloads = [], w_armed = [], w_fired = [], w_disarmed = [], w_reloaded = []\<rparr>"
| step: "async_reachable w \<Longrightarrow> async_step w w' \<Longrightarrow> async_reachable w'"

inductive_cases async_step_cases: "async_step w w'"

section \<open>Invariant\<close>

text \<open>
  The counter is the number of handlers that are armed or called by \<^verbatim>\<open>fire\<close>, and what \<^verbatim>\<open>fire_and_reload\<close> calls
  is armed at that time.
\<close>

definition async_ok :: "'h async_world \<Rightarrow> bool" where
  "async_ok w \<longleftrightarrow> m_runningOperations (op w) = int (length (calls w)) + (if armed (op w) then 1 else 0)
     \<and> count_list (w_armed w) = (\<lambda>h. count_list (w_fired w) h + count_list (w_disarmed w) h
         + (if m_armedHandler (op w) = Some h then 1 else 0))
     \<and> mset (calls w) \<subseteq># mset (w_fired w) \<and> mset (reloads w) \<subseteq># mset (w_reloaded w) \<and> set (w_reloaded w) \<subseteq> set (w_armed w)"

lemma armed_handler_armed: "async_ok w \<Longrightarrow> m_armedHandler (op w) = Some h \<Longrightarrow> h \<in> set (w_armed w)"
proof -
  assume w: "async_ok w" "m_armedHandler (op w) = Some h"
  then have "count_list (w_armed w) h \<noteq> 0" by (simp add: async_ok_def)
  then show ?thesis by (simp add: count_list_0_iff)
qed

lemma async_step_ok: "async_step w w' \<Longrightarrow> async_ok w \<Longrightarrow> async_ok w'"
proof (induction rule: async_step.induct)
  case (s_reload w h)
  then show ?case using armed_handler_armed[OF s_reload(2)] by (auto simp: async_ok_def fire_and_reload_def get_armed_handler_def)
next
  case (s_return w hs1 h hs2)
  have "mset (hs1 @ hs2) \<subseteq># mset (calls w)" using s_return(1) by simp
  then have "mset (hs1 @ hs2) \<subseteq># mset (w_fired w)" using s_return(2) unfolding async_ok_def by (blast intro: subset_mset.order_trans)
  then show ?case using s_return by (auto simp: async_ok_def finish_operation_def armed_def fun_eq_iff)
next
  case (s_reload_return w hs1 h hs2)
  have "mset (hs1 @ hs2) \<subseteq># mset (reloads w)" using s_reload_return(1) by simp
  then have "mset (hs1 @ hs2) \<subseteq># mset (w_reloaded w)" using s_reload_return(2) unfolding async_ok_def by (blast intro: subset_mset.order_trans)
  then show ?case using s_reload_return by (auto simp: async_ok_def)
qed (auto simp: async_ok_def arm_def disarm_def take_armed_handler_def armed_def fun_eq_iff split: option.splits if_splits)

lemma async_reachable_ok: "async_reachable w \<Longrightarrow> async_ok w"
proof (induction rule: async_reachable.induct)
  case start
  then show ?case by (simp add: async_ok_def async_init_def armed_def fun_eq_iff)
next
  case (step w w')
  then show ?case using async_step_ok by blast
qed

section \<open>Properties\<close>

text \<open>C34: Whatever the threads do with \<^verbatim>\<open>arm\<close>, \<^verbatim>\<open>disarm\<close>, \<^verbatim>\<open>fire\<close> and \<^verbatim>\<open>fire_and_reload\<close>: the counter \<^verbatim>\<open>await_idle\<close> waits for
  is the number of handlers that are armed or being called by \<^verbatim>\<open>fire\<close>, so that neither is left when the wait ends; every handler
  ever armed is still armed, was taken by one \<^verbatim>\<open>fire\<close> or was dropped by \<^verbatim>\<open>disarm\<close>, each exactly as often as it was armed;
  what \<^verbatim>\<open>fire\<close> is calling it has taken, and \<^verbatim>\<open>fire_and_reload\<close>, which may call a handler any number of times and is not
  counted, calls only handlers that have been armed.\<close>

theorem async_handlers_accounted:
  assumes "async_reachable w"
  shows "m_runningOperations (op w) = int (length (calls w)) + (if armed (op w) then 1 else 0) \<and>
    (idle (op w) \<longleftrightarrow> calls w = [] \<and> m_armedHandler (op w) = None) \<and>
    count_list (w_armed w) h = count_list (w_fired w) h + count_list (w_disarmed w) h +
      (if m_armedHandler (op w) = Some h then 1 else 0) \<and>
    mset (calls w) \<subseteq># mset (w_fired w) \<and> set (reloads w) \<subseteq> set (w_armed w)"
  using async_reachable_ok[OF assms] set_mset_mono[of "mset (reloads w)" "mset (w_reloaded w)"]
  by (auto simp: async_ok_def fun_eq_iff idle_def armed_def split: if_splits)

text \<open>One thread arms a handler, a second one calls it without taking it, and a third one disarms or takes it meanwhile.\<close>

lemma async_armed_run:
  "async_reachable \<lparr>op = \<lparr>m_armedHandler = Some 5, m_runningOperations = 1\<rparr>, calls = [], reloads = [5 :: nat], w_armed = [5],
     w_fired = [], w_disarmed = [], w_reloaded = [5]\<rparr>"
proof -
  have 1: "async_reachable \<lparr>op = \<lparr>m_armedHandler = Some 5, m_runningOperations = 1\<rparr>, calls = [] :: nat list, reloads = [], w_armed = [5],
     w_fired = [], w_disarmed = [], w_reloaded = []\<rparr>"
    using async_reachable.step[OF async_reachable.start s_arm[of 5]] by (simp add: arm_def async_init_def)
  show ?thesis using async_reachable.step[OF 1 s_reload[of _ 5]] by (simp add: fire_and_reload_def get_armed_handler_def)
qed

lemma async_run:
  "async_reachable \<lparr>op = \<lparr>m_armedHandler = None, m_runningOperations = 1\<rparr>, calls = [5 :: nat], reloads = [5], w_armed = [5],
     w_fired = [5], w_disarmed = [], w_reloaded = [5]\<rparr>"
  using async_reachable.step[OF async_armed_run s_fire[of _ 5]] by (simp add: take_armed_handler_def)

lemma async_handlers_accounted_witness:
  "\<exists>w. async_reachable w \<and> calls w = [5 :: nat] \<and> reloads w = [5] \<and> m_runningOperations (op w) = 1 \<and> count_list (w_armed w) 5 = count_list (w_fired w) 5"
  using async_run async_handlers_accounted[OF async_run, of 5] by force

text \<open>The wait for idle does not wait for \<^verbatim>\<open>fire_and_reload\<close>: after \<^verbatim>\<open>disarm\<close> by another thread the counter is 0 while
  the handler is still being called.  The one user of the function holds a mutex over the call.\<close>

theorem reload_not_awaited:
  "\<exists>w :: nat async_world. async_reachable w \<and> idle (op w) \<and> reloads w \<noteq> []"
proof -
  have "async_reachable \<lparr>op = \<lparr>m_armedHandler = None, m_runningOperations = 0\<rparr>, calls = [], reloads = [5 :: nat], w_armed = [5],
     w_fired = [], w_disarmed = [5], w_reloaded = [5]\<rparr>"
    using async_reachable.step[OF async_armed_run s_disarm] by (simp add: disarm_def)
  then show ?thesis by (intro exI conjI) (assumption, simp_all add: idle_def)
qed

end
