(* ===== verification/Event_Runs.thy ===== *)
theory Event_Runs
  imports Async_Op
begin

text \<open>
  Objects that are driven by events and call handlers of the library user: runs of events, and the account
  every such object keeps of the handlers it was given.
\<close>

section \<open>Runs\<close>

text \<open>A step yields the new state and what the user sees; \<open>None\<close> is a failed assertion.\<close>

fun run_events :: "('e \<Rightarrow> 's \<Rightarrow> ('s \<times> 'o list) option) \<Rightarrow> 'e list \<Rightarrow> 's \<Rightarrow> ('s \<times> 'o list) option" where
  "run_events step [] s = Some (s, [])"
| "run_events step (e # es) s = do { (s1, out1) \<leftarrow> step e s; (s2, out2) \<leftarrow> run_events step es s1; Some (s2, out1 @ out2) }"

fun legal_events :: "('e \<Rightarrow> 's \<Rightarrow> ('s \<times> 'o list) option) \<Rightarrow> ('e \<Rightarrow> 's \<Rightarrow> bool) \<Rightarrow> 'e list \<Rightarrow> 's \<Rightarrow> bool" where
  "legal_events step event_ok [] s = True"
| "legal_events step event_ok (e # es) s = (event_ok e s \<and>
     (case step e s of None \<Rightarrow> True | Some (s1, out) \<Rightarrow> legal_events step event_ok es s1))"

lemma run_events_append:
  "run_events step (es @ es') s = do { (s1, out1) \<leftarrow> run_events step es s; (s2, out2) \<leftarrow> run_events step es' s1; Some (s2, out1 @ out2) }"
  by (induction es arbitrary: s) (auto simp: bind_assoc case_prod_beta split: bind_splits)

lemma run_snoc:
  "run_events step (es @ [e]) s = do { (s1, out1) \<leftarrow> run_events step es s; (s2, out2) \<leftarrow> step e s1; Some (s2, out1 @ out2) }"
  by (simp add: run_events_append bind_assoc case_prod_beta)

lemma legal_events_append:
  "legal_events step event_ok (es @ es') s \<longleftrightarrow> legal_events step event_ok es s \<and>
     (case run_events step es s of None \<Rightarrow> True | Some (s1, out) \<Rightarrow> legal_events step event_ok es' s1)"
  by (induction es arbitrary: s) (auto simp: case_prod_beta split: option.splits bind_splits)

section \<open>Accounts\<close>

definition armed_list :: "'h async_op \<Rightarrow> 'h list" where
  "armed_list a = (case m_armedHandler a of None \<Rightarrow> [] | Some h \<Rightarrow> [h])"

text \<open>
  What a client, a server, a connection, a binding, a terminal and a node have in common: every step
  accounts for the handlers of an operation, so that a run does.
\<close>

locale handler_accounts =
  fixes step :: "'e \<Rightarrow> 's \<Rightarrow> ('s \<times> 'o list) option"
    and event_ok :: "'e \<Rightarrow> 's \<Rightarrow> bool"
    and operation :: "'s \<Rightarrow> 'h async_op"
    and consistent :: "'s \<Rightarrow> bool"
    and accepted :: "'o list \<Rightarrow> 'h list"
    and called :: "'o list \<Rightarrow> 'h list"
    and outs_ok :: "'o list \<Rightarrow> bool"
  assumes accepted_append: "accepted [] = []" "accepted (xs @ ys) = accepted xs @ accepted ys"
    and called_append: "called [] = []" "called (xs @ ys) = called xs @ called ys"
    and outs_append: "outs_ok []" "outs_ok xs \<Longrightarrow> outs_ok ys \<Longrightarrow> outs_ok (xs @ ys)"
    and step_ok: "consistent s \<Longrightarrow> event_ok e s \<Longrightarrow> \<exists>s' out. step e s = Some (s', out) \<and> consistent s' \<and>
      called out @ armed_list (operation s') = armed_list (operation s) @ accepted out \<and> outs_ok out"
begin

lemma run_ok:
  "consistent s \<Longrightarrow> legal_events step event_ok es s \<Longrightarrow> \<exists>s' out. run_events step es s = Some (s', out) \<and> consistent s' \<and>
    called out @ armed_list (operation s') = armed_list (operation s) @ accepted out \<and> outs_ok out"
proof (induction es arbitrary: s)
  case (Cons e es)
  obtain s1 out1 where 1: "step e s = Some (s1, out1)" "consistent s1"
    "called out1 @ armed_list (operation s1) = armed_list (operation s) @ accepted out1" "outs_ok out1"
    using step_ok[OF Cons.prems(1), of e] Cons.prems(2) by auto
  have l: "legal_events step event_ok es s1" using Cons.prems(2) 1(1) by simp
  obtain s2 out2 where 2: "run_events step es s1 = Some (s2, out2)" "consistent s2"
    "called out2 @ armed_list (operation s2) = armed_list (operation s1) @ accepted out2" "outs_ok out2"
    using Cons.IH[OF 1(2) l] by blast
  have "called (out1 @ out2) @ armed_list (operation s2) = armed_list (operation s) @ accepted (out1 @ out2)"
    using 1(3) 2(3) by (metis accepted_append(2) append.assoc called_append(2))
  then show ?case using 1(1) 2(1,2) outs_append(2)[OF 1(4) 2(4)] by simp
qed (simp add: accepted_append called_append outs_append)

end

end
