(* ===== verification/Tcp_Connect.thy ===== *)
theory Tcp_Connect
  imports Tcp_Handshake Event_Runs
begin

text \<open>
  \<^verbatim>\<open>connections/tcp/TcpClient\<close> and \<^verbatim>\<open>connections/tcp/TcpServer\<close>: a client resolves a name, connects
  and shakes hands, a server accepts a socket and shakes hands.  The user's handler \<open>'h\<close> is an
  asynchronous operation that is armed once at a time.
\<close>

section \<open>Client\<close>

text \<open>What boost::asio has been asked for, apart from the operations of the handshake.\<close>

datatype waiting = Nothing | Resolving | Connecting | Accepting

record 'h tcp_client =
  c_factory :: factory
  m_connectOp :: "'h async_op"
  c_canceled :: bool
  m_shakingHands :: bool
  c_infiniteTimeout :: bool
  c_waiting :: waiting

text \<open>What the user sees: calls that are accepted or refused with an exception, and calls of handlers.\<close>

datatype 'h user_out = Accepted 'h | Refused 'h api_error | Called 'h result "tcp_connection option"

definition fire_result :: "'h async_op \<Rightarrow> result \<Rightarrow> tcp_connection option \<Rightarrow> 'h async_op \<times> 'h user_out list" where
  "fire_result a r conn = (case fire (\<lambda>h a. a) a of (None, a1) \<Rightarrow> (a1, []) | (Some h, a1) \<Rightarrow> (a1, [Called h r conn]))"

definition connect_fire :: "result \<Rightarrow> tcp_connection option \<Rightarrow> 'h tcp_client \<Rightarrow> 'h tcp_client \<times> 'h user_out list" where
  "connect_fire r conn cl = (let (a, out) = fire_result (m_connectOp cl) r conn in (cl\<lparr>m_connectOp := a\<rparr>, out))"

definition start_async_connect :: "'h tcp_client \<Rightarrow> 'h tcp_client" where
  "start_async_connect cl = cl\<lparr>c_waiting := Connecting\<rparr>"

definition on_resolve_completed :: "errc \<Rightarrow> 'h tcp_client \<Rightarrow> 'h tcp_client \<times> 'h user_out list" where
  "on_resolve_completed ec cl = (
     if ec = No_Error then
       (if c_canceled cl then connect_fire (Err ERR_CANCELED) None cl else (start_async_connect cl, []))
     else if ec = Operation_Aborted then connect_fire (Err ERR_CANCELED) None cl
     else connect_fire (Err ERR_RESOLVE_FAILED) None cl)"

definition on_connect_completed :: "errc \<Rightarrow> errc \<Rightarrow> errc \<Rightarrow> 'h tcp_client \<Rightarrow> 'h tcp_client \<times> 'h user_out list" where
  "on_connect_completed ec option_ec timer_ec cl = (
     if ec = No_Error then
       (if c_canceled cl then connect_fire (Err ERR_CANCELED) None cl
        else (cl\<lparr>m_shakingHands := True,
          c_factory := start_async_shake_hands option_ec (c_infiniteTimeout cl) timer_ec (c_factory cl)\<rparr>, []))
     else if ec = Operation_Aborted then connect_fire (Err ERR_CANCELED) None cl
     else if ec = Connection_Refused then connect_fire (Err ERR_CONNECTION_REFUSED) None cl
     else if ec = Host_Unreachable then connect_fire (Err ERR_HOST_UNREACHABLE) None cl
     else if ec = Network_Down then connect_fire (Err ERR_NETWORK_DOWN) None cl
     else connect_fire (Err ERR_CONNECT_FAILED) None cl)"

fun client_shake_hands_completed :: "completion list \<Rightarrow> 'h tcp_client \<Rightarrow> 'h tcp_client \<times> 'h user_out list" where
  "client_shake_hands_completed [] cl = (cl, [])"
| "client_shake_hands_completed ((r, conn) # cs) cl = (let (cl1, out1) = connect_fire r conn cl;
     (cl2, out2) = client_shake_hands_completed cs cl1 in (cl2, out1 @ out2))"

definition async_connect :: "'h \<Rightarrow> bool \<Rightarrow> 'h tcp_client \<Rightarrow> api_error + 'h tcp_client" where
  "async_connect h infiniteTimeout cl = (case arm h (m_connectOp cl) of
      Inl e \<Rightarrow> Inl e
    | Inr a \<Rightarrow> Inr (cl\<lparr>m_connectOp := a, c_infiniteTimeout := infiniteTimeout, m_shakingHands := False, c_canceled := False,
        c_waiting := Resolving\<rparr>))"

definition cancel_connect :: "'h tcp_client \<Rightarrow> 'h tcp_client" where
  "cancel_connect cl = (let cl1 = cl\<lparr>c_canceled := True\<rparr> in
     if m_shakingHands cl1 then cl1\<lparr>c_factory := cancel_shake_hands (c_factory cl1)\<rparr> else cl1)"

datatype 'h client_event = Async_Connect 'h bool | Resolve_Completes errc | Connect_Completes errc errc errc
  | Client_Handshake factory_event | Cancel_Connect

fun client_event_ok :: "'h client_event \<Rightarrow> 'h tcp_client \<Rightarrow> bool" where
  "client_event_ok (Async_Connect h forever) cl = True"
| "client_event_ok (Resolve_Completes ec) cl = (c_waiting cl = Resolving)"
| "client_event_ok (Connect_Completes ec option_ec timer_ec) cl = (c_waiting cl = Connecting)"
| "client_event_ok (Client_Handshake e) cl = (is_completion e \<and> factory_event_ok e (c_factory cl))"
| "client_event_ok Cancel_Connect cl = True"

fun client_do :: "string \<Rightarrow> 'h client_event \<Rightarrow> 'h tcp_client \<Rightarrow> ('h tcp_client \<times> 'h user_out list) option" where
  "client_do own (Async_Connect h forever) cl = (case async_connect h forever cl of Inl e \<Rightarrow> Some (cl, [Refused h e]) | Inr cl1 \<Rightarrow> Some (cl1, [Accepted h]))"
| "client_do own (Resolve_Completes ec) cl = Some (on_resolve_completed ec (cl\<lparr>c_waiting := Nothing\<rparr>))"
| "client_do own (Connect_Completes ec option_ec timer_ec) cl = Some (on_connect_completed ec option_ec timer_ec (cl\<lparr>c_waiting := Nothing\<rparr>))"
| "client_do own (Client_Handshake e) cl = do { (f, cs) \<leftarrow> factory_do own e (c_factory cl);
     Some (client_shake_hands_completed cs (cl\<lparr>c_factory := f\<rparr>)) }"
| "client_do own Cancel_Connect cl = Some (cancel_connect cl, [])"

section \<open>Server\<close>

text \<open>
  The constructor checks the identification first, then port and address, and then asks for a socket;
  an option that cannot be set makes boost::asio throw an exception of its own.
\<close>

definition make_endpoint :: "bool \<Rightarrow> nat \<Rightarrow> api_error + unit" where
  "make_endpoint address_ok port = (if port = 0 then Inl ERR_INVALID_PORT_NUMBER
     else if \<not> address_ok then Inl ERR_INVALID_IP_ADDRESS else Inr ())"

definition open_acceptor :: "errc \<Rightarrow> errc \<Rightarrow> call_result option" where
  "open_acceptor open_ec option_ec = (if open_ec \<noteq> No_Error then Some (Threw ERR_CANNOT_OPEN_SOCKET)
     else if option_ec \<noteq> No_Error then Some Threw_other else None)"

definition bind_acceptor :: "errc \<Rightarrow> call_result option" where
  "bind_acceptor ec = (if ec = No_Error then None else if ec = Address_In_Use then Some (Threw ERR_ADDRESS_IN_USE)
     else Some (Threw ERR_CANNOT_BIND_SOCKET))"

definition listen_on_acceptor :: "errc \<Rightarrow> call_result option" where
  "listen_on_acceptor ec = (if ec = No_Error then None else Some (Threw ERR_CANNOT_LISTEN_ON_SOCKET))"

record 'h tcp_server =
  s_factory :: factory
  m_acceptOp :: "'h async_op"
  s_canceled :: bool
  s_infiniteTimeout :: bool
  s_waiting :: waiting

definition tcp_client_new :: "buffer \<Rightarrow> api_error + 'h tcp_client" where
  "tcp_client_new ident = (case make_identification ident of
      Inl e \<Rightarrow> Inl e
    | Inr idn \<Rightarrow> Inr \<lparr>c_factory = factory_new, m_connectOp = async_init, c_canceled = False, m_shakingHands = False,
        c_infiniteTimeout = False, c_waiting = Nothing\<rparr>)"

definition tcp_server_new :: "buffer \<Rightarrow> bool \<Rightarrow> nat \<Rightarrow> errc \<Rightarrow> errc \<Rightarrow> errc \<Rightarrow> errc \<Rightarrow> call_result + 'h tcp_server" where
  "tcp_server_new ident address_ok port open_ec option_ec bind_ec listen_ec = (case make_identification ident of
      Inl e \<Rightarrow> Inl (Threw e)
    | Inr idn \<Rightarrow> (case make_endpoint address_ok port of
        Inl e \<Rightarrow> Inl (Threw e)
      | Inr u \<Rightarrow> (case open_acceptor open_ec option_ec of
          Some x \<Rightarrow> Inl x
        | None \<Rightarrow> (case bind_acceptor bind_ec of
            Some x \<Rightarrow> Inl x
          | None \<Rightarrow> (case listen_on_acceptor listen_ec of
              Some x \<Rightarrow> Inl x
            | None \<Rightarrow> Inr \<lparr>s_factory = factory_new, m_acceptOp = async_init, s_canceled = False,
                s_infiniteTimeout = False, s_waiting = Nothing\<rparr>)))))"

definition accept_fire :: "result \<Rightarrow> tcp_connection option \<Rightarrow> 'h tcp_server \<Rightarrow> 'h tcp_server \<times> 'h user_out list" where
  "accept_fire r conn sv = (let (a, out) = fire_result (m_acceptOp sv) r conn in (sv\<lparr>m_acceptOp := a\<rparr>, out))"

definition on_accept_completed :: "errc \<Rightarrow> errc \<Rightarrow> errc \<Rightarrow> 'h tcp_server \<Rightarrow> 'h tcp_server \<times> 'h user_out list" where
  "on_accept_completed ec option_ec timer_ec sv = (
     if ec = No_Error then
       (if s_canceled sv then accept_fire (Err ERR_CANCELED) None sv
        else (sv\<lparr>s_factory := start_async_shake_hands option_ec (s_infiniteTimeout sv) timer_ec (s_factory sv)\<rparr>, []))
     else if ec = Operation_Aborted then accept_fire (Err ERR_CANCELED) None sv
     else accept_fire (Err ERR_ACCEPT_FAILED) None sv)"

fun server_shake_hands_completed :: "completion list \<Rightarrow> 'h tcp_server \<Rightarrow> 'h tcp_server \<times> 'h user_out list" where
  "server_shake_hands_completed [] sv = (sv, [])"
| "server_shake_hands_completed ((r, conn) # cs) sv = (let (sv1, out1) = accept_fire r conn sv;
     (sv2, out2) = server_shake_hands_completed cs sv1 in (sv2, out1 @ out2))"

definition async_accept :: "'h \<Rightarrow> bool \<Rightarrow> 'h tcp_server \<Rightarrow> api_error + 'h tcp_server" where
  "async_accept h infiniteTimeout sv = (case arm h (m_acceptOp sv) of
      Inl e \<Rightarrow> Inl e
    | Inr a \<Rightarrow> Inr (sv\<lparr>m_acceptOp := a, s_infiniteTimeout := infiniteTimeout, s_canceled := False, s_waiting := Accepting\<rparr>))"

definition cancel_accept :: "'h tcp_server \<Rightarrow> 'h tcp_server" where
  "cancel_accept sv = sv\<lparr>s_canceled := True, s_factory := cancel_shake_hands (s_factory sv)\<rparr>"

datatype 'h server_event = Async_Accept 'h bool | Accept_Completes errc errc errc | Server_Handshake factory_event | Cancel_Accept

fun server_event_ok :: "'h server_event \<Rightarrow> 'h tcp_server \<Rightarrow> bool" where
  "server_event_ok (Async_Accept h forever) sv = True"
| "server_event_ok (Accept_Completes ec option_ec timer_ec) sv = (s_waiting sv = Accepting)"
| "server_event_ok (Server_Handshake e) sv = (is_completion e \<and> factory_event_ok e (s_factory sv))"
| "server_event_ok Cancel_Accept sv = True"

fun server_do :: "string \<Rightarrow> 'h server_event \<Rightarrow> 'h tcp_server \<Rightarrow> ('h tcp_server \<times> 'h user_out list) option" where
  "server_do own (Async_Accept h forever) sv = (case async_accept h forever sv of Inl e \<Rightarrow> Some (sv, [Refused h e]) | Inr sv1 \<Rightarrow> Some (sv1, [Accepted h]))"
| "server_do own (Accept_Completes ec option_ec timer_ec) sv = Some (on_accept_completed ec option_ec timer_ec (sv\<lparr>s_waiting := Nothing\<rparr>))"
| "server_do own (Server_Handshake e) sv = do { (f, cs) \<leftarrow> factory_do own e (s_factory sv);
     Some (server_shake_hands_completed cs (sv\<lparr>s_factory := f\<rparr>)) }"
| "server_do own Cancel_Accept sv = Some (cancel_accept sv, [])"

section \<open>Accounts\<close>

text \<open>The handlers that were accepted, and those that were called.\<close>

fun accepted :: "'h user_out list \<Rightarrow> 'h list" where
  "accepted [] = []"
| "accepted (Accepted h # out) = h # accepted out"
| "accepted (_ # out) = accepted out"

fun called :: "'h user_out list \<Rightarrow> 'h list" where
  "called [] = []"
| "called (Called h r conn # out) = h # called out"
| "called (_ # out) = called out"

lemma accepted_append [simp]: "accepted (xs @ ys) = accepted xs @ accepted ys"
  by (induction xs rule: accepted.induct) simp_all

lemma called_append [simp]: "called (xs @ ys) = called xs @ called ys"
  by (induction xs rule: called.induct) simp_all

text \<open>An error comes without a connection, and OK with one.\<close>

definition outs_ok :: "'h user_out list \<Rightarrow> bool" where
  "outs_ok out \<longleftrightarrow> (\<forall>h r conn. Called h r conn \<in> set out \<longrightarrow> (r = OK \<longleftrightarrow> conn \<noteq> None))"

lemma outs_ok_append: "outs_ok []" "outs_ok xs \<Longrightarrow> outs_ok ys \<Longrightarrow> outs_ok (xs @ ys)"
  by (auto simp: outs_ok_def)

text \<open>For client and server, the operation is armed exactly while something is under way that will complete.\<close>

locale handler_owner = handler_accounts step event_ok operation consistent accepted called outs_ok
  for step :: "'e \<Rightarrow> 's \<Rightarrow> ('s \<times> 'o list) option"
    and event_ok :: "'e \<Rightarrow> 's \<Rightarrow> bool"
    and operation :: "'s \<Rightarrow> 'h async_op"
    and consistent :: "'s \<Rightarrow> bool"
    and accepted :: "'o list \<Rightarrow> 'h list"
    and called :: "'o list \<Rightarrow> 'h list"
    and outs_ok :: "'o list \<Rightarrow> bool" +
  fixes completes :: "'e \<Rightarrow> bool"
  assumes busy: "consistent s \<Longrightarrow> armed_list (operation s) \<noteq> [] \<longleftrightarrow> (\<exists>e. completes e \<and> event_ok e s)"
begin

lemma idle_or_busy:
  assumes "consistent s" "legal_events step event_ok es s" "armed_list (operation s) = []"
  shows "\<exists>s' out. run_events step es s = Some (s', out) \<and> outs_ok out \<and> consistent s' \<and>
    (called out = accepted out \<and> \<not> (\<exists>e. completes e \<and> event_ok e s') \<or>
     (\<exists>h. called out @ [h] = accepted out \<and> (\<exists>e. completes e \<and> event_ok e s')))"
proof -
  obtain s' out where r: "run_events step es s = Some (s', out)" "consistent s'" "called out @ armed_list (operation s') = accepted out" "outs_ok out"
    using run_ok[OF assms(1,2)] assms(3) by auto
  show ?thesis
  proof (cases "armed_list (operation s')")
    case Nil
    then show ?thesis using r busy[OF r(2)] by auto
  next
    case (Cons h hs)
    then have "hs = []" by (auto simp: armed_list_def split: option.splits)
    then show ?thesis using r busy[OF r(2)] Cons by auto
  qed
qed

end

section \<open>Client and server are owners of a handler\<close>

lemma fire_result_armed:
  "m_armedHandler a = Some h \<Longrightarrow> fire_result a r conn = (a\<lparr>m_armedHandler := None, m_runningOperations := m_runningOperations a - 1\<rparr>, [Called h r conn])"
  by (simp add: fire_result_def fire_def take_armed_handler_def finish_operation_def)

lemma ended_no_event: "ended f \<Longrightarrow> is_completion e \<Longrightarrow> \<not> factory_event_ok e f"
  by (cases e) (auto simp: ended_def is_completion_def)

text \<open>A step of the handshake, for an operation that is armed.\<close>

lemma handshake_step:
  assumes "shaking own f" "factory_event_ok e f"
  obtains f' where "factory_do own e f = Some (f', [])" "shaking own f'"
  | f' r conn where "factory_do own e f = Some (f', [(r, conn)])" "ended f'" "r = OK \<longleftrightarrow> conn \<noteq> None"
  using factory_do_ok[OF assms] by (force simp: completion_ok_def split: option.splits)

definition client_completes :: "'h client_event \<Rightarrow> bool" where
  "client_completes e = (case e of Async_Connect h forever \<Rightarrow> False | Cancel_Connect \<Rightarrow> False | _ \<Rightarrow> True)"

definition client_ok :: "string \<Rightarrow> 'h tcp_client \<Rightarrow> bool" where
  "client_ok own cl \<longleftrightarrow> (case m_armedHandler (m_connectOp cl) of
      None \<Rightarrow> c_waiting cl = Nothing \<and> ended (c_factory cl)
    | Some h \<Rightarrow> (c_waiting cl = Resolving \<or> c_waiting cl = Connecting) \<and> ended (c_factory cl) \<or>
        c_waiting cl = Nothing \<and> shaking own (c_factory cl))"

lemma ended_cancel: "ended f \<Longrightarrow> ended (cancel_shake_hands f)"
  by (simp add: ended_def cancel_shake_hands_def cancel_socket_def)

lemma shaking_cancel: "shaking own f \<Longrightarrow> shaking own (cancel_shake_hands f)"
  using factory_do_ok[of own f Cancel_Shake_Hands] by simp

lemma client_step_ok:
  assumes "client_ok own cl" "client_event_ok e cl"
  shows "\<exists>cl' out. client_do own e cl = Some (cl', out) \<and> client_ok own cl' \<and>
    called out @ armed_list (m_connectOp cl') = armed_list (m_connectOp cl) @ accepted out \<and> outs_ok out"
proof (cases e)
  case (Async_Connect h forever)
  then show ?thesis using assms(1)
    by (cases "m_armedHandler (m_connectOp cl)")
      (simp_all add: async_connect_def arm_def client_ok_def armed_list_def outs_ok_def)
next
  case (Resolve_Completes ec)
  then obtain h where "m_armedHandler (m_connectOp cl) = Some h" "ended (c_factory cl)"
    using assms by (cases "m_armedHandler (m_connectOp cl)") (auto simp: client_ok_def)
  then show ?thesis using Resolve_Completes
    by (simp add: on_resolve_completed_def start_async_connect_def connect_fire_def fire_result_armed client_ok_def armed_list_def outs_ok_def)
next
  case (Connect_Completes ec option_ec timer_ec)
  then obtain h where "m_armedHandler (m_connectOp cl) = Some h" "ended (c_factory cl)"
    using assms by (cases "m_armedHandler (m_connectOp cl)") (auto simp: client_ok_def)
  then show ?thesis using Connect_Completes
    by (simp add: on_connect_completed_def connect_fire_def fire_result_armed client_ok_def armed_list_def outs_ok_def shaking_start)
next
  case (Client_Handshake e')
  have ne: "\<not> ended (c_factory cl)" using assms(2) Client_Handshake ended_no_event by auto
  then obtain h where h: "m_armedHandler (m_connectOp cl) = Some h" "c_waiting cl = Nothing" "shaking own (c_factory cl)"
    using assms(1) by (auto simp: client_ok_def split: option.splits)
  have "factory_event_ok e' (c_factory cl)" using assms(2) Client_Handshake by simp
  with h(3) show ?thesis
    by (rule handshake_step) (use Client_Handshake h in \<open>simp_all add: connect_fire_def fire_result_armed client_ok_def armed_list_def outs_ok_def\<close>)
next
  case Cancel_Connect
  then show ?thesis using assms(1)
    by (auto simp: cancel_connect_def client_ok_def Let_def outs_ok_def ended_cancel shaking_cancel armed_list_def split: option.splits)
qed

lemma client_busy:
  assumes "client_ok own cl"
  shows "armed_list (m_connectOp cl) \<noteq> [] \<longleftrightarrow> (\<exists>e. client_completes e \<and> client_event_ok e cl)"
proof (cases "m_armedHandler (m_connectOp cl)")
  case None
  then have "\<not> client_event_ok e cl" if "client_completes e" for e
    using that assms ended_no_event[of "c_factory cl"] by (cases e) (auto simp: client_ok_def client_completes_def)
  then show ?thesis using None by (auto simp: armed_list_def)
next
  case (Some h)
  then consider "c_waiting cl = Resolving" | "c_waiting cl = Connecting" | "shaking own (c_factory cl)"
    using assms by (auto simp: client_ok_def)
  then have "\<exists>e. client_completes e \<and> client_event_ok e cl"
  proof cases
    case 1
    then show ?thesis by (intro exI[of _ "Resolve_Completes No_Error"]) (simp add: client_completes_def)
  next
    case 2
    then show ?thesis by (intro exI[of _ "Connect_Completes No_Error No_Error No_Error"]) (simp add: client_completes_def)
  next
    case 3
    obtain e where "is_completion e" "factory_event_ok e (c_factory cl)" using shaking_possible[OF 3] by blast
    then show ?thesis by (intro exI[of _ "Client_Handshake e"]) (simp add: client_completes_def)
  qed
  then show ?thesis using Some by (auto simp: armed_list_def)
qed

interpretation client_owner: handler_owner "client_do own" client_event_ok m_connectOp "client_ok own" accepted called outs_ok client_completes
  by unfold_locales (simp_all add: outs_ok_append client_step_ok client_busy)

definition server_completes :: "'h server_event \<Rightarrow> bool" where
  "server_completes e = (case e of Async_Accept h forever \<Rightarrow> False | Cancel_Accept \<Rightarrow> False | _ \<Rightarrow> True)"

definition server_ok :: "string \<Rightarrow> 'h tcp_server \<Rightarrow> bool" where
  "server_ok own sv \<longleftrightarrow> (case m_armedHandler (m_acceptOp sv) of
      None \<Rightarrow> s_waiting sv = Nothing \<and> ended (s_factory sv)
    | Some h \<Rightarrow> s_waiting sv = Accepting \<and> ended (s_factory sv) \<or> s_waiting sv = Nothing \<and> shaking own (s_factory sv))"

lemma server_step_ok:
  assumes "server_ok own sv" "server_event_ok e sv"
  shows "\<exists>sv' out. server_do own e sv = Some (sv', out) \<and> server_ok own sv' \<and>
    called out @ armed_list (m_acceptOp sv') = armed_list (m_acceptOp sv) @ accepted out \<and> outs_ok out"
proof (cases e)
  case (Async_Accept h forever)
  then show ?thesis using assms(1)
    by (cases "m_armedHandler (m_acceptOp sv)")
      (simp_all add: async_accept_def arm_def server_ok_def armed_list_def outs_ok_def)
next
  case (Accept_Completes ec option_ec timer_ec)
  then obtain h where "m_armedHandler (m_acceptOp sv) = Some h" "ended (s_factory sv)"
    using assms by (cases "m_armedHandler (m_acceptOp sv)") (auto simp: server_ok_def)
  then show ?thesis using Accept_Completes
    by (simp add: on_accept_completed_def accept_fire_def fire_result_armed server_ok_def armed_list_def outs_ok_def shaking_start)
next
  case (Server_Handshake e')
  have ne: "\<not> ended (s_factory sv)" using assms(2) Server_Handshake ended_no_event by auto
  then obtain h where h: "m_armedHandler (m_acceptOp sv) = Some h" "s_waiting sv = Nothing" "shaking own (s_factory sv)"
    using assms(1) by (auto simp: server_ok_def split: option.splits)
  have "factory_event_ok e' (s_factory sv)" using assms(2) Server_Handshake by simp
  with h(3) show ?thesis
    by (rule handshake_step) (use Server_Handshake h in \<open>simp_all add: accept_fire_def fire_result_armed server_ok_def armed_list_def outs_ok_def\<close>)
next
  case Cancel_Accept
  then show ?thesis using assms(1)
    by (auto simp: cancel_accept_def server_ok_def outs_ok_def ended_cancel shaking_cancel armed_list_def split: option.splits)
qed

lemma server_busy:
  assumes "server_ok own sv"
  shows "armed_list (m_acceptOp sv) \<noteq> [] \<longleftrightarrow> (\<exists>e. server_completes e \<and> server_event_ok e sv)"
proof (cases "m_armedHandler (m_acceptOp sv)")
  case None
  then have "\<not> server_event_ok e sv" if "server_completes e" for e
    using that assms ended_no_event[of "s_factory sv"] by (cases e) (auto simp: server_ok_def server_completes_def)
  then show ?thesis using None by (auto simp: armed_list_def)
next
  case (Some h)
  then consider "s_waiting sv = Accepting" | "shaking own (s_factory sv)" using assms by (auto simp: server_ok_def)
  then have "\<exists>e. server_completes e \<and> server_event_ok e sv"
  proof cases
    case 1
    then show ?thesis by (intro exI[of _ "Accept_Completes No_Error No_Error No_Error"]) (simp add: server_completes_def)
  next
    case 2
    obtain e where "is_completion e" "factory_event_ok e (s_factory sv)" using shaking_possible[OF 2] by blast
    then show ?thesis by (intro exI[of _ "Server_Handshake e"]) (simp add: server_completes_def)
  qed
  then show ?thesis using Some by (auto simp: armed_list_def)
qed

interpretation server_owner: handler_owner "server_do own" server_event_ok m_acceptOp "server_ok own" accepted called outs_ok server_completes
  by unfold_locales (simp_all add: outs_ok_append server_step_ok server_busy)

lemma new_ok:
  assumes "tcp_client_new ident = Inr cl"
  shows "client_ok own cl" "armed_list (m_connectOp cl) = []"
  using assms by (auto simp: tcp_client_new_def client_ok_def armed_list_def async_init_def ended_def factory_new_def split: sum.splits)

lemma new_server_ok:
  assumes "tcp_server_new ident address_ok port oec pec bec lec = Inr sv"
  shows "server_ok own sv" "armed_list (m_acceptOp sv) = []"
  using assms by (auto simp: tcp_server_new_def server_ok_def armed_list_def async_init_def ended_def factory_new_def split: sum.splits option.splits)

section \<open>Properties\<close>

text \<open>A client calls every handler it accepts exactly once and in order: after any interleaving of calls,
  cancellations and completions, all accepted handlers have been called and nothing is under way, or all but
  the last one have and something is under way.  A handler gets a connection exactly if its result is OK.\<close>

theorem connect_handlers_called_once:
  assumes "tcp_client_new ident = Inr cl" "legal_events (client_do own) client_event_ok es cl"
  shows "\<exists>cl' out. run_events (client_do own) es cl = Some (cl', out) \<and> outs_ok out \<and>
    (called out = accepted out \<and> \<not> (\<exists>e. client_completes e \<and> client_event_ok e cl') \<or>
     (\<exists>h. called out @ [h] = accepted out \<and> (\<exists>e. client_completes e \<and> client_event_ok e cl')))"
  using client_owner.idle_or_busy[OF new_ok(1)[OF assms(1)] assms(2) new_ok(2)[OF assms(1)]] by blast

text \<open>The same holds of a server and the handlers of \<^verbatim>\<open>async_accept\<close>.\<close>

theorem accept_handlers_called_once:
  assumes "tcp_server_new ident address_ok port oec pec bec lec = Inr sv" "legal_events (server_do own) server_event_ok es sv"
  shows "\<exists>sv' out. run_events (server_do own) es sv = Some (sv', out) \<and> outs_ok out \<and>
    (called out = accepted out \<and> \<not> (\<exists>e. server_completes e \<and> server_event_ok e sv') \<or>
     (\<exists>h. called out @ [h] = accepted out \<and> (\<exists>e. server_completes e \<and> server_event_ok e sv')))"
  using server_owner.idle_or_busy[OF new_server_ok(1)[OF assms(1)] assms(2) new_server_ok(2)[OF assms(1)]] by blast

section \<open>Examples\<close>

definition sample_client :: "nat tcp_client" where
  "sample_client = \<lparr>c_factory = factory_new, m_connectOp = async_init, c_canceled = False, m_shakingHands = False,
     c_infiniteTimeout = False, c_waiting = Nothing\<rparr>"

text \<open>A second call is refused while the first one is under way, and accepted after the refused connection.\<close>

definition sample_connects :: "nat client_event list" where
  "sample_connects = [Async_Connect 1 False, Async_Connect 2 False, Resolve_Completes No_Error,
     Connect_Completes Connection_Refused No_Error No_Error, Async_Connect 3 True, Resolve_Completes No_Error,
     Connect_Completes No_Error No_Error No_Error, Client_Handshake (Socket_Completes No_Error []), Cancel_Connect]"

lemma connect_handlers_called_once_witness:
  "\<exists>cl' out. run_events (client_do yogi_version) sample_connects sample_client = Some (cl', out) \<and> called out @ [3] = accepted out \<and>
    (\<exists>e. client_completes e \<and> client_event_ok e cl')"
proof -
  have n: "tcp_client_new [] = Inr sample_client" by (simp add: tcp_client_new_def make_identification_def sample_client_def)
  have l: "legal_events (client_do yogi_version) client_event_ok sample_connects sample_client" by code_simp
  have c: "map_option (\<lambda>x. called (snd x)) (run_events (client_do yogi_version) sample_connects sample_client) = Some [1]" by code_simp
  have a: "map_option (\<lambda>x. accepted (snd x)) (run_events (client_do yogi_version) sample_connects sample_client) = Some [1, 3]" by code_simp
  show ?thesis using connect_handlers_called_once[OF n l] c a by auto
qed

definition sample_server :: "nat tcp_server" where
  "sample_server = \<lparr>s_factory = factory_new, m_acceptOp = async_init, s_canceled = False, s_infiniteTimeout = False, s_waiting = Nothing\<rparr>"

definition sample_accepts :: "nat server_event list" where
  "sample_accepts = [Async_Accept 1 False, Cancel_Accept, Accept_Completes Operation_Aborted No_Error No_Error]"

lemma accept_handlers_called_once_witness:
  "\<exists>sv' out. run_events (server_do yogi_version) sample_accepts sample_server = Some (sv', out) \<and> called out = [1] \<and>
    \<not> (\<exists>e. server_completes e \<and> server_event_ok e sv')"
proof -
  have n: "tcp_server_new [] True 41772 No_Error No_Error No_Error No_Error = Inr sample_server"
    by (simp add: tcp_server_new_def make_identification_def make_endpoint_def open_acceptor_def bind_acceptor_def listen_on_acceptor_def sample_server_def)
  have l: "legal_events (server_do yogi_version) server_event_ok sample_accepts sample_server" by code_simp
  have c: "map_option (\<lambda>x. called (snd x)) (run_events (server_do yogi_version) sample_accepts sample_server) = Some [1]" by code_simp
  have a: "map_option (\<lambda>x. accepted (snd x)) (run_events (server_do yogi_version) sample_accepts sample_server) = Some [1]" by code_simp
  show ?thesis using accept_handlers_called_once[OF n l] c a by auto
qed

end
