(* ===== verification/Tcp_Connection.thy ===== *)
theory Tcp_Connection
  imports Tcp_Stream Tcp_Connect "HOL-Library.Sublist"
begin

text \<open>
  \<^verbatim>\<open>connections/tcp/TcpConnection\<close>: the life of a connection between the handshake and the end of its destructor:
  the exchange of the communicator types, reading and writing the socket, the posted deserialization,
  the timer with the heartbeats, death and \<^verbatim>\<open>async_await_death\<close>.

  Every completion handler runs under \<^verbatim>\<open>m_mutex\<close> or \<^verbatim>\<open>m_receiveMutex\<close> and is one step; only the
  deserialization takes data out of the ring while more arrives, so that its step says how much it has seen.  A
  \<^verbatim>\<open>send\<close> and a heartbeat that do not fit into the ring wait on the condition variable, which gives the mutex away: the calls go on
  in steps of their own, whenever the thread wakes up.
\<close>

section \<open>State\<close>

text \<open>\<^verbatim>\<open>64 * 1024 - 1\<close>\<close>

definition ring_capacity :: nat where
  "ring_capacity = 65535"

lemma ring_capacity_is: "ring_capacity = capacity (ring_init x)"
  by (simp add: ring_capacity_def capacity_def ring_init_def YOGI_RING_BUFFER_SIZE_def)

definition ring_fits :: "buffer \<Rightarrow> nat \<Rightarrow> bool" where
  "ring_fits bs n \<longleftrightarrow> length bs + n \<le> ring_capacity"

definition in_ring_full :: "buffer \<Rightarrow> bool" where
  "in_ring_full bs \<longleftrightarrow> length bs = ring_capacity"

text \<open>The same on integers, whose numerals are binary.\<close>

lemma ring_fits_code [code]: "ring_fits bs n \<longleftrightarrow> int (length bs) + int n \<le> 65535"
  by (auto simp: ring_fits_def ring_capacity_def)

definition ring_room :: "buffer \<Rightarrow> nat" where
  "ring_room bs = ring_capacity - length bs"

lemma in_ring_full_code [code]: "in_ring_full bs \<longleftrightarrow> int (length bs) = 65535"
  by (auto simp: in_ring_full_def ring_capacity_def)

lemma ring_room_code [code]: "ring_room bs = nat (65535 - int (length bs))"
  by (simp add: ring_room_def ring_capacity_def nat_diff_distrib)

datatype type_exchange = No_Exchange | Sending_Type | Receiving_Type

text \<open>
  Where a \<^verbatim>\<open>send\<close> waits: for room for the rest of the header, the message to follow, or for room for the rest
  of the message.
\<close>

datatype sender = Header_Waits buffer buffer | Message_Waits buffer

text \<open>How far the destructor has come.\<close>

datatype life = Living | Dying | Closing | Draining | Destroyed_Connection

datatype communicator_call = New_Connection | Connection_Started | Connection_Destroyed

text \<open>
  \<open>t_out\<close> and \<open>t_in\<close> are the contents of the two rings, \<open>t_rx\<close> the state of the deserialization.
  \<open>t_sender\<close> is the thread that waits in \<^verbatim>\<open>send\<close>, \<open>t_heartbeatWaits\<close> whether the timer handler waits in
  \<^verbatim>\<open>send_heartbeat\<close>.  The components from \<open>p_type\<close> on are what boost::asio has been asked for, the last ones history: the bytes
  put into the socket and received from it after the communicator type, the payloads forwarded, and the
  calls of the communicator.
\<close>

record 'h tcp =
  m_communicator :: bool
  m_alive :: bool
  m_ready :: bool
  m_remoteIsNode :: bool
  m_awaitDeathOp :: "'h async_op"
  t_out :: buffer
  t_in :: buffer
  t_rx :: rx
  t_sender :: "sender option"
  t_heartbeatWaits :: bool
  m_preMessagingRunning :: bool
  m_sendSomeDataRunning :: bool
  m_recvSomeDataRunning :: bool
  m_deserializeRunning :: bool
  m_timerRunning :: bool
  m_heartbeatsSinceLastReceive :: nat
  m_heartbeatsSinceLastSend :: nat
  t_life :: life
  p_type :: type_exchange
  p_send :: bool
  p_recv :: bool
  p_deserialize :: bool
  p_timer :: bool
  p_timerCanceled :: bool
  t_wire :: buffer
  t_received :: buffer
  t_forwarded :: "buffer list"
  t_calls :: "communicator_call list"

definition tcp_new :: "'h tcp" where
  "tcp_new = \<lparr>m_communicator = False, m_alive = True, m_ready = False, m_remoteIsNode = False, m_awaitDeathOp = async_init,
     t_out = [], t_in = [], t_rx = rx_init, t_sender = None, t_heartbeatWaits = False, m_preMessagingRunning = False, m_sendSomeDataRunning = False,
     m_recvSomeDataRunning = False, m_deserializeRunning = False, m_timerRunning = False, m_heartbeatsSinceLastReceive = 0,
     m_heartbeatsSinceLastSend = 0, t_life = Living, p_type = No_Exchange, p_send = False, p_recv = False, p_deserialize = False,
     p_timer = False, p_timerCanceled = False, t_wire = [], t_received = [], t_forwarded = [], t_calls = []\<rparr>"

text \<open>What the user sees: calls of \<^verbatim>\<open>async_await_death\<close> and of its handlers.\<close>

type_synonym 'h tcp_result = "('h tcp \<times> 'h user_out list) option"

definition fire_death :: "api_error \<Rightarrow> 'h tcp \<Rightarrow> 'h tcp \<times> 'h user_out list" where
  "fire_death e t = (let (a, out) = fire_result (m_awaitDeathOp t) (Err e) None in (t\<lparr>m_awaitDeathOp := a\<rparr>, out))"

section \<open>Operations\<close>

text \<open>The argument \<^verbatim>\<open>runningFlag\<close> of \<^verbatim>\<open>die\<close> and \<^verbatim>\<open>done\<close>.\<close>

datatype running_flag = Pre_Messaging | Send_Some_Data | Recv_Some_Data | Timer

fun get_flag :: "running_flag \<Rightarrow> 'h tcp \<Rightarrow> bool" where
  "get_flag Pre_Messaging t = m_preMessagingRunning t"
| "get_flag Send_Some_Data t = m_sendSomeDataRunning t"
| "get_flag Recv_Some_Data t = m_recvSomeDataRunning t"
| "get_flag Timer t = m_timerRunning t"

fun clear_flag :: "running_flag \<Rightarrow> 'h tcp \<Rightarrow> 'h tcp" where
  "clear_flag Pre_Messaging t = t\<lparr>m_preMessagingRunning := False\<rparr>"
| "clear_flag Send_Some_Data t = t\<lparr>m_sendSomeDataRunning := False\<rparr>"
| "clear_flag Recv_Some_Data t = t\<lparr>m_recvSomeDataRunning := False\<rparr>"
| "clear_flag Timer t = t\<lparr>m_timerRunning := False\<rparr>"

text \<open>\<open>eof\<close> is whether the error is the end of the stream.\<close>

definition die :: "bool \<Rightarrow> running_flag \<Rightarrow> 'h tcp \<Rightarrow> 'h tcp \<times> 'h user_out list" where
  "die eof f t = (let t1 = clear_flag f t in
     if m_alive t1 then fire_death (if eof then ERR_CONNECTION_CLOSED else ERR_SOCKET_BROKEN) (t1\<lparr>m_alive := False\<rparr>) else (t1, []))"

definition tcp_done :: "running_flag \<Rightarrow> 'h tcp \<Rightarrow> 'h tcp option" where
  "tcp_done f t = do { yassert (get_flag f t); Some (clear_flag f t) }"

definition start_send_communicator_type :: "bool \<Rightarrow> 'h tcp \<Rightarrow> 'h tcp" where
  "start_send_communicator_type is_node t = t\<lparr>p_type := Sending_Type, t_wire := t_wire t @ [if is_node then 1 else 0],
     m_preMessagingRunning := True\<rparr>"

definition start_receive_communicator_type :: "'h tcp \<Rightarrow> 'h tcp" where
  "start_receive_communicator_type t = t\<lparr>p_type := Receiving_Type\<rparr>"

text \<open>The outcome of an operation of the socket.\<close>

datatype outcome = Success | Eof | Failure

definition on_send_communicator_type_completed :: "outcome \<Rightarrow> 'h tcp \<Rightarrow> 'h tcp_result" where
  "on_send_communicator_type_completed ec t = (if ec = Success then Some (start_receive_communicator_type t, [])
     else Some (die (ec = Eof) Pre_Messaging t))"

definition start_async_receive_some_data :: "'h tcp \<Rightarrow> 'h tcp" where
  "start_async_receive_some_data t = (if m_recvSomeDataRunning t then t else t\<lparr>p_recv := True, m_recvSomeDataRunning := True\<rparr>)"

definition call_communicator :: "communicator_call \<Rightarrow> 'h tcp \<Rightarrow> 'h tcp" where
  "call_communicator c t = (if m_communicator t then t\<lparr>t_calls := t_calls t @ [c]\<rparr> else t)"

definition on_receive_communicator_type_completed :: "outcome \<Rightarrow> byte \<Rightarrow> 'h tcp \<Rightarrow> 'h tcp_result" where
  "on_receive_communicator_type_completed ec b t = (if ec = Success then do {
       let t1 = start_async_receive_some_data (call_communicator Connection_Started (t\<lparr>m_remoteIsNode := (b \<noteq> 0), m_ready := True\<rparr>));
       t2 \<leftarrow> tcp_done Pre_Messaging t1;
       Some (t2, []) }
     else Some (die (ec = Eof) Pre_Messaging t))"

text \<open>The scheduler is that of the communicator.\<close>

definition start_async_deserialization :: "'h tcp \<Rightarrow> 'h tcp option" where
  "start_async_deserialization t = (if m_deserializeRunning t \<or> \<not> m_alive t then Some t
     else do { yassert (m_communicator t); Some (t\<lparr>p_deserialize := True, m_deserializeRunning := True\<rparr>) })"

definition on_receive_some_data_completed :: "outcome \<Rightarrow> buffer \<Rightarrow> 'h tcp \<Rightarrow> 'h tcp_result" where
  "on_receive_some_data_completed ec bs t = (if ec = Success then do {
       yassert (ring_fits (t_in t) (length bs));
       t1 \<leftarrow> start_async_deserialization (t\<lparr>m_heartbeatsSinceLastReceive := 0, t_in := t_in t @ bs, t_received := t_received t @ bs\<rparr>);
       if in_ring_full (t_in t1) then do { t2 \<leftarrow> tcp_done Recv_Some_Data t1; Some (t2, []) }
       else Some (start_async_receive_some_data (clear_flag Recv_Some_Data t1), []) }
     else Some (die (ec = Eof) Recv_Some_Data t))"

definition start_async_send_some_data :: "'h tcp \<Rightarrow> 'h tcp" where
  "start_async_send_some_data t = (if m_sendSomeDataRunning t then t else t\<lparr>p_send := True, m_sendSomeDataRunning := True\<rparr>)"

definition on_send_some_data_completed :: "outcome \<Rightarrow> nat \<Rightarrow> 'h tcp \<Rightarrow> 'h tcp_result" where
  "on_send_some_data_completed ec n t = (if ec = Success then do {
       yassert (n \<le> length (t_out t));
       let t1 = t\<lparr>m_heartbeatsSinceLastSend := 0, t_wire := t_wire t @ take n (t_out t), t_out := drop n (t_out t)\<rparr>;
       if t_out t1 = [] then do { t2 \<leftarrow> tcp_done Send_Some_Data t1; Some (t2, []) }
       else Some (start_async_send_some_data (clear_flag Send_Some_Data t1), []) }
     else Some (die (ec = Eof) Send_Some_Data t))"

text \<open>The payloads of a dead connection are dropped.\<close>

definition wait_for_more_data_to_deserialize :: "'h tcp \<Rightarrow> 'h tcp option" where
  "wait_for_more_data_to_deserialize t = (let t1 = (start_async_receive_some_data t)\<lparr>m_deserializeRunning := False\<rparr> in
     if t_in t1 \<noteq> [] then start_async_deserialization t1 else Some t1)"

definition tcp_deserialize :: "nat \<Rightarrow> 'h tcp \<Rightarrow> 'h tcp_result" where
  "tcp_deserialize n t = (let (rx, ps) = rx_deserialize (t_rx t) (take n (t_in t)) in do {
     yassert (m_alive t \<and> ps \<noteq> [] \<longrightarrow> m_communicator t);
     t1 \<leftarrow> wait_for_more_data_to_deserialize (t\<lparr>t_rx := rx, t_in := drop n (t_in t),
       t_forwarded := t_forwarded t @ (if m_alive t then ps else [])\<rparr>);
     Some (t1, []) })"

definition start_async_wait :: "'h tcp \<Rightarrow> 'h tcp" where
  "start_async_wait t = (if m_timerRunning t then t else t\<lparr>p_timer := True, m_timerRunning := True\<rparr>)"

section \<open>Sending\<close>

text \<open>\<^verbatim>\<open>m_outBuffer.write\<close> takes as much as fits.\<close>

definition out_write :: "buffer \<Rightarrow> 'h tcp \<Rightarrow> nat \<times> 'h tcp" where
  "out_write bs t = (if ring_fits (t_out t) (length bs) then (length bs, t\<lparr>t_out := t_out t @ bs\<rparr>)
     else (let n = ring_room (t_out t) in (n, t\<lparr>t_out := t_out t @ take n bs\<rparr>)))"

text \<open>The predicate of the waits.  It writes, but the iterator \<open>rest\<close> stays where it is.\<close>

definition wait_over :: "buffer \<Rightarrow> 'h tcp \<Rightarrow> bool \<times> 'h tcp" where
  "wait_over rest t = (if \<not> m_alive t then (True, t) else (let (n, t1) = out_write rest t in (n = length rest, t1)))"

definition message_wait :: "buffer \<Rightarrow> 'h tcp \<Rightarrow> 'h tcp" where
  "message_wait rest t = (let (over, t1) = wait_over rest t in t1\<lparr>t_sender := (if over then None else Some (Message_Waits rest))\<rparr>)"

definition send_message :: "buffer \<Rightarrow> 'h tcp \<Rightarrow> 'h tcp" where
  "send_message msg t = (let (n, t1) = out_write msg t in message_wait (drop n msg) (start_async_send_some_data t1))"

definition header_wait :: "buffer \<Rightarrow> buffer \<Rightarrow> 'h tcp \<Rightarrow> 'h tcp" where
  "header_wait rest msg t = (let (over, t1) = wait_over rest t in
     if over then send_message msg t1 else t1\<lparr>t_sender := Some (Header_Waits rest msg)\<rparr>)"

text \<open>\<^verbatim>\<open>send\<close> of a message with its serialized header, and a waiting \<^verbatim>\<open>send\<close> that wakes up.\<close>

definition send_frame :: "buffer \<Rightarrow> buffer \<Rightarrow> 'h tcp \<Rightarrow> 'h tcp" where
  "send_frame hdr msg t = (if \<not> m_alive t then t else (let (n, t1) = out_write hdr t in
     header_wait (drop n hdr) msg (if n \<noteq> length hdr then start_async_send_some_data t1 else t1)))"

definition wake_sender :: "'h tcp \<Rightarrow> 'h tcp" where
  "wake_sender t = (case t_sender t of None \<Rightarrow> t
     | Some (Header_Waits rest msg) \<Rightarrow> header_wait rest msg t
     | Some (Message_Waits rest) \<Rightarrow> message_wait rest t)"

definition heartbeat_wait :: "buffer \<Rightarrow> 'h tcp \<Rightarrow> 'h tcp" where
  "heartbeat_wait rest t = (let (over, t1) = wait_over rest t in t1\<lparr>t_heartbeatWaits := \<not> over\<rparr>)"

definition tcp_send_heartbeat :: "'h tcp \<Rightarrow> 'h tcp" where
  "tcp_send_heartbeat t = (let (n, t1) = out_write heartbeat t in heartbeat_wait (drop n heartbeat) (start_async_send_some_data t1))"

section \<open>The timer\<close>

text \<open>The end of \<^verbatim>\<open>on_timeout\<close> comes when the heartbeat is in the ring.\<close>

definition timer_again :: "'h tcp \<Rightarrow> 'h tcp" where
  "timer_again t = (if t_heartbeatWaits t then t else start_async_wait (clear_flag Timer t))"

definition tcp_on_timeout :: "errc \<Rightarrow> 'h tcp \<Rightarrow> 'h tcp_result" where
  "tcp_on_timeout ec t = (
     if ec = No_Error then
       if m_heartbeatsSinceLastReceive t \<ge> 3 then do {
         let (t1, out) = fire_death ERR_TIMEOUT (t\<lparr>m_alive := False\<rparr>);
         t2 \<leftarrow> tcp_done Timer t1;
         Some (t2, out) }
       else if m_alive t then
         (let t1 = t\<lparr>m_heartbeatsSinceLastReceive := Suc (m_heartbeatsSinceLastReceive t)\<rparr>;
              t2 = (if m_heartbeatsSinceLastSend t1 \<ge> 1 then tcp_send_heartbeat t1
                else t1\<lparr>m_heartbeatsSinceLastSend := Suc (m_heartbeatsSinceLastSend t1)\<rparr>)
          in Some (timer_again t2, []))
       else do { t2 \<leftarrow> tcp_done Timer t; Some (t2, []) }
     else do {
       let (t1, out) = (if ec = Operation_Aborted then fire_death ERR_CANCELED t else (t, []));
       t2 \<leftarrow> tcp_done Timer t1;
       Some (t2, out) })"

text \<open>
  A waiting heartbeat wakes up; it waits with nothing written, for it is one byte.
\<close>

definition wake_heartbeat :: "'h tcp \<Rightarrow> 'h tcp" where
  "wake_heartbeat t = timer_again (heartbeat_wait heartbeat t)"

section \<open>Calls of the user\<close>

text \<open>
  The timeout in milliseconds, \<open>None\<close> for the greatest one; \<open>accepts\<close> is the result of
  \<^verbatim>\<open>on_new_connection\<close>.  An exception leaves what has been done until then.
\<close>

definition assign :: "bool \<Rightarrow> api_error option \<Rightarrow> nat option \<Rightarrow> 'h tcp \<Rightarrow> 'h tcp \<times> api_error option" where
  "assign is_node accepts timeout t = (
     if m_communicator t then (t, Some ERR_ALREADY_ASSIGNED)
     else if \<not> m_alive t then (t, Some ERR_CONNECTION_DEAD)
     else if (case timeout of None \<Rightarrow> False | Some ms \<Rightarrow> ms div 3 = 0) then (t, Some ERR_INVALID_PARAM)
     else (let t1 = (if timeout \<noteq> None then start_async_wait t else t) in
       case accepts of
         Some e \<Rightarrow> (t1, Some e)
       | None \<Rightarrow> (start_send_communicator_type is_node (call_communicator New_Connection (t1\<lparr>m_communicator := True\<rparr>)), None)))"

definition async_await_death :: "'h \<Rightarrow> 'h tcp \<Rightarrow> api_error + 'h tcp" where
  "async_await_death h t = (if \<not> m_alive t then Inl ERR_CONNECTION_DEAD
     else (case arm h (m_awaitDeathOp t) of Inl e \<Rightarrow> Inl e | Inr a \<Rightarrow> Inr (t\<lparr>m_awaitDeathOp := a\<rparr>)))"

definition cancel_await_death :: "'h tcp \<Rightarrow> 'h tcp \<times> 'h user_out list" where
  "cancel_await_death t = fire_death ERR_CANCELED t"

definition tcp_remote_is_node :: "'h tcp \<Rightarrow> api_error + bool" where
  "tcp_remote_is_node t = (if \<not> m_ready t then Inl ERR_NOT_READY else Inr (m_remoteIsNode t))"

text \<open>The destructor, block by block: it waits for the flags twice.\<close>

definition destroy_begin :: "'h tcp \<Rightarrow> 'h tcp" where
  "destroy_begin t = (call_communicator Connection_Destroyed (t\<lparr>m_alive := False\<rparr>))\<lparr>m_communicator := False, t_life := Dying\<rparr>"

definition destroy_close :: "'h tcp \<Rightarrow> 'h tcp \<times> 'h user_out list" where
  "destroy_close t = cancel_await_death (t\<lparr>p_timerCanceled := p_timer t, t_life := Closing\<rparr>)"

definition destroy_wait :: "'h tcp \<Rightarrow> 'h tcp" where
  "destroy_wait t = (case t_life t of
      Closing \<Rightarrow> if \<not> m_preMessagingRunning t \<and> \<not> m_sendSomeDataRunning t \<and> \<not> m_timerRunning t then t\<lparr>t_life := Draining\<rparr> else t
    | Draining \<Rightarrow> if \<not> m_recvSomeDataRunning t \<and> \<not> m_deserializeRunning t then t\<lparr>t_life := Destroyed_Connection\<rparr> else t
    | _ \<Rightarrow> t)"

section \<open>Events\<close>

datatype 'h tcp_event = Assign bool "api_error option" "nat option" | Await_Death 'h | Cancel_Await_Death | Send_Frame buffer buffer
  | Wake_Sender | Wake_Heartbeat
  | Type_Sent outcome | Type_Received outcome byte | Data_Received outcome buffer | Data_Sent outcome nat
  | Deserialize nat | Tick errc | Destroy_Begin | Destroy_Close | Destroy_Wait

text \<open>
  The user does not touch the object once it is being destroyed.  Data that arrives fits into the free
  part of the ring that was handed to the socket; a timer fails only when it was cancelled.  A thread that waits may wake up
  at any time.  While one waits in \<^verbatim>\<open>send\<close>, its iterator points into \<^verbatim>\<open>m_tmpHeaderBuffer\<close> or \<^verbatim>\<open>m_tmpMsgBuffer\<close>, which another
  \<^verbatim>\<open>send\<close> would clear: what happens then is undefined in C++.  The destructor calls \<^verbatim>\<open>on_connection_destroyed\<close> of the
  communicator before it goes on, which waits for the threads of the communicator that send.
\<close>

fun tcp_event_ok :: "'h tcp_event \<Rightarrow> 'h tcp \<Rightarrow> bool" where
  "tcp_event_ok (Assign nd acc tm) t = (t_life t = Living)"
| "tcp_event_ok (Await_Death h) t = (t_life t = Living)"
| "tcp_event_ok Cancel_Await_Death t = (t_life t = Living)"
| "tcp_event_ok (Send_Frame hdr msg) t = (m_communicator t \<and> hdr \<noteq> [] \<and> (m_alive t \<longrightarrow> t_sender t = None))"
| "tcp_event_ok Wake_Sender t = (t_sender t \<noteq> None)"
| "tcp_event_ok Wake_Heartbeat t = t_heartbeatWaits t"
| "tcp_event_ok (Type_Sent ec) t = (p_type t = Sending_Type)"
| "tcp_event_ok (Type_Received ec b) t = (p_type t = Receiving_Type)"
| "tcp_event_ok (Data_Received ec bs) t = (p_recv t \<and> ring_fits (t_in t) (length bs))"
| "tcp_event_ok (Data_Sent ec n) t = (p_send t \<and> n \<le> length (t_out t))"
| "tcp_event_ok (Deserialize n) t = (p_deserialize t \<and> n \<le> length (t_in t))"
| "tcp_event_ok (Tick ec) t = (p_timer t \<and> (ec = No_Error \<or> p_timerCanceled t))"
| "tcp_event_ok Destroy_Begin t = (t_life t = Living)"
| "tcp_event_ok Destroy_Close t = (t_life t = Dying \<and> t_sender t = None)"
| "tcp_event_ok Destroy_Wait t = (t_life t = Closing \<or> t_life t = Draining)"

fun tcp_do :: "'h tcp_event \<Rightarrow> 'h tcp \<Rightarrow> 'h tcp_result" where
  "tcp_do (Assign nd acc tm) t = Some (fst (assign nd acc tm t), [])"
| "tcp_do (Await_Death h) t = (case async_await_death h t of Inl e \<Rightarrow> Some (t, [Refused h e]) | Inr t1 \<Rightarrow> Some (t1, [Accepted h]))"
| "tcp_do Cancel_Await_Death t = Some (cancel_await_death t)"
| "tcp_do (Send_Frame hdr msg) t = Some (send_frame hdr msg t, [])"
| "tcp_do Wake_Sender t = Some (wake_sender t, [])"
| "tcp_do Wake_Heartbeat t = Some (wake_heartbeat t, [])"
| "tcp_do (Type_Sent ec) t = on_send_communicator_type_completed ec (t\<lparr>p_type := No_Exchange\<rparr>)"
| "tcp_do (Type_Received ec b) t = on_receive_communicator_type_completed ec b (t\<lparr>p_type := No_Exchange\<rparr>)"
| "tcp_do (Data_Received ec bs) t = on_receive_some_data_completed ec bs (t\<lparr>p_recv := False\<rparr>)"
| "tcp_do (Data_Sent ec n) t = on_send_some_data_completed ec n (t\<lparr>p_send := False\<rparr>)"
| "tcp_do (Deserialize n) t = tcp_deserialize n (t\<lparr>p_deserialize := False\<rparr>)"
| "tcp_do (Tick ec) t = tcp_on_timeout ec (t\<lparr>p_timer := False\<rparr>)"
| "tcp_do Destroy_Begin t = Some (destroy_begin t, [])"
| "tcp_do Destroy_Close t = Some (destroy_close t)"
| "tcp_do Destroy_Wait t = Some (destroy_wait t, [])"

section \<open>Invariant\<close>

text \<open>
  Every flag tells whether the operation is under way, that of the timer also when its handler waits; a connection that is dead, except at the beginning
  of the destructor, has no handler left that waits for its death.
\<close>

definition flags_ok :: "'h tcp \<Rightarrow> bool" where
  "flags_ok t \<longleftrightarrow> (m_preMessagingRunning t \<longleftrightarrow> p_type t \<noteq> No_Exchange) \<and> (m_sendSomeDataRunning t \<longleftrightarrow> p_send t) \<and>
     (m_recvSomeDataRunning t \<longleftrightarrow> p_recv t) \<and> (m_deserializeRunning t \<longleftrightarrow> p_deserialize t) \<and> (m_timerRunning t \<longleftrightarrow> p_timer t \<or> t_heartbeatWaits t) \<and>
     \<not> (p_timer t \<and> t_heartbeatWaits t)"

definition life_ok :: "'h tcp \<Rightarrow> bool" where
  "life_ok t \<longleftrightarrow> (m_alive t \<and> (p_type t \<noteq> No_Exchange \<or> p_recv t \<or> p_deserialize t) \<longrightarrow> m_communicator t) \<and>
     (t_life t \<noteq> Living \<longrightarrow> \<not> m_alive t \<and> \<not> m_communicator t) \<and> (\<not> m_alive t \<and> t_life t \<noteq> Dying \<longrightarrow> \<not> armed (m_awaitDeathOp t)) \<and>
     (t_life t = Draining \<or> t_life t = Destroyed_Connection \<longrightarrow>
       p_type t = No_Exchange \<and> \<not> p_send t \<and> \<not> p_timer t \<and> \<not> t_heartbeatWaits t) \<and>
     (t_life t \<noteq> Living \<and> t_life t \<noteq> Dying \<longrightarrow> t_sender t = None) \<and>
     (t_life t = Destroyed_Connection \<longrightarrow> \<not> p_recv t \<and> \<not> p_deserialize t)"

lemma out_write_eq:
  "length (t_out t) \<le> ring_capacity \<Longrightarrow> out_write bs t =
    (let n = min (length bs) (ring_room (t_out t)) in (n, t\<lparr>t_out := t_out t @ take n bs\<rparr>))"
  by (auto simp: out_write_def ring_fits_def ring_room_def Let_def min_def)

lemma heartbeat_wait_eq:
  "heartbeat_wait heartbeat t = (if \<not> m_alive t then t\<lparr>t_heartbeatWaits := False\<rparr>
     else if length (t_out t) < ring_capacity then t\<lparr>t_out := t_out t @ [0], t_heartbeatWaits := False\<rparr>
     else t\<lparr>t_heartbeatWaits := True\<rparr>)"
  by (auto simp: heartbeat_wait_def wait_over_def out_write_def ring_fits_def ring_room_def heartbeat_def Let_def)

lemma wake_heartbeat_eq: "wake_heartbeat t = (let t1 =
    (if \<not> m_alive t then t\<lparr>t_heartbeatWaits := False\<rparr>
     else if length (t_out t) < ring_capacity then t\<lparr>t_out := t_out t @ [0], t_heartbeatWaits := False\<rparr>
     else t\<lparr>t_heartbeatWaits := True\<rparr>)
    in if t_heartbeatWaits t1 then t1 else start_async_wait (clear_flag Timer t1))"
  by (simp add: wake_heartbeat_def timer_again_def heartbeat_wait_eq Let_def)

lemma tcp_send_heartbeat_alive:
  "m_alive t \<Longrightarrow> tcp_send_heartbeat t = (let t1 = start_async_send_some_data t in
     if length (t_out t) < ring_capacity then t1\<lparr>t_out := t_out t @ [0], t_heartbeatWaits := False\<rparr>
     else t1\<lparr>t_heartbeatWaits := True\<rparr>)"
  by (simp add: tcp_send_heartbeat_def heartbeat_wait_def wait_over_def out_write_def ring_fits_def ring_room_def heartbeat_def
      start_async_send_some_data_def Let_def)

text \<open>What a \<^verbatim>\<open>send\<close> changes.\<close>

definition sent_from :: "'h tcp \<Rightarrow> 'h tcp \<Rightarrow> bool" where
  "sent_from t t' \<longleftrightarrow> 
     t = t'\<lparr>t_out := t_out t, t_sender := t_sender t, p_send := p_send t, m_sendSomeDataRunning := m_sendSomeDataRunning t\<rparr> \<and>
     (length (t_out t) \<le> ring_capacity \<longrightarrow> length (t_out t') \<le> ring_capacity) \<and>
     ((m_sendSomeDataRunning t \<longleftrightarrow> p_send t) \<longrightarrow> (m_sendSomeDataRunning t' \<longleftrightarrow> p_send t'))"

lemma sent_from_trans:
  assumes "sent_from t t'" "sent_from t' t''"
  shows "sent_from t t''"
proof -
  have "t = t'\<lparr>t_out := t_out t, t_sender := t_sender t, p_send := p_send t, m_sendSomeDataRunning := m_sendSomeDataRunning t\<rparr>"
    "t' = t''\<lparr>t_out := t_out t', t_sender := t_sender t', p_send := p_send t', m_sendSomeDataRunning := m_sendSomeDataRunning t'\<rparr>"
    using assms unfolding sent_from_def by blast+
  then have "t = (t''\<lparr>t_out := t_out t', t_sender := t_sender t', p_send := p_send t', m_sendSomeDataRunning := m_sendSomeDataRunning t'\<rparr>)
      \<lparr>t_out := t_out t, t_sender := t_sender t, p_send := p_send t, m_sendSomeDataRunning := m_sendSomeDataRunning t\<rparr>" by metis
  then have "t = t''\<lparr>t_out := t_out t, t_sender := t_sender t, p_send := p_send t, m_sendSomeDataRunning := m_sendSomeDataRunning t\<rparr>"
    by simp
  then show ?thesis using assms unfolding sent_from_def by blast
qed

lemma sent_from_steps:
  "sent_from t t" "sent_from t (start_async_send_some_data t)" "sent_from t (snd (out_write bs t))" "sent_from t (t\<lparr>t_sender := s\<rparr>)"
  by (simp_all add: sent_from_def start_async_send_some_data_def out_write_def ring_fits_def ring_room_def Let_def)

lemma sent_from_waits:
  "sent_from t (snd (wait_over rest t))" "sent_from t (message_wait rest t)" "sent_from t (send_message msg t)"
  "sent_from t (header_wait rest msg t)" "sent_from t (send_frame hdr msg t)" "sent_from t (wake_sender t)"
proof -
  have w: "sent_from t (snd (wait_over rest t))" for rest and t :: "'a tcp"
    using sent_from_steps(3)[of t rest] sent_from_steps(1)[of t] by (auto simp: wait_over_def split: prod.splits)
  have m: "sent_from t (message_wait rest t)" for rest and t :: "'a tcp"
    using sent_from_trans[OF w sent_from_steps(4)] by (simp add: message_wait_def case_prod_unfold Let_def)
  have s: "sent_from t (send_message msg t)" for msg and t :: "'a tcp"
    using sent_from_trans[OF sent_from_steps(3) sent_from_trans[OF sent_from_steps(2) m]] by (simp add: send_message_def case_prod_unfold Let_def)
  have h: "sent_from t (header_wait rest msg t)" for rest msg and t :: "'a tcp"
    using sent_from_trans[OF w s] sent_from_trans[OF w sent_from_steps(4)] by (simp add: header_wait_def case_prod_unfold Let_def)
  show "sent_from t (snd (wait_over rest t))" "sent_from t (message_wait rest t)" "sent_from t (send_message msg t)"
    "sent_from t (header_wait rest msg t)" by (rule w m s h)+
  show "sent_from t (send_frame hdr msg t)"
    using sent_from_trans[OF sent_from_steps(3) h] sent_from_trans[OF sent_from_steps(3) sent_from_trans[OF sent_from_steps(2) h]]
      sent_from_steps(1)[of t] by (simp add: send_frame_def case_prod_unfold Let_def)
  show "sent_from t (wake_sender t)" using m h sent_from_steps(1) by (auto simp: wake_sender_def split: option.split sender.split)
qed

lemma sent_from_keeps:
  assumes "sent_from t t'"
  shows "m_communicator t' = m_communicator t" "m_alive t' = m_alive t" "m_awaitDeathOp t' = m_awaitDeathOp t" "t_in t' = t_in t"
    "t_rx t' = t_rx t" "t_received t' = t_received t" "t_forwarded t' = t_forwarded t" "t_life t' = t_life t"
    "m_heartbeatsSinceLastReceive t' = m_heartbeatsSinceLastReceive t" "m_heartbeatsSinceLastSend t' = m_heartbeatsSinceLastSend t"
    "p_timer t' = p_timer t" "t_heartbeatWaits t' = t_heartbeatWaits t" "p_type t' = p_type t" "p_recv t' = p_recv t"
    "p_deserialize t' = p_deserialize t" "m_preMessagingRunning t' = m_preMessagingRunning t"
    "m_recvSomeDataRunning t' = m_recvSomeDataRunning t" "m_deserializeRunning t' = m_deserializeRunning t"
    "m_timerRunning t' = m_timerRunning t"
proof -
  have e: "t = t'\<lparr>t_out := t_out t, t_sender := t_sender t, p_send := p_send t, m_sendSomeDataRunning := m_sendSomeDataRunning t\<rparr>"
    using assms unfolding sent_from_def by blast
  have "f t' = f t" if "\<And>bs s p m. f (t'\<lparr>t_out := bs, t_sender := s, p_send := p, m_sendSomeDataRunning := m\<rparr>) = f t'" for f :: "'a tcp \<Rightarrow> 'z"
    using that e by metis
  note k = this
  show "m_communicator t' = m_communicator t" "m_alive t' = m_alive t" "m_awaitDeathOp t' = m_awaitDeathOp t" "t_in t' = t_in t"
    "t_rx t' = t_rx t" "t_received t' = t_received t" "t_forwarded t' = t_forwarded t" "t_life t' = t_life t"
    "m_heartbeatsSinceLastReceive t' = m_heartbeatsSinceLastReceive t" "m_heartbeatsSinceLastSend t' = m_heartbeatsSinceLastSend t"
    "p_timer t' = p_timer t" "t_heartbeatWaits t' = t_heartbeatWaits t" "p_type t' = p_type t" "p_recv t' = p_recv t"
    "p_deserialize t' = p_deserialize t" "m_preMessagingRunning t' = m_preMessagingRunning t"
    "m_recvSomeDataRunning t' = m_recvSomeDataRunning t" "m_deserializeRunning t' = m_deserializeRunning t"
    "m_timerRunning t' = m_timerRunning t"
    by (rule k, simp)+
qed

text \<open>Nothing gets into a full ring.\<close>

lemma send_full:
  assumes "length (t_out t) = ring_capacity"
  shows "length (t_out (send_frame hdr msg t)) = ring_capacity" "length (t_out (wake_sender t)) = ring_capacity"
proof -
  have w: "t_out (snd (out_write bs u)) = t_out u" if "length (t_out u) = ring_capacity" for bs and u :: "'a tcp"
    using that by (simp add: out_write_def ring_fits_def ring_room_def Let_def)
  have o: "t_out (snd (wait_over rest u)) = t_out u" if "length (t_out u) = ring_capacity" for rest and u :: "'a tcp"
    using w[OF that] by (simp add: wait_over_def case_prod_unfold Let_def)
  have s: "t_out (start_async_send_some_data u) = t_out u" for u :: "'a tcp" by (simp add: start_async_send_some_data_def)
  have m: "t_out (message_wait rest u) = t_out u" if "length (t_out u) = ring_capacity" for rest and u :: "'a tcp"
    using o[OF that] by (simp add: message_wait_def case_prod_unfold Let_def)
  have h: "t_out (header_wait rest x u) = t_out u" if "length (t_out u) = ring_capacity" for rest x and u :: "'a tcp"
    using that by (simp add: header_wait_def send_message_def case_prod_unfold Let_def o w s m)
  show "length (t_out (send_frame hdr msg t)) = ring_capacity"
    using assms by (simp add: send_frame_def case_prod_unfold Let_def h w s)
  show "length (t_out (wake_sender t)) = ring_capacity"
    using assms by (auto simp: wake_sender_def h m split: option.split sender.split)
qed

lemmas send_keeps [simp] = sent_from_keeps[OF sent_from_waits(5)] sent_from_keeps[OF sent_from_waits(6)]

definition disarmed :: "'h async_op \<Rightarrow> 'h async_op" where
  "disarmed a = fst (fire_result a OK None)"

lemma fire_death_simps:
  "fire_death e t = (t\<lparr>m_awaitDeathOp := disarmed (m_awaitDeathOp t)\<rparr>, map (\<lambda>h. Called h (Err e) None) (armed_list (m_awaitDeathOp t)))"
  by (auto simp: fire_death_def disarmed_def fire_result_def fire_def take_armed_handler_def armed_list_def split: option.splits)

lemma disarmed_armed [simp]: "\<not> armed (disarmed a)" "armed_list (disarmed a) = []"
  by (auto simp: disarmed_def fire_result_def fire_def take_armed_handler_def finish_operation_def armed_def armed_list_def split: option.splits)

lemma armed_iff: "armed a \<longleftrightarrow> armed_list a \<noteq> []"
  by (auto simp: armed_def armed_list_def split: option.splits)

lemma called_map [simp]: "called (map (\<lambda>h. Called h r c) hs) = hs" "accepted (map (\<lambda>h. Called h r c) hs) = []"
    "outs_ok (map (\<lambda>h. Called h (Err e) None) hs)"
  by (induction hs) (auto simp: outs_ok_def)

lemma outs_ok_simps [simp]: "outs_ok []" "outs_ok [Accepted h]" "outs_ok [Refused h e]"
  by (simp_all add: outs_ok_def)

lemmas tcp_step_defs = on_send_communicator_type_completed_def start_receive_communicator_type_def
  on_receive_communicator_type_completed_def call_communicator_def start_async_receive_some_data_def tcp_done_def die_def
  on_receive_some_data_completed_def start_async_deserialization_def on_send_some_data_completed_def start_async_send_some_data_def
  tcp_deserialize_def wait_for_more_data_to_deserialize_def start_async_wait_def tcp_send_heartbeat_alive tcp_on_timeout_def timer_again_def
  wake_heartbeat_eq   assign_def start_send_communicator_type_def async_await_death_def arm_def cancel_await_death_def destroy_begin_def
  destroy_close_def destroy_wait_def fire_death_simps ring_fits_def in_ring_full_def Let_def

definition tcp_ok :: "'h tcp \<Rightarrow> bool" where
  "tcp_ok t \<longleftrightarrow> flags_ok t \<and> life_ok t \<and> length (t_out t) \<le> ring_capacity"

lemma sent_from_ok:
  assumes "tcp_ok t" "sent_from t t'" "t_life t = Living \<or> t_life t = Dying"
  shows "tcp_ok t'"
proof -
  have "length (t_out t') \<le> ring_capacity" "m_sendSomeDataRunning t' \<longleftrightarrow> p_send t'"
    using assms(1,2) by (auto simp: tcp_ok_def flags_ok_def sent_from_def)
  then show ?thesis using assms(1,3) by (cases "t_life t") (simp_all add: tcp_ok_def flags_ok_def life_ok_def sent_from_keeps[OF assms(2)])
qed

lemma tcp_do_ok:
  assumes t: "tcp_ok t" and e: "tcp_event_ok e t"
  shows "case tcp_do e t of None \<Rightarrow> False | Some (t', out) \<Rightarrow> tcp_ok t'"
proof (cases e)
  case (Assign nd acc tm)
  then show ?thesis using t e by (auto simp: tcp_step_defs tcp_ok_def flags_ok_def life_ok_def split: option.splits)
next
  case (Await_Death h)
  then show ?thesis using t e by (auto simp: tcp_step_defs tcp_ok_def flags_ok_def life_ok_def split: option.splits)
next
  case Cancel_Await_Death
  then show ?thesis using t e by (auto simp: tcp_step_defs tcp_ok_def flags_ok_def life_ok_def)
next
  case (Send_Frame hdr msg)
  then have "t_life t = Living" using t e by (auto simp: tcp_ok_def life_ok_def)
  then show ?thesis using sent_from_ok[OF t sent_from_waits(5)] Send_Frame by simp
next
  case Wake_Sender
  then have "t_life t = Living \<or> t_life t = Dying" using t e by (auto simp: tcp_ok_def life_ok_def)
  then show ?thesis using sent_from_ok[OF t sent_from_waits(6)] Wake_Sender by simp
next
  case Wake_Heartbeat
  then show ?thesis using t e by (auto simp: tcp_step_defs tcp_ok_def flags_ok_def life_ok_def)
next
  case (Type_Sent ec)
  then show ?thesis using t e by (auto simp: tcp_step_defs tcp_ok_def flags_ok_def life_ok_def)
next
  case (Type_Received ec b)
  then show ?thesis using t e by (auto simp: tcp_step_defs tcp_ok_def flags_ok_def life_ok_def)
next
  case (Data_Received ec bs)
  then show ?thesis using t e
    by (cases "ec = Success"; cases "m_alive t"; simp add: tcp_step_defs tcp_ok_def flags_ok_def life_ok_def)
next
  case (Data_Sent ec n)
  then show ?thesis using t e
    by (cases "ec = Success"; cases "n < length (t_out t)"; cases "m_alive t"; clarsimp simp: tcp_step_defs tcp_ok_def flags_ok_def life_ok_def; linarith)
next
  case (Deserialize n)
  then show ?thesis using t e by (auto simp: tcp_step_defs tcp_ok_def flags_ok_def life_ok_def split: prod.splits)
next
  case (Tick ec)
  then show ?thesis using t e
    by (cases "ec = No_Error"; cases "m_alive t"; simp add: tcp_step_defs tcp_ok_def flags_ok_def life_ok_def)
next
  case Destroy_Begin
  then show ?thesis using t e by (auto simp: tcp_step_defs tcp_ok_def flags_ok_def life_ok_def)
next
  case Destroy_Close
  then show ?thesis using t e by (auto simp: tcp_step_defs tcp_ok_def flags_ok_def life_ok_def)
next
  case Destroy_Wait
  then show ?thesis using t e by (cases "t_life t"; simp add: destroy_wait_def tcp_ok_def flags_ok_def life_ok_def)
qed

lemma fire_death_accounts:
  "fire_death e t = (t', out) \<Longrightarrow> called out @ armed_list (m_awaitDeathOp t') = armed_list (m_awaitDeathOp t) @ accepted out \<and> outs_ok out"
  by (auto simp: fire_death_simps)

lemma tcp_accounts:
  assumes "tcp_do e t = Some (t', out)"
  shows "called out @ armed_list (m_awaitDeathOp t') = armed_list (m_awaitDeathOp t) @ accepted out \<and> outs_ok out"
proof (cases e)
  case (Assign nd acc tm)
  then show ?thesis using assms by (auto simp: tcp_step_defs split: option.splits if_splits)
next
  case (Await_Death h)
  then show ?thesis using assms
    by (cases "m_armedHandler (m_awaitDeathOp t)") (auto simp: tcp_step_defs armed_list_def split: if_splits)
next
  case (Tick ec)
  then show ?thesis using assms
    by (cases "ec = No_Error"; cases "m_alive t"; auto simp: tcp_step_defs split: if_splits)
next
  case (Data_Received ec bs)
  then show ?thesis using assms
    by (cases "ec = Success"; cases "m_alive t"; auto simp: tcp_step_defs split: if_splits)
next
  case Destroy_Wait
  then show ?thesis using assms by (cases "t_life t"; auto simp: destroy_wait_def split: if_splits)
next
  case (Deserialize n)
  then show ?thesis using assms by (auto simp: tcp_step_defs split: if_splits prod.splits)
qed (use assms in \<open>auto simp: tcp_step_defs split: if_splits\<close>)

lemma tcp_step_ok:
  assumes "tcp_ok t" "tcp_event_ok e t"
  shows "\<exists>t' out. tcp_do e t = Some (t', out) \<and> tcp_ok t' \<and>
    called out @ armed_list (m_awaitDeathOp t') = armed_list (m_awaitDeathOp t) @ accepted out \<and> outs_ok out"
  using tcp_do_ok[OF assms] tcp_accounts[of e t] by (auto split: option.splits)

interpretation death_handlers: handler_accounts tcp_do tcp_event_ok m_awaitDeathOp tcp_ok accepted called outs_ok
  by unfold_locales (simp_all add: outs_ok_append tcp_step_ok)

lemma tcp_new_ok: "tcp_ok tcp_new" "armed_list (m_awaitDeathOp tcp_new) = []"
  by (simp_all add: tcp_ok_def flags_ok_def life_ok_def tcp_new_def armed_def async_init_def armed_list_def)

section \<open>Heartbeats\<close>

text \<open>The timer events since data has been received.\<close>

fun silent_after :: "'h tcp_event \<Rightarrow> nat \<Rightarrow> nat" where
  "silent_after (Tick ec) n = (if ec = No_Error then Suc n else n)"
| "silent_after (Data_Received ec bs) n = (if ec = Success then 0 else n)"
| "silent_after _ n = n"

definition silence :: "'h tcp_event list \<Rightarrow> nat" where
  "silence es = fold silent_after es 0"

definition failing :: "'h tcp_event \<Rightarrow> bool" where
  "failing e = (case e of Type_Sent ec \<Rightarrow> ec \<noteq> Success | Type_Received ec b \<Rightarrow> ec \<noteq> Success | Data_Received ec bs \<Rightarrow> ec \<noteq> Success
     | Data_Sent ec n \<Rightarrow> ec \<noteq> Success | _ \<Rightarrow> False)"

lemma alive_step:
  assumes "tcp_do e t = Some (t', out)"
  shows "(m_alive t' \<longrightarrow> m_alive t \<and> m_heartbeatsSinceLastReceive t' = silent_after e (m_heartbeatsSinceLastReceive t) \<and>
      (m_heartbeatsSinceLastReceive t \<le> 3 \<longrightarrow> m_heartbeatsSinceLastReceive t' \<le> 3)) \<and>
    (m_alive t \<and> \<not> m_alive t' \<longrightarrow> failing e \<or> e = Destroy_Begin \<or> e = Tick No_Error \<and> m_heartbeatsSinceLastReceive t \<ge> 3)"
proof (cases e)
  case (Assign nd acc tm)
  then show ?thesis using assms by (auto simp: tcp_step_defs split: option.splits if_splits)
next
  case (Await_Death h)
  then show ?thesis using assms
    by (cases "m_armedHandler (m_awaitDeathOp t)") (auto simp: tcp_step_defs split: if_splits)
next
  case (Tick ec)
  then show ?thesis using assms
    by (cases "ec = No_Error"; cases "m_alive t"; auto simp: tcp_step_defs split: if_splits)
next
  case (Data_Received ec bs)
  then show ?thesis using assms
    by (cases "ec = Success"; cases "m_alive t"; auto simp: tcp_step_defs failing_def split: if_splits)
next
  case Destroy_Wait
  then show ?thesis using assms by (cases "t_life t"; auto simp: destroy_wait_def split: if_splits)
next
  case (Deserialize n)
  then show ?thesis using assms by (auto simp: tcp_step_defs split: if_splits prod.splits)
qed (use assms in \<open>auto simp: tcp_step_defs failing_def split: if_splits\<close>)

lemma alive_silence:
  "run_events tcp_do es tcp_new = Some (t, out) \<Longrightarrow> m_alive t \<longrightarrow> m_heartbeatsSinceLastReceive t = silence es \<and> silence es \<le> 3"
proof (induction es arbitrary: t out rule: rev_induct)
  case Nil
  then show ?case by (auto simp: tcp_new_def silence_def)
next
  case (snoc e es)
  then obtain t1 o1 o2 where 1: "run_events tcp_do es tcp_new = Some (t1, o1)" "tcp_do e t1 = Some (t, o2)"
    by (auto simp: run_snoc bind_eq_Some_conv)
  then show ?case using snoc.IH[OF 1(1)] alive_step[OF 1(2)] by (auto simp: silence_def)
qed

section \<open>The stream\<close>

text \<open>The deserialization has taken in what was received except for the content of the ring.\<close>

definition stream_ok :: "'h tcp \<Rightarrow> bool" where
  "stream_ok t \<longleftrightarrow> (\<exists>consumed ps. t_received t = consumed @ t_in t \<and> rx_deserialize rx_init consumed = (t_rx t, ps) \<and> rx_ok (t_rx t) \<and>
     prefix (t_forwarded t) ps \<and> (m_alive t \<longrightarrow> t_forwarded t = ps)) \<and> length (t_in t) \<le> ring_capacity"

lemma stream_kept:
  assumes "tcp_do e t = Some (t', out)" "\<And>n. e \<noteq> Deserialize n" "\<And>ec bs. e \<noteq> Data_Received ec bs"
  shows "t_received t' = t_received t \<and> t_in t' = t_in t \<and> t_rx t' = t_rx t \<and> t_forwarded t' = t_forwarded t"
proof (cases e)
  case (Assign nd acc tm)
  then show ?thesis using assms by (auto simp: tcp_step_defs split: option.splits if_splits)
next
  case (Await_Death h)
  then show ?thesis using assms
    by (cases "m_armedHandler (m_awaitDeathOp t)") (auto simp: tcp_step_defs split: if_splits)
next
  case (Tick ec)
  then show ?thesis using assms
    by (cases "ec = No_Error"; cases "m_alive t"; auto simp: tcp_step_defs split: if_splits)
next
  case Destroy_Wait
  then show ?thesis using assms by (cases "t_life t"; auto simp: destroy_wait_def split: if_splits)
qed (use assms in \<open>auto simp: tcp_step_defs split: if_splits\<close>)

lemma received_stream:
  assumes "tcp_do (Data_Received ec bs) t = Some (t', out)" "length (t_in t) + length bs \<le> ring_capacity" "length (t_in t) \<le> ring_capacity"
  shows "\<exists>new. t_received t' = t_received t @ new \<and> t_in t' = t_in t @ new \<and> length (t_in t') \<le> ring_capacity \<and>
    t_rx t' = t_rx t \<and> t_forwarded t' = t_forwarded t"
proof (cases "ec = Success")
  case True
  then have "t_received t' = t_received t @ bs \<and> t_in t' = t_in t @ bs \<and> t_rx t' = t_rx t \<and> t_forwarded t' = t_forwarded t"
    using assms(1) by (cases "m_alive t"; auto simp: tcp_step_defs split: if_splits)
  then show ?thesis using assms(2,3) by (intro exI[of _ bs]) simp
next
  case False
  then show ?thesis using assms(1,3) by (intro exI[of _ "[]"]) (auto simp: tcp_step_defs split: if_splits)
qed

lemma deserialized_stream:
  assumes "tcp_do (Deserialize n) t = Some (t', out)" "rx_deserialize (t_rx t) (take n (t_in t)) = (r, ps)"
  shows "t_received t' = t_received t \<and> t_in t' = drop n (t_in t) \<and> t_rx t' = r \<and>
    t_forwarded t' = t_forwarded t @ (if m_alive t then ps else []) \<and> m_alive t' = m_alive t"
  using assms by (cases "m_alive t"; auto simp: tcp_step_defs split: if_splits)

lemma stream_step:
  assumes d: "tcp_do e t = Some (t', out)" and e: "tcp_event_ok e t" and s: "stream_ok t"
  shows "stream_ok t'"
proof -
  obtain consumed ps where c: "t_received t = consumed @ t_in t" "rx_deserialize rx_init consumed = (t_rx t, ps)" "rx_ok (t_rx t)"
      "prefix (t_forwarded t) ps" "m_alive t \<longrightarrow> t_forwarded t = ps" and l: "length (t_in t) \<le> ring_capacity"
    using s by (auto simp: stream_ok_def)
  have a: "m_alive t' \<longrightarrow> m_alive t" using alive_step[OF d] by blast
  show ?thesis
  proof (cases "\<exists>n. e = Deserialize n")
    case True
    then obtain n where n: "e = Deserialize n" by blast
    obtain r qs where r: "rx_deserialize (t_rx t) (take n (t_in t)) = (r, qs)" by (cases "rx_deserialize (t_rx t) (take n (t_in t))")
    note x = deserialized_stream[OF d[unfolded n] r]
    note y = rx_deserialize_append[OF rx_init_waits(1) c(2) r]
    have rr: "rx_ok r" using rx_deserialize_append[OF c(3) r surjective_pairing] by blast
    have "prefix (t_forwarded t') (ps @ qs)" using x c(4,5) by (auto intro: prefix_order.trans)
    moreover have "m_alive t' \<longrightarrow> t_forwarded t' = ps @ qs" using x c(5) by auto
    moreover have "t_received t' = (consumed @ take n (t_in t)) @ t_in t'" using x c(1) by simp
    ultimately show ?thesis unfolding stream_ok_def using x y rr l
      by (intro conjI exI[of _ "consumed @ take n (t_in t)"] exI[of _ "ps @ qs"]) simp_all
  next
    case nd: False
    show ?thesis
    proof (cases "\<exists>ec bs. e = Data_Received ec bs")
      case True
      then obtain ec bs where n: "e = Data_Received ec bs" by blast
      have "length (t_in t) + length bs \<le> ring_capacity" using e n by (simp add: ring_fits_def)
      then obtain new where "t_received t' = t_received t @ new" "t_in t' = t_in t @ new" "length (t_in t') \<le> ring_capacity"
          "t_rx t' = t_rx t" "t_forwarded t' = t_forwarded t"
        using received_stream[OF d[unfolded n] _ l] by blast
      then show ?thesis unfolding stream_ok_def using c a by (intro conjI exI[of _ consumed] exI[of _ ps]) auto
    next
      case False
      then show ?thesis unfolding stream_ok_def using stream_kept[OF d] nd c a l by (intro conjI exI[of _ consumed] exI[of _ ps]) auto
    qed
  qed
qed

lemma run_stream:
  "legal_events tcp_do tcp_event_ok es t \<Longrightarrow> run_events tcp_do es t = Some (t', out) \<Longrightarrow> stream_ok t \<Longrightarrow> stream_ok t'"
proof (induction es arbitrary: t out)
  case (Cons e es)
  then obtain t1 o1 o2 where 1: "tcp_do e t = Some (t1, o1)" "run_events tcp_do es t1 = Some (t', o2)"
    by (auto simp: bind_eq_Some_conv)
  then show ?case using Cons.IH[OF _ 1(2)] stream_step[OF 1(1)] Cons.prems by simp
qed simp

lemma stream_new: "stream_ok tcp_new"
  by (simp add: stream_ok_def tcp_new_def rx_init_waits)

section \<open>Idle connections\<close>

lemma heartbeat_counts:
  assumes "tcp_do e t = Some (t', out)" "m_alive t'"
  shows "e = Tick No_Error \<longrightarrow> m_heartbeatsSinceLastSend t' \<ge> 1"
    and "(\<forall>n. e \<noteq> Data_Sent Success n) \<longrightarrow> m_heartbeatsSinceLastSend t \<ge> 1 \<longrightarrow> m_heartbeatsSinceLastSend t' \<ge> 1"
proof -
  show "e = Tick No_Error \<longrightarrow> m_heartbeatsSinceLastSend t' \<ge> 1"
    using assms by (cases "m_alive t"; auto simp: tcp_step_defs split: if_splits)
  show "(\<forall>n. e \<noteq> Data_Sent Success n) \<longrightarrow> m_heartbeatsSinceLastSend t \<ge> 1 \<longrightarrow> m_heartbeatsSinceLastSend t' \<ge> 1"
  proof (cases e)
    case (Assign nd acc tm)
    then show ?thesis using assms by (auto simp: tcp_step_defs split: option.splits if_splits)
  next
    case (Await_Death h)
    then show ?thesis using assms
      by (cases "m_armedHandler (m_awaitDeathOp t)") (auto simp: tcp_step_defs split: if_splits)
  next
    case (Tick ec)
    then show ?thesis using assms
      by (cases "ec = No_Error"; cases "m_alive t"; auto simp: tcp_step_defs split: if_splits)
  next
    case (Data_Received ec bs)
    then show ?thesis using assms by (cases "ec = Success"; cases "m_alive t"; auto simp: tcp_step_defs split: if_splits)
  next
    case Destroy_Wait
    then show ?thesis using assms by (cases "t_life t"; auto simp: destroy_wait_def split: if_splits)
  next
    case (Deserialize n)
    then show ?thesis using assms by (auto simp: tcp_step_defs split: if_splits prod.splits)
  next
    case (Data_Sent ec n)
    then show ?thesis using assms by (cases "ec = Success"; cases "m_alive t"; auto simp: tcp_step_defs split: if_splits)
  next
    case Wake_Heartbeat
    then show ?thesis using assms by (cases "m_alive t"; auto simp: tcp_step_defs)
  qed (use assms in \<open>auto simp: tcp_step_defs split: if_splits\<close>)
qed

lemma heartbeat_sent:
  assumes "tcp_do (Tick No_Error) t = Some (t', out)" "m_alive t'" "m_heartbeatsSinceLastSend t \<ge> 1" "flags_ok t"
  shows "p_send t' \<and> (if length (t_out t) < ring_capacity then t_out t' = t_out t @ [0] \<and> p_timer t'
    else t_out t' = t_out t \<and> t_heartbeatWaits t')"
proof -
  have a: "m_alive t" using alive_step[OF assms(1)] assms(2) by blast
  have "\<not> m_heartbeatsSinceLastReceive t \<ge> 3"
    using assms(1,2) by (auto simp: tcp_on_timeout_def fire_death_simps tcp_done_def Let_def split: if_splits)
  then have "t' = timer_again (tcp_send_heartbeat (t\<lparr>p_timer := False, m_heartbeatsSinceLastReceive := Suc (m_heartbeatsSinceLastReceive t)\<rparr>))"
    using assms(1,3) a by (simp add: tcp_on_timeout_def Let_def)
  then show ?thesis using a assms(4)
    by (simp add: tcp_send_heartbeat_alive timer_again_def start_async_send_some_data_def start_async_wait_def flags_ok_def)
qed

lemma waiting_heartbeat_sent:
  assumes "m_alive t" "t_heartbeatWaits t" "length (t_out t) \<le> ring_capacity" "0 < n" "tcp_do (Data_Sent Success n) t = Some (t1, out)"
  shows "\<exists>t2. tcp_do Wake_Heartbeat t1 = Some (t2, []) \<and> t_out t2 = t_out t1 @ [0] \<and> p_timer t2"
proof -
  have n: "n \<le> length (t_out t)" and t1: "m_alive t1" "t_out t1 = drop n (t_out t)"
    using assms(1,5) by (auto simp: tcp_step_defs split: if_splits)
  then have "length (t_out t1) < ring_capacity" using assms(3,4) by simp
  then show ?thesis using t1(1) by (simp add: wake_heartbeat_eq start_async_wait_def Let_def)
qed

definition send_completed :: "'h tcp_event \<Rightarrow> bool" where
  "send_completed e \<longleftrightarrow> (\<exists>n. e = Data_Sent Success n)"

lemma full_step:
  assumes "tcp_do e t = Some (t', out)" "tcp_event_ok e t" "\<not> send_completed e" "\<not> failing e" "e \<noteq> Destroy_Begin"
    and "tcp_ok t" "m_alive t" "t_heartbeatWaits t" "length (t_out t) = ring_capacity"
  shows "tcp_ok t' \<and> m_alive t' \<and> t_heartbeatWaits t' \<and> length (t_out t') = ring_capacity \<and> (\<forall>ec. e \<noteq> Tick ec)"
proof -
  have ok: "tcp_ok t'" using tcp_do_ok[OF assms(6,2)] assms(1) by simp
  have nt: "\<not> p_timer t" using assms(6,8) by (simp add: tcp_ok_def flags_ok_def)
  have l: "t_life t = Living" using assms(6,7) by (auto simp: tcp_ok_def life_ok_def)
  have w: "snd (out_write bs u) = u" if "length (t_out u) = ring_capacity" for bs and u :: "'a tcp"
    using that by (simp add: out_write_def ring_fits_def ring_room_def Let_def)
  have "m_alive t' \<and> t_heartbeatWaits t' \<and> length (t_out t') = ring_capacity"
  proof (cases e)
    case (Assign nd acc tm)
    then show ?thesis using assms(1,7-9) by (auto simp: tcp_step_defs split: option.splits if_splits)
  next
    case (Await_Death h)
    then show ?thesis using assms(1,7-9)
      by (cases "m_armedHandler (m_awaitDeathOp t)") (auto simp: tcp_step_defs split: if_splits)
  next
    case (Send_Frame hdr msg)
    then show ?thesis using assms(1,7-9) send_full[OF assms(9)] by auto
  next
    case Wake_Sender
    then show ?thesis using assms(1,7-9) send_full[OF assms(9)] by auto
  next
    case Wake_Heartbeat
    then show ?thesis using assms(1,7-9) by (auto simp: tcp_step_defs)
  next
    case (Data_Received ec bs)
    then show ?thesis using assms(1,4,7-9)
      by (cases "ec = Success"; auto simp: tcp_step_defs failing_def split: if_splits)
  next
    case (Deserialize n)
    then show ?thesis using assms(1,7-9) by (auto simp: tcp_step_defs split: if_splits prod.splits)
  next
    case (Data_Sent ec n)
    then show ?thesis using assms(3,4) by (simp add: send_completed_def failing_def)
  qed (use assms(1,2,4,5,7-9) nt l in \<open>auto simp: tcp_step_defs failing_def split: if_splits\<close>)
  then show ?thesis using ok assms(2) nt by auto
qed

lemma heartbeat_counts_run:
  "run_events tcp_do es t = Some (t', out) \<Longrightarrow> m_alive t' \<Longrightarrow> \<not> list_ex send_completed es \<Longrightarrow> m_heartbeatsSinceLastSend t \<ge> 1 \<Longrightarrow>
    m_heartbeatsSinceLastSend t' \<ge> 1"
proof (induction es arbitrary: t' out rule: rev_induct)
  case (snoc e es)
  then obtain t1 o1 o2 where 1: "run_events tcp_do es t = Some (t1, o1)" "tcp_do e t1 = Some (t', o2)"
    by (auto simp: run_snoc bind_eq_Some_conv)
  have "m_alive t1" using alive_step[OF 1(2)] snoc.prems(2) by blast
  then have "m_heartbeatsSinceLastSend t1 \<ge> 1" using snoc.IH[OF 1(1)] snoc.prems by simp
  then show ?case using heartbeat_counts(2)[OF 1(2) snoc.prems(2)] snoc.prems(3) by (auto simp: send_completed_def)
qed simp

section \<open>Properties\<close>

text \<open>C10: Nobody waits for the death of a connection in vain, and nothing outlives its object: whatever the order of the
  completions, no assertion fails, every accepted handler of \<^verbatim>\<open>async_await_death\<close> is called exactly once and in
  order, by the time the connection is dead at the latest (or when the destructor has cancelled them), and at
  the end of the destructor no operation of the socket, the timer or the scheduler is under way and no thread waits in the object.\<close>

theorem death_handlers_called:
  assumes "legal_events tcp_do tcp_event_ok es tcp_new"
  shows "\<exists>t out. run_events tcp_do es tcp_new = Some (t, out) \<and> called out @ armed_list (m_awaitDeathOp t) = accepted out \<and>
    (\<not> m_alive t \<and> t_life t \<noteq> Dying \<longrightarrow> called out = accepted out) \<and>
    (t_life t = Destroyed_Connection \<longrightarrow> p_type t = No_Exchange \<and> \<not> p_send t \<and> \<not> p_recv t \<and> \<not> p_deserialize t \<and> \<not> p_timer t \<and>
      t_sender t = None \<and> \<not> t_heartbeatWaits t)"
proof -
  obtain t out where r: "run_events tcp_do es tcp_new = Some (t, out)" "tcp_ok t"
      "called out @ armed_list (m_awaitDeathOp t) = accepted out"
    using death_handlers.run_ok[OF tcp_new_ok(1) assms] tcp_new_ok(2) by auto
  then have "\<not> m_alive t \<and> t_life t \<noteq> Dying \<longrightarrow> called out = accepted out" by (auto simp: tcp_ok_def life_ok_def armed_iff)
  then show ?thesis using r by (auto simp: tcp_ok_def life_ok_def)
qed

text \<open>C11: A connection lives as long as the other end is heard of: it dies only when an operation of the socket fails,
  when its destructor begins, or at the fourth timer event in a row without data, and a live connection has
  never been silent for more than three.\<close>

theorem silent_connection_dies:
  assumes "run_events tcp_do es tcp_new = Some (t, out)" "tcp_do e t = Some (t', out')"
  shows "(m_alive t' \<longrightarrow> silence (es @ [e]) \<le> 3) \<and>
    (m_alive t \<and> \<not> m_alive t' \<longrightarrow> failing e \<or> e = Destroy_Begin \<or> e = Tick No_Error \<and> silence es = 3)"
proof -
  have "run_events tcp_do (es @ [e]) tcp_new = Some (t', out @ out')" using assms by (simp add: run_snoc)
  then have "m_alive t' \<longrightarrow> silence (es @ [e]) \<le> 3" using alive_silence by blast
  moreover have "m_alive t \<and> \<not> m_alive t' \<longrightarrow> failing e \<or> e = Destroy_Begin \<or> e = Tick No_Error \<and> silence es = 3"
    using alive_step[OF assms(2)] alive_silence[OF assms(1)] by auto
  ultimately show ?thesis by blast
qed

text \<open>C12: An idle connection makes itself heard: when no data has been sent between two timer events, the second one puts
  a heartbeat into the ring, or waits if the ring is full, and the socket is writing.  The waiting handler puts the heartbeat into the ring
  when it wakes up after data has been sent, and starts the timer again.\<close>

theorem idle_connection_sends_heartbeat:
  assumes "legal_events tcp_do tcp_event_ok (es @ [Tick No_Error] @ mid) tcp_new"
    and "run_events tcp_do (es @ [Tick No_Error] @ mid) tcp_new = Some (t, out)" "\<not> list_ex send_completed mid"
    and "tcp_do (Tick No_Error) t = Some (t', out')" "m_alive t'"
  shows "p_send t' \<and> (if length (t_out t) < ring_capacity then t_out t' = t_out t @ [0] \<and> p_timer t'
    else t_out t' = t_out t \<and> t_heartbeatWaits t' \<and>
      (\<forall>n t1 out1. 0 < n \<longrightarrow> tcp_do (Data_Sent Success n) t' = Some (t1, out1) \<longrightarrow>
        (\<exists>t2. tcp_do Wake_Heartbeat t1 = Some (t2, []) \<and> t_out t2 = t_out t1 @ [0] \<and> p_timer t2)))"
proof -
  obtain t0 o0 t1 o1 o2 where 1: "run_events tcp_do es tcp_new = Some (t0, o0)" "tcp_do (Tick No_Error) t0 = Some (t1, o1)"
      "run_events tcp_do mid t1 = Some (t, o2)"
    using assms(2) by (auto simp: run_events_append bind_eq_Some_conv)
  have a: "m_alive t" using alive_step[OF assms(4)] assms(5) by blast
  have "m_alive t1"
    using 1(3) a
  proof (induction mid arbitrary: t1 o2)
    case (Cons e mid)
    then obtain t2 o3 o4 where 2: "tcp_do e t1 = Some (t2, o3)" "run_events tcp_do mid t2 = Some (t, o4)" by (auto simp: bind_eq_Some_conv)
    then show ?case using Cons.IH[OF 2(2) Cons.prems(2)] alive_step[OF 2(1)] by blast
  qed simp
  then have "m_heartbeatsSinceLastSend t1 \<ge> 1" using heartbeat_counts(1)[OF 1(2)] by simp
  then have "m_heartbeatsSinceLastSend t \<ge> 1" using heartbeat_counts_run[OF 1(3) a assms(3)] by simp
  moreover have ok: "flags_ok t" "length (t_out t) \<le> ring_capacity"
    using death_handlers.run_ok[OF tcp_new_ok(1) assms(1)] assms(2) by (auto simp: tcp_ok_def)
  ultimately have h: "p_send t' \<and> (if length (t_out t) < ring_capacity then t_out t' = t_out t @ [0] \<and> p_timer t'
      else t_out t' = t_out t \<and> t_heartbeatWaits t')" using heartbeat_sent[OF assms(4,5)] by simp
  show ?thesis
  proof (cases "length (t_out t) < ring_capacity")
    case False
    then have "t_out t' = t_out t" "t_heartbeatWaits t'" using h by simp_all
    moreover have "\<exists>t2. tcp_do Wake_Heartbeat t1 = Some (t2, []) \<and> t_out t2 = t_out t1 @ [0] \<and> p_timer t2"
      if "0 < n" "tcp_do (Data_Sent Success n) t' = Some (t1, out1)" for n t1 out1
      using waiting_heartbeat_sent[OF assms(5) calculation(2) _ that] ok(2) calculation(1) by simp
    ultimately show ?thesis using h False by auto
  qed (use h in simp)
qed

text \<open>C13: However the arriving data is cut and the deserialization is scheduled, the payloads forwarded to the
  communicator are, in order and each once, the first ones of those in the received bytes, and all of them when the
  connection is alive and the ring is empty.\<close>

theorem payloads_forwarded:
  assumes "legal_events tcp_do tcp_event_ok es tcp_new" "run_events tcp_do es tcp_new = Some (t, out)"
  shows "prefix (t_forwarded t) (snd (rx_deserialize rx_init (t_received t))) \<and>
    (m_alive t \<and> t_in t = [] \<longrightarrow> t_forwarded t = snd (rx_deserialize rx_init (t_received t))) \<and> length (t_in t) \<le> ring_capacity"
proof -
  obtain consumed ps where c: "t_received t = consumed @ t_in t" "rx_deserialize rx_init consumed = (t_rx t, ps)"
      "prefix (t_forwarded t) ps" "m_alive t \<longrightarrow> t_forwarded t = ps" "length (t_in t) \<le> ring_capacity"
    using run_stream[OF assms stream_new] by (auto simp: stream_ok_def)
  obtain r qs where "rx_deserialize (t_rx t) (t_in t) = (r, qs)" by (cases "rx_deserialize (t_rx t) (t_in t)")
  then have "snd (rx_deserialize rx_init (t_received t)) = ps @ qs" using rx_deserialize_append[OF rx_init_waits(1) c(2)] c(1) by simp
  then show ?thesis using c by auto
qed

text \<open>
  If the communicator refuses the connection, the timer that \<^verbatim>\<open>assign\<close> has started runs on, and the second
  timer event sends a heartbeat.  When the connection is then assigned to a node, the heartbeat comes before the
  communicator type, and the other end takes the node for a leaf.
\<close>

definition refused_assignment :: "nat tcp_event list" where
  "refused_assignment = [Assign False (Some ERR_ALREADY_CONNECTED) (Some 6), Tick No_Error, Tick No_Error, Data_Sent Success 1,
     Assign True None (Some 6)]"

theorem heartbeat_precedes_type:
  "legal_events tcp_do tcp_event_ok refused_assignment tcp_new \<and>
   map_option (\<lambda>(t, out). t_wire t) (run_events tcp_do refused_assignment tcp_new) = Some [0, 1] \<and>
   map_option (\<lambda>(t, out). m_remoteIsNode t) (tcp_do (Type_Received Success 0)
     ((tcp_new :: nat tcp)\<lparr>m_communicator := True, p_type := Receiving_Type, m_preMessagingRunning := True\<rparr>)) = Some False"
  by code_simp

text \<open>
  While a heartbeat waits because the other end does not read, there are no timer events: however long the other end is
  silent, the connection stays alive.
\<close>

theorem full_ring_stops_timer:
  assumes "tcp_ok t" "m_alive t" "t_heartbeatWaits t" "length (t_out t) = ring_capacity"
    and "legal_events tcp_do tcp_event_ok es t" "\<not> list_ex send_completed es" "\<not> list_ex failing es" "Destroy_Begin \<notin> set es"
  shows "(\<forall>ec. Tick ec \<notin> set es) \<and> (\<exists>t' out. run_events tcp_do es t = Some (t', out) \<and> m_alive t' \<and> t_heartbeatWaits t')"
  using assms
proof (induction es arbitrary: t)
  case (Cons e es)
  have e: "tcp_event_ok e t" "\<not> send_completed e" "\<not> failing e" "e \<noteq> Destroy_Begin" using Cons.prems(5-8) by auto
  obtain t1 out1 where d: "tcp_do e t = Some (t1, out1)" using tcp_do_ok[OF Cons.prems(1) e(1)] by (auto split: option.splits)
  note k = full_step[OF d e Cons.prems(1-4)]
  have "legal_events tcp_do tcp_event_ok es t1" using Cons.prems(5) d by simp
  then have "(\<forall>ec. Tick ec \<notin> set es) \<and> (\<exists>t' out. run_events tcp_do es t1 = Some (t', out) \<and> m_alive t' \<and> t_heartbeatWaits t')"
    using Cons.IH[of t1] k Cons.prems(6-8) by simp
  then show ?case using d k by auto
qed simp

text \<open>
  If the socket takes all of the ring at once while a \<^verbatim>\<open>send\<close> waits for room, the rest of the message gets into the
  ring, \<^verbatim>\<open>send\<close> returns, and nobody starts the socket: the rest stays until something else is sent.
\<close>

theorem rest_of_message_left:
  assumes "m_alive t" "t_sender t = None" "flags_ok t" "length (t_out t) + length hdr \<le> ring_capacity"
    and "ring_capacity < length (t_out t) + length hdr + length msg"
    and "length (t_out t) + length hdr + length msg \<le> 2 * ring_capacity"
    and "tcp_do (Send_Frame hdr msg) t = Some (t1, out1)" "tcp_do (Data_Sent Success ring_capacity) t1 = Some (t2, out2)"
    and "tcp_do Wake_Sender t2 = Some (t3, out3)"
  shows "t_sender t3 = None \<and> t_out t3 = drop (ring_capacity - length (t_out t) - length hdr) msg \<and> t_out t3 \<noteq> [] \<and> \<not> p_send t3"
proof -
  define n where "n = ring_capacity - length (t_out t) - length hdr"
  define rest where "rest = drop n msg"
  have r: "rest \<noteq> []" "length rest \<le> ring_capacity" "n \<le> length msg" using assms(4-6) by (simp_all add: rest_def n_def)
  have 1: "t1 = (start_async_send_some_data t)\<lparr>t_out := t_out t @ hdr @ take n msg, t_sender := Some (Message_Waits rest)\<rparr>"
  proof -
    have h: "out_write hdr t = (length hdr, t\<lparr>t_out := t_out t @ hdr\<rparr>)" using assms(4) by (simp add: out_write_def ring_fits_def)
    let ?t = "t\<lparr>t_out := t_out t @ hdr\<rparr>"
    have w: "wait_over [] ?t = (True, ?t)" using assms(4) by (simp add: wait_over_def out_write_def ring_fits_def)
    have m: "out_write msg ?t = (n, ?t\<lparr>t_out := t_out t @ hdr @ take n msg\<rparr>)"
      using assms(5) by (simp add: out_write_def ring_fits_def ring_room_def n_def Let_def)
    let ?u = "start_async_send_some_data (?t\<lparr>t_out := t_out t @ hdr @ take n msg\<rparr>)"
    have full: "length (t_out ?u) = ring_capacity" using assms(4) r(3) by (simp add: start_async_send_some_data_def n_def)
    have "wait_over rest ?u = (False, ?u)"
      using assms(1) r(1) full by (simp add: wait_over_def out_write_def ring_fits_def ring_room_def Let_def start_async_send_some_data_def)
    then show ?thesis using assms(1,7) h w m
      by (cases "m_sendSomeDataRunning t")
        (auto simp: send_frame_def header_wait_def send_message_def message_wait_def rest_def start_async_send_some_data_def)
  qed
  have 2: "t_out t2 = []" "\<not> p_send t2" "m_alive t2" "t_sender t2 = Some (Message_Waits rest)"
    using assms(1,3,8) assms(4) r(3) unfolding 1
    by (auto simp: tcp_step_defs flags_ok_def n_def split: if_splits)
  have "out_write rest t2 = (length rest, t2\<lparr>t_out := rest\<rparr>)" using r(2) 2(1) by (simp add: out_write_def ring_fits_def)
  then have "t3 = t2\<lparr>t_out := rest, t_sender := None\<rparr>"
    using assms(9) 2 by (simp add: wake_sender_def message_wait_def wait_over_def)
  then show ?thesis using 2 r(1) by (simp add: rest_def n_def)
qed

section \<open>Examples\<close>

text \<open>The other end, a node, sends one payload and is silent from then on.\<close>

definition sample_connection :: "nat tcp_event list" where
  "sample_connection = [Assign False None (Some 6), Await_Death 5, Type_Sent Success, Type_Received Success 1,
     Data_Received Success [1], Data_Received Success [43, 0]]"

lemma death_handlers_called_witness:
  "\<exists>t out. run_events tcp_do (sample_connection @ [Tick No_Error, Tick No_Error, Tick No_Error, Tick No_Error]) tcp_new = Some (t, out) \<and>
     \<not> m_alive t \<and> called out = accepted out"
proof -
  let ?es = "sample_connection @ [Tick No_Error, Tick No_Error, Tick No_Error, Tick No_Error]"
  have l: "legal_events tcp_do tcp_event_ok ?es tcp_new" by code_simp
  have d: "map_option (\<lambda>x. (m_alive (fst x), t_life (fst x))) (run_events tcp_do ?es tcp_new) = Some (False, Living)" by code_simp
  obtain t out where r: "run_events tcp_do ?es tcp_new = Some (t, out)" "\<not> m_alive t \<and> t_life t \<noteq> Dying \<longrightarrow> called out = accepted out"
    using death_handlers_called[OF l] by blast
  then show ?thesis using d by (intro exI[of _ t] exI[of _ out]) simp
qed

lemma silent_connection_dies_witness:
  "\<exists>t out t' out'. run_events tcp_do (sample_connection @ [Tick No_Error, Tick No_Error, Tick No_Error]) tcp_new = Some (t, out) \<and>
     tcp_do (Tick No_Error) t = Some (t', out') \<and> \<not> m_alive t' \<and> silence (sample_connection @ [Tick No_Error, Tick No_Error, Tick No_Error]) = 3"
proof -
  let ?es = "sample_connection @ [Tick No_Error, Tick No_Error, Tick No_Error]"
  have d: "map_option (\<lambda>x. (m_alive (fst x), map_option (\<lambda>y. m_alive (fst y)) (tcp_do (Tick No_Error) (fst x))))
    (run_events tcp_do ?es tcp_new) = Some (True, Some False)" by code_simp
  then obtain t out where r: "run_events tcp_do ?es tcp_new = Some (t, out)" "m_alive t"
      "map_option (\<lambda>y. m_alive (fst y)) (tcp_do (Tick No_Error) t) = Some False" by auto
  obtain t' out' where s: "tcp_do (Tick No_Error) t = Some (t', out')" "\<not> m_alive t'"
    using r(3) by (cases "tcp_do (Tick No_Error) t") auto
  have "\<not> failing (Tick No_Error :: nat tcp_event)" by (simp add: failing_def)
  then have "silence ?es = 3" using silent_connection_dies[OF r(1) s(1)] r(2) s(2) by simp
  then show ?thesis using r(1) s by blast
qed

lemma idle_connection_sends_heartbeat_witness:
  "\<exists>t t' out out'. run_events tcp_do (sample_connection @ [Tick No_Error] @ [Data_Received Success [2]]) tcp_new = Some (t, out) \<and>
     tcp_do (Tick No_Error) t = Some (t', out') \<and> t_out t' = t_out t @ [0] \<and> p_send t'"
proof -
  let ?mid = "[Data_Received Success [2]] :: nat tcp_event list"
  let ?es = "sample_connection @ [Tick No_Error] @ ?mid"
  have l: "legal_events tcp_do tcp_event_ok ?es tcp_new" by code_simp
  have d: "map_option (\<lambda>x. (t_out (fst x), map_option (\<lambda>y. m_alive (fst y)) (tcp_do (Tick No_Error) (fst x)))) (run_events tcp_do ?es tcp_new) =
      Some ([], Some True)"
    by code_simp
  then obtain t out where r: "run_events tcp_do ?es tcp_new = Some (t, out)" and o: "t_out t = []" and a:
      "map_option (\<lambda>y. m_alive (fst y)) (tcp_do (Tick No_Error) t) = Some True" by auto
  obtain t' out' where s: "tcp_do (Tick No_Error) t = Some (t', out')" "m_alive t'"
    using a by (cases "tcp_do (Tick No_Error) t") auto
  have m: "\<not> list_ex send_completed ?mid" by (simp add: send_completed_def)
  show ?thesis using idle_connection_sends_heartbeat[OF l r m s] r s(1) by (simp add: o ring_capacity_def)
qed

lemma sample_payload: "rx_deserialize rx_init [1, 43, 0] = (rx_init, [[43]])"
  by (simp add: rx_deserialize.simps rx_iteration_def rx_init_def read_size.simps sized_def finish_payload_def read_payload_def
    payload_size_def deserialize_size_def resize_def overwrite_def)

lemma payloads_forwarded_witness:
  "\<exists>t out. run_events tcp_do (sample_connection @ [Deserialize 3]) tcp_new = Some (t, out) \<and> t_forwarded t = [[43]] \<and>
     prefix (t_forwarded t) (snd (rx_deserialize rx_init [1, 43, 0]))"
proof -
  have l: "legal_events tcp_do tcp_event_ok sample_connection tcp_new" by code_simp
  have d: "map_option (\<lambda>x. (t_in (fst x), t_received (fst x), t_forwarded (fst x), m_alive (fst x), p_deserialize (fst x), rx_tmp (t_rx (fst x)), rx_remaining (t_rx (fst x))))
      (run_events tcp_do sample_connection tcp_new) = Some ([1, 43, 0], [1, 43, 0], [], True, True, [], 0)" by code_simp
  then obtain t out where r: "run_events tcp_do sample_connection tcp_new = Some (t, out)" and
      f: "t_in t = [1, 43, 0]" "t_received t = [1, 43, 0]" "t_forwarded t = []" "m_alive t" "p_deserialize t" "rx_tmp (t_rx t) = []" "rx_remaining (t_rx t) = 0"
    by auto
  have e: "tcp_event_ok (Deserialize 3) t" using f by simp
  have l': "legal_events tcp_do tcp_event_ok (sample_connection @ [Deserialize 3]) tcp_new"
    using l r e by (simp add: legal_events_append split: option.splits)
  then obtain t' out' where r': "run_events tcp_do (sample_connection @ [Deserialize 3]) tcp_new = Some (t', out')"
    using death_handlers_called by blast
  then obtain o2 where d': "tcp_do (Deserialize 3) t = Some (t', o2)" using r by (auto simp: run_snoc bind_eq_Some_conv)
  have "t_rx t = rx_init" using f by (simp add: rx_init_def)
  then have "rx_deserialize (t_rx t) (take 3 (t_in t)) = (rx_init, [[43]])" using f(1) sample_payload by simp
  note x = deserialized_stream[OF d' this]
  then show ?thesis using payloads_forwarded[OF l' r'] r' f by (intro exI[of _ t'] exI[of _ out']) simp
qed

end
