(* ===== verification/Local_Connection.thy ===== *)
theory Local_Connection
  imports Prelude "HOL-Library.Sublist"
begin

text \<open>
  \<^verbatim>\<open>connections/local/LocalConnection\<close>: a connection between two communicators of one process.
  Messages are copied and run through a strand of boost::asio per direction, which executes what is
  posted to it one after the other, in order, in any thread.
\<close>

section \<open>State\<close>

datatype local_state = STATE_REGISTRATION | STATE_RUNNING | STATE_CLOSED

datatype side = Side_A | Side_B

fun other :: "side \<Rightarrow> side" where
  "other Side_A = Side_B"
| "other Side_B = Side_A"

text \<open>What is posted to a strand, and what the communicator at its end gets to see.\<close>

datatype 'm task = Msg 'm | Death
datatype 'm callback = On_New_Connection | On_Connection_Started | On_Message_Received 'm | On_Connection_Destroyed

text \<open>
  The channel to one side: \<open>ch_busy\<close> while its communicator handles a message.  \<open>ch_sent\<close> and \<open>ch_log\<close>
  are history: the messages sent to that side, and the callbacks of its communicator.
\<close>

record 'm channel =
  delayDeath :: bool
  ch_strand :: "'m task list"
  ch_busy :: bool
  ch_sent :: "'m list"
  ch_log :: "'m callback list"

text \<open>
  How far the constructor, the only thread that registers the channels, or the destructor has come.  It
  registers the communicator of side B first.  \<open>Unwinding\<close> is \<^verbatim>\<open>await_idle\<close> in the exception handler of
  the constructor, \<open>Failed\<close> its end, \<open>Destructing\<close> the one in the destructor.
\<close>

datatype progress = Register_New side | Register_Started side | Finish | Constructed | Unwinding | Failed | Destructing | Gone

record 'm local =
  m_state :: local_state
  channel_to_A :: "'m channel"
  channel_to_B :: "'m channel"
  m_activePosts :: int
  l_progress :: progress

definition channel_init :: "'m channel" where
  "channel_init = \<lparr>delayDeath = True, ch_strand = [], ch_busy = False, ch_sent = [], ch_log = []\<rparr>"

definition local_init :: "'m local" where
  "local_init = \<lparr>m_state = STATE_REGISTRATION, channel_to_A = channel_init, channel_to_B = channel_init, m_activePosts = 0, l_progress = Register_New Side_B\<rparr>"

definition channel_to :: "'m local \<Rightarrow> side \<Rightarrow> 'm channel" where
  "channel_to s x = (case x of Side_A \<Rightarrow> channel_to_A s | Side_B \<Rightarrow> channel_to_B s)"

definition update_channel :: "side \<Rightarrow> ('m channel \<Rightarrow> 'm channel) \<Rightarrow> 'm local \<Rightarrow> 'm local" where
  "update_channel x f s = (case x of Side_A \<Rightarrow> s\<lparr>channel_to_A := f (channel_to_A s)\<rparr> | Side_B \<Rightarrow> s\<lparr>channel_to_B := f (channel_to_B s)\<rparr>)"

definition tell :: "side \<Rightarrow> 'm callback \<Rightarrow> 'm local \<Rightarrow> 'm local" where
  "tell x c s = update_channel x (\<lambda>ch. ch\<lparr>ch_log := ch_log ch @ [c]\<rparr>) s"

definition post :: "side \<Rightarrow> 'm task \<Rightarrow> 'm local \<Rightarrow> 'm local" where
  "post x t s = update_channel x (\<lambda>ch. ch\<lparr>ch_strand := ch_strand ch @ [t]\<rparr>) s"

section \<open>Operations\<close>

definition add_post :: "int \<Rightarrow> 'm local \<Rightarrow> 'm local" where
  "add_post n s = s\<lparr>m_activePosts := m_activePosts s + n\<rparr>"

text \<open>\<^verbatim>\<open>post_death\<close> tries until it succeeds.\<close>

definition post_death :: "side \<Rightarrow> 'm local \<Rightarrow> 'm local" where
  "post_death x s = post x Death (add_post 1 s)"

definition close :: "'m local \<Rightarrow> 'm local" where
  "close s = (if m_state s \<noteq> STATE_CLOSED then post_death Side_A (post_death Side_B (s\<lparr>m_state := STATE_CLOSED\<rparr>))
     else s)"

text \<open>\<open>ok\<close> is whether the message can be copied and posted.\<close>

definition post_msg :: "bool \<Rightarrow> 'm \<Rightarrow> side \<Rightarrow> 'm local \<Rightarrow> 'm local" where
  "post_msg ok m x s = (let s1 = add_post 1 s in
     if ok then post x (Msg m) (update_channel x (\<lambda>ch. ch\<lparr>ch_sent := ch_sent ch @ [m]\<rparr>) s1)
     else add_post (-1) (close s1))"

definition deliver_death :: "side \<Rightarrow> 'm local \<Rightarrow> 'm local" where
  "deliver_death x s = add_post (-1) (if delayDeath (channel_to s x) then post_death x s else tell x On_Connection_Destroyed s)"

text \<open>
  \<^verbatim>\<open>deliver_msg\<close> up to the call of the communicator, for a connection that is registered (before, it
  waits), and after its return, possibly with an exception.
\<close>

definition deliver_msg :: "'m \<Rightarrow> side \<Rightarrow> 'm local \<Rightarrow> 'm local" where
  "deliver_msg m x s = (if m_state s = STATE_CLOSED then add_post (-1) s
     else update_channel x (\<lambda>ch. ch\<lparr>ch_busy := True\<rparr>) (tell x (On_Message_Received m) s))"

definition message_received :: "bool \<Rightarrow> side \<Rightarrow> 'm local \<Rightarrow> 'm local" where
  "message_received ok x s = add_post (-1) (let s1 = update_channel x (\<lambda>ch. ch\<lparr>ch_busy := False\<rparr>) s in if ok then s1 else close s1)"

definition take_task :: "side \<Rightarrow> 'm local \<Rightarrow> 'm local" where
  "take_task x s = (case ch_strand (channel_to s x) of
      [] \<Rightarrow> s
    | t # ts \<Rightarrow> (let s1 = update_channel x (\<lambda>ch. ch\<lparr>ch_strand := ts\<rparr>) s in
        case t of Msg m \<Rightarrow> deliver_msg m x s1 | Death \<Rightarrow> deliver_death x s1))"

text \<open>
  \<^verbatim>\<open>register_channels\<close>, a callback at a time; \<open>ok\<close> is whether the communicator accepts the connection.
  When side A fails, side B is told.
\<close>

definition registration_failed :: "'m local \<Rightarrow> 'm local" where
  "registration_failed s = s\<lparr>m_state := STATE_CLOSED, l_progress := Unwinding\<rparr>"

definition side_registered :: "side \<Rightarrow> 'm local \<Rightarrow> 'm local" where
  "side_registered x s = update_channel x (\<lambda>ch. ch\<lparr>delayDeath := False\<rparr>) (tell x On_Connection_Started s)"

definition register_channels :: "bool \<Rightarrow> 'm local \<Rightarrow> 'm local" where
  "register_channels ok s = (case l_progress s of
      Register_New x \<Rightarrow>
        if ok then (tell x On_New_Connection s)\<lparr>l_progress := Register_Started x\<rparr>
        else registration_failed (if x = Side_A then post_death Side_B s else s)
    | Register_Started x \<Rightarrow>
        if ok then (side_registered x s)\<lparr>l_progress := (if x = Side_B then Register_New Side_A else Finish)\<rparr>
        else registration_failed (if x = Side_A then post_death Side_B s else s)
    | Finish \<Rightarrow> s\<lparr>m_state := (if m_state s = STATE_REGISTRATION then STATE_RUNNING else m_state s), l_progress := Constructed\<rparr>
    | _ \<Rightarrow> s)"

text \<open>\<^verbatim>\<open>await_idle\<close> returns.\<close>

definition await_idle :: "'m local \<Rightarrow> 'm local" where
  "await_idle s = (case l_progress s of Unwinding \<Rightarrow> s\<lparr>l_progress := Failed\<rparr> | Destructing \<Rightarrow> s\<lparr>l_progress := Gone\<rparr> | _ \<Rightarrow> s)"

definition destroy :: "'m local \<Rightarrow> 'm local" where
  "destroy s = (close s)\<lparr>l_progress := Destructing\<rparr>"

section \<open>Events\<close>

text \<open>
  \<open>Send ok m x\<close> is a message to side \<open>x\<close>, from the communicator at the other side.
\<close>

datatype 'm local_event = Register bool | Send bool 'm side | Take side | Return bool side | Destroy | Idle

text \<open>
  A communicator uses a connection from \<^verbatim>\<open>on_new_connection\<close> to \<^verbatim>\<open>on_connection_destroyed\<close>, but not after
  an exception in \<^verbatim>\<open>on_connection_started\<close>.
\<close>

definition connected :: "side \<Rightarrow> 'm local \<Rightarrow> bool" where
  "connected x s \<longleftrightarrow> On_New_Connection \<in> set (ch_log (channel_to s x)) \<and> On_Connection_Destroyed \<notin> set (ch_log (channel_to s x)) \<and>
     (l_progress s = Unwinding \<or> l_progress s = Failed \<longrightarrow> On_Connection_Started \<in> set (ch_log (channel_to s x)))"

fun registering :: "progress \<Rightarrow> bool" where
  "registering (Register_New x) = True"
| "registering (Register_Started x) = True"
| "registering Finish = True"
| "registering _ = False"

text \<open>
  A strand runs one task at a time, and a message waits for the end of the registration.
\<close>

fun local_enabled :: "'m local_event \<Rightarrow> 'm local \<Rightarrow> bool" where
  "local_enabled (Register ok) s = registering (l_progress s)"
| "local_enabled (Send ok m x) s = connected (other x) s"
| "local_enabled (Take x) s = (\<not> ch_busy (channel_to s x) \<and> (case ch_strand (channel_to s x) of
     [] \<Rightarrow> False | Msg m # ts \<Rightarrow> m_state s \<noteq> STATE_REGISTRATION | Death # ts \<Rightarrow> True))"
| "local_enabled (Return ok x) s = ch_busy (channel_to s x)"
| "local_enabled Destroy s = (l_progress s = Constructed)"
| "local_enabled Idle s = ((l_progress s = Unwinding \<or> l_progress s = Destructing) \<and> m_activePosts s = 0)"

fun local_do :: "'m local_event \<Rightarrow> 'm local \<Rightarrow> 'm local" where
  "local_do (Register ok) s = register_channels ok s"
| "local_do (Send ok m x) s = post_msg ok m x s"
| "local_do (Take x) s = take_task x s"
| "local_do (Return ok x) s = message_received ok x s"
| "local_do Destroy s = destroy s"
| "local_do Idle s = await_idle s"

fun local_possible :: "'m local_event list \<Rightarrow> 'm local \<Rightarrow> bool" where
  "local_possible [] s = True"
| "local_possible (e # es) s = (local_enabled e s \<and> local_possible es (local_do e s))"

definition local_run :: "'m local_event list \<Rightarrow> 'm local \<Rightarrow> 'm local" where
  "local_run es s = fold local_do es s"

text \<open>Memory for messages does not run out before both communicators are registered.\<close>

fun local_spared :: "'m local_event list \<Rightarrow> 'm local \<Rightarrow> bool" where
  "local_spared [] s = True"
| "local_spared (e # es) s = ((case e of Send ok m x \<Rightarrow> ok \<or> \<not> registering (l_progress s) | _ \<Rightarrow> True) \<and> local_spared es (local_do e s))"

section \<open>Invariant\<close>

fun messages :: "'m task list \<Rightarrow> 'm list" where
  "messages [] = []"
| "messages (Msg m # ts) = m # messages ts"
| "messages (Death # ts) = messages ts"

definition deaths :: "'m task list \<Rightarrow> nat" where
  "deaths ts = length (filter (\<lambda>t. t = Death) ts)"

lemma messages_append [simp]: "messages (xs @ ys) = messages xs @ messages ys"
  by (induction xs rule: messages.induct) simp_all

lemma deaths_simps [simp]: "deaths [] = 0" "deaths (Msg m # ts) = deaths ts" "deaths (Death # ts) = Suc (deaths ts)"
    "deaths (xs @ ys) = deaths xs + deaths ys"
  by (simp_all add: deaths_def)

text \<open>What a communicator may see.\<close>

definition log_is :: "'m callback list \<Rightarrow> bool \<Rightarrow> bool \<Rightarrow> 'm list \<Rightarrow> bool \<Rightarrow> bool" where
  "log_is l nw st ms dead \<longleftrightarrow> l = (if nw then [On_New_Connection] else []) @ (if st then [On_Connection_Started] else []) @
       map On_Message_Received ms @ (if dead then [On_Connection_Destroyed] else []) \<and>
     (st \<longrightarrow> nw) \<and> (\<not> st \<longrightarrow> ms = [] \<and> \<not> dead)"

text \<open>
  A registered channel of a closed connection has its death posted or delivered, once.  The messages received
  are the first ones of those sent; while the connection is open, the others are in the strand.
\<close>

definition channel_ok :: "bool \<Rightarrow> bool \<Rightarrow> bool \<Rightarrow> 'm channel \<Rightarrow> bool" where
  "channel_ok closed nw st ch \<longleftrightarrow> (\<exists>ms dead. log_is (ch_log ch) nw st ms dead \<and> (delayDeath ch \<longleftrightarrow> \<not> st) \<and>
     deaths (ch_strand ch) + (if dead then 1 else 0) = (if closed \<and> st then 1 else 0) \<and>
     (if closed then prefix ms (ch_sent ch) else ch_sent ch = ms @ messages (ch_strand ch)) \<and> (ch_busy ch \<longrightarrow> st))"

definition load :: "'m channel \<Rightarrow> int" where
  "load ch = int (length (ch_strand ch)) + (if ch_busy ch then 1 else 0)"

fun progress_ok :: "progress \<Rightarrow> local_state \<Rightarrow> (side \<Rightarrow> bool) \<Rightarrow> (side \<Rightarrow> bool) \<Rightarrow> bool" where
  "progress_ok (Register_New x) st nw sd = (st = STATE_REGISTRATION \<and> \<not> nw x \<and> \<not> nw Side_A \<and> \<not> sd Side_A \<and> nw Side_B = (x = Side_A) \<and> sd Side_B = (x = Side_A))"
| "progress_ok (Register_Started x) st nw sd = (st = STATE_REGISTRATION \<and> nw x \<and> \<not> sd x \<and> (x = Side_A \<longrightarrow> sd Side_B) \<and> (x = Side_B \<longrightarrow> \<not> nw Side_A) \<and> \<not> sd Side_A)"
| "progress_ok Finish st nw sd = (st = STATE_REGISTRATION \<and> sd Side_A \<and> sd Side_B)"
| "progress_ok Constructed st nw sd = (st \<noteq> STATE_REGISTRATION \<and> sd Side_A \<and> sd Side_B)"
| "progress_ok Unwinding st nw sd = (st = STATE_CLOSED \<and> \<not> sd Side_A)"
| "progress_ok Failed st nw sd = (st = STATE_CLOSED \<and> \<not> sd Side_A)"
| "progress_ok Destructing st nw sd = (st = STATE_CLOSED \<and> sd Side_A \<and> sd Side_B)"
| "progress_ok Gone st nw sd = (st = STATE_CLOSED \<and> sd Side_A \<and> sd Side_B)"

definition local_ok_with :: "(side \<Rightarrow> bool) \<Rightarrow> (side \<Rightarrow> bool) \<Rightarrow> 'm local \<Rightarrow> bool" where
  "local_ok_with nw sd s \<longleftrightarrow> (\<forall>x. channel_ok (m_state s = STATE_CLOSED) (nw x) (sd x) (channel_to s x)) \<and>
     m_activePosts s = load (channel_to s Side_A) + load (channel_to s Side_B) \<and> progress_ok (l_progress s) (m_state s) nw sd \<and>
     (m_state s = STATE_REGISTRATION \<longrightarrow> (\<forall>x. \<not> ch_busy (channel_to s x)))"

definition local_ok :: "'m local \<Rightarrow> bool" where
  "local_ok s \<longleftrightarrow> (\<exists>nw sd. local_ok_with nw sd s)"

lemma all_sides: "(\<forall>x. P x) \<longleftrightarrow> P Side_A \<and> P Side_B"
  by (metis side.exhaust)

lemma channel_simps [simp]:
  "channel_to (update_channel x f s) y = (if y = x then f (channel_to s x) else channel_to s y)"
  "m_state (update_channel x f s) = m_state s" "m_activePosts (update_channel x f s) = m_activePosts s" "l_progress (update_channel x f s) = l_progress s"
  "channel_to (add_post n s) = channel_to s" "m_state (add_post n s) = m_state s" "m_activePosts (add_post n s) = m_activePosts s + n"
  "l_progress (add_post n s) = l_progress s"
  "channel_to (s\<lparr>m_state := st\<rparr>) = channel_to s" "channel_to (s\<lparr>l_progress := pr\<rparr>) = channel_to s"
  by (auto simp: update_channel_def channel_to_def add_post_def fun_eq_iff split: side.splits)

lemma post_simps [simp]:
  "channel_to (post x t s) y = (if y = x then (channel_to s x)\<lparr>ch_strand := ch_strand (channel_to s x) @ [t]\<rparr> else channel_to s y)"
  "m_state (post x t s) = m_state s" "m_activePosts (post x t s) = m_activePosts s" "l_progress (post x t s) = l_progress s"
  "channel_to (tell x c s) y = (if y = x then (channel_to s x)\<lparr>ch_log := ch_log (channel_to s x) @ [c]\<rparr> else channel_to s y)"
  "m_state (tell x c s) = m_state s" "m_activePosts (tell x c s) = m_activePosts s" "l_progress (tell x c s) = l_progress s"
  "channel_to (post_death x s) y = (if y = x then (channel_to s x)\<lparr>ch_strand := ch_strand (channel_to s x) @ [Death]\<rparr> else channel_to s y)"
  "m_state (post_death x s) = m_state s" "m_activePosts (post_death x s) = m_activePosts s + 1" "l_progress (post_death x s) = l_progress s"
  by (simp_all add: post_def tell_def post_death_def)

text \<open>Closing.\<close>

lemma channel_close:
  assumes "channel_ok False nw True ch"
  shows "channel_ok True nw True (ch\<lparr>ch_strand := ch_strand ch @ [Death]\<rparr>)"
proof -
  obtain ms dead where "log_is (ch_log ch) nw True ms dead" "\<not> delayDeath ch" "deaths (ch_strand ch) = 0" "\<not> dead"
      "ch_sent ch = ms @ messages (ch_strand ch)"
    using assms by (auto simp: channel_ok_def split: if_splits)
  then show ?thesis unfolding channel_ok_def by (intro exI[of _ ms] exI[of _ False]) simp
qed

lemma channel_close_unregistered:
  assumes "channel_ok False nw False ch"
  shows "channel_ok True nw False ch"
proof -
  obtain ms dead where c: "log_is (ch_log ch) nw False ms dead" "delayDeath ch" "deaths (ch_strand ch) = 0"
      "ch_sent ch = ms @ messages (ch_strand ch)" "\<not> ch_busy ch"
    using assms by (auto simp: channel_ok_def)
  then have "\<not> dead" by (simp add: log_is_def)
  then show ?thesis unfolding channel_ok_def using c by (intro exI[of _ ms] exI[of _ dead]) simp
qed

lemma close_simps [simp]: "m_state (close s) = STATE_CLOSED" "l_progress (close s) = l_progress s"
  by (simp_all add: close_def)

lemma close_ok:
  assumes "local_ok_with nw sd s" "m_state s \<noteq> STATE_CLOSED \<longrightarrow> l_progress s = Constructed"
  shows "local_ok_with nw sd (close s)"
proof (cases "m_state s = STATE_CLOSED")
  case True
  then show ?thesis using assms(1) by (simp add: close_def)
next
  case False
  then have sd: "sd Side_A" "sd Side_B" using assms by (auto simp: local_ok_with_def)
  have "channel_ok False (nw Side_A) True (channel_to s Side_A)" "channel_ok False (nw Side_B) True (channel_to s Side_B)"
    using assms(1) False sd by (simp_all add: local_ok_with_def all_sides)
  note c = this[THEN channel_close]
  have l: "l_progress s = Constructed" and a: "m_activePosts s = load (channel_to s Side_A) + load (channel_to s Side_B)"
    using assms False by (simp_all add: local_ok_with_def)
  show ?thesis unfolding local_ok_with_def all_sides
    using False sd c by (simp add: close_def load_def l a)
qed

section \<open>Preservation\<close>

lemma channel_send:
  assumes "channel_ok c nw st ch"
  shows "channel_ok c nw st (ch\<lparr>ch_sent := ch_sent ch @ [m], ch_strand := ch_strand ch @ [Msg m]\<rparr>)"
proof -
  obtain ms dead where "log_is (ch_log ch) nw st ms dead" "delayDeath ch \<longleftrightarrow> \<not> st"
     "deaths (ch_strand ch) + (if dead then 1 else 0) = (if c \<and> st then 1 else 0)"
     "if c then prefix ms (ch_sent ch) else ch_sent ch = ms @ messages (ch_strand ch)" "ch_busy ch \<longrightarrow> st"
    using assms unfolding channel_ok_def by blast
  then show ?thesis unfolding channel_ok_def by (intro exI[of _ ms] exI[of _ dead]) (simp split: if_splits)
qed

lemma send_ok:
  assumes s: "local_ok_with nw sd s" and ok: "ok \<or> \<not> registering (l_progress s)"
  shows "local_ok_with nw sd (post_msg ok m x s)"
proof (cases ok)
  case True
  have "channel_ok (m_state s = STATE_CLOSED) (nw x) (sd x) (channel_to s x)" using s by (simp add: local_ok_with_def)
  note c = channel_send[OF this, of m]
  show ?thesis using s True c
    by (cases x) (simp_all add: local_ok_with_def all_sides post_msg_def Let_def load_def)
next
  case False
  then have "m_state s \<noteq> STATE_CLOSED \<longrightarrow> l_progress s = Constructed"
    using s ok by (cases "l_progress s") (auto simp: local_ok_with_def)
  moreover have "post_msg ok m x s = close s"
    using False by (simp add: post_msg_def close_def add_post_def post_death_def post_def update_channel_def Let_def)
  ultimately show ?thesis using close_ok[OF s] by simp
qed

lemma log_new: "log_is l False False ms dead \<Longrightarrow> log_is (l @ [On_New_Connection]) True False ms dead"
  by (auto simp: log_is_def)

lemma log_started: "log_is l True False ms dead \<Longrightarrow> log_is (l @ [On_Connection_Started]) True True ms dead"
  by (auto simp: log_is_def)

lemma log_received: "log_is l nw True ms False \<Longrightarrow> log_is (l @ [On_Message_Received m]) nw True (ms @ [m]) False"
  by (auto simp: log_is_def)

lemma log_destroyed: "log_is l nw True ms False \<Longrightarrow> log_is (l @ [On_Connection_Destroyed]) nw True ms True"
  by (auto simp: log_is_def)

lemma channel_okE:
  assumes "channel_ok c nw st ch"
  obtains ms dead where "log_is (ch_log ch) nw st ms dead" "delayDeath ch \<longleftrightarrow> \<not> st"
     "deaths (ch_strand ch) + (if dead then 1 else 0) = (if c \<and> st then 1 else 0)"
     "if c then prefix ms (ch_sent ch) else ch_sent ch = ms @ messages (ch_strand ch)" "ch_busy ch \<longrightarrow> st"
  using assms unfolding channel_ok_def by blast

lemma channel_new:
  assumes "channel_ok False False False ch"
  shows "channel_ok False True False (ch\<lparr>ch_log := ch_log ch @ [On_New_Connection]\<rparr>)"
  using assms
proof (rule channel_okE)
  fix ms dead
  assume "log_is (ch_log ch) False False ms dead" "delayDeath ch \<longleftrightarrow> \<not> False"
    "deaths (ch_strand ch) + (if dead then 1 else 0) = (if False \<and> False then 1 else 0)"
    "if False then prefix ms (ch_sent ch) else ch_sent ch = ms @ messages (ch_strand ch)" "ch_busy ch \<longrightarrow> False"
  then show ?thesis unfolding channel_ok_def by (intro exI[of _ ms] exI[of _ dead]) (simp add: log_new)
qed

lemma channel_started:
  assumes "channel_ok False True False ch"
  shows "channel_ok False True True (ch\<lparr>ch_log := ch_log ch @ [On_Connection_Started], delayDeath := False\<rparr>)"
  using assms
proof (rule channel_okE)
  fix ms dead
  assume "log_is (ch_log ch) True False ms dead" "delayDeath ch \<longleftrightarrow> \<not> False"
    "deaths (ch_strand ch) + (if dead then 1 else 0) = (if False \<and> False then 1 else 0)"
    "if False then prefix ms (ch_sent ch) else ch_sent ch = ms @ messages (ch_strand ch)" "ch_busy ch \<longrightarrow> False"
  then show ?thesis unfolding channel_ok_def by (intro exI[of _ ms] exI[of _ dead]) (simp add: log_started)
qed

lemma channel_take_msg:
  assumes "channel_ok c nw st ch" "ch_strand ch = Msg m # ts" "\<not> c \<longrightarrow> st"
  shows "channel_ok c nw st (if c then ch\<lparr>ch_strand := ts\<rparr>
    else ch\<lparr>ch_strand := ts, ch_log := ch_log ch @ [On_Message_Received m], ch_busy := True\<rparr>)"
  using assms(1)
proof (rule channel_okE)
  fix ms dead
  assume h: "log_is (ch_log ch) nw st ms dead" "delayDeath ch \<longleftrightarrow> \<not> st"
    "deaths (ch_strand ch) + (if dead then 1 else 0) = (if c \<and> st then 1 else 0)"
    "if c then prefix ms (ch_sent ch) else ch_sent ch = ms @ messages (ch_strand ch)" "ch_busy ch \<longrightarrow> st"
  show ?thesis
  proof (cases c)
    case True
    then show ?thesis unfolding channel_ok_def using h assms(2) by (intro exI[of _ ms] exI[of _ dead]) simp
  next
    case False
    then have st: "st" "\<not> dead" using assms(3) h(3) by (auto split: if_splits)
    then have "log_is (ch_log ch @ [On_Message_Received m]) nw True (ms @ [m]) False" using log_received h(1) by simp
    then show ?thesis unfolding channel_ok_def using h assms(2) False st by (intro exI[of _ "ms @ [m]"] exI[of _ False]) simp
  qed
qed

lemma channel_take_death:
  assumes "channel_ok c nw st ch" "ch_strand ch = Death # ts"
  shows "\<not> delayDeath ch \<and> channel_ok c nw st (ch\<lparr>ch_strand := ts, ch_log := ch_log ch @ [On_Connection_Destroyed]\<rparr>)"
  using assms(1)
proof (rule channel_okE)
  fix ms dead
  assume h: "log_is (ch_log ch) nw st ms dead" "delayDeath ch \<longleftrightarrow> \<not> st"
    "deaths (ch_strand ch) + (if dead then 1 else 0) = (if c \<and> st then 1 else 0)"
    "if c then prefix ms (ch_sent ch) else ch_sent ch = ms @ messages (ch_strand ch)" "ch_busy ch \<longrightarrow> st"
  have d: "c" "st" "\<not> dead" "deaths ts = 0" using h(3) assms(2) by (auto split: if_splits)
  then have "log_is (ch_log ch @ [On_Connection_Destroyed]) nw True ms True" using log_destroyed h(1) by simp
  then show ?thesis unfolding channel_ok_def using h d by (intro conjI exI[of _ ms] exI[of _ True]) simp_all
qed

lemma channel_return:
  assumes "channel_ok c nw st ch"
  shows "channel_ok c nw st (ch\<lparr>ch_busy := False\<rparr>)"
  using assms
proof (rule channel_okE)
  fix ms dead
  assume "log_is (ch_log ch) nw st ms dead" "delayDeath ch \<longleftrightarrow> \<not> st"
    "deaths (ch_strand ch) + (if dead then 1 else 0) = (if c \<and> st then 1 else 0)"
    "if c then prefix ms (ch_sent ch) else ch_sent ch = ms @ messages (ch_strand ch)" "ch_busy ch \<longrightarrow> st"
  then show ?thesis unfolding channel_ok_def by (intro exI[of _ ms] exI[of _ dead]) simp
qed

lemma take_ok:
  assumes s: "local_ok_with nw sd s" and e: "local_enabled (Take x) s"
  shows "local_ok_with nw sd (take_task x s)"
proof -
  let ?ch = "channel_to s x"
  have c: "channel_ok (m_state s = STATE_CLOSED) (nw x) (sd x) ?ch" and p: "progress_ok (l_progress s) (m_state s) nw sd"
    and o: "channel_ok (m_state s = STATE_CLOSED) (nw (other x)) (sd (other x)) (channel_to s (other x))"
    and a: "m_activePosts s = load (channel_to s Side_A) + load (channel_to s Side_B)"
    and r: "m_state s = STATE_REGISTRATION \<longrightarrow> (\<forall>x. \<not> ch_busy (channel_to s x))"
    using s by (simp_all add: local_ok_with_def)
  have b: "\<not> ch_busy ?ch" using e by simp
  obtain t ts where t: "ch_strand ?ch = t # ts" using e by (cases "ch_strand ?ch") auto
  show ?thesis
  proof (cases t)
    case (Msg m)
    have nr: "m_state s \<noteq> STATE_REGISTRATION" using e t Msg by simp
    then have "m_state s \<noteq> STATE_CLOSED \<longrightarrow> sd x" using p by (cases "l_progress s"; cases x) auto
    note c' = channel_take_msg[OF c t[unfolded Msg] this]
    show ?thesis unfolding local_ok_with_def all_sides
      using c' o p a b t Msg nr by (cases "m_state s = STATE_CLOSED"; cases x) (simp_all add: take_task_def deliver_msg_def load_def Let_def)
  next
    case Death
    note c' = channel_take_death[OF c t[unfolded Death]]
    show ?thesis unfolding local_ok_with_def all_sides
      using c' o p a b t Death r by (cases x) (simp_all add: take_task_def deliver_death_def load_def Let_def)
  qed
qed

lemma return_ok:
  assumes s: "local_ok_with nw sd s" and e: "ch_busy (channel_to s x)"
  shows "local_ok_with nw sd (message_received ok x s)"
proof -
  let ?s = "add_post (-1) (update_channel x (\<lambda>ch. ch\<lparr>ch_busy := False\<rparr>) s)"
  have c: "channel_ok (m_state s = STATE_CLOSED) (nw x) (sd x) (channel_to s x)" and p: "progress_ok (l_progress s) (m_state s) nw sd"
    and o: "channel_ok (m_state s = STATE_CLOSED) (nw (other x)) (sd (other x)) (channel_to s (other x))"
    and a: "m_activePosts s = load (channel_to s Side_A) + load (channel_to s Side_B)"
    and r: "m_state s = STATE_REGISTRATION \<longrightarrow> (\<forall>x. \<not> ch_busy (channel_to s x))"
    using s by (simp_all add: local_ok_with_def)
  have ok1: "local_ok_with nw sd ?s" unfolding local_ok_with_def all_sides
    using channel_return[OF c] o p a e r by (cases x) (simp_all add: load_def)
  have "sd x" using c e by (auto simp: channel_ok_def)
  then have "m_state s \<noteq> STATE_CLOSED \<longrightarrow> l_progress s = Constructed"
    using p s e by (cases "l_progress s") (auto simp: local_ok_with_def)
  then have ok2: "local_ok_with nw sd (close ?s)" using close_ok[OF ok1] by simp
  have "message_received ok x s = (if ok then ?s else close ?s)"
    by (simp add: message_received_def close_def add_post_def post_death_def post_def update_channel_def Let_def)
  then show ?thesis using ok1 ok2 by simp
qed

lemma local_channel: "local_ok_with nw sd s \<Longrightarrow> channel_ok (m_state s = STATE_CLOSED) (nw x) (sd x) (channel_to s x)"
  by (simp add: local_ok_with_def)

lemma register_failed_ok:
  assumes s: "local_ok_with nw sd s" and x: "l_progress s = Register_New x \<or> l_progress s = Register_Started x"
  shows "local_ok_with nw sd (registration_failed (if x = Side_A then post_death Side_B s else s))"
proof -
  have f: "m_state s = STATE_REGISTRATION" "\<not> sd Side_A" "sd Side_B = (x = Side_A)"
    using s x by (cases x; auto simp: local_ok_with_def)+
  then have c: "channel_ok False (nw Side_A) False (channel_to s Side_A)" "channel_ok False (nw Side_B) (x = Side_A) (channel_to s Side_B)"
    and a: "m_activePosts s = load (channel_to s Side_A) + load (channel_to s Side_B)"
    using s by (simp_all add: local_ok_with_def all_sides)
  show ?thesis
  proof (cases x)
    case Side_A
    then have "channel_ok False (nw Side_B) True (channel_to s Side_B)" using c(2) by simp
    note c' = channel_close_unregistered[OF c(1)] channel_close[OF this]
    show ?thesis unfolding local_ok_with_def all_sides registration_failed_def
      using c' f a Side_A by (simp add: load_def)
  next
    case Side_B
    then have "channel_ok False (nw Side_B) False (channel_to s Side_B)" using c(2) by simp
    note c' = channel_close_unregistered[OF c(1)] channel_close_unregistered[OF this]
    show ?thesis unfolding local_ok_with_def all_sides registration_failed_def
      using c' f a Side_B by simp
  qed
qed

lemma register_new_ok:
  assumes s: "local_ok_with nw sd s" and x: "l_progress s = Register_New x"
  shows "local_ok_with (nw(x := True)) sd ((tell x On_New_Connection s)\<lparr>l_progress := Register_Started x\<rparr>)"
proof -
  have f: "m_state s = STATE_REGISTRATION" "\<not> nw x" "\<not> sd Side_A" "sd Side_B = (x = Side_A)" "nw Side_B = (x = Side_A)" "\<not> nw Side_A"
    "\<not> ch_busy (channel_to s Side_A)" "\<not> ch_busy (channel_to s Side_B)"
    using s x by (cases x; auto simp: local_ok_with_def)+
  then have "\<not> sd x" by (cases x) simp_all
  have "channel_ok False (nw x) (sd x) (channel_to s x)" using local_channel[OF s, of x] f by simp
  then have c: "channel_ok False True False ((channel_to s x)\<lparr>ch_log := ch_log (channel_to s x) @ [On_New_Connection]\<rparr>)"
    using channel_new f(2) \<open>\<not> sd x\<close> by simp
  have o: "channel_ok False (nw (other x)) (sd (other x)) (channel_to s (other x))" using s f by (simp add: local_ok_with_def)
  have a: "m_activePosts s = load (channel_to s Side_A) + load (channel_to s Side_B)" using s by (simp add: local_ok_with_def)
  show ?thesis unfolding local_ok_with_def all_sides
    using c o f a \<open>\<not> sd x\<close> by (cases x) (simp_all add: load_def)
qed

lemma register_started_ok:
  assumes s: "local_ok_with nw sd s" and x: "l_progress s = Register_Started x"
  shows "local_ok_with nw (sd(x := True)) ((side_registered x s)\<lparr>l_progress := (if x = Side_B then Register_New Side_A else Finish)\<rparr>)"
proof -
  have f: "m_state s = STATE_REGISTRATION" "nw x" "\<not> sd x" "x = Side_A \<longrightarrow> sd Side_B" "x = Side_B \<longrightarrow> \<not> nw Side_A" "\<not> sd Side_A"
    "\<not> ch_busy (channel_to s Side_A)" "\<not> ch_busy (channel_to s Side_B)"
    using s x by (cases x; auto simp: local_ok_with_def)+
  have "channel_ok False (nw x) (sd x) (channel_to s x)" using local_channel[OF s, of x] f by simp
  then have c: "channel_ok False True True ((channel_to s x)\<lparr>ch_log := ch_log (channel_to s x) @ [On_Connection_Started], delayDeath := False\<rparr>)"
    using channel_started f(2,3) by simp
  have o: "channel_ok False (nw (other x)) (sd (other x)) (channel_to s (other x))" using s f by (simp add: local_ok_with_def)
  have a: "m_activePosts s = load (channel_to s Side_A) + load (channel_to s Side_B)" using s by (simp add: local_ok_with_def)
  show ?thesis unfolding local_ok_with_def all_sides
    using c o f a by (cases x) (simp_all add: side_registered_def load_def)
qed

lemma register_ok:
  assumes s: "local_ok_with nw sd s" and r: "registering (l_progress s)"
  shows "\<exists>nw' sd'. local_ok_with nw' sd' (register_channels ok s)"
proof (cases "l_progress s")
  case (Register_New x)
  then show ?thesis using register_new_ok[OF s Register_New] register_failed_ok[OF s, of x]
    by (cases ok; simp only: register_channels_def progress.case if_True if_False; blast)
next
  case (Register_Started x)
  then show ?thesis using register_started_ok[OF s Register_Started] register_failed_ok[OF s, of x]
    by (cases ok; simp only: register_channels_def progress.case if_True if_False; blast)
next
  case Finish
  then have "local_ok_with nw sd (register_channels ok s)"
    using s by (auto simp: register_channels_def local_ok_with_def all_sides)
  then show ?thesis by blast
qed (use r in simp_all)

lemma local_do_ok:
  assumes "local_ok s" "local_enabled e s" "case e of Send ok m x \<Rightarrow> ok \<or> \<not> registering (l_progress s) | _ \<Rightarrow> True"
  shows "local_ok (local_do e s)"
proof -
  obtain nw sd where s: "local_ok_with nw sd s" using assms(1) by (auto simp: local_ok_def)
  show ?thesis
  proof (cases e)
    case (Register ok)
    then show ?thesis using register_ok[OF s] assms(2) by (auto simp: local_ok_def)
  next
    case (Send ok m x)
    then have "local_ok_with nw sd (local_do e s)" using send_ok[OF s, of ok m x] assms(3) by simp
    then show ?thesis by (auto simp: local_ok_def)
  next
    case (Take x)
    then have "local_ok_with nw sd (local_do e s)" using take_ok[OF s, of x] assms(2) by simp
    then show ?thesis by (auto simp: local_ok_def)
  next
    case (Return ok x)
    then have "local_ok_with nw sd (local_do e s)" using return_ok[OF s, of x ok] assms(2) by simp
    then show ?thesis by (auto simp: local_ok_def)
  next
    case Destroy
    then have "local_ok_with nw sd (close s)" using close_ok[OF s] assms(2) by simp
    then have "local_ok_with nw sd (local_do e s)" using Destroy assms(2) s by (simp add: local_ok_with_def destroy_def)
    then show ?thesis by (auto simp: local_ok_def)
  next
    case Idle
    then have "local_ok_with nw sd (local_do e s)" using s assms(2) by (auto simp: local_ok_with_def await_idle_def)
    then show ?thesis by (auto simp: local_ok_def)
  qed
qed

lemma local_init_ok: "local_ok local_init"
proof -
  have "log_is [] False False [] False" by (simp add: log_is_def)
  then have "channel_ok False False False channel_init"
    unfolding channel_ok_def by (intro exI[of _ "[]"] exI[of _ False]) (simp add: channel_init_def)
  then have "local_ok_with (\<lambda>x. False) (\<lambda>x. False) local_init"
    by (simp add: local_ok_with_def local_init_def load_def channel_init_def channel_to_def all_sides)
  then show ?thesis by (auto simp: local_ok_def)
qed

lemma local_run_ok: "local_possible es s \<Longrightarrow> local_spared es s \<Longrightarrow> local_ok s \<Longrightarrow> local_ok (local_run es s)"
proof (induction es arbitrary: s)
  case (Cons e es)
  have "local_ok (local_do e s)" using local_do_ok[OF Cons.prems(3)] Cons.prems(1,2) by simp
  then show ?case using Cons by (simp add: local_run_def)
qed (simp add: local_run_def)

section \<open>The end\<close>

lemma no_load: "load ch = 0 \<longleftrightarrow> ch_strand ch = [] \<and> \<not> ch_busy ch"
  by (auto simp: load_def)

lemma load_nonneg: "0 \<le> load ch"
  by (simp add: load_def)

lemma idle_channels:
  assumes "local_ok s" "m_activePosts s = 0"
  shows "ch_strand (channel_to s x) = [] \<and> \<not> ch_busy (channel_to s x)"
proof -
  have "load (channel_to s Side_A) + load (channel_to s Side_B) = 0" using assms by (auto simp: local_ok_def local_ok_with_def)
  then have "load (channel_to s y) = 0" for y
    using load_nonneg[of "channel_to s Side_A"] load_nonneg[of "channel_to s Side_B"] by (cases y) simp_all
  then show ?thesis using no_load by blast
qed

lemma log_started_iff: "log_is l nw st ms dead \<Longrightarrow> On_Connection_Started \<in> set l \<longleftrightarrow> st"
  by (auto simp: log_is_def)

lemma idle_told:
  assumes "local_ok s" "m_activePosts s = 0" "m_state s = STATE_CLOSED" "On_Connection_Started \<in> set (ch_log (channel_to s x))"
  shows "last (ch_log (channel_to s x)) = On_Connection_Destroyed \<and> On_Connection_Destroyed \<in> set (ch_log (channel_to s x))"
proof -
  obtain nw sd where "local_ok_with nw sd s" using assms(1) by (auto simp: local_ok_def)
  from local_channel[OF this, of x] show ?thesis
  proof (rule channel_okE)
    fix ms dead
    assume h: "log_is (ch_log (channel_to s x)) (nw x) (sd x) ms dead"
      "deaths (ch_strand (channel_to s x)) + (if dead then 1 else 0) = (if m_state s = STATE_CLOSED \<and> sd x then 1 else 0)"
    have "sd x" using log_started_iff[OF h(1)] assms(4) by simp
    then have dead using h(2) idle_channels[OF assms(1,2), of x] assms(3) by (auto split: if_splits)
    then show ?thesis using h(1) by (simp add: log_is_def)
  qed
qed

definition over :: "'m local \<Rightarrow> bool" where
  "over s \<longleftrightarrow> l_progress s = Failed \<or> l_progress s = Gone"

lemma over_closed: "local_ok s \<Longrightarrow> over s \<Longrightarrow> m_state s = STATE_CLOSED"
  by (auto simp: local_ok_def local_ok_with_def over_def)

lemma over_not_connected:
  assumes "local_ok s" "over s" "m_activePosts s = 0"
  shows "\<not> connected x s"
proof
  assume c: "connected x s"
  have "On_Connection_Started \<in> set (ch_log (channel_to s x))"
  proof (cases "l_progress s = Failed")
    case False
    then have g: "l_progress s = Gone" using assms(2) by (simp add: over_def)
    obtain nw sd where o: "local_ok_with nw sd s" using assms(1) by (auto simp: local_ok_def)
    then have "sd x" using g by (cases x) (simp_all add: local_ok_with_def)
    then show ?thesis using local_channel[OF o, of x] by (auto simp: channel_ok_def log_started_iff)
  qed (use c in \<open>simp add: connected_def\<close>)
  then show False using idle_told[OF assms(1,3) over_closed[OF assms(1,2)]] c by (simp add: connected_def)
qed

lemma over_idle_do:
  assumes "local_ok s" "local_enabled e s" "over s \<longrightarrow> m_activePosts s = 0" "over (local_do e s)"
  shows "m_activePosts (local_do e s) = 0"
proof (cases "over s")
  case True
  then have z: "m_activePosts s = 0" using assms(3) by simp
  then show ?thesis using assms(2) True over_not_connected[OF assms(1) True z] idle_channels[OF assms(1) z]
    by (cases e) (auto simp: over_def split: list.splits)
next
  case False
  then show ?thesis using assms(2,4)
    by (cases e) (auto simp: over_def await_idle_def register_channels_def registration_failed_def destroy_def post_msg_def Let_def
      take_task_def deliver_msg_def deliver_death_def message_received_def split: progress.splits if_splits list.splits task.splits)
qed

lemma over_idle_run:
  "local_possible es s \<Longrightarrow> local_spared es s \<Longrightarrow> local_ok s \<Longrightarrow> (over s \<longrightarrow> m_activePosts s = 0) \<Longrightarrow>
    over (local_run es s) \<Longrightarrow> m_activePosts (local_run es s) = 0"
proof (induction es arbitrary: s)
  case (Cons e es)
  have "local_ok (local_do e s)" using local_do_ok[OF Cons.prems(3)] Cons.prems(1,2) by simp
  moreover have "over (local_do e s) \<longrightarrow> m_activePosts (local_do e s) = 0"
    using over_idle_do[OF Cons.prems(3) _ Cons.prems(4)] Cons.prems(1) by simp
  ultimately show ?case using Cons by (simp add: local_run_def)
qed (simp add: local_run_def)

section \<open>Progress\<close>

definition is_drain :: "'m local_event \<Rightarrow> bool" where
  "is_drain e = (case e of Take x \<Rightarrow> True | Return ok x \<Rightarrow> True | _ \<Rightarrow> False)"

definition drain_weight :: "'m local \<Rightarrow> nat" where
  "drain_weight s = (let w = (\<lambda>ch. 2 * length (ch_strand ch) + (if ch_busy ch then 1 else 0)) in w (channel_to s Side_A) + w (channel_to s Side_B))"

definition awaiting :: "'m local \<Rightarrow> bool" where
  "awaiting s \<longleftrightarrow> l_progress s = Unwinding \<or> l_progress s = Destructing"

lemma awaiting_closed: "local_ok s \<Longrightarrow> awaiting s \<Longrightarrow> m_state s = STATE_CLOSED"
  by (auto simp: local_ok_def local_ok_with_def awaiting_def)

lemma drain_step:
  assumes "local_ok s" "awaiting s" "is_drain e" "local_enabled e s"
  shows "local_ok (local_do e s) \<and> awaiting (local_do e s) \<and> drain_weight (local_do e s) < drain_weight s"
proof -
  note c = awaiting_closed[OF assms(1,2)]
  obtain nw sd where o: "local_ok_with nw sd s" using assms(1) by (auto simp: local_ok_def)
  have ok: "local_ok (local_do e s)" using local_do_ok[OF assms(1,4)] assms(3) by (cases e) (simp_all add: is_drain_def)
  show ?thesis
  proof (cases e)
    case (Take x)
    then obtain t ts where t: "ch_strand (channel_to s x) = t # ts" "\<not> ch_busy (channel_to s x)"
      using assms(4) by (cases "ch_strand (channel_to s x)") auto
    show ?thesis
    proof (cases t)
      case (Msg m)
      then show ?thesis using ok Take t c assms(2)
        by (cases x) (simp_all add: take_task_def deliver_msg_def awaiting_def drain_weight_def)
    next
      case Death
      have "\<not> delayDeath (channel_to s x)" using channel_take_death[OF local_channel[OF o, of x]] t Death by simp
      then show ?thesis using ok Take t Death assms(2)
        by (cases x) (simp_all add: take_task_def deliver_death_def awaiting_def drain_weight_def)
    qed
  next
    case (Return r x)
    then show ?thesis using ok assms(2,4) c
      by (cases x; cases r) (simp_all add: message_received_def close_def awaiting_def drain_weight_def)
  qed (use assms(3) in \<open>simp_all add: is_drain_def\<close>)
qed

lemma drain_possible:
  assumes "local_ok s" "awaiting s" "m_activePosts s \<noteq> 0"
  shows "\<exists>e. is_drain e \<and> local_enabled e s"
proof -
  have "load (channel_to s Side_A) + load (channel_to s Side_B) \<noteq> 0" using assms by (auto simp: local_ok_def local_ok_with_def)
  then obtain x where "load (channel_to s x) \<noteq> 0" by (metis add.right_neutral)
  then consider "ch_busy (channel_to s x)" | t ts where "\<not> ch_busy (channel_to s x)" "ch_strand (channel_to s x) = t # ts"
    using no_load by (cases "ch_strand (channel_to s x)") auto
  then show ?thesis
  proof cases
    case 1
    then show ?thesis by (intro exI[of _ "Return True x"]) (simp add: is_drain_def)
  next
    case 2
    then show ?thesis using awaiting_closed[OF assms(1,2)]
      by (intro exI[of _ "Take x"]) (simp add: is_drain_def split: task.splits)
  qed
qed

text \<open>
  Meanwhile the communicators may go on sending, as long as nobody has told them of the end: a message that is posted adds a
  task, one that cannot be copied changes nothing, for the connection is closed already.
\<close>

definition is_posted :: "'m local_event \<Rightarrow> bool" where
  "is_posted e = (case e of Send ok m x \<Rightarrow> ok | _ \<Rightarrow> False)"

lemma send_step:
  assumes "local_ok s" "awaiting s" "local_enabled (Send ok m x) s"
  shows "local_ok (local_do (Send ok m x) s) \<and> awaiting (local_do (Send ok m x) s) \<and>
    drain_weight (local_do (Send ok m x) s) = drain_weight s + (if ok then 2 else 0)"
proof -
  have "\<not> registering (l_progress s)" using assms(2) by (auto simp: awaiting_def)
  then have "local_ok (local_do (Send ok m x) s)" using local_do_ok[OF assms(1,3)] by simp
  then show ?thesis using assms(2) awaiting_closed[OF assms(1,2)]
    by (cases x; cases ok) (simp_all add: post_msg_def close_def Let_def awaiting_def drain_weight_def)
qed

lemma awaiting_step:
  assumes "local_ok s" "awaiting s" "local_enabled e s" "e \<noteq> Idle"
  shows "local_ok (local_do e s) \<and> awaiting (local_do e s) \<and>
    drain_weight (local_do e s) + (if is_drain e then 1 else 0) \<le> drain_weight s + (if is_posted e then 2 else 0)"
proof (cases "is_drain e")
  case True
  then show ?thesis using drain_step[OF assms(1,2) True assms(3)] by simp
next
  case False
  then obtain ok m x where e: "e = Send ok m x" using assms(2-4) by (cases e) (auto simp: is_drain_def awaiting_def)
  show ?thesis using send_step[OF assms(1,2), of ok m x] assms(3) False unfolding e by (simp add: is_posted_def)
qed

lemma drain_bounded:
  "local_ok s \<Longrightarrow> awaiting s \<Longrightarrow> Idle \<notin> set ys \<Longrightarrow> local_possible ys s \<Longrightarrow>
    local_ok (local_run ys s) \<and> awaiting (local_run ys s) \<and>
    length (filter is_drain ys) + drain_weight (local_run ys s) \<le> drain_weight s + 2 * length (filter is_posted ys)"
proof (induction ys arbitrary: s)
  case (Cons y ys)
  then have d: "local_ok (local_do y s) \<and> awaiting (local_do y s) \<and>
      drain_weight (local_do y s) + (if is_drain y then 1 else 0) \<le> drain_weight s + (if is_posted y then 2 else 0)"
    by (intro awaiting_step) auto
  then have "local_ok (local_run ys (local_do y s)) \<and> awaiting (local_run ys (local_do y s)) \<and>
      length (filter is_drain ys) + drain_weight (local_run ys (local_do y s)) \<le> drain_weight (local_do y s) + 2 * length (filter is_posted ys)"
    using Cons.IH[of "local_do y s"] Cons.prems by simp
  moreover have "local_run (y # ys) s = local_run ys (local_do y s)" by (simp add: local_run_def)
  ultimately show ?case using d by (auto split: if_splits)
qed (simp add: local_run_def)

lemma drains:
  "local_ok s \<Longrightarrow> awaiting s \<Longrightarrow> \<exists>zs. list_all is_drain zs \<and> local_possible zs s \<and> m_activePosts (local_run zs s) = 0"
proof (induction "drain_weight s" arbitrary: s rule: less_induct)
  case less
  show ?case
  proof (cases "m_activePosts s = 0")
    case True
    then show ?thesis by (intro exI[of _ "[]"]) (simp add: local_run_def)
  next
    case False
    obtain e where e: "is_drain e" "local_enabled e s" using drain_possible[OF less.prems False] by blast
    note d = drain_step[OF less.prems e]
    obtain zs where "list_all is_drain zs" "local_possible zs (local_do e s)" "m_activePosts (local_run zs (local_do e s)) = 0"
      using less.hyps[of "local_do e s"] d by blast
    then show ?thesis using e by (intro exI[of _ "e # zs"]) (simp add: local_run_def)
  qed
qed

lemma local_possible_append: "local_possible (xs @ ys) s \<longleftrightarrow> local_possible xs s \<and> local_possible ys (local_run xs s)"
  by (induction xs arbitrary: s) (simp_all add: local_run_def)

section \<open>Properties\<close>

text \<open>C19: If memory does not run out for a message while the communicators are being registered (\<open>local_spared\<close>; otherwise
  see \<open>refused_connection_hangs\<close>), each communicator sees a proper course of events: \<^verbatim>\<open>on_new_connection\<close>,
  \<^verbatim>\<open>on_connection_started\<close>, messages, at most one \<^verbatim>\<open>on_connection_destroyed\<close>, nothing after it, and that only when
  the connection is closed.  The messages are the first of those sent to it, in order, each once.  The counter is that of
  the tasks that are posted or running; when the constructor has failed or the destructor is done, none is left, and
  every communicator that was told of the start has been told of the end.\<close>

theorem local_course_of_events:
  assumes "local_possible es local_init" "local_spared es local_init"
  shows "\<exists>nw st ms dead. ch_log (channel_to (local_run es local_init) x) =
      (if nw then [On_New_Connection] else []) @ (if st then [On_Connection_Started] else []) @
      map On_Message_Received ms @ (if dead then [On_Connection_Destroyed] else []) \<and>
    (st \<longrightarrow> nw) \<and> (ms \<noteq> [] \<or> dead \<longrightarrow> st) \<and> (dead \<longrightarrow> m_state (local_run es local_init) = STATE_CLOSED) \<and>
    prefix ms (ch_sent (channel_to (local_run es local_init) x)) \<and>
    m_activePosts (local_run es local_init) = load (channel_to (local_run es local_init) Side_A) + load (channel_to (local_run es local_init) Side_B) \<and>
    (over (local_run es local_init) \<longrightarrow> ch_strand (channel_to (local_run es local_init) x) = [] \<and>
       \<not> ch_busy (channel_to (local_run es local_init) x) \<and> (st \<longrightarrow> dead))"
proof -
  let ?s = "local_run es local_init"
  have ok: "local_ok ?s" using local_run_ok[OF assms local_init_ok] .
  then obtain nw sd where o: "local_ok_with nw sd ?s" by (auto simp: local_ok_def)
  have a: "m_activePosts ?s = load (channel_to ?s Side_A) + load (channel_to ?s Side_B)" using o by (simp add: local_ok_with_def)
  have z: "over ?s \<longrightarrow> m_activePosts ?s = 0"
    using over_idle_run[OF assms local_init_ok] by (simp add: over_def local_init_def)
  from local_channel[OF o, of x] show ?thesis
  proof (rule channel_okE)
    fix ms dead
    assume h: "log_is (ch_log (channel_to ?s x)) (nw x) (sd x) ms dead"
      "deaths (ch_strand (channel_to ?s x)) + (if dead then 1 else 0) = (if m_state ?s = STATE_CLOSED \<and> sd x then 1 else 0)"
      "if m_state ?s = STATE_CLOSED then prefix ms (ch_sent (channel_to ?s x)) else ch_sent (channel_to ?s x) = ms @ messages (ch_strand (channel_to ?s x))"
    have "prefix ms (ch_sent (channel_to ?s x))" using h(3) by (auto split: if_splits)
    moreover have "dead \<longrightarrow> m_state ?s = STATE_CLOSED" using h(2) by (auto split: if_splits)
    moreover have "over ?s \<longrightarrow> ch_strand (channel_to ?s x) = [] \<and> \<not> ch_busy (channel_to ?s x) \<and> (sd x \<longrightarrow> dead)"
      using z idle_channels[OF ok, of x] over_closed[OF ok] h(2) by (auto split: if_splits)
    ultimately show ?thesis using h(1) a unfolding log_is_def
      by (intro exI[of _ "nw x"] exI[of _ "sd x"] exI[of _ ms] exI[of _ dead]) blast
  qed
qed

text \<open>C20: Under the same condition, constructor and destructor do not wait forever: while one of them waits, whatever happens in
  whatever order, the strands run at most \<open>drain_weight\<close> tasks and ends of tasks, and two more for every message that
  is still posted; at every moment they can go on until the counter is 0.\<close>

theorem local_await_idle_returns:
  assumes "local_possible es local_init" "local_spared es local_init" "awaiting (local_run es local_init)"
    and "Idle \<notin> set ys" "local_possible ys (local_run es local_init)"
  shows "length (filter is_drain ys) \<le> drain_weight (local_run es local_init) + 2 * length (filter is_posted ys) \<and>
    (\<exists>zs. list_all is_drain zs \<and> local_possible (es @ ys @ zs) local_init \<and> m_activePosts (local_run (es @ ys @ zs) local_init) = 0)"
proof -
  have ok: "local_ok (local_run es local_init)" using local_run_ok[OF assms(1,2) local_init_ok] .
  note b = drain_bounded[OF ok assms(3-5)]
  obtain zs where "list_all is_drain zs" "local_possible zs (local_run ys (local_run es local_init))"
      "m_activePosts (local_run zs (local_run ys (local_run es local_init))) = 0"
    using drains b by blast
  then show ?thesis using b assms(1,5) by (intro conjI exI[of _ zs]) (simp_all add: local_possible_append, simp_all add: local_run_def)
qed

lemmas local_eval = local_run_def local_init_def channel_init_def register_channels_def tell_def update_channel_def side_registered_def
  connected_def post_msg_def add_post_def close_def post_death_def post_def registration_failed_def take_task_def deliver_death_def
  deliver_msg_def message_received_def destroy_def await_idle_def channel_to_def Let_def

text \<open>If a message cannot be copied while the communicators are being registered and the second one then refuses the
  connection, the first one is told twice that it was destroyed, and the constructor never returns: the
  death of the other channel is posted again and again.\<close>

definition unlucky_registration :: "nat local_event list" where
  "unlucky_registration = [Register True, Register True, Send False 7 Side_A, Register False, Take Side_B, Take Side_B]"

theorem refused_connection_hangs:
  shows "local_possible unlucky_registration local_init \<and>
    (let s = local_run unlucky_registration local_init in
       l_progress s = Unwinding \<and> m_activePosts s = 1 \<and>
       ch_log (channel_to s Side_B) = [On_New_Connection, On_Connection_Started, On_Connection_Destroyed, On_Connection_Destroyed] \<and>
       \<not> local_enabled (Take Side_B) s \<and> local_enabled (Take Side_A) s \<and> (\<forall>x. channel_to (local_do (Take Side_A) s) x = channel_to s x) \<and>
       m_activePosts (local_do (Take Side_A) s) = 1)"
  by (simp add: unlucky_registration_def local_eval all_sides)

section \<open>Examples\<close>

text \<open>Side B sends two messages; the first one is handled, then the connection is destroyed.\<close>

definition sample_course :: "nat local_event list" where
  "sample_course = [Register True, Send True 1 Side_A, Register True, Register True, Register True, Register True, Send True 2 Side_A,
     Take Side_A, Return True Side_A, Destroy]"

definition sample_end :: "nat local_event list" where
  "sample_end = [Take Side_A, Take Side_B, Take Side_A, Idle]"

lemma local_course_of_events_witness:
  "\<exists>ms. ch_log (channel_to (local_run (sample_course @ sample_end) local_init) Side_A) =
     [On_New_Connection, On_Connection_Started] @ map On_Message_Received ms @ [On_Connection_Destroyed]"
proof -
  let ?s = "local_run (sample_course @ sample_end) local_init"
  have p: "local_possible (sample_course @ sample_end) local_init" by code_simp
  have q: "local_spared (sample_course @ sample_end) local_init" by code_simp
  have o: "over ?s" by code_simp
  have m: "On_Connection_Started \<in> set (ch_log (channel_to ?s Side_A))" by code_simp
  obtain nw st ms dead where h: "ch_log (channel_to ?s Side_A) = (if nw then [On_New_Connection] else []) @
      (if st then [On_Connection_Started] else []) @ map On_Message_Received ms @ (if dead then [On_Connection_Destroyed] else [])"
      "st \<longrightarrow> nw" "over ?s \<longrightarrow> st \<longrightarrow> dead"
    using local_course_of_events[OF p q, of Side_A] by blast
  have st using m unfolding h(1) by (auto split: if_splits)
  then have "ch_log (channel_to ?s Side_A) = [On_New_Connection, On_Connection_Started] @ map On_Message_Received ms @ [On_Connection_Destroyed]"
    using h o by simp
  then show ?thesis by blast
qed

text \<open>The first task of side A runs while side B sends a third message.\<close>

lemma local_await_idle_returns_witness:
  "\<exists>zs. list_all is_drain zs \<and> m_activePosts (local_run (sample_course @ [Send True 3 Side_A, Take Side_A] @ zs) local_init) = 0"
proof -
  have p: "local_possible sample_course local_init" by code_simp
  have q: "local_spared sample_course local_init" by code_simp
  have a: "awaiting (local_run sample_course local_init)" by code_simp
  have d: "Idle \<notin> set [Send True 3 Side_A, Take Side_A :: nat local_event]" by simp
  have y: "local_possible [Send True 3 Side_A, Take Side_A] (local_run sample_course local_init)" by code_simp
  show ?thesis using local_await_idle_returns[OF p q a d y] by blast
qed

end
