(* ===== verification/Mapped_Fsm.thy ===== *)
theory Mapped_Fsm
  imports Ids
begin

text \<open>
  \<^verbatim>\<open>core/common/MappedObjectFsm.hpp\<close>: the state of one terminal or binding with respect to its
  counterpart at the other end of a connection.  The callbacks a method receives are the outputs of
  its definition, in the order of the calls; \<open>None\<close> is \<^verbatim>\<open>YOGI_NEVER_REACHED\<close> or a failed
  assertion.  A method that returns \<^verbatim>\<open>bool\<close> tells whether the object has to be kept.
\<close>

section \<open>State\<close>

datatype fsm_state = UNUSED_UNCONFIRMED | UNUSED_CONFIRMED | MAPPED_UNCONFIRMED | MAPPED_CONFIRMED
  | AWAIT_ACK | AWAIT_CONFIRMATION | AWAIT_REMOVALS

text \<open>The counter is only decremented when it is positive, so that a natural number can hold it.\<close>

record fsm =
  m_state :: fsm_state
  m_skipRemovedAcks :: nat
  m_mappedId :: id

definition fsm_init :: fsm where
  "fsm_init = \<lparr>m_state = UNUSED_CONFIRMED, m_skipRemovedAcks = 0, m_mappedId = default_id\<rparr>"

text \<open>
  The callbacks.  All callers pass \<^verbatim>\<open>process_rcvd_mapping\<close> a \<^verbatim>\<open>sendRemFn\<close> that sends the Id
  they have just received, which is why it is an argument of \<open>SendRem\<close> there, too.
\<close>

datatype fsm_out = SendDesc | SendMapp | SendRem id | SendRemAck id | MappStChanged bool

section \<open>Operations\<close>

definition is_mapped :: "fsm \<Rightarrow> bool" where
  "is_mapped f = (case m_state f of MAPPED_UNCONFIRMED \<Rightarrow> True | MAPPED_CONFIRMED \<Rightarrow> True | _ \<Rightarrow> False)"

definition fsm_destroyed :: "fsm \<Rightarrow> bool" where
  "fsm_destroyed f = (case m_state f of
      UNUSED_UNCONFIRMED \<Rightarrow> False | UNUSED_CONFIRMED \<Rightarrow> False
    | MAPPED_UNCONFIRMED \<Rightarrow> False | MAPPED_CONFIRMED \<Rightarrow> False
    | AWAIT_ACK \<Rightarrow> True | AWAIT_CONFIRMATION \<Rightarrow> True | AWAIT_REMOVALS \<Rightarrow> True)"

definition fsm_reset :: "bool \<Rightarrow> fsm \<Rightarrow> fsm \<times> fsm_out list" where
  "fsm_reset hidden f = (
     let (st, out) = (if hidden then (UNUSED_CONFIRMED, []) else (UNUSED_UNCONFIRMED, [SendDesc]))
     in (f\<lparr>m_state := st, m_mappedId := default_id, m_skipRemovedAcks := 0\<rparr>, out))"

definition process_object_destroyed :: "fsm \<Rightarrow> (fsm \<times> fsm_out list \<times> bool) option" where
  "process_object_destroyed f = (case m_state f of
      MAPPED_CONFIRMED \<Rightarrow> Some (f\<lparr>m_state := AWAIT_ACK\<rparr>, [SendRem (m_mappedId f)], True)
    | UNUSED_CONFIRMED \<Rightarrow>
        if m_skipRemovedAcks f > 0 then Some (f\<lparr>m_state := AWAIT_REMOVALS\<rparr>, [], True)
        else Some (f, [], False)
    | MAPPED_UNCONFIRMED \<Rightarrow> Some (f\<lparr>m_state := AWAIT_CONFIRMATION\<rparr>, [], True)
    | UNUSED_UNCONFIRMED \<Rightarrow> Some (f\<lparr>m_state := AWAIT_CONFIRMATION\<rparr>, [], True)
    | _ \<Rightarrow> None)"

definition process_rcvd_description :: "id \<Rightarrow> fsm \<Rightarrow> (fsm \<times> fsm_out list) option" where
  "process_rcvd_description remoteId f = (case m_state f of
      UNUSED_UNCONFIRMED \<Rightarrow>
        Some (f\<lparr>m_mappedId := remoteId, m_state := MAPPED_UNCONFIRMED\<rparr>, [SendMapp, MappStChanged True])
    | UNUSED_CONFIRMED \<Rightarrow>
        Some (f\<lparr>m_mappedId := remoteId, m_state := MAPPED_CONFIRMED\<rparr>, [SendMapp, MappStChanged True])
    | MAPPED_UNCONFIRMED \<Rightarrow>
        Some (f\<lparr>m_mappedId := remoteId, m_skipRemovedAcks := Suc (m_skipRemovedAcks f)\<rparr>,
          [SendRemAck (m_mappedId f), SendMapp, MappStChanged False, MappStChanged True])
    | MAPPED_CONFIRMED \<Rightarrow>
        Some (f\<lparr>m_mappedId := remoteId, m_skipRemovedAcks := Suc (m_skipRemovedAcks f)\<rparr>,
          [SendRemAck (m_mappedId f), SendMapp, MappStChanged False, MappStChanged True])
    | _ \<Rightarrow> None)"

definition process_rcvd_mapping :: "id \<Rightarrow> fsm \<Rightarrow> (fsm \<times> fsm_out list) option" where
  "process_rcvd_mapping remoteId f = (case m_state f of
      UNUSED_UNCONFIRMED \<Rightarrow>
        Some (f\<lparr>m_mappedId := remoteId, m_state := MAPPED_CONFIRMED\<rparr>, [MappStChanged True])
    | MAPPED_UNCONFIRMED \<Rightarrow> do { yassert (remoteId = m_mappedId f);
        Some (f\<lparr>m_state := MAPPED_CONFIRMED\<rparr>, []) }
    | AWAIT_CONFIRMATION \<Rightarrow>
        if \<not> id_valid (m_mappedId f) \<or> m_mappedId f = remoteId
        then Some (f\<lparr>m_mappedId := remoteId, m_state := AWAIT_ACK\<rparr>, [SendRem remoteId])
        else Some (f\<lparr>m_mappedId := remoteId, m_state := AWAIT_ACK,
            m_skipRemovedAcks := Suc (m_skipRemovedAcks f)\<rparr>,
          [SendRemAck (m_mappedId f), SendRem remoteId])
    | _ \<Rightarrow> None)"

definition process_rcvd_noticed :: "fsm \<Rightarrow> (fsm \<times> fsm_out list \<times> bool) option" where
  "process_rcvd_noticed f = (case m_state f of
      UNUSED_UNCONFIRMED \<Rightarrow> Some (f\<lparr>m_state := UNUSED_CONFIRMED\<rparr>, [], True)
    | MAPPED_UNCONFIRMED \<Rightarrow>
        Some (f\<lparr>m_mappedId := default_id, m_state := UNUSED_CONFIRMED,
            m_skipRemovedAcks := Suc (m_skipRemovedAcks f)\<rparr>,
          [SendRemAck (m_mappedId f), MappStChanged False], True)
    | AWAIT_CONFIRMATION \<Rightarrow>
        if id_valid (m_mappedId f)
        then Some (f\<lparr>m_mappedId := default_id, m_state := AWAIT_REMOVALS,
            m_skipRemovedAcks := Suc (m_skipRemovedAcks f)\<rparr>, [SendRemAck (m_mappedId f)], True)
        else Some (f, [], False)
    | _ \<Rightarrow> None)"

definition process_rcvd_removed :: "fsm \<Rightarrow> (fsm \<times> fsm_out list \<times> bool) option" where
  "process_rcvd_removed f = (case m_state f of
      UNUSED_CONFIRMED \<Rightarrow> do { yassert (m_skipRemovedAcks f > 0);
        Some (f\<lparr>m_skipRemovedAcks := m_skipRemovedAcks f - 1\<rparr>, [], True) }
    | MAPPED_CONFIRMED \<Rightarrow>
        if m_skipRemovedAcks f > 0
        then Some (f\<lparr>m_skipRemovedAcks := m_skipRemovedAcks f - 1\<rparr>, [], True)
        else Some (f\<lparr>m_mappedId := default_id, m_state := UNUSED_CONFIRMED\<rparr>,
          [SendRemAck (m_mappedId f), MappStChanged False], True)
    | AWAIT_ACK \<Rightarrow>
        if m_skipRemovedAcks f > 0
        then do { yassert (id_valid (m_mappedId f));
          Some (f\<lparr>m_skipRemovedAcks := m_skipRemovedAcks f - 1\<rparr>, [], True) }
        else do { yassert (id_valid (m_mappedId f));
          Some (f\<lparr>m_mappedId := default_id\<rparr>, [SendRemAck (m_mappedId f)], True) }
    | AWAIT_REMOVALS \<Rightarrow>
        if m_skipRemovedAcks f > 1
        then Some (f\<lparr>m_skipRemovedAcks := m_skipRemovedAcks f - 1\<rparr>, [], True)
        else do { yassert (m_skipRemovedAcks f = 1); Some (f, [], False) }
    | _ \<Rightarrow> None)"

definition process_rcvd_removed_ack :: "fsm \<Rightarrow> bool option" where
  "process_rcvd_removed_ack f = (case m_state f of
      AWAIT_ACK \<Rightarrow> do { yassert (m_skipRemovedAcks f = 0); Some False }
    | _ \<Rightarrow> None)"

lemmas fsm_defs = process_object_destroyed_def process_rcvd_description_def process_rcvd_mapping_def
  process_rcvd_noticed_def process_rcvd_removed_def process_rcvd_removed_ack_def

section \<open>The methods as steps of one machine\<close>

datatype fsm_event = Destroyed | Rcvd_Description id | Rcvd_Mapping id | Rcvd_Noticed | Rcvd_Removed
  | Rcvd_Removed_Ack

definition keep :: "(fsm \<times> fsm_out list) option \<Rightarrow> (fsm \<times> fsm_out list \<times> bool) option" where
  "keep r = map_option (\<lambda>(f, out). (f, out, True)) r"

fun fsm_step :: "fsm_event \<Rightarrow> fsm \<Rightarrow> (fsm \<times> fsm_out list \<times> bool) option" where
  "fsm_step Destroyed f = process_object_destroyed f"
| "fsm_step (Rcvd_Description i) f = keep (process_rcvd_description i f)"
| "fsm_step (Rcvd_Mapping i) f = keep (process_rcvd_mapping i f)"
| "fsm_step Rcvd_Noticed f = process_rcvd_noticed f"
| "fsm_step Rcvd_Removed f = process_rcvd_removed f"
| "fsm_step Rcvd_Removed_Ack f = map_option (\<lambda>b. (f, [], b)) (process_rcvd_removed_ack f)"

text \<open>A run feeds the events to the object until one of them lets the caller erase it.\<close>

fun fsm_run :: "fsm_event list \<Rightarrow> fsm \<Rightarrow> (fsm \<times> fsm_out list \<times> bool) option" where
  "fsm_run [] f = Some (f, [], True)"
| "fsm_run (e # es) f = do { (f1, out1, alive) \<leftarrow> fsm_step e f;
     if alive then do { (f2, out2, b) \<leftarrow> fsm_run es f1; Some (f2, out1 @ out2, b) }
     else (if es = [] then Some (f1, out1, False) else None) }"

section \<open>Invariant\<close>

definition fsm_ok :: "fsm \<Rightarrow> bool" where
  "fsm_ok f \<longleftrightarrow> (case m_state f of
      UNUSED_UNCONFIRMED \<Rightarrow> \<not> id_valid (m_mappedId f) \<and> m_skipRemovedAcks f = 0
    | UNUSED_CONFIRMED \<Rightarrow> \<not> id_valid (m_mappedId f)
    | MAPPED_UNCONFIRMED \<Rightarrow> id_valid (m_mappedId f)
    | MAPPED_CONFIRMED \<Rightarrow> id_valid (m_mappedId f)
    | AWAIT_ACK \<Rightarrow> id_valid (m_mappedId f) \<or> m_skipRemovedAcks f = 0
    | AWAIT_CONFIRMATION \<Rightarrow> id_valid (m_mappedId f) \<or> m_skipRemovedAcks f = 0
    | AWAIT_REMOVALS \<Rightarrow> \<not> id_valid (m_mappedId f) \<and> m_skipRemovedAcks f > 0)"

fun event_ok :: "fsm_event \<Rightarrow> bool" where
  "event_ok (Rcvd_Description i) = id_valid i"
| "event_ok (Rcvd_Mapping i) = id_valid i"
| "event_ok _ = True"

lemma fsm_ok_init: "fsm_ok fsm_init"
  by (simp add: fsm_ok_def fsm_init_def)

lemma fsm_ok_reset: "fsm_ok (fst (fsm_reset h f))"
  by (simp add: fsm_ok_def fsm_reset_def)

lemma fsm_step_ok:
  assumes "fsm_step e f = Some (f', out, b)" "event_ok e" "fsm_ok f"
  shows "fsm_ok f'"
  using assms
  by (cases e; cases "m_state f")
    (auto simp: fsm_defs keep_def fsm_ok_def default_not_valid split: if_splits)

lemma fsm_run_ok:
  "fsm_run es f = Some (f', out, b) \<Longrightarrow> list_all event_ok es \<Longrightarrow> fsm_ok f \<Longrightarrow> fsm_ok f'"
proof (induction es arbitrary: f f' out b)
  case Nil
  then show ?case by simp
next
  case (Cons e es)
  then obtain f1 out1 alive where s: "fsm_step e f = Some (f1, out1, alive)"
    by (auto simp: bind_eq_Some_conv)
  have ok: "fsm_ok f1" using fsm_step_ok[OF s] Cons.prems by simp
  show ?case
  proof (cases alive)
    case True
    then obtain f2 out2 b2 where r: "fsm_run es f1 = Some (f2, out2, b2)" "f' = f2"
      using Cons.prems(1) s by (auto simp: bind_eq_Some_conv)
    then show ?thesis using Cons.IH[OF r(1) _ ok] Cons.prems(2) by simp
  next
    case False
    then show ?thesis using Cons.prems(1) s ok by (auto split: if_splits)
  qed
qed

section \<open>Every removal is acknowledged exactly once\<close>

text \<open>
  An acknowledgement sent ahead of its removal is remembered by the counter.  \<open>pending\<close> is the
  counter of an object that stays and 0 for one that has been let go.
\<close>

definition acks :: "fsm_out list \<Rightarrow> nat" where
  "acks out = length (filter (\<lambda>x. case x of SendRemAck _ \<Rightarrow> True | _ \<Rightarrow> False) out)"

definition removals :: "fsm_event list \<Rightarrow> nat" where
  "removals es = length (filter (\<lambda>e. e = Rcvd_Removed) es)"

definition pending :: "fsm \<Rightarrow> bool \<Rightarrow> nat" where
  "pending f alive = (if alive then m_skipRemovedAcks f else 0)"

lemma fsm_step_acks:
  assumes "fsm_step e f = Some (f', out, b)" "fsm_ok f"
  shows "acks out + m_skipRemovedAcks f = removals [e] + pending f' b"
  using assms
  by (cases e; cases "m_state f")
    (auto simp: fsm_defs keep_def fsm_ok_def acks_def removals_def pending_def split: if_splits)

lemma fsm_run_acks:
  "fsm_run es f = Some (f', out, b) \<Longrightarrow> list_all event_ok es \<Longrightarrow> fsm_ok f \<Longrightarrow>
    acks out + m_skipRemovedAcks f = removals es + pending f' b"
proof (induction es arbitrary: f f' out b)
  case Nil
  then show ?case by (auto simp: acks_def removals_def pending_def)
next
  case (Cons e es)
  then obtain f1 out1 alive where s: "fsm_step e f = Some (f1, out1, alive)"
    by (auto simp: bind_eq_Some_conv)
  note a1 = fsm_step_acks[OF s Cons.prems(3)]
  have ok: "fsm_ok f1" using fsm_step_ok[OF s] Cons.prems by simp
  show ?case
  proof (cases alive)
    case True
    then obtain f2 out2 b2 where r: "fsm_run es f1 = Some (f2, out2, b2)" "f' = f2" "out = out1 @ out2" "b = b2"
      using Cons.prems(1) s by (auto simp: bind_eq_Some_conv)
    have "acks out2 + m_skipRemovedAcks f1 = removals es + pending f2 b2"
      using Cons.IH[OF r(1) _ ok] Cons.prems(2) by simp
    then show ?thesis using a1 True r by (auto simp: acks_def removals_def pending_def)
  next
    case False
    then have "es = []" "f' = f1" "out = out1" "b = False"
      using Cons.prems(1) s by (auto split: if_splits)
    then show ?thesis using a1 False by simp
  qed
qed

section \<open>Notifications follow the mapping\<close>

text \<open>The value of the last notification, starting from what the object was.\<close>

definition last_change :: "bool \<Rightarrow> fsm_out list \<Rightarrow> bool" where
  "last_change b out = foldl (\<lambda>c x. case x of MappStChanged m \<Rightarrow> m | _ \<Rightarrow> c) b out"

text \<open>Consecutive notifications differ: the receiver never sees the same value twice.\<close>

fun alternating :: "bool \<Rightarrow> fsm_out list \<Rightarrow> bool" where
  "alternating b [] = True"
| "alternating b (MappStChanged m # out) = (m \<noteq> b \<and> alternating m out)"
| "alternating b (_ # out) = alternating b out"

lemma fsm_step_changes:
  assumes "fsm_step e f = Some (f', out, b)" "e \<noteq> Destroyed"
  shows "last_change (is_mapped f) out = is_mapped f'" "alternating (is_mapped f) out"
  using assms
  by (cases e; cases "m_state f"; auto simp: fsm_defs keep_def is_mapped_def last_change_def split: if_splits)+

section \<open>Properties\<close>

text \<open>C33: Over every run of the machine without a failed assertion, from its constructor or from \<^verbatim>\<open>reset\<close> at the start of a
  connection, as an object that describes itself first or as a hidden one, the number of acknowledgements
  sent is the number of removals received plus those the counter still expects; in particular an object
  that has been let go has acknowledged every removal exactly once, although some were acknowledged before they arrived.\<close>

theorem removals_acknowledged_once:
  assumes "f0 = fsm_init \<or> (\<exists>hidden g. f0 = fst (fsm_reset hidden g))"
    and "fsm_run es f0 = Some (f, out, alive)" "list_all event_ok es"
  shows "acks out = removals es + (if alive then m_skipRemovedAcks f else 0)"
proof -
  have "fsm_ok f0" "m_skipRemovedAcks f0 = 0"
    using assms(1) fsm_ok_init fsm_ok_reset by (auto simp: fsm_init_def fsm_reset_def)
  then show ?thesis using fsm_run_acks[OF assms(2,3)] by (simp add: pending_def)
qed

text \<open>
  A described object is mapped twice by descriptions and a third time by the mapping that answers its own description, when
  it has been destroyed meanwhile: two acknowledgements are sent before the removals arrive.  In the second run
  the other end has noticed the description only, so that its first object is gone: this is acknowledged ahead, too.
\<close>

definition early_acks :: "fsm_event list" where
  "early_acks = [Rcvd_Description (Id 4), Rcvd_Description (Id 5), Destroyed, Rcvd_Mapping (Id 6), Rcvd_Removed, Rcvd_Removed,
     Rcvd_Removed, Rcvd_Removed_Ack]"

definition noticed_acks :: "fsm_event list" where
  "noticed_acks = [Rcvd_Description (Id 4), Rcvd_Noticed, Rcvd_Description (Id 5)]"

lemma removals_acknowledged_once_witness:
  "(\<exists>f out. fsm_run early_acks (fst (fsm_reset False fsm_init)) = Some (f, out, False) \<and> acks out = 3) \<and>
   (\<exists>f out. fsm_run noticed_acks (fst (fsm_reset False fsm_init)) = Some (f, out, True) \<and> acks out = 1 \<and> m_skipRemovedAcks f = 1)"
proof
  let ?f0 = "fst (fsm_reset False fsm_init)"
  have s: "?f0 = fsm_init \<or> (\<exists>hidden g. ?f0 = fst (fsm_reset hidden g))" by blast
  have "map_option (snd \<circ> snd) (fsm_run early_acks ?f0) = Some False" by code_simp
  then obtain f out where r: "fsm_run early_acks ?f0 = Some (f, out, False)" by auto
  have "list_all event_ok early_acks" "removals early_acks = 3" by code_simp+
  then show "\<exists>f out. fsm_run early_acks ?f0 = Some (f, out, False) \<and> acks out = 3" using removals_acknowledged_once[OF s r] r by auto
  have "map_option (\<lambda>(f, out, alive). (alive, m_skipRemovedAcks f)) (fsm_run noticed_acks ?f0) = Some (True, 1)" by code_simp
  then obtain g out' where q: "fsm_run noticed_acks ?f0 = Some (g, out', True)" "m_skipRemovedAcks g = 1" by auto
  have "list_all event_ok noticed_acks" "removals noticed_acks = 0" by code_simp+
  then show "\<exists>f out. fsm_run noticed_acks ?f0 = Some (f, out, True) \<and> acks out = 1 \<and> m_skipRemovedAcks f = 1"
    using removals_acknowledged_once[OF s q(1)] q by auto
qed

lemma fsm_run_changes:
  "fsm_run es f = Some (f', out, b) \<Longrightarrow> Destroyed \<notin> set es \<Longrightarrow>
    last_change (is_mapped f) out = is_mapped f' \<and> alternating (is_mapped f) out"
proof (induction es arbitrary: f f' out b)
  case Nil
  then show ?case by (simp add: last_change_def)
next
  case (Cons e es)
  then obtain f1 out1 al where s: "fsm_step e f = Some (f1, out1, al)" by (auto simp: bind_eq_Some_conv)
  note c = fsm_step_changes[OF s]
  have app: "alternating m (xs @ ys) \<longleftrightarrow> alternating m xs \<and> alternating (last_change m xs) ys" for m xs ys
    by (induction m xs rule: alternating.induct) (auto simp: last_change_def)
  show ?case
  proof (cases al)
    case True
    then obtain f2 out2 b2 where r: "fsm_run es f1 = Some (f2, out2, b2)" "f' = f2" "out = out1 @ out2"
      using Cons.prems(1) s by (auto simp: bind_eq_Some_conv)
    have "last_change (last_change (is_mapped f) out1) out2 = is_mapped f2 \<and>
        alternating (last_change (is_mapped f) out1) out2"
      using Cons.IH[OF r(1)] Cons.prems(2) c(1) by auto
    then show ?thesis using c r app Cons.prems(2) by (auto simp: last_change_def)
  next
    case False
    then show ?thesis using Cons.prems s c by (auto split: if_splits)
  qed
qed

text \<open>The owner's view of the mapping is exact: the notifications of a run alternate between mapped
  and unmapped, and the last one is what \<^verbatim>\<open>is_mapped()\<close> returns afterwards.\<close>

theorem notifications_alternate:
  assumes "fsm_run es fsm_init = Some (f, out, alive)" "Destroyed \<notin> set es"
  shows "alternating False out \<and> last_change False out = is_mapped f"
  using fsm_run_changes[OF assms] by (simp add: fsm_init_def is_mapped_def)

lemma notifications_alternate_witness:
  "\<exists>f out. fsm_run [Rcvd_Description (Id 4), Rcvd_Description (Id 5)] fsm_init = Some (f, out, True) \<and> is_mapped f \<and>
     filter (\<lambda>x. x = MappStChanged True \<or> x = MappStChanged False) out = [MappStChanged True, MappStChanged False, MappStChanged True]"
proof -
  define es where "es = [Rcvd_Description (Id 4), Rcvd_Description (Id 5)]"
  have "map_option (\<lambda>x. (fst (snd x), snd (snd x))) (fsm_run es fsm_init) =
     Some ([SendMapp, MappStChanged True, SendRemAck (Id 4), SendMapp, MappStChanged False, MappStChanged True], True)"
    unfolding es_def by code_simp
  then obtain f where r: "fsm_run es fsm_init =
     Some (f, [SendMapp, MappStChanged True, SendRemAck (Id 4), SendMapp, MappStChanged False, MappStChanged True], True)" by auto
  have "Destroyed \<notin> set es" by (simp add: es_def)
  from notifications_alternate[OF r this] show ?thesis using r by (simp add: es_def last_change_def)
qed

end
