(* ===== verification/Mapped_Protocol.thy ===== *)
theory Mapped_Protocol
  imports Mapped_Fsm
begin

text \<open>
  Two state machines at the ends of a connection: a leaf or a node describes the terminals or bindings
  with some identifier one after the other, the node at the other end maps them.  Messages travel in
  order in both directions and may be delayed arbitrarily.  The machines never get into a state they
  do not expect, and when all messages have arrived both ends agree.
\<close>

section \<open>The two ends\<close>

text \<open>
  The messages about one identifier; the first Id is that of the describing end, that of a removal the
  one of the mapping end.
\<close>

datatype to_mapper = Msg_Description id | Msg_Removed id
datatype to_describer = Msg_Mapping id id | Msg_Removed_Ack id

text \<open>
  The describing end: its entries with this identifier in the order of their creation, of which at most
  the last one, \<open>de_visible\<close>, is not hidden.  The mapping end: its entry, if it has one.  Its entries get
  the Ids \<open>ids 0\<close>, \<open>ids 1\<close>, \dots.
\<close>

record describer =
  de_entries :: "(id \<times> fsm) list"
  de_visible :: "id option"

record mapper =
  ma_entry :: "(id \<times> fsm) option"
  ma_count :: nat

record endpoints =
  describing :: describer
  mapping :: mapper
  to_map :: "to_mapper list"
  to_describe :: "to_describer list"

definition endpoints_init :: endpoints where
  "endpoints_init = \<lparr>describing = \<lparr>de_entries = [], de_visible = None\<rparr>,
     mapping = \<lparr>ma_entry = None, ma_count = 0\<rparr>, to_map = [], to_describe = []\<rparr>"

text \<open>The callbacks of the describing and of the mapping end.\<close>

fun describer_out :: "id \<Rightarrow> fsm_out \<Rightarrow> to_mapper list" where
  "describer_out i SendDesc = [Msg_Description i]"
| "describer_out i (SendRem k) = [Msg_Removed k]"
| "describer_out i _ = []"

fun mapper_out :: "id \<Rightarrow> id \<Rightarrow> fsm_out \<Rightarrow> to_describer list" where
  "mapper_out i k SendMapp = [Msg_Mapping i k]"
| "mapper_out i k (SendRemAck j) = [Msg_Removed_Ack j]"
| "mapper_out i k _ = []"

text \<open>A new object, and the end of the visible one.\<close>

definition describe_new :: "id \<Rightarrow> describer \<Rightarrow> (describer \<times> to_mapper list) option" where
  "describe_new i d = (let (f, outs) = fsm_reset False fsm_init in
     Some (\<lparr>de_entries = de_entries d @ [(i, f)], de_visible = Some i\<rparr>, concat (map (describer_out i) outs)))"

definition describe_destroyed :: "describer \<Rightarrow> (describer \<times> to_mapper list) option" where
  "describe_destroyed d = do {
     i \<leftarrow> de_visible d;
     f \<leftarrow> map_of (de_entries d) i;
     (f', outs, alive) \<leftarrow> process_object_destroyed f;
     Some (\<lparr>de_entries = (if alive then AList.update i f' (de_entries d) else AList.delete i (de_entries d)), de_visible = None\<rparr>,
       concat (map (describer_out i) outs)) }"

fun describer_receive :: "to_describer \<Rightarrow> describer \<Rightarrow> (describer \<times> to_mapper list) option" where
  "describer_receive (Msg_Mapping i k) d = do {
     f \<leftarrow> map_of (de_entries d) i;
     (f', outs) \<leftarrow> process_rcvd_mapping k f;
     Some (d\<lparr>de_entries := AList.update i f' (de_entries d)\<rparr>, concat (map (describer_out i) outs)) }"
| "describer_receive (Msg_Removed_Ack i) d = do {
     f \<leftarrow> map_of (de_entries d) i;
     alive \<leftarrow> process_rcvd_removed_ack f;
     Some (if alive then d else d\<lparr>de_entries := AList.delete i (de_entries d)\<rparr>, []) }"

text \<open>The mapping end forgets its entry when it is no longer mapped.\<close>

fun mapper_receive :: "(nat \<Rightarrow> id) \<Rightarrow> to_mapper \<Rightarrow> mapper \<Rightarrow> (mapper \<times> to_describer list) option" where
  "mapper_receive ids (Msg_Description i) m = do {
     let (k, f, c) = (case ma_entry m of None \<Rightarrow> (ids (ma_count m), fsm_init, Suc (ma_count m)) | Some (k, f) \<Rightarrow> (k, f, ma_count m));
     (f', outs) \<leftarrow> process_rcvd_description i f;
     Some (\<lparr>ma_entry = Some (k, f'), ma_count = c\<rparr>, concat (map (mapper_out i k) outs)) }"
| "mapper_receive ids (Msg_Removed k) m = do {
     (k', f) \<leftarrow> ma_entry m;
     yassert (k' = k);
     (f', outs, alive) \<leftarrow> process_rcvd_removed f;
     Some (m\<lparr>ma_entry := (if is_mapped f' then Some (k, f') else None)\<rparr>, concat (map (mapper_out default_id k) outs)) }"

text \<open>What may happen: objects come and go at the describing end, and the first message of a direction arrives.\<close>

datatype protocol_step = Create id | Destroy | Deliver_To_Mapper | Deliver_To_Describer

fun step_enabled :: "protocol_step \<Rightarrow> endpoints \<Rightarrow> bool" where
  "step_enabled (Create i) s = (id_valid i \<and> de_visible (describing s) = None \<and> i \<notin> fst ` set (de_entries (describing s)))"
| "step_enabled Destroy s = (de_visible (describing s) \<noteq> None)"
| "step_enabled Deliver_To_Mapper s = (to_map s \<noteq> [])"
| "step_enabled Deliver_To_Describer s = (to_describe s \<noteq> [])"

fun protocol_do :: "(nat \<Rightarrow> id) \<Rightarrow> protocol_step \<Rightarrow> endpoints \<Rightarrow> endpoints option" where
  "protocol_do ids (Create i) s = do { (d, out) \<leftarrow> describe_new i (describing s);
     Some (s\<lparr>describing := d, to_map := to_map s @ out\<rparr>) }"
| "protocol_do ids Destroy s = do { (d, out) \<leftarrow> describe_destroyed (describing s);
     Some (s\<lparr>describing := d, to_map := to_map s @ out\<rparr>) }"
| "protocol_do ids Deliver_To_Mapper s = do { (m, out) \<leftarrow> mapper_receive ids (hd (to_map s)) (mapping s);
     Some (s\<lparr>mapping := m, to_map := tl (to_map s), to_describe := to_describe s @ out\<rparr>) }"
| "protocol_do ids Deliver_To_Describer s = do { (d, out) \<leftarrow> describer_receive (hd (to_describe s)) (describing s);
     Some (s\<lparr>describing := d, to_map := to_map s @ out, to_describe := tl (to_describe s)\<rparr>) }"

text \<open>Every step of the sequence is possible where it happens.\<close>

fun protocol_possible :: "(nat \<Rightarrow> id) \<Rightarrow> protocol_step list \<Rightarrow> endpoints \<Rightarrow> bool" where
  "protocol_possible ids [] s = True"
| "protocol_possible ids (x # xs) s = (step_enabled x s \<and>
     (case protocol_do ids x s of None \<Rightarrow> True | Some s' \<Rightarrow> protocol_possible ids xs s'))"

definition protocol_run :: "(nat \<Rightarrow> id) \<Rightarrow> protocol_step list \<Rightarrow> endpoints \<Rightarrow> endpoints option" where
  "protocol_run ids xs s = for_each xs (protocol_do ids) s"

section \<open>The mapping end ahead of time\<close>

text \<open>
  The mapping end reacts only, so that it makes no difference when it gets its messages: \<open>absorb\<close> lets it
  handle all that are under way.
\<close>

fun absorb :: "(nat \<Rightarrow> id) \<Rightarrow> to_mapper list \<Rightarrow> mapper \<Rightarrow> (mapper \<times> to_describer list) option" where
  "absorb ids [] m = Some (m, [])"
| "absorb ids (x # xs) m = do { (m1, o1) \<leftarrow> mapper_receive ids x m; (m2, o2) \<leftarrow> absorb ids xs m1; Some (m2, o1 @ o2) }"

lemma absorb_append:
  "absorb ids (xs @ ys) m = do { (m1, o1) \<leftarrow> absorb ids xs m; (m2, o2) \<leftarrow> absorb ids ys m1; Some (m2, o1 @ o2) }"
  by (induction xs arbitrary: m) (auto simp: bind_assoc case_prod_beta split: bind_splits)

section \<open>Invariant\<close>

text \<open>
  The answers under way, read in order: the mappings, and the acknowledgements.  An acknowledgement of
  a removal never overtakes the mapping of the same entry.
\<close>

fun mappings :: "to_describer list \<Rightarrow> (id \<times> id) list" where
  "mappings [] = []"
| "mappings (Msg_Mapping i k # r) = (i, k) # mappings r"
| "mappings (Msg_Removed_Ack i # r) = mappings r"

fun removed_acks :: "to_describer list \<Rightarrow> id list" where
  "removed_acks [] = []"
| "removed_acks (Msg_Mapping i k # r) = removed_acks r"
| "removed_acks (Msg_Removed_Ack i # r) = i # removed_acks r"

fun in_order :: "to_describer list \<Rightarrow> bool" where
  "in_order [] = True"
| "in_order (Msg_Mapping i k # r) = in_order r"
| "in_order (Msg_Removed_Ack i # r) = (i \<notin> fst ` set (mappings r) \<and> in_order r)"

lemma answers_append [simp]:
  "mappings (xs @ ys) = mappings xs @ mappings ys" "removed_acks (xs @ ys) = removed_acks xs @ removed_acks ys"
  "in_order (xs @ ys) \<longleftrightarrow> in_order xs \<and> in_order ys \<and> set (removed_acks xs) \<inter> fst ` set (mappings ys) = {}"
  by (induction xs rule: mappings.induct) auto

text \<open>The entries that await their mapping, in the order of their creation.\<close>

definition pend :: "fsm \<Rightarrow> bool" where
  "pend f \<longleftrightarrow> m_state f = UNUSED_UNCONFIRMED \<or> m_state f = AWAIT_CONFIRMATION"

definition pending_ids :: "(id \<times> fsm) list \<Rightarrow> id list" where
  "pending_ids es = map fst (filter (\<lambda>(i, f). pend f) es)"

definition entry_ok :: "fsm \<Rightarrow> bool" where
  "entry_ok f \<longleftrightarrow> m_skipRemovedAcks f = 0 \<and> m_state f \<in> {UNUSED_UNCONFIRMED, AWAIT_CONFIRMATION, MAPPED_CONFIRMED, AWAIT_ACK} \<and>
     (pend f \<longrightarrow> m_mappedId f = default_id)"

definition in_state :: "(id \<times> fsm) list \<Rightarrow> fsm_state \<Rightarrow> id set" where
  "in_state es st = {i. \<exists>f. map_of es i = Some f \<and> m_state f = st}"

definition mapper_ok :: "(id \<times> fsm) list \<Rightarrow> id option \<Rightarrow> (id \<times> fsm) option \<Rightarrow> to_describer list \<Rightarrow> bool" where
  "mapper_ok es v me r = (case me of None \<Rightarrow> v = None \<and> pending_ids es = []
     | Some (k, g) \<Rightarrow> id_valid k \<and> m_state g = MAPPED_CONFIRMED \<and> snd ` set (mappings r) \<subseteq> {k} \<and>
       (if pending_ids es = []
        then \<exists>i f. v = Some i \<and> map_of es i = Some f \<and> m_state f = MAPPED_CONFIRMED \<and> m_mappedId f = k \<and> m_mappedId g = i \<and> m_skipRemovedAcks g = 0
        else in_state es MAPPED_CONFIRMED = {} \<and> m_mappedId g = last (pending_ids es) \<and> Suc (m_skipRemovedAcks g) = length (pending_ids es)))"

text \<open>
  What holds when the mapping end is ahead: exactly the entries without mapping wait for one, in their
  order, and exactly the removed ones and all but the last without mapping for an acknowledgement.
\<close>

definition ends_ok :: "(id \<times> fsm) list \<Rightarrow> id option \<Rightarrow> (id \<times> fsm) option \<Rightarrow> to_describer list \<Rightarrow> bool" where
  "ends_ok es v me r \<longleftrightarrow>
     distinct_keys es \<and> (\<forall>(i, f) \<in> set es. id_valid i \<and> entry_ok f) \<and>
     in_order r \<and> distinct (removed_acks r) \<and> set (removed_acks r) = in_state es AWAIT_ACK \<union> set (butlast (pending_ids es)) \<and>
     map fst (mappings r) = pending_ids es \<and>
     in_state es UNUSED_UNCONFIRMED \<union> in_state es MAPPED_CONFIRMED = (case v of None \<Rightarrow> {} | Some i \<Rightarrow> {i}) \<and>
     (\<forall>i. v = Some i \<longrightarrow> map fst es \<noteq> [] \<and> last (map fst es) = i) \<and> mapper_ok es v me r"

section \<open>Entries\<close>

lemma pending_simps [simp]: "pending_ids [] = []" "pending_ids (es @ fs) = pending_ids es @ pending_ids fs"
  "pending_ids ((i, f) # es) = (if pend f then i # pending_ids es else pending_ids es)"
  by (simp_all add: pending_ids_def)

lemma pending_keys: "set (pending_ids es) \<subseteq> fst ` set es"
  by (auto simp: pending_ids_def)

lemma pending_iff: "distinct_keys es \<Longrightarrow> i \<in> set (pending_ids es) \<longleftrightarrow> (\<exists>f. map_of es i = Some f \<and> pend f)"
  by (induction es) (auto simp: pending_ids_def image_iff)

lemma pending_distinct: "distinct_keys es \<Longrightarrow> distinct (pending_ids es)"
  by (simp add: pending_ids_def distinct_map_filter)

lemma update_entry:
  assumes "distinct_keys es" "map_of es i = Some f"
  shows "pending_ids (AList.update i f' es) = (if pend f' = pend f then pending_ids es
      else if pend f then filter (\<lambda>j. j \<noteq> i) (pending_ids es) else pending_ids (AList.update i f' es))"
    and "map fst (AList.update i f' es) = map fst es"
  using assms
proof (induction es)
  case (Cons a es)
  have rest: "filter (\<lambda>j. j \<noteq> i) (pending_ids es) = pending_ids es" if "i \<notin> fst ` set es"
    using that pending_keys[of es] by (intro filter_True) auto
  { case 1 then show ?case using Cons.IH(1) rest by (cases a) (auto split: if_splits) }
  { case 2 then show ?case using Cons.IH(2) by (cases a) (auto split: if_splits) }
qed simp_all

lemma state_update:
  "in_state (AList.update i f' es) st = (if m_state f' = st then insert i (in_state es st) else in_state es st - {i})"
  by (auto simp: in_state_def map_of_alist_update split: if_splits)

lemma delete_entry:
  assumes "map_of es i = Some f" "\<not> pend f"
  shows "distinct_keys es \<Longrightarrow> pending_ids (AList.delete i es) = pending_ids es" "in_state (AList.delete i es) st = in_state es st - {i}"
proof -
  show "in_state (AList.delete i es) st = in_state es st - {i}" by (auto simp: in_state_def delete_conv' split: if_splits)
  show "pending_ids (AList.delete i es) = pending_ids es" if "distinct_keys es"
    using assms that
  proof (induction es)
    case (Cons a es)
    have "AList.delete i es = es" if "i \<notin> fst ` set es" using that by (simp add: delete_idem)
    then show ?case using Cons by (cases a) (auto split: if_splits)
  qed simp
qed

section \<open>Steps\<close>

lemma ends_okD:
  assumes "ends_ok es v me r"
  shows "distinct_keys es" "map_of es i = Some f \<Longrightarrow> id_valid i \<and> entry_ok f" "in_order r" "distinct (removed_acks r)"
    "set (removed_acks r) = in_state es AWAIT_ACK \<union> set (butlast (pending_ids es))" "map fst (mappings r) = pending_ids es"
    "in_state es UNUSED_UNCONFIRMED \<union> in_state es MAPPED_CONFIRMED = (case v of None \<Rightarrow> {} | Some i \<Rightarrow> {i})"
    "v = Some i \<Longrightarrow> map fst es \<noteq> [] \<and> last (map fst es) = i" "mapper_ok es v me r"
  using assms by (auto simp: ends_ok_def dest: map_of_SomeD)

lemma in_state_iff: "map_of es i = Some f \<Longrightarrow> i \<in> in_state es st \<longleftrightarrow> m_state f = st"
  by (simp add: in_state_def)

lemma acks_keys:
  assumes "ends_ok es v me r"
  shows "set (removed_acks r) \<subseteq> fst ` set es" "fst ` set (mappings r) \<subseteq> fst ` set es"
proof -
  have "in_state es st \<subseteq> fst ` set es" for st by (auto simp: in_state_def dest!: map_of_SomeD) (force simp: image_iff)
  moreover have "set (butlast (pending_ids es)) \<subseteq> fst ` set es" using pending_keys[of es] by (auto dest: in_set_butlastD)
  ultimately show "set (removed_acks r) \<subseteq> fst ` set es" unfolding ends_okD(5)[OF assms] by blast
  show "fst ` set (mappings r) \<subseteq> fst ` set es" using pending_keys[of es] ends_okD(6)[OF assms] by (metis set_map)
qed

lemma last_pending: "distinct_keys es \<Longrightarrow> pending_ids es \<noteq> [] \<Longrightarrow> last (pending_ids es) \<notin> set (butlast (pending_ids es))"
  using pending_distinct[of es] by (metis append_butlast_last_id distinct_append disjoint_insert(2) list.simps(15) )

lemma create_ok:
  assumes e: "ends_ok (de_entries d) (de_visible d) (ma_entry m) r" and v: "de_visible d = None" and i: "id_valid i" "i \<notin> fst ` set (de_entries d)"
    and ids: "\<forall>n. id_valid (ids n)"
  shows "\<exists>d' out m' ans. describe_new i d = Some (d', out) \<and> absorb ids out m = Some (m', ans) \<and>
    ends_ok (de_entries d') (de_visible d') (ma_entry m') (r @ ans)"
proof -
  let ?es = "de_entries d"
  define f where "f = \<lparr>m_state = UNUSED_UNCONFIRMED, m_skipRemovedAcks = 0, m_mappedId = default_id\<rparr>"
  let ?es' = "?es @ [(i, f)]"
  have new: "describe_new i d = Some (\<lparr>de_entries = ?es', de_visible = Some i\<rparr>, [Msg_Description i])"
    by (simp add: describe_new_def fsm_reset_def fsm_init_def f_def)
  note D = ends_okD[OF e]
  have pf: "pend f" "entry_ok f" by (simp_all add: f_def pend_def entry_ok_def)
  have pi: "pending_ids ?es' = pending_ids ?es @ [i]" using pf by simp
  have st: "in_state ?es' s = (if s = UNUSED_UNCONFIRMED then insert i (in_state ?es s) else in_state ?es s)" for s
  proof -
    have "map_of ?es i = None" using i(2) by (simp add: map_of_eq_None_iff)
    then have "map_of ?es' j = (if j = i then Some f else map_of ?es j)" for j by (cases "map_of ?es j") (auto simp: map_add_def)
    then show ?thesis using \<open>map_of ?es i = None\<close> unfolding in_state_def by (auto simp: f_def)
  qed
  have none: "in_state ?es UNUSED_UNCONFIRMED = {}" "in_state ?es MAPPED_CONFIRMED = {}" using D(7) v by auto
  note keys = acks_keys[OF e]
  have dk: "distinct_keys ?es'" "\<forall>(j, g) \<in> set ?es'. id_valid j \<and> entry_ok g" using e i pf by (auto simp: ends_ok_def)
  show ?thesis
  proof (cases "ma_entry m")
    case None
    let ?k = "ids (ma_count m)"
    define g where "g = \<lparr>m_state = MAPPED_CONFIRMED, m_skipRemovedAcks = 0, m_mappedId = i\<rparr>"
    have a: "absorb ids [Msg_Description i] m = Some (\<lparr>ma_entry = Some (?k, g), ma_count = Suc (ma_count m)\<rparr>, [Msg_Mapping i ?k])"
      by (simp add: None process_rcvd_description_def fsm_init_def g_def)
    have p: "pending_ids ?es = []" using D(9) None by (simp add: mapper_ok_def)
    then have mp: "mappings r = []" using D(6) by simp
    have "mapper_ok ?es' (Some i) (Some (?k, g)) (r @ [Msg_Mapping i ?k])"
      unfolding mapper_ok_def using pi p ids mp st[of MAPPED_CONFIRMED] none by (simp add: g_def)
    then have "ends_ok ?es' (Some i) (Some (?k, g)) (r @ [Msg_Mapping i ?k])"
      unfolding ends_ok_def using dk D(3-6) st none p keys(1) i(2) pf by auto
    then show ?thesis using new a by auto
  next
    case (Some kg)
    obtain k g where kg: "kg = (k, g)" by (cases kg)
    note M = D(9)[unfolded mapper_ok_def Some kg option.case prod.case]
    have ne: "pending_ids ?es \<noteq> []" using M v by auto
    let ?j = "last (pending_ids ?es)"
    have g: "m_state g = MAPPED_CONFIRMED" "m_mappedId g = ?j" "Suc (m_skipRemovedAcks g) = length (pending_ids ?es)" using M ne by simp_all
    define g' where "g' = g\<lparr>m_mappedId := i, m_skipRemovedAcks := Suc (m_skipRemovedAcks g)\<rparr>"
    have a: "absorb ids [Msg_Description i] m = Some (\<lparr>ma_entry = Some (k, g'), ma_count = ma_count m\<rparr>, [Msg_Removed_Ack ?j, Msg_Mapping i k])"
      using g by (simp add: Some kg process_rcvd_description_def g'_def)
    have "mapper_ok ?es' (Some i) (Some (k, g')) (r @ [Msg_Removed_Ack ?j, Msg_Mapping i k])"
      unfolding mapper_ok_def using pi M g st[of MAPPED_CONFIRMED] none by (simp add: g'_def)
    moreover have j: "?j \<in> set (pending_ids ?es)" using ne by simp
    then have "?j \<notin> set (removed_acks r)"
    proof -
      obtain f' where "map_of ?es ?j = Some f'" "pend f'" using j pending_iff[OF D(1)] by blast
      then have "?j \<notin> in_state ?es AWAIT_ACK" by (auto simp: in_state_def pend_def)
      then show ?thesis using last_pending[OF D(1) ne] unfolding D(5) by blast
    qed
    moreover have "i \<noteq> ?j" using j pending_keys[of ?es] i(2) by blast
    moreover have "set (pending_ids ?es) = insert ?j (set (butlast (pending_ids ?es)))"
      using ne by (metis append_butlast_last_id list.simps(15) rotate1.simps(2) set_rotate1)
    ultimately have "ends_ok ?es' (Some i) (Some (k, g')) (r @ [Msg_Removed_Ack ?j, Msg_Mapping i k])"
      unfolding ends_ok_def using dk D(3-6) st none keys(1) i(2) pf by auto
    then show ?thesis using new a by auto
  qed
qed

lemma entries_update:
  assumes "distinct_keys es" "\<forall>(j, g) \<in> set es. id_valid j \<and> entry_ok g" "map_of es i = Some f" "entry_ok f'"
  shows "distinct_keys (AList.update i f' es)" "\<forall>(j, g) \<in> set (AList.update i f' es). id_valid j \<and> entry_ok g"
proof -
  show dk: "distinct_keys (AList.update i f' es)" by (rule distinct_keys_update[OF assms(1)])
  have "id_valid i" using assms(2) map_of_SomeD[OF assms(3)] by auto
  moreover have "id_valid j \<and> entry_ok g" if "map_of es j = Some g" for j g using assms(2) map_of_SomeD[OF that] by auto
  ultimately have "id_valid j \<and> entry_ok g" if "map_of (AList.update i f' es) j = Some g" for j g
    using that assms(4) by (auto simp: map_of_alist_update split: if_splits)
  then show "\<forall>(j, g) \<in> set (AList.update i f' es). id_valid j \<and> entry_ok g" using map_of_is_SomeI[OF dk] by fast
qed

lemma destroy_ok:
  assumes e: "ends_ok (de_entries d) (de_visible d) (ma_entry m) r" and v: "de_visible d = Some i"
  shows "\<exists>d' out m' ans. describe_destroyed d = Some (d', out) \<and> absorb ids out m = Some (m', ans) \<and>
    ends_ok (de_entries d') (de_visible d') (ma_entry m') (r @ ans)"
proof -
  let ?es = "de_entries d"
  note D = ends_okD[OF e]
  have vs: "in_state ?es UNUSED_UNCONFIRMED \<union> in_state ?es MAPPED_CONFIRMED = {i}" using D(7) v by simp
  then obtain f where f: "map_of ?es i = Some f" "m_state f = UNUSED_UNCONFIRMED \<or> m_state f = MAPPED_CONFIRMED"
    by (force simp: in_state_def)
  have all: "\<forall>(j, g) \<in> set ?es. id_valid j \<and> entry_ok g" using e by (simp add: ends_ok_def)
  have fo: "entry_ok f" using D(2)[OF f(1)] by simp
  show ?thesis
  proof (cases "m_state f = UNUSED_UNCONFIRMED")
    case True
    let ?f = "f\<lparr>m_state := AWAIT_CONFIRMATION\<rparr>" and ?es' = "AList.update i (f\<lparr>m_state := AWAIT_CONFIRMATION\<rparr>) ?es"
    have x: "describe_destroyed d = Some (\<lparr>de_entries = ?es', de_visible = None\<rparr>, [])"
      using True v f(1) by (simp add: describe_destroyed_def process_object_destroyed_def)
    have pf: "pend f" "pend ?f" "entry_ok ?f" using True fo by (auto simp: pend_def entry_ok_def)
    have pi: "pending_ids ?es' = pending_ids ?es" using update_entry(1)[OF D(1) f(1), of ?f] pf by simp
    have mc: "i \<notin> in_state ?es MAPPED_CONFIRMED" "i \<notin> in_state ?es AWAIT_ACK" using True by (simp_all add: in_state_iff[OF f(1)])
    have ip: "i \<in> set (pending_ids ?es)" using pending_iff[OF D(1)] f(1) pf(1) by blast
    have st: "in_state ?es' UNUSED_UNCONFIRMED = {}" "in_state ?es' MAPPED_CONFIRMED = {}" "in_state ?es' AWAIT_ACK = in_state ?es AWAIT_ACK"
      using vs mc unfolding state_update by auto
    have "mapper_ok ?es' None (ma_entry m) r"
      using D(9) ip unfolding mapper_ok_def pi st v by (auto split: option.splits if_splits)
    then have "ends_ok ?es' None (ma_entry m) r"
      unfolding ends_ok_def using entries_update[OF D(1) all f(1) pf(3)] D(3-6) st pi by simp
    then show ?thesis using x by simp
  next
    case False
    then have mc: "m_state f = MAPPED_CONFIRMED" using f(2) by simp
    have nt: "pending_ids ?es = []"
    proof (rule ccontr)
      assume "pending_ids ?es \<noteq> []"
      then have "in_state ?es MAPPED_CONFIRMED = {}" using D(9) v by (auto simp: mapper_ok_def split: option.splits)
      then show False using in_state_iff[OF f(1), of MAPPED_CONFIRMED] mc by simp
    qed
    obtain k g where m: "ma_entry m = Some (k, g)" "id_valid k" "m_state g = MAPPED_CONFIRMED" "m_mappedId f = k" "m_mappedId g = i" "m_skipRemovedAcks g = 0"
      using D(9) nt v f(1) by (auto simp: mapper_ok_def split: option.splits)
    let ?f = "f\<lparr>m_state := AWAIT_ACK\<rparr>" and ?es' = "AList.update i (f\<lparr>m_state := AWAIT_ACK\<rparr>) ?es"
    have x: "describe_destroyed d = Some (\<lparr>de_entries = ?es', de_visible = None\<rparr>, [Msg_Removed k])"
      using mc v f(1) m(4) by (simp add: describe_destroyed_def process_object_destroyed_def)
    have a: "absorb ids [Msg_Removed k] m = Some (m\<lparr>ma_entry := None\<rparr>, [Msg_Removed_Ack i])"
      using m by (simp add: process_rcvd_removed_def is_mapped_def)
    have pf: "\<not> pend f" "\<not> pend ?f" "entry_ok ?f" using mc fo by (auto simp: pend_def entry_ok_def)
    have pi: "pending_ids ?es' = []" using update_entry(1)[OF D(1) f(1), of ?f] pf nt by simp
    have mc': "i \<notin> in_state ?es UNUSED_UNCONFIRMED" "i \<notin> in_state ?es AWAIT_ACK" using mc by (simp_all add: in_state_iff[OF f(1)])
    have st: "in_state ?es' UNUSED_UNCONFIRMED = {}" "in_state ?es' MAPPED_CONFIRMED = {}" "in_state ?es' AWAIT_ACK = insert i (in_state ?es AWAIT_ACK)"
      using vs mc' unfolding state_update by auto
    have "mapper_ok ?es' None None (r @ [Msg_Removed_Ack i])" by (simp add: mapper_ok_def pi)
    moreover have "i \<notin> set (removed_acks r)" using D(5) mc' nt by simp
    ultimately have "ends_ok ?es' None None (r @ [Msg_Removed_Ack i])"
      unfolding ends_ok_def using entries_update[OF D(1) all f(1) pf(3)] D(3-6) st pi nt by simp
    then show ?thesis using x a by auto
  qed
qed

lemma hd_eq_last: "distinct xs \<Longrightarrow> xs = x # ys \<Longrightarrow> last xs = x \<longleftrightarrow> ys = []"
  by (cases ys rule: rev_cases) auto

lemma last_pend:
  assumes "distinct_keys es" "map_of es i = Some f" "pend f" "map fst es \<noteq> [] \<and> last (map fst es) = i"
  shows "last (pending_ids es) = i"
proof -
  obtain xs a where es: "es = xs @ [a]" using assms(4) by (cases es rule: rev_cases) auto
  then have "fst a = i" using assms(4) by simp
  moreover from this have "a = (i, f)" using map_of_SomeD[OF assms(2)] assms(1) es by (cases a) force
  ultimately show ?thesis using es assms(3) by simp
qed

lemma mapping_arrives_ok:
  assumes e: "ends_ok (de_entries d) (de_visible d) (ma_entry m) (Msg_Mapping i k # r)"
  shows "\<exists>d' out m' ans. describer_receive (Msg_Mapping i k) d = Some (d', out) \<and> absorb ids out m = Some (m', ans) \<and>
    ends_ok (de_entries d') (de_visible d') (ma_entry m') (r @ ans)"
proof -
  let ?es = "de_entries d" and ?v = "de_visible d"
  note D = ends_okD[OF e]
  have all: "\<forall>(j, g) \<in> set ?es. id_valid j \<and> entry_ok g" using e by (simp add: ends_ok_def)
  obtain ps where ps: "pending_ids ?es = i # ps" "map fst (mappings r) = ps" using D(6) by (cases "pending_ids ?es") auto
  have dp: "distinct (i # ps)" using pending_distinct[OF D(1)] ps(1) by simp
  obtain f where f: "map_of ?es i = Some f" "pend f" using pending_iff[OF D(1), of i] ps(1) by auto
  have fo: "entry_ok f" using D(2)[OF f(1)] by simp
  obtain g where m: "ma_entry m = Some (k, g)" "id_valid k" "m_state g = MAPPED_CONFIRMED" "snd ` set (mappings r) \<subseteq> {k}"
      "in_state ?es MAPPED_CONFIRMED = {}" "m_mappedId g = last (i # ps)" "m_skipRemovedAcks g = length ps"
    using D(9) ps(1) unfolding mapper_ok_def by (auto split: option.splits)
  have acks: "distinct (removed_acks r)" "in_order r" "set (removed_acks r) = in_state ?es AWAIT_ACK \<union> set (butlast (i # ps))"
    using D(3-5) unfolding ps(1) by simp_all
  have drop: "pending_ids (AList.update i f' ?es) = ps" if "\<not> pend f'" for f'
  proof -
    have "filter (\<lambda>j. j \<noteq> i) (i # ps) = ps" using dp by (auto intro: filter_True)
    then show ?thesis using update_entry(1)[OF D(1) f(1), of f'] f(2) that ps(1) by simp
  qed
  show ?thesis
  proof (cases "m_state f = UNUSED_UNCONFIRMED")
    case True
    let ?f = "f\<lparr>m_mappedId := k, m_state := MAPPED_CONFIRMED\<rparr>" and ?es' = "AList.update i (f\<lparr>m_mappedId := k, m_state := MAPPED_CONFIRMED\<rparr>) ?es"
    have x: "describer_receive (Msg_Mapping i k) d = Some (d\<lparr>de_entries := ?es'\<rparr>, [])"
      using True f(1) by (simp add: process_rcvd_mapping_def)
    have "i \<in> in_state ?es UNUSED_UNCONFIRMED" using in_state_iff[OF f(1), of UNUSED_UNCONFIRMED] True by simp
    then have "i \<in> (case ?v of None \<Rightarrow> {} | Some j \<Rightarrow> {j})" using D(7) by blast
    then have v: "?v = Some i" by (cases ?v) simp_all
    have pf: "\<not> pend ?f" "entry_ok ?f" using fo by (auto simp: pend_def entry_ok_def)
    have "last (i # ps) = i" using last_pend[OF D(1) f] D(8)[OF v] ps(1) by simp
    then have p0: "ps = []" using hd_eq_last[OF dp refl] by simp
    have st: "in_state ?es' UNUSED_UNCONFIRMED = {}" "in_state ?es' MAPPED_CONFIRMED = {i}" "in_state ?es' AWAIT_ACK = in_state ?es AWAIT_ACK"
      using D(7) v m(5) in_state_iff[OF f(1), of AWAIT_ACK] True unfolding state_update by auto
    have "mapper_ok ?es' ?v (ma_entry m) r"
      unfolding mapper_ok_def m(1) using m(2-7) drop[OF pf(1)] p0 v by (simp add: map_of_alist_update)
    then have "ends_ok ?es' ?v (ma_entry m) r"
      unfolding ends_ok_def using entries_update[OF D(1) all f(1) pf(2)] acks st drop[OF pf(1)] p0 ps(2) v D(8) update_entry(2)[OF D(1) f(1)] by simp
    then show ?thesis using x by simp
  next
    case False
    then have ac: "m_state f = AWAIT_CONFIRMATION" using f(2) by (simp add: pend_def)
    let ?f = "f\<lparr>m_mappedId := k, m_state := AWAIT_ACK\<rparr>" and ?es' = "AList.update i (f\<lparr>m_mappedId := k, m_state := AWAIT_ACK\<rparr>) ?es"
    have "m_mappedId f = default_id" using fo f(2) by (simp add: entry_ok_def)
    then have x: "describer_receive (Msg_Mapping i k) d = Some (d\<lparr>de_entries := ?es'\<rparr>, [Msg_Removed k])"
      using ac f(1) by (simp add: process_rcvd_mapping_def)
    have pf: "\<not> pend ?f" "entry_ok ?f" using fo by (auto simp: pend_def entry_ok_def)
    have st: "in_state ?es' UNUSED_UNCONFIRMED = in_state ?es UNUSED_UNCONFIRMED" "in_state ?es' MAPPED_CONFIRMED = {}"
      "in_state ?es' AWAIT_ACK = insert i (in_state ?es AWAIT_ACK)"
      using m(5) in_state_iff[OF f(1), of UNUSED_UNCONFIRMED] ac unfolding state_update by auto
    show ?thesis
    proof (cases "ps = []")
      case True
      have a: "absorb ids [Msg_Removed k] m = Some (m\<lparr>ma_entry := None\<rparr>, [Msg_Removed_Ack i])"
        using m True by (simp add: process_rcvd_removed_def is_mapped_def)
      have v: "?v = None"
      proof (cases ?v)
        case (Some j)
        then have "in_state ?es UNUSED_UNCONFIRMED = {j}" using D(7) m(5) by simp
        then obtain h where h: "map_of ?es j = Some h" "m_state h = UNUSED_UNCONFIRMED" by (auto simp: in_state_def)
        then have "j \<in> set (pending_ids ?es)" using pending_iff[OF D(1)] by (auto simp: pend_def)
        then have "j = i" using ps(1) True by simp
        then show ?thesis using h f(1) ac by simp
      qed
      have "i \<notin> set (removed_acks r)" using acks(3) True in_state_iff[OF f(1), of AWAIT_ACK] ac by simp
      moreover have "mapper_ok ?es' None None (r @ [Msg_Removed_Ack i])" using drop[OF pf(1)] True by (simp add: mapper_ok_def)
      ultimately have "ends_ok ?es' ?v None (r @ [Msg_Removed_Ack i])"
        unfolding ends_ok_def v using entries_update[OF D(1) all f(1) pf(2)] acks st drop[OF pf(1)] True ps(2) v D(7) m(5) by simp
      then show ?thesis using x a by auto
    next
      case False
      let ?g = "g\<lparr>m_skipRemovedAcks := m_skipRemovedAcks g - 1\<rparr>"
      have a: "absorb ids [Msg_Removed k] m = Some (m\<lparr>ma_entry := Some (k, ?g)\<rparr>, [])"
        using m False by (simp add: process_rcvd_removed_def is_mapped_def)
      have "mapper_ok ?es' ?v (Some (k, ?g)) r"
        unfolding mapper_ok_def using m drop[OF pf(1)] False st by simp
      then have "ends_ok ?es' ?v (Some (k, ?g)) r"
        unfolding ends_ok_def using entries_update[OF D(1) all f(1) pf(2)] acks st drop[OF pf(1)] False ps(2) D(7,8) m(5) update_entry(2)[OF D(1) f(1)] by simp
      then show ?thesis using x a by auto
    qed
  qed
qed

lemma ack_arrives_ok:
  assumes e: "ends_ok (de_entries d) (de_visible d) (ma_entry m) (Msg_Removed_Ack i # r)"
  shows "\<exists>d'. describer_receive (Msg_Removed_Ack i) d = Some (d', []) \<and> ends_ok (de_entries d') (de_visible d') (ma_entry m) r"
proof -
  let ?es = "de_entries d" and ?v = "de_visible d"
  note D = ends_okD[OF e]
  have all: "\<forall>(j, g) \<in> set ?es. id_valid j \<and> entry_ok g" using e by (simp add: ends_ok_def)
  have np: "i \<notin> set (pending_ids ?es)" using D(3,6) by (metis in_order.simps(3) mappings.simps(3) set_map)
  then have "i \<in> in_state ?es AWAIT_ACK" using D(5) in_set_butlastD[of i "pending_ids ?es"] by auto
  then obtain f where f: "map_of ?es i = Some f" "m_state f = AWAIT_ACK" by (auto simp: in_state_def)
  have "m_skipRemovedAcks f = 0" using D(2)[OF f(1)] by (simp add: entry_ok_def)
  let ?es' = "AList.delete i ?es"
  have x: "describer_receive (Msg_Removed_Ack i) d = Some (d\<lparr>de_entries := ?es'\<rparr>, [])"
    using f \<open>m_skipRemovedAcks f = 0\<close> by (simp add: process_rcvd_removed_ack_def)
  have pf: "\<not> pend f" using f(2) by (simp add: pend_def)
  note pi = delete_entry(1)[OF f(1) pf D(1)]
  have ni: "i \<notin> in_state ?es UNUSED_UNCONFIRMED" "i \<notin> in_state ?es MAPPED_CONFIRMED"
    using f(2) by (simp_all add: in_state_iff[OF f(1)])
  have st: "in_state ?es' UNUSED_UNCONFIRMED = in_state ?es UNUSED_UNCONFIRMED" "in_state ?es' MAPPED_CONFIRMED = in_state ?es MAPPED_CONFIRMED"
    "in_state ?es' AWAIT_ACK = in_state ?es AWAIT_ACK - {i}"
    using ni by (simp_all add: delete_entry(2)[OF f(1) pf])
  have vi: "?v \<noteq> Some i" using D(7) ni by (cases ?v) auto
  have acks: "in_order r" "distinct (removed_acks r)" "set (removed_acks r) = in_state ?es' AWAIT_ACK \<union> set (butlast (pending_ids ?es))"
  proof -
    show "in_order r" "distinct (removed_acks r)" using D(3,4) by simp_all
    have "set (removed_acks r) = set (removed_acks (Msg_Removed_Ack i # r)) - {i}" using D(4) by auto
    then show "set (removed_acks r) = in_state ?es' AWAIT_ACK \<union> set (butlast (pending_ids ?es))"
      unfolding D(5) st using np in_set_butlastD[of i "pending_ids ?es"] by blast
  qed
  have last: "map fst ?es' \<noteq> [] \<and> last (map fst ?es') = j" if v: "?v = Some j" for j
  proof -
    obtain xs a where es: "?es = xs @ [a]" using D(8)[OF v] by (cases ?es rule: rev_cases) auto
    then have "fst a = j" using D(8)[OF v] by simp
    then show ?thesis using es v vi by (auto simp: AList.delete_eq)
  qed
  have "map_of ?es' j = map_of ?es j" if "?v = Some j" for j using that vi by (auto simp: delete_conv')
  then have "mapper_ok ?es' ?v (ma_entry m) r"
    using D(9) unfolding mapper_ok_def pi st mappings.simps by (auto split: option.splits if_splits)
  moreover have "distinct_keys ?es'" by (rule distinct_delete[OF D(1)])
  moreover have "\<forall>(j, g) \<in> set ?es'. id_valid j \<and> entry_ok g" using all by (auto simp: AList.delete_eq)
  ultimately have "ends_ok ?es' ?v (ma_entry m) r"
    unfolding ends_ok_def pi using acks last D(6,7) by (simp add: st)
  then show ?thesis using x by simp
qed

section \<open>Runs\<close>

definition protocol_good :: "(nat \<Rightarrow> id) \<Rightarrow> endpoints \<Rightarrow> bool" where
  "protocol_good ids s \<longleftrightarrow> (\<exists>m ans. absorb ids (to_map s) (mapping s) = Some (m, ans) \<and>
     ends_ok (de_entries (describing s)) (de_visible (describing s)) (ma_entry m) (to_describe s @ ans))"

lemma protocol_good_init: "protocol_good ids endpoints_init"
  by (simp add: protocol_good_def endpoints_init_def ends_ok_def mapper_ok_def in_state_def)

lemma absorb_more: "absorb ids xs m = Some (m1, o1) \<Longrightarrow> absorb ids ys m1 = Some (m2, o2) \<Longrightarrow> absorb ids (xs @ ys) m = Some (m2, o1 @ o2)"
  by (simp add: absorb_append)

lemma describer_good:
  assumes "absorb ids (to_map s) (mapping s) = Some (m, ans)" "absorb ids out m = Some (m', ans')"
    and "ends_ok (de_entries d') (de_visible d') (ma_entry m') ((to_describe s' @ ans) @ ans')"
    and "describing s' = d'" "to_map s' = to_map s @ out" "mapping s' = mapping s"
  shows "protocol_good ids s'"
  unfolding protocol_good_def using absorb_more[OF assms(1,2)] assms(3-6) by auto

text \<open>Every possible step succeeds and keeps the invariant.\<close>

lemma protocol_do_good:
  assumes ids: "\<forall>n. id_valid (ids n)" and g: "protocol_good ids s" and x: "step_enabled x s"
  shows "\<exists>s'. protocol_do ids x s = Some s' \<and> protocol_good ids s'"
proof -
  obtain m ans where a: "absorb ids (to_map s) (mapping s) = Some (m, ans)"
    and e: "ends_ok (de_entries (describing s)) (de_visible (describing s)) (ma_entry m) (to_describe s @ ans)"
    using g by (auto simp: protocol_good_def)
  show ?thesis
  proof (cases x)
    case (Create i)
    then obtain d' out m' ans' where "describe_new i (describing s) = Some (d', out)" "absorb ids out m = Some (m', ans')"
        "ends_ok (de_entries d') (de_visible d') (ma_entry m') ((to_describe s @ ans) @ ans')"
      using create_ok[OF e _ _ _ ids] x by fastforce
    then show ?thesis using Create describer_good[OF a] by simp
  next
    case Destroy
    then obtain d' out m' ans' where "describe_destroyed (describing s) = Some (d', out)" "absorb ids out m = Some (m', ans')"
        "ends_ok (de_entries d') (de_visible d') (ma_entry m') ((to_describe s @ ans) @ ans')"
      using destroy_ok[OF e] x by fastforce
    then show ?thesis using Destroy describer_good[OF a] by simp
  next
    case Deliver_To_Mapper
    then obtain y ys where y: "to_map s = y # ys" using x by (cases "to_map s") auto
    then obtain m1 o1 o2 where "mapper_receive ids y (mapping s) = Some (m1, o1)" "absorb ids ys m1 = Some (m, o2)" "ans = o1 @ o2"
      using a by (auto simp: bind_eq_Some_conv)
    then show ?thesis using Deliver_To_Mapper y e by (simp add: protocol_good_def)
  next
    case Deliver_To_Describer
    then obtain y r where y: "to_describe s = y # r" using x by (cases "to_describe s") auto
    have e': "ends_ok (de_entries (describing s)) (de_visible (describing s)) (ma_entry m) (y # (r @ ans))" using e y by simp
    have "\<exists>d' out m' ans'. describer_receive y (describing s) = Some (d', out) \<and> absorb ids out m = Some (m', ans') \<and>
      ends_ok (de_entries d') (de_visible d') (ma_entry m') ((r @ ans) @ ans')"
    proof (cases y)
      case (Msg_Mapping i k)
      then show ?thesis using mapping_arrives_ok e' by blast
    next
      case (Msg_Removed_Ack i)
      then obtain d' where "describer_receive y (describing s) = Some (d', [])"
          "ends_ok (de_entries d') (de_visible d') (ma_entry m) (r @ ans)"
        using ack_arrives_ok e' by blast
      then show ?thesis by fastforce
    qed
    then obtain d' out m' ans' where "describer_receive y (describing s) = Some (d', out)" "absorb ids out m = Some (m', ans')"
      "ends_ok (de_entries d') (de_visible d') (ma_entry m') ((r @ ans) @ ans')" by blast
    then show ?thesis using Deliver_To_Describer y describer_good[OF a] by simp
  qed
qed

lemma protocol_run_good:
  assumes "\<forall>n. id_valid (ids n)" "protocol_good ids s" "protocol_possible ids xs s"
  shows "\<exists>s'. protocol_run ids xs s = Some s' \<and> protocol_good ids s'"
  using assms(2,3)
proof (induction xs arbitrary: s)
  case (Cons x xs)
  then obtain s1 where "protocol_do ids x s = Some s1" "protocol_good ids s1" using protocol_do_good[OF assms(1)] by fastforce
  then show ?case using Cons by (simp add: protocol_run_def)
qed (simp add: protocol_run_def)

section \<open>Agreement\<close>

definition confirmed :: "id \<Rightarrow> fsm" where
  "confirmed i = \<lparr>m_state = MAPPED_CONFIRMED, m_skipRemovedAcks = 0, m_mappedId = i\<rparr>"

definition both_agree :: "endpoints \<Rightarrow> bool" where
  "both_agree s = (case de_visible (describing s) of
       None \<Rightarrow> de_entries (describing s) = [] \<and> ma_entry (mapping s) = None
     | Some i \<Rightarrow> (case ma_entry (mapping s) of None \<Rightarrow> False
         | Some (k, g) \<Rightarrow> g = confirmed i \<and> de_entries (describing s) = [(i, confirmed k)]))"

definition all_arrived :: "endpoints \<Rightarrow> bool" where
  "all_arrived s = (to_map s = [] \<and> to_describe s = [])"

lemma arrived_agree:
  assumes "protocol_good ids s" "all_arrived s"
  shows "both_agree s"
proof -
  let ?es = "de_entries (describing s)" and ?v = "de_visible (describing s)"
  have e: "ends_ok ?es ?v (ma_entry (mapping s)) []"
    using assms by (auto simp: protocol_good_def all_arrived_def)
  note D = ends_okD[OF e]
  have p: "pending_ids ?es = []" using D(6) by simp
  have aa: "in_state ?es AWAIT_ACK = {}" using D(5) by simp
  have mc: "m_state f = MAPPED_CONFIRMED" if f: "map_of ?es i = Some f" for i f
  proof -
    have "entry_ok f" "\<not> pend f" "i \<notin> in_state ?es AWAIT_ACK" using D(2)[OF f] pending_iff[OF D(1), of i] f p aa by auto
    then show ?thesis using in_state_iff[OF f, of AWAIT_ACK] by (auto simp: entry_ok_def pend_def)
  qed
  have keys: "i \<in> (case ?v of None \<Rightarrow> {} | Some i \<Rightarrow> {i})" if f: "map_of ?es i = Some f" for i f
    using D(7) in_state_iff[OF f, of MAPPED_CONFIRMED] mc[OF f] by blast
  show ?thesis
  proof (cases ?v)
    case None
    then have "map_of ?es i = None" for i using keys[of i] by (cases "map_of ?es i") auto
    then have "?es = []" by (metis empty_eq_map_of_iff ext)
    then show ?thesis using None D(9) by (auto simp: both_agree_def mapper_ok_def split: option.splits)
  next
    case (Some i)
    have one: "?es = [(i, f)]" if f: "map_of ?es i = Some f" for f
    proof -
      have k: "j = i" if "(j, h) \<in> set ?es" for j h using keys[OF map_of_is_SomeI[OF D(1) that]] Some by simp
      obtain a es where es: "?es = a # es" using f by (cases ?es) auto
      have "es = []"
      proof (cases es)
        case (Cons b bs)
        have "fst a = i" "fst b = i" using k[of "fst a" "snd a"] k[of "fst b" "snd b"] es Cons by simp_all
        then show ?thesis using D(1) es Cons by simp
      qed
      then show ?thesis using f es by (cases a) (auto split: if_splits)
    qed
    show ?thesis
    proof (cases "ma_entry (mapping s)")
      case None
      then show ?thesis using D(9) Some by (simp add: mapper_ok_def)
    next
      case kg: (Some kg)
      obtain k g where "kg = (k, g)" by (cases kg)
      then obtain f where f: "map_of ?es i = Some f" "m_state f = MAPPED_CONFIRMED" "m_mappedId f = k"
          and g: "m_state g = MAPPED_CONFIRMED" "m_mappedId g = i" "m_skipRemovedAcks g = 0" and m: "ma_entry (mapping s) = Some (k, g)"
        using D(9) Some p kg by (auto simp: mapper_ok_def)
      have "m_skipRemovedAcks f = 0" using D(2)[OF f(1)] by (simp add: entry_ok_def)
      then have "f = confirmed k" "g = confirmed i" using f g by (simp_all add: confirmed_def)
      then show ?thesis using one[OF f(1)] m Some by (simp add: both_agree_def)
    qed
  qed
qed

section \<open>Progress\<close>

text \<open>Each message is worth more than the answers to it can be.\<close>

fun mapper_message_weight :: "to_mapper \<Rightarrow> nat" where
  "mapper_message_weight (Msg_Description i) = 5"
| "mapper_message_weight (Msg_Removed k) = 2"

fun describer_message_weight :: "to_describer \<Rightarrow> nat" where
  "describer_message_weight (Msg_Mapping i k) = 3"
| "describer_message_weight (Msg_Removed_Ack i) = 1"

definition weight :: "endpoints \<Rightarrow> nat" where
  "weight s = sum_list (map mapper_message_weight (to_map s)) + sum_list (map describer_message_weight (to_describe s))"

definition is_delivery :: "protocol_step \<Rightarrow> bool" where
  "is_delivery x = (x = Deliver_To_Mapper \<or> x = Deliver_To_Describer)"

lemma mapper_weight:
  assumes "mapper_receive ids x m = Some (m', out)"
  shows "sum_list (map describer_message_weight out) < mapper_message_weight x"
proof (cases x)
  case (Msg_Description i)
  obtain k f c where kf: "(case ma_entry m of None \<Rightarrow> (ids (ma_count m), fsm_init, Suc (ma_count m)) | Some (k, f) \<Rightarrow> (k, f, ma_count m)) = (k, f, c)"
    by (metis prod_cases3)
  show ?thesis using assms unfolding Msg_Description mapper_receive.simps kf
    by (cases "m_state f") (auto simp: process_rcvd_description_def)
next
  case (Msg_Removed k)
  then obtain k' f where "ma_entry m = Some (k', f)" using assms by (auto simp: bind_eq_Some_conv)
  then show ?thesis using assms Msg_Removed
    by (cases "m_state f") (auto simp: process_rcvd_removed_def bind_eq_Some_conv split: if_splits)
qed

lemma describer_weight:
  assumes "describer_receive x d = Some (d', out)"
  shows "sum_list (map mapper_message_weight out) < describer_message_weight x"
proof (cases x)
  case (Msg_Mapping i k)
  then obtain f where "map_of (de_entries d) i = Some f" using assms by (auto simp: bind_eq_Some_conv)
  then show ?thesis using assms Msg_Mapping
    by (cases "m_state f") (auto simp: process_rcvd_mapping_def bind_eq_Some_conv split: if_splits)
next
  case (Msg_Removed_Ack i)
  then show ?thesis using assms by (auto simp: bind_eq_Some_conv)
qed

lemma delivery_weight:
  assumes "is_delivery x" "step_enabled x s" "protocol_do ids x s = Some s'"
  shows "weight s' < weight s"
proof (cases "x = Deliver_To_Mapper")
  case True
  then obtain y ys m out where "to_map s = y # ys" "mapper_receive ids y (mapping s) = Some (m, out)"
      "s' = s\<lparr>mapping := m, to_map := ys, to_describe := to_describe s @ out\<rparr>"
    using assms by (cases "to_map s") (auto simp: bind_eq_Some_conv)
  then show ?thesis using mapper_weight by (fastforce simp: weight_def)
next
  case False
  then have x: "x = Deliver_To_Describer" using assms(1) by (simp add: is_delivery_def)
  then obtain y r d out where "to_describe s = y # r" "describer_receive y (describing s) = Some (d, out)"
      "s' = s\<lparr>describing := d, to_map := to_map s @ out, to_describe := r\<rparr>"
    using assms by (cases "to_describe s") (auto simp: bind_eq_Some_conv)
  then show ?thesis using describer_weight by (fastforce simp: weight_def)
qed

lemma deliveries_bounded:
  assumes "list_all is_delivery ys" "protocol_possible ids ys s" "protocol_run ids ys s = Some s'"
  shows "length ys + weight s' \<le> weight s"
  using assms
proof (induction ys arbitrary: s)
  case (Cons y ys)
  then obtain s1 where s1: "protocol_do ids y s = Some s1" by (auto simp: protocol_run_def bind_eq_Some_conv)
  then have "length ys + weight s' \<le> weight s1" using Cons by (simp add: protocol_run_def)
  then show ?case using delivery_weight[OF _ _ s1] Cons.prems by simp
qed (simp add: protocol_run_def)

lemma protocol_possible_append:
  "protocol_possible ids (xs @ ys) s \<longleftrightarrow> protocol_possible ids xs s \<and> (case protocol_run ids xs s of None \<Rightarrow> True | Some s' \<Rightarrow> protocol_possible ids ys s')"
  by (induction xs arbitrary: s) (auto simp: protocol_run_def split: option.splits)

lemma protocol_run_append: "protocol_run ids (xs @ ys) s = do { s' \<leftarrow> protocol_run ids xs s; protocol_run ids ys s' }"
  unfolding protocol_run_def
proof (induction xs arbitrary: s)
  case (Cons x xs)
  then show ?case by (cases "protocol_do ids x s") simp_all
qed simp

text \<open>Whatever is under way, some deliveries bring everything home.\<close>

lemma all_arrive:
  assumes ids: "\<forall>n. id_valid (ids n)" and "protocol_good ids s"
  shows "\<exists>zs s'. list_all is_delivery zs \<and> protocol_possible ids zs s \<and> protocol_run ids zs s = Some s' \<and> all_arrived s' \<and> protocol_good ids s'"
  using assms(2)
proof (induction "weight s" arbitrary: s rule: less_induct)
  case less
  show ?case
  proof (cases "all_arrived s")
    case True
    then show ?thesis using less.prems by (intro exI[of _ "[]"]) (simp add: protocol_run_def)
  next
    case False
    obtain x where x: "is_delivery x" "step_enabled x s"
      using False by (metis all_arrived_def is_delivery_def step_enabled.simps(3,4))
    obtain s1 where s1: "protocol_do ids x s = Some s1" "protocol_good ids s1" using protocol_do_good[OF ids less.prems x(2)] by blast
    obtain zs s' where "list_all is_delivery zs" "protocol_possible ids zs s1" "protocol_run ids zs s1 = Some s'" "all_arrived s'" "protocol_good ids s'"
      using less.hyps[OF delivery_weight[OF x s1(1)] s1(2)] by blast
    then show ?thesis using x s1(1) by (intro exI[of _ "x # zs"] exI[of _ s']) (simp add: protocol_run_def)
  qed
qed

section \<open>Properties\<close>

text \<open>C3: Describing and mapping never fails: whatever objects are created and destroyed at the describing
  end, and however long messages are under way, neither end gets a message it does not expect.\<close>

theorem protocol_never_fails:
  assumes "\<forall>n. id_valid (ids n)" "protocol_possible ids xs endpoints_init"
  shows "\<exists>s. protocol_run ids xs endpoints_init = Some s \<and> (all_arrived s \<longrightarrow> both_agree s)"
  using protocol_run_good[OF assms(1) protocol_good_init assms(2)] arrived_agree by blast

text \<open>C2: Both ends come to agree: from any state that describing and mapping can reach, there can only be as
  many deliveries as the messages under way are worth, and however they are ordered, they can go on until
  everything has arrived and the mapping end has mapped exactly the object that exists.\<close>

theorem deliveries_lead_to_agreement:
  assumes "\<forall>n. id_valid (ids n)" "protocol_possible ids xs endpoints_init" "protocol_run ids xs endpoints_init = Some s"
    and "list_all is_delivery ys" "protocol_possible ids ys s"
  shows "length ys \<le> weight s \<and> (\<exists>zs s'. list_all is_delivery zs \<and> protocol_possible ids (ys @ zs) s \<and>
    protocol_run ids (ys @ zs) s = Some s' \<and> all_arrived s' \<and> both_agree s')"
proof -
  have g: "protocol_good ids s" using protocol_run_good[OF assms(1) protocol_good_init assms(2)] assms(3) by simp
  obtain s1 where s1: "protocol_run ids ys s = Some s1" "protocol_good ids s1" using protocol_run_good[OF assms(1) g assms(5)] by blast
  have "length ys \<le> weight s" using deliveries_bounded[OF assms(4,5) s1(1)] by simp
  then show ?thesis using all_arrive[OF assms(1) s1(2)] arrived_agree s1(1) assms(5) by (fastforce simp: protocol_possible_append protocol_run_append)
qed

text \<open>A terminal is replaced by another one while its description is still under way.\<close>

definition sample_replacement :: "protocol_step list" where
  "sample_replacement = [Create (Id 1), Destroy, Create (Id 2), Deliver_To_Mapper, Deliver_To_Mapper, Deliver_To_Describer]"

lemma protocol_never_fails_witness:
  "protocol_possible (\<lambda>n. Id 9) sample_replacement endpoints_init \<and>
   (\<exists>s. protocol_run (\<lambda>n. Id 9) sample_replacement endpoints_init = Some s \<and> (all_arrived s \<longrightarrow> both_agree s))"
proof -
  have p: "protocol_possible (\<lambda>n. Id 9) sample_replacement endpoints_init" by code_simp
  show ?thesis using p protocol_never_fails[of "\<lambda>n. Id 9", OF _ p] by simp
qed

lemma deliveries_lead_to_agreement_witness:
  "\<exists>zs s'. list_all is_delivery zs \<and> protocol_run (\<lambda>n. Id 9) (sample_replacement @ zs) endpoints_init = Some s' \<and> both_agree s'"
proof -
  let ?ids = "\<lambda>n::nat. Id 9" and ?xs = "take 4 sample_replacement" and ?ys = "drop 4 sample_replacement"
  let ?s = "the (protocol_run ?ids ?xs endpoints_init)"
  have p: "protocol_possible ?ids ?xs endpoints_init" by code_simp
  have r: "protocol_run ?ids ?xs endpoints_init = Some ?s" by code_simp
  have d: "list_all is_delivery ?ys" by code_simp
  have q: "protocol_possible ?ids ?ys ?s" by code_simp
  obtain zs s' where "list_all is_delivery zs" "protocol_run ?ids (?ys @ zs) ?s = Some s'" "both_agree s'"
    using deliveries_lead_to_agreement[of ?ids, OF _ p r d q] by auto
  then show ?thesis using r protocol_run_append[of ?ids ?xs "?ys @ zs" endpoints_init] by (metis append.assoc append_take_drop_id bind.bind_lunit)
qed

end
