(* ===== verification/Registers.thy ===== *)
theory Registers
  imports Ids
begin

text \<open>
  \<^verbatim>\<open>base/ObjectRegister.hpp\<close> and \<^verbatim>\<open>base/IdentifiedObjectRegister.hpp\<close>: lookup tables of objects
  with recycled Ids.  A \<^verbatim>\<open>std::vector\<close> is a list, the stack of free Ids is a list whose head is the
  top, and a pointer to an element is the Id of the slot that owns it.
\<close>

section \<open>The contract of an Id register\<close>

text \<open>
  Both registers promise the same to their clients: an inserted object gets a valid Id that no
  living object has, lookups see exactly the living objects, and erasing removes exactly one.
\<close>

locale id_register =
  fixes invar :: "'r \<Rightarrow> bool"
    and lookup :: "'r \<Rightarrow> id \<Rightarrow> 'v option"
    and add :: "'v \<Rightarrow> 'r \<Rightarrow> id \<times> 'r"
    and del :: "id \<Rightarrow> 'r \<Rightarrow> 'r option"
  assumes add_valid: "invar r \<Longrightarrow> id_valid (fst (add v r))"
    and add_fresh: "invar r \<Longrightarrow> lookup r (fst (add v r)) = None"
    and add_lookup: "invar r \<Longrightarrow> lookup (snd (add v r)) = (lookup r)(fst (add v r) \<mapsto> v)"
    and add_invar: "invar r \<Longrightarrow> invar (snd (add v r))"
    and del_live: "invar r \<Longrightarrow> lookup r i \<noteq> None \<Longrightarrow> \<exists>r'. del i r = Some r'"
    and del_lookup: "invar r \<Longrightarrow> lookup r i \<noteq> None \<Longrightarrow> del i r = Some r' \<Longrightarrow>
      lookup r' = (lookup r)(i := None)"
    and del_invar: "invar r \<Longrightarrow> lookup r i \<noteq> None \<Longrightarrow> del i r = Some r' \<Longrightarrow> invar r'"
begin

text \<open>Adding a list of objects one after the other.\<close>

fun add_all :: "'v list \<Rightarrow> 'r \<Rightarrow> id list \<times> 'r" where
  "add_all [] r = ([], r)"
| "add_all (v # vs) r =
     (let rest = add_all vs (snd (add v r)) in (fst (add v r) # fst rest, snd rest))"

lemma add_all_invar: "invar r \<Longrightarrow> invar (snd (add_all vs r))"
  by (induction vs arbitrary: r) (auto simp: Let_def add_invar)

lemma add_all_keeps:
  "invar r \<Longrightarrow> lookup r i = Some v \<Longrightarrow> i \<notin> set (fst (add_all vs r)) \<and> lookup (snd (add_all vs r)) i = Some v"
proof (induction vs arbitrary: r)
  case Nil
  then show ?case by simp
next
  case (Cons x vs)
  obtain j r1 where j: "add x r = (j, r1)" by force
  have "j \<noteq> i" using add_fresh[OF Cons.prems(1), of x] Cons.prems(2) j by auto
  moreover have "invar r1" using add_invar[OF Cons.prems(1), of x] j by simp
  moreover have "lookup r1 i = Some v"
    using add_lookup[OF Cons.prems(1), of x] j \<open>j \<noteq> i\<close> Cons.prems(2) by simp
  ultimately show ?case
    using Cons.IH[of r1] j by (auto simp: Let_def)
qed

lemma add_all_distinct: "invar r \<Longrightarrow> distinct (fst (add_all vs r))"
proof (induction vs arbitrary: r)
  case Nil
  then show ?case by simp
next
  case (Cons x vs)
  obtain j r1 where j: "add x r = (j, r1)" by force
  have r1: "invar r1" using add_invar[OF Cons.prems, of x] j by simp
  have "lookup r1 j = Some x" using add_lookup[OF Cons.prems, of x] j by simp
  then have "j \<notin> set (fst (add_all vs r1))" using add_all_keeps[OF r1] by blast
  then show ?case using Cons.IH[OF r1] j by (auto simp: Let_def)
qed

lemma del_keeps_others:
  "invar r \<Longrightarrow> lookup r i \<noteq> None \<Longrightarrow> del i r = Some r' \<Longrightarrow> j \<noteq> i \<Longrightarrow> lookup r' j = lookup r j"
  by (simp add: del_lookup)

end

section \<open>ObjectRegister\<close>

record 'a oreg =
  or_lut :: "'a list"
  or_free :: "id list"

definition oreg_empty :: "'a oreg" where
  "oreg_empty = \<lparr>or_lut = [], or_free = []\<rparr>"

text \<open>The debug check copies the stack of free Ids and pops it until the Id is found.\<close>

fun scan_free :: "id \<Rightarrow> id list \<Rightarrow> bool" where
  "scan_free i [] = True"
| "scan_free i (f # fs) = (if i = f then False else scan_free i fs)"

definition oreg_is_valid :: "'a oreg \<Rightarrow> id \<Rightarrow> bool" where
  "oreg_is_valid r i = (if number i > length (or_lut r) then False else scan_free i (or_free r))"

definition oreg_insert :: "'a \<Rightarrow> 'a oreg \<Rightarrow> id \<times> 'a oreg" where
  "oreg_insert d r = (case or_free r of
      [] \<Rightarrow> (Id (length (or_lut r) + 1), r\<lparr>or_lut := or_lut r @ [d]\<rparr>)
    | i # fs \<Rightarrow> (i, r\<lparr>or_lut := (or_lut r)[number i - 1 := d], or_free := fs\<rparr>))"

text \<open>
  \<open>m_lut[id.number() - 1]\<close> is out of bounds for the invalid Id, whatever the assertion says.
\<close>

definition oreg_slot :: "'a oreg \<Rightarrow> id \<Rightarrow> nat option" where
  "oreg_slot r i = do { yassert (oreg_is_valid r i);
     if 0 < number i \<and> number i \<le> length (or_lut r) then Some (number i - 1) else None }"

definition oreg_erase :: "'a \<Rightarrow> id \<Rightarrow> 'a oreg \<Rightarrow> 'a oreg option" where
  "oreg_erase dflt i r = do { k \<leftarrow> oreg_slot r i;
     Some (r\<lparr>or_lut := (or_lut r)[k := dflt], or_free := i # or_free r\<rparr>) }"

definition oreg_count :: "'a oreg \<Rightarrow> id \<Rightarrow> nat" where
  "oreg_count r i = (if oreg_is_valid r i then 1 else 0)"

definition oreg_get :: "'a oreg \<Rightarrow> id \<Rightarrow> 'a option" where
  "oreg_get r i = do { k \<leftarrow> oreg_slot r i; Some (or_lut r ! k) }"

definition oreg_set :: "id \<Rightarrow> 'a \<Rightarrow> 'a oreg \<Rightarrow> 'a oreg option" where
  "oreg_set i d r = do { k \<leftarrow> oreg_slot r i; Some (r\<lparr>or_lut := (or_lut r)[k := d]\<rparr>) }"

definition oreg_ok :: "'a oreg \<Rightarrow> bool" where
  "oreg_ok r \<longleftrightarrow> distinct (or_free r) \<and> (\<forall>i \<in> set (or_free r). 0 < number i \<and> number i \<le> length (or_lut r))"

lemma scan_free_iff [reg_simps]: "scan_free i fs \<longleftrightarrow> i \<notin> set fs"
  by (induction fs) auto

lemma oreg_get_eq_Some:
  "oreg_get r i = Some d \<longleftrightarrow> 0 < number i \<and> number i \<le> length (or_lut r) \<and> i \<notin> set (or_free r)
     \<and> d = or_lut r ! (number i - 1)"
  by (auto simp: oreg_get_def oreg_slot_def oreg_is_valid_def reg_simps)

lemma oreg_get_eq_None:
  "oreg_get r i = None \<longleftrightarrow> number i = 0 \<or> number i > length (or_lut r) \<or> i \<in> set (or_free r)"
  by (auto simp: oreg_get_def oreg_slot_def oreg_is_valid_def reg_simps)

lemma oreg_ok_empty: "oreg_ok oreg_empty"
  by (simp add: oreg_ok_def oreg_empty_def)

lemma oreg_insert_get:
  assumes "oreg_ok r"
  shows "oreg_get (snd (oreg_insert d r)) j =
    (if j = fst (oreg_insert d r) then Some d else oreg_get r j)"
proof (cases "or_free r")
  case Nil
  then show ?thesis
    by (cases j) (auto simp: oreg_insert_def oreg_get_def oreg_slot_def oreg_is_valid_def reg_simps
        nth_append yassert_def)
next
  case (Cons i fs)
  with assms have "i \<notin> set fs" "0 < number i" "number i \<le> length (or_lut r)"
    by (auto simp: oreg_ok_def)
  moreover have "number j - 1 \<noteq> number i - 1" if "j \<noteq> i" "0 < number j"
    using that \<open>0 < number i\<close> by (cases i; cases j) auto
  ultimately show ?thesis using Cons
    by (auto simp: oreg_insert_def oreg_get_def oreg_slot_def oreg_is_valid_def reg_simps yassert_def)
qed

lemma oreg_erase_get:
  assumes "oreg_ok r" "oreg_get r i \<noteq> None"
  shows "\<exists>r'. oreg_erase dflt i r = Some r' \<and> oreg_ok r' \<and> oreg_get r' = (oreg_get r)(i := None)"
proof -
  from assms(2) have i: "0 < number i" "number i \<le> length (or_lut r)" "i \<notin> set (or_free r)"
    by (auto simp: oreg_get_eq_None)
  define r' where "r' = r\<lparr>or_lut := (or_lut r)[number i - 1 := dflt], or_free := i # or_free r\<rparr>"
  have "oreg_erase dflt i r = Some r'"
    using i by (simp add: oreg_erase_def oreg_slot_def oreg_is_valid_def reg_simps r'_def)
  moreover have "oreg_ok r'"
    using assms(1) i by (auto simp: oreg_ok_def r'_def)
  moreover have "oreg_get r' j = ((oreg_get r)(i := None)) j" for j
  proof -
    have "number j - 1 \<noteq> number i - 1" if "j \<noteq> i" "0 < number j"
      using that i by (cases i; cases j) auto
    then show ?thesis
      by (auto simp: oreg_get_def oreg_slot_def oreg_is_valid_def reg_simps r'_def yassert_def)
  qed
  ultimately show ?thesis by blast
qed

interpretation oreg: id_register oreg_ok oreg_get oreg_insert "oreg_erase dflt" for dflt :: 'a
proof
  fix r :: "'a oreg" and v :: 'a and i :: id and r' :: "'a oreg"
  assume ok: "oreg_ok r"
  show "id_valid (fst (oreg_insert v r))"
    using ok by (auto simp: oreg_insert_def oreg_ok_def id_valid_def invalid_number_def split: list.splits)
  show "oreg_get r (fst (oreg_insert v r)) = None"
    by (auto simp: oreg_insert_def oreg_get_eq_None split: list.splits)
  show "oreg_get (snd (oreg_insert v r)) = (oreg_get r)(fst (oreg_insert v r) \<mapsto> v)"
    by (rule ext) (simp add: oreg_insert_get[OF ok])
  show "oreg_ok (snd (oreg_insert v r))"
    using ok by (auto simp: oreg_insert_def oreg_ok_def split: list.splits)
  assume live: "oreg_get r i \<noteq> None"
  note e = oreg_erase_get[OF ok live, of dflt]
  show "\<exists>r'. oreg_erase dflt i r = Some r'" using e by blast
  assume "oreg_erase dflt i r = Some r'"
  with e show "oreg_get r' = (oreg_get r)(i := None)" "oreg_ok r'" by auto
qed

section \<open>IdentifiedObjectRegister\<close>

text \<open>
  An element carries its identifier, its Id and a flag set when it has been hidden from lookups by
  identifier.  The map holds the slot of the visible element with a given identifier.
\<close>

record 'a element =
  el_ident :: ident
  el_id :: id
  el_hidden :: bool
  el_data :: 'a

record 'a ireg =
  ir_map :: "ident \<rightharpoonup> id"
  ir_lut :: "'a element option list"
  ir_free :: "id list"

definition ireg_empty :: "'a ireg" where
  "ireg_empty = \<lparr>ir_map = Map.empty, ir_lut = [], ir_free = []\<rparr>"

definition find_id :: "'a ireg \<Rightarrow> id \<Rightarrow> 'a element option" where
  "find_id r i = (if 0 < number i \<and> number i \<le> length (ir_lut r)
     then ir_lut r ! (number i - 1) else None)"

definition find_ident :: "'a ireg \<Rightarrow> ident \<Rightarrow> 'a element option" where
  "find_ident r x = (case ir_map r x of Some i \<Rightarrow> find_id r i | None \<Rightarrow> None)"

text \<open>Without a free Id a new slot is made first, even if no insertion follows.\<close>

definition ireg_reserve :: "'a ireg \<Rightarrow> 'a ireg" where
  "ireg_reserve r = (if ir_free r = []
     then r\<lparr>ir_free := [Id (length (ir_lut r) + 1)], ir_lut := ir_lut r @ [None]\<rparr> else r)"

definition ireg_insert :: "ident \<Rightarrow> 'a \<Rightarrow> 'a ireg \<Rightarrow> (id \<times> bool) \<times> 'a ireg" where
  "ireg_insert x d r = (let r1 = ireg_reserve r in
     case ir_map r1 x of
       Some i \<Rightarrow> ((i, False), r1)
     | None \<Rightarrow> (let i = hd (ir_free r1);
           el = \<lparr>el_ident = x, el_id = i, el_hidden = False, el_data = d\<rparr>
         in ((i, True), r1\<lparr>ir_lut := (ir_lut r1)[number i - 1 := Some el],
              ir_map := (ir_map r1)(x \<mapsto> i), ir_free := tl (ir_free r1)\<rparr>)))"

text \<open>Writing through an iterator or a reference.\<close>

definition ireg_put :: "id \<Rightarrow> 'a element option \<Rightarrow> 'a ireg \<Rightarrow> 'a ireg" where
  "ireg_put i e r = r\<lparr>ir_lut := (ir_lut r)[number i - 1 := e]\<rparr>"

definition ireg_modify :: "id \<Rightarrow> ('a \<Rightarrow> 'a) \<Rightarrow> 'a ireg \<Rightarrow> 'a ireg option" where
  "ireg_modify i f r = do { e \<leftarrow> find_id r i;
     Some (ireg_put i (Some (e\<lparr>el_data := f (el_data e)\<rparr>)) r) }"

definition ireg_hide :: "id \<Rightarrow> 'a ireg \<Rightarrow> 'a ireg option" where
  "ireg_hide i r = do { e \<leftarrow> find_id r i;
     yassert (el_hidden e \<or> ir_map r (el_ident e) \<noteq> None);
     Some (if el_hidden e then r
       else (ireg_put i (Some (e\<lparr>el_hidden := True\<rparr>)) r)\<lparr>ir_map := (ir_map r)(el_ident e := None)\<rparr>) }"

definition ireg_erase :: "id \<Rightarrow> 'a ireg \<Rightarrow> 'a ireg option" where
  "ireg_erase i r = do { e \<leftarrow> find_id r i; r1 \<leftarrow> ireg_hide i r;
     Some ((ireg_put i None r1)\<lparr>ir_free := el_id e # ir_free r1\<rparr>) }"

text \<open>Iterators: \<^verbatim>\<open>operator++\<close> scans for the next occupied slot, \<open>None\<close> is the end iterator.\<close>

fun scan_lut :: "'a element option list \<Rightarrow> id option" where
  "scan_lut [] = None"
| "scan_lut (Some e # es) = Some (el_id e)"
| "scan_lut (None # es) = scan_lut es"

definition ireg_begin :: "'a ireg \<Rightarrow> id option" where
  "ireg_begin r = scan_lut (ir_lut r)"

definition ireg_next :: "id \<Rightarrow> 'a ireg \<Rightarrow> id option" where
  "ireg_next i r = scan_lut (drop (number i) (ir_lut r))"

text \<open>The Ids a loop from \<^verbatim>\<open>begin()\<close> to \<^verbatim>\<open>end()\<close> visits.\<close>

fun lut_ids :: "'a element option list \<Rightarrow> id list" where
  "lut_ids [] = []"
| "lut_ids (Some e # es) = el_id e # lut_ids es"
| "lut_ids (None # es) = lut_ids es"

definition ireg_ids :: "'a ireg \<Rightarrow> id list" where
  "ireg_ids r = lut_ids (ir_lut r)"

subsection \<open>Invariant\<close>

definition ireg_ok :: "'a ireg \<Rightarrow> bool" where
  "ireg_ok r \<longleftrightarrow> distinct (ir_free r)
     \<and> (\<forall>i. i \<in> set (ir_free r) \<longleftrightarrow> 0 < number i \<and> number i \<le> length (ir_lut r) \<and> find_id r i = None)
     \<and> (\<forall>i e. find_id r i = Some e \<longrightarrow> el_id e = i)
     \<and> (\<forall>x i. ir_map r x = Some i \<longleftrightarrow> (\<exists>e. find_id r i = Some e \<and> el_ident e = x \<and> \<not> el_hidden e))"

lemma ireg_okD:
  assumes "ireg_ok r"
  shows "distinct (ir_free r)"
    and "i \<in> set (ir_free r) \<longleftrightarrow> 0 < number i \<and> number i \<le> length (ir_lut r) \<and> find_id r i = None"
    and "find_id r i = Some e \<Longrightarrow> el_id e = i"
    and "ir_map r x = Some i \<longleftrightarrow> (\<exists>e. find_id r i = Some e \<and> el_ident e = x \<and> \<not> el_hidden e)"
  using assms by (auto simp: ireg_ok_def)

lemma find_id_in_range: "find_id r i = Some e \<Longrightarrow> 0 < number i \<and> number i \<le> length (ir_lut r)"
  by (auto simp: find_id_def split: if_splits)

lemma find_id_put:
  assumes "0 < number i" "number i \<le> length (ir_lut r)"
  shows "find_id (ireg_put i e r) j = (if j = i then e else find_id r j)"
proof (cases "j = i")
  case True
  then show ?thesis using assms by (auto simp: find_id_def ireg_put_def)
next
  case False
  then have "0 < number j \<Longrightarrow> number j - 1 \<noteq> number i - 1"
    using assms(1) by (cases i; cases j) auto
  then show ?thesis using False by (auto simp: find_id_def ireg_put_def)
qed

lemma find_id_update_map [simp]: "find_id (r\<lparr>ir_map := m\<rparr>) = find_id r"
  by (rule ext) (simp add: find_id_def)

lemma find_id_update_free [simp]: "find_id (r\<lparr>ir_free := f\<rparr>) = find_id r"
  by (rule ext) (simp add: find_id_def)

lemma ireg_put_simps [simp]:
  "ir_map (ireg_put i e r) = ir_map r" "ir_free (ireg_put i e r) = ir_free r"
  "length (ir_lut (ireg_put i e r)) = length (ir_lut r)"
  by (simp_all add: ireg_put_def)

lemma find_ident_Some:
  assumes "ireg_ok r"
  shows "find_ident r x = Some e \<longleftrightarrow> find_id r (el_id e) = Some e \<and> el_ident e = x \<and> \<not> el_hidden e"
proof -
  have "find_ident r x = Some e \<longleftrightarrow> (\<exists>i. ir_map r x = Some i \<and> find_id r i = Some e)"
    by (auto simp: find_ident_def split: option.splits)
  also have "\<dots> \<longleftrightarrow> (\<exists>i. find_id r i = Some e \<and> el_ident e = x \<and> \<not> el_hidden e)"
    by (auto simp: ireg_okD(4)[OF assms])
  also have "\<dots> \<longleftrightarrow> find_id r (el_id e) = Some e \<and> el_ident e = x \<and> \<not> el_hidden e"
    using ireg_okD(3)[OF assms] by blast
  finally show ?thesis .
qed

lemma find_ident_unique:
  assumes "ireg_ok r" "find_id r i = Some e" "find_id r j = Some f"
    "\<not> el_hidden e" "\<not> el_hidden f" "el_ident e = el_ident f"
  shows "i = j"
proof -
  have "ir_map r (el_ident e) = Some i" "ir_map r (el_ident e) = Some j"
    using ireg_okD(4)[OF assms(1)] assms(2-6) by auto
  then show ?thesis by simp
qed

lemma ireg_ok_empty: "ireg_ok ireg_empty"
  by (auto simp: ireg_ok_def ireg_empty_def find_id_def)

lemma ireg_reserve_ok:
  assumes ok: "ireg_ok r"
  shows "ireg_ok (ireg_reserve r)" "find_id (ireg_reserve r) = find_id r"
    "ir_map (ireg_reserve r) = ir_map r" "ir_free (ireg_reserve r) \<noteq> []"
proof -
  have f: "find_id (ireg_reserve r) = find_id r"
    by (rule ext) (auto simp: ireg_reserve_def find_id_def nth_append)
  have all: "find_id r i \<noteq> None" if "ir_free r = []" "0 < number i" "number i \<le> length (ir_lut r)" for i
    using ireg_okD(2)[OF ok, of i] that by simp
  show "find_id (ireg_reserve r) = find_id r" by (rule f)
  show m: "ir_map (ireg_reserve r) = ir_map r" and "ir_free (ireg_reserve r) \<noteq> []"
    by (simp_all add: ireg_reserve_def)
  have new: "find_id r (Id (length (ir_lut r) + 1)) = None" by (simp add: find_id_def)
  show "ireg_ok (ireg_reserve r)"
  proof (cases "ir_free r = []")
    case True
    have "i \<in> set (ir_free (ireg_reserve r)) \<longleftrightarrow>
      0 < number i \<and> number i \<le> length (ir_lut (ireg_reserve r)) \<and> find_id r i = None" for i
      using True all[OF True, of i] new by (cases i) (auto simp: ireg_reserve_def le_Suc_eq)
    then show ?thesis using True ok f m by (auto simp: ireg_ok_def) (simp add: ireg_reserve_def)
  next
    case False
    then show ?thesis using ok by (simp add: ireg_reserve_def)
  qed
qed

subsection \<open>Laws of the operations\<close>

definition new_element :: "ident \<Rightarrow> id \<Rightarrow> 'a \<Rightarrow> 'a element" where
  "new_element x i d = \<lparr>el_ident = x, el_id = i, el_hidden = False, el_data = d\<rparr>"

lemma new_element_simps [simp]:
  "el_ident (new_element x i d) = x" "el_id (new_element x i d) = i"
  "\<not> el_hidden (new_element x i d)" "el_data (new_element x i d) = d"
  by (simp_all add: new_element_def)

lemma ireg_insert_old:
  assumes ok: "ireg_ok r" and old: "find_ident r x = Some e"
  shows "ireg_insert x d r = ((el_id e, False), ireg_reserve r)"
proof -
  have "ir_map r x = Some (el_id e)"
    using old find_ident_Some[OF ok] ireg_okD(4)[OF ok] by blast
  then show ?thesis by (simp add: ireg_insert_def Let_def ireg_reserve_ok(3)[OF ok])
qed

lemma ireg_insert_new:
  assumes ok: "ireg_ok r" and new: "find_ident r x = None"
  obtains i r' where "ireg_insert x d r = ((i, True), r')" "ireg_ok r'" "id_valid i"
    "find_id r i = None" "find_id r' = (find_id r)(i \<mapsto> new_element x i d)"
proof -
  define r1 where "r1 = ireg_reserve r"
  define i where "i = hd (ir_free r1)"
  define r' where "r' = r1\<lparr>ir_lut := (ir_lut r1)[number i - 1 := Some (new_element x i d)],
    ir_map := (ir_map r1)(x \<mapsto> i), ir_free := tl (ir_free r1)\<rparr>"
  note res = ireg_reserve_ok[OF ok, folded r1_def]
  have noref: "ir_map r1 x = None"
  proof (rule ccontr)
    assume "ir_map r1 x \<noteq> None"
    then obtain j where "ir_map r x = Some j" using res(3) by auto
    with ireg_okD(4)[OF ok, of x j] new show False by (auto simp: find_ident_def)
  qed
  have ifree: "i \<in> set (ir_free r1)" using res(4) by (simp add: i_def)
  then have i: "0 < number i" "number i \<le> length (ir_lut r1)" "find_id r1 i = None"
    using ireg_okD(2)[OF res(1), of i] by auto
  have fi: "find_id r' j = (if j = i then Some (new_element x i d) else find_id r1 j)" for j
    using find_id_put[OF i(1,2), of "Some (new_element x i d)" j]
    by (simp add: r'_def find_id_def ireg_put_def)
  have fr: "set (ir_free r') = set (ir_free r1) - {i}"
    using ireg_okD(1)[OF res(1)] res(4) by (cases "ir_free r1") (auto simp: r'_def i_def)
  have "distinct (ir_free r')"
    using ireg_okD(1)[OF res(1)] by (simp add: r'_def distinct_tl)
  moreover have "j \<in> set (ir_free r') \<longleftrightarrow> 0 < number j \<and> number j \<le> length (ir_lut r') \<and> find_id r' j = None" for j
    using ireg_okD(2)[OF res(1), of j] fr fi[of j] by (auto simp: r'_def)
  moreover have "find_id r' j = Some e \<Longrightarrow> el_id e = j" for j e
    using fi[of j] ireg_okD(3)[OF res(1), of j e] by (auto split: if_splits)
  moreover have "ir_map r' y = Some j \<longleftrightarrow> (\<exists>e. find_id r' j = Some e \<and> el_ident e = y \<and> \<not> el_hidden e)" for y j
    using fi[of j] i(3) noref ireg_okD(4)[OF res(1), of y j] by (auto simp: r'_def)
  ultimately have ok': "ireg_ok r'" unfolding ireg_ok_def by blast
  have "ireg_insert x d r = ((i, True), r')"
    using noref by (simp add: ireg_insert_def Let_def r'_def i_def r1_def new_element_def)
  moreover have "find_id r' = (find_id r)(i \<mapsto> new_element x i d)"
    using fi res(2) by (auto simp: fun_eq_iff)
  moreover have "id_valid i" using i by (simp add: id_valid_def invalid_number_def)
  ultimately show thesis using that ok' i(3) res(2) by simp
qed

lemma ireg_insert_result:
  assumes ok: "ireg_ok r" and i: "ireg_insert x d r = ((i, inserted), r')"
  shows "\<not> inserted \<Longrightarrow> \<exists>e. find_ident r x = Some e \<and> i = el_id e \<and> r' = ireg_reserve r"
    and "inserted \<Longrightarrow> find_ident r x = None \<and> id_valid i \<and> find_id r i = None \<and> ireg_ok r' \<and>
      find_id r' = (find_id r)(i \<mapsto> new_element x i d)"
proof -
  show "\<exists>e. find_ident r x = Some e \<and> i = el_id e \<and> r' = ireg_reserve r" if "\<not> inserted"
  proof (cases "find_ident r x")
    case None
    obtain j r2 where "ireg_insert x d r = ((j, True), r2)" by (rule ireg_insert_new[OF ok None])
    then show ?thesis using i that by simp
  next
    case (Some e)
    then show ?thesis using ireg_insert_old[OF ok Some, of d] i by simp
  qed
  show "find_ident r x = None \<and> id_valid i \<and> find_id r i = None \<and> ireg_ok r' \<and>
      find_id r' = (find_id r)(i \<mapsto> new_element x i d)" if "inserted"
  proof (cases "find_ident r x")
    case None
    obtain j r2 where "ireg_insert x d r = ((j, True), r2)" "ireg_ok r2" "id_valid j"
      "find_id r j = None" "find_id r2 = (find_id r)(j \<mapsto> new_element x j d)"
      by (rule ireg_insert_new[OF ok None])
    then show ?thesis using i None by simp
  next
    case (Some e)
    then show ?thesis using ireg_insert_old[OF ok Some, of d] i that by simp
  qed
qed

lemma ireg_put_ok:
  assumes ok: "ireg_ok r" and e: "find_id r i = Some e"
    and same: "el_ident e' = el_ident e" "el_id e' = el_id e" "el_hidden e' = el_hidden e"
  shows "ireg_ok (ireg_put i (Some e') r)"
    and "find_id (ireg_put i (Some e') r) = (find_id r)(i \<mapsto> e')"
proof -
  have i: "0 < number i" "number i \<le> length (ir_lut r)"
    using find_id_in_range[OF e] by auto
  have fi: "find_id (ireg_put i (Some e') r) j = (if j = i then Some e' else find_id r j)" for j
    by (rule find_id_put[OF i])
  then show "find_id (ireg_put i (Some e') r) = (find_id r)(i \<mapsto> e')" by auto
  show "ireg_ok (ireg_put i (Some e') r)"
    unfolding ireg_ok_def
  proof (intro conjI allI)
    show "distinct (ir_free (ireg_put i (Some e') r))" using ireg_okD(1)[OF ok] by simp
    fix j
    show "(j \<in> set (ir_free (ireg_put i (Some e') r))) = (0 < number j \<and>
      number j \<le> length (ir_lut (ireg_put i (Some e') r)) \<and> find_id (ireg_put i (Some e') r) j = None)"
      using ireg_okD(2)[OF ok, of j] fi[of j] e by auto
    fix f
    show "find_id (ireg_put i (Some e') r) j = Some f \<longrightarrow> el_id f = j"
      using ireg_okD(3)[OF ok] fi[of j] e same by auto
  next
    fix x j
    show "(ir_map (ireg_put i (Some e') r) x = Some j) =
      (\<exists>f. find_id (ireg_put i (Some e') r) j = Some f \<and> el_ident f = x \<and> \<not> el_hidden f)"
      using ireg_okD(4)[OF ok, of x j] fi[of j] e same by auto
  qed
qed

lemma ireg_modify_ok:
  assumes ok: "ireg_ok r" and e: "find_id r i = Some e"
  shows "\<exists>r'. ireg_modify i f r = Some r' \<and> ireg_ok r' \<and>
    find_id r' = (find_id r)(i \<mapsto> e\<lparr>el_data := f (el_data e)\<rparr>)"
  using ireg_put_ok[OF ok e, of "e\<lparr>el_data := f (el_data e)\<rparr>"] e
  by (simp add: ireg_modify_def)

lemma ireg_hide_ok:
  assumes ok: "ireg_ok r" and e: "find_id r i = Some e"
  shows "\<exists>r'. ireg_hide i r = Some r' \<and> ireg_ok r' \<and> find_id r' = (find_id r)(i \<mapsto> e\<lparr>el_hidden := True\<rparr>)
    \<and> ir_free r' = ir_free r \<and> length (ir_lut r') = length (ir_lut r)"
proof (cases "el_hidden e")
  case True
  then show ?thesis using ok e by (auto simp: ireg_hide_def fun_eq_iff)
next
  case False
  have i: "0 < number i" "number i \<le> length (ir_lut r)"
    using find_id_in_range[OF e] by auto
  have m: "ir_map r (el_ident e) = Some i" using ireg_okD(4)[OF ok] e False by blast
  define r' where "r' = (ireg_put i (Some (e\<lparr>el_hidden := True\<rparr>)) r)\<lparr>ir_map := (ir_map r)(el_ident e := None)\<rparr>"
  have h: "ireg_hide i r = Some r'" using e False m by (simp add: ireg_hide_def r'_def)
  have fi: "find_id r' j = (if j = i then Some (e\<lparr>el_hidden := True\<rparr>) else find_id r j)" for j
    using find_id_put[OF i] by (simp add: r'_def)
  have "ireg_ok r'"
    unfolding ireg_ok_def
  proof (intro conjI allI)
    show "distinct (ir_free r')" using ireg_okD(1)[OF ok] by (simp add: r'_def)
    fix j
    show "(j \<in> set (ir_free r')) = (0 < number j \<and> number j \<le> length (ir_lut r') \<and> find_id r' j = None)"
      using ireg_okD(2)[OF ok, of j] fi[of j] e by (auto simp: r'_def)
    fix f
    show "find_id r' j = Some f \<longrightarrow> el_id f = j"
      using ireg_okD(3)[OF ok] fi[of j] e by auto
  next
    fix x j
    show "(ir_map r' x = Some j) = (\<exists>f. find_id r' j = Some f \<and> el_ident f = x \<and> \<not> el_hidden f)"
    proof (cases "j = i")
      case True
      have "ir_map r x = Some i \<Longrightarrow> x = el_ident e"
        using ireg_okD(4)[OF ok, of x i] e by auto
      then show ?thesis using True fi[of i] by (auto simp: r'_def)
    next
      case j: False
      have "\<not> (\<exists>f. find_id r j = Some f \<and> el_ident f = el_ident e \<and> \<not> el_hidden f)"
        using find_ident_unique[OF ok _ e] False j by blast
      then show ?thesis using ireg_okD(4)[OF ok, of x j] fi[of j] j
        by (cases "x = el_ident e") (simp_all add: r'_def)
    qed
  qed
  then show ?thesis using h fi by (auto simp: fun_eq_iff r'_def)
qed

lemma ireg_erase_ok:
  assumes ok: "ireg_ok r" and e: "find_id r i = Some e"
  shows "\<exists>r'. ireg_erase i r = Some r' \<and> ireg_ok r' \<and> find_id r' = (find_id r)(i := None)"
proof -
  obtain r1 where h: "ireg_hide i r = Some r1" and ok1: "ireg_ok r1"
    and f1: "find_id r1 = (find_id r)(i \<mapsto> e\<lparr>el_hidden := True\<rparr>)"
    and fr1: "ir_free r1 = ir_free r" and len1: "length (ir_lut r1) = length (ir_lut r)"
    using ireg_hide_ok[OF ok e] by blast
  have i: "0 < number i" "number i \<le> length (ir_lut r1)"
    using find_id_in_range[OF e] len1 by auto
  have id: "el_id e = i" using ireg_okD(3)[OF ok e] .
  define r' where "r' = (ireg_put i None r1)\<lparr>ir_free := el_id e # ir_free r1\<rparr>"
  have er: "ireg_erase i r = Some r'" using e h by (simp add: ireg_erase_def r'_def)
  have fi: "find_id r' j = (if j = i then None else find_id r j)" for j
    using find_id_put[OF i, of None j] f1 by (simp add: r'_def)
  have notfree: "i \<notin> set (ir_free r)" using ireg_okD(2)[OF ok, of i] e by simp
  have "ireg_ok r'"
    unfolding ireg_ok_def
  proof (intro conjI allI)
    show "distinct (ir_free r')" using ireg_okD(1)[OF ok1] notfree fr1 id by (simp add: r'_def)
    fix j
    show "(j \<in> set (ir_free r')) = (0 < number j \<and> number j \<le> length (ir_lut r') \<and> find_id r' j = None)"
      using ireg_okD(2)[OF ok, of j] fi[of j] i id fr1 len1 by (auto simp: r'_def)
    fix f
    show "find_id r' j = Some f \<longrightarrow> el_id f = j"
      using ireg_okD(3)[OF ok] fi[of j] by auto
  next
    fix x j
    show "(ir_map r' x = Some j) = (\<exists>f. find_id r' j = Some f \<and> el_ident f = x \<and> \<not> el_hidden f)"
      using ireg_okD(4)[OF ok1, of x j] fi[of j] by (cases "j = i") (simp_all add: r'_def f1)
  qed
  then show ?thesis using er fi by (auto simp: fun_eq_iff)
qed

subsection \<open>Iteration\<close>

lemma scan_lut_ids: "scan_lut es = (case lut_ids es of [] \<Rightarrow> None | i # _ \<Rightarrow> Some i)"
  by (induction es rule: scan_lut.induct) auto

lemma lut_ids_append: "lut_ids (xs @ ys) = lut_ids xs @ lut_ids ys"
  by (induction xs rule: lut_ids.induct) auto

lemma set_lut_ids: "i \<in> set (lut_ids es) \<longleftrightarrow> (\<exists>e. Some e \<in> set es \<and> el_id e = i)"
  by (induction es rule: lut_ids.induct) auto

lemma lut_ids_sorted:
  assumes "\<And>k e. k < length es \<Longrightarrow> es ! k = Some e \<Longrightarrow> el_id e = Id (b + k)"
  shows "sorted_wrt (<) (lut_ids es) \<and> (\<forall>i \<in> set (lut_ids es). b \<le> number i)"
  using assms
proof (induction es arbitrary: b rule: lut_ids.induct)
  case 1
  then show ?case by simp
next
  case (2 e es)
  have "el_id e = Id b" using "2.prems"[of 0 e] by simp
  moreover have "sorted_wrt (<) (lut_ids es) \<and> (\<forall>i \<in> set (lut_ids es). Suc b \<le> number i)"
    by (rule "2.IH") (use "2.prems" in force)
  moreover have "Id b < i" if "Suc b \<le> number i" for i using that by (simp add: less_id_def)
  ultimately show ?case by fastforce
next
  case (3 es)
  have "sorted_wrt (<) (lut_ids es) \<and> (\<forall>i \<in> set (lut_ids es). Suc b \<le> number i)"
    by (rule "3.IH") (use "3.prems" in force)
  then show ?case by auto
qed

lemma ireg_lut_nth:
  assumes "ireg_ok r" "k < length (ir_lut r)" "ir_lut r ! k = Some e"
  shows "el_id e = Id (1 + k)"
  using ireg_okD(3)[OF assms(1), of "Id (1 + k)" e] assms(2,3) by (simp add: find_id_def)

lemma set_ireg_ids: "ireg_ok r \<Longrightarrow> i \<in> set (ireg_ids r) \<longleftrightarrow> find_id r i \<noteq> None"
proof
  assume ok: "ireg_ok r" and "i \<in> set (ireg_ids r)"
  then obtain e where "Some e \<in> set (ir_lut r)" "el_id e = i"
    by (auto simp: ireg_ids_def set_lut_ids)
  then obtain k where "k < length (ir_lut r)" "ir_lut r ! k = Some e" "el_id e = i"
    by (auto simp: in_set_conv_nth)
  with ireg_lut_nth[OF ok] show "find_id r i \<noteq> None" by (auto simp: find_id_def)
next
  assume ok: "ireg_ok r" and "find_id r i \<noteq> None"
  then obtain e where e: "find_id r i = Some e" by auto
  have lt: "number i - 1 < length (ir_lut r)" using find_id_in_range[OF e] by linarith
  have "ir_lut r ! (number i - 1) = Some e" using e by (simp add: find_id_def split: if_splits)
  then have "Some e \<in> set (ir_lut r)" using nth_mem[OF lt] by metis
  with ireg_okD(3)[OF ok e] show "i \<in> set (ireg_ids r)" by (auto simp: ireg_ids_def set_lut_ids)
qed

lemma sorted_ireg_ids: "ireg_ok r \<Longrightarrow> sorted_wrt (<) (ireg_ids r)"
  unfolding ireg_ids_def using lut_ids_sorted[of "ir_lut r" 1] ireg_lut_nth by blast

lemma ireg_begin_ids: "ireg_begin r = (case ireg_ids r of [] \<Rightarrow> None | i # _ \<Rightarrow> Some i)"
  by (simp add: ireg_begin_def ireg_ids_def scan_lut_ids)

lemma ireg_next_ids:
  assumes ok: "ireg_ok r" and split: "ireg_ids r = is @ i # js"
  shows "ireg_next i r = (case js of [] \<Rightarrow> None | j # _ \<Rightarrow> Some j)"
proof -
  have "find_id r i \<noteq> None" using set_ireg_ids[OF ok, of i] split by simp
  then obtain e where e: "0 < number i" "number i \<le> length (ir_lut r)" "ir_lut r ! (number i - 1) = Some e"
    by (auto simp: find_id_def split: if_splits)
  have id: "el_id e = i" using ireg_lut_nth[OF ok _ e(3)] e(1,2) by (cases i) auto
  have "ir_lut r = take (number i - 1) (ir_lut r) @ Some e # drop (number i) (ir_lut r)"
    using id_take_nth_drop[of "number i - 1" "ir_lut r"] e by simp
  then have "ireg_ids r = lut_ids (take (number i - 1) (ir_lut r)) @ i # lut_ids (drop (number i) (ir_lut r))"
    unfolding ireg_ids_def by (metis id lut_ids.simps(2) lut_ids_append)
  moreover have "distinct (ireg_ids r)"
    using sorted_ireg_ids[OF ok] strict_sorted_iff by blast
  ultimately have "js = lut_ids (drop (number i) (ir_lut r))"
    using split by (auto simp: append_eq_Cons_conv Cons_eq_append_conv append_eq_append_conv2)
  then show ?thesis by (simp add: ireg_next_def scan_lut_ids)
qed

section \<open>The contract of an identified register\<close>

text \<open>
  What the leaf and node logic relies on.  The second group of lemmas is the reason for the flag:
  a hidden element stays reachable by its Id while its identifier can be taken by a new element.
\<close>

locale ident_register =
  fixes invar :: "'r \<Rightarrow> bool"
    and by_id :: "'r \<Rightarrow> id \<Rightarrow> 'e option"
    and by_key :: "'r \<Rightarrow> 'k \<Rightarrow> 'e option"
    and ins :: "'k \<Rightarrow> 'd \<Rightarrow> 'r \<Rightarrow> (id \<times> bool) \<times> 'r"
    and hide :: "id \<Rightarrow> 'r \<Rightarrow> 'r option"
    and del :: "id \<Rightarrow> 'r \<Rightarrow> 'r option"
    and key :: "'e \<Rightarrow> 'k" and idof :: "'e \<Rightarrow> id" and hid :: "'e \<Rightarrow> bool"
  assumes by_key: "invar r \<Longrightarrow> by_key r x = Some e \<longleftrightarrow> by_id r (idof e) = Some e \<and> key e = x \<and> \<not> hid e"
    and idof: "invar r \<Longrightarrow> by_id r i = Some e \<Longrightarrow> idof e = i"
    and ins_old: "invar r \<Longrightarrow> by_key r x = Some e \<Longrightarrow>
      \<exists>r'. ins x d r = ((idof e, False), r') \<and> invar r' \<and> by_id r' = by_id r"
    and ins_new: "invar r \<Longrightarrow> by_key r x = None \<Longrightarrow>
      \<exists>i e r'. ins x d r = ((i, True), r') \<and> invar r' \<and> id_valid i \<and> by_id r i = None \<and>
        by_id r' = (by_id r)(i \<mapsto> e) \<and> idof e = i \<and> key e = x \<and> \<not> hid e"
    and hide: "invar r \<Longrightarrow> by_id r i = Some e \<Longrightarrow>
      \<exists>r' e'. hide i r = Some r' \<and> invar r' \<and> by_id r' = (by_id r)(i \<mapsto> e') \<and> idof e' = i \<and>
        key e' = key e \<and> hid e'"
    and del: "invar r \<Longrightarrow> by_id r i = Some e \<Longrightarrow>
      \<exists>r'. del i r = Some r' \<and> invar r' \<and> by_id r' = (by_id r)(i := None)"
begin

lemma ins_found:
  assumes "invar r" "ins x d r = ((i, b), r')"
  shows "\<exists>e. by_key r' x = Some e \<and> idof e = i"
proof (cases "by_key r x")
  case None
  then show ?thesis using ins_new[OF assms(1) None, of d] assms(2) by (auto simp: by_key)
next
  case (Some e)
  then show ?thesis using ins_old[OF assms(1) Some, of d] assms(2) by_key[OF assms(1)]
    by (auto simp: by_key)
qed

lemma ins_twice:
  assumes "invar r" "ins x d r = ((i, b), r1)" "ins x d' r1 = ((j, c), r2)"
  shows "j = i \<and> \<not> c \<and> by_id r2 = by_id r1"
proof -
  have r1: "invar r1"
    using ins_new[OF assms(1), of x d] ins_old[OF assms(1), of x _ d] assms(2)
    by (cases "by_key r x") auto
  obtain e where "by_key r1 x = Some e" "idof e = i" using ins_found[OF assms(1,2)] by blast
  then show ?thesis using ins_old[OF r1, of x e d'] assms(3) by auto
qed

lemma hide_forgets_key:
  assumes "invar r" "by_id r i = Some e" "hide i r = Some r'" "\<not> hid e"
  shows "by_key r' (key e) = None" and "by_id r' i \<noteq> None"
proof -
  obtain e' where r': "invar r'" "by_id r' = (by_id r)(i \<mapsto> e')" "idof e' = i" "key e' = key e" "hid e'"
    using hide[OF assms(1,2)] assms(3) by auto
  show "by_key r' (key e) = None"
  proof (rule ccontr)
    assume "by_key r' (key e) \<noteq> None"
    then obtain f where f: "by_id r' (idof f) = Some f" "key f = key e" "\<not> hid f"
      using by_key[OF r'(1)] by auto
    then have "idof f \<noteq> i" "by_id r (idof f) = Some f" using r' by (auto split: if_splits)
    then have "by_key r (key e) = Some f" using by_key[OF assms(1)] f by simp
    moreover have "by_key r (key e) = Some e"
      using by_key[OF assms(1)] assms(2,4) idof[OF assms(1,2)] by simp
    ultimately have "f = e" by simp
    then show False using \<open>idof f \<noteq> i\<close> idof[OF assms(1,2)] by simp
  qed
  show "by_id r' i \<noteq> None" using r' by simp
qed

lemma hide_then_ins:
  assumes "invar r" "by_id r i = Some e" "\<not> hid e" "hide i r = Some r1"
    "ins (key e) d r1 = ((j, b), r2)"
  shows "b \<and> j \<noteq> i \<and> id_valid j \<and> (\<exists>e'. by_id r2 i = Some e' \<and> hid e' \<and> key e' = key e)"
proof -
  obtain e' where r1: "invar r1" "by_id r1 = (by_id r)(i \<mapsto> e')" "key e' = key e" "hid e'"
    using hide[OF assms(1,2)] assms(4) by auto
  have "by_key r1 (key e) = None" using hide_forgets_key[OF assms(1,2,4,3)] by simp
  from ins_new[OF r1(1) this, of d] assms(5) r1 show ?thesis by auto
qed

end

interpretation ireg: ident_register ireg_ok find_id find_ident ireg_insert ireg_hide ireg_erase
  el_ident el_id el_hidden
proof
  fix r :: "'a ireg" and x :: ident and e :: "'a element" and i :: id and d :: 'a
  assume ok: "ireg_ok r"
  show "find_ident r x = Some e \<longleftrightarrow> find_id r (el_id e) = Some e \<and> el_ident e = x \<and> \<not> el_hidden e"
    by (rule find_ident_Some[OF ok])
  show "find_id r i = Some e \<Longrightarrow> el_id e = i" by (rule ireg_okD(3)[OF ok])
  show "\<exists>r'. ireg_insert x d r = ((el_id e, False), r') \<and> ireg_ok r' \<and> find_id r' = find_id r"
    if "find_ident r x = Some e"
    using ireg_insert_old[OF ok that, of d] ireg_reserve_ok[OF ok] by simp
  show "\<exists>i e r'. ireg_insert x d r = ((i, True), r') \<and> ireg_ok r' \<and> id_valid i \<and> find_id r i = None \<and>
      find_id r' = (find_id r)(i \<mapsto> e) \<and> el_id e = i \<and> el_ident e = x \<and> \<not> el_hidden e"
    if "find_ident r x = None"
    using ireg_insert_new[OF ok that, of d] by (metis new_element_simps)
  assume e: "find_id r i = Some e"
  show "\<exists>r' e'. ireg_hide i r = Some r' \<and> ireg_ok r' \<and> find_id r' = (find_id r)(i \<mapsto> e') \<and> el_id e' = i \<and>
      el_ident e' = el_ident e \<and> el_hidden e'"
    using ireg_hide_ok[OF ok e] ireg_okD(3)[OF ok e]
    by (auto intro!: exI[of _ "e\<lparr>el_hidden := True\<rparr>"])
  show "\<exists>r'. ireg_erase i r = Some r' \<and> ireg_ok r' \<and> find_id r' = (find_id r)(i := None)"
    by (rule ireg_erase_ok[OF ok e])
qed

section \<open>Properties\<close>

text \<open>After hiding an element, inserting its identifier again creates a second element under a
  different, valid Id, while the hidden one stays reachable by its old Id.  This is what lets a
  destroyed terminal await its acknowledgement next to a new terminal of the same name.\<close>

theorem ireg_reuse_identifier:
  assumes "ireg_ok r" "find_id r i = Some e" "\<not> el_hidden e" "ireg_hide i r = Some r1"
    "ireg_insert (el_ident e) d r1 = ((j, b), r2)"
  shows "b \<and> j \<noteq> i \<and> id_valid j \<and> (\<exists>e'. find_id r2 i = Some e' \<and> el_hidden e' \<and> el_ident e' = el_ident e)"
  using assms by (rule ireg.hide_then_ins)

definition one_element :: "nat element" where
  "one_element = \<lparr>el_ident = default_ident, el_id = Id 1, el_hidden = False, el_data = 7\<rparr>"

definition one_register :: "nat ireg" where
  "one_register = \<lparr>ir_map = [default_ident \<mapsto> Id 1], ir_lut = [Some one_element], ir_free = []\<rparr>"

lemma one_register:
  "ireg_insert default_ident 7 ireg_empty = ((Id 1, True), one_register)" "ireg_ok one_register"
  "find_id one_register (Id 1) = Some one_element" "\<not> el_hidden one_element" "el_ident one_element = default_ident"
proof -
  show i: "ireg_insert default_ident 7 ireg_empty = ((Id 1, True), one_register)"
    by (simp add: ireg_insert_def ireg_reserve_def ireg_empty_def one_register_def one_element_def Let_def)
  have "find_ident (ireg_empty :: nat ireg) default_ident = None" by (simp add: find_ident_def ireg_empty_def)
  from ireg.ins_new[OF ireg_ok_empty this, of 7]
  show "ireg_ok one_register" unfolding i by blast
qed (simp_all add: one_register_def one_element_def find_id_def)

lemma ireg_reuse_identifier_witness:
  "\<exists>r1 r2. ireg_hide (Id 1) one_register = Some r1 \<and>
     ireg_insert default_ident 8 r1 = ((Id 2, True), r2) \<and> (\<exists>e. find_id r2 (Id 1) = Some e \<and> el_hidden e)"
proof -
  define r1 where "r1 = one_register\<lparr>ir_map := Map.empty, ir_lut := [Some (one_element\<lparr>el_hidden := True\<rparr>)]\<rparr>"
  have r1: "ireg_hide (Id 1) one_register = Some r1"
    unfolding ireg_hide_def one_register(3) by (simp add: ireg_put_def r1_def one_register(4,5))
      (simp add: one_register_def)
  obtain r2 where r2: "ireg_insert default_ident 8 r1 = ((Id 2, True), r2)"
    by (simp add: ireg_insert_def ireg_reserve_def r1_def one_register_def Let_def numeral_2_eq_2)
  show ?thesis using ireg_reuse_identifier[OF one_register(2,3,4) r1, of 8 "Id 2" True r2] one_register(5) r2 r1 by auto
qed

text \<open>C28: Iterating with \<^verbatim>\<open>begin()\<close> and \<^verbatim>\<open>operator++\<close> visits exactly the living elements, in
  ascending order of their Ids, each once.\<close>

theorem ireg_iteration:
  assumes "ireg_ok r"
  shows "\<exists>is. sorted_wrt (<) is \<and> set is = {i. find_id r i \<noteq> None} \<and>
    ireg_begin r = (case is of [] \<Rightarrow> None | i # _ \<Rightarrow> Some i) \<and>
    (\<forall>js i ks. is = js @ i # ks \<longrightarrow> ireg_next i r = (case ks of [] \<Rightarrow> None | k # _ \<Rightarrow> Some k))"
proof (intro exI[of _ "ireg_ids r"] conjI allI impI)
  show "set (ireg_ids r) = {i. find_id r i \<noteq> None}" using set_ireg_ids[OF assms] by blast
qed (rule sorted_ireg_ids[OF assms] ireg_begin_ids ireg_next_ids[OF assms], assumption?)+

lemma ireg_iteration_witness: "\<exists>is. set is = {i. find_id one_register i \<noteq> None} \<and> is \<noteq> []"
proof -
  have "ireg_begin one_register = Some (Id 1)" by (simp add: ireg_begin_def one_register_def one_element_def)
  then show ?thesis using ireg_iteration[OF one_register(2)] by (metis list.simps(4) option.distinct(1))
qed

text \<open>\<^verbatim>\<open>ObjectRegister\<close> hands out a valid Id that no living object has and looks the object up under
  it, and \<^verbatim>\<open>erase\<close> of a living object succeeds and removes that object only.\<close>

theorem oreg_insert_erase:
  assumes "oreg_ok r"
  shows "id_valid (fst (oreg_insert v r)) \<and> oreg_get r (fst (oreg_insert v r)) = None \<and>
    oreg_get (snd (oreg_insert v r)) = (oreg_get r)(fst (oreg_insert v r) \<mapsto> v) \<and> oreg_ok (snd (oreg_insert v r)) \<and>
    (\<forall>i. oreg_get r i \<noteq> None \<longrightarrow>
      (\<exists>r'. oreg_erase dflt i r = Some r' \<and> oreg_get r' = (oreg_get r)(i := None) \<and> oreg_ok r'))"
proof (intro conjI allI impI)
  show "\<exists>r'. oreg_erase dflt i r = Some r' \<and> oreg_get r' = (oreg_get r)(i := None) \<and> oreg_ok r'"
    if "oreg_get r i \<noteq> None" for i
    using oreg_erase_get[OF assms that, of dflt] by blast
qed (rule oreg.add_valid[OF assms] oreg.add_fresh[OF assms] oreg.add_lookup[OF assms] oreg.add_invar[OF assms])+

lemma oreg_insert_erase_witness:
  "\<exists>r. oreg_insert (7 :: nat) oreg_empty = (Id 1, r) \<and> oreg_get r (Id 1) = Some 7 \<and> oreg_erase 0 (Id 1) r \<noteq> None"
proof -
  define r where "r = snd (oreg_insert (7 :: nat) oreg_empty)"
  have i: "oreg_insert 7 oreg_empty = (Id 1, r)" unfolding r_def by code_simp
  have "oreg_ok r" "oreg_get r (Id 1) = Some 7"
    using oreg_insert_erase[OF oreg_ok_empty, of "7 :: nat" 0] i by auto
  then show ?thesis using oreg_insert_erase[of r 7 0] i by (auto simp del: One_nat_def)
qed

text \<open>The debug check \<^verbatim>\<open>is_valid\<close> of \<^verbatim>\<open>ObjectRegister\<close> accepts the invalid Id, and
  \<^verbatim>\<open>count\<close> reports such an object, although no lookup table entry belongs to it.\<close>

theorem oreg_accepts_invalid_id:
  assumes "oreg_ok r"
  shows "oreg_is_valid r default_id \<and> oreg_count r default_id = 1 \<and> oreg_get r default_id = None"
  using assms by (auto simp: oreg_ok_def oreg_is_valid_def oreg_count_def oreg_get_def oreg_slot_def default_id_def
      invalid_number_def reg_simps)

lemma oreg_accepts_invalid_id_witness: "oreg_count (oreg_empty :: nat oreg) default_id = 1"
  using oreg_accepts_invalid_id[OF oreg_ok_empty] by blast

end
