(* ===== verification/Leaf_Logic.thy ===== *)
theory Leaf_Logic
  imports Registers Mapped_Fsm Messages Api
begin

text \<open>
  \<^verbatim>\<open>core/common/LeafLogicBaseT.hpp\<close>: the terminals and binding groups of a leaf and their
  mapping to the other end of the leaf's only connection.  A handler is a function on \<open>leaf\<close>;
  what it tells the outside (messages, state changes of bindings and terminals, data for the user)
  is appended to \<open>lf_out\<close>.  The virtual functions of the class are the record \<open>leaf_hooks\<close>.
\<close>

section \<open>State\<close>

type_synonym addr = nat

text \<open>A pointer to a binding, together with the Id of the terminal the binding belongs to.\<close>

record binding_ref =
  br_addr :: addr
  br_terminal :: id

text \<open>
  \<open>ti_subscribed\<close> is the member that the subscribable classes add; \<open>'te\<close>, \<open>'be\<close> and \<open>'x\<close> are the
  extensions of the terminal info, of the binding info and of the logic object in derived classes.
\<close>

record 'te terminal_info =
  ti_fsm :: fsm
  ti_terminal :: "addr option"
  ti_subscribed :: bool
  ti_ext :: 'te

record 'be binding_info =
  bi_fsm :: fsm
  bi_established :: bool
  bi_bindings :: "binding_ref list"
  bi_ext :: 'be

datatype leaf_event =
    Sent body
  | Binding_State addr bool
  | Subscription_State addr bool
  | Data_Received addr buffer bool
  | Scattered_Received addr id buffer nat
  | Gathered_Received addr id gather_flags buffer nat
  | Operation_Canceled addr id

text \<open>\<open>lf_connection\<close> holds \<^verbatim>\<open>remote_is_node()\<close> of the connection, if there is one.\<close>

record ('te, 'be, 'x) leaf =
  lf_connection :: "bool option"
  lf_terminals :: "'te terminal_info ireg"
  lf_bindings :: "'be binding_info ireg"
  lf_derived :: 'x
  lf_out :: "leaf_event list"

record ('te, 'be, 'x) leaf_hooks =
  h_terminal_ext :: 'te
  h_binding_ext :: 'be
  h_terminal_mapping_changed :: "bool \<Rightarrow> id \<Rightarrow> ('te, 'be, 'x) leaf \<Rightarrow> ('te, 'be, 'x) leaf option"
  h_terminal_removed :: "addr \<Rightarrow> id \<Rightarrow> ('te, 'be, 'x) leaf \<Rightarrow> ('te, 'be, 'x) leaf option"
  h_group_mapping_changed :: "bool \<Rightarrow> id \<Rightarrow> ('te, 'be, 'x) leaf \<Rightarrow> ('te, 'be, 'x) leaf option"
  h_binding_removed :: "binding_ref \<Rightarrow> id \<Rightarrow> ('te, 'be, 'x) leaf \<Rightarrow> ('te, 'be, 'x) leaf option"

definition leaf_init :: "'x \<Rightarrow> ('te, 'be, 'x) leaf" where
  "leaf_init x = \<lparr>lf_connection = None, lf_terminals = ireg_empty, lf_bindings = ireg_empty,
     lf_derived = x, lf_out = []\<rparr>"

definition new_terminal_info :: "('te, 'be, 'x) leaf_hooks \<Rightarrow> 'te terminal_info" where
  "new_terminal_info h = \<lparr>ti_fsm = fsm_init, ti_terminal = None, ti_subscribed = False, ti_ext = h_terminal_ext h\<rparr>"

definition new_binding_info :: "('te, 'be, 'x) leaf_hooks \<Rightarrow> 'be binding_info" where
  "new_binding_info h = \<lparr>bi_fsm = fsm_init, bi_established = False, bi_bindings = [], bi_ext = h_binding_ext h\<rparr>"

section \<open>Access\<close>

definition emit :: "leaf_event \<Rightarrow> ('te, 'be, 'x) leaf \<Rightarrow> ('te, 'be, 'x) leaf" where
  "emit e lf = lf\<lparr>lf_out := lf_out lf @ [e]\<rparr>"

definition emits :: "leaf_event list \<Rightarrow> ('te, 'be, 'x) leaf \<Rightarrow> ('te, 'be, 'x) leaf" where
  "emits es lf = lf\<lparr>lf_out := lf_out lf @ es\<rparr>"

text \<open>\<^verbatim>\<open>m_connection->send(msg)\<close> and \<^verbatim>\<open>connection()\<close> need a connection.\<close>

definition leaf_send :: "body \<Rightarrow> ('te, 'be, 'x) leaf \<Rightarrow> ('te, 'be, 'x) leaf option" where
  "leaf_send b lf = do { yassert (lf_connection lf \<noteq> None); Some (emit (Sent b) lf) }"

definition leaf_remote_is_node :: "('te, 'be, 'x) leaf \<Rightarrow> bool option" where
  "leaf_remote_is_node lf = lf_connection lf"

definition get_terminal_info :: "('te, 'be, 'x) leaf \<Rightarrow> id \<Rightarrow> 'te terminal_info option" where
  "get_terminal_info lf i = map_option el_data (find_id (lf_terminals lf) i)"

definition get_binding_info :: "('te, 'be, 'x) leaf \<Rightarrow> id \<Rightarrow> 'be binding_info option" where
  "get_binding_info lf i = map_option el_data (find_id (lf_bindings lf) i)"

definition modify_terminal ::
  "id \<Rightarrow> ('te terminal_info \<Rightarrow> 'te terminal_info) \<Rightarrow> ('te, 'be, 'x) leaf \<Rightarrow> ('te, 'be, 'x) leaf option" where
  "modify_terminal i f lf = do { r \<leftarrow> ireg_modify i f (lf_terminals lf); Some (lf\<lparr>lf_terminals := r\<rparr>) }"

definition modify_binding ::
  "id \<Rightarrow> ('be binding_info \<Rightarrow> 'be binding_info) \<Rightarrow> ('te, 'be, 'x) leaf \<Rightarrow> ('te, 'be, 'x) leaf option" where
  "modify_binding i f lf = do { r \<leftarrow> ireg_modify i f (lf_bindings lf); Some (lf\<lparr>lf_bindings := r\<rparr>) }"

definition erase_terminal :: "id \<Rightarrow> ('te, 'be, 'x) leaf \<Rightarrow> ('te, 'be, 'x) leaf option" where
  "erase_terminal i lf = do { r \<leftarrow> ireg_erase i (lf_terminals lf); Some (lf\<lparr>lf_terminals := r\<rparr>) }"

definition hide_terminal :: "id \<Rightarrow> ('te, 'be, 'x) leaf \<Rightarrow> ('te, 'be, 'x) leaf option" where
  "hide_terminal i lf = do { r \<leftarrow> ireg_hide i (lf_terminals lf); Some (lf\<lparr>lf_terminals := r\<rparr>) }"

definition erase_binding :: "id \<Rightarrow> ('te, 'be, 'x) leaf \<Rightarrow> ('te, 'be, 'x) leaf option" where
  "erase_binding i lf = do { r \<leftarrow> ireg_erase i (lf_bindings lf); Some (lf\<lparr>lf_bindings := r\<rparr>) }"

definition hide_binding :: "id \<Rightarrow> ('te, 'be, 'x) leaf \<Rightarrow> ('te, 'be, 'x) leaf option" where
  "hide_binding i lf = do { r \<leftarrow> ireg_hide i (lf_bindings lf); Some (lf\<lparr>lf_bindings := r\<rparr>) }"

section \<open>State of a binding group\<close>

definition update_binding_state ::
  "('te, 'be, 'x) leaf_hooks \<Rightarrow> id \<Rightarrow> bool \<Rightarrow> ('te, 'be, 'x) leaf \<Rightarrow> ('te, 'be, 'x) leaf option" where
  "update_binding_state h bd established lf = do {
     info \<leftarrow> get_binding_info lf bd;
     if bi_established info \<noteq> established then do {
       lf1 \<leftarrow> modify_binding bd (\<lambda>b. b\<lparr>bi_established := established\<rparr>) lf;
       lf2 \<leftarrow> h_group_mapping_changed h established bd lf1;
       info2 \<leftarrow> get_binding_info lf2 bd;
       Some (emits (map (\<lambda>b. Binding_State (br_addr b) established) (bi_bindings info2)) lf2) }
     else Some lf }"

definition update_binding_state_after_mapping_changed ::
  "('te, 'be, 'x) leaf_hooks \<Rightarrow> id \<Rightarrow> bool \<Rightarrow> ('te, 'be, 'x) leaf \<Rightarrow> ('te, 'be, 'x) leaf option" where
  "update_binding_state_after_mapping_changed h bd isMapped lf =
     (if \<not> isMapped then update_binding_state h bd False lf
      else do { node \<leftarrow> leaf_remote_is_node lf;
        if \<not> node then update_binding_state h bd True lf else Some lf })"

section \<open>Calls of the state machines\<close>

text \<open>
  The callbacks the leaf logic passes to the machine of a terminal and of a binding group.  All
  messages of one call are sent before the machine's members change, and the notifications follow
  after; nothing that is sent reads the machine, so storing the machine first is the same.
\<close>

definition terminal_callback ::
  "('te, 'be, 'x) leaf_hooks \<Rightarrow> ident \<Rightarrow> id \<Rightarrow> id \<Rightarrow> fsm_out \<Rightarrow> ('te, 'be, 'x) leaf \<Rightarrow> ('te, 'be, 'x) leaf option" where
  "terminal_callback h x tm remoteId out = (case out of
      SendDesc \<Rightarrow> leaf_send (TerminalDescription x tm)
    | SendMapp \<Rightarrow> leaf_send (BindingMapping remoteId tm)
    | SendRem m \<Rightarrow> leaf_send (TerminalRemoved m)
    | SendRemAck m \<Rightarrow> leaf_send (BindingRemovedAck m)
    | MappStChanged b \<Rightarrow> h_terminal_mapping_changed h b tm)"

definition binding_callback ::
  "('te, 'be, 'x) leaf_hooks \<Rightarrow> ident \<Rightarrow> id \<Rightarrow> id \<Rightarrow> fsm_out \<Rightarrow> ('te, 'be, 'x) leaf \<Rightarrow> ('te, 'be, 'x) leaf option" where
  "binding_callback h x bd remoteId out = (case out of
      SendDesc \<Rightarrow> leaf_send (BindingDescription x bd)
    | SendMapp \<Rightarrow> leaf_send (TerminalMapping remoteId bd)
    | SendRem m \<Rightarrow> leaf_send (BindingRemoved m)
    | SendRemAck m \<Rightarrow> leaf_send (TerminalRemovedAck m)
    | MappStChanged b \<Rightarrow> update_binding_state_after_mapping_changed h bd b)"

definition terminal_fsm ::
  "('te, 'be, 'x) leaf_hooks \<Rightarrow> id \<Rightarrow> id \<Rightarrow> (fsm \<Rightarrow> (fsm \<times> fsm_out list \<times> bool) option) \<Rightarrow>
   ('te, 'be, 'x) leaf \<Rightarrow> (bool \<times> ('te, 'be, 'x) leaf) option" where
  "terminal_fsm h tm remoteId call lf = do {
     e \<leftarrow> find_id (lf_terminals lf) tm;
     (f, outs, alive) \<leftarrow> call (ti_fsm (el_data e));
     lf1 \<leftarrow> modify_terminal tm (\<lambda>t. t\<lparr>ti_fsm := f\<rparr>) lf;
     lf2 \<leftarrow> for_each outs (terminal_callback h (el_ident e) tm remoteId) lf1;
     Some (alive, lf2) }"

definition binding_fsm ::
  "('te, 'be, 'x) leaf_hooks \<Rightarrow> id \<Rightarrow> id \<Rightarrow> (fsm \<Rightarrow> (fsm \<times> fsm_out list \<times> bool) option) \<Rightarrow>
   ('te, 'be, 'x) leaf \<Rightarrow> (bool \<times> ('te, 'be, 'x) leaf) option" where
  "binding_fsm h bd remoteId call lf = do {
     e \<leftarrow> find_id (lf_bindings lf) bd;
     (f, outs, alive) \<leftarrow> call (bi_fsm (el_data e));
     lf1 \<leftarrow> modify_binding bd (\<lambda>b. b\<lparr>bi_fsm := f\<rparr>) lf;
     lf2 \<leftarrow> for_each outs (binding_callback h (el_ident e) bd remoteId) lf1;
     Some (alive, lf2) }"

definition reset_call :: "bool \<Rightarrow> fsm \<Rightarrow> (fsm \<times> fsm_out list \<times> bool) option" where
  "reset_call hidden f = keep (Some (fsm_reset hidden f))"

section \<open>Connections\<close>

definition on_connection_started ::
  "('te, 'be, 'x) leaf_hooks \<Rightarrow> bool \<Rightarrow> ('te, 'be, 'x) leaf \<Rightarrow> ('te, 'be, 'x) leaf option" where
  "on_connection_started h remote_is_node lf = do {
     yassert (lf_connection lf = None);
     let lf0 = lf\<lparr>lf_connection := Some remote_is_node\<rparr>;
     lf1 \<leftarrow> for_each (ireg_ids (lf_terminals lf0)) (\<lambda>tm lf. do {
         e \<leftarrow> find_id (lf_terminals lf) tm;
         yassert (\<not> el_hidden e);
         (_, lf') \<leftarrow> terminal_fsm h tm default_id (reset_call (\<not> remote_is_node)) lf;
         Some lf' }) lf0;
     for_each (ireg_ids (lf_bindings lf1)) (\<lambda>bd lf. do {
         e \<leftarrow> find_id (lf_bindings lf) bd;
         yassert (\<not> el_hidden e);
         (_, lf') \<leftarrow> binding_fsm h bd default_id (reset_call False) lf;
         Some lf' }) lf1 }"

definition on_connection_destroyed ::
  "('te, 'be, 'x) leaf_hooks \<Rightarrow> ('te, 'be, 'x) leaf \<Rightarrow> ('te, 'be, 'x) leaf option" where
  "on_connection_destroyed h lf = do {
     yassert (lf_connection lf \<noteq> None);
     let lf0 = lf\<lparr>lf_connection := None\<rparr>;
     lf1 \<leftarrow> for_each (ireg_ids (lf_terminals lf0)) (\<lambda>tm lf. do {
         e \<leftarrow> find_id (lf_terminals lf) tm;
         if el_hidden e then erase_terminal tm lf else Some lf }) lf0;
     lf2 \<leftarrow> for_each (ireg_ids (lf_bindings lf1)) (\<lambda>bd lf. do {
         e \<leftarrow> find_id (lf_bindings lf) bd;
         if el_hidden e then erase_binding bd lf else Some lf }) lf1;
     lf3 \<leftarrow> for_each (ireg_ids (lf_bindings lf2)) (\<lambda>bd. update_binding_state h bd False) lf2;
     for_each (ireg_ids (lf_terminals lf3)) (\<lambda>tm lf. do {
         info \<leftarrow> get_terminal_info lf tm;
         lf' \<leftarrow> modify_terminal tm (\<lambda>t. t\<lparr>ti_fsm := fst (fsm_reset True (ti_fsm t))\<rparr>) lf;
         if is_mapped (ti_fsm info) then h_terminal_mapping_changed h False tm lf' else Some lf' }) lf3 }"

section \<open>Terminals and bindings\<close>

definition on_new_terminal ::
  "('te, 'be, 'x) leaf_hooks \<Rightarrow> addr \<Rightarrow> ident \<Rightarrow> ('te, 'be, 'x) leaf \<Rightarrow> ((api_error + id) \<times> ('te, 'be, 'x) leaf) option" where
  "on_new_terminal h terminal x lf = (
     let ((tm, inserted), r) = ireg_insert x (new_terminal_info h) (lf_terminals lf);
         lf1 = lf\<lparr>lf_terminals := r\<rparr> in
     if \<not> inserted then Some (Inl ERR_AMBIGUOUS_IDENTIFIER, lf1)
     else do {
       lf2 \<leftarrow> modify_terminal tm (\<lambda>t. t\<lparr>ti_terminal := Some terminal\<rparr>) lf1;
       lf3 \<leftarrow> (if lf_connection lf2 \<noteq> None
          then do { (_, lf') \<leftarrow> terminal_fsm h tm default_id (reset_call False) lf2; Some lf' }
          else Some lf2);
       Some (Inr tm, lf3) })"

definition on_terminal_destroyed ::
  "('te, 'be, 'x) leaf_hooks \<Rightarrow> addr \<Rightarrow> id \<Rightarrow> ('te, 'be, 'x) leaf \<Rightarrow> ('te, 'be, 'x) leaf option" where
  "on_terminal_destroyed h terminal tm lf = do {
     yassert (find_id (lf_terminals lf) tm \<noteq> None);
     lf1 \<leftarrow> modify_terminal tm (\<lambda>t. t\<lparr>ti_terminal := None\<rparr>) lf;
     lf2 \<leftarrow> h_terminal_removed h terminal tm lf1;
     (keepEntry, lf3) \<leftarrow> (if lf_connection lf2 \<noteq> None
        then terminal_fsm h tm default_id process_object_destroyed lf2 else Some (False, lf2));
     if \<not> keepEntry then erase_terminal tm lf3 else hide_terminal tm lf3 }"

definition on_new_binding ::
  "('te, 'be, 'x) leaf_hooks \<Rightarrow> binding_ref \<Rightarrow> ident \<Rightarrow> ('te, 'be, 'x) leaf \<Rightarrow> (id \<times> ('te, 'be, 'x) leaf) option" where
  "on_new_binding h binding x lf = (
     let ((bd, inserted), r) = ireg_insert x (new_binding_info h) (lf_bindings lf) in do {
     lf1 \<leftarrow> modify_binding bd (\<lambda>b. b\<lparr>bi_bindings := bi_bindings b @ [binding]\<rparr>) (lf\<lparr>lf_bindings := r\<rparr>);
     info \<leftarrow> get_binding_info lf1 bd;
     if lf_connection lf1 \<noteq> None \<and> length (bi_bindings info) = 1 then do {
       (_, lf2) \<leftarrow> binding_fsm h bd default_id (reset_call False) lf1;
       Some (bd, lf2) }
     else if bi_established info then Some (bd, emit (Binding_State (br_addr binding) True) lf1)
     else Some (bd, lf1) })"

text \<open>\<^verbatim>\<open>erase(find(..))\<close> of a binding that is not in the group is out of bounds.\<close>

definition on_binding_destroyed ::
  "('te, 'be, 'x) leaf_hooks \<Rightarrow> binding_ref \<Rightarrow> id \<Rightarrow> ('te, 'be, 'x) leaf \<Rightarrow> ('te, 'be, 'x) leaf option" where
  "on_binding_destroyed h binding bd lf = do {
     info \<leftarrow> get_binding_info lf bd;
     yassert (binding \<in> set (bi_bindings info));
     lf1 \<leftarrow> modify_binding bd (\<lambda>b. b\<lparr>bi_bindings := remove1 binding (bi_bindings b)\<rparr>) lf;
     lf2 \<leftarrow> h_binding_removed h binding bd lf1;
     info2 \<leftarrow> get_binding_info lf2 bd;
     if bi_bindings info2 \<noteq> [] then Some lf2
     else do {
       (keepEntry, lf3) \<leftarrow> (if lf_connection lf2 \<noteq> None
          then binding_fsm h bd default_id process_object_destroyed lf2 else Some (False, lf2));
       if \<not> keepEntry then erase_binding bd lf3 else hide_binding bd lf3 } }"

section \<open>Messages\<close>

definition on_TerminalDescription ::
  "('te, 'be, 'x) leaf_hooks \<Rightarrow> ident \<Rightarrow> id \<Rightarrow> ('te, 'be, 'x) leaf \<Rightarrow> ('te, 'be, 'x) leaf option" where
  "on_TerminalDescription h x i lf = (case find_ident (lf_bindings lf) x of
      None \<Rightarrow> leaf_send (TerminalNoticed i) lf
    | Some bd \<Rightarrow> map_option snd (binding_fsm h (el_id bd) i (\<lambda>f. keep (process_rcvd_description i f)) lf))"

definition on_TerminalMapping ::
  "('te, 'be, 'x) leaf_hooks \<Rightarrow> id \<Rightarrow> id \<Rightarrow> ('te, 'be, 'x) leaf \<Rightarrow> ('te, 'be, 'x) leaf option" where
  "on_TerminalMapping h tm mappedId lf =
     map_option snd (terminal_fsm h tm mappedId (\<lambda>f. keep (process_rcvd_mapping mappedId f)) lf)"

definition on_TerminalNoticed ::
  "('te, 'be, 'x) leaf_hooks \<Rightarrow> id \<Rightarrow> ('te, 'be, 'x) leaf \<Rightarrow> ('te, 'be, 'x) leaf option" where
  "on_TerminalNoticed h tm lf = do {
     (alive, lf1) \<leftarrow> terminal_fsm h tm default_id process_rcvd_noticed lf;
     if \<not> alive then erase_terminal tm lf1 else Some lf1 }"

definition on_TerminalRemoved ::
  "('te, 'be, 'x) leaf_hooks \<Rightarrow> id \<Rightarrow> ('te, 'be, 'x) leaf \<Rightarrow> ('te, 'be, 'x) leaf option" where
  "on_TerminalRemoved h bd lf = do {
     (alive, lf1) \<leftarrow> binding_fsm h bd default_id process_rcvd_removed lf;
     if \<not> alive then erase_binding bd lf1 else Some lf1 }"

definition removed_ack_call :: "fsm \<Rightarrow> (fsm \<times> fsm_out list \<times> bool) option" where
  "removed_ack_call f = map_option (\<lambda>b. (f, [], b)) (process_rcvd_removed_ack f)"

definition on_TerminalRemovedAck ::
  "('te, 'be, 'x) leaf_hooks \<Rightarrow> id \<Rightarrow> ('te, 'be, 'x) leaf \<Rightarrow> ('te, 'be, 'x) leaf option" where
  "on_TerminalRemovedAck h tm lf = do {
     (alive, lf1) \<leftarrow> terminal_fsm h tm default_id removed_ack_call lf;
     if \<not> alive then erase_terminal tm lf1 else Some lf1 }"

definition on_BindingDescription ::
  "('te, 'be, 'x) leaf_hooks \<Rightarrow> ident \<Rightarrow> id \<Rightarrow> ('te, 'be, 'x) leaf \<Rightarrow> ('te, 'be, 'x) leaf option" where
  "on_BindingDescription h x i lf = (case find_ident (lf_terminals lf) x of
      None \<Rightarrow> leaf_send (BindingNoticed i) lf
    | Some tm \<Rightarrow> map_option snd (terminal_fsm h (el_id tm) i (\<lambda>f. keep (process_rcvd_description i f)) lf))"

definition on_BindingMapping ::
  "('te, 'be, 'x) leaf_hooks \<Rightarrow> id \<Rightarrow> id \<Rightarrow> ('te, 'be, 'x) leaf \<Rightarrow> ('te, 'be, 'x) leaf option" where
  "on_BindingMapping h bd mappedId lf =
     map_option snd (binding_fsm h bd mappedId (\<lambda>f. keep (process_rcvd_mapping mappedId f)) lf)"

definition on_BindingNoticed ::
  "('te, 'be, 'x) leaf_hooks \<Rightarrow> id \<Rightarrow> ('te, 'be, 'x) leaf \<Rightarrow> ('te, 'be, 'x) leaf option" where
  "on_BindingNoticed h bd lf = do {
     (alive, lf1) \<leftarrow> binding_fsm h bd default_id process_rcvd_noticed lf;
     if \<not> alive then erase_binding bd lf1 else Some lf1 }"

definition on_BindingRemoved ::
  "('te, 'be, 'x) leaf_hooks \<Rightarrow> id \<Rightarrow> ('te, 'be, 'x) leaf \<Rightarrow> ('te, 'be, 'x) leaf option" where
  "on_BindingRemoved h tm lf = do {
     (alive, lf1) \<leftarrow> terminal_fsm h tm default_id process_rcvd_removed lf;
     if \<not> alive then erase_terminal tm lf1 else Some lf1 }"

definition on_BindingRemovedAck ::
  "('te, 'be, 'x) leaf_hooks \<Rightarrow> id \<Rightarrow> ('te, 'be, 'x) leaf \<Rightarrow> ('te, 'be, 'x) leaf option" where
  "on_BindingRemovedAck h bd lf = do {
     (alive, lf1) \<leftarrow> binding_fsm h bd default_id removed_ack_call lf;
     if \<not> alive then erase_binding bd lf1 else Some lf1 }"

definition on_BindingEstablished ::
  "('te, 'be, 'x) leaf_hooks \<Rightarrow> id \<Rightarrow> ('te, 'be, 'x) leaf \<Rightarrow> ('te, 'be, 'x) leaf option" where
  "on_BindingEstablished h bd lf = do {
     info \<leftarrow> get_binding_info lf bd;
     yassert (m_state (bi_fsm info) = MAPPED_CONFIRMED \<or> m_state (bi_fsm info) = AWAIT_ACK);
     if m_state (bi_fsm info) = MAPPED_CONFIRMED then update_binding_state h bd True lf else Some lf }"

definition on_BindingReleased ::
  "('te, 'be, 'x) leaf_hooks \<Rightarrow> id \<Rightarrow> ('te, 'be, 'x) leaf \<Rightarrow> ('te, 'be, 'x) leaf option" where
  "on_BindingReleased h bd lf = do {
     info \<leftarrow> get_binding_info lf bd;
     yassert (m_state (bi_fsm info) = MAPPED_CONFIRMED \<or> m_state (bi_fsm info) = AWAIT_ACK);
     if m_state (bi_fsm info) = MAPPED_CONFIRMED then update_binding_state h bd False lf else Some lf }"

text \<open>
  The handlers the constructor registers.  A message without a handler is an empty
  \<^verbatim>\<open>std::function\<close>; derived classes handle the remaining messages.
\<close>

fun leaf_receive :: "('te, 'be, 'x) leaf_hooks \<Rightarrow> body \<Rightarrow> ('te, 'be, 'x) leaf \<Rightarrow> ('te, 'be, 'x) leaf option" where
  "leaf_receive h (TerminalDescription x i) = on_TerminalDescription h x i"
| "leaf_receive h (TerminalMapping tm m) = on_TerminalMapping h tm m"
| "leaf_receive h (TerminalNoticed tm) = on_TerminalNoticed h tm"
| "leaf_receive h (TerminalRemoved m) = on_TerminalRemoved h m"
| "leaf_receive h (TerminalRemovedAck tm) = on_TerminalRemovedAck h tm"
| "leaf_receive h (BindingDescription x i) = on_BindingDescription h x i"
| "leaf_receive h (BindingMapping bd m) = on_BindingMapping h bd m"
| "leaf_receive h (BindingNoticed bd) = on_BindingNoticed h bd"
| "leaf_receive h (BindingRemoved m) = on_BindingRemoved h m"
| "leaf_receive h (BindingRemovedAck bd) = on_BindingRemovedAck h bd"
| "leaf_receive h (BindingEstablished bd) = on_BindingEstablished h bd"
| "leaf_receive h (BindingReleased bd) = on_BindingReleased h bd"
| "leaf_receive h _ = (\<lambda>lf. None)"

end
