(* ===== verification/Node_Logic.thy ===== *)
theory Node_Logic
  imports Leaf_Logic
begin

text \<open>
  \<^verbatim>\<open>core/common/NodeLogicBaseT.hpp\<close>: the terminals and bindings that the neighbours of a node
  have told it about.  A terminal has owners (leafs and nodes that have it) and users (nodes that
  were told about it), each with the state machine of its connection; a binding has owning leafs.
  A handler is a function on \<open>node\<close>; messages and notifications are appended to \<open>nd_out\<close>.  The
  virtual functions that derived classes override are the record \<open>node_hooks\<close>.
\<close>

section \<open>State\<close>

text \<open>A pointer to a connection, with \<^verbatim>\<open>remote_is_node()\<close> of the connection.\<close>

record connection =
  cn_addr :: addr
  remote_is_node :: bool

type_synonym fsm_map = "(connection \<times> fsm) list"

datatype node_state =
    STATE_JUST_CREATED
  | STATE_OWNERS_1_LEAFS_0_NODES
  | STATE_OWNERS_M_LEAFS_0_NODES
  | STATE_OWNERS_0_LEAFS_1_NODES
  | STATE_OWNERS_0_LEAFS_M_NODES
  | STATE_OWNERS_N_LEAFS_N_NODES
  | STATE_AWAIT_ACKS

text \<open>\<open>nt_subscribers\<close> is the member that the subscribable classes add.\<close>

record 'te node_terminal =
  nt_state :: node_state
  nt_owningLeafs :: fsm_map
  nt_owningNodes :: fsm_map
  nt_usingNodes :: fsm_map
  nt_binding :: id
  nt_subscribers :: "(connection \<times> id) list"
  nt_ext :: 'te

record node_binding =
  nb_owningLeafs :: fsm_map
  nb_terminal :: id

datatype node_event = Node_Sent connection body | Known_Terminals_Changed ident bool

record ('te, 'x) node =
  nd_leafConnections :: "connection list"
  nd_nodeConnections :: "connection list"
  nd_terminals :: "'te node_terminal ireg"
  nd_bindings :: "node_binding ireg"
  nd_derived :: 'x
  nd_out :: "node_event list"

text \<open>
  \<^verbatim>\<open>on_terminal_user_added\<close> and \<^verbatim>\<open>prepare_message\<close> are overridden by no class and do nothing.
\<close>

record ('te, 'x) node_hooks =
  nh_terminal_ext :: 'te
  nh_owner_added :: "connection \<Rightarrow> id \<Rightarrow> id \<Rightarrow> ('te, 'x) node \<Rightarrow> ('te, 'x) node option"
  nh_owner_removed :: "connection \<Rightarrow> id \<Rightarrow> ('te, 'x) node \<Rightarrow> ('te, 'x) node option"
  nh_owner_remapped :: "connection \<Rightarrow> id \<Rightarrow> id \<Rightarrow> ('te, 'x) node \<Rightarrow> ('te, 'x) node option"
  nh_user_removed :: "connection \<Rightarrow> id \<Rightarrow> ('te, 'x) node \<Rightarrow> ('te, 'x) node option"
  nh_binding_owner_added :: "connection \<Rightarrow> id \<Rightarrow> id \<Rightarrow> ('te, 'x) node \<Rightarrow> ('te, 'x) node option"
  nh_binding_owner_removed :: "connection \<Rightarrow> id \<Rightarrow> ('te, 'x) node \<Rightarrow> ('te, 'x) node option"
  nh_binding_owner_remapped :: "connection \<Rightarrow> id \<Rightarrow> id \<Rightarrow> ('te, 'x) node \<Rightarrow> ('te, 'x) node option"

definition node_init :: "'x \<Rightarrow> ('te, 'x) node" where
  "node_init x = \<lparr>nd_leafConnections = [], nd_nodeConnections = [], nd_terminals = ireg_empty,
     nd_bindings = ireg_empty, nd_derived = x, nd_out = []\<rparr>"

definition new_node_terminal :: "('te, 'x) node_hooks \<Rightarrow> 'te node_terminal" where
  "new_node_terminal h = \<lparr>nt_state = STATE_JUST_CREATED, nt_owningLeafs = [], nt_owningNodes = [],
     nt_usingNodes = [], nt_binding = default_id, nt_subscribers = [], nt_ext = nh_terminal_ext h\<rparr>"

definition new_node_binding :: node_binding where
  "new_node_binding = \<lparr>nb_owningLeafs = [], nb_terminal = default_id\<rparr>"

section \<open>Access\<close>

definition nsend :: "connection \<Rightarrow> body \<Rightarrow> ('te, 'x) node \<Rightarrow> ('te, 'x) node" where
  "nsend c b n = n\<lparr>nd_out := nd_out n @ [Node_Sent c b]\<rparr>"

definition nnotify :: "ident \<Rightarrow> bool \<Rightarrow> ('te, 'x) node \<Rightarrow> ('te, 'x) node" where
  "nnotify x added n = (if ident_hidden x then n
     else n\<lparr>nd_out := nd_out n @ [Known_Terminals_Changed x added]\<rparr>)"

definition get_nt :: "('te, 'x) node \<Rightarrow> id \<Rightarrow> 'te node_terminal option" where
  "get_nt n i = map_option el_data (find_id (nd_terminals n) i)"

definition get_nb :: "('te, 'x) node \<Rightarrow> id \<Rightarrow> node_binding option" where
  "get_nb n i = map_option el_data (find_id (nd_bindings n) i)"

definition modify_nt ::
  "id \<Rightarrow> ('te node_terminal \<Rightarrow> 'te node_terminal) \<Rightarrow> ('te, 'x) node \<Rightarrow> ('te, 'x) node option" where
  "modify_nt i f n = do { r \<leftarrow> ireg_modify i f (nd_terminals n); Some (n\<lparr>nd_terminals := r\<rparr>) }"

definition modify_nb :: "id \<Rightarrow> (node_binding \<Rightarrow> node_binding) \<Rightarrow> ('te, 'x) node \<Rightarrow> ('te, 'x) node option" where
  "modify_nb i f n = do { r \<leftarrow> ireg_modify i f (nd_bindings n); Some (n\<lparr>nd_bindings := r\<rparr>) }"

definition hide_nt :: "id \<Rightarrow> ('te, 'x) node \<Rightarrow> ('te, 'x) node option" where
  "hide_nt i n = do { r \<leftarrow> ireg_hide i (nd_terminals n); Some (n\<lparr>nd_terminals := r\<rparr>) }"

definition erase_nt :: "id \<Rightarrow> ('te, 'x) node \<Rightarrow> ('te, 'x) node option" where
  "erase_nt i n = do { r \<leftarrow> ireg_erase i (nd_terminals n); Some (n\<lparr>nd_terminals := r\<rparr>) }"

definition erase_nb :: "id \<Rightarrow> ('te, 'x) node \<Rightarrow> ('te, 'x) node option" where
  "erase_nb i n = do { r \<leftarrow> ireg_erase i (nd_bindings n); Some (n\<lparr>nd_bindings := r\<rparr>) }"

definition nt_owners :: "connection \<Rightarrow> 'te node_terminal \<Rightarrow> fsm_map" where
  "nt_owners c t = (if remote_is_node c then nt_owningNodes t else nt_owningLeafs t)"

definition map_owners :: "connection \<Rightarrow> (fsm_map \<Rightarrow> fsm_map) \<Rightarrow> 'te node_terminal \<Rightarrow> 'te node_terminal" where
  "map_owners c f t = (if remote_is_node c then t\<lparr>nt_owningNodes := f (nt_owningNodes t)\<rparr>
     else t\<lparr>nt_owningLeafs := f (nt_owningLeafs t)\<rparr>)"

definition map_users :: "(fsm_map \<Rightarrow> fsm_map) \<Rightarrow> 'te node_terminal \<Rightarrow> 'te node_terminal" where
  "map_users f t = t\<lparr>nt_usingNodes := f (nt_usingNodes t)\<rparr>"

text \<open>\<^verbatim>\<open>insert\<close> and \<^verbatim>\<open>operator[]\<close> of a map make an entry with a new state machine if there is none.\<close>

definition ensure_fsm :: "connection \<Rightarrow> fsm_map \<Rightarrow> fsm_map" where
  "ensure_fsm c m = (if map_of m c = None then m @ [(c, fsm_init)] else m)"

section \<open>Association of terminals and bindings\<close>

definition associate_terminal :: "id \<Rightarrow> ('te, 'x) node \<Rightarrow> (id option \<times> ('te, 'x) node) option" where
  "associate_terminal tm n = do {
     e \<leftarrow> find_id (nd_terminals n) tm;
     if id_valid (nt_binding (el_data e)) then do {
       bd \<leftarrow> get_nb n (nt_binding (el_data e));
       yassert (nb_terminal bd = tm);
       Some (Some (nt_binding (el_data e)), n) }
     else (case find_ident (nd_bindings n) (el_ident e) of
         None \<Rightarrow> Some (None, n)
       | Some b \<Rightarrow> do {
           n1 \<leftarrow> modify_nb (el_id b) (\<lambda>bd. bd\<lparr>nb_terminal := tm\<rparr>) n;
           n2 \<leftarrow> modify_nt tm (\<lambda>t. t\<lparr>nt_binding := el_id b\<rparr>) n1;
           Some (Some (el_id b), n2) }) }"

definition associate_binding :: "id \<Rightarrow> ('te, 'x) node \<Rightarrow> (id option \<times> ('te, 'x) node) option" where
  "associate_binding bd n = do {
     e \<leftarrow> find_id (nd_bindings n) bd;
     if id_valid (nb_terminal (el_data e)) then do {
       t \<leftarrow> get_nt n (nb_terminal (el_data e));
       yassert (nt_binding t = bd);
       Some (Some (nb_terminal (el_data e)), n) }
     else (case find_ident (nd_terminals n) (el_ident e) of
         None \<Rightarrow> Some (None, n)
       | Some t \<Rightarrow> do {
           n1 \<leftarrow> modify_nt (el_id t) (\<lambda>t. t\<lparr>nt_binding := bd\<rparr>) n;
           n2 \<leftarrow> modify_nb bd (\<lambda>b. b\<lparr>nb_terminal := el_id t\<rparr>) n1;
           Some (Some (el_id t), n2) }) }"

definition disassociate_terminal :: "id \<Rightarrow> ('te, 'x) node \<Rightarrow> ('te, 'x) node option" where
  "disassociate_terminal tm n = do {
     t \<leftarrow> get_nt n tm;
     if id_valid (nt_binding t) then do {
       n1 \<leftarrow> modify_nb (nt_binding t) (\<lambda>b. b\<lparr>nb_terminal := default_id\<rparr>) n;
       modify_nt tm (\<lambda>t. t\<lparr>nt_binding := default_id\<rparr>) n1 }
     else Some n }"

definition disassociate_binding :: "id \<Rightarrow> ('te, 'x) node \<Rightarrow> ('te, 'x) node option" where
  "disassociate_binding bd n = do {
     b \<leftarrow> get_nb n bd;
     if id_valid (nb_terminal b) then do {
       n1 \<leftarrow> modify_nt (nb_terminal b) (\<lambda>t. t\<lparr>nt_binding := default_id\<rparr>) n;
       modify_nb bd (\<lambda>b. b\<lparr>nb_terminal := default_id\<rparr>) n1 }
     else Some n }"

section \<open>State of a terminal\<close>

definition owners_state :: "'te node_terminal \<Rightarrow> node_state" where
  "owners_state t = (let l = length (nt_owningLeafs t); m = length (nt_owningNodes t) in
     if l = 0 then (if m = 0 then STATE_AWAIT_ACKS
       else if m = 1 then STATE_OWNERS_0_LEAFS_1_NODES else STATE_OWNERS_0_LEAFS_M_NODES)
     else if l = 1 then (if m = 0 then STATE_OWNERS_1_LEAFS_0_NODES else STATE_OWNERS_N_LEAFS_N_NODES)
     else (if m = 0 then STATE_OWNERS_M_LEAFS_0_NODES else STATE_OWNERS_N_LEAFS_N_NODES))"

definition update_state :: "id \<Rightarrow> ('te, 'x) node \<Rightarrow> (bool \<times> ('te, 'x) node) option" where
  "update_state tm n = do {
     e \<leftarrow> find_id (nd_terminals n) tm;
     let t = el_data e;
     if nt_owningLeafs t = [] \<and> nt_owningNodes t = [] \<and> nt_usingNodes t = []
     then do { n1 \<leftarrow> erase_nt tm (nnotify (el_ident e) False n); Some (False, n1) }
     else do { n1 \<leftarrow> modify_nt tm (\<lambda>t. t\<lparr>nt_state := owners_state t\<rparr>) n; Some (True, n1) } }"

section \<open>Calls of the state machines\<close>

text \<open>The callbacks of a user's and of an owner's machine; a callback that is not passed is \<open>None\<close>.\<close>

definition user_callback ::
  "ident \<Rightarrow> connection \<Rightarrow> id \<Rightarrow> fsm_out \<Rightarrow> ('te, 'x) node \<Rightarrow> ('te, 'x) node option" where
  "user_callback x c tm out n = (case out of
      SendDesc \<Rightarrow> Some (nsend c (TerminalDescription x tm) n)
    | SendRem m \<Rightarrow> Some (nsend c (TerminalRemoved m) n)
    | MappStChanged _ \<Rightarrow> Some n
    | _ \<Rightarrow> None)"

definition user_fsm ::
  "id \<Rightarrow> connection \<Rightarrow> (fsm \<Rightarrow> (fsm \<times> fsm_out list \<times> bool) option) \<Rightarrow>
   ('te, 'x) node \<Rightarrow> (bool \<times> ('te, 'x) node) option" where
  "user_fsm tm c call n = do {
     e \<leftarrow> find_id (nd_terminals n) tm;
     f \<leftarrow> map_of (nt_usingNodes (el_data e)) c;
     (f', outs, alive) \<leftarrow> call f;
     n1 \<leftarrow> modify_nt tm (map_users (AList.update c f')) n;
     n2 \<leftarrow> for_each outs (user_callback (el_ident e) c tm) n1;
     Some (alive, n2) }"

definition reset_user :: "id \<Rightarrow> connection \<Rightarrow> ('te, 'x) node \<Rightarrow> ('te, 'x) node option" where
  "reset_user tm c n = do {
     n1 \<leftarrow> modify_nt tm (map_users (ensure_fsm c)) n;
     (_, n2) \<leftarrow> user_fsm tm c (reset_call False) n1;
     Some n2 }"

definition owner_callback :: "connection \<Rightarrow> id \<Rightarrow> id \<Rightarrow> fsm_out \<Rightarrow> ('te, 'x) node \<Rightarrow> ('te, 'x) node option" where
  "owner_callback c tm remoteId out n = (case out of
      SendMapp \<Rightarrow> Some (nsend c (TerminalMapping remoteId tm) n)
    | SendRemAck m \<Rightarrow> Some (nsend c (TerminalRemovedAck m) n)
    | MappStChanged _ \<Rightarrow> Some n
    | _ \<Rightarrow> None)"

definition owner_fsm ::
  "id \<Rightarrow> connection \<Rightarrow> id \<Rightarrow> (fsm \<Rightarrow> (fsm \<times> fsm_out list \<times> bool) option) \<Rightarrow>
   ('te, 'x) node \<Rightarrow> (fsm_out list \<times> ('te, 'x) node) option" where
  "owner_fsm tm c remoteId call n = do {
     t \<leftarrow> get_nt n tm;
     f \<leftarrow> map_of (nt_owners c t) c;
     (f', outs, _) \<leftarrow> call f;
     n1 \<leftarrow> modify_nt tm (map_owners c (AList.update c f')) n;
     n2 \<leftarrow> for_each outs (owner_callback c tm remoteId) n1;
     Some (outs, n2) }"

definition binding_owner_callback ::
  "connection \<Rightarrow> id \<Rightarrow> id \<Rightarrow> fsm_out \<Rightarrow> ('te, 'x) node \<Rightarrow> ('te, 'x) node option" where
  "binding_owner_callback c bd remoteId out n = (case out of
      SendMapp \<Rightarrow> Some (nsend c (BindingMapping remoteId bd) n)
    | SendRemAck m \<Rightarrow> Some (nsend c (BindingRemovedAck m) n)
    | MappStChanged _ \<Rightarrow> Some n
    | _ \<Rightarrow> None)"

definition binding_owner_fsm ::
  "id \<Rightarrow> connection \<Rightarrow> id \<Rightarrow> (fsm \<Rightarrow> (fsm \<times> fsm_out list \<times> bool) option) \<Rightarrow>
   ('te, 'x) node \<Rightarrow> (fsm_out list \<times> ('te, 'x) node) option" where
  "binding_owner_fsm bd c remoteId call n = do {
     b \<leftarrow> get_nb n bd;
     f \<leftarrow> map_of (nb_owningLeafs b) c;
     (f', outs, _) \<leftarrow> call f;
     n1 \<leftarrow> modify_nb bd (\<lambda>b. b\<lparr>nb_owningLeafs := AList.update c f' (nb_owningLeafs b)\<rparr>) n;
     n2 \<leftarrow> for_each outs (binding_owner_callback c bd remoteId) n1;
     Some (outs, n2) }"

text \<open>\<^verbatim>\<open>oldMappedId\<close>, which the acknowledging callback stores.\<close>

definition acknowledged_id :: "fsm_out list \<Rightarrow> id" where
  "acknowledged_id outs = (case [m. SendRemAck m \<leftarrow> outs] of [] \<Rightarrow> default_id | m # _ \<Rightarrow> m)"

section \<open>Removing an owner\<close>

definition update_users_for_abandoned_terminal ::
  "('te, 'x) node_hooks \<Rightarrow> connection option \<Rightarrow> id \<Rightarrow> ('te, 'x) node \<Rightarrow> ('te, 'x) node option" where
  "update_users_for_abandoned_terminal h exn tm n = do {
     t \<leftarrow> get_nt n tm;
     for_each (map fst (nt_usingNodes t)) (\<lambda>c n. do {
       t \<leftarrow> get_nt n tm;
       f \<leftarrow> map_of (nt_usingNodes t) c;
       if exn = Some c \<or> fsm_destroyed f then Some n
       else do {
         (alive, n1) \<leftarrow> user_fsm tm c process_object_destroyed n;
         if alive then Some n1
         else do {
           n2 \<leftarrow> modify_nt tm (map_users (AList.delete c)) n1;
           nh_user_removed h c tm n2 } } }) n }"

text \<open>\<open>BindingReleased\<close> to the owners of a binding other than one connection.\<close>

definition release_binding_owners :: "connection \<Rightarrow> id \<Rightarrow> ('te, 'x) node \<Rightarrow> ('te, 'x) node option" where
  "release_binding_owners c bd n = do {
     b \<leftarrow> get_nb n bd;
     for_each (nb_owningLeafs b) (\<lambda>(o1, f) n. Some (if o1 \<noteq> c then nsend o1 (BindingReleased (m_mappedId f)) n else n)) n }"

text \<open>If only one owning node is left, it is told that this node does not own the terminal any more.\<close>

definition tell_last_owning_node :: "id \<Rightarrow> ('te, 'x) node \<Rightarrow> ('te, 'x) node option" where
  "tell_last_owning_node tm n = do {
     t \<leftarrow> get_nt n tm;
     if nt_state t \<noteq> STATE_OWNERS_0_LEAFS_1_NODES then Some n
     else do {
       yassert (nt_owningNodes t \<noteq> []);
       let u = fst (hd (nt_owningNodes t));
       f \<leftarrow> map_of (nt_usingNodes t) u;
       if fsm_destroyed f then Some n
       else do { (alive, n1) \<leftarrow> user_fsm tm u process_object_destroyed n; yassert alive; Some n1 } } }"

definition update_bindings_after_removal :: "connection \<Rightarrow> id \<Rightarrow> id \<Rightarrow> ('te, 'x) node \<Rightarrow> ('te, 'x) node option" where
  "update_bindings_after_removal c tm bindingId n = (if \<not> id_valid bindingId then Some n else do {
     b \<leftarrow> get_nb n bindingId;
     t \<leftarrow> get_nt n tm;
     if nt_state t = STATE_OWNERS_1_LEAFS_0_NODES then do {
       yassert (nt_owningLeafs t \<noteq> []);
       let o1 = fst (hd (nt_owningLeafs t));
       Some (case map_of (nb_owningLeafs b) o1 of None \<Rightarrow> n | Some f \<Rightarrow> nsend o1 (BindingReleased (m_mappedId f)) n) }
     else if nt_state t = STATE_AWAIT_ACKS then release_binding_owners c bindingId n
     else Some n })"

text \<open>The terminal has lost the owner; \<open>t\<close> is its entry before.\<close>

definition abandon_if_last ::
  "('te, 'x) node_hooks \<Rightarrow> connection \<Rightarrow> id \<Rightarrow> ('te, 'x) node \<Rightarrow> ('te, 'x) node option" where
  "abandon_if_last h c tm n = do {
     t \<leftarrow> get_nt n tm;
     (case nt_state t of
         STATE_OWNERS_1_LEAFS_0_NODES \<Rightarrow> do { n1 \<leftarrow> hide_nt tm n; n2 \<leftarrow> disassociate_terminal tm n1;
           update_users_for_abandoned_terminal h (Some c) tm n2 }
       | STATE_OWNERS_0_LEAFS_1_NODES \<Rightarrow> do { n1 \<leftarrow> hide_nt tm n; n2 \<leftarrow> disassociate_terminal tm n1;
           update_users_for_abandoned_terminal h (Some c) tm n2 }
       | STATE_OWNERS_M_LEAFS_0_NODES \<Rightarrow> Some n
       | STATE_OWNERS_N_LEAFS_N_NODES \<Rightarrow> Some n
       | STATE_OWNERS_0_LEAFS_M_NODES \<Rightarrow> Some n
       | _ \<Rightarrow> None) }"

text \<open>\<open>bindingId\<close> is the binding the terminal had before.\<close>

definition finish_owner_removal ::
  "connection \<Rightarrow> id \<Rightarrow> id \<Rightarrow> ('te, 'x) node \<Rightarrow> ('te, 'x) node option" where
  "finish_owner_removal c tm bindingId n1 = do {
     (alive, n2) \<leftarrow> update_state tm n1;
     if \<not> alive then (if id_valid bindingId then release_binding_owners c bindingId n2 else Some n2)
     else do {
       n3 \<leftarrow> tell_last_owning_node tm n2;
       n4 \<leftarrow> update_bindings_after_removal c tm bindingId n3;
       e \<leftarrow> find_id (nd_terminals n4) tm;
       if el_hidden e then disassociate_terminal tm n4 else Some n4 } }"

definition after_owner_removed ::
  "('te, 'x) node_hooks \<Rightarrow> connection \<Rightarrow> id \<Rightarrow> ('te, 'x) node \<Rightarrow> ('te, 'x) node option" where
  "after_owner_removed h c tm n = do {
     t \<leftarrow> get_nt n tm;
     n1 \<leftarrow> abandon_if_last h c tm n;
     finish_owner_removal c tm (nt_binding t) n1 }"

definition remove_terminal_owner ::
  "('te, 'x) node_hooks \<Rightarrow> id \<Rightarrow> connection \<Rightarrow> bool \<Rightarrow> ('te, 'x) node \<Rightarrow> ('te, 'x) node option" where
  "remove_terminal_owner h tm c brokenConnection n = do {
     t \<leftarrow> get_nt n tm;
     if brokenConnection \<and> map_of (nt_owners c t) c = None then Some n
     else do {
       (stillOwned, n1) \<leftarrow> (if brokenConnection then Some (False, n)
         else do { (outs, n1) \<leftarrow> owner_fsm tm c default_id process_rcvd_removed n;
           Some (\<forall>out \<in> set outs. \<forall>b. out \<noteq> MappStChanged b, n1) });
       if stillOwned then Some n1
       else do {
         n2 \<leftarrow> modify_nt tm (map_owners c (AList.delete c)) n1;
         n3 \<leftarrow> nh_owner_removed h c tm n2;
         after_owner_removed h c tm n3 } } }"

section \<open>Connections\<close>

definition node_connection_started :: "connection \<Rightarrow> ('te, 'x) node \<Rightarrow> ('te, 'x) node option" where
  "node_connection_started c n = (if remote_is_node c then do {
       n1 \<leftarrow> for_each (ireg_ids (nd_terminals n)) (\<lambda>tm n. do {
         e \<leftarrow> find_id (nd_terminals n) tm;
         if \<not> el_hidden e then do {
           yassert (map_of (nt_usingNodes (el_data e)) c = None);
           reset_user tm c n }
         else Some n }) n;
       yassert (c \<notin> set (nd_nodeConnections n1));
       Some (n1\<lparr>nd_nodeConnections := nd_nodeConnections n1 @ [c]\<rparr>) }
     else do {
       yassert (c \<notin> set (nd_leafConnections n));
       Some (n\<lparr>nd_leafConnections := nd_leafConnections n @ [c]\<rparr>) })"

definition remove_binding_owner_of_connection ::
  "('te, 'x) node_hooks \<Rightarrow> connection \<Rightarrow> id \<Rightarrow> ('te, 'x) node \<Rightarrow> ('te, 'x) node option" where
  "remove_binding_owner_of_connection h c bd n = do {
     b \<leftarrow> get_nb n bd;
     n1 \<leftarrow> (if map_of (nb_owningLeafs b) c \<noteq> None then do {
         n' \<leftarrow> modify_nb bd (\<lambda>b. b\<lparr>nb_owningLeafs := AList.delete c (nb_owningLeafs b)\<rparr>) n;
         nh_binding_owner_removed h c bd n' } else Some n);
     b1 \<leftarrow> get_nb n1 bd;
     if nb_owningLeafs b1 = [] then do { n2 \<leftarrow> disassociate_binding bd n1; erase_nb bd n2 } else Some n1 }"

definition remove_connection_from_terminal ::
  "('te, 'x) node_hooks \<Rightarrow> connection \<Rightarrow> id \<Rightarrow> ('te, 'x) node \<Rightarrow> ('te, 'x) node option" where
  "remove_connection_from_terminal h c tm n = do {
     n1 \<leftarrow> modify_nt tm (map_users (AList.delete c)) n;
     n2 \<leftarrow> nh_user_removed h c tm n1;
     (alive, n3) \<leftarrow> update_state tm n2;
     if alive then remove_terminal_owner h tm c True n3 else Some n3 }"

definition node_connection_destroyed ::
  "('te, 'x) node_hooks \<Rightarrow> connection \<Rightarrow> ('te, 'x) node \<Rightarrow> ('te, 'x) node option" where
  "node_connection_destroyed h c n = (if c \<notin> set (if remote_is_node c then nd_nodeConnections n else nd_leafConnections n)
     then Some n
     else do {
       let n0 = (if remote_is_node c then n\<lparr>nd_nodeConnections := remove1 c (nd_nodeConnections n)\<rparr>
         else n\<lparr>nd_leafConnections := remove1 c (nd_leafConnections n)\<rparr>);
       n1 \<leftarrow> for_each (ireg_ids (nd_bindings n0)) (remove_binding_owner_of_connection h c) n0;
       for_each (ireg_ids (nd_terminals n1)) (remove_connection_from_terminal h c) n1 })"

definition get_known_terminals :: "('te, 'x) node \<Rightarrow> ident list" where
  "get_known_terminals n = [x. tm \<leftarrow> ireg_ids (nd_terminals n),
     x \<leftarrow> (case find_id (nd_terminals n) tm of None \<Rightarrow> [] | Some e \<Rightarrow> [el_ident e]), \<not> ident_hidden x]"

section \<open>Messages\<close>

text \<open>What the nodes are told about a new owner, by the state before.\<close>

definition announce_terminal :: "id \<Rightarrow> connection \<Rightarrow> ('te, 'x) node \<Rightarrow> ('te, 'x) node option" where
  "announce_terminal tm origin n = do {
     t \<leftarrow> get_nt n tm;
     (case nt_state t of
         STATE_JUST_CREATED \<Rightarrow>
           for_each (nd_nodeConnections n) (\<lambda>c n. if c \<noteq> origin then reset_user tm c n else Some n) n
       | STATE_OWNERS_0_LEAFS_1_NODES \<Rightarrow> do {
           (owner, _) \<leftarrow> find (\<lambda>v. fst v \<noteq> origin) (nt_owningNodes t);
           if map_of (nt_usingNodes t) owner = None then reset_user tm owner n else Some n }
       | STATE_AWAIT_ACKS \<Rightarrow> None
       | _ \<Rightarrow> Some n) }"

text \<open>The owners of the associated binding for which there is now a terminal at another connection.\<close>

definition establish_bindings :: "id \<Rightarrow> connection \<Rightarrow> id option \<Rightarrow> ('te, 'x) node \<Rightarrow> ('te, 'x) node option" where
  "establish_bindings tm origin bd n = (case bd of None \<Rightarrow> Some n | Some bd \<Rightarrow> do {
     t \<leftarrow> get_nt n tm;
     b \<leftarrow> get_nb n bd;
     if nt_state t = STATE_JUST_CREATED then
       for_each (nb_owningLeafs b) (\<lambda>(o1, f) n. Some (if o1 \<noteq> origin then nsend o1 (BindingEstablished (m_mappedId f)) n else n)) n
     else if nt_state t = STATE_OWNERS_1_LEAFS_0_NODES then
       Some (case find (\<lambda>v. fst v \<noteq> origin) (nt_owningLeafs t) of
           None \<Rightarrow> n
         | Some (o1, _) \<Rightarrow> (case map_of (nb_owningLeafs b) o1 of None \<Rightarrow> n
             | Some f \<Rightarrow> nsend o1 (BindingEstablished (m_mappedId f)) n))
     else Some n })"

definition node_TerminalDescription ::
  "('te, 'x) node_hooks \<Rightarrow> ident \<Rightarrow> id \<Rightarrow> connection \<Rightarrow> ('te, 'x) node \<Rightarrow> ('te, 'x) node option" where
  "node_TerminalDescription h x i origin n = (
     let ((tm, _), r) = ireg_insert x (new_node_terminal h) (nd_terminals n);
         n0 = n\<lparr>nd_terminals := r\<rparr> in do {
     t \<leftarrow> get_nt n0 tm;
     let terminalAdded = (nt_state t = STATE_JUST_CREATED);
     let newOwner = (map_of (nt_owners origin t) origin = None);
     n1 \<leftarrow> modify_nt tm (map_owners origin (ensure_fsm origin)) n0;
     (outs, n2) \<leftarrow> owner_fsm tm origin i (\<lambda>f. keep (process_rcvd_description i f)) n1;
     if id_valid (acknowledged_id outs) then do {
       t2 \<leftarrow> get_nt n2 tm;
       f \<leftarrow> map_of (nt_owners origin t2) origin;
       nh_owner_remapped h origin tm (m_mappedId f) n2 }
     else do {
       n3 \<leftarrow> announce_terminal tm origin n2;
       (bd, n4) \<leftarrow> associate_terminal tm n3;
       n5 \<leftarrow> establish_bindings tm origin bd n4;
       (_, n6) \<leftarrow> update_state tm n5;
       n7 \<leftarrow> (if newOwner then nh_owner_added h origin tm i n6 else Some n6);
       Some (if terminalAdded then nnotify x True n7 else n7) } })"

definition node_TerminalMapping ::
  "id \<Rightarrow> id \<Rightarrow> connection \<Rightarrow> ('te, 'x) node \<Rightarrow> ('te, 'x) node option" where
  "node_TerminalMapping tm mappedId origin n = do {
     yassert (remote_is_node origin);
     t \<leftarrow> get_nt n tm;
     yassert (nt_state t \<noteq> STATE_JUST_CREATED);
     n1 \<leftarrow> modify_nt tm (map_users (ensure_fsm origin)) n;
     map_option snd (user_fsm tm origin (\<lambda>f. keep (process_rcvd_mapping mappedId f)) n1) }"

definition node_TerminalRemoved ::
  "('te, 'x) node_hooks \<Rightarrow> id \<Rightarrow> connection \<Rightarrow> ('te, 'x) node \<Rightarrow> ('te, 'x) node option" where
  "node_TerminalRemoved h tm origin n = remove_terminal_owner h tm origin False n"

text \<open>The user's machine is reset only where the iterator \<open>user\<close> is dereferenced.\<close>

definition node_TerminalRemovedAck ::
  "('te, 'x) node_hooks \<Rightarrow> id \<Rightarrow> connection \<Rightarrow> ('te, 'x) node \<Rightarrow> ('te, 'x) node option" where
  "node_TerminalRemovedAck h tm origin n = do {
     yassert (remote_is_node origin);
     t \<leftarrow> get_nt n tm;
     f \<leftarrow> map_of (nt_usingNodes t) origin;
     yassert (nt_state t \<noteq> STATE_JUST_CREATED);
     n1 \<leftarrow> (if nt_state t = STATE_AWAIT_ACKS
          \<or> nt_state t = STATE_OWNERS_0_LEAFS_1_NODES \<and> map_of (nt_owningNodes t) origin \<noteq> None
        then do {
          alive \<leftarrow> process_rcvd_removed_ack f;
          if alive then Some n
          else do { n' \<leftarrow> modify_nt tm (map_users (AList.delete origin)) n; nh_user_removed h origin tm n' } }
        else reset_user tm origin n);
     t1 \<leftarrow> get_nt n1 tm;
     n2 \<leftarrow> (if nt_owningLeafs t1 = [] \<and> nt_owningNodes t1 = [] \<and> nt_usingNodes t1 = []
       then disassociate_terminal tm n1 else Some n1);
     map_option snd (update_state tm n2) }"

definition node_BindingDescription ::
  "('te, 'x) node_hooks \<Rightarrow> ident \<Rightarrow> id \<Rightarrow> connection \<Rightarrow> ('te, 'x) node \<Rightarrow> ('te, 'x) node option" where
  "node_BindingDescription h x i origin n = (
     let ((bd, _), r) = ireg_insert x new_node_binding (nd_bindings n);
         n0 = n\<lparr>nd_bindings := r\<rparr> in do {
     yassert (\<not> remote_is_node origin);
     n1 \<leftarrow> modify_nb bd (\<lambda>b. b\<lparr>nb_owningLeafs := ensure_fsm origin (nb_owningLeafs b)\<rparr>) n0;
     (outs, n2) \<leftarrow> binding_owner_fsm bd origin i (\<lambda>f. keep (process_rcvd_description i f)) n1;
     b \<leftarrow> get_nb n2 bd;
     f \<leftarrow> map_of (nb_owningLeafs b) origin;
     if id_valid (acknowledged_id outs) then nh_binding_owner_remapped h origin bd (m_mappedId f) n2
     else do {
       (tm, n3) \<leftarrow> associate_binding bd n2;
       n4 \<leftarrow> (case tm of None \<Rightarrow> Some n3
         | Some tm \<Rightarrow> do {
             t \<leftarrow> get_nt n3 tm;
             if nt_state t \<noteq> STATE_OWNERS_1_LEAFS_0_NODES then Some (nsend origin (BindingEstablished i) n3)
             else do {
               yassert (nt_owningLeafs t \<noteq> []);
               Some (if fst (hd (nt_owningLeafs t)) \<noteq> origin then nsend origin (BindingEstablished i) n3 else n3) } });
       nh_binding_owner_added h origin bd (m_mappedId f) n4 } })"

definition node_BindingRemoved ::
  "('te, 'x) node_hooks \<Rightarrow> id \<Rightarrow> connection \<Rightarrow> ('te, 'x) node \<Rightarrow> ('te, 'x) node option" where
  "node_BindingRemoved h bd origin n = do {
     yassert (\<not> remote_is_node origin);
     (_, n1) \<leftarrow> binding_owner_fsm bd origin default_id process_rcvd_removed n;
     b \<leftarrow> get_nb n1 bd;
     f \<leftarrow> map_of (nb_owningLeafs b) origin;
     if is_mapped f then Some n1
     else do {
       n2 \<leftarrow> modify_nb bd (\<lambda>b. b\<lparr>nb_owningLeafs := AList.delete origin (nb_owningLeafs b)\<rparr>) n1;
       n3 \<leftarrow> nh_binding_owner_removed h origin bd n2;
       b3 \<leftarrow> get_nb n3 bd;
       if nb_owningLeafs b3 = [] then do { n4 \<leftarrow> disassociate_binding bd n3; erase_nb bd n4 } else Some n3 } }"

text \<open>The handlers the constructor registers; other messages have none in the base class.\<close>

fun node_receive :: "('te, 'x) node_hooks \<Rightarrow> body \<Rightarrow> connection \<Rightarrow> ('te, 'x) node \<Rightarrow> ('te, 'x) node option" where
  "node_receive h (TerminalDescription x i) c = node_TerminalDescription h x i c"
| "node_receive h (TerminalMapping tm m) c = node_TerminalMapping tm m c"
| "node_receive h (TerminalRemoved tm) c = node_TerminalRemoved h tm c"
| "node_receive h (TerminalRemovedAck tm) c = node_TerminalRemovedAck h tm c"
| "node_receive h (BindingDescription x i) c = node_BindingDescription h x i c"
| "node_receive h (BindingRemoved bd) c = node_BindingRemoved h bd c"
| "node_receive h _ c = (\<lambda>n. None)"

text \<open>Deaf-mute terminals override nothing.\<close>

definition no_hooks :: "'te \<Rightarrow> ('te, 'x) node_hooks" where
  "no_hooks e = \<lparr>nh_terminal_ext = e, nh_owner_added = (\<lambda>c tm i. Some), nh_owner_removed = (\<lambda>c tm. Some),
     nh_owner_remapped = (\<lambda>c tm i. Some), nh_user_removed = (\<lambda>c tm. Some),
     nh_binding_owner_added = (\<lambda>c bd i. Some), nh_binding_owner_removed = (\<lambda>c bd. Some),
     nh_binding_owner_remapped = (\<lambda>c bd i. Some)\<rparr>"

end
