(* ===== verification/Node_Classes.thy ===== *)
theory Node_Classes
  imports Node_Logic
begin

text \<open>
  The node logic of the terminal classes with subscriptions:
  \<^verbatim>\<open>core/common/SubscribableNodeLogicBaseT.hpp\<close>,
  \<^verbatim>\<open>core/common/PublishSubscribeNodeLogicBaseT.hpp\<close> and
  \<^verbatim>\<open>core/cached_publish_subscribe/NodeLogic.hpp\<close>.  A pointer to a connection that may be null is
  an option; a second option around it is a failed assertion.
\<close>

section \<open>Subscribers and binding owners\<close>

text \<open>\<^verbatim>\<open>foreach_mapped_owner\<close>: the connections it calls the function for, with the mapped Id.\<close>

definition mapped_owners :: "'te node_terminal \<Rightarrow> connection option \<Rightarrow> (connection \<times> id) list" where
  "mapped_owners t exn = map (\<lambda>(c, f). (c, m_mappedId f))
     (filter (\<lambda>(c, f). exn \<noteq> Some c \<and> is_mapped f) (nt_owningLeafs t @ nt_owningNodes t))"

definition send_each :: "(id \<Rightarrow> body) \<Rightarrow> (connection \<times> id) list \<Rightarrow> ('te, 'x) node \<Rightarrow> ('te, 'x) node" where
  "send_each m cs n = fold (\<lambda>(c, i). nsend c (m i)) cs n"

definition only_subscriber_or_binding_owner :: "'te node_terminal \<Rightarrow> ('te, 'x) node \<Rightarrow> connection option option" where
  "only_subscriber_or_binding_owner t n = (
     let subs = map fst (nt_subscribers t);
         only_sub = (case subs of [] \<Rightarrow> None | s # _ \<Rightarrow> Some s) in
     if length subs > 1 then Some None
     else if id_valid (nt_binding t) then do {
       b \<leftarrow> get_nb n (nt_binding t);
       Some (case map fst (nb_owningLeafs b) of
           [] \<Rightarrow> only_sub
         | [onlyOwner] \<Rightarrow> (if subs = [] \<or> hd subs = onlyOwner then Some onlyOwner else None)
         | _ \<Rightarrow> None) }
     else Some only_sub)"

definition contains_entries_other_than :: "(connection \<times> 'v) list \<Rightarrow> connection \<Rightarrow> bool" where
  "contains_entries_other_than m exn = (case m of [] \<Rightarrow> False | [(c, _)] \<Rightarrow> c \<noteq> exn | _ \<Rightarrow> True)"

definition at_least_one_subscriber_or_binding_owner_besides ::
  "'te node_terminal \<Rightarrow> connection \<Rightarrow> ('te, 'x) node \<Rightarrow> bool option" where
  "at_least_one_subscriber_or_binding_owner_besides t c n = (if id_valid (nt_binding t) then do {
       b \<leftarrow> get_nb n (nt_binding t);
       yassert (nb_owningLeafs b \<noteq> []);
       Some (contains_entries_other_than (nt_subscribers t) c \<or> contains_entries_other_than (nb_owningLeafs b) c) }
     else Some (contains_entries_other_than (nt_subscribers t) c))"

definition second_binding_owner_of_two :: "node_binding \<Rightarrow> connection \<Rightarrow> connection option" where
  "second_binding_owner_of_two b firstOwner = (case map fst (nb_owningLeafs b) of
      [c1, c2] \<Rightarrow> Some (if c1 = firstOwner then c2 else c1) | _ \<Rightarrow> None)"

definition no_other_subscriber_or_binding_owner ::
  "'te node_terminal \<Rightarrow> connection \<Rightarrow> ('te, 'x) node \<Rightarrow> bool option" where
  "no_other_subscriber_or_binding_owner t c n = do {
     _ \<leftarrow> (if id_valid (nt_binding t) then do { b \<leftarrow> get_nb n (nt_binding t); yassert (nb_owningLeafs b \<noteq> []) } else Some ());
     if nt_subscribers t = [] \<and> \<not> id_valid (nt_binding t) then Some True
     else do { only \<leftarrow> only_subscriber_or_binding_owner t n; Some (only = Some c) } }"

definition no_subscribers_or_binding_owners :: "'te node_terminal \<Rightarrow> ('te, 'x) node \<Rightarrow> bool option" where
  "no_subscribers_or_binding_owners t n = (if nt_subscribers t \<noteq> [] then Some False
     else if id_valid (nt_binding t) then do { b \<leftarrow> get_nb n (nt_binding t); Some (nb_owningLeafs b = []) }
     else Some True)"

definition terminal_owner_fsm_mapped_id :: "'te node_terminal \<Rightarrow> connection \<Rightarrow> id" where
  "terminal_owner_fsm_mapped_id t c = (case map_of (nt_owners c t) c of None \<Rightarrow> default_id | Some f \<Rightarrow> m_mappedId f)"

definition binding_terminal_owner_mapped_id :: "node_binding \<Rightarrow> connection \<Rightarrow> ('te, 'x) node \<Rightarrow> id option" where
  "binding_terminal_owner_mapped_id b c n = (if \<not> id_valid (nb_terminal b) then Some default_id
     else do { t \<leftarrow> get_nt n (nb_terminal b); Some (terminal_owner_fsm_mapped_id t c) })"

definition unsubscribe_if_needed :: "id \<Rightarrow> connection \<Rightarrow> ('te, 'x) node \<Rightarrow> ('te, 'x) node option" where
  "unsubscribe_if_needed tm exn n = do {
     t \<leftarrow> get_nt n tm;
     onlyConn \<leftarrow> only_subscriber_or_binding_owner t n;
     yassert (onlyConn \<noteq> Some exn);
     case onlyConn of
       Some c \<Rightarrow> (let i = terminal_owner_fsm_mapped_id t c in
         Some (if id_valid i then nsend c (Unsubscribe i) n else n))
     | None \<Rightarrow> do {
         none \<leftarrow> no_subscribers_or_binding_owners t n;
         Some (if none then send_each Unsubscribe (mapped_owners t (Some exn)) n else n) } }"

section \<open>The subscribable classes\<close>

text \<open>\<open>removed\<close> is the virtual function \<^verbatim>\<open>on_subscriber_removed\<close>.\<close>

definition remove_subscriber_if_needed ::
  "(connection \<Rightarrow> id \<Rightarrow> ('te, 'x) node \<Rightarrow> ('te, 'x) node option) \<Rightarrow> connection \<Rightarrow> id \<Rightarrow> ('te, 'x) node \<Rightarrow> ('te, 'x) node option" where
  "remove_subscriber_if_needed removed c tm n = do {
     t \<leftarrow> get_nt n tm;
     if map_of (nt_subscribers t) c = None then Some n
     else do {
       n1 \<leftarrow> modify_nt tm (\<lambda>t. t\<lparr>nt_subscribers := AList.delete c (nt_subscribers t)\<rparr>) n;
       n2 \<leftarrow> unsubscribe_if_needed tm c n1;
       removed c tm n2 } }"

text \<open>The assertions about a connection's entry among the owners: one entry, and it is mapped.\<close>

definition is_mapped_owner :: "connection \<Rightarrow> fsm_map \<Rightarrow> bool" where
  "is_mapped_owner c m = (case map_of m c of None \<Rightarrow> True | Some f \<Rightarrow> is_mapped f)"

definition sub_owner_added :: "connection \<Rightarrow> id \<Rightarrow> id \<Rightarrow> ('te, 'x) node \<Rightarrow> ('te, 'x) node option" where
  "sub_owner_added c tm i n = do {
     t \<leftarrow> get_nt n tm;
     yassert ((map_of (nt_owningLeafs t) c \<noteq> None) \<noteq> (map_of (nt_owningNodes t) c \<noteq> None));
     yassert (is_mapped_owner c (nt_owningLeafs t));
     yassert (is_mapped_owner c (nt_owningNodes t));
     some \<leftarrow> at_least_one_subscriber_or_binding_owner_besides t c n;
     Some (if some then nsend c (Subscribe i) n else n) }"

definition sub_owner_remapped :: "connection \<Rightarrow> id \<Rightarrow> id \<Rightarrow> ('te, 'x) node \<Rightarrow> ('te, 'x) node option" where
  "sub_owner_remapped c tm newMappedId n = do {
     t \<leftarrow> get_nt n tm;
     yassert (is_mapped_owner c (nt_owningLeafs t));
     yassert (is_mapped_owner c (nt_owningNodes t));
     some \<leftarrow> at_least_one_subscriber_or_binding_owner_besides t c n;
     Some (if some then nsend c (Subscribe newMappedId) n else n) }"

definition sub_owner_removed :: "connection \<Rightarrow> id \<Rightarrow> ('te, 'x) node \<Rightarrow> ('te, 'x) node option" where
  "sub_owner_removed c tm = modify_nt tm (\<lambda>t.
     if nt_owningLeafs t \<noteq> [] then t
     else if nt_owningNodes t = [] then t\<lparr>nt_subscribers := []\<rparr>
     else if length (nt_owningNodes t) = 1
     then t\<lparr>nt_subscribers := AList.delete (fst (hd (nt_owningNodes t))) (nt_subscribers t)\<rparr> else t)"

definition sub_user_removed ::
  "(connection \<Rightarrow> id \<Rightarrow> ('te, 'x) node \<Rightarrow> ('te, 'x) node option) \<Rightarrow> connection \<Rightarrow> id \<Rightarrow> ('te, 'x) node \<Rightarrow> ('te, 'x) node option" where
  "sub_user_removed removed c tm n = do {
     t \<leftarrow> get_nt n tm;
     yassert (map_of (nt_usingNodes t) c = None);
     remove_subscriber_if_needed removed c tm n }"

definition sub_binding_owner_added :: "connection \<Rightarrow> id \<Rightarrow> id \<Rightarrow> ('te, 'x) node \<Rightarrow> ('te, 'x) node option" where
  "sub_binding_owner_added c bd mappedId n = do {
     b \<leftarrow> get_nb n bd;
     yassert (map_of (nb_owningLeafs b) c \<noteq> None);
     if \<not> id_valid (nb_terminal b) then Some n
     else do {
       t \<leftarrow> get_nt n (nb_terminal b);
       none \<leftarrow> no_other_subscriber_or_binding_owner t c n;
       if none then Some (send_each Subscribe (mapped_owners t (Some c)) n)
       else if length (nt_subscribers t) = 1 \<and> length (nb_owningLeafs b) = 1 then (
         let s = fst (hd (nt_subscribers t)) in
         case map_of (nt_owningNodes t) s of None \<Rightarrow> Some n
         | Some f \<Rightarrow> do { yassert (is_mapped f); Some (nsend s (Subscribe (m_mappedId f)) n) })
       else if nt_subscribers t = [] \<and> length (nb_owningLeafs b) = 2 then do {
         other \<leftarrow> second_binding_owner_of_two b c;
         i \<leftarrow> binding_terminal_owner_mapped_id b other n;
         Some (if id_valid i then nsend other (Subscribe i) n else n) }
       else Some n } }"

definition sub_binding_owner_removed ::
  "(connection \<Rightarrow> id \<Rightarrow> ('te, 'x) node \<Rightarrow> ('te, 'x) node option) \<Rightarrow> connection \<Rightarrow> id \<Rightarrow> ('te, 'x) node \<Rightarrow> ('te, 'x) node option" where
  "sub_binding_owner_removed removed c bd n = do {
     yassert (\<not> remote_is_node c);
     b \<leftarrow> get_nb n bd;
     yassert (map_of (nb_owningLeafs b) c = None);
     if \<not> id_valid (nb_terminal b) then Some n
     else do {
       n1 \<leftarrow> unsubscribe_if_needed (nb_terminal b) c n;
       removed c (nb_terminal b) n1 } }"

definition subscribable_hooks ::
  "'te \<Rightarrow> (connection \<Rightarrow> id \<Rightarrow> ('te, 'x) node \<Rightarrow> ('te, 'x) node option) \<Rightarrow> ('te, 'x) node_hooks" where
  "subscribable_hooks e removed = \<lparr>nh_terminal_ext = e, nh_owner_added = sub_owner_added,
     nh_owner_removed = sub_owner_removed, nh_owner_remapped = sub_owner_remapped,
     nh_user_removed = sub_user_removed removed,
     nh_binding_owner_added = sub_binding_owner_added, nh_binding_owner_removed = sub_binding_owner_removed removed,
     nh_binding_owner_remapped = (\<lambda>c bd i. Some)\<rparr>"

text \<open>\<open>subscribed\<close> is the virtual function \<^verbatim>\<open>on_subscribed\<close>.\<close>

definition node_Subscribe ::
  "(connection \<Rightarrow> id \<Rightarrow> id \<Rightarrow> ('te, 'x) node \<Rightarrow> ('te, 'x) node option) \<Rightarrow> id \<Rightarrow> connection \<Rightarrow> ('te, 'x) node \<Rightarrow> ('te, 'x) node option" where
  "node_Subscribe subscribed tm origin n = do {
     yassert (remote_is_node origin);
     t \<leftarrow> get_nt n tm;
     yassert (map_of (nt_subscribers t) origin = None);
     f \<leftarrow> map_of (nt_usingNodes t) origin;
     if \<not> is_mapped f then Some n
     else do {
       otherConn \<leftarrow> only_subscriber_or_binding_owner t n;
       let n1 = (if otherConn \<noteq> None \<and> otherConn \<noteq> Some origin
         then (let c = the otherConn; i = terminal_owner_fsm_mapped_id t c in
           if id_valid i then nsend c (Subscribe i) n else n)
         else if nt_subscribers t = [] \<and> \<not> id_valid (nt_binding t)
         then send_each Subscribe (mapped_owners t (Some origin)) n else n);
       n2 \<leftarrow> modify_nt tm (\<lambda>t. t\<lparr>nt_subscribers := AList.update origin (m_mappedId f) (nt_subscribers t)\<rparr>) n1;
       subscribed origin (m_mappedId f) tm n2 } }"

definition node_Unsubscribe ::
  "(connection \<Rightarrow> id \<Rightarrow> ('te, 'x) node \<Rightarrow> ('te, 'x) node option) \<Rightarrow> id \<Rightarrow> connection \<Rightarrow> ('te, 'x) node \<Rightarrow> ('te, 'x) node option" where
  "node_Unsubscribe removed tm origin n = do {
     t \<leftarrow> get_nt n tm;
     remove_subscriber_if_needed removed origin tm n }"

section \<open>Publish-subscribe\<close>

definition send_data_to_subscribers ::
  "(id \<Rightarrow> buffer \<Rightarrow> body) \<Rightarrow> buffer \<Rightarrow> id \<Rightarrow> connection \<Rightarrow> ('te, 'x) node \<Rightarrow> ('te, 'x) node option" where
  "send_data_to_subscribers m d tm origin n = do {
     t \<leftarrow> get_nt n tm;
     n1 \<leftarrow> for_each (nt_subscribers t) (\<lambda>(c, i) n. if c \<noteq> origin then do {
         f \<leftarrow> map_of (nt_usingNodes t) c;
         yassert (is_mapped f);
         Some (nsend c (m i d) n) } else Some n) n;
     if id_valid (nt_binding t) then do {
       b \<leftarrow> get_nb n1 (nt_binding t);
       for_each (nb_owningLeafs b) (\<lambda>(c, f) n. if c \<noteq> origin then do {
         yassert (is_mapped f);
         Some (nsend c (m (m_mappedId f) d) n) } else Some n) n1 }
     else Some n1 }"

definition ps_node_hooks :: "(unit, unit) node_hooks" where
  "ps_node_hooks = subscribable_hooks () (\<lambda>c tm. Some)"

fun ps_node_receive :: "body \<Rightarrow> connection \<Rightarrow> (unit, unit) node \<Rightarrow> (unit, unit) node option" where
  "ps_node_receive (Subscribe tm) c = node_Subscribe (\<lambda>c i tm. Some) tm c"
| "ps_node_receive (Unsubscribe tm) c = node_Unsubscribe (\<lambda>c tm. Some) tm c"
| "ps_node_receive (Data tm d) c = send_data_to_subscribers Data d tm c"
| "ps_node_receive b c = node_receive ps_node_hooks b c"

section \<open>Cached publish-subscribe\<close>

record cached_node_ext =
  cn_lastReceivedMessage :: buffer
  cn_lastReceivedMessageSet :: bool

type_synonym cached_node = "(cached_node_ext, unit) node"

definition send_cached_data :: "connection \<Rightarrow> id \<Rightarrow> id \<Rightarrow> cached_node \<Rightarrow> cached_node option" where
  "send_cached_data c subscriptionId tm n = do {
     t \<leftarrow> get_nt n tm;
     Some (if cn_lastReceivedMessageSet (nt_ext t)
       then nsend c (CachedData subscriptionId (cn_lastReceivedMessage (nt_ext t))) n else n) }"

definition store_last_message :: "buffer \<Rightarrow> id \<Rightarrow> cached_node \<Rightarrow> cached_node option" where
  "store_last_message d tm = modify_nt tm (\<lambda>t. t\<lparr>nt_ext := (nt_ext t)\<lparr>cn_lastReceivedMessage := d, cn_lastReceivedMessageSet := True\<rparr>\<rparr>)"

definition cached_node_data :: "(id \<Rightarrow> buffer \<Rightarrow> body) \<Rightarrow> buffer \<Rightarrow> id \<Rightarrow> connection \<Rightarrow> cached_node \<Rightarrow> cached_node option" where
  "cached_node_data m d tm origin n = do {
     n1 \<leftarrow> store_last_message d tm n;
     send_data_to_subscribers m d tm origin n1 }"

definition cached_binding_owner_remapped :: "connection \<Rightarrow> id \<Rightarrow> id \<Rightarrow> cached_node \<Rightarrow> cached_node option" where
  "cached_binding_owner_remapped c bd newMappedId n = do {
     b \<leftarrow> get_nb n bd;
     if id_valid (nb_terminal b) then send_cached_data c newMappedId (nb_terminal b) n else Some n }"

definition cached_binding_owner_added :: "connection \<Rightarrow> id \<Rightarrow> id \<Rightarrow> cached_node \<Rightarrow> cached_node option" where
  "cached_binding_owner_added c bd mappedId n = do {
     n1 \<leftarrow> sub_binding_owner_added c bd mappedId n;
     cached_binding_owner_remapped c bd mappedId n1 }"

definition cached_node_hooks :: "(cached_node_ext, unit) node_hooks" where
  "cached_node_hooks = (subscribable_hooks \<lparr>cn_lastReceivedMessage = [], cn_lastReceivedMessageSet = False\<rparr> (\<lambda>c tm. Some))
     \<lparr>nh_binding_owner_added := cached_binding_owner_added, nh_binding_owner_remapped := cached_binding_owner_remapped\<rparr>"

fun cached_node_receive :: "body \<Rightarrow> connection \<Rightarrow> cached_node \<Rightarrow> cached_node option" where
  "cached_node_receive (Subscribe tm) c = node_Subscribe (\<lambda>c i tm. send_cached_data c i tm) tm c"
| "cached_node_receive (Unsubscribe tm) c = node_Unsubscribe (\<lambda>c tm. Some) tm c"
| "cached_node_receive (Data tm d) c = cached_node_data Data d tm c"
| "cached_node_receive (CachedData tm d) c = cached_node_data CachedData d tm c"
| "cached_node_receive b c = node_receive cached_node_hooks b c"

end
