(* ===== verification/Leaf_Invariant.thy ===== *)
theory Leaf_Invariant
  imports Leaf_Logic
begin

text \<open>
  The invariant of the leaf logic and its preservation by every handler, for any derived class whose
  virtual functions leave the members of the base class alone.
\<close>

section \<open>Views\<close>

text \<open>What the base class keeps of a terminal and of a binding group, as a function of the Id.\<close>

type_synonym tview = "ident \<times> bool \<times> fsm \<times> addr option"
type_synonym bview = "ident \<times> bool \<times> fsm \<times> bool \<times> binding_ref list"

definition tdata :: "'te terminal_info element \<Rightarrow> tview" where
  "tdata e = (el_ident e, el_hidden e, ti_fsm (el_data e), ti_terminal (el_data e))"

definition bdata :: "'be binding_info element \<Rightarrow> bview" where
  "bdata e = (el_ident e, el_hidden e, bi_fsm (el_data e), bi_established (el_data e), bi_bindings (el_data e))"

definition tview :: "('te, 'be, 'x) leaf \<Rightarrow> id \<Rightarrow> tview option" where
  "tview lf i = map_option tdata (find_id (lf_terminals lf) i)"

definition bview :: "('te, 'be, 'x) leaf \<Rightarrow> id \<Rightarrow> bview option" where
  "bview lf i = map_option bdata (find_id (lf_bindings lf) i)"

definition regs_ok :: "('te, 'be, 'x) leaf \<Rightarrow> bool" where
  "regs_ok lf \<longleftrightarrow> ireg_ok (lf_terminals lf) \<and> ireg_ok (lf_bindings lf)"

text \<open>Everything the invariant talks about: two states that agree on it are equally good.\<close>

definition frame :: "('te, 'be, 'x) leaf \<Rightarrow> ('te, 'be, 'x) leaf \<Rightarrow> bool" where
  "frame lf lf' \<longleftrightarrow> regs_ok lf' \<and> lf_connection lf' = lf_connection lf \<and> tview lf' = tview lf \<and> bview lf' = bview lf"

definition with_bview ::
  "('te, 'be, 'x) leaf \<Rightarrow> ('te, 'be, 'x) leaf \<Rightarrow> id \<Rightarrow> bview option \<Rightarrow> bool" where
  "with_bview lf lf' i v \<longleftrightarrow> regs_ok lf' \<and> lf_connection lf' = lf_connection lf \<and> tview lf' = tview lf
     \<and> bview lf' = (bview lf)(i := v)"

definition with_tview ::
  "('te, 'be, 'x) leaf \<Rightarrow> ('te, 'be, 'x) leaf \<Rightarrow> id \<Rightarrow> tview option \<Rightarrow> bool" where
  "with_tview lf lf' i v \<longleftrightarrow> regs_ok lf' \<and> lf_connection lf' = lf_connection lf \<and> bview lf' = bview lf
     \<and> tview lf' = (tview lf)(i := v)"

lemma frame_refl: "regs_ok lf \<Longrightarrow> frame lf lf"
  by (simp add: frame_def)

lemma frame_trans: "frame a b \<Longrightarrow> frame b c \<Longrightarrow> frame a c"
  by (simp add: frame_def)

lemma with_bview_frame: "with_bview a b i v \<Longrightarrow> frame b c \<Longrightarrow> with_bview a c i v"
  by (simp add: frame_def with_bview_def)

lemma with_tview_frame: "with_tview a b i v \<Longrightarrow> frame b c \<Longrightarrow> with_tview a c i v"
  by (simp add: frame_def with_tview_def)

lemma with_bview_trans: "with_bview a b i v \<Longrightarrow> with_bview b c i w \<Longrightarrow> with_bview a c i w"
  by (simp add: with_bview_def)

lemma with_tview_trans: "with_tview a b i v \<Longrightarrow> with_tview b c i w \<Longrightarrow> with_tview a c i w"
  by (simp add: with_tview_def)

lemma frame_with_bview: "frame a b \<Longrightarrow> with_bview b c i v \<Longrightarrow> with_bview a c i v"
  by (simp add: frame_def with_bview_def)

lemma frame_with_tview: "frame a b \<Longrightarrow> with_tview b c i v \<Longrightarrow> with_tview a c i v"
  by (simp add: frame_def with_tview_def)

lemma frame_as_bview: "frame a b \<Longrightarrow> with_bview a b i (bview a i)"
  by (simp add: frame_def with_bview_def)

lemma frame_as_tview: "frame a b \<Longrightarrow> with_tview a b i (tview a i)"
  by (simp add: frame_def with_tview_def)

section \<open>Effect of the accesses\<close>

lemma emit_frame: "regs_ok lf \<Longrightarrow> frame lf (emit e lf)"
  by (simp add: frame_def emit_def regs_ok_def tview_def bview_def fun_eq_iff)

lemma emits_frame: "regs_ok lf \<Longrightarrow> frame lf (emits es lf)"
  by (simp add: frame_def emits_def regs_ok_def tview_def bview_def fun_eq_iff)

lemma leaf_send_frame: "regs_ok lf \<Longrightarrow> leaf_send b lf = Some lf' \<Longrightarrow> frame lf lf'"
  by (auto simp: leaf_send_def emit_frame split: if_splits)

lemma tview_eq_Some:
  "tview lf i = Some (x, hid, f, p) \<longleftrightarrow> (\<exists>e. find_id (lf_terminals lf) i = Some e \<and> el_ident e = x
     \<and> el_hidden e = hid \<and> ti_fsm (el_data e) = f \<and> ti_terminal (el_data e) = p)"
  by (auto simp: tview_def tdata_def)

lemma bview_eq_Some:
  "bview lf i = Some (x, hid, f, est, bs) \<longleftrightarrow> (\<exists>e. find_id (lf_bindings lf) i = Some e \<and> el_ident e = x
     \<and> el_hidden e = hid \<and> bi_fsm (el_data e) = f \<and> bi_established (el_data e) = est \<and> bi_bindings (el_data e) = bs)"
  by (auto simp: bview_def bdata_def)

lemma modify_terminal_view:
  assumes ok: "regs_ok lf" and v: "find_id (lf_terminals lf) i = Some e"
  shows "\<exists>lf'. modify_terminal i g lf = Some lf' \<and> with_tview lf lf' i (Some (tdata (e\<lparr>el_data := g (el_data e)\<rparr>)))"
proof -
  obtain r where r: "ireg_modify i g (lf_terminals lf) = Some r" "ireg_ok r"
    "find_id r = (find_id (lf_terminals lf))(i \<mapsto> e\<lparr>el_data := g (el_data e)\<rparr>)"
    using ireg_modify_ok[of "lf_terminals lf" i e g] ok v by (auto simp: regs_ok_def)
  then show ?thesis using ok
    by (auto simp: modify_terminal_def with_tview_def regs_ok_def tview_def bview_def fun_eq_iff)
qed

lemma modify_binding_view:
  assumes ok: "regs_ok lf" and v: "find_id (lf_bindings lf) i = Some e"
  shows "\<exists>lf'. modify_binding i g lf = Some lf' \<and> with_bview lf lf' i (Some (bdata (e\<lparr>el_data := g (el_data e)\<rparr>)))"
proof -
  obtain r where r: "ireg_modify i g (lf_bindings lf) = Some r" "ireg_ok r"
    "find_id r = (find_id (lf_bindings lf))(i \<mapsto> e\<lparr>el_data := g (el_data e)\<rparr>)"
    using ireg_modify_ok[of "lf_bindings lf" i e g] ok v by (auto simp: regs_ok_def)
  then show ?thesis using ok
    by (auto simp: modify_binding_def with_bview_def regs_ok_def tview_def bview_def fun_eq_iff)
qed

lemma erase_terminal_view:
  assumes "regs_ok lf" "tview lf i \<noteq> None"
  shows "\<exists>lf'. erase_terminal i lf = Some lf' \<and> with_tview lf lf' i None"
proof -
  obtain e where "find_id (lf_terminals lf) i = Some e" using assms(2) by (auto simp: tview_def)
  then obtain r where "ireg_erase i (lf_terminals lf) = Some r" "ireg_ok r"
    "find_id r = (find_id (lf_terminals lf))(i := None)"
    using ireg_erase_ok[of "lf_terminals lf" i e] assms(1) by (auto simp: regs_ok_def)
  then show ?thesis using assms(1)
    by (auto simp: erase_terminal_def with_tview_def regs_ok_def tview_def bview_def fun_eq_iff)
qed

lemma erase_binding_view:
  assumes "regs_ok lf" "bview lf i \<noteq> None"
  shows "\<exists>lf'. erase_binding i lf = Some lf' \<and> with_bview lf lf' i None"
proof -
  obtain e where "find_id (lf_bindings lf) i = Some e" using assms(2) by (auto simp: bview_def)
  then obtain r where "ireg_erase i (lf_bindings lf) = Some r" "ireg_ok r"
    "find_id r = (find_id (lf_bindings lf))(i := None)"
    using ireg_erase_ok[of "lf_bindings lf" i e] assms(1) by (auto simp: regs_ok_def)
  then show ?thesis using assms(1)
    by (auto simp: erase_binding_def with_bview_def regs_ok_def tview_def bview_def fun_eq_iff)
qed

lemma hide_terminal_view:
  assumes "regs_ok lf" "tview lf i = Some (x, hid, f, p)"
  shows "\<exists>lf'. hide_terminal i lf = Some lf' \<and> with_tview lf lf' i (Some (x, True, f, p))"
proof -
  obtain e where e: "find_id (lf_terminals lf) i = Some e" "tdata e = (x, hid, f, p)"
    using assms(2) by (auto simp: tview_def)
  obtain r where r: "ireg_hide i (lf_terminals lf) = Some r" "ireg_ok r"
    "find_id r = (find_id (lf_terminals lf))(i \<mapsto> e\<lparr>el_hidden := True\<rparr>)"
    using ireg_hide_ok[of "lf_terminals lf" i e] assms(1) e(1) by (auto simp: regs_ok_def)
  moreover have "tdata (e\<lparr>el_hidden := True\<rparr>) = (x, True, f, p)" using e(2) by (simp add: tdata_def)
  ultimately show ?thesis using assms(1)
    by (auto simp: hide_terminal_def with_tview_def regs_ok_def tview_def bview_def fun_eq_iff)
qed

lemma hide_binding_view:
  assumes "regs_ok lf" "bview lf i = Some (x, hid, f, est, bs)"
  shows "\<exists>lf'. hide_binding i lf = Some lf' \<and> with_bview lf lf' i (Some (x, True, f, est, bs))"
proof -
  obtain e where e: "find_id (lf_bindings lf) i = Some e" "bdata e = (x, hid, f, est, bs)"
    using assms(2) by (auto simp: bview_def)
  obtain r where r: "ireg_hide i (lf_bindings lf) = Some r" "ireg_ok r"
    "find_id r = (find_id (lf_bindings lf))(i \<mapsto> e\<lparr>el_hidden := True\<rparr>)"
    using ireg_hide_ok[of "lf_bindings lf" i e] assms(1) e(1) by (auto simp: regs_ok_def)
  moreover have "bdata (e\<lparr>el_hidden := True\<rparr>) = (x, True, f, est, bs)" using e(2) by (simp add: bdata_def)
  ultimately show ?thesis using assms(1)
    by (auto simp: hide_binding_def with_bview_def regs_ok_def tview_def bview_def fun_eq_iff)
qed

section \<open>The invariant\<close>

text \<open>
  Hidden objects are those that have been destroyed while their machine still has to await
  something; without a connection there are none, and every terminal's machine is as new.
\<close>

definition terminal_ok :: "bool option \<Rightarrow> tview \<Rightarrow> bool" where
  "terminal_ok conn = (\<lambda>(x, hid, f, p). fsm_ok f \<and> (hid \<longleftrightarrow> p = None) \<and>
     (case conn of None \<Rightarrow> \<not> hid \<and> f = fsm_init | Some node \<Rightarrow> hid = fsm_destroyed f))"

text \<open>
  A binding group of a connected leaf is established exactly when it is mapped, if the other end is
  a leaf; if it is a node, the node decides, but never for a group that is not mapped.
\<close>

definition established_ok :: "bool \<Rightarrow> bool \<Rightarrow> bool \<Rightarrow> bool" where
  "established_ok node est mapped \<longleftrightarrow> (if node then est \<longrightarrow> mapped else est = mapped)"

definition binding_ok :: "bool option \<Rightarrow> bview \<Rightarrow> bool" where
  "binding_ok conn = (\<lambda>(x, hid, f, est, bs). fsm_ok f \<and> (hid \<longleftrightarrow> bs = []) \<and>
     (case conn of None \<Rightarrow> \<not> hid \<and> \<not> est
      | Some node \<Rightarrow> hid = fsm_destroyed f \<and> (\<not> hid \<longrightarrow> established_ok node est (is_mapped f))))"

definition leaf_ok :: "('te, 'be, 'x) leaf \<Rightarrow> bool" where
  "leaf_ok lf \<longleftrightarrow> regs_ok lf \<and> (\<forall>i v. tview lf i = Some v \<longrightarrow> terminal_ok (lf_connection lf) v)
     \<and> (\<forall>i v. bview lf i = Some v \<longrightarrow> binding_ok (lf_connection lf) v)"

lemma find_id_empty [simp]: "find_id ireg_empty i = None"
  by (auto simp: find_id_def ireg_empty_def)

lemma leaf_ok_init: "leaf_ok (leaf_init x)"
  by (simp add: leaf_ok_def leaf_init_def regs_ok_def ireg_ok_empty tview_def bview_def)

lemma leaf_okD:
  assumes "leaf_ok lf"
  shows "regs_ok lf" "tview lf i = Some v \<Longrightarrow> terminal_ok (lf_connection lf) v"
    "bview lf i = Some w \<Longrightarrow> binding_ok (lf_connection lf) w"
  using assms unfolding leaf_ok_def by blast+

lemma leaf_ok_frame: "leaf_ok lf \<Longrightarrow> frame lf lf' \<Longrightarrow> leaf_ok lf'"
  by (simp add: leaf_ok_def frame_def)

lemma leaf_ok_with_bview:
  "leaf_ok lf \<Longrightarrow> with_bview lf lf' i v \<Longrightarrow> (\<And>w. v = Some w \<Longrightarrow> binding_ok (lf_connection lf) w) \<Longrightarrow> leaf_ok lf'"
  by (auto simp: leaf_ok_def with_bview_def)

lemma leaf_ok_with_tview:
  "leaf_ok lf \<Longrightarrow> with_tview lf lf' i v \<Longrightarrow> (\<And>w. v = Some w \<Longrightarrow> terminal_ok (lf_connection lf) w) \<Longrightarrow> leaf_ok lf'"
  by (auto simp: leaf_ok_def with_tview_def)

section \<open>Notifications of a binding group\<close>

definition est_after :: "bool option \<Rightarrow> bool \<Rightarrow> fsm_out \<Rightarrow> bool" where
  "est_after conn est out = (case out of
      MappStChanged b \<Rightarrow> if \<not> b then False else if conn = Some False then True else est
    | _ \<Rightarrow> est)"

lemma est_after_leaf:
  "foldl (est_after (Some False)) (is_mapped f) outs = last_change (is_mapped f) outs"
proof -
  have "foldl (est_after (Some False)) b outs = last_change b outs" for b
    by (induction outs arbitrary: b) (auto simp: est_after_def last_change_def split: fsm_out.splits)
  then show ?thesis .
qed

lemma est_after_node:
  "(est \<longrightarrow> m) \<Longrightarrow> foldl (est_after (Some True)) est outs \<Longrightarrow> last_change m outs"
proof (induction outs arbitrary: est m)
  case Nil
  then show ?case by (simp add: last_change_def)
next
  case (Cons out outs)
  define m' where "m' = (case out of MappStChanged b \<Rightarrow> b | _ \<Rightarrow> m)"
  have "est_after (Some True) est out \<longrightarrow> m'"
    using Cons.prems(1) by (auto simp: est_after_def m'_def split: fsm_out.splits)
  then have "last_change m' outs" using Cons.IH Cons.prems(2) by simp
  then show ?case by (simp add: last_change_def m'_def)
qed

lemma established_ok_step:
  assumes "fsm_step e f = Some (f', outs, b)" "e \<noteq> Destroyed" "established_ok node est (is_mapped f)"
  shows "established_ok node (foldl (est_after (Some node)) est outs) (is_mapped f')"
  using fsm_step_changes(1)[OF assms(1,2)] assms(3) est_after_leaf[of f outs]
    est_after_node[of est "is_mapped f" outs]
  by (cases node) (auto simp: established_ok_def)

lemma fsm_destroyed_step:
  assumes "fsm_step e f = Some (f', outs, True)" "e \<noteq> Destroyed"
  shows "fsm_destroyed f' = fsm_destroyed f"
  using assms
  by (cases e; cases "m_state f") (auto simp: fsm_defs keep_def fsm_destroyed_def split: if_splits)

lemma fsm_destroyed_Destroyed:
  assumes "fsm_step Destroyed f = Some (f', outs, b)"
  shows "\<not> fsm_destroyed f" "b \<Longrightarrow> fsm_destroyed f'" "foldl (est_after conn) est outs = est"
  using assms
  by (cases "m_state f"; auto simp: fsm_defs fsm_destroyed_def est_after_def split: if_splits)+

section \<open>The contract of the virtual functions\<close>

locale leaf_virtuals =
  fixes h :: "('te, 'be, 'x) leaf_hooks"
  assumes terminal_mapping: "regs_ok lf \<Longrightarrow> h_terminal_mapping_changed h b i lf = Some lf' \<Longrightarrow> frame lf lf'"
    and terminal_removed: "regs_ok lf \<Longrightarrow> h_terminal_removed h p i lf = Some lf' \<Longrightarrow> frame lf lf'"
    and group_mapping: "regs_ok lf \<Longrightarrow> h_group_mapping_changed h b i lf = Some lf' \<Longrightarrow> frame lf lf'"
    and binding_removed: "regs_ok lf \<Longrightarrow> h_binding_removed h r i lf = Some lf' \<Longrightarrow> frame lf lf'"
begin

lemma update_binding_state_view:
  assumes ok: "regs_ok lf" and v: "bview lf bd = Some (x, hid, f, est, bs)"
    and u: "update_binding_state h bd b lf = Some lf'"
  shows "with_bview lf lf' bd (Some (x, hid, f, b, bs))"
proof -
  obtain e where e: "find_id (lf_bindings lf) bd = Some e" "bdata e = (x, hid, f, est, bs)"
    using v by (auto simp: bview_def)
  then have est: "bi_established (el_data e) = est" by (simp add: bdata_def)
  show ?thesis
  proof (cases "est = b")
    case True
    then have "lf' = lf" using u e(1) est by (simp add: update_binding_state_def get_binding_info_def)
    then show ?thesis using ok v True by (auto simp: with_bview_def)
  next
    case False
    obtain lf1 where lf1: "modify_binding bd (\<lambda>b'. b'\<lparr>bi_established := b\<rparr>) lf = Some lf1"
      "with_bview lf lf1 bd (Some (bdata (e\<lparr>el_data := (el_data e)\<lparr>bi_established := b\<rparr>\<rparr>)))"
      using modify_binding_view[OF ok e(1), of "\<lambda>b'. b'\<lparr>bi_established := b\<rparr>"] by auto
    have d: "bdata (e\<lparr>el_data := (el_data e)\<lparr>bi_established := b\<rparr>\<rparr>) = (x, hid, f, b, bs)"
      using e(2) by (simp add: bdata_def)
    obtain lf2 es where lf2: "h_group_mapping_changed h b bd lf1 = Some lf2" "lf' = emits es lf2"
      using u e(1) est False lf1(1)
      by (auto simp: update_binding_state_def get_binding_info_def bind_eq_Some_conv)
    have "frame lf1 lf2" using group_mapping[OF _ lf2(1)] lf1(2) by (simp add: with_bview_def)
    moreover from this have "frame lf2 lf'" unfolding lf2(2) by (intro emits_frame) (simp add: frame_def)
    ultimately show ?thesis using lf1(2) d with_bview_frame frame_trans by metis
  qed
qed

lemma binding_callback_view:
  assumes ok: "regs_ok lf" and v: "bview lf bd = Some (x, hid, f, est, bs)"
    and u: "binding_callback h y bd r out lf = Some lf'"
  shows "with_bview lf lf' bd (Some (x, hid, f, est_after (lf_connection lf) est out, bs))"
proof -
  have send: "with_bview lf lf' bd (Some (x, hid, f, est, bs))" if "leaf_send m lf = Some lf'" for m
    using leaf_send_frame[OF ok that] frame_as_bview[of lf lf' bd] v by simp
  show ?thesis
  proof (cases out)
    case (MappStChanged b)
    with u have u': "update_binding_state_after_mapping_changed h bd b lf = Some lf'"
      by (simp add: binding_callback_def)
    show ?thesis
    proof (cases "b \<and> lf_connection lf \<noteq> Some False")
      case True
      then have "lf_connection lf = Some True" "lf' = lf"
        using u' by (auto simp: update_binding_state_after_mapping_changed_def leaf_remote_is_node_def
            bind_eq_Some_conv split: if_splits)
      then show ?thesis using ok v True MappStChanged by (simp add: with_bview_def est_after_def fun_upd_idem)
    next
      case False
      then have "update_binding_state h bd b lf = Some lf'"
        using u' by (cases b) (auto simp: update_binding_state_after_mapping_changed_def leaf_remote_is_node_def)
      then show ?thesis using update_binding_state_view[OF ok v, of b lf'] False MappStChanged
        by (auto simp: est_after_def split: if_splits)
    qed
  qed (use u send in \<open>auto simp: binding_callback_def est_after_def\<close>)
qed

lemma binding_callbacks_view:
  "regs_ok lf \<Longrightarrow> bview lf bd = Some (x, hid, f, est, bs) \<Longrightarrow>
    for_each outs (binding_callback h y bd r) lf = Some lf' \<Longrightarrow>
    with_bview lf lf' bd (Some (x, hid, f, foldl (est_after (lf_connection lf)) est outs, bs))"
proof (induction outs arbitrary: lf est)
  case Nil
  then show ?case by (simp add: with_bview_def fun_upd_idem)
next
  case (Cons out outs)
  then obtain lf1 where lf1: "binding_callback h y bd r out lf = Some lf1"
    "for_each outs (binding_callback h y bd r) lf1 = Some lf'"
    by (auto simp: bind_eq_Some_conv)
  note w = binding_callback_view[OF Cons.prems(1,2) lf1(1)]
  have ok1: "regs_ok lf1" using w by (simp add: with_bview_def)
  have v1: "bview lf1 bd = Some (x, hid, f, est_after (lf_connection lf) est out, bs)"
    and c1: "lf_connection lf1 = lf_connection lf"
    using w by (simp_all add: with_bview_def)
  show ?case using with_bview_trans[OF w Cons.IH[OF ok1 v1 lf1(2)]] c1 by simp
qed

lemma terminal_callbacks_frame:
  "regs_ok lf \<Longrightarrow> for_each outs (terminal_callback h y tm r) lf = Some lf' \<Longrightarrow> frame lf lf'"
proof (induction outs arbitrary: lf)
  case Nil
  then show ?case by (simp add: frame_refl)
next
  case (Cons out outs)
  then obtain lf1 where lf1: "terminal_callback h y tm r out lf = Some lf1"
    "for_each outs (terminal_callback h y tm r) lf1 = Some lf'"
    by (auto simp: bind_eq_Some_conv)
  have "frame lf lf1"
    using lf1(1) Cons.prems(1) terminal_mapping leaf_send_frame
    by (cases out) (auto simp: terminal_callback_def)
  then show ?case using Cons.IH[OF _ lf1(2)] frame_trans by (auto simp: frame_def)
qed

lemma terminal_fsm_view:
  assumes ok: "regs_ok lf" and v: "tview lf tm = Some (x, hid, f, p)"
    and u: "terminal_fsm h tm r call lf = Some (alive, lf')"
  obtains f' outs where "call f = Some (f', outs, alive)" "with_tview lf lf' tm (Some (x, hid, f', p))"
proof -
  obtain e where e: "find_id (lf_terminals lf) tm = Some e" "tdata e = (x, hid, f, p)"
    using v by (auto simp: tview_def)
  obtain f' outs where c: "call (ti_fsm (el_data e)) = Some (f', outs, alive)"
    using u e(1) by (auto simp: terminal_fsm_def bind_eq_Some_conv)
  obtain lf1 where lf1: "modify_terminal tm (\<lambda>t. t\<lparr>ti_fsm := f'\<rparr>) lf = Some lf1"
    "with_tview lf lf1 tm (Some (tdata (e\<lparr>el_data := (el_data e)\<lparr>ti_fsm := f'\<rparr>\<rparr>)))"
    using modify_terminal_view[OF ok e(1), of "\<lambda>t. t\<lparr>ti_fsm := f'\<rparr>"] by auto
  have fe: "for_each outs (terminal_callback h (el_ident e) tm r) lf1 = Some lf'"
    using u e(1) c lf1(1) by (auto simp: terminal_fsm_def bind_eq_Some_conv)
  have "frame lf1 lf'" using terminal_callbacks_frame[OF _ fe] lf1(2) by (simp add: with_tview_def)
  moreover have "tdata (e\<lparr>el_data := (el_data e)\<lparr>ti_fsm := f'\<rparr>\<rparr>) = (x, hid, f', p)" "ti_fsm (el_data e) = f"
    using e(2) by (simp_all add: tdata_def)
  ultimately show ?thesis using that c lf1(2) with_tview_frame by metis
qed

lemma binding_fsm_view:
  assumes ok: "regs_ok lf" and v: "bview lf bd = Some (x, hid, f, est, bs)"
    and u: "binding_fsm h bd r call lf = Some (alive, lf')"
  obtains f' outs where "call f = Some (f', outs, alive)"
    "with_bview lf lf' bd (Some (x, hid, f', foldl (est_after (lf_connection lf)) est outs, bs))"
proof -
  obtain e where e: "find_id (lf_bindings lf) bd = Some e" "bdata e = (x, hid, f, est, bs)"
    using v by (auto simp: bview_def)
  obtain f' outs where c: "call (bi_fsm (el_data e)) = Some (f', outs, alive)"
    using u e(1) by (auto simp: binding_fsm_def bind_eq_Some_conv)
  obtain lf1 where lf1: "modify_binding bd (\<lambda>t. t\<lparr>bi_fsm := f'\<rparr>) lf = Some lf1"
    "with_bview lf lf1 bd (Some (bdata (e\<lparr>el_data := (el_data e)\<lparr>bi_fsm := f'\<rparr>\<rparr>)))"
    using modify_binding_view[OF ok e(1), of "\<lambda>t. t\<lparr>bi_fsm := f'\<rparr>"] by auto
  have fe: "for_each outs (binding_callback h (el_ident e) bd r) lf1 = Some lf'"
    using u e(1) c lf1(1) by (auto simp: binding_fsm_def bind_eq_Some_conv)
  have d: "bdata (e\<lparr>el_data := (el_data e)\<lparr>bi_fsm := f'\<rparr>\<rparr>) = (x, hid, f', est, bs)" "bi_fsm (el_data e) = f"
    using e(2) by (simp_all add: bdata_def)
  have ok1: "regs_ok lf1" and v1: "bview lf1 bd = Some (x, hid, f', est, bs)"
    and c1: "lf_connection lf1 = lf_connection lf"
    using lf1(2) d by (simp_all add: with_bview_def)
  show ?thesis
    using that[of f' outs] c d lf1(2) with_bview_trans[OF lf1(2) binding_callbacks_view[OF ok1 v1 fe]] c1
    by simp
qed

subsection \<open>Messages\<close>

lemma terminal_message_ok:
  assumes ok: "leaf_ok lf" and conn: "lf_connection lf = Some node" and ev: "event_ok ev" "ev \<noteq> Destroyed"
    and u: "terminal_fsm h tm r (fsm_step ev) lf = Some (alive, lf1)"
  shows "alive \<Longrightarrow> leaf_ok lf1" "erase_terminal tm lf1 = Some lf' \<Longrightarrow> leaf_ok lf'"
proof -
  obtain x hid f p where v: "tview lf tm = Some (x, hid, f, p)"
    using u by (auto simp: terminal_fsm_def tview_def tdata_def bind_eq_Some_conv)
  obtain f' outs where s: "fsm_step ev f = Some (f', outs, alive)"
    and w: "with_tview lf lf1 tm (Some (x, hid, f', p))"
    using terminal_fsm_view[OF leaf_okD(1)[OF ok] v u] .
  have t: "terminal_ok (lf_connection lf) (x, hid, f, p)" by (rule leaf_okD(2)[OF ok v])
  show "leaf_ok lf1" if alive
  proof (rule leaf_ok_with_tview[OF ok w])
    fix w'
    assume "Some (x, hid, f', p) = Some w'"
    moreover have "fsm_ok f'" using fsm_step_ok[OF s ev(1)] t by (simp add: terminal_ok_def)
    moreover have "fsm_destroyed f' = fsm_destroyed f"
      using fsm_destroyed_step[of ev f f' outs] s ev(2) that by simp
    ultimately show "terminal_ok (lf_connection lf) w'" using t conn by (auto simp: terminal_ok_def)
  qed
  show "leaf_ok lf'" if e: "erase_terminal tm lf1 = Some lf'"
  proof -
    have "regs_ok lf1" "tview lf1 tm \<noteq> None" using w by (simp_all add: with_tview_def)
    then have "with_tview lf1 lf' tm None" using erase_terminal_view[of lf1 tm] e by auto
    note gone = with_tview_trans[OF w this]
    show ?thesis by (rule leaf_ok_with_tview[OF ok gone]) simp
  qed
qed

lemma binding_message_ok:
  assumes ok: "leaf_ok lf" and conn: "lf_connection lf = Some node" and ev: "event_ok ev" "ev \<noteq> Destroyed"
    and u: "binding_fsm h bd r (fsm_step ev) lf = Some (alive, lf1)"
  shows "alive \<Longrightarrow> leaf_ok lf1" "erase_binding bd lf1 = Some lf' \<Longrightarrow> leaf_ok lf'"
proof -
  obtain x hid f est bs where v: "bview lf bd = Some (x, hid, f, est, bs)"
    using u by (auto simp: binding_fsm_def bview_def bdata_def bind_eq_Some_conv)
  define est' where "est' outs = foldl (est_after (lf_connection lf)) est outs" for outs
  obtain f' outs where s: "fsm_step ev f = Some (f', outs, alive)"
    and w: "with_bview lf lf1 bd (Some (x, hid, f', est' outs, bs))"
    using binding_fsm_view[OF leaf_okD(1)[OF ok] v u] unfolding est'_def .
  have t: "binding_ok (lf_connection lf) (x, hid, f, est, bs)" by (rule leaf_okD(3)[OF ok v])
  show "leaf_ok lf1" if alive
  proof (rule leaf_ok_with_bview[OF ok w])
    fix w'
    assume "Some (x, hid, f', est' outs, bs) = Some w'"
    moreover have "fsm_ok f'" using fsm_step_ok[OF s ev(1)] t by (simp add: binding_ok_def)
    moreover have "fsm_destroyed f' = fsm_destroyed f"
      using fsm_destroyed_step[of ev f f' outs] s ev(2) that by simp
    moreover have "\<not> hid \<Longrightarrow> established_ok node (est' outs) (is_mapped f')"
      using established_ok_step[OF s ev(2), of node est] t conn by (simp add: binding_ok_def est'_def)
    ultimately show "binding_ok (lf_connection lf) w'" using t conn by (auto simp: binding_ok_def)
  qed
  show "leaf_ok lf'" if e: "erase_binding bd lf1 = Some lf'"
  proof -
    have "regs_ok lf1" "bview lf1 bd \<noteq> None" using w by (simp_all add: with_bview_def)
    then have "with_bview lf1 lf' bd None" using erase_binding_view[of lf1 bd] e by auto
    note gone = with_bview_trans[OF w this]
    show ?thesis by (rule leaf_ok_with_bview[OF ok gone]) simp
  qed
qed

lemma update_binding_state_ok:
  assumes ok: "leaf_ok lf" and conn: "lf_connection lf = Some True"
    and f: "get_binding_info lf bd = Some info" "m_state (bi_fsm info) = MAPPED_CONFIRMED"
    and u: "update_binding_state h bd b lf = Some lf'"
  shows "leaf_ok lf'"
proof -
  obtain e where e: "find_id (lf_bindings lf) bd = Some e" "el_data e = info"
    using f(1) by (auto simp: get_binding_info_def)
  define x hid est bs where d: "x = el_ident e" "hid = el_hidden e" "est = bi_established info" "bs = bi_bindings info"
  have v: "bview lf bd = Some (x, hid, bi_fsm info, est, bs)"
    using e by (simp add: bview_def bdata_def d)
  have t: "binding_ok (lf_connection lf) (x, hid, bi_fsm info, est, bs)" by (rule leaf_okD(3)[OF ok v])
  show ?thesis
  proof (rule leaf_ok_with_bview[OF ok update_binding_state_view[OF leaf_okD(1)[OF ok] v u]])
    fix w'
    assume "Some (x, hid, bi_fsm info, b, bs) = Some w'"
    then show "binding_ok (lf_connection lf) w'"
      using t conn f(2) by (auto simp: binding_ok_def established_ok_def is_mapped_def)
  qed
qed

end

text \<open>The Ids in a message are valid: \<^verbatim>\<open>deserialize_one\<close> asserts it.\<close>

fun body_ids :: "body \<Rightarrow> id list" where
  "body_ids (TerminalDescription x i) = [i]"
| "body_ids (TerminalMapping i m) = [i, m]"
| "body_ids (TerminalNoticed i) = [i]"
| "body_ids (TerminalRemoved m) = [m]"
| "body_ids (TerminalRemovedAck i) = [i]"
| "body_ids (BindingDescription x i) = [i]"
| "body_ids (BindingMapping i m) = [i, m]"
| "body_ids (BindingNoticed i) = [i]"
| "body_ids (BindingRemoved m) = [m]"
| "body_ids (BindingRemovedAck i) = [i]"
| "body_ids (BindingEstablished i) = [i]"
| "body_ids (BindingReleased i) = [i]"
| "body_ids (Subscribe i) = [i]"
| "body_ids (Unsubscribe i) = [i]"
| "body_ids (Data i d) = [i]"
| "body_ids (CachedData i d) = [i]"
| "body_ids (Scatter i n d) = [i, n]"
| "body_ids (Gather n f d) = [n]"

text \<open>Only nodes send \<^verbatim>\<open>BindingEstablished\<close> and \<^verbatim>\<open>BindingReleased\<close>.\<close>

definition from_peer :: "bool \<Rightarrow> body \<Rightarrow> bool" where
  "from_peer node b \<longleftrightarrow> list_all id_valid (body_ids b) \<and>
     (node \<or> body_kind b \<notin> {K_BindingEstablished, K_BindingReleased})"

lemma fsm_step_eta:
  "(\<lambda>f. keep (process_rcvd_description i f)) = fsm_step (Rcvd_Description i)"
  "(\<lambda>f. keep (process_rcvd_mapping i f)) = fsm_step (Rcvd_Mapping i)"
  "process_rcvd_noticed = fsm_step Rcvd_Noticed" "process_rcvd_removed = fsm_step Rcvd_Removed"
  "removed_ack_call = fsm_step Rcvd_Removed_Ack" "process_object_destroyed = fsm_step Destroyed"
  by (auto simp: fun_eq_iff removed_ack_call_def)

definition keeps :: "fsm_event \<Rightarrow> bool" where
  "keeps e \<longleftrightarrow> (case e of Rcvd_Description i \<Rightarrow> True | Rcvd_Mapping i \<Rightarrow> True | _ \<Rightarrow> False)"

lemma keeps_simps [simp]: "keeps (Rcvd_Description i)" "keeps (Rcvd_Mapping i)"
  by (simp_all add: keeps_def)

lemma fsm_step_keep_alive: "fsm_step e f = Some (f', outs, b) \<Longrightarrow> keeps e \<Longrightarrow> b"
  by (cases e) (auto simp: keep_def keeps_def)

lemma terminal_fsm_alive: "terminal_fsm h tm r (fsm_step e) lf = Some (b, lf') \<Longrightarrow> keeps e \<Longrightarrow> b"
  using fsm_step_keep_alive by (fastforce simp: terminal_fsm_def bind_eq_Some_conv simp del: fsm_step.simps)

lemma binding_fsm_alive: "binding_fsm h bd r (fsm_step e) lf = Some (b, lf') \<Longrightarrow> keeps e \<Longrightarrow> b"
  using fsm_step_keep_alive by (fastforce simp: binding_fsm_def bind_eq_Some_conv simp del: fsm_step.simps)

lemmas leaf_handler_defs = on_TerminalDescription_def on_TerminalMapping_def on_TerminalNoticed_def
  on_TerminalRemoved_def on_TerminalRemovedAck_def on_BindingDescription_def on_BindingMapping_def
  on_BindingNoticed_def on_BindingRemoved_def on_BindingRemovedAck_def on_BindingEstablished_def
  on_BindingReleased_def

context leaf_virtuals begin

lemma terminal_message_end:
  assumes "leaf_ok lf" "lf_connection lf = Some node" "event_ok ev" "ev \<noteq> Destroyed"
    and "(do { (alive, lf1) \<leftarrow> terminal_fsm h tm r (fsm_step ev) lf;
      if \<not> alive then erase_terminal tm lf1 else Some lf1 }) = Some lf'"
  shows "leaf_ok lf'"
proof -
  obtain alive lf1 where u: "terminal_fsm h tm r (fsm_step ev) lf = Some (alive, lf1)"
    "(if \<not> alive then erase_terminal tm lf1 else Some lf1) = Some lf'"
    using assms(5) by (auto simp: bind_eq_Some_conv)
  show ?thesis using terminal_message_ok[OF assms(1-4) u(1)] u(2) by (cases alive) simp_all
qed

lemma terminal_message_keep:
  assumes "leaf_ok lf" "lf_connection lf = Some node" "event_ok ev" "keeps ev"
    and "map_option snd (terminal_fsm h tm r (fsm_step ev) lf) = Some lf'"
  shows "leaf_ok lf'"
proof -
  obtain alive where u: "terminal_fsm h tm r (fsm_step ev) lf = Some (alive, lf')" using assms(5) by auto
  have "ev \<noteq> Destroyed" using assms(4) by (auto simp: keeps_def)
  then show ?thesis
    using terminal_message_ok(1)[OF assms(1-3) _ u] terminal_fsm_alive[OF u assms(4)] by simp
qed

lemma binding_message_end:
  assumes "leaf_ok lf" "lf_connection lf = Some node" "event_ok ev" "ev \<noteq> Destroyed"
    and "(do { (alive, lf1) \<leftarrow> binding_fsm h bd r (fsm_step ev) lf;
      if \<not> alive then erase_binding bd lf1 else Some lf1 }) = Some lf'"
  shows "leaf_ok lf'"
proof -
  obtain alive lf1 where u: "binding_fsm h bd r (fsm_step ev) lf = Some (alive, lf1)"
    "(if \<not> alive then erase_binding bd lf1 else Some lf1) = Some lf'"
    using assms(5) by (auto simp: bind_eq_Some_conv)
  show ?thesis using binding_message_ok[OF assms(1-4) u(1)] u(2) by (cases alive) simp_all
qed

lemma binding_message_keep:
  assumes "leaf_ok lf" "lf_connection lf = Some node" "event_ok ev" "keeps ev"
    and "map_option snd (binding_fsm h bd r (fsm_step ev) lf) = Some lf'"
  shows "leaf_ok lf'"
proof -
  obtain alive where u: "binding_fsm h bd r (fsm_step ev) lf = Some (alive, lf')" using assms(5) by auto
  have "ev \<noteq> Destroyed" using assms(4) by (auto simp: keeps_def)
  then show ?thesis
    using binding_message_ok(1)[OF assms(1-3) _ u] binding_fsm_alive[OF u assms(4)] by simp
qed

lemma node_message_ok:
  assumes ok: "leaf_ok lf" and conn: "lf_connection lf = Some True"
    and r: "(do { info \<leftarrow> get_binding_info lf bd;
      yassert (m_state (bi_fsm info) = MAPPED_CONFIRMED \<or> m_state (bi_fsm info) = AWAIT_ACK);
      if m_state (bi_fsm info) = MAPPED_CONFIRMED then update_binding_state h bd b lf else Some lf }) = Some lf'"
  shows "leaf_ok lf'"
proof -
  obtain info where i: "get_binding_info lf bd = Some info" using r by (auto simp: bind_eq_Some_conv)
  show ?thesis
    using r i ok update_binding_state_ok[OF ok conn i, of b lf'] by (simp split: if_splits)
qed

lemma leaf_receive_ok:
  assumes ok: "leaf_ok lf" and conn: "lf_connection lf = Some node" and b: "from_peer node b"
    and r: "leaf_receive h b lf = Some lf'"
  shows "leaf_ok lf'"
proof -
  note ends = terminal_message_end[OF ok conn] binding_message_end[OF ok conn]
  note keepers = terminal_message_keep[OF ok conn _ keeps_simps(1)] binding_message_keep[OF ok conn _ keeps_simps(1)]
    terminal_message_keep[OF ok conn _ keeps_simps(2)] binding_message_keep[OF ok conn _ keeps_simps(2)]
  have send: "leaf_ok lf'" if "leaf_send m lf = Some lf'" for m
    using leaf_ok_frame[OF ok leaf_send_frame[OF leaf_okD(1)[OF ok] that]] .
  have ids: "list_all id_valid (body_ids b)" using b by (simp add: from_peer_def)
  show ?thesis
  proof (cases b)
    case (TerminalDescription x i)
    then show ?thesis
      using r ids send keepers(2)[of i] unfolding TerminalDescription leaf_receive.simps leaf_handler_defs fsm_step_eta
      by (cases "find_ident (lf_bindings lf) x") (simp_all del: fsm_step.simps)
  next
    case (BindingDescription x i)
    then show ?thesis
      using r ids send keepers(1)[of i] unfolding BindingDescription leaf_receive.simps leaf_handler_defs fsm_step_eta
      by (cases "find_ident (lf_terminals lf) x") (simp_all del: fsm_step.simps)
  next
    case (TerminalMapping tm m)
    then show ?thesis
      using r ids keepers(3)[of m] unfolding TerminalMapping leaf_receive.simps leaf_handler_defs fsm_step_eta by simp
  next
    case (BindingMapping bd m)
    then show ?thesis
      using r ids keepers(4)[of m] unfolding BindingMapping leaf_receive.simps leaf_handler_defs fsm_step_eta by simp
  next
    case (TerminalNoticed tm)
    show ?thesis
      by (rule ends(1)[OF _ _ r[unfolded TerminalNoticed leaf_receive.simps leaf_handler_defs fsm_step_eta]]) simp_all
  next
    case (TerminalRemovedAck tm)
    show ?thesis
      by (rule ends(1)[OF _ _ r[unfolded TerminalRemovedAck leaf_receive.simps leaf_handler_defs fsm_step_eta]]) simp_all
  next
    case (BindingRemoved tm)
    show ?thesis
      by (rule ends(1)[OF _ _ r[unfolded BindingRemoved leaf_receive.simps leaf_handler_defs fsm_step_eta]]) simp_all
  next
    case (BindingNoticed bd)
    show ?thesis
      by (rule ends(2)[OF _ _ r[unfolded BindingNoticed leaf_receive.simps leaf_handler_defs fsm_step_eta]]) simp_all
  next
    case (BindingRemovedAck bd)
    show ?thesis
      by (rule ends(2)[OF _ _ r[unfolded BindingRemovedAck leaf_receive.simps leaf_handler_defs fsm_step_eta]]) simp_all
  next
    case (TerminalRemoved bd)
    show ?thesis
      by (rule ends(2)[OF _ _ r[unfolded TerminalRemoved leaf_receive.simps leaf_handler_defs fsm_step_eta]]) simp_all
  next
    case (BindingEstablished bd)
    then have "lf_connection lf = Some True" using b conn by (simp add: from_peer_def)
    from node_message_ok[OF ok this r[unfolded BindingEstablished leaf_receive.simps leaf_handler_defs]]
    show ?thesis .
  next
    case (BindingReleased bd)
    then have "lf_connection lf = Some True" using b conn by (simp add: from_peer_def)
    from node_message_ok[OF ok this r[unfolded BindingReleased leaf_receive.simps leaf_handler_defs]]
    show ?thesis .
  qed (use r in simp_all)
qed

end

subsection \<open>Terminals and bindings\<close>

lemma insert_terminal_view:
  assumes ok: "regs_ok lf" and i: "ireg_insert x d (lf_terminals lf) = ((tm, inserted), r)"
    and lf1: "lf1 = lf\<lparr>lf_terminals := r\<rparr>"
  shows "\<not> inserted \<Longrightarrow> frame lf lf1"
    "inserted \<Longrightarrow> id_valid tm \<and> with_tview lf lf1 tm (Some (tdata (new_element x tm d)))"
proof -
  have tok: "ireg_ok (lf_terminals lf)" using ok by (simp add: regs_ok_def)
  note res = ireg_insert_result[OF tok i]
  show "frame lf lf1" if "\<not> inserted"
  proof -
    have "r = ireg_reserve (lf_terminals lf)" using res(1)[OF that] by blast
    then show ?thesis
      using ok lf1 ireg_reserve_ok[OF tok] by (simp add: frame_def regs_ok_def tview_def bview_def fun_eq_iff)
  qed
  show "id_valid tm \<and> with_tview lf lf1 tm (Some (tdata (new_element x tm d)))" if "inserted"
    using res(2)[OF that] ok unfolding lf1
    by (simp add: with_tview_def regs_ok_def tview_def bview_def fun_eq_iff)
qed

lemma insert_binding_view:
  assumes ok: "regs_ok lf" and i: "ireg_insert x d (lf_bindings lf) = ((bd, inserted), r)"
    and lf1: "lf1 = lf\<lparr>lf_bindings := r\<rparr>"
  shows "\<not> inserted \<Longrightarrow> frame lf lf1 \<and> (\<exists>v. bview lf bd = Some (x, False, v))"
    "inserted \<Longrightarrow> id_valid bd \<and> with_bview lf lf1 bd (Some (bdata (new_element x bd d)))"
proof -
  have tok: "ireg_ok (lf_bindings lf)" using ok by (simp add: regs_ok_def)
  note res = ireg_insert_result[OF tok i]
  show "frame lf lf1 \<and> (\<exists>v. bview lf bd = Some (x, False, v))" if old: "\<not> inserted"
  proof -
    obtain e where e: "find_ident (lf_bindings lf) x = Some e" "bd = el_id e" "r = ireg_reserve (lf_bindings lf)"
      using res(1)[OF old] by blast
    have "bview lf bd = Some (x, False, snd (snd (bdata e)))"
      using find_ident_Some[OF tok, of x e] e by (simp add: bview_def bdata_def)
    moreover have "frame lf lf1"
      using ok lf1 e ireg_reserve_ok[OF tok] by (simp add: frame_def regs_ok_def tview_def bview_def fun_eq_iff)
    ultimately show ?thesis by blast
  qed
  show "id_valid bd \<and> with_bview lf lf1 bd (Some (bdata (new_element x bd d)))" if "inserted"
    using res(2)[OF that] ok unfolding lf1
    by (simp add: with_bview_def regs_ok_def tview_def bview_def fun_eq_iff)
qed

lemma modify_terminal_tview:
  assumes "regs_ok lf" "modify_terminal tm g lf = Some lf'" "find_id (lf_terminals lf) tm = Some e"
  shows "with_tview lf lf' tm (Some (tdata (e\<lparr>el_data := g (el_data e)\<rparr>)))"
  using modify_terminal_view[OF assms(1,3), of g] assms(2) by auto

lemma modify_binding_bview:
  assumes "regs_ok lf" "modify_binding bd g lf = Some lf'" "find_id (lf_bindings lf) bd = Some e"
  shows "with_bview lf lf' bd (Some (bdata (e\<lparr>el_data := g (el_data e)\<rparr>)))"
  using modify_binding_view[OF assms(1,3), of g] assms(2) by auto

lemma reset_ok:
  "fsm_ok (fst (fsm_reset b f))" "\<not> fsm_destroyed (fst (fsm_reset b f))" "\<not> is_mapped (fst (fsm_reset b f))"
  "fst (fsm_reset True f) = fsm_init"
  by (simp_all add: fsm_reset_def fsm_ok_def fsm_destroyed_def is_mapped_def fsm_init_def)

lemma reset_call_Some:
  "reset_call b f = Some (f', outs, al) \<Longrightarrow> f' = fst (fsm_reset b f) \<and> set outs \<subseteq> {SendDesc}"
  by (auto simp: reset_call_def keep_def fsm_reset_def split: if_splits)

lemma est_after_desc: "set outs \<subseteq> {SendDesc} \<Longrightarrow> foldl (est_after conn) est outs = est"
  by (induction outs) (auto simp: est_after_def)

context leaf_virtuals begin

lemma on_new_terminal_ok:
  assumes ok: "leaf_ok lf" and u: "on_new_terminal h p x lf = Some (res, lf')"
  shows "leaf_ok lf'"
proof -
  obtain tm inserted r where i: "ireg_insert x (new_terminal_info h) (lf_terminals lf) = ((tm, inserted), r)"
    by (metis surj_pair)
  define lf1 where "lf1 = lf\<lparr>lf_terminals := r\<rparr>"
  note ins = insert_terminal_view[OF leaf_okD(1)[OF ok] i lf1_def]
  show ?thesis
  proof (cases inserted)
    case False
    then have "lf' = lf1" using u i by (simp add: on_new_terminal_def lf1_def)
    then show ?thesis using ins(1) False leaf_ok_frame[OF ok] by simp
  next
    case True
    have w1: "with_tview lf lf1 tm (Some (x, False, fsm_init, None))"
      using ins(2) True by (simp add: tdata_def new_terminal_info_def)
    then have ok1: "regs_ok lf1" and "tview lf1 tm = Some (x, False, fsm_init, None)"
      by (simp_all add: with_tview_def)
    then obtain e where e: "find_id (lf_terminals lf1) tm = Some e" "tdata e = (x, False, fsm_init, None)"
      by (auto simp: tview_def)
    obtain lf2 where lf2: "modify_terminal tm (\<lambda>t. t\<lparr>ti_terminal := Some p\<rparr>) lf1 = Some lf2"
      and rest: "(if lf_connection lf2 \<noteq> None
        then do { (_, lf') \<leftarrow> terminal_fsm h tm default_id (reset_call False) lf2; Some lf' }
        else Some lf2) = Some lf'"
      using u i True by (auto simp: on_new_terminal_def lf1_def bind_eq_Some_conv)
    have w2: "with_tview lf lf2 tm (Some (x, False, fsm_init, Some p))"
      using with_tview_trans[OF w1 modify_terminal_tview[OF ok1 lf2 e(1)]] e(2) by (simp add: tdata_def)
    have ok2: "regs_ok lf2" and v2: "tview lf2 tm = Some (x, False, fsm_init, Some p)"
      and c2: "lf_connection lf2 = lf_connection lf"
      using w2 by (simp_all add: with_tview_def)
    show ?thesis
    proof (cases "lf_connection lf")
      case None
      then have "lf' = lf2" using rest c2 by simp
      then show ?thesis
        using leaf_ok_with_tview[OF ok w2] None fsm_ok_init by (auto simp: terminal_ok_def)
    next
      case (Some node)
      then obtain b where f: "terminal_fsm h tm default_id (reset_call False) lf2 = Some (b, lf')"
        using rest c2 by (auto simp: bind_eq_Some_conv)
      obtain f' outs where "reset_call False fsm_init = Some (f', outs, b)"
        "with_tview lf2 lf' tm (Some (x, False, f', Some p))"
        using terminal_fsm_view[OF ok2 v2 f] .
      then have w3: "with_tview lf lf' tm (Some (x, False, fst (fsm_reset False fsm_init), Some p))"
        using with_tview_trans[OF w2] reset_call_Some by blast
      show ?thesis
        by (rule leaf_ok_with_tview[OF ok w3]) (auto simp: terminal_ok_def Some reset_ok)
    qed
  qed
qed

lemma on_terminal_destroyed_ok:
  assumes ok: "leaf_ok lf" and u: "on_terminal_destroyed h p tm lf = Some lf'"
    and alive: "tview lf tm = Some (x, False, f, q)"
  shows "leaf_ok lf'"
proof -
  note reg = leaf_okD(1)[OF ok]
  obtain e where e: "find_id (lf_terminals lf) tm = Some e" "tdata e = (x, False, f, q)"
    using alive by (auto simp: tview_def)
  obtain lf1 lf2 kp lf3 where lf1: "modify_terminal tm (\<lambda>t. t\<lparr>ti_terminal := None\<rparr>) lf = Some lf1"
    and lf2: "h_terminal_removed h p tm lf1 = Some lf2"
    and lf3: "(if lf_connection lf2 \<noteq> None
        then terminal_fsm h tm default_id process_object_destroyed lf2 else Some (False, lf2)) = Some (kp, lf3)"
    and last: "(if \<not> kp then erase_terminal tm lf3 else hide_terminal tm lf3) = Some lf'"
    using u unfolding on_terminal_destroyed_def
    by (auto elim!: bind_SomeE simp del: yassert_bind not_None_eq simp: case_prod_beta)
  have w1: "with_tview lf lf1 tm (Some (x, False, f, None))"
    using modify_terminal_tview[OF reg lf1 e(1)] e(2) by (simp add: tdata_def)
  have "frame lf1 lf2" by (rule terminal_removed[OF _ lf2]) (use w1 in \<open>simp add: with_tview_def\<close>)
  note w2 = with_tview_frame[OF w1 this]
  have ok2: "regs_ok lf2" and v2: "tview lf2 tm = Some (x, False, f, None)"
    and c2: "lf_connection lf2 = lf_connection lf"
    using w2 by (simp_all add: with_tview_def)
  have t: "terminal_ok (lf_connection lf) (x, False, f, q)" by (rule leaf_okD(2)[OF ok alive])
  have gone: "leaf_ok lf'" if w: "with_tview lf lf3 tm v" and "v \<noteq> None" "erase_terminal tm lf3 = Some lf'" for v lf3
  proof -
    have "regs_ok lf3" "tview lf3 tm \<noteq> None" using w that(2) by (simp_all add: with_tview_def)
    then have "with_tview lf3 lf' tm None" using erase_terminal_view[of lf3 tm] that(3) by auto
    note g = with_tview_trans[OF w this]
    show ?thesis by (rule leaf_ok_with_tview[OF ok g]) simp
  qed
  show ?thesis
  proof (cases "lf_connection lf")
    case None
    then show ?thesis using gone[OF w2] lf3 last c2 by simp
  next
    case (Some node)
    then have f3: "terminal_fsm h tm default_id (fsm_step Destroyed) lf2 = Some (kp, lf3)"
      using lf3 c2 by (simp add: fsm_step_eta)
    obtain f' outs where s: "fsm_step Destroyed f = Some (f', outs, kp)"
      and w3': "with_tview lf2 lf3 tm (Some (x, False, f', None))"
      using terminal_fsm_view[OF ok2 v2 f3] .
    note w3 = with_tview_trans[OF w2 w3']
    show ?thesis
    proof (cases kp)
      case False
      then show ?thesis using gone[OF w3] last by simp
    next
      case True
      have "regs_ok lf3" "tview lf3 tm = Some (x, False, f', None)" using w3 by (simp_all add: with_tview_def)
      then have "with_tview lf3 lf' tm (Some (x, True, f', None))"
        using hide_terminal_view[of lf3 tm x False f' None] last True by auto
      note g = with_tview_trans[OF w3 this]
      have "fsm_ok f'" using fsm_step_ok[OF s] t by (simp add: terminal_ok_def)
      then show ?thesis
        using leaf_ok_with_tview[OF ok g] fsm_destroyed_Destroyed(2)[OF s True] Some
        by (auto simp: terminal_ok_def)
    qed
  qed
qed

lemma on_new_binding_ok:
  assumes ok: "leaf_ok lf" and u: "on_new_binding h b x lf = Some (bd, lf')"
  shows "leaf_ok lf'"
proof -
  note reg = leaf_okD(1)[OF ok]
  obtain i inserted r where i: "ireg_insert x (new_binding_info h) (lf_bindings lf) = ((i, inserted), r)"
    by (metis surj_pair)
  define lf0 where "lf0 = lf\<lparr>lf_bindings := r\<rparr>"
  note ins = insert_binding_view[OF reg i lf0_def]
  obtain lf1 where lf1: "modify_binding i (\<lambda>b'. b'\<lparr>bi_bindings := bi_bindings b' @ [b]\<rparr>) lf0 = Some lf1"
    using u i by (auto simp: on_new_binding_def lf0_def bind_eq_Some_conv)
  obtain v0 where v0: "with_bview lf lf0 i (Some v0)"
    and v0': "if inserted then v0 = (x, False, fsm_init, False, []) else bview lf i = Some v0 \<and> fst v0 = x \<and> \<not> fst (snd v0)"
  proof (cases inserted)
    case True
    then show ?thesis using that ins(2) by (auto simp: bdata_def new_binding_info_def)
  next
    case False
    then obtain v where "frame lf lf0" "bview lf i = Some (x, False, v)" using ins(1) by blast
    then show ?thesis using that[of "(x, False, v)"] frame_as_bview[of lf lf0 i] False by auto
  qed
  obtain f est bs where v0'': "v0 = (x, False, f, est, bs)"
    using v0' by (cases v0) (auto split: if_splits)
  have ok0: "regs_ok lf0" and b0: "bview lf0 i = Some v0" using v0 by (simp_all add: with_bview_def)
  then obtain e where e: "find_id (lf_bindings lf0) i = Some e" "bdata e = v0" by (auto simp: bview_def)
  have w1: "with_bview lf lf1 i (Some (x, False, f, est, bs @ [b]))"
    using with_bview_trans[OF v0 modify_binding_bview[OF ok0 lf1 e(1)]] e(2) v0'' by (simp add: bdata_def)
  have ok1: "regs_ok lf1" and b1: "bview lf1 i = Some (x, False, f, est, bs @ [b])"
    and c1: "lf_connection lf1 = lf_connection lf"
    using w1 by (simp_all add: with_bview_def)
  then obtain info where info: "get_binding_info lf1 i = Some info" "bi_bindings info = bs @ [b]" "bi_established info = est"
    by (auto simp: bview_def bdata_def get_binding_info_def)
  have old: "binding_ok (lf_connection lf) v0 \<and> bs \<noteq> []" if "\<not> inserted"
    using leaf_okD(3)[OF ok] v0' v0'' that by (fastforce simp: binding_ok_def)
  have new: "f = fsm_init \<and> est = False \<and> bs = []" if inserted using that v0' v0'' by simp
  show ?thesis
  proof (cases "lf_connection lf \<noteq> None \<and> inserted")
    case True
    then obtain al where f2: "binding_fsm h i default_id (reset_call False) lf1 = Some (al, lf')"
      using u i lf1 info c1 new by (auto simp: on_new_binding_def lf0_def bind_eq_Some_conv)
    obtain f' outs where r': "reset_call False f = Some (f', outs, al)"
      and w2': "with_bview lf1 lf' i (Some (x, False, f', foldl (est_after (lf_connection lf1)) est outs, bs @ [b]))"
      using binding_fsm_view[OF ok1 b1 f2] .
    have w2: "with_bview lf lf' i (Some (x, False, fst (fsm_reset False f), False, [b]))"
      using with_bview_trans[OF w1 w2'] reset_call_Some[OF r'] est_after_desc[of outs] new True by simp
    show ?thesis
      by (rule leaf_ok_with_bview[OF ok w2])
        (use True in \<open>auto simp: binding_ok_def reset_ok established_ok_def split: option.splits\<close>)
  next
    case False
    have "lf' = lf1 \<or> lf' = emit (Binding_State (br_addr b) True) lf1"
      using u i lf1 info c1 False old
      by (auto simp: on_new_binding_def lf0_def split: if_splits)
    then have "frame lf1 lf'" using ok1 frame_refl emit_frame by blast
    note w2 = with_bview_frame[OF w1 this]
    show ?thesis
      by (rule leaf_ok_with_bview[OF ok w2])
        (use False old new v0'' fsm_ok_init in \<open>cases inserted; auto simp: binding_ok_def split: option.splits\<close>)
  qed
qed

lemma on_binding_destroyed_ok:
  assumes ok: "leaf_ok lf" and u: "on_binding_destroyed h b bd lf = Some lf'"
  shows "leaf_ok lf'"
proof -
  note reg = leaf_okD(1)[OF ok]
  obtain info lf1 lf2 info2 where info: "get_binding_info lf bd = Some info" "b \<in> set (bi_bindings info)"
    and lf1: "modify_binding bd (\<lambda>b'. b'\<lparr>bi_bindings := remove1 b (bi_bindings b')\<rparr>) lf = Some lf1"
    and lf2: "h_binding_removed h b bd lf1 = Some lf2"
    and info2: "get_binding_info lf2 bd = Some info2"
    and rest: "(if bi_bindings info2 \<noteq> [] then Some lf2
     else do {
       (keepEntry, lf3) \<leftarrow> (if lf_connection lf2 \<noteq> None
          then binding_fsm h bd default_id process_object_destroyed lf2 else Some (False, lf2));
       if \<not> keepEntry then erase_binding bd lf3 else hide_binding bd lf3 }) = Some lf'"
    using u unfolding on_binding_destroyed_def
    by (auto elim!: bind_SomeE simp del: yassert_bind not_None_eq)
  obtain e where e: "find_id (lf_bindings lf) bd = Some e" "el_data e = info"
    using info(1) by (auto simp: get_binding_info_def)
  define x hid f est bs where d: "x = el_ident e" "hid = el_hidden e" "f = bi_fsm info" "est = bi_established info"
    "bs = bi_bindings info"
  have v: "bview lf bd = Some (x, hid, f, est, bs)" using e by (simp add: bview_def bdata_def d)
  have t: "binding_ok (lf_connection lf) (x, hid, f, est, bs)" by (rule leaf_okD(3)[OF ok v])
  have nh: "\<not> hid" using t info(2) d by (auto simp: binding_ok_def)
  have w1: "with_bview lf lf1 bd (Some (x, hid, f, est, remove1 b bs))"
    using modify_binding_bview[OF reg lf1 e(1)] e(2) by (simp add: bdata_def d)
  have "frame lf1 lf2" by (rule binding_removed[OF _ lf2]) (use w1 in \<open>simp add: with_bview_def\<close>)
  note w2 = with_bview_frame[OF w1 this]
  have ok2: "regs_ok lf2" and v2: "bview lf2 bd = Some (x, hid, f, est, remove1 b bs)"
    and c2: "lf_connection lf2 = lf_connection lf"
    using w2 by (simp_all add: with_bview_def)
  have bs2: "bi_bindings info2 = remove1 b bs"
    using info2 v2 by (auto simp: get_binding_info_def bview_def bdata_def)
  have gone: "leaf_ok lf'" if w: "with_bview lf lf3 bd w'" and "w' \<noteq> None" "erase_binding bd lf3 = Some lf'" for w' lf3
  proof -
    have "regs_ok lf3" "bview lf3 bd \<noteq> None" using w that(2) by (simp_all add: with_bview_def)
    then have "with_bview lf3 lf' bd None" using erase_binding_view[of lf3 bd] that(3) by auto
    note g = with_bview_trans[OF w this]
    show ?thesis by (rule leaf_ok_with_bview[OF ok g]) simp
  qed
  show ?thesis
  proof (cases "remove1 b bs = []")
    case False
    then have "lf' = lf2" using rest bs2 by simp
    then show ?thesis
      using leaf_ok_with_bview[OF ok w2] t nh False by (auto simp: binding_ok_def split: option.splits)
  next
    case True
    show ?thesis
    proof (cases "lf_connection lf")
      case None
      then show ?thesis using gone[OF w2] rest bs2 True c2 by simp
    next
      case (Some node)
      then obtain kp lf3 where f3: "binding_fsm h bd default_id (fsm_step Destroyed) lf2 = Some (kp, lf3)"
        and last: "(if \<not> kp then erase_binding bd lf3 else hide_binding bd lf3) = Some lf'"
        using rest bs2 True c2 by (auto simp: bind_eq_Some_conv fsm_step_eta simp del: fsm_step.simps)
      obtain f' outs where s: "fsm_step Destroyed f = Some (f', outs, kp)"
        and w3': "with_bview lf2 lf3 bd (Some (x, hid, f', foldl (est_after (lf_connection lf2)) est outs, remove1 b bs))"
        using binding_fsm_view[OF ok2 v2 f3] .
      have w3: "with_bview lf lf3 bd (Some (x, False, f', est, []))"
        using with_bview_trans[OF w2 w3'] fsm_destroyed_Destroyed(3)[OF s] True nh by simp
      show ?thesis
      proof (cases kp)
        case False
        then show ?thesis using gone[OF w3] last by simp
      next
        case True
        have "regs_ok lf3" "bview lf3 bd = Some (x, False, f', est, [])" using w3 by (simp_all add: with_bview_def)
        then have "with_bview lf3 lf' bd (Some (x, True, f', est, []))"
          using hide_binding_view[of lf3 bd x False f' est "[]"] last True by auto
        note g = with_bview_trans[OF w3 this]
        have "fsm_ok f'" using fsm_step_ok[OF s] t by (simp add: binding_ok_def)
        then show ?thesis
          using leaf_ok_with_bview[OF ok g] fsm_destroyed_Destroyed(2)[OF s True] Some
          by (auto simp: binding_ok_def)
      qed
    qed
  qed
qed

end

subsection \<open>Connections\<close>

lemma terminal_ids:
  assumes "regs_ok lf"
  shows "distinct (ireg_ids (lf_terminals lf))" "i \<in> set (ireg_ids (lf_terminals lf)) \<longleftrightarrow> tview lf i \<noteq> None"
  using assms sorted_ireg_ids[of "lf_terminals lf"] strict_sorted_iff set_ireg_ids[of "lf_terminals lf" i]
  by (auto simp: regs_ok_def tview_def)

lemma binding_ids:
  assumes "regs_ok lf"
  shows "distinct (ireg_ids (lf_bindings lf))" "i \<in> set (ireg_ids (lf_bindings lf)) \<longleftrightarrow> bview lf i \<noteq> None"
  using assms sorted_ireg_ids[of "lf_bindings lf"] strict_sorted_iff set_ireg_ids[of "lf_bindings lf" i]
  by (auto simp: regs_ok_def bview_def)

fun reset_terminal :: "bool \<Rightarrow> tview \<Rightarrow> tview" where
  "reset_terminal b (x, hid, f, p) = (x, hid, fst (fsm_reset b f), p)"

fun reset_binding :: "bview \<Rightarrow> bview" where
  "reset_binding (x, hid, f, est, bs) = (x, hid, fst (fsm_reset False f), est, bs)"

fun release_binding :: "bview \<Rightarrow> bview" where
  "release_binding (x, hid, f, est, bs) = (x, hid, f, False, bs)"

definition unless_hidden :: "('a \<times> bool \<times> 'b) option \<Rightarrow> ('a \<times> bool \<times> 'b) option" where
  "unless_hidden v = (case v of Some (x, hid, r) \<Rightarrow> if hid then None else v | None \<Rightarrow> None)"

context leaf_virtuals begin

lemma on_connection_started_ok:
  assumes ok: "leaf_ok lf" and u: "on_connection_started h node lf = Some lf'"
  shows "leaf_ok lf'"
proof -
  define lf0 where "lf0 = lf\<lparr>lf_connection := Some node\<rparr>"
  define tbody where "tbody = (\<lambda>tm lf. do {
         e \<leftarrow> find_id (lf_terminals lf) tm;
         yassert (\<not> el_hidden e);
         (_, lf') \<leftarrow> terminal_fsm h tm default_id (reset_call (\<not> node)) lf;
         Some lf' })"
  define bbody where "bbody = (\<lambda>bd lf. do {
         e \<leftarrow> find_id (lf_bindings lf) bd;
         yassert (\<not> el_hidden e);
         (_, lf') \<leftarrow> binding_fsm h bd default_id (reset_call False) lf;
         Some lf' })"
  obtain lf1 where none: "lf_connection lf = None"
    and l1: "for_each (ireg_ids (lf_terminals lf0)) tbody lf0 = Some lf1"
    and l2: "for_each (ireg_ids (lf_bindings lf1)) bbody lf1 = Some lf'"
    using u unfolding on_connection_started_def Let_def lf0_def tbody_def bbody_def
    by (auto elim!: bind_SomeE simp del: yassert_bind not_None_eq)
  have t0: "tview lf0 = tview lf" "bview lf0 = bview lf" "regs_ok lf0" "lf_connection lf0 = Some node"
    using leaf_okD(1)[OF ok] by (simp_all add: lf0_def tview_def bview_def regs_ok_def fun_eq_iff)
  define P where "P u \<longleftrightarrow> regs_ok u \<and> lf_connection u = Some node \<and> bview u = bview lf" for u :: "('te, 'be, 'x) leaf"
  have L1: "P lf1 \<and> tview lf1 = (\<lambda>i. if i \<in> set (ireg_ids (lf_terminals lf0))
      then map_option (reset_terminal (\<not> node)) (tview lf0 i) else tview lf0 i)"
  proof (rule for_each_pointwise[OF l1 terminal_ids(1)[OF t0(3)]])
    show "P lf0" using t0 by (simp add: P_def)
    fix tm u u'
    assume "P u" and b: "tbody tm u = Some u'"
    then have Pu: "regs_ok u" "lf_connection u = Some node" "bview u = bview lf" by (simp_all add: P_def)
    obtain e al where e: "find_id (lf_terminals u) tm = Some e"
      and f: "terminal_fsm h tm default_id (reset_call (\<not> node)) u = Some (al, u')"
      using b by (auto simp: tbody_def elim!: bind_SomeE simp del: yassert_bind)
    obtain x hid fs p where v: "tview u tm = Some (x, hid, fs, p)" using e by (auto simp: tview_def tdata_def)
    obtain f' outs where r: "reset_call (\<not> node) fs = Some (f', outs, al)"
      and w: "with_tview u u' tm (Some (x, hid, f', p))"
      using terminal_fsm_view[OF Pu(1) v f] .
    have "f' = fst (fsm_reset (\<not> node) fs)" using reset_call_Some[OF r] by simp
    with w v show "P u' \<and> tview u' = (tview u)(tm := map_option (reset_terminal (\<not> node)) (tview u tm))"
      by (simp add: with_tview_def P_def Pu)
  qed
  then have ok1: "regs_ok lf1" "lf_connection lf1 = Some node" "bview lf1 = bview lf" by (simp_all add: P_def)
  have t1: "tview lf1 i = map_option (reset_terminal (\<not> node)) (tview lf i)" for i
    using L1 terminal_ids(2)[OF t0(3), of i] t0(1) by (cases "tview lf i") simp_all
  define Q where "Q u \<longleftrightarrow> regs_ok u \<and> lf_connection u = Some node \<and> tview u = tview lf1" for u :: "('te, 'be, 'x) leaf"
  have L2: "Q lf' \<and> bview lf' = (\<lambda>i. if i \<in> set (ireg_ids (lf_bindings lf1))
      then map_option reset_binding (bview lf1 i) else bview lf1 i)"
  proof (rule for_each_pointwise[OF l2 binding_ids(1)[OF ok1(1)]])
    show "Q lf1" using ok1 by (simp add: Q_def)
    fix bd u u'
    assume "Q u" and b: "bbody bd u = Some u'"
    then have Qu: "regs_ok u" "lf_connection u = Some node" "tview u = tview lf1" by (simp_all add: Q_def)
    obtain e al where e: "find_id (lf_bindings u) bd = Some e"
      and f: "binding_fsm h bd default_id (reset_call False) u = Some (al, u')"
      using b by (auto simp: bbody_def elim!: bind_SomeE simp del: yassert_bind)
    obtain x hid fs est bs where v: "bview u bd = Some (x, hid, fs, est, bs)" using e by (auto simp: bview_def bdata_def)
    obtain f' outs where r: "reset_call False fs = Some (f', outs, al)"
      and w: "with_bview u u' bd (Some (x, hid, f', foldl (est_after (lf_connection u)) est outs, bs))"
      using binding_fsm_view[OF Qu(1) v f] .
    have "f' = fst (fsm_reset False fs)" "foldl (est_after (lf_connection u)) est outs = est"
      using reset_call_Some[OF r] est_after_desc by simp_all
    with w v show "Q u' \<and> bview u' = (bview u)(bd := map_option reset_binding (bview u bd))"
      by (simp add: with_bview_def Q_def Qu)
  qed
  have b2: "bview lf' i = map_option reset_binding (bview lf i)" for i
    using L2 binding_ids(2)[OF ok1(1), of i] ok1(3) by (cases "bview lf i") simp_all
  show ?thesis
    unfolding leaf_ok_def
  proof (intro conjI allI impI)
    show "regs_ok lf'" using L2 by (simp add: Q_def)
    fix i
    show "terminal_ok (lf_connection lf') v" if v: "tview lf' i = Some v" for v
    proof -
      obtain w where w: "tview lf i = Some w" "v = reset_terminal (\<not> node) w"
        using v L2 t1[of i] unfolding Q_def by (cases "tview lf i") simp_all
      have "terminal_ok None w" using leaf_okD(2)[OF ok w(1)] none by simp
      then show ?thesis using w(2) L2 by (cases w) (auto simp: terminal_ok_def Q_def reset_ok)
    qed
    show "binding_ok (lf_connection lf') v" if v: "bview lf' i = Some v" for v
    proof -
      obtain w where w: "bview lf i = Some w" "v = reset_binding w"
        using v b2[of i] by (cases "bview lf i") simp_all
      have "binding_ok None w" using leaf_okD(3)[OF ok w(1)] none by simp
      then show ?thesis
        using w(2) L2 by (cases w) (auto simp: binding_ok_def Q_def reset_ok established_ok_def)
    qed
  qed
qed

lemma on_connection_destroyed_ok:
  assumes ok: "leaf_ok lf" and u: "on_connection_destroyed h lf = Some lf'"
  shows "leaf_ok lf' \<and> lf_connection lf' = None"
proof -
  define lf0 where "lf0 = lf\<lparr>lf_connection := None\<rparr>"
  obtain node where node: "lf_connection lf = Some node"
    using u by (auto simp: on_connection_destroyed_def split: if_splits)
  define body1 where "body1 = (\<lambda>tm (lf :: ('te, 'be, 'x) leaf). do {
         e \<leftarrow> find_id (lf_terminals lf) tm;
         if el_hidden e then erase_terminal tm lf else Some lf })"
  define body2 where "body2 = (\<lambda>bd (lf :: ('te, 'be, 'x) leaf). do {
         e \<leftarrow> find_id (lf_bindings lf) bd;
         if el_hidden e then erase_binding bd lf else Some lf })"
  define body3 where "body3 = (\<lambda>bd. update_binding_state h bd False)"
  define body4 where "body4 = (\<lambda>tm lf. do {
         info \<leftarrow> get_terminal_info lf tm;
         lf' \<leftarrow> modify_terminal tm (\<lambda>t. t\<lparr>ti_fsm := fst (fsm_reset True (ti_fsm t))\<rparr>) lf;
         if is_mapped (ti_fsm info) then h_terminal_mapping_changed h False tm lf' else Some lf' })"
  obtain lf1 lf2 lf3 where l1: "for_each (ireg_ids (lf_terminals lf0)) body1 lf0 = Some lf1"
    and l2: "for_each (ireg_ids (lf_bindings lf1)) body2 lf1 = Some lf2"
    and l3: "for_each (ireg_ids (lf_bindings lf2)) body3 lf2 = Some lf3"
    and l4: "for_each (ireg_ids (lf_terminals lf3)) body4 lf3 = Some lf'"
    using u unfolding on_connection_destroyed_def Let_def lf0_def body1_def body2_def body3_def body4_def
    by (auto elim!: bind_SomeE simp del: yassert_bind not_None_eq)
  have t0: "tview lf0 = tview lf" "bview lf0 = bview lf" "regs_ok lf0" "lf_connection lf0 = None"
    using leaf_okD(1)[OF ok] by (simp_all add: lf0_def tview_def bview_def regs_ok_def fun_eq_iff)
  define P where "P b u \<longleftrightarrow> regs_ok u \<and> lf_connection u = None \<and> bview u = b" for b and u :: "('te, 'be, 'x) leaf"
  define Q where "Q t u \<longleftrightarrow> regs_ok u \<and> lf_connection u = None \<and> tview u = t" for t and u :: "('te, 'be, 'x) leaf"
  have L1: "P (bview lf) lf1 \<and> tview lf1 = (\<lambda>i. if i \<in> set (ireg_ids (lf_terminals lf0))
      then unless_hidden (tview lf0 i) else tview lf0 i)"
  proof (rule for_each_pointwise[OF l1 terminal_ids(1)[OF t0(3)]])
    show "P (bview lf) lf0" using t0 by (simp add: P_def)
    fix tm u u'
    assume "P (bview lf) u" and b: "body1 tm u = Some u'"
    then have Pu: "regs_ok u" "lf_connection u = None" "bview u = bview lf" by (simp_all add: P_def)
    obtain e where e: "find_id (lf_terminals u) tm = Some e"
      using b by (auto simp: body1_def elim!: bind_SomeE)
    then have v: "tview u tm = Some (tdata e)" by (simp add: tview_def)
    show "P (bview lf) u' \<and> tview u' = (tview u)(tm := unless_hidden (tview u tm))"
    proof (cases "el_hidden e")
      case True
      then have "with_tview u u' tm None"
        using erase_terminal_view[OF Pu(1), of tm] b e v by (auto simp: body1_def)
      then show ?thesis using v True Pu by (simp add: with_tview_def P_def unless_hidden_def tdata_def)
    next
      case False
      then have "u' = u" using b e by (simp add: body1_def)
      then show ?thesis using v False Pu by (simp add: P_def unless_hidden_def tdata_def fun_upd_idem)
    qed
  qed
  then have ok1: "regs_ok lf1" "lf_connection lf1 = None" "bview lf1 = bview lf" by (simp_all add: P_def)
  have t1: "tview lf1 i = unless_hidden (tview lf i)" for i
    using L1 terminal_ids(2)[OF t0(3), of i] t0(1) by (cases "tview lf i") (simp_all add: unless_hidden_def)
  have L2: "Q (tview lf1) lf2 \<and> bview lf2 = (\<lambda>i. if i \<in> set (ireg_ids (lf_bindings lf1))
      then unless_hidden (bview lf1 i) else bview lf1 i)"
  proof (rule for_each_pointwise[OF l2 binding_ids(1)[OF ok1(1)]])
    show "Q (tview lf1) lf1" using ok1 by (simp add: Q_def)
    fix bd u u'
    assume "Q (tview lf1) u" and b: "body2 bd u = Some u'"
    then have Qu: "regs_ok u" "lf_connection u = None" "tview u = tview lf1" by (simp_all add: Q_def)
    obtain e where e: "find_id (lf_bindings u) bd = Some e"
      using b by (auto simp: body2_def elim!: bind_SomeE)
    then have v: "bview u bd = Some (bdata e)" by (simp add: bview_def)
    show "Q (tview lf1) u' \<and> bview u' = (bview u)(bd := unless_hidden (bview u bd))"
    proof (cases "el_hidden e")
      case True
      then have "with_bview u u' bd None"
        using erase_binding_view[OF Qu(1), of bd] b e v by (auto simp: body2_def)
      then show ?thesis using v True Qu by (simp add: with_bview_def Q_def unless_hidden_def bdata_def)
    next
      case False
      then have "u' = u" using b e by (simp add: body2_def)
      then show ?thesis using v False Qu by (simp add: Q_def unless_hidden_def bdata_def fun_upd_idem)
    qed
  qed
  then have ok2: "regs_ok lf2" "lf_connection lf2 = None" "tview lf2 = tview lf1" by (simp_all add: Q_def)
  have b2: "bview lf2 i = unless_hidden (bview lf i)" for i
    using L2 binding_ids(2)[OF ok1(1), of i] ok1(3) by (cases "bview lf i") (simp_all add: unless_hidden_def)
  have L3: "Q (tview lf1) lf3 \<and> bview lf3 = (\<lambda>i. if i \<in> set (ireg_ids (lf_bindings lf2))
      then map_option release_binding (bview lf2 i) else bview lf2 i)"
  proof (rule for_each_pointwise[OF l3 binding_ids(1)[OF ok2(1)]])
    show "Q (tview lf1) lf2" using ok2 by (simp add: Q_def)
    fix bd u u'
    assume "Q (tview lf1) u" and b: "body3 bd u = Some u'"
    then have Qu: "regs_ok u" "lf_connection u = None" "tview u = tview lf1" by (simp_all add: Q_def)
    obtain x hid f est bs where v: "bview u bd = Some (x, hid, f, est, bs)"
      using b by (auto simp: body3_def update_binding_state_def get_binding_info_def bview_def bdata_def
          elim!: bind_SomeE)
    show "Q (tview lf1) u' \<and> bview u' = (bview u)(bd := map_option release_binding (bview u bd))"
      using update_binding_state_view[OF Qu(1) v b[unfolded body3_def]] v Qu by (simp add: with_bview_def Q_def)
  qed
  then have ok3: "regs_ok lf3" "lf_connection lf3 = None" "tview lf3 = tview lf1" by (simp_all add: Q_def)
  have b3: "bview lf3 i = map_option release_binding (unless_hidden (bview lf i))" for i
    using L3 binding_ids(2)[OF ok2(1), of i] b2[of i] by (cases "unless_hidden (bview lf i)") simp_all
  have L4: "P (bview lf3) lf' \<and> tview lf' = (\<lambda>i. if i \<in> set (ireg_ids (lf_terminals lf3))
      then map_option (reset_terminal True) (tview lf3 i) else tview lf3 i)"
  proof (rule for_each_pointwise[OF l4 terminal_ids(1)[OF ok3(1)]])
    show "P (bview lf3) lf3" using ok3 by (simp add: P_def)
    fix tm u u'
    assume "P (bview lf3) u" and b: "body4 tm u = Some u'"
    then have Pu: "regs_ok u" "lf_connection u = None" "bview u = bview lf3" by (simp_all add: P_def)
    obtain info u1 where i: "get_terminal_info u tm = Some info"
      and u1: "modify_terminal tm (\<lambda>t. t\<lparr>ti_fsm := fst (fsm_reset True (ti_fsm t))\<rparr>) u = Some u1"
      and u2: "(if is_mapped (ti_fsm info) then h_terminal_mapping_changed h False tm u1 else Some u1) = Some u'"
      using b by (auto simp: body4_def elim!: bind_SomeE)
    obtain e where e: "find_id (lf_terminals u) tm = Some e" using i by (auto simp: get_terminal_info_def)
    have w: "with_tview u u1 tm (map_option (reset_terminal True) (tview u tm))"
      using modify_terminal_tview[OF Pu(1) u1 e] e by (simp add: tview_def tdata_def)
    have "frame u1 u'"
      using u2 terminal_mapping[of u1 False tm u'] frame_refl[of u1] w by (auto simp: with_tview_def split: if_splits)
    from with_tview_frame[OF w this]
    show "P (bview lf3) u' \<and> tview u' = (tview u)(tm := map_option (reset_terminal True) (tview u tm))"
      by (simp add: with_tview_def P_def Pu)
  qed
  have t4: "tview lf' i = map_option (reset_terminal True) (unless_hidden (tview lf i))" for i
    using L4 terminal_ids(2)[OF ok3(1), of i] ok3(3) t1[of i] by (cases "unless_hidden (tview lf i)") simp_all
  have c4: "lf_connection lf' = None" "regs_ok lf'" "bview lf' = bview lf3" using L4 by (simp_all add: P_def)
  show ?thesis
    unfolding leaf_ok_def
  proof (intro conjI allI impI c4)
    fix i
    show "terminal_ok (lf_connection lf') v" if v: "tview lf' i = Some v" for v
    proof -
      obtain w where w: "tview lf i = Some w" "v = reset_terminal True w" "\<not> fst (snd w)"
        using v t4[of i] by (auto simp: unless_hidden_def split: option.splits if_splits)
      have "terminal_ok (Some node) w" using leaf_okD(2)[OF ok w(1)] node by simp
      then show ?thesis using w(2,3) c4(1) by (cases w) (auto simp: terminal_ok_def reset_ok fsm_ok_init)
    qed
    show "binding_ok (lf_connection lf') v" if v: "bview lf' i = Some v" for v
    proof -
      obtain w where w: "bview lf i = Some w" "v = release_binding w" "\<not> fst (snd w)"
        using v b3[of i] c4(3) by (auto simp: unless_hidden_def split: option.splits if_splits)
      have "binding_ok (Some node) w" using leaf_okD(3)[OF ok w(1)] node by simp
      then show ?thesis using w(2,3) c4(1) by (cases w) (auto simp: binding_ok_def)
    qed
  qed
qed

end

end
