(* ===== verification/Leaf_Classes.thy ===== *)
theory Leaf_Classes
  imports Leaf_Invariant
begin

text \<open>
  The leaf logic of the terminal classes: \<^verbatim>\<open>deaf_mute\<close> (also the base of every other class), the
  subscribable classes built on publish-subscribe, with and without a cache, in
  \<^verbatim>\<open>core/common/SubscribableLeafLogicBaseT.hpp\<close>, \<^verbatim>\<open>core/common/PublishSubscribeLeafLogicBaseT.hpp\<close>
  and \<^verbatim>\<open>core/cached_publish_subscribe/LeafLogic.hpp\<close>.  Producer-consumer and master-slave terminals
  instantiate the same templates.
\<close>

section \<open>DeafMute\<close>

type_synonym plain_leaf = "(unit, unit, unit) leaf"

definition deaf_mute_hooks :: "(unit, unit, unit) leaf_hooks" where
  "deaf_mute_hooks = \<lparr>h_terminal_ext = (), h_binding_ext = (),
     h_terminal_mapping_changed = (\<lambda>isMapped tm lf. Some lf),
     h_terminal_removed = (\<lambda>p tm lf. Some lf),
     h_group_mapping_changed = (\<lambda>isMapped bd lf. Some lf),
     h_binding_removed = (\<lambda>b bd lf. Some lf)\<rparr>"

section \<open>Subscribable terminals\<close>

definition publish_subscription_state ::
  "bool \<Rightarrow> id \<Rightarrow> ('te, 'be, 'x) leaf \<Rightarrow> ('te, 'be, 'x) leaf option" where
  "publish_subscription_state subscribed tm lf = do {
     info \<leftarrow> get_terminal_info lf tm;
     case ti_terminal info of None \<Rightarrow> Some lf | Some p \<Rightarrow> Some (emit (Subscription_State p subscribed) lf) }"

text \<open>\<open>on_sub\<close> and \<open>on_unsub\<close> are the virtual functions \<^verbatim>\<open>on_subscribed\<close> and \<^verbatim>\<open>on_unsubscribed\<close>.\<close>

definition sub_terminal_mapping_changed ::
  "(id \<Rightarrow> ('te, 'be, 'x) leaf \<Rightarrow> ('te, 'be, 'x) leaf option) \<Rightarrow> (id \<Rightarrow> ('te, 'be, 'x) leaf \<Rightarrow> ('te, 'be, 'x) leaf option) \<Rightarrow>
   bool \<Rightarrow> id \<Rightarrow> ('te, 'be, 'x) leaf \<Rightarrow> ('te, 'be, 'x) leaf option" where
  "sub_terminal_mapping_changed on_sub on_unsub isMapped tm lf = do {
     info \<leftarrow> get_terminal_info lf tm;
     if \<not> isMapped then
       if ti_subscribed info then do {
         lf1 \<leftarrow> modify_terminal tm (\<lambda>t. t\<lparr>ti_subscribed := False\<rparr>) lf; on_unsub tm lf1 }
       else Some lf
     else do {
       node \<leftarrow> leaf_remote_is_node lf;
       if node then modify_terminal tm (\<lambda>t. t\<lparr>ti_subscribed := False\<rparr>) lf
       else do { lf1 \<leftarrow> modify_terminal tm (\<lambda>t. t\<lparr>ti_subscribed := True\<rparr>) lf; on_sub tm lf1 } } }"

definition on_Subscribe ::
  "(id \<Rightarrow> ('te, 'be, 'x) leaf \<Rightarrow> ('te, 'be, 'x) leaf option) \<Rightarrow> id \<Rightarrow> ('te, 'be, 'x) leaf \<Rightarrow> ('te, 'be, 'x) leaf option" where
  "on_Subscribe on_sub tm lf = do {
     node \<leftarrow> leaf_remote_is_node lf; yassert node;
     info \<leftarrow> get_terminal_info lf tm; yassert (\<not> ti_subscribed info);
     lf1 \<leftarrow> modify_terminal tm (\<lambda>t. t\<lparr>ti_subscribed := True\<rparr>) lf;
     on_sub tm lf1 }"

definition on_Unsubscribe ::
  "(id \<Rightarrow> ('te, 'be, 'x) leaf \<Rightarrow> ('te, 'be, 'x) leaf option) \<Rightarrow> id \<Rightarrow> ('te, 'be, 'x) leaf \<Rightarrow> ('te, 'be, 'x) leaf option" where
  "on_Unsubscribe on_unsub tm lf = do {
     node \<leftarrow> leaf_remote_is_node lf; yassert node;
     info \<leftarrow> get_terminal_info lf tm; yassert (ti_subscribed info);
     lf1 \<leftarrow> modify_terminal tm (\<lambda>t. t\<lparr>ti_subscribed := False\<rparr>) lf;
     on_unsub tm lf1 }"

section \<open>PublishSubscribe\<close>

definition publish_subscribe_hooks :: "(unit, unit, unit) leaf_hooks" where
  "publish_subscribe_hooks = \<lparr>h_terminal_ext = (), h_binding_ext = (),
     h_terminal_mapping_changed =
       sub_terminal_mapping_changed (publish_subscription_state True) (publish_subscription_state False),
     h_terminal_removed = (\<lambda>p tm lf. Some lf),
     h_group_mapping_changed = (\<lambda>isMapped bd lf. Some lf),
     h_binding_removed = (\<lambda>b bd lf. Some lf)\<rparr>"

text \<open>Data goes to the terminal of the first binding in the group; \<open>cached\<close> tells cached data apart.\<close>

definition deliver_data :: "bool \<Rightarrow> id \<Rightarrow> buffer \<Rightarrow> ('te, 'be, 'x) leaf \<Rightarrow> ('te, 'be, 'x) leaf option" where
  "deliver_data cached tm d lf = do {
     info \<leftarrow> get_terminal_info lf tm; p \<leftarrow> ti_terminal info;
     Some (emit (Data_Received p d cached) lf) }"

definition on_Data ::
  "(id \<Rightarrow> buffer \<Rightarrow> ('te, 'be, 'x) leaf \<Rightarrow> ('te, 'be, 'x) leaf option) \<Rightarrow> id \<Rightarrow> buffer \<Rightarrow>
   ('te, 'be, 'x) leaf \<Rightarrow> ('te, 'be, 'x) leaf option" where
  "on_Data on_data_received subscriptionId d lf = do {
     info \<leftarrow> get_binding_info lf subscriptionId;
     case bi_bindings info of [] \<Rightarrow> Some lf
     | b # _ \<Rightarrow> on_data_received (br_terminal b) d lf }"

definition publish ::
  "(id \<Rightarrow> buffer \<Rightarrow> ('te, 'be, 'x) leaf \<Rightarrow> ('te, 'be, 'x) leaf option) \<Rightarrow> id \<Rightarrow> buffer \<Rightarrow>
   ('te, 'be, 'x) leaf \<Rightarrow> (bool \<times> ('te, 'be, 'x) leaf) option" where
  "publish on_data_published tm d lf = do {
     info \<leftarrow> get_terminal_info lf tm;
     lf1 \<leftarrow> (if ti_subscribed info then leaf_send (Data (m_mappedId (ti_fsm info)) d) lf else Some lf);
     lf2 \<leftarrow> on_data_published tm d lf1;
     Some (ti_subscribed info, lf2) }"

fun publish_subscribe_receive :: "body \<Rightarrow> plain_leaf \<Rightarrow> plain_leaf option" where
  "publish_subscribe_receive (Subscribe tm) = on_Subscribe (publish_subscription_state True) tm"
| "publish_subscribe_receive (Unsubscribe tm) = on_Unsubscribe (publish_subscription_state False) tm"
| "publish_subscribe_receive (Data s d) = on_Data (deliver_data False) s d"
| "publish_subscribe_receive b = leaf_receive publish_subscribe_hooks b"

definition publish_subscribe_publish :: "id \<Rightarrow> buffer \<Rightarrow> plain_leaf \<Rightarrow> (bool \<times> plain_leaf) option" where
  "publish_subscribe_publish = publish (\<lambda>tm d lf. Some lf)"

section \<open>CachedPublishSubscribe\<close>

record cache_ext =
  lastReceivedMessage :: buffer
  lastReceivedMessageSet :: bool
  lastSentMessage :: buffer
  lastSentMessageSet :: bool

type_synonym cached_leaf = "(cache_ext, unit, unit) leaf"

definition no_cache :: cache_ext where
  "no_cache = \<lparr>lastReceivedMessage = [], lastReceivedMessageSet = False, lastSentMessage = [], lastSentMessageSet = False\<rparr>"

definition modify_ext ::
  "id \<Rightarrow> ('te \<Rightarrow> 'te) \<Rightarrow> ('te, 'be, 'x) leaf \<Rightarrow> ('te, 'be, 'x) leaf option" where
  "modify_ext tm g lf = modify_terminal tm (\<lambda>t. t\<lparr>ti_ext := g (ti_ext t)\<rparr>) lf"

definition cached_on_subscribed :: "id \<Rightarrow> cached_leaf \<Rightarrow> cached_leaf option" where
  "cached_on_subscribed tm lf = do {
     lf1 \<leftarrow> publish_subscription_state True tm lf;
     info \<leftarrow> get_terminal_info lf1 tm;
     if is_mapped (ti_fsm info) \<and> lastSentMessageSet (ti_ext info)
     then leaf_send (CachedData (m_mappedId (ti_fsm info)) (lastSentMessage (ti_ext info))) lf1
     else Some lf1 }"

definition cached_on_data_received :: "bool \<Rightarrow> id \<Rightarrow> buffer \<Rightarrow> cached_leaf \<Rightarrow> cached_leaf option" where
  "cached_on_data_received cached tm d lf = do {
     lf1 \<leftarrow> modify_ext tm (\<lambda>c. c\<lparr>lastReceivedMessage := d, lastReceivedMessageSet := True\<rparr>) lf;
     deliver_data cached tm d lf1 }"

definition cached_on_data_published :: "id \<Rightarrow> buffer \<Rightarrow> cached_leaf \<Rightarrow> cached_leaf option" where
  "cached_on_data_published tm d lf =
     modify_ext tm (\<lambda>c. c\<lparr>lastSentMessage := d, lastSentMessageSet := True\<rparr>) lf"

definition cached_hooks :: "(cache_ext, unit, unit) leaf_hooks" where
  "cached_hooks = \<lparr>h_terminal_ext = no_cache, h_binding_ext = (),
     h_terminal_mapping_changed = sub_terminal_mapping_changed cached_on_subscribed (publish_subscription_state False),
     h_terminal_removed = (\<lambda>p tm lf. Some lf),
     h_group_mapping_changed = (\<lambda>isMapped bd lf. Some lf),
     h_binding_removed = (\<lambda>b bd lf. Some lf)\<rparr>"

fun cached_receive :: "body \<Rightarrow> cached_leaf \<Rightarrow> cached_leaf option" where
  "cached_receive (Subscribe tm) = on_Subscribe cached_on_subscribed tm"
| "cached_receive (Unsubscribe tm) = on_Unsubscribe (publish_subscription_state False) tm"
| "cached_receive (Data s d) = on_Data (cached_on_data_received False) s d"
| "cached_receive (CachedData s d) = on_Data (cached_on_data_received True) s d"
| "cached_receive b = leaf_receive cached_hooks b"

definition cached_publish :: "id \<Rightarrow> buffer \<Rightarrow> cached_leaf \<Rightarrow> (bool \<times> cached_leaf) option" where
  "cached_publish = publish cached_on_data_published"

definition get_cache :: "id \<Rightarrow> cached_leaf \<Rightarrow> (buffer \<times> bool) option" where
  "get_cache tm lf = do { info \<leftarrow> get_terminal_info lf tm;
     Some (lastReceivedMessage (ti_ext info), lastReceivedMessageSet (ti_ext info)) }"

section \<open>The contract holds\<close>

definition keeps_frame :: "(('te, 'be, 'x) leaf \<Rightarrow> ('te, 'be, 'x) leaf option) \<Rightarrow> bool" where
  "keeps_frame f \<longleftrightarrow> (\<forall>u u'. regs_ok u \<longrightarrow> f u = Some u' \<longrightarrow> frame u u')"

lemma keeps_frameD: "keeps_frame f \<Longrightarrow> regs_ok u \<Longrightarrow> f u = Some u' \<Longrightarrow> frame u u'"
  by (auto simp: keeps_frame_def)

lemma modify_terminal_frame:
  assumes ok: "regs_ok lf" and m: "modify_terminal tm g lf = Some lf'"
    and g: "\<And>t. ti_fsm (g t) = ti_fsm t" "\<And>t. ti_terminal (g t) = ti_terminal t"
  shows "frame lf lf'"
proof -
  obtain e where e: "find_id (lf_terminals lf) tm = Some e"
    using m by (auto simp: modify_terminal_def ireg_modify_def elim!: bind_SomeE)
  have "with_tview lf lf' tm (tview lf tm)"
    using modify_terminal_tview[OF ok m e] e g by (simp add: tview_def tdata_def)
  then show ?thesis by (simp add: with_tview_def frame_def)
qed

lemma publish_subscription_state_frame:
  "regs_ok lf \<Longrightarrow> publish_subscription_state b tm lf = Some lf' \<Longrightarrow> frame lf lf'"
  by (auto simp: publish_subscription_state_def frame_refl emit_frame elim!: bind_SomeE split: option.splits)

lemma sub_terminal_mapping_changed_frame:
  assumes on: "\<And>tm u u'. regs_ok u \<Longrightarrow> on_sub tm u = Some u' \<Longrightarrow> frame u u'"
    and off: "\<And>tm u u'. regs_ok u \<Longrightarrow> on_unsub tm u = Some u' \<Longrightarrow> frame u u'"
    and ok: "regs_ok lf" and u: "sub_terminal_mapping_changed on_sub on_unsub b tm lf = Some lf'"
  shows "frame lf lf'"
proof -
  obtain info where i: "get_terminal_info lf tm = Some info"
    using u by (auto simp: sub_terminal_mapping_changed_def elim!: bind_SomeE)
  have set: "frame lf lf1 \<and> regs_ok lf1" if m: "modify_terminal tm (\<lambda>t. t\<lparr>ti_subscribed := s\<rparr>) lf = Some lf1" for s lf1
    using modify_terminal_frame[OF ok m] by (simp add: frame_def)
  show ?thesis
  proof (cases b)
    case False
    show ?thesis
    proof (cases "ti_subscribed info")
      case True
      then obtain lf1 where "modify_terminal tm (\<lambda>t. t\<lparr>ti_subscribed := False\<rparr>) lf = Some lf1" "on_unsub tm lf1 = Some lf'"
        using u i False by (auto simp: sub_terminal_mapping_changed_def elim!: bind_SomeE)
      then show ?thesis using set off frame_trans by blast
    next
      case False': False
      then show ?thesis using u i False ok by (simp add: sub_terminal_mapping_changed_def frame_refl)
    qed
  next
    case True
    then obtain node where n: "leaf_remote_is_node lf = Some node"
      using u i by (auto simp: sub_terminal_mapping_changed_def elim!: bind_SomeE)
    show ?thesis
    proof (cases node)
      case True': True
      then show ?thesis using u i True n set[of False lf'] by (simp add: sub_terminal_mapping_changed_def)
    next
      case False
      then obtain lf1 where "modify_terminal tm (\<lambda>t. t\<lparr>ti_subscribed := True\<rparr>) lf = Some lf1" "on_sub tm lf1 = Some lf'"
        using u i True n by (auto simp: sub_terminal_mapping_changed_def elim!: bind_SomeE)
      then show ?thesis using set on frame_trans by blast
    qed
  qed
qed

lemma cached_on_subscribed_frame:
  assumes ok: "regs_ok lf" and u: "cached_on_subscribed tm lf = Some lf'"
  shows "frame lf lf'"
proof -
  obtain lf1 info where lf1: "publish_subscription_state True tm lf = Some lf1"
    and "get_terminal_info lf1 tm = Some info"
    and rest: "(if is_mapped (ti_fsm info) \<and> lastSentMessageSet (ti_ext info)
     then leaf_send (CachedData (m_mappedId (ti_fsm info)) (lastSentMessage (ti_ext info))) lf1
     else Some lf1) = Some lf'"
    using u by (auto simp: cached_on_subscribed_def elim!: bind_SomeE)
  have f1: "frame lf lf1" by (rule publish_subscription_state_frame[OF ok lf1])
  then have "frame lf1 lf'" using rest leaf_send_frame[of lf1 _ lf'] frame_refl[of lf1]
    by (auto simp: frame_def split: if_splits)
  then show ?thesis using f1 frame_trans by blast
qed

interpretation deaf_mute: leaf_virtuals deaf_mute_hooks
  by unfold_locales (auto simp: deaf_mute_hooks_def frame_refl)

interpretation publish_subscribe: leaf_virtuals publish_subscribe_hooks
proof
  fix lf lf' :: plain_leaf and b i
  assume ok: "regs_ok lf"
  show "frame lf lf'" if "h_terminal_mapping_changed publish_subscribe_hooks b i lf = Some lf'"
    using that unfolding publish_subscribe_hooks_def leaf_hooks.simps
    by (elim sub_terminal_mapping_changed_frame[rotated -1])
      (use ok publish_subscription_state_frame in blast)+
qed (simp_all add: publish_subscribe_hooks_def frame_refl)

interpretation cached: leaf_virtuals cached_hooks
proof
  fix lf lf' :: cached_leaf and b i
  assume ok: "regs_ok lf"
  show "frame lf lf'" if "h_terminal_mapping_changed cached_hooks b i lf = Some lf'"
    using that unfolding cached_hooks_def leaf_hooks.simps
    by (elim sub_terminal_mapping_changed_frame[rotated -1])
      (use ok cached_on_subscribed_frame publish_subscription_state_frame in blast)+
qed (simp_all add: cached_hooks_def frame_refl)

section \<open>What the classes do\<close>

text \<open>A publish reaches the wire exactly when the terminal is subscribed.\<close>

lemma publish_spec:
  assumes "publish on_pub tm d lf = Some (sent, lf')" "get_terminal_info lf tm = Some info"
  obtains lf1 where "on_pub tm d lf1 = Some lf'" "sent = ti_subscribed info"
    "lf1 = (if sent then emit (Sent (Data (m_mappedId (ti_fsm info)) d)) lf else lf)"
  using assms by (auto simp: publish_def leaf_send_def elim!: bind_SomeE split: if_splits)

lemma on_Data_keeps_ok:
  assumes ok: "leaf_ok lf" and f: "\<And>tm lf'. on_rcv tm d lf = Some lf' \<Longrightarrow> frame lf lf'"
    and u: "on_Data on_rcv s d lf = Some lf'"
  shows "leaf_ok lf'"
  using u ok leaf_ok_frame[OF ok] f by (auto simp: on_Data_def elim!: bind_SomeE split: list.splits)

lemma deliver_data_frame: "regs_ok lf \<Longrightarrow> deliver_data c tm d lf = Some lf' \<Longrightarrow> frame lf lf'"
  by (auto simp: deliver_data_def emit_frame elim!: bind_SomeE)

lemma modify_ext_frame:
  assumes ok: "regs_ok lf" and m: "modify_ext tm g lf = Some lf'"
  shows "frame lf lf'"
  by (rule modify_terminal_frame[OF ok m[unfolded modify_ext_def]]) simp_all

lemma cached_on_data_received_frame:
  assumes "regs_ok lf" "cached_on_data_received c tm d lf = Some lf'"
  shows "frame lf lf'"
proof -
  obtain lf1 where "modify_ext tm (\<lambda>x. x\<lparr>lastReceivedMessage := d, lastReceivedMessageSet := True\<rparr>) lf = Some lf1"
    "deliver_data c tm d lf1 = Some lf'"
    using assms(2) by (auto simp: cached_on_data_received_def elim!: bind_SomeE)
  then show ?thesis
    using modify_ext_frame[OF assms(1)] deliver_data_frame[of lf1] frame_trans by (metis frame_def)
qed

lemma subscription_message_ok:
  assumes ok: "leaf_ok lf" and on: "keeps_frame (on_chg tm)"
    and u: "on_Subscribe on_chg tm lf = Some lf' \<or> on_Unsubscribe on_chg tm lf = Some lf'"
  shows "leaf_ok lf'"
proof -
  note reg = leaf_okD(1)[OF ok]
  obtain s lf1 where m: "modify_terminal tm (\<lambda>t. t\<lparr>ti_subscribed := s\<rparr>) lf = Some lf1" "on_chg tm lf1 = Some lf'"
    using u by (auto simp: on_Subscribe_def on_Unsubscribe_def elim!: bind_SomeE split: if_splits)
  have "frame lf lf1" by (rule modify_terminal_frame[OF reg m(1)]) simp_all
  then show ?thesis using keeps_frameD[OF on _ m(2)] leaf_ok_frame[OF ok] frame_trans by (metis frame_def)
qed

lemma subscription_callbacks:
  "keeps_frame (publish_subscription_state b tm)" "keeps_frame (cached_on_subscribed tm)"
  using publish_subscription_state_frame cached_on_subscribed_frame by (auto simp: keeps_frame_def)

lemma publish_subscribe_receive_ok:
  assumes ok: "leaf_ok lf" and conn: "lf_connection lf = Some node" and b: "from_peer node b"
    and r: "publish_subscribe_receive b lf = Some lf'"
  shows "leaf_ok lf'"
proof -
  note reg = leaf_okD(1)[OF ok]
  note base = publish_subscribe.leaf_receive_ok[OF ok conn b]
  note sub = subscription_message_ok[where on_chg = "publish_subscription_state b" for b,
      OF ok subscription_callbacks(1)]
  show ?thesis
  proof (cases b)
    case (Data s d)
    then have u: "on_Data (deliver_data False) s d lf = Some lf'" using r by simp
    show ?thesis by (rule on_Data_keeps_ok[OF ok _ u]) (rule deliver_data_frame[OF reg])
  next
    case (Subscribe tm)
    then show ?thesis using r sub by (simp, blast)
  next
    case (Unsubscribe tm)
    then show ?thesis using r sub by (simp, blast)
  qed (use r base in simp_all)
qed

lemma cached_receive_ok:
  assumes ok: "leaf_ok lf" and conn: "lf_connection lf = Some node" and b: "from_peer node b"
    and r: "cached_receive b lf = Some lf'"
  shows "leaf_ok lf'"
proof -
  note reg = leaf_okD(1)[OF ok]
  note base = cached.leaf_receive_ok[OF ok conn b]
  have dat: "leaf_ok lf'" if "on_Data (cached_on_data_received c) s d lf = Some lf'" for c s d
    by (rule on_Data_keeps_ok[OF ok _ that]) (rule cached_on_data_received_frame[OF reg])
  show ?thesis
  proof (cases b)
    case (Subscribe tm)
    then show ?thesis
      using r subscription_message_ok[where on_chg = cached_on_subscribed, OF ok subscription_callbacks(2)] by (simp, blast)
  next
    case (Unsubscribe tm)
    then show ?thesis
      using r subscription_message_ok[where on_chg = "publish_subscription_state False",
          OF ok subscription_callbacks(1)] by (simp, blast)
  next
    case (Data s d)
    then show ?thesis using r dat by simp
  next
    case (CachedData s d)
    then show ?thesis using r dat by simp
  qed (use r base in simp_all)
qed

end
