(* ===== verification/Leaf_Runs.thy ===== *)
theory Leaf_Runs
  imports Leaf_Classes
begin

text \<open>
  The logic object of a terminal class on a leaf under any sequence of calls: terminals and bindings
  come and go, the connection starts and ends, messages arrive and the user publishes.
\<close>

section \<open>Calls\<close>

datatype leaf_call = New_Terminal addr ident | Terminal_Destroyed addr id
  | New_Binding binding_ref ident | Binding_Destroyed binding_ref id
  | Connection_Started bool | Connection_Destroyed
  | Receive body | Publish id buffer

text \<open>
  What the callers guarantee: only an existing terminal is destroyed, messages arrive over the
  connection, decoded, and are such as the other end may send.
\<close>

fun legal :: "leaf_call \<Rightarrow> ('te, 'be, 'x) leaf \<Rightarrow> bool" where
  "legal (Terminal_Destroyed p tm) lf = (case tview lf tm of Some (x, hid, f, q) \<Rightarrow> \<not> hid | None \<Rightarrow> False)"
| "legal (Receive b) lf = (case lf_connection lf of Some node \<Rightarrow> from_peer node b | None \<Rightarrow> False)"
| "legal _ lf = True"

fun leaf_do ::
  "('te, 'be, 'x) leaf_hooks \<Rightarrow> (body \<Rightarrow> ('te, 'be, 'x) leaf \<Rightarrow> ('te, 'be, 'x) leaf option) \<Rightarrow>
   (id \<Rightarrow> buffer \<Rightarrow> ('te, 'be, 'x) leaf \<Rightarrow> (bool \<times> ('te, 'be, 'x) leaf) option) \<Rightarrow>
   leaf_call \<Rightarrow> ('te, 'be, 'x) leaf \<Rightarrow> ('te, 'be, 'x) leaf option" where
  "leaf_do h rcv pub (New_Terminal p x) lf = map_option snd (on_new_terminal h p x lf)"
| "leaf_do h rcv pub (Terminal_Destroyed p tm) lf = on_terminal_destroyed h p tm lf"
| "leaf_do h rcv pub (New_Binding b x) lf = map_option snd (on_new_binding h b x lf)"
| "leaf_do h rcv pub (Binding_Destroyed b bd) lf = on_binding_destroyed h b bd lf"
| "leaf_do h rcv pub (Connection_Started node) lf = on_connection_started h node lf"
| "leaf_do h rcv pub Connection_Destroyed lf = on_connection_destroyed h lf"
| "leaf_do h rcv pub (Receive b) lf = rcv b lf"
| "leaf_do h rcv pub (Publish tm d) lf = map_option snd (pub tm d lf)"

text \<open>A run of legal calls; \<open>None\<close> when a call is not legal or fails an assertion.\<close>

fun leaf_run ::
  "('te, 'be, 'x) leaf_hooks \<Rightarrow> (body \<Rightarrow> ('te, 'be, 'x) leaf \<Rightarrow> ('te, 'be, 'x) leaf option) \<Rightarrow>
   (id \<Rightarrow> buffer \<Rightarrow> ('te, 'be, 'x) leaf \<Rightarrow> (bool \<times> ('te, 'be, 'x) leaf) option) \<Rightarrow>
   leaf_call list \<Rightarrow> ('te, 'be, 'x) leaf \<Rightarrow> ('te, 'be, 'x) leaf option" where
  "leaf_run h rcv pub [] lf = Some lf"
| "leaf_run h rcv pub (c # cs) lf = do { yassert (legal c lf); lf1 \<leftarrow> leaf_do h rcv pub c lf; leaf_run h rcv pub cs lf1 }"

section \<open>A terminal class\<close>

locale leaf_class = leaf_virtuals h for h :: "('te, 'be, 'x) leaf_hooks" +
  fixes rcv :: "body \<Rightarrow> ('te, 'be, 'x) leaf \<Rightarrow> ('te, 'be, 'x) leaf option"
    and pub :: "id \<Rightarrow> buffer \<Rightarrow> ('te, 'be, 'x) leaf \<Rightarrow> (bool \<times> ('te, 'be, 'x) leaf) option"
  assumes rcv_ok: "leaf_ok lf \<Longrightarrow> lf_connection lf = Some node \<Longrightarrow> from_peer node b \<Longrightarrow> rcv b lf = Some lf' \<Longrightarrow> leaf_ok lf'"
    and pub_ok: "leaf_ok lf \<Longrightarrow> pub tm d lf = Some (sent, lf') \<Longrightarrow> leaf_ok lf'"
begin

lemma leaf_do_ok:
  assumes ok: "leaf_ok lf" and l: "legal c lf" and r: "leaf_do h rcv pub c lf = Some lf'"
  shows "leaf_ok lf'"
proof (cases c)
  case (New_Terminal p x)
  then show ?thesis using on_new_terminal_ok[OF ok, of p x] r by auto
next
  case (Terminal_Destroyed p tm)
  then show ?thesis using on_terminal_destroyed_ok[OF ok, of p tm] l r by (auto split: option.splits)
next
  case (New_Binding b x)
  then show ?thesis using on_new_binding_ok[OF ok, of b x] r by auto
next
  case (Binding_Destroyed b bd)
  then show ?thesis using on_binding_destroyed_ok[OF ok, of b bd] r by auto
next
  case (Connection_Started node)
  then show ?thesis using on_connection_started_ok[OF ok, of node] r by auto
next
  case Connection_Destroyed
  then show ?thesis using on_connection_destroyed_ok[OF ok] r by auto
next
  case (Receive b)
  then show ?thesis using rcv_ok[OF ok, of _ b] l r by (auto split: option.splits)
next
  case (Publish tm d)
  then show ?thesis using pub_ok[OF ok, of tm d] r by auto
qed

lemma leaf_run_ok: "leaf_run h rcv pub cs lf = Some lf' \<Longrightarrow> leaf_ok lf \<Longrightarrow> leaf_ok lf'"
  using leaf_do_ok by (induction cs arbitrary: lf) (auto elim!: bind_SomeE simp del: leaf_do.simps split: if_splits)

end

definition no_publish :: "id \<Rightarrow> buffer \<Rightarrow> ('te, 'be, 'x) leaf \<Rightarrow> (bool \<times> ('te, 'be, 'x) leaf) option" where
  "no_publish tm d lf = None"

lemma publish_ok:
  assumes ok: "leaf_ok lf" and u: "publish on_pub tm d lf = Some (sent, lf')"
    and f: "\<And>u u'. regs_ok u \<Longrightarrow> on_pub tm d u = Some u' \<Longrightarrow> frame u u'"
  shows "leaf_ok lf'"
proof -
  obtain info where i: "get_terminal_info lf tm = Some info" using u by (auto simp: publish_def elim!: bind_SomeE)
  obtain lf1 where l: "on_pub tm d lf1 = Some lf'"
    "lf1 = (if sent then emit (Sent (Data (m_mappedId (ti_fsm info)) d)) lf else lf)"
    by (rule publish_spec[OF u i], rule that)
  have "frame lf lf1" using l(2) emit_frame[OF leaf_okD(1)[OF ok]] frame_refl[OF leaf_okD(1)[OF ok]] by simp
  moreover have "frame lf1 lf'" by (rule f[OF _ l(1)]) (use \<open>frame lf lf1\<close> in \<open>simp add: frame_def\<close>)
  ultimately show ?thesis using leaf_ok_frame[OF ok] frame_trans by blast
qed

interpretation deaf_mute_class: leaf_class deaf_mute_hooks "leaf_receive deaf_mute_hooks" no_publish
  by unfold_locales (auto intro: deaf_mute.leaf_receive_ok simp: no_publish_def)

interpretation publish_subscribe_class:
  leaf_class publish_subscribe_hooks publish_subscribe_receive publish_subscribe_publish
proof
  fix lf lf' :: plain_leaf and tm d sent
  assume ok: "leaf_ok lf" and u: "publish_subscribe_publish tm d lf = Some (sent, lf')"
  show "leaf_ok lf'" by (rule publish_ok[OF ok u[unfolded publish_subscribe_publish_def]]) (simp add: frame_refl)
qed (rule publish_subscribe_receive_ok)

interpretation cached_class: leaf_class cached_hooks cached_receive cached_publish
proof
  fix lf lf' :: cached_leaf and tm d sent
  assume ok: "leaf_ok lf" and u: "cached_publish tm d lf = Some (sent, lf')"
  show "leaf_ok lf'"
    by (rule publish_ok[OF ok u[unfolded cached_publish_def]]) (auto simp: cached_on_data_published_def intro: modify_ext_frame)
qed (rule cached_receive_ok)

section \<open>Properties\<close>

abbreviation publish_subscribe_run :: "leaf_call list \<Rightarrow> plain_leaf option" where
  "publish_subscribe_run cs \<equiv> leaf_run publish_subscribe_hooks publish_subscribe_receive publish_subscribe_publish cs (leaf_init ())"

abbreviation cached_run :: "leaf_call list \<Rightarrow> cached_leaf option" where
  "cached_run cs \<equiv> leaf_run cached_hooks cached_receive cached_publish cs (leaf_init ())"

text \<open>C37: After any legal sequence of calls on the publish-subscribe logic of a leaf, a binding group
  that still has bindings is established exactly when it is mapped, if the other end is a leaf; if
  it is a node, only a mapped group is established; without a connection none is.\<close>

theorem group_established_iff_mapped:
  assumes "publish_subscribe_run cs = Some lf" "find_id (lf_bindings lf) bd = Some e" "bi_bindings (el_data e) \<noteq> []"
  shows "case lf_connection lf of
      None \<Rightarrow> \<not> bi_established (el_data e)
    | Some False \<Rightarrow> bi_established (el_data e) = is_mapped (bi_fsm (el_data e))
    | Some True \<Rightarrow> bi_established (el_data e) \<longrightarrow> is_mapped (bi_fsm (el_data e))"
proof -
  have "leaf_ok lf" using assms(1) by (rule publish_subscribe_class.leaf_run_ok) (rule leaf_ok_init)
  moreover have "bview lf bd = Some (bdata e)" using assms(2) by (simp add: bview_def)
  ultimately have "binding_ok (lf_connection lf) (bdata e)" by (rule leaf_okD(3))
  then show ?thesis using assms(3)
    by (auto simp: binding_ok_def bdata_def established_ok_def split: option.splits bool.splits)
qed

definition mapping_calls :: "leaf_call list" where
  "mapping_calls = [New_Binding \<lparr>br_addr = 9, br_terminal = Id 1\<rparr> default_ident, Connection_Started False,
     Receive (TerminalDescription default_ident (Id 4))]"

lemma group_established_iff_mapped_witness:
  "\<exists>lf e. publish_subscribe_run mapping_calls = Some lf \<and> find_id (lf_bindings lf) (Id 1) = Some e \<and>
     lf_connection lf = Some False \<and> bi_established (el_data e) \<and> is_mapped (bi_fsm (el_data e))"
proof -
  have "map_option (\<lambda>lf. (lf_connection lf, map_option (\<lambda>e. (bi_bindings (el_data e), bi_established (el_data e)))
      (find_id (lf_bindings lf) (Id 1)))) (publish_subscribe_run mapping_calls) =
    Some (Some False, Some ([\<lparr>br_addr = 9, br_terminal = Id 1\<rparr>], True))" by code_simp
  then obtain lf e where r: "publish_subscribe_run mapping_calls = Some lf" "find_id (lf_bindings lf) (Id 1) = Some e"
    and e: "lf_connection lf = Some False" "bi_bindings (el_data e) \<noteq> []" "bi_established (el_data e)" by auto
  show ?thesis using group_established_iff_mapped[OF r e(2)] r e by auto
qed

text \<open>C38: After any legal sequence of calls on the cached publish-subscribe logic of a leaf, an entry
  without a terminal is exactly a hidden one; on a connection these are the entries whose machine
  still awaits something, and without a connection there are none and every machine is reset.  The
  same holds for binding groups without bindings.\<close>

theorem hidden_entries_await:
  assumes "cached_run cs = Some lf"
  shows "(\<forall>tm e. find_id (lf_terminals lf) tm = Some e \<longrightarrow> (el_hidden e \<longleftrightarrow> ti_terminal (el_data e) = None) \<and>
      (if lf_connection lf = None then \<not> el_hidden e \<and> ti_fsm (el_data e) = fsm_init
       else el_hidden e = fsm_destroyed (ti_fsm (el_data e)))) \<and>
    (\<forall>bd e. find_id (lf_bindings lf) bd = Some e \<longrightarrow> (el_hidden e \<longleftrightarrow> bi_bindings (el_data e) = []) \<and>
      (if lf_connection lf = None then \<not> el_hidden e else el_hidden e = fsm_destroyed (bi_fsm (el_data e))))"
proof -
  have ok: "leaf_ok lf" using assms by (rule cached_class.leaf_run_ok) (rule leaf_ok_init)
  have t: "terminal_ok (lf_connection lf) (tdata e)" if "find_id (lf_terminals lf) tm = Some e" for tm e
    by (rule leaf_okD(2)[OF ok, of tm]) (simp add: tview_def that)
  have b: "binding_ok (lf_connection lf) (bdata e)" if "find_id (lf_bindings lf) bd = Some e" for bd e
    by (rule leaf_okD(3)[OF ok, of bd]) (simp add: bview_def that)
  show ?thesis using t b
    by (fastforce simp: terminal_ok_def binding_ok_def tdata_def bdata_def split: option.splits)
qed

definition destroying_calls :: "leaf_call list" where
  "destroying_calls = [New_Terminal 5 default_ident, Connection_Started False,
     Receive (BindingDescription default_ident (Id 4)), Terminal_Destroyed 5 (Id 1), New_Terminal 6 default_ident]"

lemma hidden_entries_await_witness:
  "\<exists>lf e. cached_run destroying_calls = Some lf \<and> find_id (lf_terminals lf) (Id 1) = Some e \<and>
     el_hidden e \<and> fsm_destroyed (ti_fsm (el_data e)) \<and> find_ident (lf_terminals lf) default_ident \<noteq> None"
proof -
  have "map_option (\<lambda>lf. (lf_connection lf, map_option el_hidden (find_id (lf_terminals lf) (Id 1)),
      map_option el_id (find_ident (lf_terminals lf) default_ident))) (cached_run destroying_calls) =
    Some (Some False, Some True, Some (Id 2))" by code_simp
  then obtain lf e where r: "cached_run destroying_calls = Some lf" "find_id (lf_terminals lf) (Id 1) = Some e"
    and e: "lf_connection lf = Some False" "el_hidden e" "find_ident (lf_terminals lf) default_ident \<noteq> None" by auto
  show ?thesis using hidden_entries_await[OF r(1)] r e by (metis option.distinct(1))
qed

text \<open>C39: Publishing on a cached publish-subscribe terminal sends one \<^verbatim>\<open>Data\<close> message to the mapped binding
  group if the terminal is subscribed and nothing otherwise, tells the caller which, and in both
  cases remembers the data for later subscribers.\<close>

theorem publish_sends_iff_subscribed:
  assumes "find_id (lf_terminals lf) tm = Some e" "ti_subscribed (el_data e) \<longrightarrow> lf_connection lf \<noteq> None"
  shows "\<exists>lf'. cached_publish tm d lf = Some (ti_subscribed (el_data e), lf') \<and>
    lf_out lf' = lf_out lf @ (if ti_subscribed (el_data e) then [Sent (Data (m_mappedId (ti_fsm (el_data e))) d)] else []) \<and>
    (\<exists>e'. find_id (lf_terminals lf') tm = Some e' \<and> lastSentMessage (ti_ext (el_data e')) = d \<and> lastSentMessageSet (ti_ext (el_data e')))"
proof -
  define e' where "e' = e\<lparr>el_data := (el_data e)\<lparr>ti_ext := (ti_ext (el_data e))\<lparr>lastSentMessage := d, lastSentMessageSet := True\<rparr>\<rparr>\<rparr>"
  have m: "ireg_modify tm (\<lambda>t. t\<lparr>ti_ext := (ti_ext t)\<lparr>lastSentMessage := d, lastSentMessageSet := True\<rparr>\<rparr>) (lf_terminals lf) =
      Some (ireg_put tm (Some e') (lf_terminals lf))"
    using assms(1) by (simp add: ireg_modify_def e'_def)
  have f: "find_id (ireg_put tm (Some e') (lf_terminals lf)) tm = Some e'"
    using assms(1) by (simp add: find_id_put find_id_in_range)
  show ?thesis using assms m f
    by (auto simp: cached_publish_def publish_def get_terminal_info_def leaf_send_def emit_def
        cached_on_data_published_def modify_ext_def modify_terminal_def e'_def simp del: not_None_eq)
qed

lemma publish_sends_iff_subscribed_witness:
  "\<exists>lf lf'. cached_run [New_Terminal 5 default_ident, Connection_Started False, Receive (BindingDescription default_ident (Id 4))] = Some lf \<and>
     cached_publish (Id 1) [42] lf = Some (True, lf') \<and> last (lf_out lf') = Sent (Data (Id 4) [42])"
proof -
  define cs where "cs = [New_Terminal 5 default_ident, Connection_Started False, Receive (BindingDescription default_ident (Id 4))]"
  have "map_option (\<lambda>lf. (lf_connection lf, map_option (\<lambda>e. (ti_subscribed (el_data e), m_mappedId (ti_fsm (el_data e))))
      (find_id (lf_terminals lf) (Id 1)))) (cached_run cs) = Some (Some False, Some (True, Id 4))"
    unfolding cs_def by code_simp
  then obtain lf e where r: "cached_run cs = Some lf" "lf_connection lf = Some False" "find_id (lf_terminals lf) (Id 1) = Some e"
    "ti_subscribed (el_data e)" "m_mappedId (ti_fsm (el_data e)) = Id 4" by auto
  show ?thesis using publish_sends_iff_subscribed[OF r(3), of "[42]"] r by (auto simp: cs_def)
qed

end
