(* ===== verification/Scatter_Gather.thy ===== *)
theory Scatter_Gather
  imports Leaf_Runs
begin

text \<open>
  Scatter-gather and service-client terminals of a leaf: \<^verbatim>\<open>core/scatter_gather/LeafLogic.hpp\<close> and the
  part of \<^verbatim>\<open>core/scatter_gather/Terminal.hpp\<close> that it calls.  A scatter operation is a question sent to
  a binding group; every binding's terminal answers with one \<open>Gather\<close> message, and the last answer
  carries the flag \<open>GATHER_FINISHED\<close>.
\<close>

unbundle bit_operations_syntax

section \<open>Flags\<close>

definition GATHER_NO_FLAGS :: gather_flags where "GATHER_NO_FLAGS = 0"
definition GATHER_FINISHED :: gather_flags where "GATHER_FINISHED = 1"
definition GATHER_IGNORED :: gather_flags where "GATHER_IGNORED = 2"
definition GATHER_DEAF :: gather_flags where "GATHER_DEAF = 4"
definition GATHER_BINDINGDESTROYED :: gather_flags where "GATHER_BINDINGDESTROYED = 8"
definition GATHER_CONNECTIONLOST :: gather_flags where "GATHER_CONNECTIONLOST = 16"

lemmas gather_flag_defs = GATHER_NO_FLAGS_def GATHER_FINISHED_def GATHER_IGNORED_def GATHER_DEAF_def
  GATHER_BINDINGDESTROYED_def GATHER_CONNECTIONLOST_def

definition has_flag :: "gather_flags \<Rightarrow> gather_flags \<Rightarrow> bool" where
  "has_flag fs f \<longleftrightarrow> fs AND f \<noteq> 0"

section \<open>State\<close>

record sg_terminal_ext =
  te_scatter :: "id list"
  te_gather :: "(id \<times> id) list"

text \<open>
  The logic object's own members, and of every terminal the running tasks with the sizes of their
  buffers and the armed receive operation with the size of its buffer.  An entry of
  \<^verbatim>\<open>m_scatterOperations\<close> is a terminal pointer, here with the terminal's Id, or null.
\<close>

record sg_state =
  m_scatterOperations :: "(addr \<times> id) option oreg"
  m_gatherOperations :: "(id \<times> addr) list"
  m_tasks :: "((addr \<times> id) \<times> nat) list"
  m_replyOp :: "(addr \<times> nat) list"

type_synonym sg_leaf = "(sg_terminal_ext, (id \<times> id) list, sg_state) leaf"

definition sg_init :: sg_state where
  "sg_init = \<lparr>m_scatterOperations = oreg_empty, m_gatherOperations = [], m_tasks = [], m_replyOp = []\<rparr>"

text \<open>
  The library user's handlers, which may look at everything that happened: whether to answer a
  scattered message inside the handler and how, whether to receive again, and whether to go on with
  an operation after a gathered message.
\<close>

datatype reply = Respond buffer | Ignore

record sg_user =
  su_reply :: "leaf_event list \<Rightarrow> addr \<Rightarrow> id \<Rightarrow> reply option"
  su_rearm :: "leaf_event list \<Rightarrow> addr \<Rightarrow> nat option"
  su_continue :: "leaf_event list \<Rightarrow> addr \<Rightarrow> id \<Rightarrow> bool"

section \<open>Helpers\<close>

definition erase_from_multimap :: "'k \<Rightarrow> 'v \<Rightarrow> ('k \<times> 'v) list \<Rightarrow> ('k \<times> 'v) list option" where
  "erase_from_multimap k v m = do {
     yassert (k \<in> fst ` set m); yassert ((k, v) \<in> set m); Some (remove1 (k, v) m) }"

definition with_state :: "(sg_state \<Rightarrow> sg_state) \<Rightarrow> sg_leaf \<Rightarrow> sg_leaf" where
  "with_state f lf = lf\<lparr>lf_derived := f (lf_derived lf)\<rparr>"

definition modify_te :: "id \<Rightarrow> (sg_terminal_ext \<Rightarrow> sg_terminal_ext) \<Rightarrow> sg_leaf \<Rightarrow> sg_leaf option" where
  "modify_te tm f = modify_terminal tm (\<lambda>t. t\<lparr>ti_ext := f (ti_ext t)\<rparr>)"

definition modify_be :: "id \<Rightarrow> ((id \<times> id) list \<Rightarrow> (id \<times> id) list) \<Rightarrow> sg_leaf \<Rightarrow> sg_leaf option" where
  "modify_be bd f = modify_binding bd (\<lambda>b. b\<lparr>bi_ext := f (bi_ext b)\<rparr>)"

definition set_scatter_operation :: "id \<Rightarrow> (addr \<times> id) option \<Rightarrow> sg_leaf \<Rightarrow> sg_leaf option" where
  "set_scatter_operation i v lf = do {
     r \<leftarrow> oreg_set i v (m_scatterOperations (lf_derived lf));
     Some (with_state (\<lambda>s. s\<lparr>m_scatterOperations := r\<rparr>) lf) }"

definition erase_scatter_operation :: "id \<Rightarrow> sg_leaf \<Rightarrow> sg_leaf option" where
  "erase_scatter_operation i lf = do {
     r \<leftarrow> oreg_erase None i (m_scatterOperations (lf_derived lf));
     Some (with_state (\<lambda>s. s\<lparr>m_scatterOperations := r\<rparr>) lf) }"

definition erase_gather_operation :: "id \<Rightarrow> addr \<Rightarrow> sg_leaf \<Rightarrow> sg_leaf option" where
  "erase_gather_operation i p lf = do {
     m \<leftarrow> erase_from_multimap i p (m_gatherOperations (lf_derived lf));
     Some (with_state (\<lambda>s. s\<lparr>m_gatherOperations := m\<rparr>) lf) }"

text \<open>\<open>tm.terminal->id()\<close> is the Id of the entry; a null pointer is a failure.\<close>

definition remove_all_gather_operations :: "id \<Rightarrow> sg_leaf \<Rightarrow> sg_leaf option" where
  "remove_all_gather_operations tm lf = do {
     info \<leftarrow> get_terminal_info lf tm;
     for_each (te_gather (ti_ext info)) (\<lambda>(i, bd) lf. do {
       binfo \<leftarrow> get_binding_info lf bd;
       p \<leftarrow> ti_terminal info;
       lf1 \<leftarrow> erase_gather_operation i p lf;
       yassert (i \<in> fst ` set (bi_ext binfo));
       m \<leftarrow> erase_from_multimap i tm (bi_ext binfo);
       modify_be bd (\<lambda>_. m) lf1 }) lf }"

section \<open>Answering a scattered message\<close>

definition sg_respond ::
  "addr \<Rightarrow> id \<Rightarrow> id \<Rightarrow> gather_flags \<Rightarrow> buffer \<Rightarrow> sg_leaf \<Rightarrow> (api_error + sg_leaf) option" where
  "sg_respond p tm i flags data lf = do {
     yassert (\<not> has_flag flags GATHER_FINISHED);
     yassert (\<not> has_flag flags GATHER_BINDINGDESTROYED);
     yassert (\<not> has_flag flags GATHER_CONNECTIONLOST);
     info \<leftarrow> get_terminal_info lf tm;
     case map_of (te_gather (ti_ext info)) i of
       None \<Rightarrow> Some (Inl ERR_INVALID_ID)
     | Some bd \<Rightarrow> do {
         binfo \<leftarrow> get_binding_info lf bd;
         m \<leftarrow> erase_from_multimap i tm (bi_ext binfo);
         lf1 \<leftarrow> modify_be bd (\<lambda>_. m) lf;
         lf2 \<leftarrow> modify_te tm (\<lambda>x. x\<lparr>te_gather := AList.delete i (te_gather x)\<rparr>) lf1;
         lf3 \<leftarrow> erase_gather_operation i p lf2;
         let finished = i \<notin> fst ` set (m_gatherOperations (lf_derived lf3));
         lf4 \<leftarrow> leaf_send (Gather i (if finished then flags OR GATHER_FINISHED else flags) data) lf3;
         Some (Inr lf4) } }"

text \<open>An answer from inside the user's handler: a thrown error goes back to the user.\<close>

definition user_reply :: "reply option \<Rightarrow> addr \<Rightarrow> id \<Rightarrow> id \<Rightarrow> sg_leaf \<Rightarrow> sg_leaf option" where
  "user_reply r p tm i lf = (case r of None \<Rightarrow> Some lf
     | Some a \<Rightarrow> do {
         res \<leftarrow> (case a of Respond d \<Rightarrow> sg_respond p tm i GATHER_NO_FLAGS d lf | Ignore \<Rightarrow> sg_respond p tm i GATHER_IGNORED [] lf);
         (case res of Inl _ \<Rightarrow> Some lf | Inr lf1 \<Rightarrow> Some lf1) })"

text \<open>\<^verbatim>\<open>Terminal::on_scattered_message_received\<close>; an error thrown by the deaf answer escapes.\<close>

definition on_scattered_message_received ::
  "sg_user \<Rightarrow> addr \<Rightarrow> id \<Rightarrow> id \<Rightarrow> buffer \<Rightarrow> sg_leaf \<Rightarrow> sg_leaf option" where
  "on_scattered_message_received u p tm i data lf = (case map_of (m_replyOp (lf_derived lf)) p of
      None \<Rightarrow> do { res \<leftarrow> sg_respond p tm i GATHER_DEAF [] lf; (case res of Inl _ \<Rightarrow> None | Inr lf1 \<Rightarrow> Some lf1) }
    | Some n \<Rightarrow> (let
          lf1 = emit (Scattered_Received p i (take n data) (length data))
            (with_state (\<lambda>s. s\<lparr>m_replyOp := AList.delete p (m_replyOp s)\<rparr>) lf);
          lf2 = (case su_rearm u (lf_out lf1) p of None \<Rightarrow> lf1
            | Some k \<Rightarrow> with_state (\<lambda>s. s\<lparr>m_replyOp := AList.update p k (m_replyOp s)\<rparr>) lf1)
        in user_reply (su_reply u (lf_out lf1) p i) p tm i lf2))"

definition on_Scatter :: "sg_user \<Rightarrow> id \<Rightarrow> id \<Rightarrow> buffer \<Rightarrow> sg_leaf \<Rightarrow> sg_leaf option" where
  "on_Scatter u sub i data lf = do {
     bd \<leftarrow> get_binding_info lf sub;
     yassert (i \<notin> fst ` set (m_gatherOperations (lf_derived lf)));
     yassert (i \<notin> fst ` set (bi_ext bd));
     if \<not> bi_established bd then Some lf
     else for_each (bi_bindings bd) (\<lambda>b lf. do {
       info \<leftarrow> get_terminal_info lf (br_terminal b);
       p \<leftarrow> ti_terminal info;
       let lf1 = with_state (\<lambda>s. s\<lparr>m_gatherOperations := (i, p) # m_gatherOperations s\<rparr>) lf;
       lf2 \<leftarrow> modify_be sub (\<lambda>m. (i, br_terminal b) # m) lf1;
       lf3 \<leftarrow> modify_te (br_terminal b) (\<lambda>x. if i \<in> fst ` set (te_gather x) then x
          else x\<lparr>te_gather := (i, sub) # te_gather x\<rparr>) lf2;
       on_scattered_message_received u p (br_terminal b) i data lf3 }) lf }"

section \<open>Receiving answers\<close>

text \<open>\<^verbatim>\<open>Terminal::on_gathered_message_received\<close>; the result tells whether to go on.\<close>

definition on_gathered_message_received ::
  "sg_user \<Rightarrow> addr \<Rightarrow> id \<Rightarrow> gather_flags \<Rightarrow> buffer \<Rightarrow> sg_leaf \<Rightarrow> (bool \<times> sg_leaf) option" where
  "on_gathered_message_received u p i flags data lf = do {
     n \<leftarrow> map_of (m_tasks (lf_derived lf)) (p, i);
     let lf1 = emit (Gathered_Received p i flags (take n data) (length data)) lf;
     let go = su_continue u (lf_out lf1) p i;
     Some (go, if \<not> go \<or> has_flag flags GATHER_FINISHED
       then with_state (\<lambda>s. s\<lparr>m_tasks := AList.delete (p, i) (m_tasks s)\<rparr>) lf1 else lf1) }"

definition forget_scatter_operation :: "id \<Rightarrow> id \<Rightarrow> sg_leaf \<Rightarrow> sg_leaf option" where
  "forget_scatter_operation tm i lf = do {
     info \<leftarrow> get_terminal_info lf tm;
     yassert (i \<in> set (te_scatter (ti_ext info)));
     modify_te tm (\<lambda>x. x\<lparr>te_scatter := removeAll i (te_scatter x)\<rparr>) lf }"

definition on_Gather :: "sg_user \<Rightarrow> id \<Rightarrow> gather_flags \<Rightarrow> buffer \<Rightarrow> sg_leaf \<Rightarrow> sg_leaf option" where
  "on_Gather u i flags data lf = do {
     terminal \<leftarrow> oreg_get (m_scatterOperations (lf_derived lf)) i;
     (terminal1, lf1) \<leftarrow> (case terminal of
         None \<Rightarrow> Some (None, lf)
       | Some (p, tm) \<Rightarrow> do {
           (go, lf1) \<leftarrow> on_gathered_message_received u p i flags data lf;
           if go then Some (terminal, lf1)
           else do { lf2 \<leftarrow> forget_scatter_operation tm i lf1; lf3 \<leftarrow> set_scatter_operation i None lf2; Some (None, lf3) } });
     if has_flag flags GATHER_FINISHED then do {
       lf2 \<leftarrow> (case terminal1 of None \<Rightarrow> Some lf1 | Some (p, tm) \<Rightarrow> forget_scatter_operation tm i lf1);
       erase_scatter_operation i lf2 }
     else Some lf1 }"

section \<open>The virtual functions\<close>

definition sg_terminal_removed :: "addr \<Rightarrow> id \<Rightarrow> sg_leaf \<Rightarrow> sg_leaf option" where
  "sg_terminal_removed p tm lf = do {
     info \<leftarrow> get_terminal_info lf tm;
     lf1 \<leftarrow> for_each (te_scatter (ti_ext info)) (\<lambda>i. set_scatter_operation i None) lf;
     remove_all_gather_operations tm lf1 }"

definition sg_terminal_mapping_changed :: "sg_user \<Rightarrow> bool \<Rightarrow> id \<Rightarrow> sg_leaf \<Rightarrow> sg_leaf option" where
  "sg_terminal_mapping_changed u isMapped tm lf = do {
     lf1 \<leftarrow> sub_terminal_mapping_changed (publish_subscription_state True) (publish_subscription_state False) isMapped tm lf;
     info \<leftarrow> get_terminal_info lf1 tm;
     lf2 \<leftarrow> (if te_scatter (ti_ext info) \<noteq> [] then do {
         yassert (lf_connection lf1 = None \<or> \<not> isMapped);
         let flags = (if lf_connection lf1 \<noteq> None then GATHER_BINDINGDESTROYED else GATHER_CONNECTIONLOST);
         lf' \<leftarrow> for_each (te_scatter (ti_ext info)) (\<lambda>i lf. do {
           p \<leftarrow> ti_terminal info;
           (_, lf') \<leftarrow> on_gathered_message_received u p i (flags OR GATHER_FINISHED) [] lf;
           erase_scatter_operation i lf' }) lf1;
         modify_te tm (\<lambda>x. x\<lparr>te_scatter := []\<rparr>) lf' }
       else Some lf1);
     info2 \<leftarrow> get_terminal_info lf2 tm;
     if te_gather (ti_ext info2) \<noteq> [] then do {
       lf3 \<leftarrow> remove_all_gather_operations tm lf2;
       modify_te tm (\<lambda>x. x\<lparr>te_gather := []\<rparr>) lf3 }
     else Some lf2 }"

definition sg_group_mapping_changed :: "bool \<Rightarrow> id \<Rightarrow> sg_leaf \<Rightarrow> sg_leaf option" where
  "sg_group_mapping_changed isMapped bd lf = do {
     binfo \<leftarrow> get_binding_info lf bd;
     if bi_ext binfo \<noteq> [] then do {
       yassert (lf_connection lf = None \<or> \<not> isMapped);
       lf1 \<leftarrow> for_each (bi_ext binfo) (\<lambda>(i, t) lf. do {
         info \<leftarrow> get_terminal_info lf t;
         yassert (i \<in> fst ` set (te_gather (ti_ext info)));
         lf1 \<leftarrow> modify_te t (\<lambda>x. x\<lparr>te_gather := AList.delete i (te_gather x)\<rparr>) lf;
         p \<leftarrow> ti_terminal info;
         erase_gather_operation i p lf1 }) lf;
       modify_be bd (\<lambda>_. []) lf1 }
     else Some lf }"

definition sg_binding_removed :: "binding_ref \<Rightarrow> id \<Rightarrow> sg_leaf \<Rightarrow> sg_leaf option" where
  "sg_binding_removed b bd lf = do {
     binfo \<leftarrow> get_binding_info lf bd;
     for_each (bi_ext binfo) (\<lambda>(i, t) lf. do {
       info \<leftarrow> get_terminal_info lf t;
       yassert (i \<in> fst ` set (te_gather (ti_ext info)));
       p \<leftarrow> ti_terminal info;
       if t = br_terminal b then do {
         lf1 \<leftarrow> modify_te t (\<lambda>x. x\<lparr>te_gather := AList.delete i (te_gather x)\<rparr>) lf;
         lf2 \<leftarrow> erase_gather_operation i p lf1;
         lf3 \<leftarrow> (if i \<notin> fst ` set (m_gatherOperations (lf_derived lf2))
           then leaf_send (Gather i (GATHER_BINDINGDESTROYED OR GATHER_FINISHED) []) lf2 else Some lf2);
         modify_be bd (remove1 (i, t)) lf3 }
       else Some lf }) lf }"

definition sg_hooks :: "sg_user \<Rightarrow> (sg_terminal_ext, (id \<times> id) list, sg_state) leaf_hooks" where
  "sg_hooks u = \<lparr>h_terminal_ext = \<lparr>te_scatter = [], te_gather = []\<rparr>, h_binding_ext = [],
     h_terminal_mapping_changed = sg_terminal_mapping_changed u,
     h_terminal_removed = sg_terminal_removed,
     h_group_mapping_changed = sg_group_mapping_changed,
     h_binding_removed = sg_binding_removed\<rparr>"

fun sg_receive :: "sg_user \<Rightarrow> body \<Rightarrow> sg_leaf \<Rightarrow> sg_leaf option" where
  "sg_receive u (Scatter sub i d) lf = on_Scatter u sub i d lf"
| "sg_receive u (Gather i f d) lf = on_Gather u i f d lf"
| "sg_receive u (Subscribe tm) lf = on_Subscribe (publish_subscription_state True) tm lf"
| "sg_receive u (Unsubscribe tm) lf = on_Unsubscribe (publish_subscription_state False) tm lf"
| "sg_receive u b lf = leaf_receive (sg_hooks u) b lf"

section \<open>Operations of a terminal\<close>

definition sg_scatter :: "addr \<Rightarrow> id \<Rightarrow> buffer \<Rightarrow> sg_leaf \<Rightarrow> ((api_error + id) \<times> sg_leaf) option" where
  "sg_scatter p tm data lf = do {
     info \<leftarrow> get_terminal_info lf tm;
     if \<not> ti_subscribed info then Some (Inl ERR_NOT_BOUND, lf)
     else (let (i, r) = oreg_insert (Some (p, tm)) (m_scatterOperations (lf_derived lf)) in do {
       yassert (i \<notin> set (te_scatter (ti_ext info)));
       lf1 \<leftarrow> modify_te tm (\<lambda>x. x\<lparr>te_scatter := i # te_scatter x\<rparr>)
         (with_state (\<lambda>s. s\<lparr>m_scatterOperations := r\<rparr>) lf);
       lf2 \<leftarrow> leaf_send (Scatter (m_mappedId (ti_fsm info)) i data) lf1;
       Some (Inr i, lf2) }) }"

definition async_scatter_gather :: "addr \<Rightarrow> id \<Rightarrow> buffer \<Rightarrow> nat \<Rightarrow> sg_leaf \<Rightarrow> ((api_error + id) \<times> sg_leaf) option" where
  "async_scatter_gather p tm data gathBuf lf = do {
     (res, lf1) \<leftarrow> sg_scatter p tm data lf;
     case res of Inl e \<Rightarrow> Some (Inl e, lf1)
     | Inr i \<Rightarrow> do {
         yassert (map_of (m_tasks (lf_derived lf1)) (p, i) = None);
         Some (Inr i, with_state (\<lambda>s. s\<lparr>m_tasks := AList.update (p, i) gathBuf (m_tasks s)\<rparr>) lf1) } }"

definition sg_cancel_scatter :: "id \<Rightarrow> id \<Rightarrow> sg_leaf \<Rightarrow> (api_error + sg_leaf) option" where
  "sg_cancel_scatter tm i lf = do {
     info \<leftarrow> get_terminal_info lf tm;
     if i \<notin> set (te_scatter (ti_ext info)) then Some (Inl ERR_INVALID_ID)
     else do {
       lf1 \<leftarrow> modify_te tm (\<lambda>x. x\<lparr>te_scatter := removeAll i (te_scatter x)\<rparr>) lf;
       lf2 \<leftarrow> set_scatter_operation i None lf1;
       Some (Inr lf2) } }"

definition cancel_scatter_gather :: "addr \<Rightarrow> id \<Rightarrow> id \<Rightarrow> sg_leaf \<Rightarrow> (api_error + sg_leaf) option" where
  "cancel_scatter_gather p tm i lf = do {
     res \<leftarrow> sg_cancel_scatter tm i lf;
     case res of Inl e \<Rightarrow> Some (Inl e)
     | Inr lf1 \<Rightarrow> do {
         yassert (map_of (m_tasks (lf_derived lf1)) (p, i) \<noteq> None);
         Some (Inr (with_state (\<lambda>s. s\<lparr>m_tasks := AList.delete (p, i) (m_tasks s)\<rparr>) (emit (Operation_Canceled p i) lf1))) } }"

definition async_receive_scattered_message :: "addr \<Rightarrow> nat \<Rightarrow> sg_leaf \<Rightarrow> api_error + sg_leaf" where
  "async_receive_scattered_message p n lf = (if map_of (m_replyOp (lf_derived lf)) p \<noteq> None
     then Inl ERR_ASYNC_OPERATION_RUNNING
     else Inr (with_state (\<lambda>s. s\<lparr>m_replyOp := AList.update p n (m_replyOp s)\<rparr>) lf))"

definition cancel_receive_scattered_message :: "addr \<Rightarrow> sg_leaf \<Rightarrow> sg_leaf" where
  "cancel_receive_scattered_message p lf = with_state (\<lambda>s. s\<lparr>m_replyOp := AList.delete p (m_replyOp s)\<rparr>)
     (if map_of (m_replyOp (lf_derived lf)) p \<noteq> None then emit (Operation_Canceled p default_id) lf else lf)"

text \<open>The destructor: leave the logic object, then cancel what is still running.\<close>

definition sg_terminal_destructor :: "sg_user \<Rightarrow> addr \<Rightarrow> id \<Rightarrow> sg_leaf \<Rightarrow> sg_leaf option" where
  "sg_terminal_destructor u p tm lf = do {
     lf1 \<leftarrow> on_terminal_destroyed (sg_hooks u) p tm lf;
     let mine = filter (\<lambda>((q, i), n). q = p) (m_tasks (lf_derived lf1));
     let lf2 = emits (map (\<lambda>((q, i), n). Operation_Canceled p i) mine) lf1;
     let lf3 = with_state (\<lambda>s. s\<lparr>m_tasks := filter (\<lambda>((q, i), n). q \<noteq> p) (m_tasks s)\<rparr>) lf2;
     Some (cancel_receive_scattered_message p lf3) }"

end
