(* ===== verification/Scatter_Rounds.thy ===== *)
theory Scatter_Rounds
  imports Scatter_Gather "HOL-Library.Multiset"
begin

text \<open>
  A round of a scatter operation as the asked leaf sees it: the message goes to every binding of the
  group, every terminal answers once, and the last answer finishes the operation.
\<close>

section \<open>Effects of the accesses\<close>

definition same_rest :: "sg_leaf \<Rightarrow> sg_leaf \<Rightarrow> bool" where
  "same_rest lf lf' \<longleftrightarrow> lf_connection lf' = lf_connection lf \<and> lf_out lf' = lf_out lf"

lemma modify_te_spec:
  assumes "get_terminal_info lf tm = Some info"
  shows "\<exists>lf'. modify_te tm f lf = Some lf' \<and> get_terminal_info lf' = (get_terminal_info lf)(tm \<mapsto> info\<lparr>ti_ext := f (ti_ext info)\<rparr>) \<and>
    get_binding_info lf' = get_binding_info lf \<and> lf_derived lf' = lf_derived lf \<and> same_rest lf lf'"
proof -
  obtain e where e: "find_id (lf_terminals lf) tm = Some e" "el_data e = info"
    using assms by (auto simp: get_terminal_info_def)
  note r = find_id_in_range[OF e(1)]
  show ?thesis using e r
    by (auto simp: modify_te_def modify_terminal_def ireg_modify_def get_terminal_info_def get_binding_info_def
        same_rest_def fun_eq_iff find_id_put)
qed


lemma with_state_simps [simp]:
  "get_terminal_info (with_state f lf) = get_terminal_info lf" "get_binding_info (with_state f lf) = get_binding_info lf"
  "lf_connection (with_state f lf) = lf_connection lf" "lf_out (with_state f lf) = lf_out lf"
  "lf_derived (with_state f lf) = f (lf_derived lf)"
  by (simp_all add: with_state_def get_terminal_info_def get_binding_info_def fun_eq_iff)

lemma emit_simps [simp]:
  "get_terminal_info (emit e lf) = get_terminal_info lf" "get_binding_info (emit e lf) = get_binding_info lf"
  "lf_connection (emit e lf) = lf_connection lf" "lf_out (emit e lf) = lf_out lf @ [e]"
  "lf_derived (emit e lf) = lf_derived lf"
  by (simp_all add: emit_def get_terminal_info_def get_binding_info_def fun_eq_iff)

section \<open>One answer\<close>





section \<open>All answers\<close>










section \<open>Asking\<close>








section \<open>Properties\<close>


definition idle_user :: sg_user where
  "idle_user = \<lparr>su_reply = (\<lambda>h p i. None), su_rearm = (\<lambda>h p. None), su_continue = (\<lambda>h p i. True)\<rparr>"

abbreviation sg_run :: "leaf_call list \<Rightarrow> sg_leaf option" where
  "sg_run cs \<equiv> leaf_run (sg_hooks idle_user) (sg_receive idle_user) no_publish cs (leaf_init sg_init)"

definition target :: ident where
  "target = \<lparr>ident_signature = 3, ident_name = ''t'', ident_hidden = False\<rparr>"

definition group_calls :: "leaf_call list" where
  "group_calls = [New_Terminal 5 default_ident, New_Terminal 6 (default_ident\<lparr>ident_name := ''b''\<rparr>),
     New_Binding \<lparr>br_addr = 9, br_terminal = Id 1\<rparr> target, New_Binding \<lparr>br_addr = 10, br_terminal = Id 2\<rparr> target,
     Connection_Started False, Receive (TerminalDescription target (Id 4))]"




text \<open>A \<open>Gather\<close> message for a running operation calls the user's handler once, with as much of the data as its
  buffer takes; the operation goes on exactly if the handler wants to and the message is not the
  last one.  After the last one its Id is free again, after an abort it stays reserved.\<close>

theorem gather_message_effect:
  assumes "oreg_ok (m_scatterOperations (lf_derived lf))"
    and "oreg_get (m_scatterOperations (lf_derived lf)) i = Some (Some (p, tm))"
    and "get_terminal_info lf tm = Some info" "i \<in> set (te_scatter (ti_ext info))"
    and "map_of (m_tasks (lf_derived lf)) (p, i) = Some n"
    and ev: "ev = Gathered_Received p i flags (take n data) (length data)"
    and go: "go = su_continue u (lf_out lf @ [ev]) p i"
    and fin: "fin = has_flag flags GATHER_FINISHED"
  shows "\<exists>lf' info'. on_Gather u i flags data lf = Some lf' \<and> lf_out lf' = lf_out lf @ [ev] \<and>
    map_of (m_tasks (lf_derived lf')) (p, i) = (if go \<and> \<not> fin then Some n else None) \<and>
    get_terminal_info lf' tm = Some info' \<and> (i \<in> set (te_scatter (ti_ext info')) \<longleftrightarrow> go \<and> \<not> fin) \<and>
    oreg_get (m_scatterOperations (lf_derived lf')) i = (if fin then None else if go then Some (Some (p, tm)) else Some None)"
proof -
  define lf1 where "lf1 = (if \<not> go \<or> fin
      then with_state (\<lambda>s. s\<lparr>m_tasks := AList.delete (p, i) (m_tasks s)\<rparr>) (emit ev lf) else emit ev lf)"
  have call: "on_gathered_message_received u p i flags data lf = Some (go, lf1)"
    using assms(5) by (simp add: on_gathered_message_received_def lf1_def go ev fin)
  have 1: "get_terminal_info lf1 tm = Some info" "lf_out lf1 = lf_out lf @ [ev]"
    "m_scatterOperations (lf_derived lf1) = m_scatterOperations (lf_derived lf)"
    "map_of (m_tasks (lf_derived lf1)) (p, i) = (if go \<and> \<not> fin then Some n else None)"
    using assms(3,5) by (auto simp: lf1_def map_of_alist_delete)
  obtain lf2 where 2: "modify_te tm (\<lambda>x. x\<lparr>te_scatter := removeAll i (te_scatter x)\<rparr>) lf1 = Some lf2"
    "get_terminal_info lf2 = (get_terminal_info lf1)(tm \<mapsto> info\<lparr>ti_ext := (ti_ext info)\<lparr>te_scatter := removeAll i (te_scatter (ti_ext info))\<rparr>\<rparr>)"
    "lf_derived lf2 = lf_derived lf1" "lf_out lf2 = lf_out lf1"
    using modify_te_spec[OF 1(1), of "\<lambda>x. x\<lparr>te_scatter := removeAll i (te_scatter x)\<rparr>"] by (auto simp: same_rest_def)
  have forget: "forget_scatter_operation tm i lf1 = Some lf2"
    using 1(1) assms(4) 2(1) by (simp add: forget_scatter_operation_def)
  define r where "r = m_scatterOperations (lf_derived lf)"
  have get: "oreg_get r i = Some (Some (p, tm))" using assms(2) by (simp add: r_def)
  have k: "0 < number i" "number i \<le> length (or_lut r)" "i \<notin> set (or_free r)"
    using assms(2) by (simp_all add: oreg_get_eq_Some r_def)
  define r1 where "r1 = r\<lparr>or_lut := (or_lut r)[number i - 1 := None]\<rparr>"
  have set: "oreg_set i None r = Some r1" using k by (simp add: oreg_set_def oreg_slot_def oreg_is_valid_def reg_simps r1_def)
  have r1: "oreg_ok r1" "oreg_get r1 i = Some None"
    using assms(1) k by (auto simp: oreg_ok_def r1_def r_def oreg_get_eq_Some)
  obtain r2 where r2: "oreg_erase None i r = Some r2" "oreg_get r2 i = None"
    using oreg_erase_get[of r i None] assms(1,2) by (auto simp: r_def)
  obtain r3 where r3: "oreg_erase None i r1 = Some r3" "oreg_get r3 i = None"
    using oreg_erase_get[of r1 i None] r1 by auto
  note defs = on_Gather_def get call forget set_scatter_operation_def erase_scatter_operation_def r_def[symmetric]
  show ?thesis
  proof (cases go)
    case True
    then show ?thesis using 1 2 r2 by (cases fin) (simp_all add: defs fin[symmetric] assms(4))
  next
    case False
    then show ?thesis using 1 2 set r1 r3 by (cases fin) (simp_all add: defs fin[symmetric])
  qed
qed

definition asking_leaf :: sg_leaf where
  "asking_leaf = (case async_scatter_gather 5 (Id 1) [1] 2 (the (sg_run [New_Terminal 5 target, Connection_Started False,
     Receive (BindingDescription target (Id 4))])) of Some (_, lf) \<Rightarrow> lf)"

lemma gather_message_effect_witness:
  "\<exists>lf'. on_Gather idle_user (Id 1) GATHER_FINISHED [7, 8, 9] asking_leaf = Some lf' \<and>
     last (lf_out lf') = Gathered_Received 5 (Id 1) GATHER_FINISHED [7, 8] 3 \<and>
     oreg_get (m_scatterOperations (lf_derived lf')) (Id 1) = None"
proof -
  have s: "m_scatterOperations (lf_derived asking_leaf) = \<lparr>or_lut = [Some (5, Id 1)], or_free = []\<rparr>"
    "m_tasks (lf_derived asking_leaf) = [((5, Id 1), 2)]" by code_simp+
  have "map_option (\<lambda>t. te_scatter (ti_ext t)) (get_terminal_info asking_leaf (Id 1)) = Some [Id 1]" by code_simp
  then obtain info where i: "get_terminal_info asking_leaf (Id 1) = Some info" "te_scatter (ti_ext info) = [Id 1]" by auto
  have ok: "oreg_ok (m_scatterOperations (lf_derived asking_leaf))"
    "oreg_get (m_scatterOperations (lf_derived asking_leaf)) (Id 1) = Some (Some (5, Id 1))"
    by (simp_all add: s oreg_ok_def oreg_get_eq_Some)
  have m: "Id 1 \<in> set (te_scatter (ti_ext info))" "map_of (m_tasks (lf_derived asking_leaf)) (5, Id 1) = Some 2"
    by (simp_all add: i s)
  show ?thesis
    using gather_message_effect[OF ok i(1) m refl refl refl, where flags = GATHER_FINISHED and data = "[7, 8, 9]" and u = idle_user]
    by (auto simp: has_flag_def gather_flag_defs numeral_2_eq_2)
qed

text \<open>When the terminals of a group answer at once, here because none of them is receiving, the leaf
  finishes the operation after each of them: the peer gets \<open>GATHER_FINISHED\<close> twice for one
  operation.\<close>

theorem synchronous_answers_finish_twice:
  "map_option (\<lambda>lf. filter (\<lambda>e. case e of Sent (Gather i f d) \<Rightarrow> has_flag f GATHER_FINISHED | _ \<Rightarrow> False) (lf_out lf))
     (sg_run (group_calls @ [Receive (Scatter (Id 1) (Id 7) [1])])) =
   Some [Sent (Gather (Id 7) (GATHER_DEAF OR GATHER_FINISHED) []), Sent (Gather (Id 7) (GATHER_DEAF OR GATHER_FINISHED) [])]"
  by code_simp

end
