(* ===== verification/Node_Scatter.thy ===== *)
theory Node_Scatter
  imports Node_Classes Scatter_Rounds
begin

text \<open>
  \<^verbatim>\<open>core/scatter_gather/NodeLogic.hpp\<close>: a node forwards a scattered message to all subscribers and
  binding owners of the terminal and the answers back to where the message came from.
\<close>

record node_operation =
  op_source :: "connection option"
  op_sourceOperationId :: id
  op_terminalId :: id
  op_remainingResponses :: "connection list"

definition no_operation :: node_operation where
  "no_operation = \<lparr>op_source = None, op_sourceOperationId = default_id, op_terminalId = default_id,
     op_remainingResponses = []\<rparr>"

text \<open>The extension of a terminal is \<^verbatim>\<open>activeOperations\<close>, the member of the class is \<^verbatim>\<open>m_operations\<close>.\<close>

type_synonym sg_node = "(id list, node_operation oreg) node"

definition is_connection_alive :: "connection \<Rightarrow> ('te, 'x) node \<Rightarrow> bool" where
  "is_connection_alive c n = (if remote_is_node c then c \<in> set (nd_nodeConnections n) else c \<in> set (nd_leafConnections n))"

definition set_operation :: "id \<Rightarrow> node_operation \<Rightarrow> sg_node \<Rightarrow> sg_node option" where
  "set_operation i p n = do { r \<leftarrow> oreg_set i p (nd_derived n); Some (n\<lparr>nd_derived := r\<rparr>) }"

definition erase_operation :: "id \<Rightarrow> sg_node \<Rightarrow> sg_node option" where
  "erase_operation i n = do { r \<leftarrow> oreg_erase no_operation i (nd_derived n); Some (n\<lparr>nd_derived := r\<rparr>) }"

definition deactivate :: "id \<Rightarrow> id \<Rightarrow> sg_node \<Rightarrow> sg_node option" where
  "deactivate tm i = modify_nt tm (\<lambda>t. t\<lparr>nt_ext := removeAll i (nt_ext t)\<rparr>)"

definition send_to_source :: "node_operation \<Rightarrow> gather_flags \<Rightarrow> buffer \<Rightarrow> sg_node \<Rightarrow> sg_node" where
  "send_to_source p flags d n = (case op_source p of None \<Rightarrow> n
     | Some s \<Rightarrow> nsend s (Gather (op_sourceOperationId p) flags d) n)"

text \<open>One iteration of \<^verbatim>\<open>on_subscriber_removed\<close>: \<open>c\<close> will not answer the operation any more.\<close>

definition drop_responder :: "connection \<Rightarrow> id \<Rightarrow> bool \<Rightarrow> id \<Rightarrow> sg_node \<Rightarrow> sg_node option" where
  "drop_responder c tm connectionIsAlive i n = do {
     p \<leftarrow> oreg_get (nd_derived n) i;
     if op_source p = Some c \<or> connectionIsAlive \<and> remote_is_node c \<or> c \<notin> set (op_remainingResponses p) then Some n
     else do {
       let p1 = p\<lparr>op_remainingResponses := removeAll c (op_remainingResponses p)\<rparr>;
       let flags = (if remote_is_node c \<or> \<not> connectionIsAlive then GATHER_CONNECTIONLOST else GATHER_BINDINGDESTROYED);
       n1 \<leftarrow> set_operation i p1 n;
       if op_remainingResponses p1 = [] then do {
         n2 \<leftarrow> deactivate tm i n1;
         n3 \<leftarrow> erase_operation i n2;
         Some (send_to_source p (flags OR GATHER_FINISHED) [] n3) }
       else Some (send_to_source p flags [] n1) } }"

definition sg_subscriber_removed :: "connection \<Rightarrow> id \<Rightarrow> sg_node \<Rightarrow> sg_node option" where
  "sg_subscriber_removed c tm n = do {
     t \<leftarrow> get_nt n tm;
     for_each (nt_ext t) (drop_responder c tm (is_connection_alive c n)) n }"

definition sg_owner_removed :: "connection \<Rightarrow> id \<Rightarrow> sg_node \<Rightarrow> sg_node option" where
  "sg_owner_removed c tm n = do {
     n1 \<leftarrow> sub_owner_removed c tm n;
     t \<leftarrow> get_nt n1 tm;
     for_each (nt_ext t) (\<lambda>i n. do {
       p \<leftarrow> oreg_get (nd_derived n) i;
       if op_source p = Some c then do {
         n1 \<leftarrow> set_operation i (p\<lparr>op_source := None\<rparr>) n;
         deactivate tm i n1 }
       else Some n }) n1 }"

definition sg_node_hooks :: "(id list, node_operation oreg) node_hooks" where
  "sg_node_hooks = (subscribable_hooks [] sg_subscriber_removed)\<lparr>nh_owner_removed := sg_owner_removed\<rparr>"

text \<open>The message goes to one subscriber or binding owner, which is remembered.\<close>

definition forward_scatter :: "id \<Rightarrow> buffer \<Rightarrow> connection \<Rightarrow> id \<Rightarrow> sg_node \<Rightarrow> sg_node option" where
  "forward_scatter i d c subscriptionId n = do {
     p \<leftarrow> oreg_get (nd_derived n) i;
     yassert (c \<notin> set (op_remainingResponses p));
     n1 \<leftarrow> set_operation i (p\<lparr>op_remainingResponses := op_remainingResponses p @ [c]\<rparr>) n;
     Some (nsend c (Scatter subscriptionId i d) n1) }"

definition node_Scatter :: "id \<Rightarrow> id \<Rightarrow> buffer \<Rightarrow> connection \<Rightarrow> sg_node \<Rightarrow> sg_node option" where
  "node_Scatter tm sourceOperationId d origin n = do {
     t \<leftarrow> get_nt n tm;
     let (i, r) = oreg_insert \<lparr>op_source = Some origin, op_sourceOperationId = sourceOperationId,
       op_terminalId = tm, op_remainingResponses = []\<rparr> (nd_derived n);
     let n1 = n\<lparr>nd_derived := r\<rparr>;
     n2 \<leftarrow> for_each (nt_subscribers t) (\<lambda>(c, sub) n. if c \<noteq> origin then do {
         f \<leftarrow> map_of (nt_usingNodes t) c;
         yassert (is_mapped f);
         forward_scatter i d c sub n } else Some n) n1;
     n3 \<leftarrow> (if id_valid (nt_binding t) then do {
         b \<leftarrow> get_nb n2 (nt_binding t);
         for_each (nb_owningLeafs b) (\<lambda>(c, f) n. if c \<noteq> origin then do {
           yassert (is_mapped f);
           forward_scatter i d c (m_mappedId f) n } else Some n) n2 }
       else Some n2);
     p \<leftarrow> oreg_get (nd_derived n3) i;
     if op_remainingResponses p = [] then erase_operation i n3
     else do {
       t3 \<leftarrow> get_nt n3 tm;
       yassert (i \<notin> set (nt_ext t3));
       modify_nt tm (\<lambda>t. t\<lparr>nt_ext := nt_ext t @ [i]\<rparr>) n3 } }"

definition node_Gather :: "id \<Rightarrow> gather_flags \<Rightarrow> buffer \<Rightarrow> connection \<Rightarrow> sg_node \<Rightarrow> sg_node option" where
  "node_Gather i flags d origin n = do {
     p \<leftarrow> oreg_get (nd_derived n) i;
     yassert (origin \<in> set (op_remainingResponses p));
     if \<not> has_flag flags GATHER_FINISHED then Some (send_to_source p flags d n)
     else do {
       let p1 = p\<lparr>op_remainingResponses := removeAll origin (op_remainingResponses p)\<rparr>;
       n1 \<leftarrow> set_operation i p1 n;
       if op_remainingResponses p1 = [] then do {
         n2 \<leftarrow> (if op_source p \<noteq> None then do {
             t \<leftarrow> get_nt n1 (op_terminalId p);
             yassert (i \<in> set (nt_ext t));
             deactivate (op_terminalId p) i n1 } else Some n1);
         n3 \<leftarrow> erase_operation i n2;
         Some (send_to_source p flags d n3) }
       else Some (send_to_source p (flags AND NOT GATHER_FINISHED) d n1) } }"

fun sg_node_receive :: "body \<Rightarrow> connection \<Rightarrow> sg_node \<Rightarrow> sg_node option" where
  "sg_node_receive (Subscribe tm) c = node_Subscribe (\<lambda>c i tm. Some) tm c"
| "sg_node_receive (Unsubscribe tm) c = node_Unsubscribe sg_subscriber_removed tm c"
| "sg_node_receive (Scatter tm i d) c = node_Scatter tm i d c"
| "sg_node_receive (Gather i f d) c = node_Gather i f d c"
| "sg_node_receive b c = node_receive sg_node_hooks b c"

end
