(* ===== verification/Node_View.thy ===== *)
theory Node_View
  imports Node_Logic
begin

text \<open>
  What the invariants of the node logic are about: an abstract view of a node that leaves out the
  registers and the extensions of derived classes, and of what was sent the messages of derived
  classes.  Every primitive of Node_Logic is an update of the view.  \<open>wp\<close> is the usual weakest precondition
  of an operation that may fail an assertion; for a class whose hooks are not known to succeed it
  allows the failure, so that one proof serves both.
\<close>

section \<open>Weakest preconditions\<close>

definition wp :: "bool \<Rightarrow> 'a option \<Rightarrow> ('a \<Rightarrow> bool) \<Rightarrow> bool" where
  "wp tot m Q = (case m of None \<Rightarrow> \<not> tot | Some x \<Rightarrow> Q x)"

lemma wp_Some [simp]: "wp tot (Some x) Q = Q x"
  by (simp add: wp_def)

lemma wp_bind: "wp tot m (\<lambda>x. wp tot (f x) Q) \<Longrightarrow> wp tot (Option.bind m f) Q"
  by (cases m) (simp_all add: wp_def)

lemma wp_mono: "wp tot m P \<Longrightarrow> (\<And>x. P x \<Longrightarrow> Q x) \<Longrightarrow> wp tot m Q"
  by (cases m) (simp_all add: wp_def)

lemma wp_map_option: "wp tot m (\<lambda>x. Q (f x)) \<Longrightarrow> wp tot (map_option f m) Q"
  by (cases m) (simp_all add: wp_def)

lemma wp_total: "wp True m Q \<longleftrightarrow> (\<exists>x. m = Some x \<and> Q x)"
  by (cases m) (simp_all add: wp_def)

lemma wp_result: "wp tot m Q \<Longrightarrow> m = Some x \<Longrightarrow> Q x"
  by (simp add: wp_def)

lemma wp_yassert: "P \<Longrightarrow> Q () \<Longrightarrow> wp tot (yassert P) Q"
  by simp

lemma wp_eq: "m = Some x \<Longrightarrow> Q x \<Longrightarrow> wp tot m Q"
  by simp

lemma wp_for_each:
  assumes "P xs s" and "\<And>x ys u. P (x # ys) u \<Longrightarrow> set (x # ys) \<subseteq> set xs \<Longrightarrow> wp tot (f x u) (P ys)"
    and "\<And>u. P [] u \<Longrightarrow> Q u"
  shows "wp tot (for_each xs f s) Q"
proof -
  have "wp tot (for_each ys f s) Q" if "P ys s" "set ys \<subseteq> set xs" for ys
    using that
  proof (induction ys arbitrary: s)
    case Nil
    then show ?case using assms(3) by simp
  next
    case (Cons y ys)
    have "wp tot (f y s) (\<lambda>u. wp tot (for_each ys f u) Q)"
      by (rule wp_mono[OF assms(2)[OF Cons.prems]]) (use Cons.IH Cons.prems(2) in auto)
    then show ?case by (auto intro: wp_bind)
  qed
  then show ?thesis using assms(1) by blast
qed

section \<open>The view\<close>

record tview =
  v_ident :: ident
  v_hidden :: bool
  v_state :: node_state
  v_leafs :: fsm_map
  v_nodes :: fsm_map
  v_users :: fsm_map
  v_binding :: id
  v_subs :: "(connection \<times> id) list"

record bview =
  w_ident :: ident
  w_hidden :: bool
  w_owners :: fsm_map
  w_terminal :: id

record nview =
  a_leafs :: "connection list"
  a_nodes :: "connection list"
  a_T :: "id \<Rightarrow> tview option"
  a_B :: "id \<Rightarrow> bview option"
  a_out :: "node_event list"

definition tview_of :: "'te node_terminal element \<Rightarrow> tview" where
  "tview_of e = \<lparr>v_ident = el_ident e, v_hidden = el_hidden e, v_state = nt_state (el_data e),
     v_leafs = nt_owningLeafs (el_data e), v_nodes = nt_owningNodes (el_data e), v_users = nt_usingNodes (el_data e),
     v_binding = nt_binding (el_data e), v_subs = nt_subscribers (el_data e)\<rparr>"

definition bview_of :: "node_binding element \<Rightarrow> bview" where
  "bview_of b = \<lparr>w_ident = el_ident b, w_hidden = el_hidden b, w_owners = nb_owningLeafs (el_data b),
     w_terminal = nb_terminal (el_data b)\<rparr>"

fun base_body :: "body \<Rightarrow> bool" where
  "base_body (Subscribe _) = False"
| "base_body (Unsubscribe _) = False"
| "base_body (Data _ _) = False"
| "base_body (CachedData _ _) = False"
| "base_body (Scatter _ _ _) = False"
| "base_body (Gather _ _ _) = False"
| "base_body _ = True"

fun base_event :: "node_event \<Rightarrow> bool" where
  "base_event (Node_Sent c b) = base_body b"
| "base_event (Known_Terminals_Changed x b) = True"

definition view :: "('te, 'x) node \<Rightarrow> nview" where
  "view n = \<lparr>a_leafs = nd_leafConnections n, a_nodes = nd_nodeConnections n,
     a_T = (\<lambda>i. map_option tview_of (find_id (nd_terminals n) i)),
     a_B = (\<lambda>i. map_option bview_of (find_id (nd_bindings n) i)), a_out = filter base_event (nd_out n)\<rparr>"

definition sees :: "('te, 'x) node \<Rightarrow> nview \<Rightarrow> bool" where
  "sees n A \<longleftrightarrow> ireg_ok (nd_terminals n) \<and> ireg_ok (nd_bindings n) \<and> view n = A"

definition put_T :: "id \<Rightarrow> tview option \<Rightarrow> nview \<Rightarrow> nview" where
  "put_T tm v A = A\<lparr>a_T := (a_T A)(tm := v)\<rparr>"

definition put_B :: "id \<Rightarrow> bview option \<Rightarrow> nview \<Rightarrow> nview" where
  "put_B bd b A = A\<lparr>a_B := (a_B A)(bd := b)\<rparr>"

definition out_A :: "node_event list \<Rightarrow> nview \<Rightarrow> nview" where
  "out_A es A = A\<lparr>a_out := a_out A @ es\<rparr>"

lemma put_simps [simp]:
  "a_leafs (put_T tm v A) = a_leafs A" "a_nodes (put_T tm v A) = a_nodes A" "a_T (put_T tm v A) = (a_T A)(tm := v)"
  "a_B (put_T tm v A) = a_B A" "a_out (put_T tm v A) = a_out A"
  "a_leafs (put_B bd b A) = a_leafs A" "a_nodes (put_B bd b A) = a_nodes A" "a_T (put_B bd b A) = a_T A"
  "a_B (put_B bd b A) = (a_B A)(bd := b)" "a_out (put_B bd b A) = a_out A"
  "a_leafs (out_A es A) = a_leafs A" "a_nodes (out_A es A) = a_nodes A" "a_T (out_A es A) = a_T A"
  "a_B (out_A es A) = a_B A" "a_out (out_A es A) = a_out A @ es"
  by (simp_all add: put_T_def put_B_def out_A_def)

lemma put_T_put_T [simp]: "put_T tm v (put_T tm w A) = put_T tm v A"
  by (simp add: put_T_def)

lemma put_B_put_B [simp]: "put_B tm v (put_B tm w A) = put_B tm v A"
  by (simp add: put_B_def)

lemma put_out [simp]: "put_T tm v (out_A es A) = out_A es (put_T tm v A)" "put_B bd b (out_A es A) = out_A es (put_B bd b A)"
  "out_A es (out_A fs A) = out_A (fs @ es) A" "out_A [] A = A"
  by (simp_all add: put_T_def put_B_def out_A_def)

lemma put_B_put_T: "put_B bd b (put_T tm v A) = put_T tm v (put_B bd b A)"
  by (simp add: put_T_def put_B_def)

section \<open>Primitives\<close>

lemma seesD:
  assumes "sees n A"
  shows "ireg_ok (nd_terminals n)" "ireg_ok (nd_bindings n)" "nd_leafConnections n = a_leafs A" "nd_nodeConnections n = a_nodes A"
    "map_option tview_of (find_id (nd_terminals n) i) = a_T A i" "map_option bview_of (find_id (nd_bindings n) i) = a_B A i"
  using assms by (auto simp: sees_def view_def)

lemma sees_T:
  assumes "sees n A" "a_T A tm = Some v"
  obtains e where "find_id (nd_terminals n) tm = Some e" "tview_of e = v" "el_id e = tm" "get_nt n tm = Some (el_data e)"
proof -
  obtain e where "find_id (nd_terminals n) tm = Some e" "tview_of e = v"
    using assms(2) seesD(5)[OF assms(1), of tm] by auto
  then show ?thesis using that[of e] ireg_okD(3)[OF seesD(1)[OF assms(1)]] by (simp add: get_nt_def)
qed

lemma sees_B:
  assumes "sees n A" "a_B A bd = Some b"
  obtains e where "find_id (nd_bindings n) bd = Some e" "bview_of e = b" "el_id e = bd" "get_nb n bd = Some (el_data e)"
proof -
  obtain e where "find_id (nd_bindings n) bd = Some e" "bview_of e = b"
    using assms(2) seesD(6)[OF assms(1), of bd] by auto
  then show ?thesis using that[of e] ireg_okD(3)[OF seesD(2)[OF assms(1)]] by (simp add: get_nb_def)
qed

lemma tview_of_eq:
  "tview_of e = v \<Longrightarrow> nt_state (el_data e) = v_state v \<and> nt_owningLeafs (el_data e) = v_leafs v \<and>
     nt_owningNodes (el_data e) = v_nodes v \<and> nt_usingNodes (el_data e) = v_users v \<and> nt_binding (el_data e) = v_binding v \<and>
     nt_subscribers (el_data e) = v_subs v \<and> el_ident e = v_ident v \<and> el_hidden e = v_hidden v"
  by (auto simp: tview_of_def)

lemma bview_of_eq:
  "bview_of e = b \<Longrightarrow> nb_owningLeafs (el_data e) = w_owners b \<and> nb_terminal (el_data e) = w_terminal b \<and>
     el_ident e = w_ident b \<and> el_hidden e = w_hidden b"
  by (auto simp: bview_of_def)

lemma wp_get_nt:
  assumes "sees n A" "a_T A tm = Some v"
    and "\<And>t. get_nt n tm = Some t \<Longrightarrow> nt_state t = v_state v \<Longrightarrow> nt_owningLeafs t = v_leafs v \<Longrightarrow> nt_owningNodes t = v_nodes v \<Longrightarrow>
      nt_usingNodes t = v_users v \<Longrightarrow> nt_binding t = v_binding v \<Longrightarrow> nt_subscribers t = v_subs v \<Longrightarrow> Q t"
  shows "wp tot (get_nt n tm) Q"
  using assms by (auto elim!: sees_T dest!: tview_of_eq)

lemma wp_find_nt:
  assumes "sees n A" "a_T A tm = Some v"
    and "\<And>e. find_id (nd_terminals n) tm = Some e \<Longrightarrow> el_id e = tm \<Longrightarrow> el_ident e = v_ident v \<Longrightarrow> el_hidden e = v_hidden v \<Longrightarrow>
      nt_state (el_data e) = v_state v \<Longrightarrow> nt_owningLeafs (el_data e) = v_leafs v \<Longrightarrow> nt_owningNodes (el_data e) = v_nodes v \<Longrightarrow>
      nt_usingNodes (el_data e) = v_users v \<Longrightarrow> nt_binding (el_data e) = v_binding v \<Longrightarrow> nt_subscribers (el_data e) = v_subs v \<Longrightarrow> Q e"
  shows "wp tot (find_id (nd_terminals n) tm) Q"
  using assms by (auto elim!: sees_T dest!: tview_of_eq)

lemma wp_get_nb:
  assumes "sees n A" "a_B A bd = Some b"
    and "\<And>t. get_nb n bd = Some t \<Longrightarrow> nb_owningLeafs t = w_owners b \<Longrightarrow> nb_terminal t = w_terminal b \<Longrightarrow> Q t"
  shows "wp tot (get_nb n bd) Q"
  using assms by (auto elim!: sees_B dest!: bview_of_eq)

lemma wp_find_nb:
  assumes "sees n A" "a_B A bd = Some b"
    and "\<And>e. find_id (nd_bindings n) bd = Some e \<Longrightarrow> el_id e = bd \<Longrightarrow> el_ident e = w_ident b \<Longrightarrow> el_hidden e = w_hidden b \<Longrightarrow>
      nb_owningLeafs (el_data e) = w_owners b \<Longrightarrow> nb_terminal (el_data e) = w_terminal b \<Longrightarrow> Q e"
  shows "wp tot (find_id (nd_bindings n) bd) Q"
  using assms by (auto elim!: sees_B dest!: bview_of_eq)

lemma sees_put_T:
  assumes "sees n A" "ireg_ok r" "find_id r = (find_id (nd_terminals n))(tm := x)" "v = map_option tview_of x"
  shows "sees (n\<lparr>nd_terminals := r\<rparr>) (put_T tm v A)"
  using assms by (auto simp: sees_def view_def put_T_def fun_eq_iff)

lemma sees_put_B:
  assumes "sees n A" "ireg_ok r" "find_id r = (find_id (nd_bindings n))(bd := x)" "b = map_option bview_of x"
  shows "sees (n\<lparr>nd_bindings := r\<rparr>) (put_B bd b A)"
  using assms by (auto simp: sees_def view_def put_B_def fun_eq_iff)

lemma wp_modify_nt:
  assumes s: "sees n A" and v: "a_T A tm = Some v"
    and f: "\<And>e. tview_of (e\<lparr>el_data := f (el_data e)\<rparr>) = g (tview_of e)"
    and Q: "\<And>n'. sees n' (put_T tm (Some (g v)) A) \<Longrightarrow> Q n'"
  shows "wp tot (modify_nt tm f n) Q"
proof -
  obtain e where e: "find_id (nd_terminals n) tm = Some e" "tview_of e = v" using sees_T[OF s v] by blast
  obtain r where r: "ireg_modify tm f (nd_terminals n) = Some r" "ireg_ok r"
    "find_id r = (find_id (nd_terminals n))(tm \<mapsto> e\<lparr>el_data := f (el_data e)\<rparr>)"
    using ireg_modify_ok[OF seesD(1)[OF s] e(1)] by blast
  show ?thesis unfolding modify_nt_def r(1)
    by (simp, rule Q, rule sees_put_T[OF s r(2,3)]) (simp add: f e(2))
qed

lemma wp_modify_nb:
  assumes s: "sees n A" and v: "a_B A bd = Some b"
    and f: "\<And>e. bview_of (e\<lparr>el_data := f (el_data e)\<rparr>) = g (bview_of e)"
    and Q: "\<And>n'. sees n' (put_B bd (Some (g b)) A) \<Longrightarrow> Q n'"
  shows "wp tot (modify_nb bd f n) Q"
proof -
  obtain e where e: "find_id (nd_bindings n) bd = Some e" "bview_of e = b" using sees_B[OF s v] by blast
  obtain r where r: "ireg_modify bd f (nd_bindings n) = Some r" "ireg_ok r"
    "find_id r = (find_id (nd_bindings n))(bd \<mapsto> e\<lparr>el_data := f (el_data e)\<rparr>)"
    using ireg_modify_ok[OF seesD(2)[OF s] e(1)] by blast
  show ?thesis unfolding modify_nb_def r(1)
    by (simp, rule Q, rule sees_put_B[OF s r(2,3)]) (simp add: f e(2))
qed

lemma wp_hide_nt:
  assumes s: "sees n A" and v: "a_T A tm = Some v" and Q: "\<And>n'. sees n' (put_T tm (Some (v\<lparr>v_hidden := True\<rparr>)) A) \<Longrightarrow> Q n'"
  shows "wp tot (hide_nt tm n) Q"
proof -
  obtain e where e: "find_id (nd_terminals n) tm = Some e" "tview_of e = v" using sees_T[OF s v] by blast
  obtain r where r: "ireg_hide tm (nd_terminals n) = Some r" "ireg_ok r"
    "find_id r = (find_id (nd_terminals n))(tm \<mapsto> e\<lparr>el_hidden := True\<rparr>)"
    using ireg_hide_ok[OF seesD(1)[OF s] e(1)] by blast
  show ?thesis unfolding hide_nt_def r(1)
    by (simp, rule Q, rule sees_put_T[OF s r(2,3)]) (simp add: e(2)[symmetric] tview_of_def)
qed

lemma wp_erase_nt:
  assumes s: "sees n A" and v: "a_T A tm = Some v" and Q: "\<And>n'. sees n' (put_T tm None A) \<Longrightarrow> Q n'"
  shows "wp tot (erase_nt tm n) Q"
proof -
  obtain e where e: "find_id (nd_terminals n) tm = Some e" using sees_T[OF s v] by blast
  obtain r where r: "ireg_erase tm (nd_terminals n) = Some r" "ireg_ok r" "find_id r = (find_id (nd_terminals n))(tm := None)"
    using ireg_erase_ok[OF seesD(1)[OF s] e(1)] by blast
  show ?thesis unfolding erase_nt_def r(1) by (simp, rule Q, rule sees_put_T[OF s r(2,3)]) simp
qed

lemma wp_erase_nb:
  assumes s: "sees n A" and v: "a_B A bd = Some b" and Q: "\<And>n'. sees n' (put_B bd None A) \<Longrightarrow> Q n'"
  shows "wp tot (erase_nb bd n) Q"
proof -
  obtain e where e: "find_id (nd_bindings n) bd = Some e" using sees_B[OF s v] by blast
  obtain r where r: "ireg_erase bd (nd_bindings n) = Some r" "ireg_ok r" "find_id r = (find_id (nd_bindings n))(bd := None)"
    using ireg_erase_ok[OF seesD(2)[OF s] e(1)] by blast
  show ?thesis unfolding erase_nb_def r(1) by (simp, rule Q, rule sees_put_B[OF s r(2,3)]) simp
qed

lemma sees_nsend: "sees n A \<Longrightarrow> base_body b \<Longrightarrow> sees (nsend c b n) (out_A [Node_Sent c b] A)"
  by (auto simp: sees_def view_def nsend_def out_A_def)

lemma sees_class_send: "sees n A \<Longrightarrow> \<not> base_body b \<Longrightarrow> sees (nsend c b n) A"
  by (auto simp: sees_def view_def nsend_def)

definition notify_out :: "ident \<Rightarrow> bool \<Rightarrow> node_event list" where
  "notify_out x b = (if ident_hidden x then [] else [Known_Terminals_Changed x b])"

lemma sees_nnotify: "sees n A \<Longrightarrow> sees (nnotify x b n) (out_A (notify_out x b) A)"
  by (auto simp: sees_def view_def nnotify_def out_A_def notify_out_def)

lemma find_ident_T:
  assumes s: "sees n A"
  shows "find_ident (nd_terminals n) x = Some e \<Longrightarrow>
      \<exists>v. a_T A (el_id e) = Some v \<and> v_ident v = x \<and> \<not> v_hidden v \<and> tview_of e = v \<and> find_id (nd_terminals n) (el_id e) = Some e"
    and "find_ident (nd_terminals n) x = None \<Longrightarrow> a_T A i = Some v \<Longrightarrow> v_ident v = x \<Longrightarrow> v_hidden v"
proof -
  show "find_ident (nd_terminals n) x = Some e \<Longrightarrow>
      \<exists>v. a_T A (el_id e) = Some v \<and> v_ident v = x \<and> \<not> v_hidden v \<and> tview_of e = v \<and> find_id (nd_terminals n) (el_id e) = Some e"
    using find_ident_Some[OF seesD(1)[OF s]] seesD(5)[OF s, of "el_id e"] by (auto simp: tview_of_def)
  assume a: "find_ident (nd_terminals n) x = None" "a_T A i = Some v" "v_ident v = x"
  obtain e where e: "find_id (nd_terminals n) i = Some e" "tview_of e = v" "el_id e = i" using sees_T[OF s a(2)] by blast
  show "v_hidden v" using a e find_ident_Some[OF seesD(1)[OF s], of x e] by (auto simp: tview_of_def)
qed

lemma find_ident_B:
  assumes s: "sees n A"
  shows "find_ident (nd_bindings n) x = Some e \<Longrightarrow>
      \<exists>v. a_B A (el_id e) = Some v \<and> w_ident v = x \<and> \<not> w_hidden v \<and> bview_of e = v \<and> find_id (nd_bindings n) (el_id e) = Some e"
    and "find_ident (nd_bindings n) x = None \<Longrightarrow> a_B A i = Some v \<Longrightarrow> w_ident v = x \<Longrightarrow> w_hidden v"
proof -
  show "find_ident (nd_bindings n) x = Some e \<Longrightarrow>
      \<exists>v. a_B A (el_id e) = Some v \<and> w_ident v = x \<and> \<not> w_hidden v \<and> bview_of e = v \<and> find_id (nd_bindings n) (el_id e) = Some e"
    using find_ident_Some[OF seesD(2)[OF s]] seesD(6)[OF s, of "el_id e"] by (auto simp: bview_of_def)
  assume a: "find_ident (nd_bindings n) x = None" "a_B A i = Some v" "w_ident v = x"
  obtain e where e: "find_id (nd_bindings n) i = Some e" "bview_of e = v" "el_id e = i" using sees_B[OF s a(2)] by blast
  show "w_hidden v" using a e find_ident_Some[OF seesD(2)[OF s], of x e] by (auto simp: bview_of_def)
qed

lemma sees_insert_T:
  assumes s: "sees n A" and i: "ireg_insert x d (nd_terminals n) = ((tm, b), r)" and d: "nt_subscribers d = []"
  shows "(\<exists>v. a_T A tm = Some v \<and> v_ident v = x \<and> \<not> v_hidden v \<and> sees (n\<lparr>nd_terminals := r\<rparr>) A) \<or>
    (id_valid tm \<and> a_T A tm = None \<and> (\<forall>i v. a_T A i = Some v \<longrightarrow> v_ident v = x \<longrightarrow> v_hidden v) \<and>
      sees (n\<lparr>nd_terminals := r\<rparr>) (put_T tm (Some (tview_of (new_element x tm d))) A))"
proof (cases b)
  case False
  then obtain e where e: "find_ident (nd_terminals n) x = Some e" "tm = el_id e" "r = ireg_reserve (nd_terminals n)"
    using ireg_insert_result(1)[OF seesD(1)[OF s] i] by blast
  have "sees (n\<lparr>nd_terminals := r\<rparr>) A"
    using s ireg_reserve_ok(1,2)[OF seesD(1)[OF s]] by (simp add: sees_def view_def e(3))
  then show ?thesis using find_ident_T(1)[OF s e(1)] e(2) by auto
next
  case True
  have r: "find_ident (nd_terminals n) x = None" "id_valid tm" "find_id (nd_terminals n) tm = None" "ireg_ok r"
    "find_id r = (find_id (nd_terminals n))(tm \<mapsto> new_element x tm d)"
    using ireg_insert_result(2)[OF seesD(1)[OF s] i True] by auto
  have "sees (n\<lparr>nd_terminals := r\<rparr>) (put_T tm (Some (tview_of (new_element x tm d))) A)"
    by (rule sees_put_T[OF s r(4,5)]) simp
  moreover have "a_T A tm = None" using seesD(5)[OF s, of tm] r(3) by simp
  ultimately show ?thesis using r(2) find_ident_T(2)[OF s r(1)] by blast
qed

lemma sees_insert_B:
  assumes s: "sees n A" and i: "ireg_insert x d (nd_bindings n) = ((tm, b), r)"
  shows "(\<exists>v. a_B A tm = Some v \<and> w_ident v = x \<and> \<not> w_hidden v \<and> sees (n\<lparr>nd_bindings := r\<rparr>) A) \<or>
    (id_valid tm \<and> a_B A tm = None \<and> (\<forall>i v. a_B A i = Some v \<longrightarrow> w_ident v = x \<longrightarrow> w_hidden v) \<and>
      sees (n\<lparr>nd_bindings := r\<rparr>) (put_B tm (Some (bview_of (new_element x tm d))) A))"
proof (cases b)
  case False
  then obtain e where e: "find_ident (nd_bindings n) x = Some e" "tm = el_id e" "r = ireg_reserve (nd_bindings n)"
    using ireg_insert_result(1)[OF seesD(2)[OF s] i] by blast
  have "sees (n\<lparr>nd_bindings := r\<rparr>) A"
    using s ireg_reserve_ok(1,2)[OF seesD(2)[OF s]] by (simp add: sees_def view_def e(3))
  then show ?thesis using find_ident_B(1)[OF s e(1)] e(2) by auto
next
  case True
  have r: "find_ident (nd_bindings n) x = None" "id_valid tm" "find_id (nd_bindings n) tm = None" "ireg_ok r"
    "find_id r = (find_id (nd_bindings n))(tm \<mapsto> new_element x tm d)"
    using ireg_insert_result(2)[OF seesD(2)[OF s] i True] by auto
  have "sees (n\<lparr>nd_bindings := r\<rparr>) (put_B tm (Some (bview_of (new_element x tm d))) A)"
    by (rule sees_put_B[OF s r(4,5)]) simp
  moreover have "a_B A tm = None" using seesD(6)[OF s, of tm] r(3) by simp
  ultimately show ?thesis using r(2) find_ident_B(2)[OF s r(1)] by blast
qed

end
