(* ===== verification/Node_Invariant.thy ===== *)
theory Node_Invariant
  imports Node_View
begin

text \<open>
  The invariant of the node logic and its preservation by every handler, for all terminal classes at
  once: locale \<open>node_class\<close> states what the virtual functions of a class may do.
\<close>

section \<open>The invariant\<close>

text \<open>Owners are always mapped; a user has been told about the terminal and never acknowledges twice.\<close>

definition owner_ok :: "fsm \<Rightarrow> bool" where
  "owner_ok f \<longleftrightarrow> m_state f = MAPPED_CONFIRMED \<and> id_valid (m_mappedId f)"

definition user_ok :: "fsm \<Rightarrow> bool" where
  "user_ok f \<longleftrightarrow> m_skipRemovedAcks f = 0 \<and> (m_state f \<in> {MAPPED_CONFIRMED, AWAIT_ACK} \<or>
     m_state f \<in> {UNUSED_UNCONFIRMED, AWAIT_CONFIRMATION} \<and> m_mappedId f = default_id)"

text \<open>\<open>gone\<close> are connections that are being destroyed: no longer registered, but not yet forgotten.\<close>

definition fsms_ok :: "(fsm \<Rightarrow> bool) \<Rightarrow> bool \<Rightarrow> connection set \<Rightarrow> fsm_map \<Rightarrow> bool" where
  "fsms_ok P isNode conns m \<longleftrightarrow> distinct_keys m \<and> (\<forall>(c, f) \<in> set m. c \<in> conns \<and> remote_is_node c = isNode \<and> P f)"

definition vstate :: "tview \<Rightarrow> node_state" where
  "vstate v = (let l = length (v_leafs v); m = length (v_nodes v) in
     if l = 0 then (if m = 0 then STATE_AWAIT_ACKS
       else if m = 1 then STATE_OWNERS_0_LEAFS_1_NODES else STATE_OWNERS_0_LEAFS_M_NODES)
     else if l = 1 then (if m = 0 then STATE_OWNERS_1_LEAFS_0_NODES else STATE_OWNERS_N_LEAFS_N_NODES)
     else (if m = 0 then STATE_OWNERS_M_LEAFS_0_NODES else STATE_OWNERS_N_LEAFS_N_NODES))"

definition sole_owner :: "tview \<Rightarrow> connection \<Rightarrow> bool" where
  "sole_owner v c \<longleftrightarrow> v_leafs v = [] \<and> map fst (v_nodes v) = [c]"

definition users_ok :: "connection set \<Rightarrow> tview \<Rightarrow> bool" where
  "users_ok nodes v \<longleftrightarrow> (v_hidden v \<longrightarrow> v_users v \<noteq> [] \<and> (\<forall>f \<in> snd ` set (v_users v). fsm_destroyed f)) \<and>
     (\<not> v_hidden v \<longrightarrow> (\<forall>c \<in> nodes. map_of (v_users v) c \<noteq> None \<or> sole_owner v c)) \<and>
     (\<forall>c f. sole_owner v c \<longrightarrow> map_of (v_users v) c = Some f \<longrightarrow> fsm_destroyed f)"

definition subs_ok :: "bool \<Rightarrow> tview \<Rightarrow> bool" where
  "subs_ok subscribable v \<longleftrightarrow> distinct_keys (v_subs v) \<and> (\<not> subscribable \<longrightarrow> v_subs v = []) \<and>
     (\<forall>(c, i) \<in> set (v_subs v). \<exists>f. map_of (v_users v) c = Some f \<and> is_mapped f \<and> m_mappedId f = i)"

definition local_ok :: "bool \<Rightarrow> connection set \<Rightarrow> nview \<Rightarrow> tview \<Rightarrow> bool" where
  "local_ok subscribable gone A v \<longleftrightarrow>
     fsms_ok owner_ok False (set (a_leafs A) \<union> gone) (v_leafs v) \<and>
     fsms_ok owner_ok True (set (a_nodes A) \<union> gone) (v_nodes v) \<and>
     fsms_ok user_ok True (set (a_nodes A) \<union> gone) (v_users v) \<and>
     v_state v = vstate v \<and> (v_hidden v \<longleftrightarrow> v_leafs v = [] \<and> v_nodes v = []) \<and>
     users_ok (set (a_nodes A)) v \<and> subs_ok subscribable v"

definition conns_ok :: "nview \<Rightarrow> bool" where
  "conns_ok A \<longleftrightarrow> distinct (a_leafs A) \<and> distinct (a_nodes A) \<and>
     (\<forall>c \<in> set (a_leafs A). \<not> remote_is_node c) \<and> (\<forall>c \<in> set (a_nodes A). remote_is_node c)"

text \<open>
  Terminals and bindings refer to each other, and there is one visible entry per identifier.  This
  concerns only the identifier, the hidden flag and the reference of an entry.
\<close>

type_synonym link = "ident \<times> bool \<times> id"

definition tlink :: "tview \<Rightarrow> link" where "tlink v = (v_ident v, v_hidden v, v_binding v)"
definition blink :: "bview \<Rightarrow> link" where "blink b = (w_ident b, w_hidden b, w_terminal b)"

definition T_links :: "nview \<Rightarrow> id \<Rightarrow> link option" where "T_links A i = map_option tlink (a_T A i)"
definition B_links :: "nview \<Rightarrow> id \<Rightarrow> link option" where "B_links A i = map_option blink (a_B A i)"

definition links :: "(id \<Rightarrow> link option) \<Rightarrow> (id \<Rightarrow> link option) \<Rightarrow> bool" where
  "links T B \<longleftrightarrow>
     (\<forall>tm x h bd. T tm = Some (x, h, bd) \<longrightarrow> id_valid tm) \<and>
     (\<forall>tm x bd. T tm = Some (x, True, bd) \<longrightarrow> bd = default_id) \<and>
     (\<forall>tm x h bd. T tm = Some (x, h, bd) \<longrightarrow> id_valid bd \<longrightarrow> B bd = Some (x, False, tm)) \<and>
     (\<forall>bd x h tm. B bd = Some (x, h, tm) \<longrightarrow> id_valid bd \<and> \<not> h) \<and>
     (\<forall>bd x h tm. B bd = Some (x, h, tm) \<longrightarrow> id_valid tm \<longrightarrow> T tm = Some (x, False, bd)) \<and>
     (\<forall>i j x k l. T i = Some (x, False, k) \<longrightarrow> T j = Some (x, False, l) \<longrightarrow> i = j) \<and>
     (\<forall>i j x k l. B i = Some (x, False, k) \<longrightarrow> B j = Some (x, False, l) \<longrightarrow> i = j)"

definition linked :: "(id \<Rightarrow> link option) \<Rightarrow> (id \<Rightarrow> link option) \<Rightarrow> bool" where
  "linked T B \<longleftrightarrow> (\<forall>tm x k bd l. T tm = Some (x, False, k) \<longrightarrow> B bd = Some (x, False, l) \<longrightarrow> k = bd)"

definition links_ok :: "nview \<Rightarrow> bool" where "links_ok A \<longleftrightarrow> links (T_links A) (B_links A)"

definition complete :: "nview \<Rightarrow> bool" where "complete A \<longleftrightarrow> linked (T_links A) (B_links A)"

definition bindings_ok :: "connection set \<Rightarrow> nview \<Rightarrow> bool" where
  "bindings_ok gone A \<longleftrightarrow> (\<forall>bd b. a_B A bd = Some b \<longrightarrow>
     w_owners b \<noteq> [] \<and> fsms_ok owner_ok False (set (a_leafs A) \<union> gone) (w_owners b))"

definition inv :: "bool \<Rightarrow> connection set \<Rightarrow> nview \<Rightarrow> bool" where
  "inv s gone A \<longleftrightarrow> conns_ok A \<and> links_ok A \<and> complete A \<and> bindings_ok gone A \<and>
     (\<forall>tm v. a_T A tm = Some v \<longrightarrow> local_ok s gone A v)"

text \<open>The part that holds while a handler is at work; it is what the virtual functions rely on.\<close>

definition winv :: "nview \<Rightarrow> bool" where
  "winv A \<longleftrightarrow> links_ok A \<and>
     (\<forall>tm v. a_T A tm = Some v \<longrightarrow> distinct_keys (v_subs v) \<and> (\<forall>c \<in> fst ` set (v_subs v). remote_is_node c)) \<and>
     (\<forall>bd b. a_B A bd = Some b \<longrightarrow> distinct_keys (w_owners b) \<and> (\<forall>c \<in> fst ` set (w_owners b). \<not> remote_is_node c))"

section \<open>Links\<close>

lemma T_links_put [simp]: "T_links (put_T tm v A) = (T_links A)(tm := map_option tlink v)"
  "T_links (put_B bd b A) = T_links A" "T_links (out_A es A) = T_links A"
  by (auto simp: T_links_def)

lemma B_links_put [simp]: "B_links (put_B bd b A) = (B_links A)(bd := map_option blink b)"
  "B_links (put_T tm v A) = B_links A" "B_links (out_A es A) = B_links A"
  by (auto simp: B_links_def)

lemma same_link: "a_T A tm = Some v \<Longrightarrow> tlink v' = tlink v \<Longrightarrow> (T_links A)(tm \<mapsto> tlink v') = T_links A"
  "a_B A bd = Some b \<Longrightarrow> blink b' = blink b \<Longrightarrow> (B_links A)(bd \<mapsto> blink b') = B_links A"
  by (auto simp: T_links_def B_links_def)

lemma links_put_T:
  assumes "a_T A tm = Some v" "tlink v' = tlink v"
  shows "links_ok (put_T tm (Some v') A) = links_ok A" "complete (put_T tm (Some v') A) = complete A"
  by (simp_all add: links_ok_def complete_def same_link(1)[OF assms])

lemma links_put_B:
  assumes "a_B A bd = Some b" "blink b' = blink b"
  shows "links_ok (put_B bd (Some b') A) = links_ok A" "complete (put_B bd (Some b') A) = complete A"
  by (simp_all add: links_ok_def complete_def same_link(2)[OF assms])

lemma linksD:
  assumes "links T B"
  shows "T tm = Some (x, h, bd) \<Longrightarrow> id_valid tm" "T tm = Some (x, True, bd) \<Longrightarrow> bd = default_id"
    "T tm = Some (x, h, bd) \<Longrightarrow> id_valid bd \<Longrightarrow> B bd = Some (x, False, tm)"
    "B bd = Some (x, h, tm) \<Longrightarrow> id_valid bd \<and> \<not> h" "B bd = Some (x, h, tm) \<Longrightarrow> id_valid tm \<Longrightarrow> T tm = Some (x, False, bd)"
    "T i = Some (x, False, k) \<Longrightarrow> T j = Some (x, False, l) \<Longrightarrow> i = j"
    "B i = Some (x, False, k) \<Longrightarrow> B j = Some (x, False, l) \<Longrightarrow> i = j"
proof -
  note l = assms[unfolded links_def]
  note l2 = conjunct2[OF l] note l3 = conjunct2[OF l2] note l4 = conjunct2[OF l3] note l5 = conjunct2[OF l4] note l6 = conjunct2[OF l5]
  show "T tm = Some (x, h, bd) \<Longrightarrow> id_valid tm" by (rule conjunct1[OF l, rule_format])
  show "T tm = Some (x, True, bd) \<Longrightarrow> bd = default_id" by (rule conjunct1[OF l2, rule_format])
  show "T tm = Some (x, h, bd) \<Longrightarrow> id_valid bd \<Longrightarrow> B bd = Some (x, False, tm)" by (rule conjunct1[OF l3, rule_format])
  show "B bd = Some (x, h, tm) \<Longrightarrow> id_valid bd \<and> \<not> h" using conjunct1[OF l4] by blast
  show "B bd = Some (x, h, tm) \<Longrightarrow> id_valid tm \<Longrightarrow> T tm = Some (x, False, bd)" by (rule conjunct1[OF l5, rule_format])
  show "T i = Some (x, False, k) \<Longrightarrow> T j = Some (x, False, l) \<Longrightarrow> i = j" using conjunct1[OF l6] by blast
  show "B i = Some (x, False, k) \<Longrightarrow> B j = Some (x, False, l) \<Longrightarrow> i = j" using conjunct2[OF l6] by blast
qed

lemma T_links_Some: "a_T A tm = Some v \<Longrightarrow> T_links A tm = Some (v_ident v, v_hidden v, v_binding v)"
  by (simp add: T_links_def tlink_def)

lemma B_links_Some: "a_B A bd = Some b \<Longrightarrow> B_links A bd = Some (w_ident b, w_hidden b, w_terminal b)"
  by (simp add: B_links_def blink_def)

lemma links_okD:
  assumes "links_ok A"
  shows "a_T A tm = Some v \<Longrightarrow> id_valid tm"
    and "a_T A tm = Some v \<Longrightarrow> v_hidden v \<Longrightarrow> v_binding v = default_id"
    and "a_T A tm = Some v \<Longrightarrow> id_valid (v_binding v) \<Longrightarrow> \<exists>b. a_B A (v_binding v) = Some b \<and> blink b = (v_ident v, False, tm)"
    and "a_B A bd = Some b \<Longrightarrow> id_valid bd \<and> \<not> w_hidden b"
    and "a_B A bd = Some b \<Longrightarrow> id_valid (w_terminal b) \<Longrightarrow> \<exists>v. a_T A (w_terminal b) = Some v \<and> tlink v = (w_ident b, False, bd)"
proof -
  note l = linksD[OF assms[unfolded links_ok_def]]
  show "a_T A tm = Some v \<Longrightarrow> id_valid tm" using l(1)[OF T_links_Some] by simp
  show "a_T A tm = Some v \<Longrightarrow> v_hidden v \<Longrightarrow> v_binding v = default_id"
    using l(2)[of tm "v_ident v" "v_binding v"] T_links_Some[of A tm v] by simp
  show "a_B A bd = Some b \<Longrightarrow> id_valid bd \<and> \<not> w_hidden b" using l(4)[OF B_links_Some] by simp
  show "\<exists>b. a_B A (v_binding v) = Some b \<and> blink b = (v_ident v, False, tm)"
    if "a_T A tm = Some v" "id_valid (v_binding v)"
    using l(3)[OF T_links_Some[OF that(1)] that(2)] by (auto simp: B_links_def)
  show "\<exists>v. a_T A (w_terminal b) = Some v \<and> tlink v = (w_ident b, False, bd)"
    if "a_B A bd = Some b" "id_valid (w_terminal b)"
    using l(5)[OF B_links_Some[OF that(1)] that(2)] by (auto simp: T_links_def)
qed

lemma linksI:
  assumes "\<And>tm x h bd. T tm = Some (x, h, bd) \<Longrightarrow> id_valid tm" "\<And>tm x bd. T tm = Some (x, True, bd) \<Longrightarrow> bd = default_id"
    "\<And>tm x h bd. T tm = Some (x, h, bd) \<Longrightarrow> id_valid bd \<Longrightarrow> B bd = Some (x, False, tm)"
    "\<And>bd x h tm. B bd = Some (x, h, tm) \<Longrightarrow> id_valid bd \<and> \<not> h"
    "\<And>bd x h tm. B bd = Some (x, h, tm) \<Longrightarrow> id_valid tm \<Longrightarrow> T tm = Some (x, False, bd)"
    "\<And>i j x k l. T i = Some (x, False, k) \<Longrightarrow> T j = Some (x, False, l) \<Longrightarrow> i = j"
    "\<And>i j x k l. B i = Some (x, False, k) \<Longrightarrow> B j = Some (x, False, l) \<Longrightarrow> i = j"
  shows "links T B"
  unfolding links_def
  apply (intro conjI allI impI)
  subgoal by (rule assms(1))
  subgoal by (rule assms(2))
  subgoal by (rule assms(3))
  subgoal using assms(4) by blast
  subgoal using assms(4) by blast
  subgoal by (rule assms(5))
  subgoal by (rule assms(6))
  subgoal by (rule assms(7))
  done

lemma links_hide:
  assumes l: "links T B" and t: "T tm = Some (x, False, bd)"
  shows "links (T(tm \<mapsto> (x, True, default_id))) (if id_valid bd then B(bd \<mapsto> (x, False, default_id)) else B)"
proof (rule linksI)
  note d = linksD[OF l]
  let ?T = "T(tm \<mapsto> (x, True, default_id))"
  let ?B = "if id_valid bd then B(bd \<mapsto> (x, False, default_id)) else B"
  show "id_valid i" if "?T i = Some (y, h, k)" for i y h k using that d(1) t by (auto split: if_splits)
  show "k = default_id" if "?T i = Some (y, True, k)" for i y k using that d(2) by (auto split: if_splits)
  show "?B k = Some (y, False, i)" if "?T i = Some (y, h, k)" "id_valid k" for i y h k
    using that d(3)[of i y h k] d(3)[OF t] by (auto split: if_splits)
  show "id_valid i \<and> \<not> h" if "?B i = Some (y, h, k)" for i y h k using that d(4) by (auto split: if_splits)
  show "?T k = Some (y, False, i)" if "?B i = Some (y, h, k)" "id_valid k" for i y h k
  proof -
    have b: "B i = Some (y, h, k)" "i \<noteq> bd \<or> \<not> id_valid bd" using that by (auto split: if_splits)
    then have "T k = Some (y, False, i)" using d(5) that(2) by blast
    moreover have "k \<noteq> tm" using calculation t b(2) d(4)[OF b(1)] by auto
    ultimately show ?thesis by simp
  qed
  show "i = j" if "?T i = Some (y, False, k)" "?T j = Some (y, False, k')" for i j y k k'
    using that d(6) by (auto split: if_splits)
  show "i = j" if "?B i = Some (y, False, k)" "?B j = Some (y, False, k')" for i j y k k'
    using that d(7) d(3)[OF t] by (auto split: if_splits)
qed

lemma linked_hide:
  assumes "linked T B" "T tm = Some (x, False, bd)" "links T B"
  shows "linked (T(tm \<mapsto> (x, True, default_id))) (if id_valid bd then B(bd \<mapsto> (x, False, default_id)) else B)"
  using assms(1) linksD(3)[OF assms(3,2)] unfolding linked_def by (auto split: if_splits)

lemma links_erase:
  assumes l: "links T B" and t: "T tm = Some (x, True, bd)"
  shows "links (T(tm := None)) B"
proof (rule linksI)
  note d = linksD[OF l]
  let ?T = "T(tm := None)"
  show "id_valid i" if "?T i = Some (y, h, k)" for i y h k using that d(1) by (auto split: if_splits)
  show "k = default_id" if "?T i = Some (y, True, k)" for i y k using that d(2) by (auto split: if_splits)
  show "B k = Some (y, False, i)" if "?T i = Some (y, h, k)" "id_valid k" for i y h k using that d(3) by (auto split: if_splits)
  show "id_valid i \<and> \<not> h" if "B i = Some (y, h, k)" for i y h k using that d(4) by blast
  show "?T k = Some (y, False, i)" if "B i = Some (y, h, k)" "id_valid k" for i y h k using d(5)[OF that] t by auto
  show "i = j" if "?T i = Some (y, False, k)" "?T j = Some (y, False, k')" for i j y k k' using that d(6) by (auto split: if_splits)
  show "i = j" if "B i = Some (y, False, k)" "B j = Some (y, False, k')" for i j y k k' using that d(7) by blast
qed

lemma linked_erase: "linked T B \<Longrightarrow> linked (T(tm := None)) B" "linked T B \<Longrightarrow> linked T (B(bd := None))"
  unfolding linked_def by (auto split: if_splits)

text \<open>A new terminal takes the binding with its identifier, if there is one.\<close>

lemma links_new_T:
  assumes l: "links T B" and new: "T tm = None" "id_valid tm" "\<And>i k. T i \<noteq> Some (x, False, k)"
    and bd: "if id_valid bd then \<exists>k. B bd = Some (x, False, k) else bd = default_id"
  shows "links (T(tm \<mapsto> (x, False, bd))) (if id_valid bd then B(bd \<mapsto> (x, False, tm)) else B)"
proof (rule linksI)
  note d = linksD[OF l]
  let ?T = "T(tm \<mapsto> (x, False, bd))"
  let ?B = "if id_valid bd then B(bd \<mapsto> (x, False, tm)) else B"
  have free: "\<not> id_valid k" if "B bd = Some (x, h, k)" for k h
    using d(5)[of bd x h k] that new(3) by blast
  show "id_valid i" if "?T i = Some (y, h, k)" for i y h k using that d(1) new by (auto split: if_splits)
  show "k = default_id" if "?T i = Some (y, True, k)" for i y k using that d(2) by (auto split: if_splits)
  show "?B k = Some (y, False, i)" if "?T i = Some (y, h, k)" "id_valid k" for i y h k
  proof (cases "i = tm")
    case False
    then have T: "T i = Some (y, h, k)" using that by simp
    have "B k = Some (y, False, i)" by (rule d(3)[OF T that(2)])
    moreover have "k \<noteq> bd"
    proof
      assume "k = bd"
      then have "B bd = Some (x, False, i)" using calculation bd that(2) by auto
      from free[OF this] d(1)[OF T] show False by simp
    qed
    ultimately show ?thesis by simp
  qed (use that in auto)
  show "id_valid i \<and> \<not> h" if "?B i = Some (y, h, k)" for i y h k using that d(4) by (auto split: if_splits)
  show "?T k = Some (y, False, i)" if "?B i = Some (y, h, k)" "id_valid k" for i y h k
  proof (cases "id_valid bd \<and> i = bd")
    case True
    then show ?thesis using that by auto
  next
    case False
    then have B: "B i = Some (y, h, k)" using that by (auto split: if_splits)
    from d(5)[OF this that(2)] new(1) show ?thesis by auto
  qed
  show "i = j" if "?T i = Some (y, False, k)" "?T j = Some (y, False, k')" for i j y k k'
    using that d(6) new(3) by (auto split: if_splits)
  show "i = j" if "?B i = Some (y, False, k)" "?B j = Some (y, False, k')" for i j y k k'
    using that d(7) bd by (auto split: if_splits)
qed

lemma linked_new_T:
  assumes "linked T B" "links T B" "T tm = None"
    and bd: "\<And>i k. B i = Some (x, False, k) \<Longrightarrow> i = bd" "id_valid bd \<Longrightarrow> \<exists>k. B bd = Some (x, False, k)"
  shows "linked (T(tm \<mapsto> (x, False, bd))) (if id_valid bd then B(bd \<mapsto> (x, False, tm)) else B)"
  using assms unfolding linked_def by (auto split: if_splits)

text \<open>A binding that is removed leaves its terminal alone.\<close>

lemma links_erase_B:
  assumes l: "links T B" and b: "B bd = Some (x, False, tm)"
  shows "links (if id_valid tm then T(tm \<mapsto> (x, False, default_id)) else T) (B(bd := None))"
proof (rule linksI)
  note d = linksD[OF l]
  let ?T = "if id_valid tm then T(tm \<mapsto> (x, False, default_id)) else T"
  let ?B = "B(bd := None)"
  show "id_valid i" if "?T i = Some (y, h, k)" for i y h k using that d(1) by (auto split: if_splits)
  show "k = default_id" if "?T i = Some (y, True, k)" for i y k using that d(2) by (auto split: if_splits)
  show "?B k = Some (y, False, i)" if "?T i = Some (y, h, k)" "id_valid k" for i y h k
  proof -
    have T: "T i = Some (y, h, k)" "i \<noteq> tm \<or> \<not> id_valid tm" using that by (auto split: if_splits)
    from d(3)[OF T(1) that(2)] have B: "B k = Some (y, False, i)" .
    moreover have "k \<noteq> bd" using B b T(2) d(1)[OF T(1)] by auto
    ultimately show ?thesis by simp
  qed
  show "id_valid i \<and> \<not> h" if "?B i = Some (y, h, k)" for i y h k using that d(4) by (auto split: if_splits)
  show "?T k = Some (y, False, i)" if "?B i = Some (y, h, k)" "id_valid k" for i y h k
  proof -
    have B: "B i = Some (y, h, k)" "i \<noteq> bd" using that by (auto split: if_splits)
    from d(5)[OF B(1) that(2)] have T: "T k = Some (y, False, i)" .
    moreover have "\<not> (id_valid tm \<and> k = tm)" using T d(5)[OF b] B(2) by auto
    ultimately show ?thesis by auto
  qed
  show "i = j" if "?T i = Some (y, False, k)" "?T j = Some (y, False, k')" for i j y k k'
    using that d(6) d(5)[OF b] by (auto split: if_splits)
  show "i = j" if "?B i = Some (y, False, k)" "?B j = Some (y, False, k')" for i j y k k'
    using that d(7) by (auto split: if_splits)
qed

lemma linked_erase_B:
  assumes "linked T B" "links T B" "B bd = Some (x, False, tm)"
  shows "linked (if id_valid tm then T(tm \<mapsto> (x, False, default_id)) else T) (B(bd := None))"
  unfolding linked_def
proof (intro allI impI)
  fix i y k j m
  assume T: "(if id_valid tm then T(tm \<mapsto> (x, False, default_id)) else T) i = Some (y, False, k)"
    and B: "(B(bd := None)) j = Some (y, False, m)"
  have Bj: "B j = Some (y, False, m)" "j \<noteq> bd" using B by (auto split: if_splits)
  have "\<not> (id_valid tm \<and> i = tm)"
  proof
    assume "id_valid tm \<and> i = tm"
    then have "y = x" using T by simp
    then show False using linksD(7)[OF assms(2)] Bj assms(3) by blast
  qed
  then have "T i = Some (y, False, k)" using T by (auto split: if_splits)
  then show "k = j" using assms(1) Bj unfolding linked_def by blast
qed

text \<open>A new binding takes the visible terminal with its identifier, if there is one.\<close>

lemma links_new_B:
  assumes l: "links T B" and new: "B bd = None" "id_valid bd" "\<And>i k. B i \<noteq> Some (x, False, k)"
    and tm: "if id_valid tm then \<exists>k. T tm = Some (x, False, k) else tm = default_id"
  shows "links (if id_valid tm then T(tm \<mapsto> (x, False, bd)) else T) (B(bd \<mapsto> (x, False, tm)))"
proof (rule linksI)
  note d = linksD[OF l]
  let ?B = "B(bd \<mapsto> (x, False, tm))"
  let ?T = "if id_valid tm then T(tm \<mapsto> (x, False, bd)) else T"
  have free: "\<not> id_valid k" if "T tm = Some (x, h, k)" for k h
    using d(3)[of tm x h k] that new(3) by blast
  show "id_valid i" if "?T i = Some (y, h, k)" for i y h k using that d(1) by (auto split: if_splits)
  show "k = default_id" if "?T i = Some (y, True, k)" for i y k using that d(2) by (auto split: if_splits)
  show "?B k = Some (y, False, i)" if "?T i = Some (y, h, k)" "id_valid k" for i y h k
  proof (cases "id_valid tm \<and> i = tm")
    case True
    then show ?thesis using that by auto
  next
    case False
    then have T: "T i = Some (y, h, k)" using that by (auto split: if_splits)
    from d(3)[OF T that(2)] new(1) show ?thesis by auto
  qed
  show "id_valid i \<and> \<not> h" if "?B i = Some (y, h, k)" for i y h k using that d(4) new by (auto split: if_splits)
  show "?T k = Some (y, False, i)" if "?B i = Some (y, h, k)" "id_valid k" for i y h k
  proof (cases "i = bd")
    case False
    then have B: "B i = Some (y, h, k)" using that by simp
    have "T k = Some (y, False, i)" by (rule d(5)[OF B that(2)])
    moreover have "k \<noteq> tm"
    proof
      assume "k = tm"
      then have "T tm = Some (x, False, i)" using calculation tm that(2) by auto
      from free[OF this] d(4)[OF B] show False by simp
    qed
    ultimately show ?thesis by simp
  qed (use that in auto)
  show "i = j" if "?T i = Some (y, False, k)" "?T j = Some (y, False, k')" for i j y k k'
    using that d(6) tm by (auto split: if_splits)
  show "i = j" if "?B i = Some (y, False, k)" "?B j = Some (y, False, k')" for i j y k k'
    using that d(7) new(3) by (auto split: if_splits)
qed

lemma linked_new_B:
  assumes "linked T B" "links T B" and new: "\<And>i k. B i \<noteq> Some (x, False, k)"
    and tm: "\<And>i k. T i = Some (x, False, k) \<Longrightarrow> i = tm" "id_valid tm \<Longrightarrow> \<exists>k. T tm = Some (x, False, k)"
  shows "linked (if id_valid tm then T(tm \<mapsto> (x, False, bd)) else T) (B(bd \<mapsto> (x, False, tm)))"
proof -
  have valid: "id_valid tm" if "T i = Some (x, False, k)" for i k using tm(1)[OF that] that linksD(1)[OF assms(2) that] by simp
  show ?thesis unfolding linked_def
  proof (intro allI impI)
    fix i y k j l
    assume T: "(if id_valid tm then T(tm \<mapsto> (x, False, bd)) else T) i = Some (y, False, k)"
      and B: "(B(bd \<mapsto> (x, False, tm))) j = Some (y, False, l)"
    show "k = j"
    proof (cases "id_valid tm \<and> i = tm")
      case True
      then have y: "y = x" "k = bd" using T by auto
      show ?thesis
      proof (rule ccontr)
        assume "k \<noteq> j"
        then have "B j = Some (x, False, l)" using B y by auto
        then show False using new by blast
      qed
    next
      case False
      then have Ti: "T i = Some (y, False, k)" using T by (auto split: if_splits)
      have "j \<noteq> bd"
      proof
        assume "j = bd"
        then have "y = x" using B by simp
        then show False using valid Ti tm(1) False by blast
      qed
      then have "B j = Some (y, False, l)" using B by simp
      then show ?thesis using assms(1) Ti unfolding linked_def by blast
    qed
  qed
qed

lemma links_out [simp]: "links_ok (out_A es A) = links_ok A" "complete (out_A es A) = complete A"
  "bindings_ok g (out_A es A) = bindings_ok g A" "conns_ok (out_A es A) = conns_ok A" "local_ok s g (out_A es A) v = local_ok s g A v"
  by (simp_all add: links_ok_def complete_def bindings_ok_def conns_ok_def local_ok_def)

lemma inv_out [simp]: "inv s g (out_A es A) = inv s g A"
  by (simp add: inv_def)

lemma others_put [simp]: "bindings_ok g (put_T tm v A) = bindings_ok g A" "conns_ok (put_T tm v A) = conns_ok A"
  "conns_ok (put_B bd b A) = conns_ok A" "local_ok s g (put_T tm v A) w = local_ok s g A w"
  "local_ok s g (put_B bd b A) w = local_ok s g A w"
  by (simp_all add: bindings_ok_def conns_ok_def local_ok_def)

section \<open>Maps of state machines\<close>

lemma fsms_okD:
  assumes "fsms_ok P k C m"
  shows "distinct_keys m" "map_of m c = Some f \<Longrightarrow> c \<in> C \<and> remote_is_node c = k \<and> P f"
    "c \<in> fst ` set m \<Longrightarrow> c \<in> C \<and> remote_is_node c = k"
  using assms by (auto simp: fsms_ok_def dest: map_of_SomeD)

lemma fsms_ok_update:
  assumes "fsms_ok P k C m" "c \<in> C" "remote_is_node c = k" "P f"
  shows "fsms_ok P k C (AList.update c f m)"
proof -
  have "\<forall>(c', f') \<in> set (AList.update c f m). (c', f') = (c, f) \<or> (c', f') \<in> set m"
    by (induction m) auto
  then show ?thesis using assms distinct_keys_update[of m c f] unfolding fsms_ok_def by fastforce
qed

lemma fsms_ok_delete: "fsms_ok P k C m \<Longrightarrow> fsms_ok P k C (AList.delete c m)"
  using distinct_keys_delete[of m c] unfolding fsms_ok_def by (auto simp: AList.delete_eq)

lemma fsms_ok_delete_gone: "fsms_ok P k (insert c C) m \<Longrightarrow> fsms_ok P k C (AList.delete c m)"
  using distinct_keys_delete[of m c] unfolding fsms_ok_def by (auto simp: AList.delete_eq)

lemma fsms_ok_mono: "fsms_ok P k C m \<Longrightarrow> C \<subseteq> D \<Longrightarrow> fsms_ok P k D m"
  unfolding fsms_ok_def by auto

lemma fsms_ok_Nil [simp]: "fsms_ok P k C []"
  by (simp add: fsms_ok_def)

lemma map_of_ensure: "map_of (ensure_fsm c m) d = (if d = c \<and> map_of m c = None then Some fsm_init else map_of m d)"
  by (auto simp: ensure_fsm_def map_add_def split: option.splits)

lemma update_ensure [simp]: "AList.update c f (ensure_fsm c m) = AList.update c f m"
proof -
  have "AList.update c f (m @ [(c, fsm_init)]) = AList.update c f m" if "map_of m c = None"
    using that by (induction m) (auto split: if_splits)
  then show ?thesis by (simp add: ensure_fsm_def)
qed

lemma update_not_Nil [simp]: "AList.update c f m \<noteq> []"
  by (cases m) auto

lemma length_update: "length (AList.update c f m) = (if map_of m c = None then Suc (length m) else length m)"
  by (induction m) (auto split: if_splits)

lemma keys_update: "map fst (AList.update c f m) = (if map_of m c = None then map fst m @ [c] else map fst m)"
  by (induction m) (auto split: if_splits)

section \<open>Composite primitives\<close>

lemma tview_map_users: "tview_of (e\<lparr>el_data := map_users g (el_data e)\<rparr>) = (tview_of e)\<lparr>v_users := g (v_users (tview_of e))\<rparr>"
  by (simp add: tview_of_def map_users_def)

definition vowners :: "connection \<Rightarrow> tview \<Rightarrow> fsm_map" where
  "vowners c v = (if remote_is_node c then v_nodes v else v_leafs v)"

definition set_owners :: "connection \<Rightarrow> fsm_map \<Rightarrow> tview \<Rightarrow> tview" where
  "set_owners c m v = (if remote_is_node c then v\<lparr>v_nodes := m\<rparr> else v\<lparr>v_leafs := m\<rparr>)"

lemma tview_map_owners:
  "tview_of (e\<lparr>el_data := map_owners c g (el_data e)\<rparr>) = set_owners c (g (vowners c (tview_of e))) (tview_of e)"
  by (simp add: tview_of_def map_owners_def set_owners_def vowners_def)

lemma tview_state: "tview_of (e\<lparr>el_data := (el_data e)\<lparr>nt_state := owners_state (el_data e)\<rparr>\<rparr>) =
    (tview_of e)\<lparr>v_state := vstate (tview_of e)\<rparr>"
  by (simp add: tview_of_def vstate_def owners_state_def)

lemma set_owners_simps [simp]:
  "v_ident (set_owners c m v) = v_ident v" "v_hidden (set_owners c m v) = v_hidden v" "v_state (set_owners c m v) = v_state v"
  "v_users (set_owners c m v) = v_users v" "v_binding (set_owners c m v) = v_binding v" "v_subs (set_owners c m v) = v_subs v"
  "vowners c (set_owners c m v) = m" "set_owners c m (set_owners c m' v) = set_owners c m v"
  "set_owners c (vowners c v) v = v"
  by (simp_all add: set_owners_def vowners_def)

lemma nt_owners_view:
  "nt_owningLeafs t = v_leafs v \<Longrightarrow> nt_owningNodes t = v_nodes v \<Longrightarrow> nt_owners c t = vowners c v"
  by (simp add: nt_owners_def vowners_def)

lemma tlink_simps [simp]:
  "tlink (v\<lparr>v_users := u\<rparr>) = tlink v" "tlink (v\<lparr>v_state := st\<rparr>) = tlink v" "tlink (v\<lparr>v_subs := sb\<rparr>) = tlink v"
  "tlink (set_owners c m v) = tlink v" "blink (b\<lparr>w_owners := ow\<rparr>) = blink b"
  by (simp_all add: tlink_def blink_def)

fun user_out :: "ident \<Rightarrow> connection \<Rightarrow> id \<Rightarrow> fsm_out \<Rightarrow> node_event list option" where
  "user_out x c tm SendDesc = Some [Node_Sent c (TerminalDescription x tm)]"
| "user_out x c tm (SendRem m) = Some [Node_Sent c (TerminalRemoved m)]"
| "user_out x c tm (MappStChanged b) = Some []"
| "user_out x c tm _ = None"

fun owner_out :: "connection \<Rightarrow> id \<Rightarrow> id \<Rightarrow> fsm_out \<Rightarrow> node_event list option" where
  "owner_out c tm i SendMapp = Some [Node_Sent c (TerminalMapping i tm)]"
| "owner_out c tm i (SendRemAck m) = Some [Node_Sent c (TerminalRemovedAck m)]"
| "owner_out c tm i (MappStChanged b) = Some []"
| "owner_out c tm i _ = None"

fun binding_out :: "connection \<Rightarrow> id \<Rightarrow> id \<Rightarrow> fsm_out \<Rightarrow> node_event list option" where
  "binding_out c tm i SendMapp = Some [Node_Sent c (BindingMapping i tm)]"
| "binding_out c tm i (SendRemAck m) = Some [Node_Sent c (BindingRemovedAck m)]"
| "binding_out c tm i (MappStChanged b) = Some []"
| "binding_out c tm i _ = None"

fun outs_of :: "('o \<Rightarrow> node_event list option) \<Rightarrow> 'o list \<Rightarrow> node_event list option" where
  "outs_of g [] = Some []"
| "outs_of g (x # xs) = do { a \<leftarrow> g x; b \<leftarrow> outs_of g xs; Some (a @ b) }"

lemma wp_outs:
  fixes n :: "('te, 'x) node"
  assumes "sees n A" "outs_of g xs = Some es"
    and "\<And>x es n A. g x = Some es \<Longrightarrow> sees n A \<Longrightarrow> wp tot (f x n) (\<lambda>n'. sees n' (out_A es A))"
    and "\<And>n'. sees n' (out_A es A) \<Longrightarrow> Q n'"
  shows "wp tot (for_each xs f n) Q"
proof -
  have "wp tot (for_each xs f n) (\<lambda>n'. sees n' (out_A es A))"
    using assms(1,2)
  proof (induction xs arbitrary: n A es)
    case (Cons x xs)
    obtain a b where ab: "g x = Some a" "outs_of g xs = Some b" "es = a @ b"
      using Cons.prems(2) by (auto simp: bind_eq_Some_conv)
    have "wp tot (f x n) (\<lambda>n1. wp tot (for_each xs f n1) (\<lambda>n'. sees n' (out_A es A)))"
    proof (rule wp_mono[OF assms(3)[OF ab(1) Cons.prems(1)]])
      fix n1 :: "('te, 'x) node"
      assume "sees n1 (out_A a A)"
      from Cons.IH[OF this ab(2)] show "wp tot (for_each xs f n1) (\<lambda>n'. sees n' (out_A es A))" by (simp add: ab(3))
    qed
    then show ?case by (auto intro: wp_bind)
  qed simp
  then show ?thesis using assms(4) by (rule wp_mono)
qed

lemma wp_user_callback: "user_out x c tm p = Some es \<Longrightarrow> sees n A \<Longrightarrow> wp tot (user_callback x c tm p n) (\<lambda>n'. sees n' (out_A es A))"
  by (cases p) (auto simp: user_callback_def intro: sees_nsend)

lemma wp_owner_callback: "owner_out c tm i p = Some es \<Longrightarrow> sees n A \<Longrightarrow> wp tot (owner_callback c tm i p n) (\<lambda>n'. sees n' (out_A es A))"
  by (cases p) (auto simp: owner_callback_def intro: sees_nsend)

lemma wp_binding_callback:
  "binding_out c tm i p = Some es \<Longrightarrow> sees n A \<Longrightarrow> wp tot (binding_owner_callback c tm i p n) (\<lambda>n'. sees n' (out_A es A))"
  by (cases p) (auto simp: binding_owner_callback_def intro: sees_nsend)

lemma wp_user_fsm:
  fixes n :: "('te, 'x) node"
  assumes s: "sees n A" and v: "a_T A tm = Some v" and c: "map_of (v_users v) c = Some f" and call: "call f = Some (f', outs, alive)"
    and es: "outs_of (user_out (v_ident v) c tm) outs = Some es"
    and Q: "\<And>n'. sees n' (out_A es (put_T tm (Some (v\<lparr>v_users := AList.update c f' (v_users v)\<rparr>)) A)) \<Longrightarrow> Q (alive, n')"
  shows "wp tot (user_fsm tm c call n) Q"
  unfolding user_fsm_def
proof (rule wp_bind, rule wp_find_nt[OF s v], rule wp_bind)
  fix e :: "'te node_terminal element"
  assume e: "find_id (nd_terminals n) tm = Some e" "el_ident e = v_ident v" "nt_usingNodes (el_data e) = v_users v"
  let ?Q = "\<lambda>g. wp tot (call g) (\<lambda>(f', outs, alive). wp tot (modify_nt tm (map_users (AList.update c f')) n)
    (\<lambda>n1. wp tot (for_each outs (user_callback (el_ident e) c tm) n1) (\<lambda>n2. Q (alive, n2))))"
  have 1: "wp tot (modify_nt tm (map_users (AList.update c f')) n)
    (\<lambda>n1. wp tot (for_each outs (user_callback (el_ident e) c tm) n1) (\<lambda>n2. Q (alive, n2)))"
    by (rule wp_modify_nt[OF s v tview_map_users], rule wp_outs[OF _ es[folded e(2)] wp_user_callback Q])
  show "wp tot (map_of (nt_usingNodes (el_data e)) c) (\<lambda>f. wp tot (call f \<bind> (\<lambda>(f', outs, alive). do {
      n1 \<leftarrow> modify_nt tm (map_users (AList.update c f')) n;
      n2 \<leftarrow> for_each outs (user_callback (el_ident e) c tm) n1; Some (alive, n2) })) Q)"
    unfolding e(3) c wp_Some call by (auto intro!: wp_bind wp_mono[OF 1] elim!: wp_mono)
qed

lemma wp_owner_fsm:
  fixes n :: "('te, 'x) node"
  assumes s: "sees n A" and v: "a_T A tm = Some v" and c: "map_of (vowners c v) c = Some f" and call: "call f = Some (f', outs, alive)"
    and es: "outs_of (owner_out c tm i) outs = Some es"
    and Q: "\<And>n'. sees n' (out_A es (put_T tm (Some (set_owners c (AList.update c f' (vowners c v)) v)) A)) \<Longrightarrow> Q (outs, n')"
  shows "wp tot (owner_fsm tm c i call n) Q"
  unfolding owner_fsm_def
proof (rule wp_bind, rule wp_get_nt[OF s v], rule wp_bind)
  fix t :: "'te node_terminal"
  assume t: "nt_owningLeafs t = v_leafs v" "nt_owningNodes t = v_nodes v"
  have 1: "wp tot (modify_nt tm (map_owners c (AList.update c f')) n)
    (\<lambda>n1. wp tot (for_each outs (owner_callback c tm i) n1) (\<lambda>n2. Q (outs, n2)))"
    by (rule wp_modify_nt[OF s v tview_map_owners], rule wp_outs[OF _ es wp_owner_callback Q])
  show "wp tot (map_of (nt_owners c t) c) (\<lambda>f. wp tot (call f \<bind> (\<lambda>(f', outs, _). do {
      n1 \<leftarrow> modify_nt tm (map_owners c (AList.update c f')) n;
      n2 \<leftarrow> for_each outs (owner_callback c tm i) n1; Some (outs, n2) })) Q)"
    unfolding nt_owners_view[OF t] c wp_Some call by (auto intro!: wp_bind wp_mono[OF 1] elim!: wp_mono)
qed

lemma wp_binding_owner_fsm:
  fixes n :: "('te, 'x) node"
  assumes s: "sees n A" and b: "a_B A bd = Some b" and c: "map_of (w_owners b) c = Some f" and call: "call f = Some (f', outs, alive)"
    and es: "outs_of (binding_out c bd i) outs = Some es"
    and Q: "\<And>n'. sees n' (out_A es (put_B bd (Some (b\<lparr>w_owners := AList.update c f' (w_owners b)\<rparr>)) A)) \<Longrightarrow> Q (outs, n')"
  shows "wp tot (binding_owner_fsm bd c i call n) Q"
  unfolding binding_owner_fsm_def
proof (rule wp_bind, rule wp_get_nb[OF s b], rule wp_bind)
  fix t
  assume t: "nb_owningLeafs t = w_owners b"
  have 1: "wp tot (modify_nb bd (\<lambda>b. b\<lparr>nb_owningLeafs := AList.update c f' (nb_owningLeafs b)\<rparr>) n)
    (\<lambda>n1. wp tot (for_each outs (binding_owner_callback c bd i) n1) (\<lambda>n2. Q (outs, n2)))"
    by (rule wp_modify_nb[OF s b, where g = "\<lambda>b. b\<lparr>w_owners := AList.update c f' (w_owners b)\<rparr>"], simp add: bview_of_def,
        rule wp_outs[OF _ es wp_binding_callback Q])
  show "wp tot (map_of (nb_owningLeafs t) c) (\<lambda>f. wp tot (call f \<bind> (\<lambda>(f', outs, _). do {
      n1 \<leftarrow> modify_nb bd (\<lambda>b. b\<lparr>nb_owningLeafs := AList.update c f' (nb_owningLeafs b)\<rparr>) n;
      n2 \<leftarrow> for_each outs (binding_owner_callback c bd i) n1; Some (outs, n2) })) Q)"
    unfolding t c wp_Some call by (auto intro!: wp_bind wp_mono[OF 1] elim!: wp_mono)
qed

text \<open>A user that was just told about the terminal.\<close>

definition told :: fsm where
  "told = \<lparr>m_state = UNUSED_UNCONFIRMED, m_skipRemovedAcks = 0, m_mappedId = default_id\<rparr>"

lemma reset_told: "reset_call False f = Some (told, [SendDesc], True)"
  by (simp add: reset_call_def keep_def fsm_reset_def told_def)

lemma wp_reset_user:
  fixes n :: "('te, 'x) node"
  assumes s: "sees n A" and v: "a_T A tm = Some v"
    and Q: "\<And>n'. sees n' (out_A [Node_Sent c (TerminalDescription (v_ident v) tm)]
      (put_T tm (Some (v\<lparr>v_users := AList.update c told (v_users v)\<rparr>)) A)) \<Longrightarrow> Q n'"
  shows "wp tot (reset_user tm c n) Q"
  unfolding reset_user_def
proof (rule wp_bind, rule wp_modify_nt[OF s v tview_map_users], rule wp_bind)
  fix n1 :: "('te, 'x) node"
  assume s1: "sees n1 (put_T tm (Some (v\<lparr>v_users := ensure_fsm c (v_users v)\<rparr>)) A)"
  have "\<exists>f. map_of (v_users (v\<lparr>v_users := ensure_fsm c (v_users v)\<rparr>)) c = Some f" by (auto simp: map_of_ensure)
  then obtain f where f: "map_of (v_users (v\<lparr>v_users := ensure_fsm c (v_users v)\<rparr>)) c = Some f" by blast
  show "wp tot (user_fsm tm c (reset_call False) n1) (\<lambda>r. wp tot (case r of (_, n2) \<Rightarrow> Some n2) Q)"
    by (rule wp_user_fsm[OF s1 _ f reset_told]) (auto simp: put_T_def intro: Q)
qed

end
