(* ===== verification/Node_Handlers.thy ===== *)
theory Node_Handlers
  imports Node_Invariant
begin

text \<open>
  Every handler of the node logic keeps the invariant, never fails an assertion where the virtual
  functions do not, and tells the leafs about their bindings exactly what changes for them.
\<close>

section \<open>What a class may do\<close>

text \<open>\<^verbatim>\<open>on_terminal_owner_removed\<close> of the subscribable classes forgets subscribers.\<close>

definition drop_subs :: "tview \<Rightarrow> tview" where
  "drop_subs v = (if v_leafs v \<noteq> [] then v
     else if v_nodes v = [] then v\<lparr>v_subs := []\<rparr>
     else if length (v_nodes v) = 1 then v\<lparr>v_subs := AList.delete (fst (hd (v_nodes v))) (v_subs v)\<rparr> else v)"

locale node_class =
  fixes h :: "('te, 'x) node_hooks" and tot s :: bool
  assumes owner_added: "\<And>n A tm v c i. sees n A \<Longrightarrow> inv s {} A \<Longrightarrow> a_T A tm = Some v \<Longrightarrow> map_of (vowners c v) c \<noteq> None \<Longrightarrow>
      wp tot (nh_owner_added h c tm i n) (\<lambda>n'. sees n' A)"
    and owner_remapped: "\<And>n A tm v c i. sees n A \<Longrightarrow> inv s {} A \<Longrightarrow> a_T A tm = Some v \<Longrightarrow> map_of (vowners c v) c \<noteq> None \<Longrightarrow>
      wp tot (nh_owner_remapped h c tm i n) (\<lambda>n'. sees n' A)"
    and owner_removed: "\<And>n A tm v c. sees n A \<Longrightarrow> winv A \<Longrightarrow> a_T A tm = Some v \<Longrightarrow> \<not> s \<longrightarrow> v_subs v = [] \<Longrightarrow>
      wp tot (nh_owner_removed h c tm n) (\<lambda>n'. sees n' (put_T tm (Some (drop_subs v)) A))"
    and user_removed: "\<And>n A tm v c. sees n A \<Longrightarrow> winv A \<Longrightarrow> a_T A tm = Some v \<Longrightarrow> \<not> s \<longrightarrow> v_subs v = [] \<Longrightarrow>
      map_of (v_users v) c = None \<Longrightarrow>
      wp tot (nh_user_removed h c tm n) (\<lambda>n'. sees n' (put_T tm (Some (v\<lparr>v_subs := AList.delete c (v_subs v)\<rparr>)) A))"
    and binding_owner_added: "\<And>n A bd b c i. sees n A \<Longrightarrow> inv s {} A \<Longrightarrow> a_B A bd = Some b \<Longrightarrow> map_of (w_owners b) c \<noteq> None \<Longrightarrow>
      wp tot (nh_binding_owner_added h c bd i n) (\<lambda>n'. sees n' A)"
    and binding_owner_remapped: "\<And>n A bd b c i. sees n A \<Longrightarrow> inv s {} A \<Longrightarrow> a_B A bd = Some b \<Longrightarrow> map_of (w_owners b) c \<noteq> None \<Longrightarrow>
      wp tot (nh_binding_owner_remapped h c bd i n) (\<lambda>n'. sees n' A)"
    and binding_owner_removed: "\<And>n A bd b c. sees n A \<Longrightarrow> winv A \<Longrightarrow> a_B A bd = Some b \<Longrightarrow> map_of (w_owners b) c = None \<Longrightarrow>
      \<not> remote_is_node c \<Longrightarrow> wp tot (nh_binding_owner_removed h c bd n) (\<lambda>n'. sees n' A)"

text \<open>Deaf-mute terminals satisfy the contract with virtual functions that do nothing.\<close>

lemma drop_no_subs: "v_subs v = [] \<Longrightarrow> drop_subs v = v"
  by (cases v) (simp add: drop_subs_def)

lemma put_T_same: "a_T A tm = Some v \<Longrightarrow> put_T tm (Some v) A = A"
  by (simp add: put_T_def map_upd_triv)

interpretation deaf_mute_node: node_class "no_hooks e" True False for e :: 'te
  by unfold_locales (simp_all add: no_hooks_def drop_no_subs put_T_same)

section \<open>Events about bindings\<close>

text \<open>A binding of connection \<open>c\<close> is established if another connection owns the terminal.\<close>

definition owned_elsewhere :: "tview \<Rightarrow> connection \<Rightarrow> bool" where
  "owned_elsewhere v c \<longleftrightarrow> (\<exists>d \<in> fst ` set (v_leafs v @ v_nodes v). d \<noteq> c)"

fun status_event :: "node_event \<Rightarrow> bool" where
  "status_event (Node_Sent c (BindingEstablished i)) = True"
| "status_event (Node_Sent c (BindingReleased i)) = True"
| "status_event (Known_Terminals_Changed x b) = True"
| "status_event _ = False"

definition tell_binding_owners :: "(id \<Rightarrow> body) \<Rightarrow> (connection \<Rightarrow> bool) \<Rightarrow> fsm_map \<Rightarrow> node_event list" where
  "tell_binding_owners m P owners = map (\<lambda>(c, f). Node_Sent c (m (m_mappedId f))) (filter (\<lambda>(c, f). P c) owners)"

lemma tell_simps [simp]: "tell_binding_owners m P [] = []"
  "tell_binding_owners m P ((c, f) # xs) = (if P c then [Node_Sent c (m (m_mappedId f))] else []) @ tell_binding_owners m P xs"
  by (simp_all add: tell_binding_owners_def)

lemma tell_none: "(\<And>c f. (c, f) \<in> set owners \<Longrightarrow> \<not> P c) \<Longrightarrow> tell_binding_owners m P owners = []"
  by (induction owners) (auto simp: tell_binding_owners_def)

lemma tell_cong: "(\<And>c f. (c, f) \<in> set owners \<Longrightarrow> P c = P' c) \<Longrightarrow> tell_binding_owners m P owners = tell_binding_owners m P' owners"
  unfolding tell_binding_owners_def by (metis (mono_tags, lifting) case_prod_beta filter_cong prod.collapse)

lemma tell_one:
  "distinct_keys owners \<Longrightarrow> tell_binding_owners m (\<lambda>c. c = d) owners =
     (case map_of owners d of None \<Rightarrow> [] | Some f \<Rightarrow> [Node_Sent d (m (m_mappedId f))])"
proof (induction owners)
  case (Cons a owners)
  obtain c f where a: "a = (c, f)" by force
  have "tell_binding_owners m (\<lambda>c. c = d) owners = []" if "c = d"
    using Cons.prems that a by (intro tell_none) (auto simp: image_iff)
  then show ?case using Cons a by auto
qed simp

lemma wp_tell:
  fixes n :: "('te, 'x) node"
  assumes s: "sees n A" and m: "\<And>i. base_body (m i)"
    and Q: "\<And>n'. sees n' (out_A (tell_binding_owners m P owners) A) \<Longrightarrow> Q n'"
  shows "wp tot (for_each owners (\<lambda>(c, f) n. Some (if P c then nsend c (m (m_mappedId f)) n else n)) n) Q"
proof -
  define g where "g = (\<lambda>(c, f). Some (tell_binding_owners m P [(c, f)]))"
  have "outs_of g owners = Some (tell_binding_owners m P owners)"
    by (induction owners) (auto simp: g_def)
  then show ?thesis
  proof (rule wp_outs[OF s _ _ Q])
    fix x es A and n :: "('te, 'x) node"
    assume "g x = Some es" "sees n A"
    then show "wp tot ((case x of (c, f) \<Rightarrow> (\<lambda>n. Some (if P c then nsend c (m (m_mappedId f)) n else n))) n) (\<lambda>n'. sees n' (out_A es A))"
      by (cases x) (auto simp: g_def intro: sees_nsend[OF _ m])
  qed
qed

section \<open>Abandoned terminals\<close>

definition abandoned :: "fsm \<Rightarrow> fsm" where
  "abandoned f = (if fsm_destroyed f then f
     else if m_state f = MAPPED_CONFIRMED then f\<lparr>m_state := AWAIT_ACK\<rparr> else f\<lparr>m_state := AWAIT_CONFIRMATION\<rparr>)"

definition abandon_event :: "connection \<Rightarrow> fsm \<Rightarrow> node_event list" where
  "abandon_event c f = (if m_state f = MAPPED_CONFIRMED then [Node_Sent c (TerminalRemoved (m_mappedId f))] else [])"

lemma abandoned_ok: "user_ok f \<Longrightarrow> user_ok (abandoned f) \<and> fsm_destroyed (abandoned f)"
  by (auto simp: user_ok_def abandoned_def fsm_destroyed_def)

lemma destroy_user:
  assumes "user_ok f" "\<not> fsm_destroyed f"
  shows "\<exists>outs. process_object_destroyed f = Some (abandoned f, outs, True) \<and> outs_of (user_out x c tm) outs = Some (abandon_event c f)"
  using assms by (auto simp: user_ok_def abandoned_def fsm_destroyed_def process_object_destroyed_def abandon_event_def)

definition abandon_all :: "fsm_map \<Rightarrow> fsm_map" where
  "abandon_all us = map (\<lambda>(c, f). (c, abandoned f)) us"

definition abandon_events :: "fsm_map \<Rightarrow> node_event list" where
  "abandon_events us = concat (map (\<lambda>(c, f). if fsm_destroyed f then [] else abandon_event c f) us)"

lemma abandon_all_simps [simp]: "map fst (abandon_all us) = map fst us" "abandon_all us = [] \<longleftrightarrow> us = []"
  by (auto simp: abandon_all_def case_prod_beta)

lemma update_middle: "c \<notin> fst ` set xs \<Longrightarrow> AList.update c g (xs @ (c, f) # ys) = xs @ (c, g) # ys"
  by (induction xs) auto

lemma abandon_events_status [simp]: "filter status_event (abandon_events us) = []"
  by (induction us) (auto simp: abandon_events_def abandon_event_def)

context node_class begin

lemma wp_abandon:
  fixes n :: "('te, 'x) node"
  assumes s: "sees n A" and v: "a_T A tm = Some v" and us: "fsms_ok user_ok k C (v_users v)"
    and exn: "\<And>c f. exn = Some c \<Longrightarrow> map_of (v_users v) c = Some f \<Longrightarrow> fsm_destroyed f"
    and Q: "\<And>n'. sees n' (out_A (abandon_events (v_users v)) (put_T tm (Some (v\<lparr>v_users := abandon_all (v_users v)\<rparr>)) A)) \<Longrightarrow> Q n'"
  shows "wp tot (update_users_for_abandoned_terminal h exn tm n) Q"
  unfolding update_users_for_abandoned_terminal_def
proof (rule wp_bind, rule wp_get_nt[OF s v])
  fix t :: "'te node_terminal"
  assume t: "nt_usingNodes t = v_users v"
  let ?body = "\<lambda>c n. do {
       t \<leftarrow> get_nt n tm;
       f \<leftarrow> map_of (nt_usingNodes t) c;
       if exn = Some c \<or> fsm_destroyed f then Some n
       else do {
         (alive, n1) \<leftarrow> user_fsm tm c process_object_destroyed n;
         if alive then Some n1
         else do {
           n2 \<leftarrow> modify_nt tm (map_users (AList.delete c)) n1;
           nh_user_removed h c tm n2 } } }"
  have loop: "wp tot (for_each (map fst ys) ?body u) Q"
    if "xs @ ys = v_users v"
      "sees u (out_A (abandon_events xs) (put_T tm (Some (v\<lparr>v_users := abandon_all xs @ ys\<rparr>)) A))" for xs ys u
    using that
  proof (induction ys arbitrary: xs u)
    case Nil
    then show ?case using Q by simp
  next
    case (Cons y ys)
    obtain c f where y: "y = (c, f)" by force
    have us': "distinct_keys (xs @ (c, f) # ys)" "user_ok f"
      using us unfolding fsms_ok_def Cons.prems(1)[symmetric] y by auto
    have c: "c \<notin> fst ` set xs" "map_of (v_users v) c = Some f" "user_ok f"
      using us' map_of_is_SomeI[OF us'(1), of c f] unfolding Cons.prems(1)[symmetric] y by auto
    define w where "w = v\<lparr>v_users := abandon_all xs @ y # ys\<rparr>"
    have su: "sees u (out_A (abandon_events xs) (put_T tm (Some w) A))" using Cons.prems(2) by (simp add: w_def)
    have w: "a_T (out_A (abandon_events xs) (put_T tm (Some w) A)) tm = Some w" by simp
    have cx: "c \<notin> fst ` set (abandon_all xs)" using c(1) by (auto simp: abandon_all_def image_iff)
    have wc: "map_of (v_users w) c = Some f"
      using cx y by (simp add: w_def map_add_def map_of_eq_None_iff[symmetric])
    have "wp tot (?body c u) (\<lambda>u'. sees u' (out_A (abandon_events (xs @ [y])) (put_T tm (Some (v\<lparr>v_users := abandon_all (xs @ [y]) @ ys\<rparr>)) A)))"
    proof (rule wp_bind, rule wp_get_nt[OF su w], rule wp_bind)
      fix t' :: "'te node_terminal"
      assume t': "nt_usingNodes t' = v_users w"
      show "wp tot (map_of (nt_usingNodes t') c) (\<lambda>f. wp tot (if exn = Some c \<or> fsm_destroyed f then Some u
        else do { (alive, n1) \<leftarrow> user_fsm tm c process_object_destroyed u;
          if alive then Some n1 else do { n2 \<leftarrow> modify_nt tm (map_users (AList.delete c)) n1; nh_user_removed h c tm n2 } })
        (\<lambda>u'. sees u' (out_A (abandon_events (xs @ [y])) (put_T tm (Some (v\<lparr>v_users := abandon_all (xs @ [y]) @ ys\<rparr>)) A))))"
      proof (cases "fsm_destroyed f")
        case True
        then show ?thesis unfolding t' wc using su by (simp add: w_def y abandon_all_def abandon_events_def abandoned_def)
      next
        case False
        then have ne: "exn \<noteq> Some c" using exn c(2) by blast
        obtain outs where outs: "process_object_destroyed f = Some (abandoned f, outs, True)"
          "outs_of (user_out (v_ident w) c tm) outs = Some (abandon_event c f)"
          using destroy_user[OF c(3) False] by blast
        have upd: "AList.update c (abandoned f) (v_users w) = abandon_all (xs @ [y]) @ ys"
          using cx by (simp add: w_def y update_middle abandon_all_def)
        show ?thesis unfolding t' wc
          using False ne
          by (simp, intro wp_bind wp_user_fsm[where call = process_object_destroyed, OF su w wc outs])
            (simp add: upd, simp add: w_def y abandon_events_def False)
      qed
    qed
    then have "wp tot (?body c u) (\<lambda>u'. wp tot (for_each (map fst ys) ?body u') Q)"
      by (rule wp_mono) (rule Cons.IH, use Cons.prems(1) in auto)
    then show ?case unfolding y list.map for_each.simps fst_conv by (rule wp_bind)
  qed
  show "wp tot (for_each (map fst (nt_usingNodes t)) ?body n) Q"
    unfolding t by (rule loop[where xs = "[]"]) (simp_all add: abandon_all_def abandon_events_def put_T_same[OF v] s)
qed

end

section \<open>Removing an owner\<close>

lemma wp_disassociate_terminal:
  fixes n :: "('te, 'x) node"
  assumes s: "sees n A" and v: "a_T A tm = Some v" and b: "id_valid (v_binding v) \<Longrightarrow> a_B A (v_binding v) = Some b"
    and Q: "\<And>n'. sees n' (put_T tm (Some (v\<lparr>v_binding := default_id\<rparr>))
      (if id_valid (v_binding v) then put_B (v_binding v) (Some (b\<lparr>w_terminal := default_id\<rparr>)) A else A)) \<Longrightarrow> Q n'"
  shows "wp tot (disassociate_terminal tm n) Q"
  unfolding disassociate_terminal_def
proof (rule wp_bind, rule wp_get_nt[OF s v])
  fix t :: "'te node_terminal"
  assume t: "nt_binding t = v_binding v"
  show "wp tot (if id_valid (nt_binding t) then do {
       n1 \<leftarrow> modify_nb (nt_binding t) (\<lambda>b. b\<lparr>nb_terminal := default_id\<rparr>) n;
       modify_nt tm (\<lambda>t. t\<lparr>nt_binding := default_id\<rparr>) n1 } else Some n) Q"
  proof (cases "id_valid (v_binding v)")
    case True
    show ?thesis unfolding t using True
      by (simp, intro wp_bind wp_modify_nb[OF s b[OF True], where g = "\<lambda>b. b\<lparr>w_terminal := default_id\<rparr>"])
        (auto simp: bview_of_def tview_of_def v True intro!: Q wp_modify_nt[where g = "\<lambda>v. v\<lparr>v_binding := default_id\<rparr>"])
  next
    case False
    then have "v_binding v = default_id" by (simp add: id_not_valid_iff)
    then have "v\<lparr>v_binding := default_id\<rparr> = v" by simp
    then show ?thesis unfolding t using False Q[of n] s by (simp add: put_T_same[OF v])
  qed
qed

lemma wp_update_state:
  fixes n :: "('te, 'x) node"
  assumes s: "sees n A" and v: "a_T A tm = Some v"
    and gone: "\<And>n'. v_leafs v = [] \<Longrightarrow> v_nodes v = [] \<Longrightarrow> v_users v = [] \<Longrightarrow>
      sees n' (out_A (notify_out (v_ident v) False) (put_T tm None A)) \<Longrightarrow> Q (False, n')"
    and alive: "\<And>n'. \<not> (v_leafs v = [] \<and> v_nodes v = [] \<and> v_users v = []) \<Longrightarrow>
      sees n' (put_T tm (Some (v\<lparr>v_state := vstate v\<rparr>)) A) \<Longrightarrow> Q (True, n')"
  shows "wp tot (update_state tm n) Q"
  unfolding update_state_def Let_def
proof (rule wp_bind, rule wp_find_nt[OF s v])
  fix e :: "'te node_terminal element"
  assume e: "el_ident e = v_ident v" "nt_owningLeafs (el_data e) = v_leafs v" "nt_owningNodes (el_data e) = v_nodes v"
    "nt_usingNodes (el_data e) = v_users v"
  show "wp tot (if nt_owningLeafs (el_data e) = [] \<and> nt_owningNodes (el_data e) = [] \<and> nt_usingNodes (el_data e) = []
     then do { n1 \<leftarrow> erase_nt tm (nnotify (el_ident e) False n); Some (False, n1) }
     else do { n1 \<leftarrow> modify_nt tm (\<lambda>t. t\<lparr>nt_state := owners_state t\<rparr>) n; Some (True, n1) }) Q"
  proof (cases "v_leafs v = [] \<and> v_nodes v = [] \<and> v_users v = []")
    case True
    have "wp tot (erase_nt tm (nnotify (el_ident e) False n)) (\<lambda>n1. Q (False, n1))"
      by (rule wp_erase_nt[OF sees_nnotify[OF s]]) (auto simp: v e True intro: gone)
    then show ?thesis using True by (auto simp: e intro!: wp_bind)
  next
    case False
    have "wp tot (modify_nt tm (\<lambda>t. t\<lparr>nt_state := owners_state t\<rparr>) n) (\<lambda>n1. Q (True, n1))"
      by (rule wp_modify_nt[OF s v tview_state]) (rule alive[OF False])
    then show ?thesis using False by (auto simp: e intro!: wp_bind)
  qed
qed

lemma wp_release_binding_owners:
  fixes n :: "('te, 'x) node"
  assumes s: "sees n A" and b: "a_B A bd = Some b"
    and Q: "\<And>n'. sees n' (out_A (tell_binding_owners BindingReleased (\<lambda>d. d \<noteq> c) (w_owners b)) A) \<Longrightarrow> Q n'"
  shows "wp tot (release_binding_owners c bd n) Q"
  unfolding release_binding_owners_def
  by (rule wp_bind, rule wp_get_nb[OF s b], simp, rule wp_tell[OF s _ Q, where P = "\<lambda>d. d \<noteq> c"]) simp_all

text \<open>\<open>old\<close> is the entry before, \<open>v\<close> the entry without the owner \<open>c\<close>.\<close>

definition without_owner :: "connection \<Rightarrow> tview \<Rightarrow> tview" where
  "without_owner c old = drop_subs (set_owners c (AList.delete c (vowners c old)) old)"

definition unowned :: "tview \<Rightarrow> bool" where
  "unowned v \<longleftrightarrow> v_leafs v = [] \<and> v_nodes v = []"

lemma drop_simps [simp]:
  "v_ident (drop_subs v) = v_ident v" "v_hidden (drop_subs v) = v_hidden v" "v_state (drop_subs v) = v_state v"
  "v_users (drop_subs v) = v_users v" "v_binding (drop_subs v) = v_binding v" "v_leafs (drop_subs v) = v_leafs v"
  "v_nodes (drop_subs v) = v_nodes v" "tlink (drop_subs v) = tlink v" "vowners c (drop_subs v) = vowners c v"
  "vstate (drop_subs v) = vstate v" "owned_elsewhere (drop_subs v) = owned_elsewhere v"
  by (simp_all add: drop_subs_def tlink_def vowners_def vstate_def owned_elsewhere_def fun_eq_iff)

lemma without_simps [simp]:
  "v_ident (without_owner c v) = v_ident v" "v_hidden (without_owner c v) = v_hidden v" "v_state (without_owner c v) = v_state v"
  "v_users (without_owner c v) = v_users v" "v_binding (without_owner c v) = v_binding v"
  "tlink (without_owner c v) = tlink v" "vowners c (without_owner c v) = AList.delete c (vowners c v)"
  by (simp_all add: without_owner_def)

lemma without_owner_maps:
  "v_leafs (without_owner c v) = (if remote_is_node c then v_leafs v else AList.delete c (v_leafs v))"
  "v_nodes (without_owner c v) = (if remote_is_node c then AList.delete c (v_nodes v) else v_nodes v)"
  by (simp_all add: without_owner_def set_owners_def vowners_def)

lemma length_delete: "distinct_keys m \<Longrightarrow> map_of m c \<noteq> None \<Longrightarrow> length m = Suc (length (AList.delete c m))"
proof (induction m)
  case (Cons a m)
  then show ?case by (cases a) (force simp: map_of_eq_None_iff delete_idem)
qed simp

lemma state_before:
  assumes "distinct_keys (vowners c old)" "map_of (vowners c old) c \<noteq> None"
  defines "v \<equiv> without_owner c old"
  shows "vstate old = (if unowned v then (if remote_is_node c then STATE_OWNERS_0_LEAFS_1_NODES else STATE_OWNERS_1_LEAFS_0_NODES)
    else if v_leafs old = [] then STATE_OWNERS_0_LEAFS_M_NODES
    else if v_nodes old = [] then STATE_OWNERS_M_LEAFS_0_NODES else STATE_OWNERS_N_LEAFS_N_NODES)"
proof (cases "remote_is_node c")
  case True
  then have "length (v_nodes old) = Suc (length (v_nodes v))" "v_leafs v = v_leafs old"
    using assms length_delete[of "v_nodes old" c] by (simp_all add: without_owner_maps vowners_def)
  then show ?thesis using True by (auto simp: vstate_def unowned_def Let_def)
next
  case False
  then have "length (v_leafs old) = Suc (length (v_leafs v))" "v_nodes v = v_nodes old"
    using assms length_delete[of "v_leafs old" c] by (simp_all add: without_owner_maps vowners_def)
  then show ?thesis using False by (auto simp: vstate_def unowned_def Let_def)
qed

definition unbind :: "tview \<Rightarrow> nview \<Rightarrow> nview" where
  "unbind v A = (if id_valid (v_binding v)
     then put_B (v_binding v) (Some ((the (a_B A (v_binding v)))\<lparr>w_terminal := default_id\<rparr>)) A else A)"

definition binding_owners :: "tview \<Rightarrow> nview \<Rightarrow> fsm_map" where
  "binding_owners v A = (if id_valid (v_binding v) then w_owners (the (a_B A (v_binding v))) else [])"

text \<open>The remaining owning node stops being a user, all users of an abandoned terminal do.\<close>

definition tell_user :: "connection \<Rightarrow> fsm_map \<Rightarrow> fsm_map" where
  "tell_user u us = map (\<lambda>(c, f). (c, if c = u then abandoned f else f)) us"

definition users_after :: "tview \<Rightarrow> fsm_map" where
  "users_after v = (if unowned v then abandon_all (v_users v)
     else if vstate v = STATE_OWNERS_0_LEAFS_1_NODES then tell_user (fst (hd (v_nodes v))) (v_users v) else v_users v)"

definition after_removal :: "id \<Rightarrow> tview \<Rightarrow> nview \<Rightarrow> nview" where
  "after_removal tm v A = (if \<not> unowned v then put_T tm (Some (v\<lparr>v_state := vstate v, v_users := users_after v\<rparr>)) A
     else if v_users v = [] then put_T tm None (unbind v A)
     else put_T tm (Some (v\<lparr>v_hidden := True, v_binding := default_id, v_users := users_after v, v_state := vstate v\<rparr>)) (unbind v A))"

definition removal_status :: "tview \<Rightarrow> tview \<Rightarrow> nview \<Rightarrow> node_event list" where
  "removal_status old v A = (if unowned v \<and> v_users v = [] then notify_out (v_ident v) False else []) @
     tell_binding_owners BindingReleased (\<lambda>d. owned_elsewhere old d \<and> \<not> owned_elsewhere v d) (binding_owners v A)"

lemma notify_status [simp]: "filter status_event (notify_out x b) = notify_out x b"
  by (simp add: notify_out_def)

lemma tell_status [simp]: "filter status_event (tell_binding_owners BindingReleased P m) = tell_binding_owners BindingReleased P m"
  "filter status_event (tell_binding_owners BindingEstablished P m) = tell_binding_owners BindingEstablished P m"
  by (induction m) (auto simp: tell_binding_owners_def)

context node_class begin

lemma wp_abandon_if_last:
  fixes n :: "('te, 'x) node"
  assumes s: "sees n A" and v: "a_T A tm = Some v"
    and st: "v_state v = STATE_OWNERS_1_LEAFS_0_NODES \<or> v_state v = STATE_OWNERS_0_LEAFS_1_NODES"
    and b: "id_valid (v_binding v) \<Longrightarrow> a_B A (v_binding v) \<noteq> None"
    and us: "fsms_ok user_ok k C (v_users v)" and exn: "\<And>f. map_of (v_users v) c = Some f \<Longrightarrow> fsm_destroyed f"
    and Q: "\<And>n'. sees n' (out_A (abandon_events (v_users v))
      (put_T tm (Some (v\<lparr>v_hidden := True, v_binding := default_id, v_users := abandon_all (v_users v)\<rparr>)) (unbind v A))) \<Longrightarrow> Q n'"
  shows "wp tot (abandon_if_last h c tm n) Q"
proof -
  let ?v1 = "v\<lparr>v_hidden := True\<rparr>"
  have work: "wp tot (do { n1 \<leftarrow> hide_nt tm n; n2 \<leftarrow> disassociate_terminal tm n1;
      update_users_for_abandoned_terminal h (Some c) tm n2 }) Q"
  proof (intro wp_bind wp_hide_nt[OF s v])
    fix n1 :: "('te, 'x) node"
    assume s1: "sees n1 (put_T tm (Some ?v1) A)"
    show "wp tot (disassociate_terminal tm n1) (\<lambda>n2. wp tot (update_users_for_abandoned_terminal h (Some c) tm n2) Q)"
    proof (rule wp_disassociate_terminal[OF s1, where v = ?v1 and b = "the (a_B A (v_binding v))"])
      fix n2 :: "('te, 'x) node"
      let ?A2 = "put_T tm (Some (v\<lparr>v_hidden := True, v_binding := default_id\<rparr>)) (unbind v A)"
      assume "sees n2 (put_T tm (Some (?v1\<lparr>v_binding := default_id\<rparr>)) (if id_valid (v_binding ?v1)
        then put_B (v_binding ?v1) (Some (the (a_B A (v_binding v))\<lparr>w_terminal := default_id\<rparr>)) (put_T tm (Some ?v1) A)
        else put_T tm (Some ?v1) A))"
      then have "sees n2 ?A2" by (simp add: unbind_def put_B_put_T split: if_splits)
      then show "wp tot (update_users_for_abandoned_terminal h (Some c) tm n2) Q"
        by (rule wp_abandon[where v = "v\<lparr>v_hidden := True, v_binding := default_id\<rparr>" and k = k and C = C])
          (auto intro: us exn Q)
    qed (use b in auto)
  qed
  show ?thesis
    unfolding abandon_if_last_def
    by (rule wp_bind, rule wp_get_nt[OF s v]) (use st work in auto)
qed

lemma wp_abandon_shared:
  fixes n :: "('te, 'x) node"
  assumes s: "sees n A" and v: "a_T A tm = Some v"
    and st: "v_state v \<in> {STATE_OWNERS_M_LEAFS_0_NODES, STATE_OWNERS_N_LEAFS_N_NODES, STATE_OWNERS_0_LEAFS_M_NODES}" and Q: "Q n"
  shows "wp tot (abandon_if_last h c tm n) Q"
  unfolding abandon_if_last_def by (rule wp_bind, rule wp_get_nt[OF s v]) (use st Q in auto)

end

lemma update_as_map:
  "distinct_keys m \<Longrightarrow> map_of m u = Some f \<Longrightarrow> AList.update u (g f) m = map (\<lambda>(c, f). (c, if c = u then g f else f)) m"
proof (induction m)
  case (Cons a m)
  have "map (\<lambda>(c, f). (c, if c = u then g f else f)) m = m" if "u \<notin> fst ` set m"
    using that by (intro map_idI) (auto simp: image_iff)
  then show ?case using Cons by (cases a) auto
qed simp

lemma wp_tell_last_owning_node:
  fixes n :: "('te, 'x) node"
  assumes s: "sees n A" and v: "a_T A tm = Some v" and us: "fsms_ok user_ok k C (v_users v)"
    and last: "v_state v = STATE_OWNERS_0_LEAFS_1_NODES \<Longrightarrow> v_nodes v \<noteq> [] \<and> map_of (v_users v) (fst (hd (v_nodes v))) \<noteq> None"
    and Q: "\<And>n' es. filter status_event es = [] \<Longrightarrow> sees n' (out_A es (put_T tm (Some (v\<lparr>v_users :=
      (if v_state v = STATE_OWNERS_0_LEAFS_1_NODES then tell_user (fst (hd (v_nodes v))) (v_users v) else v_users v)\<rparr>)) A)) \<Longrightarrow> Q n'"
  shows "wp tot (tell_last_owning_node tm n) Q"
  unfolding tell_last_owning_node_def Let_def
proof (rule wp_bind, rule wp_get_nt[OF s v])
  fix t :: "'te node_terminal"
  assume t: "nt_state t = v_state v" "nt_owningNodes t = v_nodes v" "nt_usingNodes t = v_users v"
  show "wp tot (if nt_state t \<noteq> STATE_OWNERS_0_LEAFS_1_NODES then Some n
     else do {
       yassert (nt_owningNodes t \<noteq> []);
       f \<leftarrow> map_of (nt_usingNodes t) (fst (hd (nt_owningNodes t)));
       if fsm_destroyed f then Some n
       else do { (alive, n1) \<leftarrow> user_fsm tm (fst (hd (nt_owningNodes t))) process_object_destroyed n; yassert alive; Some n1 } }) Q"
  proof (cases "v_state v = STATE_OWNERS_0_LEAFS_1_NODES")
    case False
    then show ?thesis using Q[of "[]" n] s by (simp add: t put_T_same[OF v])
  next
    case True
    define u where "u = fst (hd (v_nodes v))"
    obtain f where f: "map_of (v_users v) u = Some f" using last[OF True] by (auto simp: u_def)
    have ok: "user_ok f" "distinct_keys (v_users v)" using fsms_okD[OF us] f by auto
    have upd: "tell_user u (v_users v) = AList.update u (abandoned f) (v_users v)"
      unfolding tell_user_def by (rule update_as_map[OF ok(2) f, symmetric])
    show ?thesis
    proof (cases "fsm_destroyed f")
      case d: True
      have "abandoned f = f" by (simp add: abandoned_def d)
      then have "AList.update u (abandoned f) (v_users v) = v_users v"
        using update_as_map[OF ok(2) f, of "\<lambda>f. f"] by (simp add: case_prod_beta)
      then show ?thesis using Q[of "[]" n] s last[OF True] f d True upd by (simp add: t u_def[symmetric] put_T_same[OF v])
    next
      case False
      obtain outs where outs: "process_object_destroyed f = Some (abandoned f, outs, True)"
        "outs_of (user_out (v_ident v) u tm) outs = Some (abandon_event u f)"
        using destroy_user[OF ok(1) False] by blast
      have st: "filter status_event (abandon_event u f) = []" by (simp add: abandon_event_def)
      have "wp tot (user_fsm tm u process_object_destroyed n) (\<lambda>(alive, n1). alive \<and> Q n1)"
        by (rule wp_user_fsm[where call = process_object_destroyed, OF s v f outs])
          (use Q[OF st] True in \<open>simp add: upd u_def[symmetric]\<close>)
      then have "wp tot (do { (alive, n1) \<leftarrow> user_fsm tm u process_object_destroyed n; yassert alive; Some n1 }) Q"
        by (auto intro!: wp_bind elim!: wp_mono)
      then show ?thesis using False last[OF True] f True by (simp add: t u_def[symmetric])
    qed
  qed
qed

lemma wp_update_bindings:
  fixes n :: "('te, 'x) node"
  assumes s: "sees n A" and v: "a_T A tm = Some v"
    and b: "id_valid bd \<Longrightarrow> \<exists>b. a_B A bd = Some b \<and> distinct_keys (w_owners b)"
    and one: "v_state v = STATE_OWNERS_1_LEAFS_0_NODES \<Longrightarrow> v_leafs v \<noteq> []"
    and Q: "\<And>n'. sees n' (out_A (if id_valid bd then
        (if v_state v = STATE_OWNERS_1_LEAFS_0_NODES
          then tell_binding_owners BindingReleased (\<lambda>d. d = fst (hd (v_leafs v))) (w_owners (the (a_B A bd)))
        else if v_state v = STATE_AWAIT_ACKS then tell_binding_owners BindingReleased (\<lambda>d. d \<noteq> c) (w_owners (the (a_B A bd)))
        else []) else []) A) \<Longrightarrow> Q n'"
  shows "wp tot (update_bindings_after_removal c tm bd n) Q"
proof (cases "id_valid bd")
  case False
  then show ?thesis using Q[of n] s by (simp add: update_bindings_after_removal_def)
next
  case True
  obtain b where b': "a_B A bd = Some b" "distinct_keys (w_owners b)" using b[OF True] by blast
  have "wp tot (do {
     b \<leftarrow> get_nb n bd;
     t \<leftarrow> get_nt n tm;
     if nt_state t = STATE_OWNERS_1_LEAFS_0_NODES then do {
       yassert (nt_owningLeafs t \<noteq> []);
       Some (case map_of (nb_owningLeafs b) (fst (hd (nt_owningLeafs t))) of None \<Rightarrow> n
         | Some f \<Rightarrow> nsend (fst (hd (nt_owningLeafs t))) (BindingReleased (m_mappedId f)) n) }
     else if nt_state t = STATE_AWAIT_ACKS then release_binding_owners c bd n
     else Some n }) Q"
  proof (intro wp_bind wp_get_nb[OF s b'(1)] wp_get_nt[OF s v])
    fix br :: node_binding and t :: "'te node_terminal"
    assume br: "nb_owningLeafs br = w_owners b"
      and t: "nt_state t = v_state v" "nt_owningLeafs t = v_leafs v"
    let ?u = "fst (hd (v_leafs v))"
    show "wp tot (if nt_state t = STATE_OWNERS_1_LEAFS_0_NODES
        then do { yassert (nt_owningLeafs t \<noteq> []); Some (case map_of (nb_owningLeafs br) (fst (hd (nt_owningLeafs t))) of None \<Rightarrow> n
            | Some f \<Rightarrow> nsend (fst (hd (nt_owningLeafs t))) (BindingReleased (m_mappedId f)) n) }
        else if nt_state t = STATE_AWAIT_ACKS then release_binding_owners c bd n else Some n) Q"
    proof (cases "v_state v = STATE_OWNERS_1_LEAFS_0_NODES")
      case 1: True
      have "sees (case map_of (w_owners b) ?u of None \<Rightarrow> n | Some f \<Rightarrow> nsend ?u (BindingReleased (m_mappedId f)) n)
        (out_A (tell_binding_owners BindingReleased (\<lambda>d. d = ?u) (w_owners b)) A)"
        by (simp add: tell_one[OF b'(2)] s split: option.splits) (auto intro: sees_nsend[OF s])
      with Q[of "case map_of (w_owners b) ?u of None \<Rightarrow> n | Some f \<Rightarrow> nsend ?u (BindingReleased (m_mappedId f)) n"] True 1 one[OF 1] b'(1)
      show ?thesis unfolding t br by simp
    next
      case not1: False
      show ?thesis
      proof (cases "v_state v = STATE_AWAIT_ACKS")
        case True
        have "wp tot (release_binding_owners c bd n) Q"
          by (rule wp_release_binding_owners[OF s b'(1)], rule Q) (use \<open>id_valid bd\<close> True b'(1) in simp)
        then show ?thesis using True by (simp add: t)
      next
        case False
        then show ?thesis using Q[of n] s not1 \<open>id_valid bd\<close> by (simp add: t)
      qed
    qed
  qed
  then show ?thesis unfolding update_bindings_after_removal_def Let_def using True by simp
qed

lemma unbind_simps [simp]: "a_T (unbind v A) = a_T A" "a_leafs (unbind v A) = a_leafs A" "a_nodes (unbind v A) = a_nodes A"
  by (simp_all add: unbind_def)

lemma a_B_unbind: "a_B A bd = Some b \<Longrightarrow> \<exists>b'. a_B (unbind v A) bd = Some b' \<and> w_owners b' = w_owners b \<and> w_ident b' = w_ident b \<and> w_hidden b' = w_hidden b"
  by (auto simp: unbind_def)

lemma vstate_1L: "vstate v = STATE_OWNERS_1_LEAFS_0_NODES \<longleftrightarrow> length (v_leafs v) = 1 \<and> v_nodes v = []"
  by (simp add: vstate_def Let_def)

lemma vstate_1N: "vstate v = STATE_OWNERS_0_LEAFS_1_NODES \<longleftrightarrow> v_leafs v = [] \<and> length (v_nodes v) = 1"
  by (simp add: vstate_def Let_def)

lemma vstate_unowned: "vstate v = STATE_AWAIT_ACKS \<longleftrightarrow> unowned v"
  by (auto simp: vstate_def unowned_def Let_def)

text \<open>Which bindings lose their last terminal with the owner \<open>c\<close>.\<close>

definition okeys :: "tview \<Rightarrow> connection list" where
  "okeys v = map fst (v_leafs v @ v_nodes v)"

definition owners_kinds :: "tview \<Rightarrow> bool" where
  "owners_kinds v \<longleftrightarrow> distinct_keys (v_leafs v) \<and> distinct_keys (v_nodes v) \<and>
     (\<forall>c \<in> fst ` set (v_leafs v). \<not> remote_is_node c) \<and> (\<forall>c \<in> fst ` set (v_nodes v). remote_is_node c)"

lemma okeys_distinct: "owners_kinds v \<Longrightarrow> distinct (okeys v)"
proof -
  assume k: "owners_kinds v"
  then have "fst ` set (v_leafs v) \<inter> fst ` set (v_nodes v) = {}" unfolding owners_kinds_def by blast
  then show ?thesis using k unfolding okeys_def owners_kinds_def map_append distinct_append set_map by blast
qed

lemma owned_elsewhere_okeys: "owned_elsewhere v d \<longleftrightarrow> (\<exists>x \<in> set (okeys v). x \<noteq> d)"
  unfolding owned_elsewhere_def okeys_def set_map ..

lemma fst_delete: "fst ` set (AList.delete c m) = fst ` set m - {c}"
  by (simp add: dom_map_of_conv_image_fst[symmetric] delete_conv')

lemma okeys_without:
  assumes "owners_kinds old" "map_of (vowners c old) c \<noteq> None"
  shows "set (okeys (without_owner c old)) = set (okeys old) - {c}" "c \<in> set (okeys old)"
proof -
  have c: "c \<in> fst ` set (vowners c old)" using assms(2) by (auto simp: map_of_eq_None_iff)
  then show "c \<in> set (okeys old)" by (auto simp: okeys_def vowners_def split: if_splits)
  have "c \<notin> fst ` set (if remote_is_node c then v_leafs old else v_nodes old)" using assms(1) by (auto simp: owners_kinds_def)
  then show "set (okeys (without_owner c old)) = set (okeys old) - {c}"
    by (auto simp: okeys_def without_owner_maps fst_delete image_Un simp del: image_eqI split: if_splits)
qed

lemma owners_kinds_without: "owners_kinds old \<Longrightarrow> owners_kinds (without_owner c old)"
  unfolding owners_kinds_def without_owner_maps
  by (simp only: distinct_keys_delete fst_delete split: if_splits) blast

lemma some_other: "distinct xs \<Longrightarrow> 1 < length xs \<Longrightarrow> \<exists>x \<in> set xs. x \<noteq> d"
  by (cases xs; cases "tl xs") auto

lemma released_pred:
  assumes k: "owners_kinds old" and c: "map_of (vowners c old) c \<noteq> None" and d: "\<not> remote_is_node d"
  defines "v \<equiv> without_owner c old"
  shows "owned_elsewhere old d \<and> \<not> owned_elsewhere v d \<longleftrightarrow>
    (if vstate v = STATE_OWNERS_1_LEAFS_0_NODES then d = fst (hd (v_leafs v)) else vstate v = STATE_AWAIT_ACKS \<and> d \<noteq> c)"
proof -
  note ks = okeys_without[OF k c, folded v_def]
  have kv: "owners_kinds v" using owners_kinds_without[OF k] by (simp add: v_def)
  note dist = okeys_distinct[OF kv]
  consider (none) "okeys v = []" | (leaf) p where "okeys v = [p]" "v_nodes v = []" | (node) p where "okeys v = [p]" "v_leafs v = []" "v_nodes v \<noteq> []"
    | (many) "1 < length (okeys v)"
  proof (cases "v_leafs v")
    case Nil
    then show ?thesis using none many node by (cases "v_nodes v"; cases "tl (v_nodes v)") (simp_all add: okeys_def)
  next
    case (Cons p ps)
    then show ?thesis using many leaf by (cases ps; cases "v_nodes v") (simp_all add: okeys_def)
  qed
  then show ?thesis
  proof cases
    case none
    then have "vstate v = STATE_AWAIT_ACKS" unfolding vstate_unowned unowned_def by (simp add: okeys_def)
    moreover have "set (okeys old) = {c}" using ks none by auto
    ultimately show ?thesis using none by (simp add: owned_elsewhere_okeys) blast
  next
    case leaf
    then have "vstate v = STATE_OWNERS_1_LEAFS_0_NODES" "fst (hd (v_leafs v)) = p"
      unfolding vstate_1L by (cases "v_leafs v"; simp add: okeys_def)+
    moreover have "p \<noteq> c" using ks(1) leaf(1) by auto
    ultimately have "owned_elsewhere old d" if "d = p" using ks(2) that unfolding owned_elsewhere_okeys by (intro bexI[of _ c]) auto
    then show ?thesis using \<open>vstate v = STATE_OWNERS_1_LEAFS_0_NODES\<close> \<open>fst (hd (v_leafs v)) = p\<close> leaf(1)
      by (auto simp: owned_elsewhere_okeys)
  next
    case node
    then have "length (v_nodes v) = 1" by (cases "v_nodes v") (simp_all add: okeys_def)
    then have "vstate v = STATE_OWNERS_0_LEAFS_1_NODES" unfolding vstate_1N using node(2) by simp
    moreover have "p \<in> fst ` set (v_nodes v)" using node(1,2) by (simp add: okeys_def) (metis list.set_intros(1) list.set_map)
    then have "remote_is_node p" using kv unfolding owners_kinds_def by blast
    ultimately have "owned_elsewhere v d" using d node(1) by (auto simp: owned_elsewhere_okeys)
    then show ?thesis using \<open>vstate v = STATE_OWNERS_0_LEAFS_1_NODES\<close> by simp
  next
    case many
    have "vstate v \<noteq> STATE_OWNERS_1_LEAFS_0_NODES" "vstate v \<noteq> STATE_AWAIT_ACKS"
      using many unfolding vstate_1L vstate_unowned unowned_def by (auto simp: okeys_def)
    moreover have "owned_elsewhere v d" using some_other[OF dist many] by (simp add: owned_elsewhere_okeys)
    ultimately show ?thesis by simp
  qed
qed

lemma released_events:
  assumes k: "owners_kinds old" and c: "map_of (vowners c old) c \<noteq> None" and m: "\<forall>d \<in> fst ` set m. \<not> remote_is_node d"
  defines "v \<equiv> without_owner c old"
  shows "tell_binding_owners BindingReleased (\<lambda>d. owned_elsewhere old d \<and> \<not> owned_elsewhere v d) m =
    (if vstate v = STATE_OWNERS_1_LEAFS_0_NODES then tell_binding_owners BindingReleased (\<lambda>d. d = fst (hd (v_leafs v))) m
     else if vstate v = STATE_AWAIT_ACKS then tell_binding_owners BindingReleased (\<lambda>d. d \<noteq> c) m else [])"
proof -
  have p: "owned_elsewhere old d \<and> \<not> owned_elsewhere v d \<longleftrightarrow>
    (if vstate v = STATE_OWNERS_1_LEAFS_0_NODES then d = fst (hd (v_leafs v)) else vstate v = STATE_AWAIT_ACKS \<and> d \<noteq> c)"
    if "(d, f) \<in> set m" for d f
    using released_pred[OF k c] m that unfolding v_def by force
  show ?thesis using tell_cong[OF p] by (auto simp: tell_binding_owners_def)
qed

text \<open>The two ways the removal ends: nobody owns the terminal any more, or others still do.\<close>

lemma wp_finish_abandoned:
  fixes n1 :: "('te, 'x) node"
  defines "w \<equiv> \<lambda>v. v\<lparr>v_hidden := True, v_binding := default_id, v_users := abandon_all (v_users v)\<rparr>"
  assumes s1: "sees n1 (out_A (abandon_events (v_users v)) (put_T tm (Some (w v)) A1))" and un: "unowned v"
    and us: "fsms_ok user_ok k C (v_users v)"
    and b: "id_valid bd \<Longrightarrow> \<exists>b. a_B A1 bd = Some b \<and> w_owners b = m \<and> distinct_keys m" "\<not> id_valid bd \<Longrightarrow> m = []"
    and Q: "\<And>n' es. filter status_event es = (if v_users v = [] then notify_out (v_ident v) False else []) @
        tell_binding_owners BindingReleased (\<lambda>d. d \<noteq> c) m \<Longrightarrow>
      sees n' (out_A es (put_T tm (if v_users v = [] then None else Some ((w v)\<lparr>v_state := STATE_AWAIT_ACKS\<rparr>)) A1)) \<Longrightarrow> Q n'"
  shows "wp tot (finish_owner_removal c tm bd n1) Q"
  unfolding finish_owner_removal_def
proof (rule wp_bind, rule wp_update_state[OF s1, where v = "w v"])
  let ?rel = "tell_binding_owners BindingReleased (\<lambda>d. d \<noteq> c) m"
  fix n2 :: "('te, 'x) node"
  assume e: "v_users (w v) = []"
    and s2: "sees n2 (out_A (notify_out (v_ident (w v)) False) (put_T tm None (out_A (abandon_events (v_users v)) (put_T tm (Some (w v)) A1))))"
  have us0: "v_users v = []" using e by (simp add: w_def)
  then have s2': "sees n2 (out_A (notify_out (v_ident v) False) (put_T tm None A1))" using s2 by (simp add: abandon_events_def w_def)
  have "wp tot (release_binding_owners c bd n2) Q" if val: "id_valid bd"
  proof -
    obtain b1 where b1: "a_B A1 bd = Some b1" "w_owners b1 = m" using b(1)[OF val] by blast
    show ?thesis
      by (intro wp_release_binding_owners[OF s2', of bd b1] Q[of "notify_out (v_ident v) False @ ?rel"]) (simp_all add: us0 b1)
  qed
  then show "wp tot (case (False, n2) of (alive, n2) \<Rightarrow> if \<not> alive
      then (if id_valid bd then release_binding_owners c bd n2 else Some n2)
      else do { n3 \<leftarrow> tell_last_owning_node tm n2; n4 \<leftarrow> update_bindings_after_removal c tm bd n3;
        e \<leftarrow> find_id (nd_terminals n4) tm; if el_hidden e then disassociate_terminal tm n4 else Some n4 }) Q"
    using Q[of "notify_out (v_ident v) False" n2] s2' us0 b(2) by simp
next
  let ?rel = "tell_binding_owners BindingReleased (\<lambda>d. d \<noteq> c) m"
  let ?x = "(w v)\<lparr>v_state := STATE_AWAIT_ACKS\<rparr>"
  fix n2 :: "('te, 'x) node"
  assume e: "\<not> (v_leafs (w v) = [] \<and> v_nodes (w v) = [] \<and> v_users (w v) = [])"
    and s2: "sees n2 (put_T tm (Some ((w v)\<lparr>v_state := vstate (w v)\<rparr>)) (out_A (abandon_events (v_users v)) (put_T tm (Some (w v)) A1)))"
  have "vstate (w v) = STATE_AWAIT_ACKS" using un by (simp add: vstate_unowned unowned_def w_def)
  then have s2': "sees n2 (out_A (abandon_events (v_users v)) (put_T tm (Some ?x) A1))" using s2 by simp
  have us0: "v_users v \<noteq> []" using e un by (simp add: unowned_def w_def)
  have "wp tot (do { n3 \<leftarrow> tell_last_owning_node tm n2; n4 \<leftarrow> update_bindings_after_removal c tm bd n3;
        e \<leftarrow> find_id (nd_terminals n4) tm; if el_hidden e then disassociate_terminal tm n4 else Some n4 }) Q"
  proof (rule wp_bind, rule wp_tell_last_owning_node[OF s2', where v = ?x and k = k and C = C])
    show "fsms_ok user_ok k C (v_users ?x)" using us abandoned_ok
      by (auto simp: w_def fsms_ok_def abandon_all_def case_prod_beta comp_def)
    fix n3 :: "('te, 'x) node" and es3 :: "node_event list"
    assume es3: "filter status_event es3 = []" and s3: "sees n3 (out_A es3 (put_T tm (Some (?x\<lparr>v_users :=
      (if v_state ?x = STATE_OWNERS_0_LEAFS_1_NODES then tell_user (fst (hd (v_nodes ?x))) (v_users ?x) else v_users ?x)\<rparr>))
      (out_A (abandon_events (v_users v)) (put_T tm (Some ?x) A1))))"
    let ?A3 = "out_A (abandon_events (v_users v) @ es3) (put_T tm (Some ?x) A1)"
    have s3': "sees n3 ?A3" using s3 by simp
    show "wp tot (do { n4 \<leftarrow> update_bindings_after_removal c tm bd n3;
        e \<leftarrow> find_id (nd_terminals n4) tm; if el_hidden e then disassociate_terminal tm n4 else Some n4 }) Q"
    proof (rule wp_bind, rule wp_update_bindings[OF s3', where v = ?x])
      show "id_valid bd \<Longrightarrow> \<exists>b. a_B ?A3 bd = Some b \<and> distinct_keys (w_owners b)" using b(1) by auto
      fix n4 :: "('te, 'x) node"
      assume s4: "sees n4 (out_A (if id_valid bd then
        (if v_state ?x = STATE_OWNERS_1_LEAFS_0_NODES
          then tell_binding_owners BindingReleased (\<lambda>d. d = fst (hd (v_leafs ?x))) (w_owners (the (a_B ?A3 bd)))
        else if v_state ?x = STATE_AWAIT_ACKS then tell_binding_owners BindingReleased (\<lambda>d. d \<noteq> c) (w_owners (the (a_B ?A3 bd)))
        else []) else []) ?A3)"
      define es where "es = abandon_events (v_users v) @ es3 @ ?rel"
      have tell: "(if id_valid bd then tell_binding_owners BindingReleased (\<lambda>d. d \<noteq> c) (w_owners (the (a_B A1 bd))) else []) = ?rel"
        using b by auto
      have s4': "sees n4 (out_A es (put_T tm (Some ?x) A1))" using s4 tell by (simp add: es_def split: if_splits)
      have Qn: "Q n4" by (rule Q[of es]) (use es3 us0 s4' in \<open>simp_all add: es_def\<close>)
      have wb: "?x\<lparr>v_binding := default_id\<rparr> = ?x" "v_binding (w v) = default_id" by (simp_all add: w_def)
      have "wp tot (disassociate_terminal tm n4) Q"
        by (rule wp_disassociate_terminal[OF s4', where v = ?x])
          (use Q[of es] es3 us0 in \<open>simp_all add: es_def wb(2) wb(1)[simplified]\<close>)
      with Qn show "wp tot (do { e \<leftarrow> find_id (nd_terminals n4) tm; if el_hidden e then disassociate_terminal tm n4 else Some n4 }) Q"
        by (intro wp_bind wp_find_nt[OF s4', where v = ?x]) simp_all
    qed simp_all
  qed simp_all
  then show "wp tot (case (True, n2) of (alive, n2) \<Rightarrow> if \<not> alive
      then (if id_valid bd then release_binding_owners c bd n2 else Some n2)
      else do { n3 \<leftarrow> tell_last_owning_node tm n2; n4 \<leftarrow> update_bindings_after_removal c tm bd n3;
        e \<leftarrow> find_id (nd_terminals n4) tm; if el_hidden e then disassociate_terminal tm n4 else Some n4 }) Q" by simp
qed (simp add: w_def)

lemma wp_finish_owned:
  fixes n :: "('te, 'x) node"
  assumes s: "sees n A" and v: "a_T A tm = Some v" and own: "\<not> unowned v" "\<not> v_hidden v"
    and us: "fsms_ok user_ok k C (v_users v)"
    and b: "id_valid bd \<Longrightarrow> \<exists>b. a_B A bd = Some b \<and> w_owners b = m \<and> distinct_keys m" "\<not> id_valid bd \<Longrightarrow> m = []"
    and last: "vstate v = STATE_OWNERS_0_LEAFS_1_NODES \<Longrightarrow> map_of (v_users v) (fst (hd (v_nodes v))) \<noteq> None"
    and Q: "\<And>n' es. filter status_event es = (if vstate v = STATE_OWNERS_1_LEAFS_0_NODES
        then tell_binding_owners BindingReleased (\<lambda>d. d = fst (hd (v_leafs v))) m else []) \<Longrightarrow>
      sees n' (out_A es (put_T tm (Some (v\<lparr>v_state := vstate v, v_users := users_after v\<rparr>)) A)) \<Longrightarrow> Q n'"
  shows "wp tot (finish_owner_removal c tm bd n) Q"
  unfolding finish_owner_removal_def
proof (rule wp_bind, rule wp_update_state[OF s v])
  let ?x = "v\<lparr>v_state := vstate v\<rparr>" and ?y = "v\<lparr>v_state := vstate v, v_users := users_after v\<rparr>"
  fix n2 :: "('te, 'x) node"
  assume s2: "sees n2 (put_T tm (Some ?x) A)"
  have "wp tot (do { n3 \<leftarrow> tell_last_owning_node tm n2; n4 \<leftarrow> update_bindings_after_removal c tm bd n3;
        e \<leftarrow> find_id (nd_terminals n4) tm; if el_hidden e then disassociate_terminal tm n4 else Some n4 }) Q"
  proof (rule wp_bind, rule wp_tell_last_owning_node[OF s2, where v = ?x and k = k and C = C])
    show "v_state ?x = STATE_OWNERS_0_LEAFS_1_NODES \<Longrightarrow> v_nodes ?x \<noteq> [] \<and> map_of (v_users ?x) (fst (hd (v_nodes ?x))) \<noteq> None"
      using last vstate_1N[of v] by auto
    fix n3 :: "('te, 'x) node" and es3 :: "node_event list"
    assume es3: "filter status_event es3 = []" and s3: "sees n3 (out_A es3 (put_T tm (Some (?x\<lparr>v_users :=
      (if v_state ?x = STATE_OWNERS_0_LEAFS_1_NODES then tell_user (fst (hd (v_nodes ?x))) (v_users ?x) else v_users ?x)\<rparr>))
      (put_T tm (Some ?x) A)))"
    let ?A3 = "out_A es3 (put_T tm (Some ?y) A)"
    have s3': "sees n3 ?A3" using s3 own(1) by (cases "vstate v = STATE_OWNERS_0_LEAFS_1_NODES") (simp_all add: users_after_def)
    show "wp tot (do { n4 \<leftarrow> update_bindings_after_removal c tm bd n3;
        e \<leftarrow> find_id (nd_terminals n4) tm; if el_hidden e then disassociate_terminal tm n4 else Some n4 }) Q"
    proof (rule wp_bind, rule wp_update_bindings[OF s3', where v = ?y])
      show "id_valid bd \<Longrightarrow> \<exists>b. a_B ?A3 bd = Some b \<and> distinct_keys (w_owners b)" using b(1) by auto
      show "v_state ?y = STATE_OWNERS_1_LEAFS_0_NODES \<Longrightarrow> v_leafs ?y \<noteq> []" using vstate_1L[of v] by auto
      fix n4 :: "('te, 'x) node"
      let ?rel = "if vstate v = STATE_OWNERS_1_LEAFS_0_NODES then tell_binding_owners BindingReleased (\<lambda>d. d = fst (hd (v_leafs v))) m else []"
      assume s4: "sees n4 (out_A (if id_valid bd then
        (if v_state ?y = STATE_OWNERS_1_LEAFS_0_NODES
          then tell_binding_owners BindingReleased (\<lambda>d. d = fst (hd (v_leafs ?y))) (w_owners (the (a_B ?A3 bd)))
        else if v_state ?y = STATE_AWAIT_ACKS then tell_binding_owners BindingReleased (\<lambda>d. d \<noteq> c) (w_owners (the (a_B ?A3 bd)))
        else []) else []) ?A3)"
      have "(if id_valid bd then (if vstate v = STATE_OWNERS_1_LEAFS_0_NODES
          then tell_binding_owners BindingReleased (\<lambda>d. d = fst (hd (v_leafs v))) (w_owners (the (a_B A bd))) else []) else []) = ?rel"
        using b by auto
      then have s4': "sees n4 (out_A (es3 @ ?rel) (put_T tm (Some ?y) A))" using s4 own(1) by (simp add: vstate_unowned split: if_splits)
      have "Q n4" by (rule Q[OF _ s4']) (use es3 in simp)
      then show "wp tot (do { e \<leftarrow> find_id (nd_terminals n4) tm; if el_hidden e then disassociate_terminal tm n4 else Some n4 }) Q"
        by (intro wp_bind wp_find_nt[OF s4', where v = ?y]) (simp_all add: own(2))
    qed simp
  qed (simp_all add: us)
  then show "wp tot (case (True, n2) of (alive, n2) \<Rightarrow> if \<not> alive
      then (if id_valid bd then release_binding_owners c bd n2 else Some n2)
      else do { n3 \<leftarrow> tell_last_owning_node tm n2; n4 \<leftarrow> update_bindings_after_removal c tm bd n3;
        e \<leftarrow> find_id (nd_terminals n4) tm; if el_hidden e then disassociate_terminal tm n4 else Some n4 }) Q" by simp
qed (use own(1) in \<open>auto simp: unowned_def\<close>)

context node_class begin

lemma wp_after_owner_removed:
  fixes n :: "('te, 'x) node" and old :: tview
  assumes s: "sees n A" and v: "a_T A tm = Some v" "v = without_owner c old"
    and owner: "owners_kinds old" "map_of (vowners c old) c \<noteq> None" "v_state old = vstate old"
    and b: "id_valid (v_binding v) \<Longrightarrow> \<exists>b. a_B A (v_binding v) = Some b \<and> distinct_keys (w_owners b) \<and>
      (\<forall>d \<in> fst ` set (w_owners b). \<not> remote_is_node d)"
    and us: "fsms_ok user_ok k C (v_users v)" and vis: "\<not> v_hidden v"
    and exn: "\<And>f. unowned v \<Longrightarrow> map_of (v_users v) c = Some f \<Longrightarrow> fsm_destroyed f"
    and last: "vstate v = STATE_OWNERS_0_LEAFS_1_NODES \<Longrightarrow> map_of (v_users v) (fst (hd (v_nodes v))) \<noteq> None"
    and Q: "\<And>n' es. filter status_event es = removal_status old v A \<Longrightarrow> sees n' (out_A es (after_removal tm v A)) \<Longrightarrow> Q n'"
  shows "wp tot (after_owner_removed h c tm n) Q"
proof -
  have dist: "distinct_keys (vowners c old)" using owner(1) by (simp add: owners_kinds_def vowners_def)
  note st = state_before[OF dist owner(2), folded v(2)]
  have vst: "v_state v = vstate old" using v(2) owner(3) by simp
  let ?bd = "v_binding v" and ?m = "binding_owners v A"
  have bo: "\<forall>d \<in> fst ` set ?m. \<not> remote_is_node d"
    using b unfolding binding_owners_def by (cases "id_valid ?bd") force+
  note rel = released_events[OF owner(1,2) bo, folded v(2)]
  have m: "id_valid ?bd \<Longrightarrow> \<exists>b. a_B A ?bd = Some b \<and> w_owners b = ?m \<and> distinct_keys ?m" "\<not> id_valid ?bd \<Longrightarrow> ?m = []"
    using b by (auto simp: binding_owners_def)
  have "wp tot (abandon_if_last h c tm n) (\<lambda>n1. wp tot (finish_owner_removal c tm ?bd n1) Q)"
  proof (cases "unowned v")
    case True
    then have state: "v_state v = STATE_OWNERS_1_LEAFS_0_NODES \<or> v_state v = STATE_OWNERS_0_LEAFS_1_NODES"
      using st vst by simp
    have vs: "vstate v = STATE_AWAIT_ACKS" using True by (simp add: vstate_unowned)
    show ?thesis
    proof (rule wp_abandon_if_last[OF s v(1) state _ us exn[OF True]])
      show "a_B A ?bd \<noteq> None" if "id_valid ?bd" using b[OF that] by auto
      fix n1 :: "('te, 'x) node"
      assume s1: "sees n1 (out_A (abandon_events (v_users v))
        (put_T tm (Some (v\<lparr>v_hidden := True, v_binding := default_id, v_users := abandon_all (v_users v)\<rparr>)) (unbind v A)))"
      have m1: "id_valid ?bd \<Longrightarrow> \<exists>b. a_B (unbind v A) ?bd = Some b \<and> w_owners b = ?m \<and> distinct_keys ?m"
        using m(1) a_B_unbind[of A ?bd] by metis
      show "wp tot (finish_owner_removal c tm ?bd n1) Q"
      proof (rule wp_finish_abandoned[OF s1 True us m1 m(2)])
        fix n' :: "('te, 'x) node" and es :: "node_event list"
        assume "filter status_event es = (if v_users v = [] then notify_out (v_ident v) False else []) @
            tell_binding_owners BindingReleased (\<lambda>d. d \<noteq> c) ?m"
          and "sees n' (out_A es (put_T tm (if v_users v = [] then None else Some (v\<lparr>v_hidden := True, v_binding := default_id,
            v_users := abandon_all (v_users v), v_state := STATE_AWAIT_ACKS\<rparr>)) (unbind v A)))"
        then show "Q n'"
          by (intro Q[of es]) (use True rel vs in \<open>auto simp: removal_status_def after_removal_def users_after_def\<close>)
      qed
    qed
  next
    case False
    then have state: "v_state v \<in> {STATE_OWNERS_M_LEAFS_0_NODES, STATE_OWNERS_N_LEAFS_N_NODES, STATE_OWNERS_0_LEAFS_M_NODES}"
      using st vst by auto
    show ?thesis
    proof (rule wp_abandon_shared[OF s v(1) state], rule wp_finish_owned[OF s v(1) False vis us m last])
      fix n' :: "('te, 'x) node" and es :: "node_event list"
      assume "filter status_event es = (if vstate v = STATE_OWNERS_1_LEAFS_0_NODES
          then tell_binding_owners BindingReleased (\<lambda>d. d = fst (hd (v_leafs v))) ?m else [])"
        and "sees n' (out_A es (put_T tm (Some (v\<lparr>v_state := vstate v, v_users := users_after v\<rparr>)) A))"
      then show "Q n'"
        by (intro Q[of es]) (use False rel vstate_unowned[of v] in \<open>auto simp: removal_status_def after_removal_def\<close>)
    qed
  qed
  then show ?thesis
    unfolding after_owner_removed_def by (auto intro!: wp_bind wp_get_nt[OF s v(1)])
qed

end

section \<open>The invariant after a removal\<close>

lemma map_of_abandon_all: "map_of (abandon_all us) c = map_option abandoned (map_of us c)"
  by (induction us) (auto simp: abandon_all_def)

lemma map_of_tell_user: "map_of (tell_user u us) c = (if c = u then map_option abandoned (map_of us c) else map_of us c)"
  by (induction us) (auto simp: tell_user_def)

lemma fsms_ok_users:
  assumes "fsms_ok user_ok k C us"
  shows "fsms_ok user_ok k C (abandon_all us)" "fsms_ok user_ok k C (tell_user u us)"
proof -
  have k: "map fst (abandon_all us) = map fst us" "map fst (tell_user u us) = map fst us"
    by (auto simp: abandon_all_def tell_user_def)
  show "fsms_ok user_ok k C (abandon_all us)" using assms abandoned_ok unfolding fsms_ok_def k by (auto simp: abandon_all_def)
  show "fsms_ok user_ok k C (tell_user u us)" using assms abandoned_ok unfolding fsms_ok_def k by (auto simp: tell_user_def)
qed

lemma abandon_all_destroyed: "fsms_ok user_ok k C us \<Longrightarrow> f \<in> snd ` set (abandon_all us) \<Longrightarrow> fsm_destroyed f"
  using abandoned_ok by (auto simp: abandon_all_def fsms_ok_def)

lemma unowned_simps [simp]: "unowned (v\<lparr>v_state := st\<rparr>) = unowned v" "unowned (v\<lparr>v_users := u\<rparr>) = unowned v"
  "unowned (v\<lparr>v_hidden := hid\<rparr>) = unowned v" "unowned (v\<lparr>v_binding := bb\<rparr>) = unowned v" "unowned (v\<lparr>v_subs := sb\<rparr>) = unowned v"
  "vstate (v\<lparr>v_state := st\<rparr>) = vstate v" "vstate (v\<lparr>v_users := u\<rparr>) = vstate v"
  "vstate (v\<lparr>v_hidden := hid\<rparr>) = vstate v" "vstate (v\<lparr>v_binding := bb\<rparr>) = vstate v" "vstate (v\<lparr>v_subs := sb\<rparr>) = vstate v"
  by (simp_all add: unowned_def vstate_def)

lemma sole_owner_simps [simp]: "sole_owner (v\<lparr>v_state := st\<rparr>) = sole_owner v" "sole_owner (v\<lparr>v_users := u\<rparr>) = sole_owner v"
  "sole_owner (v\<lparr>v_hidden := hid\<rparr>) = sole_owner v" "sole_owner (v\<lparr>v_binding := bb\<rparr>) = sole_owner v"
  "sole_owner (v\<lparr>v_subs := sb\<rparr>) = sole_owner v" "sole_owner (drop_subs v) = sole_owner v"
  by (auto simp: sole_owner_def fun_eq_iff)

lemma sole_owner_vstate: "sole_owner v d \<longleftrightarrow> vstate v = STATE_OWNERS_0_LEAFS_1_NODES \<and> d = fst (hd (v_nodes v))"
  unfolding sole_owner_def vstate_1N by (cases "v_nodes v") auto

lemma drop_subs_subset:
  "set (v_subs (drop_subs v)) \<subseteq> set (v_subs v)" "distinct_keys (v_subs v) \<Longrightarrow> distinct_keys (v_subs (drop_subs v))"
  "unowned v \<Longrightarrow> v_subs (drop_subs v) = []" "sole_owner v d \<Longrightarrow> d \<notin> fst ` set (v_subs (drop_subs v))"
proof -
  show "set (v_subs (drop_subs v)) \<subseteq> set (v_subs v)" by (auto simp: drop_subs_def AList.delete_eq)
  show "distinct_keys (v_subs v) \<Longrightarrow> distinct_keys (v_subs (drop_subs v))" by (simp add: drop_subs_def distinct_keys_delete)
  show "unowned v \<Longrightarrow> v_subs (drop_subs v) = []" by (simp add: drop_subs_def unowned_def)
  show "sole_owner v d \<Longrightarrow> d \<notin> fst ` set (v_subs (drop_subs v))"
    by (auto simp: sole_owner_vstate vstate_1N drop_subs_def AList.delete_eq)
qed

text \<open>The users and subscribers of an entry that has just lost an owner.\<close>

definition users_before :: "connection set \<Rightarrow> tview \<Rightarrow> tview \<Rightarrow> bool" where
  "users_before nodes old v \<longleftrightarrow> (\<forall>d \<in> nodes. map_of (v_users v) d \<noteq> None \<or> sole_owner old d) \<and>
     (\<forall>d f. sole_owner old d \<longrightarrow> map_of (v_users v) d = Some f \<longrightarrow> fsm_destroyed f)"

lemma sole_owner_without:
  assumes "sole_owner old d" "map_of (vowners c old) c \<noteq> None"
  shows "c = d" "unowned (without_owner c old)"
proof -
  obtain f where o1: "v_leafs old = []" "v_nodes old = [(d, f)]" using assms(1) by (auto simp: sole_owner_def)
  then show "c = d" using assms(2) by (auto simp: vowners_def split: if_splits)
  then show "unowned (without_owner c old)" using o1 assms(2) by (auto simp: unowned_def without_owner_maps vowners_def split: if_splits)
qed

lemma local_after_removal:
  assumes v: "v = without_owner c old" "map_of (vowners c old) c \<noteq> None" "\<not> v_hidden v"
    and maps: "fsms_ok owner_ok False (set (a_leafs A) \<union> gone) (v_leafs v)" "fsms_ok owner_ok True (set (a_nodes A) \<union> gone) (v_nodes v)"
    and us: "fsms_ok user_ok True (set (a_nodes A) \<union> gone) (v_users v)" "users_before (set (a_nodes A)) old v"
    and subs: "subs_ok s v"
    and w: "w = (if unowned v then v\<lparr>v_hidden := True, v_binding := default_id, v_users := users_after v, v_state := vstate v\<rparr>
      else v\<lparr>v_state := vstate v, v_users := users_after v\<rparr>)" "unowned v \<Longrightarrow> v_users v \<noteq> []"
  shows "local_ok s gone A w"
proof (cases "unowned v")
  case True
  then have w: "w = v\<lparr>v_hidden := True, v_binding := default_id, v_users := abandon_all (v_users v), v_state := vstate v\<rparr>"
    using w(1) by (simp add: users_after_def)
  have o1: "v_leafs v = []" "v_nodes v = []" using True by (simp_all add: unowned_def)
  have "v_subs v = []" using drop_subs_subset(3)[of "set_owners c (AList.delete c (vowners c old)) old"] True
    by (simp add: v(1) without_owner_def unowned_def)
  moreover have "users_ok (set (a_nodes A)) w"
    using abandon_all_destroyed[OF us(1)] assms(10)[OF True] o1 by (auto simp: users_ok_def w sole_owner_def)
  ultimately show ?thesis
    using fsms_ok_users(1)[OF us(1)] o1 subs unfolding local_ok_def w subs_ok_def by simp
next
  case False
  then have w: "w = v\<lparr>v_state := vstate v, v_users := users_after v\<rparr>" using w(1) by simp
  have ns: "\<not> sole_owner old d" for d using sole_owner_without[OF _ v(2)] False v(1) by blast
  have ua: "users_after v = (if vstate v = STATE_OWNERS_0_LEAFS_1_NODES then tell_user (fst (hd (v_nodes v))) (v_users v) else v_users v)"
    using False by (simp add: users_after_def)
  have mo: "map_of (users_after v) d = (if sole_owner v d then map_option abandoned (map_of (v_users v) d) else map_of (v_users v) d)" for d
    by (simp add: ua sole_owner_vstate map_of_tell_user)
  have users: "users_ok (set (a_nodes A)) w"
  proof -
    have "fsm_destroyed f" if "sole_owner v d" "map_of (users_after v) d = Some f" for d f
    proof -
      have "map_option abandoned (map_of (v_users v) d) = Some f" using that mo[of d] by simp
      then obtain g where g: "abandoned g = f" "map_of (v_users v) d = Some g" by (cases "map_of (v_users v) d") auto
      have "user_ok g" using fsms_okD(2)[OF us(1) g(2)] by blast
      then show ?thesis using abandoned_ok g(1) by blast
    qed
    moreover have "map_of (users_after v) d \<noteq> None" if "d \<in> set (a_nodes A)" for d
      using us(2) that ns by (auto simp: users_before_def mo)
    ultimately show ?thesis by (auto simp: users_ok_def w v(3))
  qed
  have "subs_ok s w"
  proof -
    have "\<not> sole_owner v d" if "(d, i) \<in> set (v_subs v)" for d i
    proof
      assume "sole_owner v d"
      then have "d \<notin> fst ` set (v_subs v)"
        using drop_subs_subset(4)[of "set_owners c (AList.delete c (vowners c old)) old" d] by (simp add: v(1) without_owner_def)
      then show False using that by (auto simp: image_iff)
    qed
    then show ?thesis using subs by (fastforce simp: subs_ok_def w mo)
  qed
  then show ?thesis
    using maps us(1) fsms_ok_users(2)[OF us(1)] users v(3) False unfolding local_ok_def w ua by (auto simp: unowned_def)
qed

definition removable :: "bool \<Rightarrow> connection set \<Rightarrow> nview \<Rightarrow> id \<Rightarrow> connection \<Rightarrow> tview \<Rightarrow> bool" where
  "removable s gone A tm c old \<longleftrightarrow> conns_ok A \<and> links_ok A \<and> complete A \<and> bindings_ok gone A \<and> winv A \<and> a_T A tm = Some old \<and>
     (\<forall>i w. i \<noteq> tm \<longrightarrow> a_T A i = Some w \<longrightarrow> local_ok s gone A w) \<and> owners_kinds old \<and>
     fsms_ok owner_ok False (set (a_leafs A) \<union> gone) (v_leafs (without_owner c old)) \<and>
     fsms_ok owner_ok True (set (a_nodes A) \<union> gone) (v_nodes (without_owner c old)) \<and>
     fsms_ok user_ok True (set (a_nodes A) \<union> gone) (v_users old) \<and> v_state old = vstate old \<and> \<not> v_hidden old \<and>
     users_before (set (a_nodes A)) old old \<and> subs_ok s old"

lemma inv_winv: "inv s gone A \<Longrightarrow> winv A"
proof -
  assume i: "inv s gone A"
  have "distinct_keys (v_subs v) \<and> (\<forall>c \<in> fst ` set (v_subs v). remote_is_node c)" if "a_T A tm = Some v" for tm v
  proof -
    have l: "local_ok s gone A v" using i that by (simp add: inv_def)
    then have us: "fsms_ok user_ok True (set (a_nodes A) \<union> gone) (v_users v)" and subs: "subs_ok s v" by (simp_all add: local_ok_def)
    have "remote_is_node c" if "(c, i) \<in> set (v_subs v)" for c i
      using subs that fsms_okD(2)[OF us, of c] unfolding subs_ok_def by fastforce
    then show ?thesis using subs unfolding subs_ok_def by auto
  qed
  moreover have "distinct_keys (w_owners b) \<and> (\<forall>c \<in> fst ` set (w_owners b). \<not> remote_is_node c)" if "a_B A bd = Some b" for bd b
    using i that unfolding inv_def bindings_ok_def fsms_ok_def by force
  ultimately show ?thesis using i unfolding winv_def inv_def by blast
qed

lemma owners_kinds_fsms:
  "fsms_ok P False C (v_leafs v) \<Longrightarrow> fsms_ok P' True D (v_nodes v) \<Longrightarrow> owners_kinds v"
  unfolding owners_kinds_def fsms_ok_def by auto

lemma inv_removable:
  assumes "inv s gone A" "a_T A tm = Some old" "\<not> v_hidden old"
  shows "removable s gone A tm c old"
proof -
  have l: "local_ok s gone A old" using assms(1,2) by (simp add: inv_def)
  then have "users_before (set (a_nodes A)) old old" using assms(3) unfolding local_ok_def users_ok_def users_before_def by blast
  moreover have "owners_kinds old" using l owners_kinds_fsms unfolding local_ok_def by blast
  moreover have "fsms_ok owner_ok False (set (a_leafs A) \<union> gone) (v_leafs (without_owner c old))"
    "fsms_ok owner_ok True (set (a_nodes A) \<union> gone) (v_nodes (without_owner c old))"
    using l fsms_ok_delete by (simp_all add: local_ok_def without_owner_maps)
  ultimately show ?thesis using assms l inv_winv[OF assms(1)] unfolding removable_def inv_def local_ok_def by blast
qed

lemma B_links_unbind:
  assumes "links_ok A" "a_T A tm = Some v"
  shows "B_links (unbind v A) = (if id_valid (v_binding v) then (B_links A)(v_binding v \<mapsto> (v_ident v, False, default_id)) else B_links A)"
  using links_okD(3)[OF assms] by (auto simp: unbind_def blink_def)

lemma T_links_unbind [simp]: "T_links (unbind v A) = T_links A"
  by (simp add: unbind_def)

lemma unbind_others [simp]: "conns_ok (unbind v A) = conns_ok A" "local_ok s g (unbind v A) w = local_ok s g A w"
  by (simp_all add: conns_ok_def local_ok_def)

lemma bindings_ok_unbind:
  assumes "bindings_ok g A" "links_ok A" "a_T A tm = Some v"
  shows "bindings_ok g (unbind v A)"
  using assms(1) links_okD(3)[OF assms(2,3)] unfolding bindings_ok_def by (auto simp: unbind_def split: if_splits)

lemma links_after_removal:
  assumes l: "links_ok A" "complete A" and v: "a_T A tm = Some v" "\<not> v_hidden v"
  shows "links_ok (after_removal tm v A) \<and> complete (after_removal tm v A)"
proof (cases "unowned v")
  case False
  have t: "tlink (v\<lparr>v_state := vstate v, v_users := users_after v\<rparr>) = tlink v" by simp
  show ?thesis using False links_put_T[OF v(1) t] l by (simp add: after_removal_def)
next
  case True
  let ?T = "(T_links A)(tm \<mapsto> (v_ident v, True, default_id))" and ?B = "B_links (unbind v A)"
  have t: "T_links A tm = Some (v_ident v, False, v_binding v)" using T_links_Some[OF v(1)] v(2) by simp
  have h: "links ?T ?B" "linked ?T ?B"
    using links_hide[OF l(1)[unfolded links_ok_def] t] linked_hide[OF l(2)[unfolded complete_def] t l(1)[unfolded links_ok_def]]
    by (simp_all add: B_links_unbind[OF l(1) v(1)])
  have e: "links ((T_links A)(tm := None)) ?B" "linked ((T_links A)(tm := None)) ?B"
    using links_erase[OF h(1), of tm] linked_erase(1)[OF h(2), of tm] by simp_all
  show ?thesis
    using True h e by (simp add: after_removal_def links_ok_def complete_def tlink_def)
qed

lemma without_subs_ok:
  assumes "subs_ok s old"
  shows "subs_ok s (without_owner c old)"
proof -
  let ?w = "set_owners c (AList.delete c (vowners c old)) old"
  have "subs_ok s ?w" using assms by (simp add: subs_ok_def)
  then show ?thesis using drop_subs_subset(1,2)[of ?w] unfolding without_owner_def subs_ok_def by auto
qed

lemma inv_after_removal:
  assumes r: "removable s gone A tm c old" and c: "map_of (vowners c old) c \<noteq> None"
  defines "v \<equiv> without_owner c old"
  shows "inv s gone (after_removal tm v (put_T tm (Some v) A))"
proof -
  let ?A = "put_T tm (Some v) A"
  have A: "conns_ok A" "links_ok A" "complete A" "bindings_ok gone A" "a_T A tm = Some old" "\<not> v_hidden old"
    and others: "\<And>i w. i \<noteq> tm \<Longrightarrow> a_T A i = Some w \<Longrightarrow> local_ok s gone A w"
    and us: "fsms_ok user_ok True (set (a_nodes A) \<union> gone) (v_users v)" "users_before (set (a_nodes A)) old v"
    using r unfolding removable_def v_def users_before_def by auto
  have maps: "fsms_ok owner_ok False (set (a_leafs A) \<union> gone) (v_leafs v)" "fsms_ok owner_ok True (set (a_nodes A) \<union> gone) (v_nodes v)"
    "subs_ok s v"
    using r without_subs_ok[of s old c] unfolding removable_def v_def by blast+
  have vis: "\<not> v_hidden v" using A(6) by (simp add: v_def)
  have l: "links_ok ?A" "complete ?A" using links_put_T[OF A(5), of v] A(2,3) by (simp_all add: v_def)
  have "links_ok (after_removal tm v ?A) \<and> complete (after_removal tm v ?A)"
    using links_after_removal[OF l _ vis] by simp
  moreover have "bindings_ok gone (after_removal tm v ?A)" "conns_ok (after_removal tm v ?A)"
    using bindings_ok_unbind[of gone ?A tm v] A(1,4) l(1) by (simp_all add: after_removal_def)
  moreover have "local_ok s gone (after_removal tm v ?A) w" if "a_T (after_removal tm v ?A) i = Some w" for i w
  proof (cases "i = tm")
    case False
    then have "a_T A i = Some w" using that by (simp add: after_removal_def split: if_splits)
    then show ?thesis using others[OF False] by (simp add: after_removal_def)
  next
    case True
    have "local_ok s gone A w"
    proof (rule local_after_removal[OF v_def[THEN meta_eq_to_obj_eq] c vis maps(1,2) us maps(3)])
      show "w = (if unowned v then v\<lparr>v_hidden := True, v_binding := default_id, v_users := users_after v, v_state := vstate v\<rparr>
          else v\<lparr>v_state := vstate v, v_users := users_after v\<rparr>)" "unowned v \<Longrightarrow> v_users v \<noteq> []"
        using that True by (auto simp: after_removal_def split: if_splits)
    qed
    then show ?thesis by (simp add: after_removal_def)
  qed
  ultimately show ?thesis by (simp add: inv_def)
qed

end
