(* ===== verification/Node_Preservation.thy ===== *)
theory Node_Preservation
  imports Node_Handlers
begin

text \<open>
  Every call on the node logic keeps the invariant: the messages of the two kinds of neighbours, and
  the start and the end of a connection.
\<close>

section \<open>Owners of terminals\<close>

lemma winv_put_T:
  assumes "winv A" "a_T A tm = Some v" "tlink v' = tlink v" "set (v_subs v') \<subseteq> set (v_subs v)" "distinct_keys (v_subs v')"
  shows "winv (put_T tm (Some v') A)"
  unfolding winv_def
proof (intro conjI allI impI)
  note w = assms(1)[unfolded winv_def]
  show "links_ok (put_T tm (Some v') A)" using w links_put_T(1)[OF assms(2,3)] by simp
  fix i x
  assume x: "a_T (put_T tm (Some v') A) i = Some x"
  have v: "\<forall>c \<in> fst ` set (v_subs v). remote_is_node c" using w assms(2) by blast
  show "distinct_keys (v_subs x)" using x w assms(5) by (cases "i = tm") auto
  show "\<forall>c \<in> fst ` set (v_subs x). remote_is_node c"
  proof (cases "i = tm")
    case True
    then show ?thesis using x v assms(4) by auto
  next
    case False
    then show ?thesis using x w by auto
  qed
next
  note w = assms(1)[unfolded winv_def]
  fix bd b
  assume "a_B (put_T tm (Some v') A) bd = Some b"
  then show "distinct_keys (w_owners b)" "\<forall>c \<in> fst ` set (w_owners b). \<not> remote_is_node c" using w by auto
qed

lemma after_removal_put [simp]: "after_removal tm v (put_T tm x A) = after_removal tm v A"
proof -
  have "unbind v (put_T tm x A) = put_T tm x (unbind v A)" by (simp add: unbind_def put_B_put_T)
  then show ?thesis by (simp add: after_removal_def)
qed

lemma binding_owners_put [simp]: "binding_owners v (put_T tm x A) = binding_owners v A" "binding_owners v (out_A es A) = binding_owners v A"
  by (simp_all add: binding_owners_def)

lemma removal_status_put [simp]: "removal_status old v (put_T tm x A) = removal_status old v A"
  "removal_status old v (out_A es A) = removal_status old v A"
  by (simp_all add: removal_status_def binding_owners_def)

lemma unbind_out [simp]: "unbind v (out_A es A) = out_A es (unbind v A)"
  by (simp add: unbind_def)

lemma after_removal_out [simp]: "after_removal tm v (out_A es A) = out_A es (after_removal tm v A)"
  by (simp add: after_removal_def)

context node_class begin

lemma wp_lose_owner:
  fixes n :: "('te, 'x) node"
  assumes sA: "sees n A" and r: "removable s gone A tm c old" and g: "gone \<subseteq> {c}" and c: "map_of (vowners c old) c \<noteq> None"
    and Q: "\<And>n' es. filter status_event es = removal_status old (without_owner c old) A \<Longrightarrow>
      sees n' (out_A es (after_removal tm (without_owner c old) A)) \<Longrightarrow> inv s gone (after_removal tm (without_owner c old) A) \<Longrightarrow> Q n'"
  shows "wp tot (do { n2 \<leftarrow> modify_nt tm (map_owners c (AList.delete c)) n; n3 \<leftarrow> nh_owner_removed h c tm n2;
    after_owner_removed h c tm n3 }) Q"
proof -
  let ?w = "set_owners c (AList.delete c (vowners c old)) old" and ?v = "without_owner c old"
  note r' = r[unfolded removable_def]
  have old: "a_T A tm = Some old" and ub: "users_before (set (a_nodes A)) old old" using r' by blast+
  have subs: "\<not> s \<longrightarrow> v_subs ?w = []" using r' by (simp add: subs_ok_def)
  have ww: "winv (put_T tm (Some ?w) A)" by (rule winv_put_T[OF _ old]) (use r' in \<open>simp_all add: subs_ok_def\<close>)
  have k: "owners_kinds old" using r' by blast
  have b: "\<exists>b. a_B A (v_binding ?v) = Some b \<and> distinct_keys (w_owners b) \<and> (\<forall>d \<in> fst ` set (w_owners b). \<not> remote_is_node d)"
    if "id_valid (v_binding ?v)"
  proof -
    have val: "id_valid (v_binding old)" and l: "links_ok A" and w: "winv A" using that r' by simp_all
    obtain b where "a_B A (v_binding old) = Some b" using links_okD(3)[OF l old val] by blast
    then show ?thesis using w by (auto simp: winv_def)
  qed
  have exn: "fsm_destroyed f" if "unowned ?v" "map_of (v_users ?v) c = Some f" for f
  proof -
    have us: "map_of (v_users old) c = Some f" using that(2) by simp
    have "remote_is_node c" using fsms_okD(2)[OF _ us] r' by blast
    moreover have "distinct_keys (vowners c old)" using k by (simp add: owners_kinds_def vowners_def)
    ultimately have "vstate old = STATE_OWNERS_0_LEAFS_1_NODES" using state_before[of c old] c that(1) by simp
    then have "v_leafs old = []" "length (v_nodes old) = 1" unfolding vstate_1N by auto
    moreover have "map_of (v_nodes old) c \<noteq> None" using c \<open>remote_is_node c\<close> by (simp add: vowners_def)
    ultimately have "sole_owner old c" by (cases "v_nodes old") (auto simp: sole_owner_def split: if_splits)
    then show ?thesis using ub us unfolding users_before_def by blast
  qed
  have last: "map_of (v_users ?v) (fst (hd (v_nodes ?v))) \<noteq> None" if st: "vstate ?v = STATE_OWNERS_0_LEAFS_1_NODES"
  proof -
    let ?u = "fst (hd (v_nodes ?v))"
    have "v_nodes ?v \<noteq> []" using st unfolding vstate_1N by auto
    then have u: "?u \<in> fst ` set (v_nodes ?v)" by (cases "v_nodes ?v") auto
    have "?u \<noteq> c"
    proof
      assume uc: "?u = c"
      have "remote_is_node ?u" using u owners_kinds_without[OF k, of c] unfolding owners_kinds_def by blast
      then show False using u uc by (auto simp: without_owner_maps fst_delete)
    qed
    moreover have "?u \<in> set (a_nodes A) \<union> gone" using fsms_okD(3)[OF _ u] r' by blast
    ultimately have "?u \<in> set (a_nodes A)" using g by auto
    moreover have "\<not> sole_owner old ?u"
    proof
      assume "sole_owner old ?u"
      from sole_owner_without(1)[OF this c] show False using \<open>?u \<noteq> c\<close> by simp
    qed
    ultimately show ?thesis using ub unfolding users_before_def without_simps by blast
  qed
  have us: "fsms_ok user_ok True (set (a_nodes A) \<union> gone) (v_users ?v)" and vis: "\<not> v_hidden ?v" and st: "v_state old = vstate old"
    using r' by simp_all
  show ?thesis
  proof (rule wp_bind, rule wp_modify_nt[OF sA old tview_map_owners], rule wp_bind)
    fix n2 :: "('te, 'x) node"
    assume s2: "sees n2 (put_T tm (Some ?w) A)"
    have "wp tot (nh_owner_removed h c tm n2) (\<lambda>n3. sees n3 (put_T tm (Some ?v) A))"
      using owner_removed[OF s2 ww _ subs, of tm c] by (simp add: without_owner_def)
    then show "wp tot (nh_owner_removed h c tm n2) (\<lambda>n3. wp tot (after_owner_removed h c tm n3) Q)"
    proof (rule wp_mono)
      fix n3 :: "('te, 'x) node"
      assume s3: "sees n3 (put_T tm (Some ?v) A)"
      show "wp tot (after_owner_removed h c tm n3) Q"
      proof (rule wp_after_owner_removed[OF s3 _ refl k c st _ us vis exn last])
        show "\<exists>b. a_B (put_T tm (Some ?v) A) (v_binding ?v) = Some b \<and> distinct_keys (w_owners b) \<and>
          (\<forall>d \<in> fst ` set (w_owners b). \<not> remote_is_node d)" if "id_valid (v_binding ?v)" using b[OF that] by simp
        fix n' :: "('te, 'x) node" and es
        assume "filter status_event es = removal_status old ?v (put_T tm (Some ?v) A)"
          and "sees n' (out_A es (after_removal tm ?v (put_T tm (Some ?v) A)))"
        then show "Q n'" using Q[of es n'] inv_after_removal[OF r c] by simp
      qed simp
    qed
  qed
qed


end

text \<open>The machine of an owner is always mapped; its removal may be one that was acknowledged in advance.\<close>

lemma owner_removed_fsm:
  assumes "owner_ok f"
  shows "process_rcvd_removed f = (if m_skipRemovedAcks f > 0
    then Some (f\<lparr>m_skipRemovedAcks := m_skipRemovedAcks f - 1\<rparr>, [], True)
    else Some (f\<lparr>m_mappedId := default_id, m_state := UNUSED_CONFIRMED\<rparr>, [SendRemAck (m_mappedId f), MappStChanged False], True))"
  using assms by (simp add: process_rcvd_removed_def owner_ok_def)

lemma local_set_owner:
  assumes l: "local_ok s gone A v" and c: "map_of (vowners c v) c \<noteq> None" and f: "owner_ok f"
  shows "local_ok s gone A (set_owners c (AList.update c f (vowners c v)) v)"
proof -
  let ?m = "AList.update c f (vowners c v)" and ?w = "set_owners c (AList.update c f (vowners c v)) v"
  obtain g where g: "map_of (vowners c v) c = Some g" using c by blast
  have kc: "remote_is_node c = True \<longrightarrow> c \<in> set (a_nodes A) \<union> gone" "\<not> remote_is_node c \<longrightarrow> c \<in> set (a_leafs A) \<union> gone"
    using fsms_okD(2) g l unfolding local_ok_def vowners_def by (metis (mono_tags, lifting))+
  have keys: "map fst (v_leafs ?w) = map fst (v_leafs v)" "map fst (v_nodes ?w) = map fst (v_nodes v)"
    using c by (cases "remote_is_node c"; simp add: set_owners_def vowners_def keys_update)+
  then have len: "length (v_leafs ?w) = length (v_leafs v)" "length (v_nodes ?w) = length (v_nodes v)"
    by (metis length_map)+
  then have e: "vstate ?w = vstate v" "v_leafs ?w = [] \<longleftrightarrow> v_leafs v = []" "v_nodes ?w = [] \<longleftrightarrow> v_nodes v = []"
    by (auto simp: vstate_def)
  then have so: "sole_owner ?w = sole_owner v" using keys by (simp add: sole_owner_def fun_eq_iff)
  have "fsms_ok owner_ok False (set (a_leafs A) \<union> gone) (v_leafs ?w)" "fsms_ok owner_ok True (set (a_nodes A) \<union> gone) (v_nodes ?w)"
    using l kc f fsms_ok_update by (auto simp: local_ok_def set_owners_def vowners_def)
  moreover have "users_ok (set (a_nodes A)) ?w" "subs_ok s ?w" using l so by (simp_all add: local_ok_def users_ok_def subs_ok_def)
  ultimately show ?thesis using l e by (simp add: local_ok_def)
qed

lemma inv_put_T:
  assumes "inv s gone A" "a_T A tm = Some v" "tlink v' = tlink v" "local_ok s gone A v'"
  shows "inv s gone (put_T tm (Some v') A)"
  using assms links_put_T[OF assms(2,3)] by (auto simp: inv_def)

lemma inv_put_B:
  assumes "inv s gone A" "a_B A bd = Some b" "blink b' = blink b" "w_owners b' \<noteq> []"
    "fsms_ok owner_ok False (set (a_leafs A) \<union> gone) (w_owners b')"
  shows "inv s gone (put_B bd (Some b') A)"
  using assms links_put_B[OF assms(2,3)] by (auto simp: inv_def bindings_ok_def)

lemma set_owner_keys:
  fixes g :: fsm
  assumes "map_of (vowners c v) c \<noteq> None"
  defines "w \<equiv> set_owners c (AList.update c g (vowners c v)) v"
  shows "map fst (v_leafs w) = map fst (v_leafs v)" "map fst (v_nodes w) = map fst (v_nodes v)"
    "vstate w = vstate v" "sole_owner w = sole_owner v" "owned_elsewhere w = owned_elsewhere v" "owners_kinds w = owners_kinds v"
    "without_owner c w = without_owner c v" "unowned w = unowned v"
proof -
  show k: "map fst (v_leafs w) = map fst (v_leafs v)" "map fst (v_nodes w) = map fst (v_nodes v)"
    using assms(1) by (cases "remote_is_node c"; simp add: w_def set_owners_def vowners_def keys_update)+
  then have "length (v_leafs w) = length (v_leafs v)" "length (v_nodes w) = length (v_nodes v)" by (metis length_map)+
  then show "vstate w = vstate v" "sole_owner w = sole_owner v" "unowned w = unowned v"
    using k by (auto simp: vstate_def sole_owner_def fun_eq_iff unowned_def)
  have "fst ` set (v_leafs w) = fst ` set (v_leafs v)" "fst ` set (v_nodes w) = fst ` set (v_nodes v)"
    using k by (metis set_map)+
  then show "owned_elsewhere w = owned_elsewhere v" "owners_kinds w = owners_kinds v"
    using k unfolding owned_elsewhere_def owners_kinds_def by (simp_all add: image_Un fun_eq_iff)
  have "AList.delete c (AList.update c g m) = AList.delete c m" for m by (induction m) auto
  then show "without_owner c w = without_owner c v" by (simp add: without_owner_def w_def)
qed

lemma removable_set_owner:
  fixes g :: fsm
  assumes r: "removable s gone A tm c v" and c: "map_of (vowners c v) c \<noteq> None"
  defines "w \<equiv> set_owners c (AList.update c g (vowners c v)) v"
  shows "removable s gone (put_T tm (Some w) A) tm c w"
proof -
  note k = set_owner_keys[OF c, of g, folded w_def]
  note r' = r[unfolded removable_def]
  have v: "a_T A tm = Some v" and t: "tlink w = tlink v" using r' by (simp_all add: w_def)
  have "winv (put_T tm (Some w) A)" by (rule winv_put_T[OF _ v t]) (use r' in \<open>simp_all add: w_def subs_ok_def\<close>)
  moreover have "users_before (set (a_nodes A)) w w" "subs_ok s w" using r' k(4) by (simp_all add: users_before_def subs_ok_def w_def)
  moreover have "v_users w = v_users v" "v_state w = v_state v" "v_hidden w = v_hidden v" by (simp_all add: w_def)
  ultimately show ?thesis using r' k links_put_T[OF v t] unfolding removable_def by simp
qed

context node_class begin

lemma wp_node_TerminalRemoved:
  fixes n :: "('te, 'x) node"
  assumes sA: "sees n A" and i: "inv s {} A" and v: "a_T A tm = Some v" and c: "map_of (vowners c v) c = Some f"
    and skip: "\<And>n' v'. m_skipRemovedAcks f > 0 \<Longrightarrow>
      v' = set_owners c (AList.update c (f\<lparr>m_skipRemovedAcks := m_skipRemovedAcks f - 1\<rparr>) (vowners c v)) v \<Longrightarrow>
      sees n' (put_T tm (Some v') A) \<Longrightarrow> inv s {} (put_T tm (Some v') A) \<Longrightarrow> Q n'"
    and remove: "\<And>n' es. m_skipRemovedAcks f = 0 \<Longrightarrow> filter status_event es = removal_status v (without_owner c v) A \<Longrightarrow>
      sees n' (out_A es (after_removal tm (without_owner c v) A)) \<Longrightarrow> inv s {} (after_removal tm (without_owner c v) A) \<Longrightarrow> Q n'"
  shows "wp tot (node_TerminalRemoved h tm c n) Q"
proof -
  have l: "local_ok s {} A v" using i v by (simp add: inv_def)
  have ok: "owner_ok f" using l c fsms_okD(2) unfolding local_ok_def vowners_def by (metis (mono_tags, lifting))
  have vis: "\<not> v_hidden v" using l c by (auto simp: local_ok_def vowners_def split: if_splits)
  have ok2: "fsms_ok owner_ok (remote_is_node c) (set (if remote_is_node c then a_nodes A else a_leafs A)) (vowners c v)"
    using l by (simp add: local_ok_def vowners_def)
  show ?thesis
    unfolding node_TerminalRemoved_def remove_terminal_owner_def
  proof (rule wp_bind, rule wp_get_nt[OF sA v])
    fix t :: "'te node_terminal"
    have "wp tot (owner_fsm tm c default_id process_rcvd_removed n) (\<lambda>(outs, n1).
      wp tot (if \<forall>out \<in> set outs. \<forall>b. out \<noteq> MappStChanged b then Some n1
       else do { n2 \<leftarrow> modify_nt tm (map_owners c (AList.delete c)) n1; n3 \<leftarrow> nh_owner_removed h c tm n2; after_owner_removed h c tm n3 }) Q)"
    proof (cases "m_skipRemovedAcks f > 0")
      case True
      let ?g = "f\<lparr>m_skipRemovedAcks := m_skipRemovedAcks f - 1\<rparr>"
      have call: "process_rcvd_removed f = Some (?g, [], True)" using owner_removed_fsm[OF ok] True by simp
      have "local_ok s {} A (set_owners c (AList.update c ?g (vowners c v)) v)"
        by (rule local_set_owner[OF l]) (use c ok in \<open>auto simp: owner_ok_def\<close>)
      then have "inv s {} (put_T tm (Some (set_owners c (AList.update c ?g (vowners c v)) v)) A)" by (intro inv_put_T[OF i v]) simp_all
      with skip[OF True refl] show ?thesis
        by (intro wp_owner_fsm[where call = process_rcvd_removed and es = "[]", OF sA v c call]) simp_all
    next
      case False
      let ?g = "f\<lparr>m_mappedId := default_id, m_state := UNUSED_CONFIRMED\<rparr>"
      have call: "process_rcvd_removed f = Some (?g, [SendRemAck (m_mappedId f), MappStChanged False], True)"
        using owner_removed_fsm[OF ok] False by simp
      let ?v1 = "set_owners c (AList.update c ?g (vowners c v)) v"
      let ?ack = "[Node_Sent c (TerminalRemovedAck (m_mappedId f))]" and ?A1 = "put_T tm (Some ?v1) A"
      have c': "map_of (vowners c v) c \<noteq> None" using c by simp
      note k = set_owner_keys[OF c', of ?g]
      have r: "removable s {} ?A1 tm c ?v1" by (rule removable_set_owner[OF inv_removable[OF i v vis] c'])
      then have r1: "removable s {} (out_A ?ack ?A1) tm c ?v1" by (simp add: removable_def winv_def)
      show ?thesis
      proof (rule wp_owner_fsm[where call = process_rcvd_removed, OF sA v c call])
        fix n1 :: "('te, 'x) node"
        assume s1: "sees n1 (out_A ?ack ?A1)"
        have "wp tot (do { n2 \<leftarrow> modify_nt tm (map_owners c (AList.delete c)) n1; n3 \<leftarrow> nh_owner_removed h c tm n2; after_owner_removed h c tm n3 }) Q"
        proof (rule wp_lose_owner[OF s1 r1])
          fix n' :: "('te, 'x) node" and es
          assume es: "filter status_event es = removal_status ?v1 (without_owner c ?v1) (out_A ?ack ?A1)"
            and s': "sees n' (out_A es (after_removal tm (without_owner c ?v1) (out_A ?ack ?A1)))"
            and i': "inv s {} (after_removal tm (without_owner c ?v1) (out_A ?ack ?A1))"
          show "Q n'"
            by (rule remove[of "?ack @ es"]) (use False es s' i' k(5,7) in \<open>simp_all add: removal_status_def\<close>)
        qed (use c' in \<open>simp_all add: map_of_alist_update\<close>)
        then show "case ([SendRemAck (m_mappedId f), MappStChanged False], n1) of (outs, n1) \<Rightarrow>
          wp tot (if \<forall>out \<in> set outs. \<forall>b. out \<noteq> MappStChanged b then Some n1
           else do { n2 \<leftarrow> modify_nt tm (map_owners c (AList.delete c)) n1; n3 \<leftarrow> nh_owner_removed h c tm n2; after_owner_removed h c tm n3 }) Q"
          by simp blast
      qed simp
    qed
    then show "wp tot (if False \<and> map_of (nt_owners c t) c = None then Some n
     else do {
       (stillOwned, n1) \<leftarrow> (if False then Some (False, n)
         else do { (outs, n1) \<leftarrow> owner_fsm tm c default_id process_rcvd_removed n;
           Some (\<forall>out \<in> set outs. \<forall>b. out \<noteq> MappStChanged b, n1) });
       if stillOwned then Some n1
       else do {
         n2 \<leftarrow> modify_nt tm (map_owners c (AList.delete c)) n1;
         n3 \<leftarrow> nh_owner_removed h c tm n2;
         after_owner_removed h c tm n3 } }) Q"
      by (auto intro!: wp_bind elim!: wp_mono)
  qed
qed

end

section \<open>Users of terminals\<close>

lemma fsms_set_user: "fsms_ok P k C m \<Longrightarrow> map_of m c = Some f \<Longrightarrow> P f' \<Longrightarrow> fsms_ok P k C (AList.update c f' m)"
  using fsms_ok_update fsms_okD(2) by metis

lemma local_set_user:
  assumes l: "local_ok s gone A v" and c: "map_of (v_users v) c = Some f" and f: "user_ok f'" "fsm_destroyed f \<longrightarrow> fsm_destroyed f'"
    and um: "\<not> is_mapped f"
  shows "local_ok s gone A (v\<lparr>v_users := AList.update c f' (v_users v)\<rparr>)"
proof -
  let ?us = "AList.update c f' (v_users v)"
  have m: "map_of ?us d = (if d = c then Some f' else map_of (v_users v) d)" for d by (simp add: map_of_alist_update)
  have us: "fsms_ok user_ok True (set (a_nodes A) \<union> gone) (v_users v)" using l by (simp add: local_ok_def)
  have d: "distinct_keys (v_users v)" "distinct_keys ?us" using fsms_okD(1)[OF us] distinct_keys_update[OF fsms_okD(1)[OF us]] by simp_all
  have "users_ok (set (a_nodes A)) (v\<lparr>v_users := ?us\<rparr>)"
  proof -
    have u: "users_ok (set (a_nodes A)) v" using l by (simp add: local_ok_def)
    have hid: "fsm_destroyed g" if "v_hidden v" "map_of (v_users v) d' = Some g" for g d'
      using u that(1) map_of_SomeD[OF that(2)] unfolding users_ok_def by force
    have sole: "fsm_destroyed g" if "sole_owner v d'" "map_of (v_users v) d' = Some g" for g d'
      using u that unfolding users_ok_def by blast
    have "fsm_destroyed g" if "v_hidden v" "g \<in> snd ` set ?us" for g
    proof -
      obtain d' where "(d', g) \<in> set ?us" using \<open>g \<in> snd ` set ?us\<close> by auto
      then have "map_of ?us d' = Some g" using d(2) by simp
      then have "g = f' \<or> map_of (v_users v) d' = Some g" by (auto simp: m split: if_splits)
      then show ?thesis using hid[OF that(1)] c f(2) by blast
    qed
    moreover have "fsm_destroyed g" if "sole_owner v d'" "map_of ?us d' = Some g" for d' g
      using that(2) sole[OF that(1)] c f(2) by (auto simp: m split: if_splits)
    moreover have "map_of ?us d' \<noteq> None \<or> sole_owner v d'" if "\<not> v_hidden v" "d' \<in> set (a_nodes A)" for d'
      using u that unfolding users_ok_def m by auto
    ultimately show ?thesis unfolding users_ok_def by simp
  qed
  moreover have "subs_ok s (v\<lparr>v_users := ?us\<rparr>)"
    using l um c by (fastforce simp: local_ok_def subs_ok_def m)
  moreover have "fsms_ok user_ok True (set (a_nodes A) \<union> gone) ?us" by (rule fsms_set_user[OF us c f(1)])
  ultimately show ?thesis using l by (simp add: local_ok_def)
qed

context node_class begin

lemma wp_node_TerminalMapping:
  fixes n :: "('te, 'x) node"
  assumes sA: "sees n A" and i: "inv s {} A" and c: "remote_is_node c" and v: "a_T A tm = Some v"
    and f: "map_of (v_users v) c = Some f" "m_state f = UNUSED_UNCONFIRMED \<or> m_state f = AWAIT_CONFIRMATION"
    and Q: "\<And>n' v' es. tlink v' = tlink v \<Longrightarrow> v_leafs v' = v_leafs v \<Longrightarrow> v_nodes v' = v_nodes v \<Longrightarrow> filter status_event es = [] \<Longrightarrow>
      sees n' (out_A es (put_T tm (Some v') A)) \<Longrightarrow> inv s {} (put_T tm (Some v') A) \<Longrightarrow> Q n'"
  shows "wp tot (node_TerminalMapping tm m c n) Q"
proof -
  have l: "local_ok s {} A v" using i v by (simp add: inv_def)
  have uk: "user_ok f" using fsms_okD(2)[OF _ f(1)] l unfolding local_ok_def by blast
  have st: "v_state v \<noteq> STATE_JUST_CREATED" using l by (auto simp: local_ok_def vstate_def Let_def split: if_splits)
  define f' where "f' = f\<lparr>m_mappedId := m, m_state := (if m_state f = UNUSED_UNCONFIRMED then MAPPED_CONFIRMED else AWAIT_ACK)\<rparr>"
  define outs where "outs = (if m_state f = UNUSED_UNCONFIRMED then [MappStChanged True] else [SendRem m])"
  define es where "es = (if m_state f = UNUSED_UNCONFIRMED then [] else [Node_Sent c (TerminalRemoved m)])"
  have call: "keep (process_rcvd_mapping m f) = Some (f', outs, True)"
    using uk f(2) by (auto simp: process_rcvd_mapping_def keep_def user_ok_def f'_def outs_def)
  have es': "outs_of (user_out x c tm) outs = Some es" for x by (simp add: outs_def es_def)
  have f': "user_ok f'" "fsm_destroyed f \<longrightarrow> fsm_destroyed f'" "\<not> is_mapped f"
    using uk f(2) by (auto simp: user_ok_def f'_def fsm_destroyed_def is_mapped_def)
  have ens: "ensure_fsm c (v_users v) = v_users v" using f(1) by (simp add: ensure_fsm_def)
  let ?v = "v\<lparr>v_users := AList.update c f' (v_users v)\<rparr>"
  have iv: "inv s {} (put_T tm (Some ?v) A)" by (rule inv_put_T[OF i v]) (use local_set_user[OF l f(1) f'] in simp_all)
  show ?thesis
    unfolding node_TerminalMapping_def
  proof (simp add: c, rule wp_bind, rule wp_get_nt[OF sA v])
    fix t :: "'te node_terminal"
    assume t: "nt_state t = v_state v"
    have "wp tot (modify_nt tm (map_users (ensure_fsm c)) n) (\<lambda>n1. wp tot
      (map_option snd (user_fsm tm c (\<lambda>f. keep (process_rcvd_mapping m f)) n1)) Q)"
    proof (rule wp_modify_nt[OF sA v tview_map_users], rule wp_map_option)
      fix n1 :: "('te, 'x) node"
      assume "sees n1 (put_T tm (Some (v\<lparr>v_users := ensure_fsm c (v_users v)\<rparr>)) A)"
      then have s1: "sees n1 A" using ens put_T_same[OF v] by simp
      show "wp tot (user_fsm tm c (\<lambda>f. keep (process_rcvd_mapping m f)) n1) (\<lambda>x. Q (snd x))"
        by (rule wp_user_fsm[where call = "\<lambda>f. keep (process_rcvd_mapping m f)", OF s1 v f(1) call es'])
          (rule Q[of ?v es], use iv in \<open>simp_all add: es_def\<close>)
    qed
    then show "wp tot (if nt_state t \<noteq> STATE_JUST_CREATED then modify_nt tm (map_users (ensure_fsm c)) n \<bind>
        (\<lambda>n1. map_option snd (user_fsm tm c (\<lambda>f. keep (process_rcvd_mapping m f)) n1)) else None) Q"
      using st t by (auto intro: wp_bind)
  qed
qed

end

text \<open>A user acknowledges the removal: it is forgotten, or told again if the terminal is back.\<close>

definition after_ack :: "id \<Rightarrow> connection \<Rightarrow> tview \<Rightarrow> nview \<Rightarrow> nview" where
  "after_ack tm c v A = (if \<not> (v_hidden v \<or> sole_owner v c) then put_T tm (Some (v\<lparr>v_users := AList.update c told (v_users v)\<rparr>)) A
     else if v_hidden v \<and> AList.delete c (v_users v) = [] then put_T tm None A
     else put_T tm (Some (v\<lparr>v_users := AList.delete c (v_users v)\<rparr>)) A)"

definition ack_status :: "connection \<Rightarrow> tview \<Rightarrow> node_event list" where
  "ack_status c v = (if v_hidden v \<and> AList.delete c (v_users v) = [] then notify_out (v_ident v) False else [])"

lemma inv_erase_T:
  assumes i: "inv s gone A" and v: "a_T A tm = Some v" "v_hidden v"
  shows "inv s gone (put_T tm None A)"
proof -
  have l: "links_ok A" "complete A" using i by (simp_all add: inv_def)
  have t: "T_links A tm = Some (v_ident v, True, v_binding v)" using T_links_Some[OF v(1)] v(2) by simp
  have "links_ok (put_T tm None A)" "complete (put_T tm None A)"
    using links_erase[OF l(1)[unfolded links_ok_def] t] linked_erase(1)[OF l(2)[unfolded complete_def], of tm]
    by (simp_all add: links_ok_def complete_def)
  then show ?thesis using i by (simp add: inv_def)
qed

lemma users_not_subscribed: "subs_ok s v \<Longrightarrow> map_of (v_users v) c = Some f \<Longrightarrow> \<not> is_mapped f \<Longrightarrow> c \<notin> fst ` set (v_subs v)"
  unfolding subs_ok_def by fastforce

lemma subs_ok_users:
  assumes "subs_ok s v" "\<And>d. d \<in> fst ` set (v_subs v) \<Longrightarrow> map_of us d = map_of (v_users v) d"
  shows "subs_ok s (v\<lparr>v_users := us\<rparr>)"
proof -
  have "\<exists>f. map_of us d = Some f \<and> is_mapped f \<and> m_mappedId f = i" if "(d, i) \<in> set (v_subs v)" for d i
    using assms(1) that assms(2)[of d] unfolding subs_ok_def by (force simp: image_iff)
  then show ?thesis using assms(1) by (auto simp: subs_ok_def)
qed

lemma local_delete_user:
  assumes l: "local_ok s gone A v" and gone: "v_hidden v \<and> AList.delete c (v_users v) \<noteq> [] \<or> sole_owner v c"
    and subs: "c \<notin> fst ` set (v_subs v)"
  shows "local_ok s gone A (v\<lparr>v_users := AList.delete c (v_users v)\<rparr>)"
proof -
  let ?us = "AList.delete c (v_users v)"
  have us: "fsms_ok user_ok True (set (a_nodes A) \<union> gone) (v_users v)" and uo: "users_ok (set (a_nodes A)) v" and so: "subs_ok s v"
    using l by (simp_all add: local_ok_def)
  have vis: "v_hidden v \<longleftrightarrow> v_leafs v = [] \<and> v_nodes v = []" using l by (simp add: local_ok_def)
  have hid: "v_hidden v \<Longrightarrow> ?us \<noteq> []" using gone vis by (auto simp: sole_owner_def)
  have sub: "set ?us \<subseteq> set (v_users v)" by (auto simp: AList.delete_eq)
  have mo: "map_of ?us d = (if d = c then None else map_of (v_users v) d)" for d by (simp add: delete_conv')
  have sole: "\<not> v_hidden v \<Longrightarrow> sole_owner v c" using gone by blast
  have "users_ok (set (a_nodes A)) (v\<lparr>v_users := ?us\<rparr>)"
    using uo hid sub sole unfolding users_ok_def by (auto simp: mo split: if_splits)
  moreover have "subs_ok s (v\<lparr>v_users := ?us\<rparr>)" using subs by (intro subs_ok_users[OF so]) (auto simp: mo)
  ultimately show ?thesis using l fsms_ok_delete[OF us] by (simp add: local_ok_def)
qed

lemma local_tell_again:
  assumes l: "local_ok s gone A v" and c: "map_of (v_users v) c = Some f" "\<not> is_mapped f" and vis: "\<not> v_hidden v" "\<not> sole_owner v c"
  shows "local_ok s gone A (v\<lparr>v_users := AList.update c told (v_users v)\<rparr>)"
proof -
  let ?us = "AList.update c told (v_users v)"
  have us: "fsms_ok user_ok True (set (a_nodes A) \<union> gone) (v_users v)" and uo: "users_ok (set (a_nodes A)) v" and so: "subs_ok s v"
    using l by (simp_all add: local_ok_def)
  have mo: "map_of ?us d = (if d = c then Some told else map_of (v_users v) d)" for d by (simp add: map_of_alist_update)
  have "c \<notin> fst ` set (v_subs v)" by (rule users_not_subscribed[OF so c])
  then have "subs_ok s (v\<lparr>v_users := ?us\<rparr>)" by (intro subs_ok_users[OF so]) (auto simp: mo)
  moreover have "users_ok (set (a_nodes A)) (v\<lparr>v_users := ?us\<rparr>)"
    using uo vis unfolding users_ok_def by (auto simp: mo split: if_splits)
  moreover have "user_ok told" by (simp add: user_ok_def told_def)
  then have "fsms_ok user_ok True (set (a_nodes A) \<union> gone) ?us" by (rule fsms_set_user[OF us c(1)])
  ultimately show ?thesis using l by (simp add: local_ok_def)
qed

lemma inv_after_ack:
  assumes i: "inv s gone A" and v: "a_T A tm = Some v" and f: "map_of (v_users v) c = Some f" "\<not> is_mapped f"
  shows "inv s gone (after_ack tm c v A)"
proof -
  have l: "local_ok s gone A v" using i v by (simp add: inv_def)
  have "subs_ok s v" using l by (simp add: local_ok_def)
  note subs = users_not_subscribed[OF this f]
  have so: "sole_owner v c \<Longrightarrow> \<not> v_hidden v" using l by (auto simp: local_ok_def sole_owner_def)
  show ?thesis
    using so inv_erase_T[OF i v] inv_put_T[OF i v] local_delete_user[OF l _ subs] local_tell_again[OF l f]
    unfolding after_ack_def by (auto split: if_splits)
qed

lemma unowned_state:
  assumes l: "local_ok s gone A v" and c: "remote_is_node c"
  shows "v_state v = STATE_AWAIT_ACKS \<or> v_state v = STATE_OWNERS_0_LEAFS_1_NODES \<and> map_of (v_nodes v) c \<noteq> None \<longleftrightarrow>
    v_hidden v \<or> sole_owner v c" "v_state v \<noteq> STATE_JUST_CREATED"
proof -
  have st: "v_state v = vstate v" "v_hidden v \<longleftrightarrow> unowned v" using l by (simp_all add: local_ok_def unowned_def)
  then show "v_state v \<noteq> STATE_JUST_CREATED" by (simp add: vstate_def Let_def)
  have "v_state v = STATE_OWNERS_0_LEAFS_1_NODES \<and> map_of (v_nodes v) c \<noteq> None \<longleftrightarrow> sole_owner v c"
    unfolding st sole_owner_def vstate_1N by (cases "v_nodes v"; cases "tl (v_nodes v)") auto
  then show "v_state v = STATE_AWAIT_ACKS \<or> v_state v = STATE_OWNERS_0_LEAFS_1_NODES \<and> map_of (v_nodes v) c \<noteq> None \<longleftrightarrow>
    v_hidden v \<or> sole_owner v c" using vstate_unowned[of v] st by auto
qed

lemma wp_end_of_ack:
  fixes n :: "('te, 'x) node"
  assumes s: "sees n A" and v: "a_T A tm = Some v" "v_state v = vstate v" "v_hidden v \<longleftrightarrow> unowned v"
    and b: "v_hidden v \<Longrightarrow> v_binding v = default_id"
    and Q: "\<And>n' es. es = (if v_hidden v \<and> v_users v = [] then notify_out (v_ident v) False else []) \<Longrightarrow>
      sees n' (out_A es (if v_hidden v \<and> v_users v = [] then put_T tm None A else A)) \<Longrightarrow> Q n'"
  shows "wp tot (do {
     t1 \<leftarrow> get_nt n tm;
     n2 \<leftarrow> (if nt_owningLeafs t1 = [] \<and> nt_owningNodes t1 = [] \<and> nt_usingNodes t1 = []
       then disassociate_terminal tm n else Some n);
     map_option snd (update_state tm n2) }) Q"
proof -
  have e: "v_leafs v = [] \<and> v_nodes v = [] \<longleftrightarrow> v_hidden v" using v(3) by (simp add: unowned_def)
  have same: "put_T tm (Some (v\<lparr>v_state := vstate v\<rparr>)) A = A"
    using put_T_same[OF v(1)] by (simp add: v(2)[symmetric])
  have same_b: "put_T tm (Some (v\<lparr>v_binding := default_id\<rparr>)) A = A" if "v_hidden v"
    using put_T_same[OF v(1)] by (simp add: b[OF that, symmetric])
  have upd: "wp tot (map_option snd (update_state tm m)) Q" if sm: "sees m A" for m :: "('te, 'x) node"
    by (rule wp_map_option, rule wp_update_state[OF sm v(1)]) (use e Q in \<open>auto simp: same\<close>)
  have "wp tot (disassociate_terminal tm n) (\<lambda>n2. wp tot (map_option snd (update_state tm n2)) Q)" if hid: "v_hidden v"
    by (rule wp_disassociate_terminal[OF s v(1)], use b[OF hid] in \<open>simp add: default_not_valid\<close>, rule upd)
      (use b[OF hid] same_b[OF hid] in \<open>simp add: default_not_valid\<close>)
  with upd[OF s] e show ?thesis by (intro wp_bind wp_get_nt[OF s v(1)]) auto
qed

context node_class begin

lemma wp_node_TerminalRemovedAck:
  fixes n :: "('te, 'x) node"
  assumes sA: "sees n A" and i: "inv s {} A" and c: "remote_is_node c" and v: "a_T A tm = Some v"
    and f: "map_of (v_users v) c = Some f" "m_state f = AWAIT_ACK"
    and Q: "\<And>n' es. filter status_event es = ack_status c v \<Longrightarrow> sees n' (out_A es (after_ack tm c v A)) \<Longrightarrow>
      inv s {} (after_ack tm c v A) \<Longrightarrow> Q n'"
  shows "wp tot (node_TerminalRemovedAck h tm c n) Q"
proof -
  have l: "local_ok s {} A v" using i v by (simp add: inv_def)
  have uk: "user_ok f" using fsms_okD(2)[OF _ f(1)] l unfolding local_ok_def by blast
  have ack: "process_rcvd_removed_ack f = Some False" using uk f(2) by (simp add: process_rcvd_removed_ack_def user_ok_def)
  have nm: "\<not> is_mapped f" using f(2) by (simp add: is_mapped_def)
  have ia: "inv s {} (after_ack tm c v A)" by (rule inv_after_ack[OF i v f(1) nm])
  have subs: "subs_ok s v" and lo: "links_ok A" using l i by (simp_all add: local_ok_def inv_def)
  have ns: "AList.delete c (v_subs v) = v_subs v"
    using users_not_subscribed[OF subs f(1) nm] by (simp add: delete_idem)
  note st = unowned_state[OF l c]
  have so: "sole_owner v c \<Longrightarrow> \<not> v_hidden v" using l by (auto simp: local_ok_def sole_owner_def)
  have vv: "v_state v = vstate v" "v_hidden v \<longleftrightarrow> unowned v" using l by (auto simp: local_ok_def unowned_def)
  have bd: "v_hidden v \<Longrightarrow> v_binding v = default_id" using links_okD(2)[OF lo v] .
  let ?w = "v\<lparr>v_users := AList.delete c (v_users v)\<rparr>" and ?u = "v\<lparr>v_users := AList.update c told (v_users v)\<rparr>"
  let ?fin = "\<lambda>n1. do {
     t1 \<leftarrow> get_nt n1 tm;
     n2 \<leftarrow> (if nt_owningLeafs t1 = [] \<and> nt_owningNodes t1 = [] \<and> nt_usingNodes t1 = []
       then disassociate_terminal tm n1 else Some n1);
     map_option snd (update_state tm n2) }"
  have forget: "wp tot (do { n' \<leftarrow> modify_nt tm (map_users (AList.delete c)) n; nh_user_removed h c tm n' }) (\<lambda>n1. wp tot (?fin n1) Q)"
    if here: "v_hidden v \<or> sole_owner v c"
  proof (rule wp_bind, rule wp_modify_nt[OF sA v tview_map_users])
    fix n1 :: "('te, 'x) node"
    assume s1: "sees n1 (put_T tm (Some ?w) A)"
    have ww: "winv (put_T tm (Some ?w) A)" by (rule winv_put_T[OF inv_winv[OF i] v]) (use subs in \<open>simp_all add: subs_ok_def\<close>)
    show "wp tot (nh_user_removed h c tm n1) (\<lambda>n1. wp tot (?fin n1) Q)"
    proof (rule wp_mono[OF user_removed[OF s1 ww, where v = ?w]])
      fix n2 :: "('te, 'x) node"
      assume "sees n2 (put_T tm (Some (?w\<lparr>v_subs := AList.delete c (v_subs ?w)\<rparr>)) (put_T tm (Some ?w) A))"
      then have s2: "sees n2 (put_T tm (Some ?w) A)" by (simp add: ns)
      show "wp tot (?fin n2) Q"
      proof (rule wp_end_of_ack[OF s2, where v = ?w])
        fix n' :: "('te, 'x) node" and es
        assume "es = (if v_hidden ?w \<and> v_users ?w = [] then notify_out (v_ident ?w) False else [])"
          and "sees n' (out_A es (if v_hidden ?w \<and> v_users ?w = [] then put_T tm None (put_T tm (Some ?w) A) else put_T tm (Some ?w) A))"
        then show "Q n'" by (intro Q[of es n'] ia) (use here in \<open>auto simp: ack_status_def after_ack_def split: if_splits\<close>)
      qed (use vv bd in simp_all)
    qed (use subs in \<open>simp_all add: subs_ok_def delete_conv'\<close>)
  qed
  have again: "wp tot (reset_user tm c n) (\<lambda>n1. wp tot (?fin n1) Q)" if here: "\<not> (v_hidden v \<or> sole_owner v c)"
  proof (rule wp_reset_user[OF sA v])
    fix n1 :: "('te, 'x) node"
    assume s1: "sees n1 (out_A [Node_Sent c (TerminalDescription (v_ident v) tm)] (put_T tm (Some ?u) A))"
    show "wp tot (?fin n1) Q"
    proof (rule wp_end_of_ack[OF s1, where v = ?u])
      fix n' :: "('te, 'x) node" and es
      assume "es = (if v_hidden ?u \<and> v_users ?u = [] then notify_out (v_ident ?u) False else [])"
        and "sees n' (out_A es (if v_hidden ?u \<and> v_users ?u = []
          then put_T tm None (out_A [Node_Sent c (TerminalDescription (v_ident v) tm)] (put_T tm (Some ?u) A))
          else out_A [Node_Sent c (TerminalDescription (v_ident v) tm)] (put_T tm (Some ?u) A)))"
      then show "Q n'" by (intro Q[of "[Node_Sent c (TerminalDescription (v_ident v) tm)]" n'] ia)
        (use here in \<open>auto simp: ack_status_def after_ack_def\<close>)
    qed (use vv here in simp_all)
  qed
  let ?here = "\<lambda>t :: 'te node_terminal. nt_state t = STATE_AWAIT_ACKS
    \<or> nt_state t = STATE_OWNERS_0_LEAFS_1_NODES \<and> map_of (nt_owningNodes t) c \<noteq> None"
  show ?thesis
    unfolding node_TerminalRemovedAck_def
  proof (rule wp_bind, rule wp_yassert[OF c], rule wp_bind, rule wp_get_nt[OF sA v], rule wp_bind, rule wp_eq[where x = f],
      use f(1) in simp, rule wp_bind, rule wp_yassert, use st(2) in simp, rule wp_bind)
    fix t :: "'te node_terminal"
    assume "nt_state t = v_state v" "nt_owningNodes t = v_nodes v"
    then have h: "?here t \<longleftrightarrow> v_hidden v \<or> sole_owner v c" using st(1) by simp
    show "wp tot (if ?here t
        then do { alive \<leftarrow> process_rcvd_removed_ack f;
          if alive then Some n
          else do { n' \<leftarrow> modify_nt tm (map_users (AList.delete c)) n; nh_user_removed h c tm n' } }
        else reset_user tm c n) (\<lambda>n1. wp tot (?fin n1) Q)"
      unfolding h ack bind.simps if_False using forget again by (cases "v_hidden v \<or> sole_owner v c") simp_all
  qed
qed

end

end
