(* ===== verification/Node_Bindings.thy ===== *)
theory Node_Bindings
  imports Node_Preservation
begin

text \<open>
  The messages about bindings keep the invariant, and a leaf is told about its binding exactly when
  the terminal is owned elsewhere.
\<close>

section \<open>Removing an owner of a binding\<close>

definition leave_terminal :: "bview \<Rightarrow> nview \<Rightarrow> nview" where
  "leave_terminal b A = (if id_valid (w_terminal b)
     then put_T (w_terminal b) (Some ((the (a_T A (w_terminal b)))\<lparr>v_binding := default_id\<rparr>)) A else A)"

definition after_unbinding :: "id \<Rightarrow> connection \<Rightarrow> bview \<Rightarrow> nview \<Rightarrow> nview" where
  "after_unbinding bd c b A = (if AList.delete c (w_owners b) = [] then put_B bd None (leave_terminal b A)
     else put_B bd (Some (b\<lparr>w_owners := AList.delete c (w_owners b)\<rparr>)) A)"

lemma leave_simps [simp]: "a_B (leave_terminal b A) = a_B A" "a_leafs (leave_terminal b A) = a_leafs A"
  "a_nodes (leave_terminal b A) = a_nodes A" "B_links (leave_terminal b A) = B_links A"
  "leave_terminal (b\<lparr>w_owners := ow\<rparr>) A = leave_terminal b A"
  by (simp_all add: leave_terminal_def)

lemma T_links_leave:
  assumes "links_ok A" "a_B A bd = Some b"
  shows "T_links (leave_terminal b A) = (if id_valid (w_terminal b)
    then (T_links A)(w_terminal b \<mapsto> (w_ident b, False, default_id)) else T_links A)"
  using links_okD(5)[OF assms] by (auto simp: leave_terminal_def tlink_def)

lemma local_ok_binding: "local_ok s g A (v\<lparr>v_binding := bd\<rparr>) = local_ok s g A v"
  by (simp add: local_ok_def users_ok_def subs_ok_def)

lemma inv_after_unbinding:
  assumes i: "inv s gone A" and b: "a_B A bd = Some b"
  shows "inv s gone (after_unbinding bd c b A)"
proof (cases "AList.delete c (w_owners b) = []")
  case False
  have "fsms_ok owner_ok False (set (a_leafs A) \<union> gone) (w_owners b)" using i b unfolding inv_def bindings_ok_def by blast
  from fsms_ok_delete[OF this] show ?thesis using inv_put_B[OF i b, of "b\<lparr>w_owners := AList.delete c (w_owners b)\<rparr>"] False
    by (simp add: after_unbinding_def)
next
  case True
  have l: "links_ok A" "complete A" using i by (simp_all add: inv_def)
  note li = l(1)[unfolded links_ok_def] and co = l(2)[unfolded complete_def]
  have t: "B_links A bd = Some (w_ident b, False, w_terminal b)" using B_links_Some[OF b] links_okD(4)[OF l(1) b] by simp
  have "links_ok (put_B bd None (leave_terminal b A))" "complete (put_B bd None (leave_terminal b A))"
    using links_erase_B[OF li t] linked_erase_B[OF co li t] by (simp_all add: links_ok_def complete_def T_links_leave[OF l(1) b])
  moreover have "local_ok s gone A v" if "a_T (leave_terminal b A) tm = Some v" for tm v
    using that i links_okD(5)[OF l(1) b] unfolding inv_def leave_terminal_def by (auto simp: local_ok_binding split: if_splits)
  ultimately show ?thesis
    using True i by (auto simp: after_unbinding_def inv_def bindings_ok_def conns_ok_def local_ok_def)
qed

lemma wp_disassociate_binding:
  fixes n :: "('te, 'x) node"
  assumes s: "sees n A" and b: "a_B A bd = Some b" and v: "id_valid (w_terminal b) \<Longrightarrow> a_T A (w_terminal b) \<noteq> None"
    and Q: "\<And>n'. sees n' (put_B bd (Some (b\<lparr>w_terminal := default_id\<rparr>)) (leave_terminal b A)) \<Longrightarrow> Q n'"
  shows "wp tot (disassociate_binding bd n) Q"
  unfolding disassociate_binding_def
proof (rule wp_bind, rule wp_get_nb[OF s b])
  fix t :: node_binding
  assume t: "nb_terminal t = w_terminal b"
  show "wp tot (if id_valid (nb_terminal t) then do {
       n1 \<leftarrow> modify_nt (nb_terminal t) (\<lambda>t. t\<lparr>nt_binding := default_id\<rparr>) n;
       modify_nb bd (\<lambda>b. b\<lparr>nb_terminal := default_id\<rparr>) n1 } else Some n) Q"
  proof (cases "id_valid (w_terminal b)")
    case False
    then have "w_terminal b = default_id" by (simp add: id_not_valid_iff)
    then have "put_B bd (Some (b\<lparr>w_terminal := default_id\<rparr>)) A = A" using b by (simp add: put_B_def map_upd_triv)
    then show ?thesis using False Q[of n] s by (simp add: t leave_terminal_def)
  next
    case True
    obtain v where v': "a_T A (w_terminal b) = Some v" using v[OF True] by blast
    show ?thesis unfolding t if_P[OF True]
    proof (rule wp_bind, rule wp_modify_nt[OF s v', where g = "\<lambda>v. v\<lparr>v_binding := default_id\<rparr>"])
      fix n1 :: "('te, 'x) node"
      assume s1: "sees n1 (put_T (w_terminal b) (Some (v\<lparr>v_binding := default_id\<rparr>)) A)"
      show "wp tot (modify_nb bd (\<lambda>b. b\<lparr>nb_terminal := default_id\<rparr>) n1) Q"
        by (rule wp_modify_nb[OF s1, where g = "\<lambda>b. b\<lparr>w_terminal := default_id\<rparr>"])
          (use b True v' in \<open>auto simp: bview_of_def leave_terminal_def intro!: Q\<close>)
    qed (simp add: tview_of_def)
  qed
qed

lemma wp_erase_unowned_binding:
  fixes n :: "('te, 'x) node"
  assumes s: "sees n (put_B bd (Some (b\<lparr>w_owners := AList.delete c (w_owners b)\<rparr>)) A)"
    and v: "id_valid (w_terminal b) \<Longrightarrow> a_T A (w_terminal b) \<noteq> None"
    and Q: "\<And>n'. sees n' (after_unbinding bd c b A) \<Longrightarrow> Q n'"
  shows "wp tot (do { b3 \<leftarrow> get_nb n bd;
    if nb_owningLeafs b3 = [] then do { n4 \<leftarrow> disassociate_binding bd n; erase_nb bd n4 } else Some n }) Q"
proof (rule wp_bind, rule wp_get_nb[OF s])
  let ?b = "b\<lparr>w_owners := AList.delete c (w_owners b)\<rparr>"
  fix t :: node_binding
  assume t: "nb_owningLeafs t = w_owners ?b"
  have "wp tot (disassociate_binding bd n) (\<lambda>n4. wp tot (erase_nb bd n4) Q)" if "w_owners ?b = []"
  proof (rule wp_disassociate_binding[OF s, where b = ?b])
    fix n1 :: "('te, 'x) node"
    assume s1: "sees n1 (put_B bd (Some (?b\<lparr>w_terminal := default_id\<rparr>)) (leave_terminal ?b (put_B bd (Some ?b) A)))"
    have "leave_terminal b (put_B bd (Some ?b) A) = put_B bd (Some ?b) (leave_terminal b A)"
      by (simp add: leave_terminal_def put_B_put_T)
    then show "wp tot (erase_nb bd n1) Q"
      by (intro wp_erase_nb[OF s1, where b = "?b\<lparr>w_terminal := default_id\<rparr>"]) (use that Q in \<open>simp_all add: after_unbinding_def\<close>)
  qed (use v in simp_all)
  then show "wp tot (if nb_owningLeafs t = [] then do { n4 \<leftarrow> disassociate_binding bd n; erase_nb bd n4 } else Some n) Q"
    using Q[of n] s by (auto simp: t after_unbinding_def intro!: wp_bind)
qed simp

lemma winv_put_B:
  assumes w: "winv A" and b: "a_B A bd = Some b" "blink b' = blink b"
    and ks: "distinct_keys (w_owners b')" "\<forall>c \<in> fst ` set (w_owners b'). \<not> remote_is_node c"
  shows "winv (put_B bd (Some b') A)"
proof -
  have "links_ok (put_B bd (Some b') A)" using w links_put_B(1)[OF b] by (simp add: winv_def)
  moreover have "distinct_keys (w_owners y) \<and> (\<forall>c \<in> fst ` set (w_owners y). \<not> remote_is_node c)"
    if "a_B (put_B bd (Some b') A) x = Some y" for x y
  proof (cases "x = bd")
    case True
    then show ?thesis using that ks by simp
  next
    case False
    then show ?thesis using that w unfolding winv_def by simp
  qed
  ultimately show ?thesis using w unfolding winv_def by simp
qed

lemma winv_delete_binding_owner:
  assumes w: "winv A" and b: "a_B A bd = Some b"
  shows "winv (put_B bd (Some (b\<lparr>w_owners := AList.delete c (w_owners b)\<rparr>)) A)"
proof (rule winv_put_B[OF w b])
  have ks: "distinct_keys (w_owners b)" "\<forall>c \<in> fst ` set (w_owners b). \<not> remote_is_node c" using w b unfolding winv_def by blast+
  show "distinct_keys (w_owners (b\<lparr>w_owners := AList.delete c (w_owners b)\<rparr>))" using ks by (simp add: distinct_keys_delete)
  show "\<forall>d \<in> fst ` set (w_owners (b\<lparr>w_owners := AList.delete c (w_owners b)\<rparr>)). \<not> remote_is_node d"
  proof -
    have e: "w_owners (b\<lparr>w_owners := AList.delete c (w_owners b)\<rparr>) = AList.delete c (w_owners b)" by simp
    show ?thesis using ks(2) unfolding e fst_delete by blast
  qed
qed simp

context node_class begin

lemma wp_lose_binding_owner:
  fixes n :: "('te, 'x) node"
  assumes sA: "sees n A" and w: "winv A" and b: "a_B A bd = Some b" and c: "\<not> remote_is_node c"
    and Q: "\<And>n'. sees n' (after_unbinding bd c b A) \<Longrightarrow> Q n'"
  shows "wp tot (do {
       n2 \<leftarrow> modify_nb bd (\<lambda>b. b\<lparr>nb_owningLeafs := AList.delete c (nb_owningLeafs b)\<rparr>) n;
       n3 \<leftarrow> nh_binding_owner_removed h c bd n2;
       b3 \<leftarrow> get_nb n3 bd;
       if nb_owningLeafs b3 = [] then do { n4 \<leftarrow> disassociate_binding bd n3; erase_nb bd n4 } else Some n3 }) Q"
proof (rule wp_bind, rule wp_modify_nb[OF sA b, where g = "\<lambda>b. b\<lparr>w_owners := AList.delete c (w_owners b)\<rparr>"],
    simp add: bview_of_def, rule wp_bind)
  fix n2 :: "('te, 'x) node"
  let ?A = "put_B bd (Some (b\<lparr>w_owners := AList.delete c (w_owners b)\<rparr>)) A"
  assume s2: "sees n2 ?A"
  have l: "links_ok A" using w by (simp add: winv_def)
  show "wp tot (nh_binding_owner_removed h c bd n2) (\<lambda>n3. wp tot (do { b3 \<leftarrow> get_nb n3 bd;
       if nb_owningLeafs b3 = [] then do { n4 \<leftarrow> disassociate_binding bd n3; erase_nb bd n4 } else Some n3 }) Q)"
    by (rule wp_mono[OF binding_owner_removed[OF s2 winv_delete_binding_owner[OF w b]]])
      (use links_okD(5)[OF l b] c in \<open>auto simp: delete_conv' intro!: wp_erase_unowned_binding Q\<close>)
qed

lemma wp_node_BindingRemoved:
  fixes n :: "('te, 'x) node"
  assumes sA: "sees n A" and i: "inv s {} A" and c: "\<not> remote_is_node c" and b: "a_B A bd = Some b" and f: "map_of (w_owners b) c = Some f"
    and skip: "\<And>n' b'. m_skipRemovedAcks f > 0 \<Longrightarrow>
      b' = b\<lparr>w_owners := AList.update c (f\<lparr>m_skipRemovedAcks := m_skipRemovedAcks f - 1\<rparr>) (w_owners b)\<rparr> \<Longrightarrow>
      sees n' (put_B bd (Some b') A) \<Longrightarrow> inv s {} (put_B bd (Some b') A) \<Longrightarrow> Q n'"
    and remove: "\<And>n' es. m_skipRemovedAcks f = 0 \<Longrightarrow> es = [Node_Sent c (BindingRemovedAck (m_mappedId f))] \<Longrightarrow>
      sees n' (out_A es (after_unbinding bd c b A)) \<Longrightarrow> inv s {} (after_unbinding bd c b A) \<Longrightarrow> Q n'"
  shows "wp tot (node_BindingRemoved h bd c n) Q"
proof -
  have ow: "fsms_ok owner_ok False (set (a_leafs A)) (w_owners b)" using i b by (simp add: inv_def bindings_ok_def)
  have ok: "owner_ok f" "c \<in> set (a_leafs A)" using fsms_okD(2)[OF ow f] by blast+
  define g where "g = (if m_skipRemovedAcks f > 0 then f\<lparr>m_skipRemovedAcks := m_skipRemovedAcks f - 1\<rparr> else f\<lparr>m_mappedId := default_id, m_state := UNUSED_CONFIRMED\<rparr>)"
  define outs where "outs = (if m_skipRemovedAcks f > 0 then [] else [SendRemAck (m_mappedId f), MappStChanged False])"
  define es where "es = (if m_skipRemovedAcks f > 0 then [] else [Node_Sent c (BindingRemovedAck (m_mappedId f))])"
  have call: "process_rcvd_removed f = Some (g, outs, True)" using owner_removed_fsm[OF ok(1)] by (simp add: g_def outs_def)
  let ?b = "b\<lparr>w_owners := AList.update c g (w_owners b)\<rparr>"
  show ?thesis
    unfolding node_BindingRemoved_def
  proof (rule wp_bind, rule wp_yassert[OF c], rule wp_bind, rule wp_binding_owner_fsm[where call = process_rcvd_removed and es = es, OF sA b f call])
    fix n1 :: "('te, 'x) node"
    assume s1: "sees n1 (out_A es (put_B bd (Some ?b) A))"
    have "wp tot (if is_mapped g then Some n1 else do {
       n2 \<leftarrow> modify_nb bd (\<lambda>b. b\<lparr>nb_owningLeafs := AList.delete c (nb_owningLeafs b)\<rparr>) n1;
       n3 \<leftarrow> nh_binding_owner_removed h c bd n2;
       b3 \<leftarrow> get_nb n3 bd;
       if nb_owningLeafs b3 = [] then do { n4 \<leftarrow> disassociate_binding bd n3; erase_nb bd n4 } else Some n3 }) Q"
    proof (cases "m_skipRemovedAcks f > 0")
      case True
      have "inv s {} (put_B bd (Some ?b) A)"
        by (rule inv_put_B[OF i b]) (use fsms_ok_update[OF ow ok(2)] c ok True in \<open>auto simp: owner_ok_def g_def\<close>)
      then show ?thesis using skip[OF True refl, of n1] s1 True ok(1) by (simp add: is_mapped_def owner_ok_def g_def es_def)
    next
      case False
      have "AList.delete c (AList.update c g m) = AList.delete c m" for g :: fsm and m by (induction m) auto
      then have same: "after_unbinding bd c ?b (out_A es (put_B bd (Some ?b) A)) = out_A es (after_unbinding bd c b A)"
        by (simp add: after_unbinding_def leave_terminal_def put_B_put_T)
      have kc: "\<forall>d \<in> fst ` set (AList.update c g (w_owners b)). \<not> remote_is_node d"
        using fsms_okD(3)[OF ow] c f by (auto simp: dom_update)
      have "winv (put_B bd (Some ?b) A)"
        by (rule winv_put_B[OF inv_winv[OF i] b]) (use fsms_okD(1)[OF ow] kc in \<open>simp_all add: distinct_keys_update\<close>)
      then have "winv (out_A es (put_B bd (Some ?b) A))" by (simp add: winv_def)
      note lose = wp_lose_binding_owner[OF s1 this _ c]
      have "\<not> is_mapped g" using False by (simp add: g_def is_mapped_def)
      then show ?thesis unfolding if_not_P[OF \<open>\<not> is_mapped g\<close>]
      proof (intro lose)
        fix n' :: "('te, 'x) node"
        assume s': "sees n' (after_unbinding bd c ?b (out_A es (put_B bd (Some ?b) A)))"
        show "Q n'" by (rule remove) (use False s' same inv_after_unbinding[OF i b] in \<open>simp_all add: es_def\<close>)
      qed simp
    qed
    then show "wp tot (case (outs, n1) of (_, n1) \<Rightarrow> do { b \<leftarrow> get_nb n1 bd; f \<leftarrow> map_of (nb_owningLeafs b) c;
     if is_mapped f then Some n1
     else do {
       n2 \<leftarrow> modify_nb bd (\<lambda>b. b\<lparr>nb_owningLeafs := AList.delete c (nb_owningLeafs b)\<rparr>) n1;
       n3 \<leftarrow> nh_binding_owner_removed h c bd n2;
       b3 \<leftarrow> get_nb n3 bd;
       if nb_owningLeafs b3 = [] then do { n4 \<leftarrow> disassociate_binding bd n3; erase_nb bd n4 } else Some n3 } }) Q"
      unfolding prod.case
      by (intro wp_bind wp_get_nb[OF s1, of _ ?b] wp_eq[where x = g]) (simp_all add: map_of_alist_update)
  qed (simp add: es_def outs_def)
qed

end

section \<open>Describing a binding\<close>

text \<open>The machine of an owner after a description: a new one, or one that takes a second Id.\<close>

definition described :: "id \<Rightarrow> fsm option \<Rightarrow> fsm" where
  "described i fo = (case fo of None \<Rightarrow> \<lparr>m_state = MAPPED_CONFIRMED, m_skipRemovedAcks = 0, m_mappedId = i\<rparr>
     | Some f \<Rightarrow> f\<lparr>m_mappedId := i, m_skipRemovedAcks := Suc (m_skipRemovedAcks f)\<rparr>)"

definition described_outs :: "fsm option \<Rightarrow> fsm_out list" where
  "described_outs fo = (case fo of None \<Rightarrow> [SendMapp, MappStChanged True]
     | Some f \<Rightarrow> [SendRemAck (m_mappedId f), SendMapp, MappStChanged False, MappStChanged True])"

lemma owner_described:
  assumes "\<And>f. fo = Some f \<Longrightarrow> owner_ok f"
  shows "keep (process_rcvd_description i (case fo of None \<Rightarrow> fsm_init | Some f \<Rightarrow> f)) = Some (described i fo, described_outs fo, True)"
    "id_valid i \<Longrightarrow> owner_ok (described i fo)" "m_mappedId (described i fo) = i"
  using assms by (auto simp: keep_def process_rcvd_description_def described_def described_outs_def fsm_init_def owner_ok_def
    split: option.splits)

lemma acknowledged_described:
  assumes "\<And>f. fo = Some f \<Longrightarrow> owner_ok f"
  shows "id_valid (acknowledged_id (described_outs fo)) \<longleftrightarrow> fo \<noteq> None"
  using assms by (auto simp: acknowledged_id_def described_outs_def default_not_valid owner_ok_def split: option.splits)

lemma map_of_ensure_case: "map_of (ensure_fsm c m) c = Some (case map_of m c of None \<Rightarrow> fsm_init | Some f \<Rightarrow> f)"
  by (simp add: map_of_ensure split: option.splits)

lemma vstate_kinds: "owners_kinds v \<Longrightarrow> \<not> remote_is_node c \<Longrightarrow> \<not> unowned v \<Longrightarrow>
    owned_elsewhere v c \<longleftrightarrow> vstate v \<noteq> STATE_OWNERS_1_LEAFS_0_NODES \<or> fst (hd (v_leafs v)) \<noteq> c"
proof -
  assume k: "owners_kinds v" and c: "\<not> remote_is_node c" and o1: "\<not> unowned v"
  have dist: "distinct_keys (v_leafs v)" and nodes: "\<And>d. d \<in> fst ` set (v_nodes v) \<Longrightarrow> d \<noteq> c" using k c unfolding owners_kinds_def by blast+
  show ?thesis
  proof (cases "v_nodes v")
    case (Cons p ps)
    then have "owned_elsewhere v c" using nodes[of "fst p"] by (auto simp: owned_elsewhere_def)
    then show ?thesis using Cons vstate_1L[of v] by auto
  next
    case Nil
    then obtain p ps where l: "v_leafs v = p # ps" using o1 by (cases "v_leafs v") (auto simp: unowned_def)
    have "fst p \<noteq> c \<or> (\<exists>q \<in> set ps. fst q \<noteq> c) \<longleftrightarrow> ps \<noteq> [] \<or> fst p \<noteq> c"
      using dist l by (cases ps) auto
    then show ?thesis using Nil l vstate_1L[of v] by (auto simp: owned_elsewhere_def)
  qed
qed

lemma wp_tell_new_binding_owner:
  fixes n :: "('te, 'x) node"
  assumes s: "sees n A" and v: "a_T A tm = Some v" "v_state v = vstate v" "owners_kinds v" "\<not> unowned v" and c: "\<not> remote_is_node c"
    and Q: "\<And>n'. sees n' (out_A (if owned_elsewhere v c then [Node_Sent c (BindingEstablished i)] else []) A) \<Longrightarrow> Q n'"
  shows "wp tot (do {
     t \<leftarrow> get_nt n tm;
     if nt_state t \<noteq> STATE_OWNERS_1_LEAFS_0_NODES then Some (nsend c (BindingEstablished i) n)
     else do {
       yassert (nt_owningLeafs t \<noteq> []);
       Some (if fst (hd (nt_owningLeafs t)) \<noteq> c then nsend c (BindingEstablished i) n else n) } }) Q"
proof (rule wp_bind, rule wp_get_nt[OF s v(1)])
  fix t :: "'te node_terminal"
  assume t: "nt_state t = v_state v" "nt_owningLeafs t = v_leafs v"
  note oe = vstate_kinds[OF v(3) c v(4)]
  have send: "sees (nsend c (BindingEstablished i) n) (out_A [Node_Sent c (BindingEstablished i)] A)" by (rule sees_nsend[OF s]) simp
  have "v_leafs v \<noteq> []" if "vstate v = STATE_OWNERS_1_LEAFS_0_NODES" using that vstate_1L[of v] by auto
  then show "wp tot (if nt_state t \<noteq> STATE_OWNERS_1_LEAFS_0_NODES then Some (nsend c (BindingEstablished i) n)
     else do {
       yassert (nt_owningLeafs t \<noteq> []);
       Some (if fst (hd (nt_owningLeafs t)) \<noteq> c then nsend c (BindingEstablished i) n else n) }) Q"
    using send s oe v(2) t by (auto intro!: Q)
qed

lemma wp_associate_binding:
  fixes n :: "('te, 'x) node"
  assumes s: "sees n A" and b: "a_B A bd = Some b"
    and has: "id_valid (w_terminal b) \<Longrightarrow> \<exists>v. a_T A (w_terminal b) = Some v \<and> v_binding v = bd"
    and old: "id_valid (w_terminal b) \<Longrightarrow> Q (Some (w_terminal b), n)"
    and none: "\<not> id_valid (w_terminal b) \<Longrightarrow> (\<And>tm v. a_T A tm = Some v \<Longrightarrow> v_ident v = w_ident b \<Longrightarrow> v_hidden v) \<Longrightarrow> Q (None, n)"
    and new: "\<And>n' tm v. \<not> id_valid (w_terminal b) \<Longrightarrow> a_T A tm = Some v \<Longrightarrow> v_ident v = w_ident b \<Longrightarrow> \<not> v_hidden v \<Longrightarrow>
      sees n' (put_T tm (Some (v\<lparr>v_binding := bd\<rparr>)) (put_B bd (Some (b\<lparr>w_terminal := tm\<rparr>)) A)) \<Longrightarrow> Q (Some tm, n')"
  shows "wp tot (associate_binding bd n) Q"
  unfolding associate_binding_def
proof (rule wp_bind, rule wp_find_nb[OF s b])
  fix e :: "node_binding element"
  assume e: "el_ident e = w_ident b" "nb_terminal (el_data e) = w_terminal b"
  show "wp tot (if id_valid (nb_terminal (el_data e)) then do {
       t \<leftarrow> get_nt n (nb_terminal (el_data e));
       yassert (nt_binding t = bd);
       Some (Some (nb_terminal (el_data e)), n) }
     else (case find_ident (nd_terminals n) (el_ident e) of
         None \<Rightarrow> Some (None, n)
       | Some t \<Rightarrow> do {
           n1 \<leftarrow> modify_nt (el_id t) (\<lambda>t. t\<lparr>nt_binding := bd\<rparr>) n;
           n2 \<leftarrow> modify_nb bd (\<lambda>b. b\<lparr>nb_terminal := el_id t\<rparr>) n1;
           Some (Some (el_id t), n2) })) Q"
  proof (cases "id_valid (w_terminal b)")
    case True
    obtain v where v: "a_T A (w_terminal b) = Some v" "v_binding v = bd" using has[OF True] by blast
    show ?thesis unfolding e if_P[OF True]
      by (intro wp_bind wp_get_nt[OF s v(1)]) (simp add: v(2) old[OF True])
  next
    case False
    show ?thesis unfolding e if_not_P[OF False]
    proof (cases "find_ident (nd_terminals n) (w_ident b)")
      case None
      then show "wp tot (case find_ident (nd_terminals n) (w_ident b) of None \<Rightarrow> Some (None, n)
         | Some t \<Rightarrow> do { n1 \<leftarrow> modify_nt (el_id t) (\<lambda>t. t\<lparr>nt_binding := bd\<rparr>) n;
             n2 \<leftarrow> modify_nb bd (\<lambda>b. b\<lparr>nb_terminal := el_id t\<rparr>) n1; Some (Some (el_id t), n2) }) Q"
        using none[OF False find_ident_T(2)[OF s None]] by simp
    next
      case (Some t)
      obtain v where v: "a_T A (el_id t) = Some v" "v_ident v = w_ident b" "\<not> v_hidden v" using find_ident_T(1)[OF s Some] by blast
      have "wp tot (do { n1 \<leftarrow> modify_nt (el_id t) (\<lambda>t. t\<lparr>nt_binding := bd\<rparr>) n;
             n2 \<leftarrow> modify_nb bd (\<lambda>b. b\<lparr>nb_terminal := el_id t\<rparr>) n1; Some (Some (el_id t), n2) }) Q"
      proof (rule wp_bind, rule wp_modify_nt[OF s v(1), where g = "\<lambda>v. v\<lparr>v_binding := bd\<rparr>"], simp add: tview_of_def, rule wp_bind)
        fix n1 :: "('te, 'x) node"
        assume s1: "sees n1 (put_T (el_id t) (Some (v\<lparr>v_binding := bd\<rparr>)) A)"
        show "wp tot (modify_nb bd (\<lambda>b. b\<lparr>nb_terminal := el_id t\<rparr>) n1) (\<lambda>n2. wp tot (Some (Some (el_id t), n2)) Q)"
          by (rule wp_modify_nb[OF s1, where g = "\<lambda>b. b\<lparr>w_terminal := el_id t\<rparr>"])
            (use b new[OF False v] in \<open>auto simp: bview_of_def put_B_put_T\<close>)
      qed
      then show "wp tot (case find_ident (nd_terminals n) (w_ident b) of None \<Rightarrow> Some (None, n)
         | Some t \<Rightarrow> do { n1 \<leftarrow> modify_nt (el_id t) (\<lambda>t. t\<lparr>nt_binding := bd\<rparr>) n;
             n2 \<leftarrow> modify_nb bd (\<lambda>b. b\<lparr>nb_terminal := el_id t\<rparr>) n1; Some (Some (el_id t), n2) }) Q" using Some by simp
    qed
  qed
qed

text \<open>The terminal of the binding is owned by another connection than this owner of the binding.\<close>

definition established :: "nview \<Rightarrow> id \<Rightarrow> connection \<Rightarrow> bool" where
  "established A bd c \<longleftrightarrow> (case a_B A bd of None \<Rightarrow> False
     | Some b \<Rightarrow> map_of (w_owners b) c \<noteq> None \<and> id_valid (w_terminal b) \<and>
         (case a_T A (w_terminal b) of None \<Rightarrow> False | Some v \<Rightarrow> owned_elsewhere v c))"

lemma established_out [simp]: "established (out_A es A) = established A"
  by (intro ext) (simp add: established_def split: option.splits)

lemma owned_elsewhere_binding [simp]: "owned_elsewhere (v\<lparr>v_binding := bd\<rparr>) = owned_elsewhere v"
  by (simp add: owned_elsewhere_def fun_eq_iff)

definition new_binding :: "ident \<Rightarrow> id \<Rightarrow> connection \<Rightarrow> id \<Rightarrow> bview" where
  "new_binding x tm c i = \<lparr>w_ident = x, w_hidden = False, w_owners = [(c, described i None)], w_terminal = tm\<rparr>"

lemma inv_new_binding:
  assumes i: "inv s gone A" and bd: "a_B A bd = None" "id_valid bd" and new: "\<forall>k v. a_B A k = Some v \<longrightarrow> w_ident v = x \<longrightarrow> w_hidden v"
    and ow: "fsms_ok owner_ok False (set (a_leafs A) \<union> gone) (w_owners (new_binding x tm c j))"
    and tm: "if id_valid tm then a_T A tm = Some v \<and> v_ident v = x \<and> \<not> v_hidden v
      else tm = default_id \<and> (\<forall>k v. a_T A k = Some v \<longrightarrow> v_ident v = x \<longrightarrow> v_hidden v)"
  shows "inv s gone (put_B bd (Some (new_binding x tm c j)) (if id_valid tm then put_T tm (Some (v\<lparr>v_binding := bd\<rparr>)) A else A))"
    (is "inv s gone ?A")
proof -
  have l: "links (T_links A) (B_links A)" "linked (T_links A) (B_links A)" using i by (simp_all add: inv_def links_ok_def complete_def)
  have nB: "B_links A bd = None" "\<And>i k. B_links A i \<noteq> Some (x, False, k)" using bd(1) new by (auto simp: B_links_def blink_def)
  have T: "if id_valid tm then \<exists>k. T_links A tm = Some (x, False, k) else tm = default_id"
    using tm T_links_Some[of A tm v] by auto
  have uT: "k = tm" if "T_links A k = Some (x, False, m)" for k m
    using linksD(6)[OF l(1) that, of tm] tm that T_links_Some[of A tm v]
    by (cases "id_valid tm") (auto simp: T_links_def tlink_def)
  have e: "T_links ?A = (if id_valid tm then (T_links A)(tm \<mapsto> (x, False, bd)) else T_links A)"
    "B_links ?A = (B_links A)(bd \<mapsto> (x, False, tm))"
    using tm by (auto simp: tlink_def blink_def new_binding_def)
  have "links (T_links ?A) (B_links ?A)" "linked (T_links ?A) (B_links ?A)"
    unfolding e using links_new_B[OF l(1) nB(1) bd(2) nB(2) T] linked_new_B[OF l(2,1) nB(2) uT] T by simp_all
  moreover have "local_ok s gone A w" if "a_T ?A k = Some w" for k w
    using that i tm unfolding inv_def by (auto simp: local_ok_binding split: if_splits)
  moreover have "bindings_ok gone ?A" "conns_ok ?A" using i ow unfolding inv_def bindings_ok_def
    by (auto simp: new_binding_def conns_ok_def)
  ultimately show ?thesis by (auto simp: inv_def links_ok_def complete_def local_ok_def)
qed

text \<open>The end of the handler for a new owner of a binding.\<close>

definition join_binding ::
  "('te, 'x) node_hooks \<Rightarrow> connection \<Rightarrow> id \<Rightarrow> id \<Rightarrow> id \<Rightarrow> ('te, 'x) node \<Rightarrow> ('te, 'x) node option" where
  "join_binding h c bd i mapped n2 = do {
       (tm, n3) \<leftarrow> associate_binding bd n2;
       n4 \<leftarrow> (case tm of None \<Rightarrow> Some n3
         | Some tm \<Rightarrow> do {
             t \<leftarrow> get_nt n3 tm;
             if nt_state t \<noteq> STATE_OWNERS_1_LEAFS_0_NODES then Some (nsend c (BindingEstablished i) n3)
             else do {
               yassert (nt_owningLeafs t \<noteq> []);
               Some (if fst (hd (nt_owningLeafs t)) \<noteq> c then nsend c (BindingEstablished i) n3 else n3) } });
       nh_binding_owner_added h c bd mapped n4 }"

definition describe_events :: "connection \<Rightarrow> id \<Rightarrow> id \<Rightarrow> fsm option \<Rightarrow> node_event list" where
  "describe_events c bd i fo = (case fo of None \<Rightarrow> [] | Some f \<Rightarrow> [Node_Sent c (BindingRemovedAck (m_mappedId f))])
     @ [Node_Sent c (BindingMapping i bd)]"

lemma describe_events_out: "outs_of (binding_out c bd i) (described_outs fo) = Some (describe_events c bd i fo)"
  by (simp add: described_outs_def describe_events_def split: option.splits)

context node_class begin

lemma wp_binding_described:
  fixes n :: "('te, 'x) node" and i :: id
  assumes ins: "ireg_insert x new_node_binding (nd_bindings n) = ((bd, fresh), r)" and c: "\<not> remote_is_node c"
    and s0: "sees (n\<lparr>nd_bindings := r\<rparr>) A" and b: "a_B A bd = Some b" and ok: "\<And>f. map_of (w_owners b) c = Some f \<Longrightarrow> owner_ok f"
  defines "fo \<equiv> map_of (w_owners b) c"
  defines "A1 \<equiv> out_A (describe_events c bd i fo) (put_B bd (Some (b\<lparr>w_owners := AList.update c (described i fo) (w_owners b)\<rparr>)) A)"
  assumes remapped: "\<And>n2. fo \<noteq> None \<Longrightarrow> sees n2 A1 \<Longrightarrow> wp tot (nh_binding_owner_remapped h c bd i n2) Q"
    and added: "\<And>n2. fo = None \<Longrightarrow> sees n2 A1 \<Longrightarrow> wp tot (join_binding h c bd i i n2) Q"
  shows "wp tot (node_BindingDescription h x i c n) Q"
  unfolding node_BindingDescription_def Let_def ins prod.case join_binding_def[symmetric]
proof (rule wp_bind, rule wp_yassert[OF c], rule wp_bind,
    rule wp_modify_nb[OF s0 b, where g = "\<lambda>b. b\<lparr>w_owners := ensure_fsm c (w_owners b)\<rparr>"], simp add: bview_of_def, rule wp_bind)
  fix n1 :: "('te, 'x) node"
  let ?b = "b\<lparr>w_owners := ensure_fsm c (w_owners b)\<rparr>" and ?f = "described i fo"
  let ?b1 = "b\<lparr>w_owners := AList.update c ?f (w_owners b)\<rparr>"
  assume s1: "sees n1 (put_B bd (Some ?b) A)"
  note d = owner_described[of fo i, OF ok[folded fo_def]]
  let ?rest = "\<lambda>(outs, n2). do { b \<leftarrow> get_nb n2 bd; f \<leftarrow> map_of (nb_owningLeafs b) c;
     if id_valid (acknowledged_id outs) then nh_binding_owner_remapped h c bd (m_mappedId f) n2
     else join_binding h c bd i (m_mappedId f) n2 }"
  have f0: "map_of (w_owners ?b) c = Some (case fo of None \<Rightarrow> fsm_init | Some f \<Rightarrow> f)" by (simp add: map_of_ensure_case fo_def)
  show "wp tot (binding_owner_fsm bd c i (\<lambda>f. keep (process_rcvd_description i f)) n1) (\<lambda>r. wp tot (?rest r) Q)"
  proof (rule wp_binding_owner_fsm[where call = "\<lambda>f. keep (process_rcvd_description i f)", OF s1 _ f0 d(1) describe_events_out])
    fix n2 :: "('te, 'x) node"
    assume "sees n2 (out_A (describe_events c bd i fo) (put_B bd (Some (?b\<lparr>w_owners := AList.update c ?f (w_owners ?b)\<rparr>)) (put_B bd (Some ?b) A)))"
    then have s2: "sees n2 A1" by (simp add: A1_def)
    have b2: "a_B A1 bd = Some ?b1" by (simp add: A1_def)
    show "wp tot (?rest (described_outs fo, n2)) Q"
      unfolding prod.case
    proof (rule wp_bind, rule wp_get_nb[OF s2 b2], rule wp_bind, rule wp_eq[where x = ?f])
      fix t :: node_binding
      assume "nb_owningLeafs t = w_owners ?b1"
      then show "map_of (nb_owningLeafs t) c = Some ?f" by (simp add: map_of_alist_update)
    qed (use acknowledged_described[OF ok, folded fo_def] remapped[OF _ s2] added[OF _ s2] d(3) in \<open>auto simp: fo_def\<close>)
  qed simp_all
qed

lemma wp_welcome_binding_owner:
  fixes n3 :: "('te, 'x) node"
  assumes s: "sees n3 A" and i: "inv s {} A" and b: "a_B A bd = Some b" "map_of (w_owners b) c \<noteq> None" and c: "\<not> remote_is_node c"
    and tm: "tm = (if id_valid (w_terminal b) then Some (w_terminal b) else None)"
    and Q: "\<And>n'. sees n' (out_A (if established A bd c then [Node_Sent c (BindingEstablished i)] else []) A) \<Longrightarrow> Q n'"
  shows "wp tot (do {
       n4 \<leftarrow> (case tm of None \<Rightarrow> Some n3
         | Some tm \<Rightarrow> do {
             t \<leftarrow> get_nt n3 tm;
             if nt_state t \<noteq> STATE_OWNERS_1_LEAFS_0_NODES then Some (nsend c (BindingEstablished i) n3)
             else do {
               yassert (nt_owningLeafs t \<noteq> []);
               Some (if fst (hd (nt_owningLeafs t)) \<noteq> c then nsend c (BindingEstablished i) n3 else n3) } });
       nh_binding_owner_added h c bd i n4 }) Q"
proof -
  have hook: "wp tot (nh_binding_owner_added h c bd i n4) Q"
    if "sees n4 (out_A (if established A bd c then [Node_Sent c (BindingEstablished i)] else []) A)" for n4 :: "('te, 'x) node"
    by (rule wp_mono[OF binding_owner_added[OF that]]) (use i b Q in simp_all)
  show ?thesis
  proof (cases "id_valid (w_terminal b)")
    case False
    then have "\<not> established A bd c" by (simp add: established_def b(1))
    then show ?thesis using hook[of n3] s tm False by simp
  next
    case True
    have l: "links_ok A" using i by (simp add: inv_def)
    obtain v where v: "a_T A (w_terminal b) = Some v" "tlink v = (w_ident b, False, bd)" using links_okD(5)[OF l b(1) True] by blast
    have lo: "local_ok s {} A v" using i v(1) by (simp add: inv_def)
    then have "\<not> unowned v" "v_state v = vstate v" using v(2) by (auto simp: local_ok_def unowned_def tlink_def)
    moreover have "owners_kinds v" using lo owners_kinds_fsms unfolding local_ok_def by blast
    moreover have "established A bd c = owned_elsewhere v c" using b v True by (simp add: established_def)
    ultimately show ?thesis using True v(1) tm hook
      by (simp del: bind_assoc, intro wp_bind wp_tell_new_binding_owner[OF s v(1) _ _ _ c]) simp_all
  qed
qed

text \<open>\<open>b\<close> is the entry with its new owner; if there is a terminal it is associated with it.\<close>

lemma wp_join_binding:
  fixes n2 :: "('te, 'x) node"
  assumes s: "sees n2 A" and b: "a_B A bd = Some b" "map_of (w_owners b) c \<noteq> None" and c: "\<not> remote_is_node c"
    and l: "links_ok A"
    and old: "id_valid (w_terminal b) \<or> (\<forall>tm v. a_T A tm = Some v \<longrightarrow> v_ident v = w_ident b \<longrightarrow> v_hidden v) \<Longrightarrow> inv s {} A"
    and new: "\<And>tm v. \<not> id_valid (w_terminal b) \<Longrightarrow> a_T A tm = Some v \<Longrightarrow> v_ident v = w_ident b \<Longrightarrow> \<not> v_hidden v \<Longrightarrow>
      id_valid tm \<and> inv s {} (put_T tm (Some (v\<lparr>v_binding := bd\<rparr>)) (put_B bd (Some (b\<lparr>w_terminal := tm\<rparr>)) A))"
    and Q: "\<And>n' A'. A' = A \<and> (id_valid (w_terminal b) \<or> (\<forall>tm v. a_T A tm = Some v \<longrightarrow> v_ident v = w_ident b \<longrightarrow> v_hidden v)) \<or>
      (\<exists>tm v. \<not> id_valid (w_terminal b) \<and> a_T A tm = Some v \<and> v_ident v = w_ident b \<and> \<not> v_hidden v \<and>
        A' = put_T tm (Some (v\<lparr>v_binding := bd\<rparr>)) (put_B bd (Some (b\<lparr>w_terminal := tm\<rparr>)) A)) \<Longrightarrow>
      inv s {} A' \<Longrightarrow> sees n' (out_A (if established A' bd c then [Node_Sent c (BindingEstablished i)] else []) A') \<Longrightarrow> Q n'"
  shows "wp tot (join_binding h c bd i i n2) Q"
  unfolding join_binding_def
proof (rule wp_bind, rule wp_associate_binding[OF s b(1)])
  let ?rest = "\<lambda>(tm, n3). do {
       n4 \<leftarrow> (case tm of None \<Rightarrow> Some n3
         | Some tm \<Rightarrow> do {
             t \<leftarrow> get_nt n3 tm;
             if nt_state t \<noteq> STATE_OWNERS_1_LEAFS_0_NODES then Some (nsend c (BindingEstablished i) n3)
             else do {
               yassert (nt_owningLeafs t \<noteq> []);
               Some (if fst (hd (nt_owningLeafs t)) \<noteq> c then nsend c (BindingEstablished i) n3 else n3) } });
       nh_binding_owner_added h c bd i n4 }"
  show "\<exists>v. a_T A (w_terminal b) = Some v \<and> v_binding v = bd" if "id_valid (w_terminal b)"
    using links_okD(5)[OF l b(1) that] by (auto simp: tlink_def)
  show "wp tot (?rest (Some (w_terminal b), n2)) Q" if val: "id_valid (w_terminal b)"
    unfolding prod.case
    by (rule wp_welcome_binding_owner[OF s _ b c], use val old in simp, use val in simp) (rule Q[of A], use val old in simp_all)
  show "wp tot (?rest (None, n2)) Q"
    if val: "\<not> id_valid (w_terminal b)" and none: "\<And>tm v. a_T A tm = Some v \<Longrightarrow> v_ident v = w_ident b \<Longrightarrow> v_hidden v"
  proof -
    have i: "inv s {} A" using old none by blast
    show ?thesis unfolding prod.case
      by (rule wp_welcome_binding_owner[OF s i b c], use val in simp) (rule Q[OF _ i], use none in blast)
  qed
  show "wp tot (?rest (Some tm, n3)) Q"
    if val: "\<not> id_valid (w_terminal b)" and v: "a_T A tm = Some v" "v_ident v = w_ident b" "\<not> v_hidden v"
      and s3: "sees n3 (put_T tm (Some (v\<lparr>v_binding := bd\<rparr>)) (put_B bd (Some (b\<lparr>w_terminal := tm\<rparr>)) A))"
    for n3 :: "('te, 'x) node" and tm v
  proof -
    note i = new[OF val v]
    show ?thesis unfolding prod.case
      by (rule wp_welcome_binding_owner[OF s3 conjunct2[OF i], where b = "b\<lparr>w_terminal := tm\<rparr>", OF _ _ c], simp_all add: b i)
        (rule Q[OF _ conjunct2[OF i]], use val v in blast)
  qed
qed

lemma wp_old_binding:
  fixes n :: "('te, 'x) node"
  assumes i: "inv s {} A" and c: "\<not> remote_is_node c" "c \<in> set (a_leafs A)" and j: "id_valid j"
    and ins: "ireg_insert x new_node_binding (nd_bindings n) = ((bd, fresh), r)"
    and b: "a_B A bd = Some b" "w_ident b = x" "sees (n\<lparr>nd_bindings := r\<rparr>) A"
    and remap: "\<And>n' bd b f A'. a_B A bd = Some b \<Longrightarrow> w_ident b = x \<Longrightarrow> map_of (w_owners b) c = Some f \<Longrightarrow>
      A' = put_B bd (Some (b\<lparr>w_owners := AList.update c (described j (Some f)) (w_owners b)\<rparr>)) A \<Longrightarrow>
      inv s {} A' \<Longrightarrow> sees n' (out_A (describe_events c bd j (Some f)) A') \<Longrightarrow> Q n'"
    and join: "\<And>n' bd b A'. a_B A bd = Some b \<Longrightarrow> w_ident b = x \<Longrightarrow> map_of (w_owners b) c = None \<Longrightarrow>
      A' = put_B bd (Some (b\<lparr>w_owners := AList.update c (described j None) (w_owners b)\<rparr>)) A \<Longrightarrow> inv s {} A' \<Longrightarrow>
      sees n' (out_A (describe_events c bd j None @ (if established A' bd c then [Node_Sent c (BindingEstablished j)] else [])) A') \<Longrightarrow>
      Q n'"
  shows "wp tot (node_BindingDescription h x j c n) Q"
proof -
  have ow: "fsms_ok owner_ok False (set (a_leafs A)) (w_owners b)" using i b(1) by (simp add: inv_def bindings_ok_def)
  have ok: "owner_ok f" if "map_of (w_owners b) c = Some f" for f using fsms_okD(2)[OF ow that] by blast
  let ?b = "\<lambda>fo. b\<lparr>w_owners := AList.update c (described j fo) (w_owners b)\<rparr>"
  have inv1: "inv s {} (put_B bd (Some (?b (map_of (w_owners b) c))) A)"
    by (rule inv_put_B[OF i b(1)])
      (use fsms_ok_update[OF ow c(2) _ owner_described(2)[of "map_of (w_owners b) c", OF ok j]] c(1) in auto)
  show ?thesis
  proof (rule wp_binding_described[OF ins c(1) b(3,1) ok])
    fix n2 :: "('te, 'x) node"
    assume fo: "map_of (w_owners b) c \<noteq> None"
      and s2: "sees n2 (out_A (describe_events c bd j (map_of (w_owners b) c)) (put_B bd (Some (?b (map_of (w_owners b) c))) A))"
    obtain f where f: "map_of (w_owners b) c = Some f" using fo by blast
    have "wp tot (nh_binding_owner_remapped h c bd j n2) (\<lambda>n'. sees n' (out_A (describe_events c bd j (Some f)) (put_B bd (Some (?b (Some f))) A)))"
      by (rule binding_owner_remapped[OF s2[unfolded f], where b = "?b (Some f)"])
        (use inv1 f in \<open>simp_all add: map_of_alist_update\<close>)
    then show "wp tot (nh_binding_owner_remapped h c bd j n2) Q"
      by (rule wp_mono) (rule remap[OF b(1,2) f refl], use inv1 f in simp_all)
  next
    fix n2 :: "('te, 'x) node"
    assume fo: "map_of (w_owners b) c = None"
      and s2: "sees n2 (out_A (describe_events c bd j (map_of (w_owners b) c)) (put_B bd (Some (?b (map_of (w_owners b) c))) A))"
    let ?A = "put_B bd (Some (?b None)) A"
    have s2': "sees n2 (out_A (describe_events c bd j None) ?A)" and i': "inv s {} ?A" using s2 inv1 fo by simp_all
    have no: False if "\<not> id_valid (w_terminal b)" "a_T A tm = Some v" "v_ident v = w_ident b" "\<not> v_hidden v" for tm v
    proof -
      have l: "links (T_links A) (B_links A)" "linked (T_links A) (B_links A)" using i by (simp_all add: inv_def links_ok_def complete_def)
      have T: "T_links A tm = Some (w_ident b, False, v_binding v)" using T_links_Some[OF that(2)] that by simp
      have B: "B_links A bd = Some (w_ident b, False, w_terminal b)"
        using B_links_Some[OF b(1)] i links_okD(4)[OF _ b(1)] by (simp add: inv_def)
      have "v_binding v = bd" using l(2) T B unfolding linked_def by blast
      moreover have "id_valid bd" using linksD(4)[OF l(1) B] by simp
      ultimately have "w_terminal b = tm" using linksD(3)[OF l(1) T] B by simp
      then show False using that(1) linksD(1)[OF l(1) T] by simp
    qed
    show "wp tot (join_binding h c bd j j n2) Q"
    proof (rule wp_join_binding[OF s2', where b = "?b None"])
      fix n' :: "('te, 'x) node" and A'
      assume A': "A' = out_A (describe_events c bd j None) ?A \<and> (id_valid (w_terminal (?b None)) \<or>
          (\<forall>tm v. a_T (out_A (describe_events c bd j None) ?A) tm = Some v \<longrightarrow> v_ident v = w_ident (?b None) \<longrightarrow> v_hidden v)) \<or>
        (\<exists>tm v. \<not> id_valid (w_terminal (?b None)) \<and> a_T (out_A (describe_events c bd j None) ?A) tm = Some v \<and>
          v_ident v = w_ident (?b None) \<and> \<not> v_hidden v \<and> A' = put_T tm (Some (v\<lparr>v_binding := bd\<rparr>))
            (put_B bd (Some (?b None\<lparr>w_terminal := tm\<rparr>)) (out_A (describe_events c bd j None) ?A)))"
        and s': "sees n' (out_A (if established A' bd c then [Node_Sent c (BindingEstablished j)] else []) A')"
      have "A' = out_A (describe_events c bd j None) ?A" using A' no by auto
      then show "Q n'" using s' join[OF b(1,2) fo refl i', of n'] by simp
    qed (use i' no c in \<open>auto simp: inv_def map_of_alist_update\<close>)
  qed
qed

lemma new_binding_view: "(bview_of (new_element x bd new_node_binding))\<lparr>w_owners := AList.update c (described i None)
    (w_owners (bview_of (new_element x bd new_node_binding)))\<rparr> = new_binding x default_id c i"
  by (simp add: bview_of_def new_binding_def new_node_binding_def)

lemma new_binding_simps [simp]: "w_ident (new_binding x tm c i) = x" "w_terminal (new_binding x tm c i) = tm"
  "w_owners (new_binding x tm c i) = [(c, described i None)]" "(new_binding x tm c i)\<lparr>w_terminal := tm'\<rparr> = new_binding x tm' c i"
  by (simp_all add: new_binding_def)

lemma links_unassociated:
  assumes l: "links_ok A" and bd: "a_B A bd = None" "id_valid bd" and new: "\<forall>k v. a_B A k = Some v \<longrightarrow> w_ident v = x \<longrightarrow> w_hidden v"
  shows "links_ok (put_B bd (Some (new_binding x default_id c j)) A)"
proof -
  have nB: "B_links A bd = None" "\<And>i k. B_links A i \<noteq> Some (x, False, k)" using bd(1) new by (auto simp: B_links_def blink_def)
  show ?thesis
    using links_new_B[OF l[unfolded links_ok_def] nB(1) bd(2) nB(2), of default_id]
    by (simp add: links_ok_def default_not_valid blink_def new_binding_def)
qed

lemma wp_new_binding:
  fixes n :: "('te, 'x) node"
  assumes i: "inv s {} A" and c: "\<not> remote_is_node c" "c \<in> set (a_leafs A)" and j: "id_valid j"
    and ins: "ireg_insert x new_node_binding (nd_bindings n) = ((bd, fresh), r)"
    and bd: "id_valid bd" "a_B A bd = None" and none: "\<forall>i v. a_B A i = Some v \<longrightarrow> w_ident v = x \<longrightarrow> w_hidden v"
    and s0: "sees (n\<lparr>nd_bindings := r\<rparr>) (put_B bd (Some (bview_of (new_element x bd new_node_binding))) A)"
    and create: "\<And>n' bd tm v A'. a_B A bd = None \<Longrightarrow> \<forall>k b. a_B A k = Some b \<longrightarrow> w_ident b \<noteq> x \<Longrightarrow>
      (if id_valid tm then a_T A tm = Some v \<and> v_ident v = x \<and> \<not> v_hidden v
        else tm = default_id \<and> (\<forall>k v. a_T A k = Some v \<longrightarrow> v_ident v = x \<longrightarrow> v_hidden v)) \<Longrightarrow>
      A' = put_B bd (Some (new_binding x tm c j)) (if id_valid tm then put_T tm (Some (v\<lparr>v_binding := bd\<rparr>)) A else A) \<Longrightarrow>
      inv s {} A' \<Longrightarrow>
      sees n' (out_A (describe_events c bd j None @ (if established A' bd c then [Node_Sent c (BindingEstablished j)] else [])) A') \<Longrightarrow>
      Q n'"
  shows "wp tot (node_BindingDescription h x j c n) Q"
proof -
  let ?b = "bview_of (new_element x bd new_node_binding)" and ?es = "describe_events c bd j None"
  let ?A = "put_B bd (Some (new_binding x default_id c j)) A"
  have l: "links_ok A" using i by (simp add: inv_def)
  have none': "\<forall>k b. a_B A k = Some b \<longrightarrow> w_ident b \<noteq> x" using none links_okD(4)[OF l] by blast
  have e: "map_of (w_owners ?b) c = None" by (simp add: bview_of_def new_node_binding_def)
  have ow: "fsms_ok owner_ok False (set (a_leafs A) \<union> {}) (w_owners (new_binding x tm c j))" for tm
    using c owner_described(2)[of None, OF _ j] by (simp add: fsms_ok_def)
  have valid: "id_valid tm" if "a_T A tm = Some v" for tm v using links_okD(1)[OF l that] .
  note mk = inv_new_binding[OF i bd(2,1) none ow]
  show ?thesis
  proof (rule wp_binding_described[OF ins c(1) s0])
    fix n2 :: "('te, 'x) node"
    assume "sees n2 (out_A (describe_events c bd j (map_of (w_owners ?b) c))
      (put_B bd (Some (?b\<lparr>w_owners := AList.update c (described j (map_of (w_owners ?b) c)) (w_owners ?b)\<rparr>)) (put_B bd (Some ?b) A)))"
    then have s2: "sees n2 (out_A ?es ?A)" unfolding e new_binding_view by simp
    show "wp tot (join_binding h c bd j j n2) Q"
    proof (rule wp_join_binding[OF s2, where b = "new_binding x default_id c j"])
      show "links_ok (out_A ?es ?A)" using links_unassociated[OF l bd(2,1) none] by simp
      show "inv s {} (out_A ?es ?A)" if "id_valid (w_terminal (new_binding x default_id c j)) \<or>
          (\<forall>tm v. a_T (out_A ?es ?A) tm = Some v \<longrightarrow> v_ident v = w_ident (new_binding x default_id c j) \<longrightarrow> v_hidden v)"
        using mk[of default_id] that by (simp add: default_not_valid)
      show "id_valid tm \<and> inv s {} (put_T tm (Some (v\<lparr>v_binding := bd\<rparr>))
          (put_B bd (Some ((new_binding x default_id c j)\<lparr>w_terminal := tm\<rparr>)) (out_A ?es ?A)))"
        if "a_T (out_A ?es ?A) tm = Some v" "v_ident v = w_ident (new_binding x default_id c j)" "\<not> v_hidden v" for tm v
        using mk[of tm v] that valid[of tm v] by (simp add: put_B_put_T)
      fix n' :: "('te, 'x) node" and A'
      assume A': "A' = out_A ?es ?A \<and> (id_valid (w_terminal (new_binding x default_id c j)) \<or>
          (\<forall>tm v. a_T (out_A ?es ?A) tm = Some v \<longrightarrow> v_ident v = w_ident (new_binding x default_id c j) \<longrightarrow> v_hidden v)) \<or>
        (\<exists>tm v. \<not> id_valid (w_terminal (new_binding x default_id c j)) \<and> a_T (out_A ?es ?A) tm = Some v \<and>
          v_ident v = w_ident (new_binding x default_id c j) \<and> \<not> v_hidden v \<and> A' = put_T tm (Some (v\<lparr>v_binding := bd\<rparr>))
            (put_B bd (Some ((new_binding x default_id c j)\<lparr>w_terminal := tm\<rparr>)) (out_A ?es ?A)))"
        and i': "inv s {} A'" and s': "sees n' (out_A (if established A' bd c then [Node_Sent c (BindingEstablished j)] else []) A')"
      from A' show "Q n'"
      proof (elim disjE exE conjE)
        assume "A' = out_A ?es ?A" "\<forall>tm v. a_T (out_A ?es ?A) tm = Some v \<longrightarrow> v_ident v = w_ident (new_binding x default_id c j) \<longrightarrow> v_hidden v"
        then show "Q n'" using create[OF bd(2) none', of default_id undefined ?A n'] i' s' by (simp add: default_not_valid)
      next
        fix tm v
        assume v: "a_T (out_A ?es ?A) tm = Some v" "v_ident v = w_ident (new_binding x default_id c j)" "\<not> v_hidden v"
          and "A' = put_T tm (Some (v\<lparr>v_binding := bd\<rparr>)) (put_B bd (Some ((new_binding x default_id c j)\<lparr>w_terminal := tm\<rparr>)) (out_A ?es ?A))"
        then show "Q n'"
          using create[OF bd(2) none', of tm v "put_T tm (Some (v\<lparr>v_binding := bd\<rparr>)) (put_B bd (Some (new_binding x tm c j)) A)" n'] i' s'
            valid[of tm v] by (simp add: put_B_put_T)
      qed (simp add: default_not_valid)
    qed (use c in simp_all)
  qed (use e in simp_all)
qed

lemma wp_node_BindingDescription:
  fixes n :: "('te, 'x) node"
  assumes sA: "sees n A" and i: "inv s {} A" and c: "\<not> remote_is_node c" "c \<in> set (a_leafs A)" and j: "id_valid j"
    and remap: "\<And>n' bd b f A'. a_B A bd = Some b \<Longrightarrow> w_ident b = x \<Longrightarrow> map_of (w_owners b) c = Some f \<Longrightarrow>
      A' = put_B bd (Some (b\<lparr>w_owners := AList.update c (described j (Some f)) (w_owners b)\<rparr>)) A \<Longrightarrow>
      inv s {} A' \<Longrightarrow> sees n' (out_A (describe_events c bd j (Some f)) A') \<Longrightarrow> Q n'"
    and join: "\<And>n' bd b A'. a_B A bd = Some b \<Longrightarrow> w_ident b = x \<Longrightarrow> map_of (w_owners b) c = None \<Longrightarrow>
      A' = put_B bd (Some (b\<lparr>w_owners := AList.update c (described j None) (w_owners b)\<rparr>)) A \<Longrightarrow> inv s {} A' \<Longrightarrow>
      sees n' (out_A (describe_events c bd j None @ (if established A' bd c then [Node_Sent c (BindingEstablished j)] else [])) A') \<Longrightarrow>
      Q n'"
    and create: "\<And>n' bd tm v A'. a_B A bd = None \<Longrightarrow> \<forall>k b. a_B A k = Some b \<longrightarrow> w_ident b \<noteq> x \<Longrightarrow>
      (if id_valid tm then a_T A tm = Some v \<and> v_ident v = x \<and> \<not> v_hidden v
        else tm = default_id \<and> (\<forall>k v. a_T A k = Some v \<longrightarrow> v_ident v = x \<longrightarrow> v_hidden v)) \<Longrightarrow>
      A' = put_B bd (Some (new_binding x tm c j)) (if id_valid tm then put_T tm (Some (v\<lparr>v_binding := bd\<rparr>)) A else A) \<Longrightarrow>
      inv s {} A' \<Longrightarrow>
      sees n' (out_A (describe_events c bd j None @ (if established A' bd c then [Node_Sent c (BindingEstablished j)] else [])) A') \<Longrightarrow>
      Q n'"
  shows "wp tot (node_BindingDescription h x j c n) Q"
proof -
  obtain bd fresh r where ins: "ireg_insert x new_node_binding (nd_bindings n) = ((bd, fresh), r)" by (metis prod.exhaust)
  have l: "links_ok A" using i by (simp add: inv_def)
  consider (old) b where "a_B A bd = Some b" "w_ident b = x" "\<not> w_hidden b" "sees (n\<lparr>nd_bindings := r\<rparr>) A"
    | (new) "id_valid bd" "a_B A bd = None" "\<forall>i v. a_B A i = Some v \<longrightarrow> w_ident v = x \<longrightarrow> w_hidden v"
      "sees (n\<lparr>nd_bindings := r\<rparr>) (put_B bd (Some (bview_of (new_element x bd new_node_binding))) A)"
    using sees_insert_B[OF sA ins] by (elim disjE exE conjE)
  then show ?thesis
  proof cases
    case old
    show ?thesis by (rule wp_old_binding[OF i c j ins old(1,2,4)]) (rule remap join; assumption)+
  next
    case new
    show ?thesis by (rule wp_new_binding[OF i c j ins new]) (rule create; assumption)
  qed
qed

end

end
