(* ===== verification/Node_Descriptions.thy ===== *)
theory Node_Descriptions
  imports Node_Bindings
begin

text \<open>
  The description of a terminal: a new owner, whose arrival is announced to the nodes that do not
  know the terminal and to the bindings that gain a terminal by it.
\<close>

section \<open>Announcing the terminal\<close>

text \<open>\<open>v\<close> is the entry before, \<open>with_owner c i v\<close> the entry with its new owner.\<close>

definition with_owner :: "connection \<Rightarrow> id \<Rightarrow> tview \<Rightarrow> tview" where
  "with_owner c i v = set_owners c (AList.update c (described i None) (vowners c v)) v"

definition users_told :: "connection list \<Rightarrow> connection \<Rightarrow> tview \<Rightarrow> fsm_map" where
  "users_told nodes c v = (if v_state v = STATE_JUST_CREATED then map (\<lambda>d. (d, told)) (filter (\<lambda>d. d \<noteq> c) nodes)
     else if v_state v = STATE_OWNERS_0_LEAFS_1_NODES \<and> map_of (v_users v) (fst (hd (v_nodes v))) = None
     then AList.update (fst (hd (v_nodes v))) told (v_users v) else v_users v)"

lemma update_append: "d \<notin> fst ` set m \<Longrightarrow> AList.update d f m = m @ [(d, f)]"
  by (induction m) auto

lemma with_owner_simps [simp]: "v_state (with_owner c i v) = v_state v" "v_users (with_owner c i v) = v_users v"
  "v_binding (with_owner c i v) = v_binding v" "v_ident (with_owner c i v) = v_ident v" "v_hidden (with_owner c i v) = v_hidden v"
  "v_subs (with_owner c i v) = v_subs v" "tlink (with_owner c i v) = tlink v" "\<not> unowned (with_owner c i v)"
  "with_owner c i (v\<lparr>v_users := u\<rparr>) = (with_owner c i v)\<lparr>v_users := u\<rparr>"
  "map_of (vowners c (with_owner c i v)) c = Some (described i None)"
  by (auto simp: with_owner_def set_owners_def vowners_def unowned_def map_of_alist_update tlink_def)

lemma users_same: "v_users v = u \<Longrightarrow> v\<lparr>v_users := u\<rparr> = v"
  by auto

lemma wp_announce_new:
  fixes n :: "('te, 'x) node"
  assumes s: "sees n A" and v: "a_T A tm = Some v" "v_users v = []" and d: "distinct nodes"
    and Q: "\<And>n' es. filter status_event es = [] \<Longrightarrow>
      sees n' (out_A es (put_T tm (Some (v\<lparr>v_users := map (\<lambda>d. (d, told)) (filter (\<lambda>d. d \<noteq> c) nodes)\<rparr>)) A)) \<Longrightarrow> Q n'"
  shows "wp tot (for_each nodes (\<lambda>d n. if d \<noteq> c then reset_user tm d n else Some n) n) Q"
proof -
  let ?us = "\<lambda>xs. map (\<lambda>d. (d, told)) (filter (\<lambda>d. d \<noteq> c) xs)"
  have "wp tot (for_each ys (\<lambda>d n. if d \<noteq> c then reset_user tm d n else Some n) u) Q"
    if "xs @ ys = nodes" "filter status_event es = []" "sees u (out_A es (put_T tm (Some (v\<lparr>v_users := ?us xs\<rparr>)) A))"
    for xs ys es and u :: "('te, 'x) node"
    using that
  proof (induction ys arbitrary: xs es u)
    case Nil
    then show ?case using Q by simp
  next
    case (Cons y ys)
    have "y \<notin> set xs" using d unfolding Cons.prems(1)[symmetric] by simp
    then have upd: "AList.update y told (?us xs) = ?us xs @ [(y, told)]" by (intro update_append) auto
    have "wp tot (if y \<noteq> c then reset_user tm y u else Some u)
      (\<lambda>u. wp tot (for_each ys (\<lambda>d n. if d \<noteq> c then reset_user tm d n else Some n) u) Q)"
    proof (cases "y = c")
      case True
      then show ?thesis using Cons.IH[of "xs @ [y]" es u] Cons.prems by simp
    next
      case False
      have "wp tot (reset_user tm y u) (\<lambda>u. wp tot (for_each ys (\<lambda>d n. if d \<noteq> c then reset_user tm d n else Some n) u) Q)"
      proof (rule wp_reset_user[OF Cons.prems(3)])
        fix u' :: "('te, 'x) node"
        assume "sees u' (out_A [Node_Sent y (TerminalDescription (v_ident (v\<lparr>v_users := ?us xs\<rparr>)) tm)] (put_T tm
          (Some (v\<lparr>v_users := ?us xs, v_users := AList.update y told (v_users (v\<lparr>v_users := ?us xs\<rparr>))\<rparr>))
          (out_A es (put_T tm (Some (v\<lparr>v_users := ?us xs\<rparr>)) A))))"
        then show "wp tot (for_each ys (\<lambda>d n. if d \<noteq> c then reset_user tm d n else Some n) u') Q"
          by (intro Cons.IH[of "xs @ [y]" "es @ [Node_Sent y (TerminalDescription (v_ident v) tm)]"])
            (use Cons.prems False in \<open>simp_all add: upd\<close>)
      qed simp
      then show ?thesis using False by simp
    qed
    then show ?case by (auto intro: wp_bind)
  qed
  note loop = this
  show ?thesis by (rule loop[of "[]" nodes "[]"]) (use s put_T_same[OF v(1)] users_same[OF v(2)] in simp_all)
qed

lemma wp_announce:
  fixes n :: "('te, 'x) node"
  assumes s: "sees n A" and v1: "a_T A tm = Some (with_owner c i v)" and new: "map_of (vowners c v) c = None"
    and st: "v_state v = STATE_JUST_CREATED \<and> v_users v = [] \<or> v_state v = vstate v \<and> \<not> unowned v"
    and k: "owners_kinds v" and d: "distinct (a_nodes A)"
    and Q: "\<And>n' es. filter status_event es = [] \<Longrightarrow>
      sees n' (out_A es (put_T tm (Some ((with_owner c i v)\<lparr>v_users := users_told (a_nodes A) c v\<rparr>)) A)) \<Longrightarrow> Q n'"
  shows "wp tot (announce_terminal tm c n) Q"
  unfolding announce_terminal_def
proof (rule wp_bind, rule wp_get_nt[OF s v1])
  fix t :: "'te node_terminal"
  let ?v1 = "with_owner c i v"
  assume t: "nt_state t = v_state ?v1" "nt_owningNodes t = v_nodes ?v1" "nt_usingNodes t = v_users ?v1"
  have nodes: "nd_nodeConnections n = a_nodes A" by (rule seesD(4)[OF s])
  have idle: "Q n" if "users_told (a_nodes A) c v = v_users v"
    by (rule Q[of "[]"]) (use s put_T_same[OF v1] users_same[of ?v1, OF trans[OF with_owner_simps(2) that[symmetric]]] in simp_all)
  have first: "wp tot (for_each (a_nodes A) (\<lambda>d n. if d \<noteq> c then reset_user tm d n else Some n) n) Q"
    if "v_state v = STATE_JUST_CREATED"
    by (rule wp_announce_new[OF s v1 _ d]) (use st that Q in \<open>auto simp: users_told_def vstate_def Let_def split: if_splits\<close>)
  have one: "wp tot (do { (owner, _) \<leftarrow> find (\<lambda>v. fst v \<noteq> c) (v_nodes ?v1);
      if map_of (v_users v) owner = None then reset_user tm owner n else Some n }) Q"
    if 1: "v_state v = STATE_OWNERS_0_LEAFS_1_NODES"
  proof -
    have "v_leafs v = [] \<and> length (v_nodes v) = 1" using st 1 vstate_1N[of v] by auto
    then obtain o1 g where o1: "v_nodes v = [(o1, g)]" by (cases "v_nodes v") auto
    have "o1 \<noteq> c"
    proof
      assume "o1 = c"
      moreover have "remote_is_node o1" using k o1 unfolding owners_kinds_def by simp
      ultimately show False using new o1 by (simp add: vowners_def)
    qed
    then have f: "find (\<lambda>v. fst v \<noteq> c) (v_nodes ?v1) = Some (o1, g)"
      using o1 by (simp add: with_owner_def set_owners_def vowners_def)
    have "wp tot (reset_user tm o1 n) Q" if "map_of (v_users v) o1 = None"
      by (rule wp_reset_user[OF s v1])
        (use that 1 o1 Q[of "[Node_Sent o1 (TerminalDescription (v_ident v) tm)]"] in \<open>simp add: users_told_def\<close>)
    then show ?thesis using idle f 1 o1 by (auto simp: users_told_def)
  qed
  show "wp tot (case nt_state t of
         STATE_JUST_CREATED \<Rightarrow>
           for_each (nd_nodeConnections n) (\<lambda>d n. if d \<noteq> c then reset_user tm d n else Some n) n
       | STATE_OWNERS_0_LEAFS_1_NODES \<Rightarrow> do {
           (owner, _) \<leftarrow> find (\<lambda>v. fst v \<noteq> c) (nt_owningNodes t);
           if map_of (nt_usingNodes t) owner = None then reset_user tm owner n else Some n }
       | STATE_AWAIT_ACKS \<Rightarrow> None
       | _ \<Rightarrow> Some n) Q"
    using first one idle st unfolding t nodes by (auto simp: users_told_def vstate_unowned split: node_state.splits)
qed

section \<open>Association with a binding\<close>

lemma wp_associate_terminal:
  fixes n :: "('te, 'x) node"
  assumes s: "sees n A" and v: "a_T A tm = Some v"
    and has: "id_valid (v_binding v) \<Longrightarrow> \<exists>b. a_B A (v_binding v) = Some b \<and> w_terminal b = tm"
    and old: "id_valid (v_binding v) \<Longrightarrow> Q (Some (v_binding v), n)"
    and none: "\<not> id_valid (v_binding v) \<Longrightarrow> (\<And>bd b. a_B A bd = Some b \<Longrightarrow> w_ident b = v_ident v \<Longrightarrow> w_hidden b) \<Longrightarrow> Q (None, n)"
    and new: "\<And>n' bd b. \<not> id_valid (v_binding v) \<Longrightarrow> a_B A bd = Some b \<Longrightarrow> w_ident b = v_ident v \<Longrightarrow> \<not> w_hidden b \<Longrightarrow>
      sees n' (put_T tm (Some (v\<lparr>v_binding := bd\<rparr>)) (put_B bd (Some (b\<lparr>w_terminal := tm\<rparr>)) A)) \<Longrightarrow> Q (Some bd, n')"
  shows "wp tot (associate_terminal tm n) Q"
  unfolding associate_terminal_def
proof (rule wp_bind, rule wp_find_nt[OF s v])
  fix e :: "'te node_terminal element"
  assume e: "el_ident e = v_ident v" "nt_binding (el_data e) = v_binding v"
  show "wp tot (if id_valid (nt_binding (el_data e)) then do {
       bd \<leftarrow> get_nb n (nt_binding (el_data e));
       yassert (nb_terminal bd = tm);
       Some (Some (nt_binding (el_data e)), n) }
     else (case find_ident (nd_bindings n) (el_ident e) of
         None \<Rightarrow> Some (None, n)
       | Some b \<Rightarrow> do {
           n1 \<leftarrow> modify_nb (el_id b) (\<lambda>bd. bd\<lparr>nb_terminal := tm\<rparr>) n;
           n2 \<leftarrow> modify_nt tm (\<lambda>t. t\<lparr>nt_binding := el_id b\<rparr>) n1;
           Some (Some (el_id b), n2) })) Q"
  proof (cases "id_valid (v_binding v)")
    case True
    obtain b where b: "a_B A (v_binding v) = Some b" "w_terminal b = tm" using has[OF True] by blast
    show ?thesis unfolding e if_P[OF True]
      by (intro wp_bind wp_get_nb[OF s b(1)]) (simp add: b(2) old[OF True])
  next
    case False
    show ?thesis unfolding e if_not_P[OF False]
    proof (cases "find_ident (nd_bindings n) (v_ident v)")
      case None
      then show "wp tot (case find_ident (nd_bindings n) (v_ident v) of None \<Rightarrow> Some (None, n)
         | Some b \<Rightarrow> do { n1 \<leftarrow> modify_nb (el_id b) (\<lambda>bd. bd\<lparr>nb_terminal := tm\<rparr>) n;
             n2 \<leftarrow> modify_nt tm (\<lambda>t. t\<lparr>nt_binding := el_id b\<rparr>) n1; Some (Some (el_id b), n2) }) Q"
        using none[OF False find_ident_B(2)[OF s None]] by simp
    next
      case (Some t)
      obtain b where b: "a_B A (el_id t) = Some b" "w_ident b = v_ident v" "\<not> w_hidden b" using find_ident_B(1)[OF s Some] by blast
      have "wp tot (do { n1 \<leftarrow> modify_nb (el_id t) (\<lambda>bd. bd\<lparr>nb_terminal := tm\<rparr>) n;
             n2 \<leftarrow> modify_nt tm (\<lambda>tt. tt\<lparr>nt_binding := el_id t\<rparr>) n1; Some (Some (el_id t), n2) }) Q"
      proof (rule wp_bind, rule wp_modify_nb[OF s b(1), where g = "\<lambda>b. b\<lparr>w_terminal := tm\<rparr>"], simp add: bview_of_def, rule wp_bind)
        fix n1 :: "('te, 'x) node"
        assume s1: "sees n1 (put_B (el_id t) (Some (b\<lparr>w_terminal := tm\<rparr>)) A)"
        show "wp tot (modify_nt tm (\<lambda>tt. tt\<lparr>nt_binding := el_id t\<rparr>) n1) (\<lambda>n2. wp tot (Some (Some (el_id t), n2)) Q)"
          by (rule wp_modify_nt[OF s1, where g = "\<lambda>v. v\<lparr>v_binding := el_id t\<rparr>"])
            (use v new[OF False b] in \<open>auto simp: tview_of_def\<close>)
      qed
      then show "wp tot (case find_ident (nd_bindings n) (v_ident v) of None \<Rightarrow> Some (None, n)
         | Some b \<Rightarrow> do { n1 \<leftarrow> modify_nb (el_id b) (\<lambda>bd. bd\<lparr>nb_terminal := tm\<rparr>) n;
             n2 \<leftarrow> modify_nt tm (\<lambda>t. t\<lparr>nt_binding := el_id b\<rparr>) n1; Some (Some (el_id b), n2) }) Q" using Some by simp
    qed
  qed
qed

section \<open>Bindings that gain a terminal\<close>

lemma update_delete_new: "map_of m c = None \<Longrightarrow> AList.delete c (AList.update c f m) = m"
  by (induction m) (auto simp: delete_idem map_of_eq_None_iff split: if_splits)

lemma vstate_known: "vstate v \<noteq> STATE_JUST_CREATED"
  by (simp add: vstate_def Let_def)

lemma without_with_owner:
  assumes "map_of (vowners c v) c = None"
  shows "v_leafs (without_owner c (with_owner c i v)) = v_leafs v" "v_nodes (without_owner c (with_owner c i v)) = v_nodes v"
    "vstate (without_owner c (with_owner c i v)) = vstate v" "owned_elsewhere (without_owner c (with_owner c i v)) = owned_elsewhere v"
proof -
  show l: "v_leafs (without_owner c (with_owner c i v)) = v_leafs v" "v_nodes (without_owner c (with_owner c i v)) = v_nodes v"
    using assms update_delete_new by (auto simp: without_owner_def with_owner_def set_owners_def vowners_def split: if_splits)
  then show "vstate (without_owner c (with_owner c i v)) = vstate v" "owned_elsewhere (without_owner c (with_owner c i v)) = owned_elsewhere v"
    by (simp_all add: vstate_def owned_elsewhere_def fun_eq_iff)
qed

lemma with_owner_kinds:
  assumes k: "owners_kinds v"
  shows "owners_kinds (with_owner c i v)"
proof -
  have u: "distinct_keys (AList.update c f m) \<and> (\<forall>d \<in> fst ` set (AList.update c f m). P d)"
    if "distinct_keys m" "\<forall>d \<in> fst ` set m. P d" "P c" for P and f :: fsm and m
    using distinct_keys_update[OF that(1)] that(2,3) unfolding dom_update by simp
  show ?thesis
  proof (cases "remote_is_node c")
    case True
    then have e: "v_leafs (with_owner c i v) = v_leafs v" "v_nodes (with_owner c i v) = AList.update c (described i None) (v_nodes v)"
      by (simp_all add: with_owner_def set_owners_def vowners_def)
    show ?thesis using k u[of "v_nodes v" remote_is_node "described i None"] True unfolding owners_kinds_def e by blast
  next
    case False
    then have e: "v_nodes (with_owner c i v) = v_nodes v" "v_leafs (with_owner c i v) = AList.update c (described i None) (v_leafs v)"
      by (simp_all add: with_owner_def set_owners_def vowners_def)
    show ?thesis using k u[of "v_leafs v" "\<lambda>d. \<not> remote_is_node d" "described i None"] False unfolding owners_kinds_def e by blast
  qed
qed

lemma gained_events:
  assumes k: "owners_kinds v" and c: "map_of (vowners c v) c = None" and m: "\<forall>d \<in> fst ` set m. \<not> remote_is_node d"
  shows "tell_binding_owners BindingEstablished (\<lambda>d. owned_elsewhere (with_owner c i v) d \<and> \<not> owned_elsewhere v d) m =
    (if vstate v = STATE_OWNERS_1_LEAFS_0_NODES then tell_binding_owners BindingEstablished (\<lambda>d. d = fst (hd (v_leafs v))) m
     else if vstate v = STATE_AWAIT_ACKS then tell_binding_owners BindingEstablished (\<lambda>d. d \<noteq> c) m else [])"
proof -
  have p: "owned_elsewhere (with_owner c i v) d \<and> \<not> owned_elsewhere v d \<longleftrightarrow>
    (if vstate v = STATE_OWNERS_1_LEAFS_0_NODES then d = fst (hd (v_leafs v)) else vstate v = STATE_AWAIT_ACKS \<and> d \<noteq> c)"
    if "(d, f) \<in> set m" for d f
    using released_pred[OF with_owner_kinds[OF k], of c c i d] m that unfolding without_with_owner[OF c] by force
  show ?thesis using tell_cong[OF p] by (auto simp: tell_binding_owners_def)
qed

lemma wp_establish_bindings:
  fixes n :: "('te, 'x) node"
  assumes s: "sees n A" and w: "a_T A tm = Some w" "v_leafs w = v_leafs (with_owner c i v)" "v_state w = v_state v"
    and new: "map_of (vowners c v) c = None" and k: "owners_kinds v"
    and st: "v_state v = STATE_JUST_CREATED \<and> unowned v \<or> v_state v = vstate v \<and> \<not> unowned v"
    and bd: "bd = (if id_valid (v_binding w) then Some (v_binding w) else None)"
    and b: "id_valid (v_binding w) \<Longrightarrow> \<exists>b. a_B A (v_binding w) = Some b \<and> distinct_keys (w_owners b) \<and>
      (\<forall>d \<in> fst ` set (w_owners b). \<not> remote_is_node d)"
    and Q: "\<And>n'. sees n' (out_A (tell_binding_owners BindingEstablished
      (\<lambda>d. owned_elsewhere (with_owner c i v) d \<and> \<not> owned_elsewhere v d) (binding_owners w A)) A) \<Longrightarrow> Q n'"
  shows "wp tot (establish_bindings tm c bd n) Q"
proof (cases "id_valid (v_binding w)")
  case False
  then show ?thesis using Q[of n] s by (simp add: establish_bindings_def bd binding_owners_def)
next
  case True
  obtain b' where b': "a_B A (v_binding w) = Some b'" "distinct_keys (w_owners b')" "\<forall>d \<in> fst ` set (w_owners b'). \<not> remote_is_node d"
    using b[OF True] by blast
  have bo: "binding_owners w A = w_owners b'" using True b'(1) by (simp add: binding_owners_def)
  note ev = gained_events[OF k new b'(3), of i]
  have vs: "v_state v = STATE_JUST_CREATED \<Longrightarrow> vstate v = STATE_AWAIT_ACKS" "vstate v \<noteq> STATE_JUST_CREATED"
    "v_state v \<noteq> STATE_JUST_CREATED \<Longrightarrow> v_state v = vstate v \<and> vstate v \<noteq> STATE_AWAIT_ACKS"
    using st vstate_unowned[of v] vstate_known[of v] by auto
  have "wp tot (do { t \<leftarrow> get_nt n tm; b \<leftarrow> get_nb n (v_binding w);
     if nt_state t = STATE_JUST_CREATED then
       for_each (nb_owningLeafs b) (\<lambda>(o1, f) n. Some (if o1 \<noteq> c then nsend o1 (BindingEstablished (m_mappedId f)) n else n)) n
     else if nt_state t = STATE_OWNERS_1_LEAFS_0_NODES then
       Some (case find (\<lambda>v. fst v \<noteq> c) (nt_owningLeafs t) of
           None \<Rightarrow> n
         | Some (o1, _) \<Rightarrow> (case map_of (nb_owningLeafs b) o1 of None \<Rightarrow> n
             | Some f \<Rightarrow> nsend o1 (BindingEstablished (m_mappedId f)) n))
     else Some n }) Q"
  proof (rule wp_bind, rule wp_get_nt[OF s w(1)], rule wp_bind, rule wp_get_nb[OF s b'(1)])
    fix t :: "'te node_terminal" and br
    assume t: "nt_state t = v_state w" "nt_owningLeafs t = v_leafs w" and br: "nb_owningLeafs br = w_owners b'"
    have all: "wp tot (for_each (w_owners b') (\<lambda>(o1, f) n. Some (if o1 \<noteq> c then nsend o1 (BindingEstablished (m_mappedId f)) n else n)) n) Q"
      if "v_state v = STATE_JUST_CREATED"
      by (rule wp_tell[OF s, where P = "\<lambda>d. d \<noteq> c"]) (use Q ev vs(1)[OF that] bo in simp_all)
    have one: "Q (case find (\<lambda>v. fst v \<noteq> c) (v_leafs w) of None \<Rightarrow> n
         | Some (o1, _) \<Rightarrow> (case map_of (w_owners b') o1 of None \<Rightarrow> n | Some f \<Rightarrow> nsend o1 (BindingEstablished (m_mappedId f)) n))"
      if 1: "v_state v = STATE_OWNERS_1_LEAFS_0_NODES"
    proof -
      have v1: "vstate v = STATE_OWNERS_1_LEAFS_0_NODES" using vs(3) 1 by simp
      then obtain o1 g where o1: "v_leafs v = [(o1, g)]" using vstate_1L[of v] by (cases "v_leafs v") auto
      have "\<not> remote_is_node o1" using k o1 unfolding owners_kinds_def by simp
      then have "o1 \<noteq> c" using new o1 by (auto simp: vowners_def)
      then have f: "find (\<lambda>v. fst v \<noteq> c) (v_leafs w) = Some (o1, g)"
        using o1 w(2) by (simp add: with_owner_def set_owners_def vowners_def)
      have "tell_binding_owners BindingEstablished (\<lambda>d. owned_elsewhere (with_owner c i v) d \<and> \<not> owned_elsewhere v d) (w_owners b') =
        (case map_of (w_owners b') o1 of None \<Rightarrow> [] | Some f \<Rightarrow> [Node_Sent o1 (BindingEstablished (m_mappedId f))])"
        unfolding ev using v1 tell_one[OF b'(2), of BindingEstablished o1] o1 by simp
      then show ?thesis using f s bo by (auto intro!: Q sees_nsend split: option.splits)
    qed
    have none: "Q n" if "v_state v \<noteq> STATE_JUST_CREATED" "v_state v \<noteq> STATE_OWNERS_1_LEAFS_0_NODES"
      by (rule Q) (use s ev bo vs that in simp)
    show "wp tot (if nt_state t = STATE_JUST_CREATED then
       for_each (nb_owningLeafs br) (\<lambda>(o1, f) n. Some (if o1 \<noteq> c then nsend o1 (BindingEstablished (m_mappedId f)) n else n)) n
     else if nt_state t = STATE_OWNERS_1_LEAFS_0_NODES then
       Some (case find (\<lambda>v. fst v \<noteq> c) (nt_owningLeafs t) of
           None \<Rightarrow> n
         | Some (o1, _) \<Rightarrow> (case map_of (nb_owningLeafs br) o1 of None \<Rightarrow> n
             | Some f \<Rightarrow> nsend o1 (BindingEstablished (m_mappedId f)) n))
     else Some n) Q"
      unfolding t br w(3) using all one none by auto
  qed
  then show ?thesis using True by (simp add: establish_bindings_def bd)
qed

section \<open>The entry with its new owner\<close>

definition described_view :: "connection list \<Rightarrow> connection \<Rightarrow> id \<Rightarrow> id \<Rightarrow> tview \<Rightarrow> tview" where
  "described_view nodes c i bd v = (with_owner c i v)\<lparr>v_state := vstate (with_owner c i v), v_users := users_told nodes c v, v_binding := bd\<rparr>"

lemma told_ok: "user_ok told" "\<not> is_mapped told"
  by (simp_all add: user_ok_def told_def is_mapped_def)

lemma with_owner_fsms:
  assumes "fsms_ok owner_ok False L (v_leafs v)" "fsms_ok owner_ok True N (v_nodes v)" "c \<in> (if remote_is_node c then N else L)" "id_valid i"
  shows "fsms_ok owner_ok False L (v_leafs (with_owner c i v))" "fsms_ok owner_ok True N (v_nodes (with_owner c i v))"
proof -
  have ok: "owner_ok (described i None)" using owner_described(2)[of None i] assms(4) by simp
  show "fsms_ok owner_ok False L (v_leafs (with_owner c i v))" "fsms_ok owner_ok True N (v_nodes (with_owner c i v))"
    using assms(1-3) fsms_ok_update[OF assms(1), of c "described i None"] fsms_ok_update[OF assms(2), of c "described i None"] ok
    by (auto simp: with_owner_def set_owners_def vowners_def)
qed

lemma local_described_old:
  assumes l: "local_ok s {} A v" and vis: "\<not> v_hidden v" and c: "c \<in> set (if remote_is_node c then a_nodes A else a_leafs A)"
    and i: "id_valid i" and new: "map_of (vowners c v) c = None"
  shows "local_ok s {} A (described_view (a_nodes A) c i bd v)"
proof -
  let ?v1 = "with_owner c i v" and ?us = "users_told (a_nodes A) c v"
  have st: "v_state v = vstate v" "\<not> unowned v" using l vis by (auto simp: local_ok_def unowned_def)
  have us: "fsms_ok user_ok True (set (a_nodes A)) (v_users v)" and uo: "users_ok (set (a_nodes A)) v" and so: "subs_ok s v"
    using l by (simp_all add: local_ok_def)
  let ?o = "fst (hd (v_nodes v))"
  have on: "?o \<in> set (a_nodes A) \<and> remote_is_node ?o" if "vstate v = STATE_OWNERS_0_LEAFS_1_NODES"
  proof -
    have "?o \<in> fst ` set (v_nodes v)" using that vstate_1N[of v] by (cases "v_nodes v") auto
    moreover have "fsms_ok owner_ok True (set (a_nodes A)) (v_nodes v)" using l by (simp add: local_ok_def)
    ultimately show ?thesis using fsms_okD(3) by blast
  qed
  have ut: "?us = (if vstate v = STATE_OWNERS_0_LEAFS_1_NODES \<and> map_of (v_users v) ?o = None then AList.update ?o told (v_users v) else v_users v)"
    using st(1) vstate_known[of v] by (simp add: users_told_def)
  have mo: "map_of ?us d = (if vstate v = STATE_OWNERS_0_LEAFS_1_NODES \<and> map_of (v_users v) ?o = None \<and> d = ?o then Some told else map_of (v_users v) d)" for d
    by (simp add: ut map_of_alist_update)
  have "fsms_ok user_ok True (set (a_nodes A)) ?us" using us fsms_ok_update[OF us _ _ told_ok(1)] on by (simp add: ut)
  moreover have ns: "\<not> sole_owner ?v1 d" for d
  proof
    assume "sole_owner ?v1 d"
    from sole_owner_without[OF this, of c] have "unowned (without_owner c ?v1)" by simp
    then show False using st(2) without_with_owner(1,2)[OF new, of i] by (simp add: unowned_def)
  qed
  then have "users_ok (set (a_nodes A)) (described_view (a_nodes A) c i bd v)"
  proof -
    have "map_of ?us d \<noteq> None" if "d \<in> set (a_nodes A)" for d
    proof (cases "sole_owner v d")
      case True
      then show ?thesis by (simp add: mo sole_owner_vstate)
    next
      case False
      then show ?thesis using uo that vis by (auto simp: users_ok_def mo)
    qed
    then show ?thesis using ns vis by (simp add: users_ok_def described_view_def)
  qed
  moreover have "subs_ok s (?v1\<lparr>v_users := ?us\<rparr>)"
  proof (rule subs_ok_users)
    show "subs_ok s ?v1" using so by (simp add: subs_ok_def)
    show "map_of ?us d = map_of (v_users ?v1) d" if "d \<in> fst ` set (v_subs ?v1)" for d
      using that so by (force simp: mo subs_ok_def)
  qed
  then have "subs_ok s (described_view (a_nodes A) c i bd v)" by (simp add: subs_ok_def described_view_def)
  moreover have "fsms_ok owner_ok False (set (a_leafs A)) (v_leafs ?v1)" "fsms_ok owner_ok True (set (a_nodes A)) (v_nodes ?v1)"
    using with_owner_fsms[of "set (a_leafs A)" v "set (a_nodes A)" c i] l c i by (auto simp: local_ok_def split: if_splits)
  moreover have "\<not> (v_leafs ?v1 = [] \<and> v_nodes ?v1 = [])" using with_owner_simps(8)[of c i v] by (simp add: unowned_def)
  moreover have "vstate (described_view (a_nodes A) c i bd v) = vstate ?v1" by (simp add: described_view_def vstate_def)
  ultimately show ?thesis using vis unfolding local_ok_def by (simp add: described_view_def)
qed

definition blank_terminal :: "ident \<Rightarrow> tview" where
  "blank_terminal x = \<lparr>v_ident = x, v_hidden = False, v_state = STATE_JUST_CREATED, v_leafs = [], v_nodes = [], v_users = [],
     v_binding = default_id, v_subs = []\<rparr>"

lemma local_described_new:
  assumes c: "c \<in> set (if remote_is_node c then a_nodes A else a_leafs A)" and i: "id_valid i" and A: "conns_ok A"
  shows "local_ok s {} A (described_view (a_nodes A) c i bd (blank_terminal x))"
proof -
  let ?b = "blank_terminal x" and ?w = "described_view (a_nodes A) c i bd (blank_terminal x)"
  have own: "v_leafs ?w = (if remote_is_node c then [] else [(c, described i None)])" "v_nodes ?w = (if remote_is_node c then [(c, described i None)] else [])"
    "v_users ?w = map (\<lambda>d. (d, told)) (filter (\<lambda>d. d \<noteq> c) (a_nodes A))" "v_subs ?w = []" "\<not> v_hidden ?w" "v_state ?w = vstate ?w"
    by (simp_all add: described_view_def with_owner_def set_owners_def vowners_def blank_terminal_def users_told_def vstate_def)
  have keys: "map fst (v_users ?w) = filter (\<lambda>d. d \<noteq> c) (a_nodes A)" by (simp add: own(3) comp_def)
  have us: "fsms_ok user_ok True (set (a_nodes A)) (v_users ?w)"
    using A told_ok(1) unfolding fsms_ok_def keys by (auto simp: own(3) conns_ok_def)
  have mo: "map_of (v_users ?w) d = (if d \<in> set (a_nodes A) \<and> d \<noteq> c then Some told else None)" for d
  proof -
    have "map_of (map (\<lambda>d. (d, told)) (filter (\<lambda>d. d \<noteq> c) ns)) d = (if d \<in> set ns \<and> d \<noteq> c then Some told else None)" for ns
      by (induction ns) auto
    then show ?thesis unfolding own(3) .
  qed
  have "sole_owner ?w d \<longleftrightarrow> remote_is_node c \<and> d = c" for d by (auto simp: sole_owner_def own)
  then have "users_ok (set (a_nodes A)) ?w" using A by (auto simp: users_ok_def own(5) mo conns_ok_def)
  moreover have "owner_ok (described i None)" using owner_described(2)[of None i] i by simp
  ultimately show ?thesis using us c by (auto simp: local_ok_def own subs_ok_def fsms_ok_def)
qed

lemma inv_new_terminal:
  assumes i: "inv s {} A" and tm: "a_T A tm = None" "id_valid tm" and none: "\<forall>k v. a_T A k = Some v \<longrightarrow> v_ident v = v_ident w \<longrightarrow> v_hidden v"
    and w: "local_ok s {} A w" "\<not> v_hidden w"
    and bd: "if id_valid (v_binding w) then a_B A (v_binding w) = Some b \<and> w_ident b = v_ident w
      else v_binding w = default_id \<and> (\<forall>k b. a_B A k = Some b \<longrightarrow> w_ident b = v_ident w \<longrightarrow> w_hidden b)"
  shows "inv s {} (put_T tm (Some w) (if id_valid (v_binding w) then put_B (v_binding w) (Some (b\<lparr>w_terminal := tm\<rparr>)) A else A))"
    (is "inv s {} ?A")
proof -
  let ?x = "v_ident w" and ?bd = "v_binding w"
  have l: "links (T_links A) (B_links A)" "linked (T_links A) (B_links A)" and lo: "links_ok A" using i by (simp_all add: inv_def links_ok_def complete_def)
  have vb: "\<not> w_hidden b" if "a_B A k = Some b" for k b using links_okD(4)[OF lo that] by simp
  have nT: "T_links A tm = None" "\<And>i k. T_links A i \<noteq> Some (?x, False, k)" using tm(1) none by (auto simp: T_links_def tlink_def)
  have B: "if id_valid ?bd then \<exists>k. B_links A ?bd = Some (?x, False, k) else ?bd = default_id"
    using bd B_links_Some[of A ?bd b] vb[of ?bd b] by auto
  have uB: "k = ?bd" if "B_links A k = Some (?x, False, m)" for k m
    using linksD(7)[OF l(1) that, of ?bd] bd that B_links_Some[of A ?bd b] vb[of ?bd b]
    by (cases "id_valid ?bd") (auto simp: B_links_def blink_def)
  have e: "T_links ?A = (T_links A)(tm \<mapsto> (?x, False, ?bd))"
    "B_links ?A = (if id_valid ?bd then (B_links A)(?bd \<mapsto> (?x, False, tm)) else B_links A)"
    using bd vb[of ?bd b] w(2) by (auto simp: tlink_def blink_def)
  have "links (T_links ?A) (B_links ?A)" "linked (T_links ?A) (B_links ?A)"
    unfolding e using links_new_T[OF l(1) nT(1) tm(2) nT(2) B] linked_new_T[OF l(2,1) nT(1) uB] B by simp_all
  moreover have "bindings_ok {} ?A" "conns_ok ?A" using i bd unfolding inv_def bindings_ok_def by (auto simp: conns_ok_def)
  moreover have "local_ok s {} ?A v" if "a_T ?A k = Some v" for k v
  proof -
    have "local_ok s {} A v" using that i w(1) unfolding inv_def by (auto split: if_splits)
    then show ?thesis by (simp add: local_ok_def)
  qed
  ultimately show ?thesis unfolding inv_def links_ok_def complete_def by blast
qed

section \<open>The handler\<close>

definition welcome_owner ::
  "('te, 'x) node_hooks \<Rightarrow> ident \<Rightarrow> id \<Rightarrow> connection \<Rightarrow> id \<Rightarrow> bool \<Rightarrow> bool \<Rightarrow> ('te, 'x) node \<Rightarrow> ('te, 'x) node option" where
  "welcome_owner h x tm origin i terminalAdded newOwner n2 = do {
       n3 \<leftarrow> announce_terminal tm origin n2;
       (bd, n4) \<leftarrow> associate_terminal tm n3;
       n5 \<leftarrow> establish_bindings tm origin bd n4;
       (_, n6) \<leftarrow> update_state tm n5;
       n7 \<leftarrow> (if newOwner then nh_owner_added h origin tm i n6 else Some n6);
       Some (if terminalAdded then nnotify x True n7 else n7) }"

definition settle_owner ::
  "('te, 'x) node_hooks \<Rightarrow> ident \<Rightarrow> id \<Rightarrow> connection \<Rightarrow> id \<Rightarrow> bool \<Rightarrow> id option \<Rightarrow> ('te, 'x) node \<Rightarrow> ('te, 'x) node option" where
  "settle_owner h x tm origin i terminalAdded bd n4 = do {
       n5 \<leftarrow> establish_bindings tm origin bd n4;
       (_, n6) \<leftarrow> update_state tm n5;
       n7 \<leftarrow> nh_owner_added h origin tm i n6;
       Some (if terminalAdded then nnotify x True n7 else n7) }"

definition gained :: "connection \<Rightarrow> id \<Rightarrow> tview \<Rightarrow> tview \<Rightarrow> nview \<Rightarrow> node_event list" where
  "gained c i v w A = tell_binding_owners BindingEstablished
     (\<lambda>d. owned_elsewhere (with_owner c i v) d \<and> \<not> owned_elsewhere v d) (binding_owners w A)"

lemma gained_status [simp]: "filter status_event (gained c i v w A) = gained c i v w A"
  by (simp add: gained_def)

lemma gained_put [simp]: "gained c i v w (put_T tm x A) = gained c i v w A" "gained c i v w (out_A es A) = gained c i v w A"
  by (simp_all add: gained_def)

lemma binding_owners_cong: "v_binding w = v_binding w' \<Longrightarrow> binding_owners w A = binding_owners w' A"
  by (simp add: binding_owners_def)

context node_class begin

lemma wp_settle_owner:
  fixes n4 :: "('te, 'x) node"
  assumes s: "sees n4 A" and w: "a_T A tm = Some w" "w = (with_owner c i v)\<lparr>v_users := us, v_binding := bd\<rparr>"
    and new: "map_of (vowners c v) c = None" and k: "owners_kinds v"
    and st: "v_state v = STATE_JUST_CREATED \<and> unowned v \<or> v_state v = vstate v \<and> \<not> unowned v"
    and b: "id_valid bd \<Longrightarrow> \<exists>b. a_B A bd = Some b \<and> distinct_keys (w_owners b) \<and> (\<forall>d \<in> fst ` set (w_owners b). \<not> remote_is_node d)"
  defines "A' \<equiv> put_T tm (Some (w\<lparr>v_state := vstate w\<rparr>)) A"
  assumes i': "inv s {} A'"
    and Q: "\<And>n'. sees n' (out_A (gained c i v w A @ (if added then notify_out x True else [])) A') \<Longrightarrow> Q n'"
  shows "wp tot (settle_owner h x tm c i added (if id_valid bd then Some bd else None) n4) Q"
  unfolding settle_owner_def
proof (rule wp_bind, rule wp_establish_bindings[OF s w(1) _ _ new k st])
  have wl: "v_leafs w = v_leafs (with_owner c i v)" "v_nodes w = v_nodes (with_owner c i v)" "v_binding w = bd" "v_state w = v_state v"
    unfolding w(2) by simp_all
  then show "v_leafs w = v_leafs (with_owner c i v)" "v_state w = v_state v"
    "(if id_valid bd then Some bd else None) = (if id_valid (v_binding w) then Some (v_binding w) else None)" by simp_all
  show "\<exists>b. a_B A (v_binding w) = Some b \<and> distinct_keys (w_owners b) \<and> (\<forall>d \<in> fst ` set (w_owners b). \<not> remote_is_node d)"
    if "id_valid (v_binding w)" using b that wl(3) by simp
  have own: "\<not> (v_leafs w = [] \<and> v_nodes w = [])" using with_owner_simps(8)[of c i v] wl by (simp add: unowned_def)
  fix n5 :: "('te, 'x) node"
  assume "sees n5 (out_A (tell_binding_owners BindingEstablished (\<lambda>d. owned_elsewhere (with_owner c i v) d \<and> \<not> owned_elsewhere v d) (binding_owners w A)) A)"
  then have s5: "sees n5 (out_A (gained c i v w A) A)" by (simp add: gained_def)
  show "wp tot (do { (_, n6) \<leftarrow> update_state tm n5; n7 \<leftarrow> nh_owner_added h c tm i n6;
     Some (if added then nnotify x True n7 else n7) }) Q"
  proof (rule wp_bind, rule wp_update_state[OF s5])
    fix n6 :: "('te, 'x) node"
    assume "sees n6 (put_T tm (Some (w\<lparr>v_state := vstate w\<rparr>)) (out_A (gained c i v w A) A))"
    then have s6: "sees n6 (out_A (gained c i v w A) A')" by (simp add: A'_def)
    have oc: "map_of (vowners c (w\<lparr>v_state := vstate w\<rparr>)) c \<noteq> None"
      using with_owner_simps(10)[of c i v] wl(1,2) by (simp add: vowners_def split: if_splits)
    have "wp tot (nh_owner_added h c tm i n6) (\<lambda>n7. sees n7 (out_A (gained c i v w A) A'))"
      by (rule owner_added[OF s6 _ _ oc]) (use i' in \<open>simp_all add: A'_def\<close>)
    then have "wp tot (nh_owner_added h c tm i n6) (\<lambda>n7. Q (if added then nnotify x True n7 else n7))"
    proof (rule wp_mono)
      fix n7 :: "('te, 'x) node"
      assume s7: "sees n7 (out_A (gained c i v w A) A')"
      then show "Q (if added then nnotify x True n7 else n7)" using sees_nnotify[OF s7, of x True] by (auto intro!: Q)
    qed
    then show "wp tot (case (True, n6) of (_, n6) \<Rightarrow> do { n7 \<leftarrow> nh_owner_added h c tm i n6; Some (if added then nnotify x True n7 else n7) }) Q"
      by (auto intro!: wp_bind)
  qed (use w(1) own in simp_all)
qed

lemma wp_welcome_owner:
  fixes n2 :: "('te, 'x) node"
  assumes s: "sees n2 A" and v1: "a_T A tm = Some (with_owner c i v)" and new: "map_of (vowners c v) c = None" and k: "owners_kinds v"
    and st: "v_state v = STATE_JUST_CREATED \<and> v_users v = [] \<and> unowned v \<or> v_state v = vstate v \<and> \<not> unowned v"
    and d: "distinct (a_nodes A)"
    and has: "id_valid (v_binding v) \<Longrightarrow> \<exists>b. a_B A (v_binding v) = Some b \<and> w_terminal b = tm"
    and bs: "\<And>bd b. a_B A bd = Some b \<Longrightarrow> id_valid bd \<and> distinct_keys (w_owners b) \<and> (\<forall>d \<in> fst ` set (w_owners b). \<not> remote_is_node d)"
  defines "w \<equiv> \<lambda>bd. described_view (a_nodes A) c i bd v"
  assumes old: "id_valid (v_binding v) \<or> (\<forall>k b. a_B A k = Some b \<longrightarrow> w_ident b = v_ident v \<longrightarrow> w_hidden b) \<Longrightarrow>
      inv s {} (put_T tm (Some (w (v_binding v))) A)"
    and assoc: "\<And>bd b. \<not> id_valid (v_binding v) \<Longrightarrow> a_B A bd = Some b \<Longrightarrow> w_ident b = v_ident v \<Longrightarrow> \<not> w_hidden b \<Longrightarrow>
      inv s {} (put_T tm (Some (w bd)) (put_B bd (Some (b\<lparr>w_terminal := tm\<rparr>)) A))"
    and Q: "\<And>n' es A' bd. A' = put_T tm (Some (w bd)) A \<and> bd = v_binding v \<and>
          (id_valid (v_binding v) \<or> (\<forall>k b. a_B A k = Some b \<longrightarrow> w_ident b = v_ident v \<longrightarrow> w_hidden b)) \<or>
        (\<exists>b. \<not> id_valid (v_binding v) \<and> a_B A bd = Some b \<and> w_ident b = v_ident v \<and> \<not> w_hidden b \<and>
          A' = put_T tm (Some (w bd)) (put_B bd (Some (b\<lparr>w_terminal := tm\<rparr>)) A)) \<Longrightarrow> inv s {} A' \<Longrightarrow>
      filter status_event es = gained c i v (w bd) A' @ (if added then notify_out x True else []) \<Longrightarrow> sees n' (out_A es A') \<Longrightarrow> Q n'"
  shows "wp tot (welcome_owner h x tm c i added True n2) Q"
proof -
  have st1: "v_state v = STATE_JUST_CREATED \<and> v_users v = [] \<or> v_state v = vstate v \<and> \<not> unowned v"
    and st2: "v_state v = STATE_JUST_CREATED \<and> unowned v \<or> v_state v = vstate v \<and> \<not> unowned v" using st by blast+
  let ?us = "users_told (a_nodes A) c v" and ?v1 = "with_owner c i v"
  let ?u = "\<lambda>bd. ?v1\<lparr>v_users := ?us, v_binding := bd\<rparr>"
  have uw: "(?u bd)\<lparr>v_state := vstate (?u bd)\<rparr> = w bd" for bd by (simp add: w_def described_view_def)
  have gn: "gained c i v (?u bd) X = gained c i v (w bd) X" for bd X by (simp add: gained_def binding_owners_def w_def described_view_def)
  have fold: "welcome_owner h x tm c i added True n2 = do { n3 \<leftarrow> announce_terminal tm c n2;
      (bd, n4) \<leftarrow> associate_terminal tm n3; settle_owner h x tm c i added bd n4 }"
    by (simp add: welcome_owner_def settle_owner_def)
  show ?thesis unfolding fold
  proof (rule wp_bind, rule wp_announce[OF s v1 new st1 k d], rule wp_bind)
    fix n3 :: "('te, 'x) node" and es
    assume es: "filter status_event es = []" and s3: "sees n3 (out_A es (put_T tm (Some (?v1\<lparr>v_users := ?us\<rparr>)) A))"
    let ?A = "out_A es (put_T tm (Some (?v1\<lparr>v_users := ?us\<rparr>)) A)"
    have same: "?v1\<lparr>v_users := ?us\<rparr> = ?u (v_binding v)" by simp
    note same' = uw[of "v_binding v", folded same] gn[of "v_binding v", folded same]
    have vb: "v_binding (?v1\<lparr>v_users := ?us\<rparr>) = v_binding v" "v_ident (?v1\<lparr>v_users := ?us\<rparr>) = v_ident v" by simp_all
    have stay: "wp tot (settle_owner h x tm c i added (if id_valid (v_binding v) then Some (v_binding v) else None) n3) Q"
      if "id_valid (v_binding v) \<or> (\<forall>k b. a_B A k = Some b \<longrightarrow> w_ident b = v_ident v \<longrightarrow> w_hidden b)"
    proof (rule wp_settle_owner[OF s3 _ same new k st2])
      show "\<exists>b. a_B ?A (v_binding v) = Some b \<and> distinct_keys (w_owners b) \<and> (\<forall>d \<in> fst ` set (w_owners b). \<not> remote_is_node d)"
        if "id_valid (v_binding v)" using has[OF that] bs by auto
    next
      fix n' :: "('te, 'x) node"
      assume "sees n' (out_A (gained c i v (?v1\<lparr>v_users := ?us\<rparr>) ?A @ (if added then notify_out x True else []))
        (put_T tm (Some ((?v1\<lparr>v_users := ?us\<rparr>)\<lparr>v_state := vstate (?v1\<lparr>v_users := ?us\<rparr>)\<rparr>)) ?A))"
      then have "sees n' (out_A (es @ gained c i v (w (v_binding v)) (put_T tm (Some (w (v_binding v))) A) @ (if added then notify_out x True else []))
        (put_T tm (Some (w (v_binding v))) A))"
        unfolding same' by simp
      then show "Q n'" by (rule Q[rotated -1]) (use es that old[OF that] in simp_all)
    qed (use old[OF that] same'(1) in simp_all)
    show "wp tot (associate_terminal tm n3) (\<lambda>r. wp tot (case r of (bd, n4) \<Rightarrow> settle_owner h x tm c i added bd n4) Q)"
    proof (rule wp_associate_terminal[OF s3])
      show "\<exists>b. a_B ?A (v_binding (?v1\<lparr>v_users := ?us\<rparr>)) = Some b \<and> w_terminal b = tm" if "id_valid (v_binding (?v1\<lparr>v_users := ?us\<rparr>))"
        using has that by simp
      show "wp tot (case (Some (v_binding (?v1\<lparr>v_users := ?us\<rparr>)), n3) of (bd, n4) \<Rightarrow> settle_owner h x tm c i added bd n4) Q"
        if "id_valid (v_binding (?v1\<lparr>v_users := ?us\<rparr>))" using stay that by simp
      show "wp tot (case (None, n3) of (bd, n4) \<Rightarrow> settle_owner h x tm c i added bd n4) Q"
        if "\<not> id_valid (v_binding (?v1\<lparr>v_users := ?us\<rparr>))"
          "\<And>bd b. a_B ?A bd = Some b \<Longrightarrow> w_ident b = v_ident (?v1\<lparr>v_users := ?us\<rparr>) \<Longrightarrow> w_hidden b"
        using stay that by simp
      show "wp tot (case (Some bd, n4) of (bd, n4) \<Rightarrow> settle_owner h x tm c i added bd n4) Q"
        if nv: "\<not> id_valid (v_binding (?v1\<lparr>v_users := ?us\<rparr>))"
          and b: "a_B ?A bd = Some b" "w_ident b = v_ident (?v1\<lparr>v_users := ?us\<rparr>)" "\<not> w_hidden b"
          and s4: "sees n4 (put_T tm (Some (?v1\<lparr>v_users := ?us, v_binding := bd\<rparr>)) (put_B bd (Some (b\<lparr>w_terminal := tm\<rparr>)) ?A))"
        for n4 :: "('te, 'x) node" and bd b
      proof -
        let ?B = "put_B bd (Some (b\<lparr>w_terminal := tm\<rparr>)) A"
        have b': "\<not> id_valid (v_binding v)" "a_B A bd = Some b" "w_ident b = v_ident v" "\<not> w_hidden b" using nv b by simp_all
        note i' = assoc[OF b']
        have s4': "sees n4 (out_A es (put_T tm (Some (?u bd)) ?B))" using s4 by (simp add: put_B_put_T)
        have "wp tot (settle_owner h x tm c i added (if id_valid bd then Some bd else None) n4) Q"
        proof (rule wp_settle_owner[OF s4' _ refl new k st2])
          show "\<exists>y. a_B (out_A es (put_T tm (Some (?u bd)) ?B)) bd = Some y \<and> distinct_keys (w_owners y) \<and>
              (\<forall>d \<in> fst ` set (w_owners y). \<not> remote_is_node d)" using bs[OF b'(2)] by simp
          show "inv s {} (put_T tm (Some ((?u bd)\<lparr>v_state := vstate (?u bd)\<rparr>)) (out_A es (put_T tm (Some (?u bd)) ?B)))"
            using i' unfolding uw by simp
        next
          fix n' :: "('te, 'x) node"
          assume "sees n' (out_A (gained c i v (?u bd) (out_A es (put_T tm (Some (?u bd)) ?B)) @ (if added then notify_out x True else []))
            (put_T tm (Some ((?u bd)\<lparr>v_state := vstate (?u bd)\<rparr>)) (out_A es (put_T tm (Some (?u bd)) ?B))))"
          then have "sees n' (out_A (es @ gained c i v (w bd) (put_T tm (Some (w bd)) ?B) @ (if added then notify_out x True else []))
            (put_T tm (Some (w bd)) ?B))" unfolding uw gn by simp
          then show "Q n'" by (rule Q[rotated -1]) (use b' es i' in auto)
        qed simp
        then show ?thesis using bs[OF b'(2)] by simp
      qed
    qed simp
  qed
qed

lemma wp_terminal_described:
  fixes n :: "('te, 'x) node" and i :: id
  assumes ins: "ireg_insert x (new_node_terminal h) (nd_terminals n) = ((tm, fresh), r)" and s0: "sees (n\<lparr>nd_terminals := r\<rparr>) A"
    and v: "a_T A tm = Some v" and ok: "\<And>f. map_of (vowners c v) c = Some f \<Longrightarrow> owner_ok f"
  defines "fo \<equiv> map_of (vowners c v) c"
  defines "A1 \<equiv> out_A ((case fo of None \<Rightarrow> [] | Some f \<Rightarrow> [Node_Sent c (TerminalRemovedAck (m_mappedId f))]) @
      [Node_Sent c (TerminalMapping i tm)]) (put_T tm (Some (set_owners c (AList.update c (described i fo) (vowners c v)) v)) A)"
  assumes remapped: "\<And>n2. fo \<noteq> None \<Longrightarrow> sees n2 A1 \<Longrightarrow> wp tot (nh_owner_remapped h c tm i n2) Q"
    and added: "\<And>n2. fo = None \<Longrightarrow> sees n2 A1 \<Longrightarrow> wp tot (welcome_owner h x tm c i (v_state v = STATE_JUST_CREATED) True n2) Q"
  shows "wp tot (node_TerminalDescription h x i c n) Q"
  unfolding node_TerminalDescription_def Let_def ins prod.case welcome_owner_def[symmetric]
proof (rule wp_bind, rule wp_get_nt[OF s0 v], rule wp_bind, rule wp_modify_nt[OF s0 v tview_map_owners], rule wp_bind)
  fix t :: "'te node_terminal" and n1 :: "('te, 'x) node"
  let ?v = "set_owners c (ensure_fsm c (vowners c v)) v" and ?f = "described i fo"
  let ?v1 = "set_owners c (AList.update c ?f (vowners c v)) v"
  assume t: "nt_state t = v_state v" "nt_owningLeafs t = v_leafs v" "nt_owningNodes t = v_nodes v"
    and s1: "sees n1 (put_T tm (Some ?v) A)"
  note d = owner_described[of fo i, OF ok[folded fo_def]]
  have f0: "map_of (vowners c ?v) c = Some (case fo of None \<Rightarrow> fsm_init | Some f \<Rightarrow> f)" by (simp add: map_of_ensure_case fo_def)
  have outs: "outs_of (owner_out c tm i) (described_outs fo) = Some ((case fo of None \<Rightarrow> [] | Some f \<Rightarrow>
      [Node_Sent c (TerminalRemovedAck (m_mappedId f))]) @ [Node_Sent c (TerminalMapping i tm)])"
    by (simp add: described_outs_def split: option.splits)
  have ow: "map_of (nt_owners c t) c = fo" using nt_owners_view[OF t(2,3)] by (simp add: fo_def)
  show "wp tot (owner_fsm tm c i (\<lambda>f. keep (process_rcvd_description i f)) n1) (\<lambda>r. wp tot (case r of (outs, n2) \<Rightarrow>
     if id_valid (acknowledged_id outs) then do {
       t2 \<leftarrow> get_nt n2 tm;
       f \<leftarrow> map_of (nt_owners c t2) c;
       nh_owner_remapped h c tm (m_mappedId f) n2 }
     else welcome_owner h x tm c i (nt_state t = STATE_JUST_CREATED) (map_of (nt_owners c t) c = None) n2) Q)"
  proof (rule wp_owner_fsm[where call = "\<lambda>f. keep (process_rcvd_description i f)", OF s1 _ f0 d(1) outs])
    fix n2 :: "('te, 'x) node"
    assume "sees n2 (out_A ((case fo of None \<Rightarrow> [] | Some f \<Rightarrow> [Node_Sent c (TerminalRemovedAck (m_mappedId f))]) @
        [Node_Sent c (TerminalMapping i tm)]) (put_T tm (Some (set_owners c (AList.update c ?f (vowners c ?v)) ?v)) (put_T tm (Some ?v) A)))"
    then have s2: "sees n2 A1" by (simp add: A1_def)
    have v2: "a_T A1 tm = Some ?v1" by (simp add: A1_def)
    have "wp tot (do { t2 \<leftarrow> get_nt n2 tm; f \<leftarrow> map_of (nt_owners c t2) c; nh_owner_remapped h c tm (m_mappedId f) n2 }) Q" if "fo \<noteq> None"
    proof (rule wp_bind, rule wp_get_nt[OF s2 v2], rule wp_bind, rule wp_eq[where x = ?f])
      fix t2 :: "'te node_terminal"
      assume "nt_owningLeafs t2 = v_leafs ?v1" "nt_owningNodes t2 = v_nodes ?v1"
      then have "nt_owners c t2 = vowners c ?v1" by (rule nt_owners_view)
      then show "map_of (nt_owners c t2) c = Some ?f" by (simp add: map_of_alist_update)
    qed (use remapped[OF that s2] d(3) in simp)
    then show "wp tot (case (described_outs fo, n2) of (outs, n2) \<Rightarrow>
       if id_valid (acknowledged_id outs) then do { t2 \<leftarrow> get_nt n2 tm; f \<leftarrow> map_of (nt_owners c t2) c; nh_owner_remapped h c tm (m_mappedId f) n2 }
       else welcome_owner h x tm c i (nt_state t = STATE_JUST_CREATED) (map_of (nt_owners c t) c = None) n2) Q"
      using acknowledged_described[OF ok, folded fo_def] added[OF _ s2] by (auto simp: ow t fo_def)
  qed simp
qed

lemma wp_old_terminal:
  fixes n :: "('te, 'x) node"
  assumes i: "inv s {} A" and c: "c \<in> set (if remote_is_node c then a_nodes A else a_leafs A)" and j: "id_valid j"
    and ins: "ireg_insert x (new_node_terminal h) (nd_terminals n) = ((tm, fresh), r)"
    and v: "a_T A tm = Some v" "v_ident v = x" "\<not> v_hidden v" "sees (n\<lparr>nd_terminals := r\<rparr>) A"
    and remap: "\<And>n' f A'. map_of (vowners c v) c = Some f \<Longrightarrow>
      A' = put_T tm (Some (set_owners c (AList.update c (described j (Some f)) (vowners c v)) v)) A \<Longrightarrow> inv s {} A' \<Longrightarrow>
      sees n' (out_A [Node_Sent c (TerminalRemovedAck (m_mappedId f)), Node_Sent c (TerminalMapping j tm)] A') \<Longrightarrow> Q n'"
    and join: "\<And>n' es A'. map_of (vowners c v) c = None \<Longrightarrow> A' = put_T tm (Some (described_view (a_nodes A) c j (v_binding v) v)) A \<Longrightarrow>
      inv s {} A' \<Longrightarrow> filter status_event es = gained c j v v A' \<Longrightarrow> sees n' (out_A es A') \<Longrightarrow> Q n'"
  shows "wp tot (node_TerminalDescription h x j c n) Q"
proof -
  have l: "local_ok s {} A v" and lo: "links_ok A" using i v(1) by (simp_all add: inv_def)
  have fs: "fsms_ok owner_ok (remote_is_node c) (set (if remote_is_node c then a_nodes A else a_leafs A)) (vowners c v)"
    using l by (simp add: local_ok_def vowners_def)
  have ok: "owner_ok f" if "map_of (vowners c v) c = Some f" for f using fsms_okD(2)[OF fs that] by blast
  have st: "v_state v = vstate v" "\<not> unowned v" using l v(3) by (auto simp: local_ok_def unowned_def)
  have k: "owners_kinds v" using l owners_kinds_fsms unfolding local_ok_def by blast
  show ?thesis
  proof (rule wp_terminal_described[OF ins v(4,1) ok])
    let ?v = "\<lambda>fo. set_owners c (AList.update c (described j fo) (vowners c v)) v"
    fix n2 :: "('te, 'x) node"
    assume fo: "map_of (vowners c v) c \<noteq> None" and s2: "sees n2 (out_A ((case map_of (vowners c v) c of None \<Rightarrow> []
      | Some f \<Rightarrow> [Node_Sent c (TerminalRemovedAck (m_mappedId f))]) @ [Node_Sent c (TerminalMapping j tm)])
      (put_T tm (Some (?v (map_of (vowners c v) c))) A))"
    obtain f where f: "map_of (vowners c v) c = Some f" using fo by blast
    let ?es = "[Node_Sent c (TerminalRemovedAck (m_mappedId f)), Node_Sent c (TerminalMapping j tm)]"
    have s2': "sees n2 (out_A ?es (put_T tm (Some (?v (Some f))) A))" using s2 f by simp
    have "owner_ok (described j (Some f))" using owner_described(2)[of "Some f" j] ok[OF f] j by simp
    then have i': "inv s {} (put_T tm (Some (?v (Some f))) A)"
      by (intro inv_put_T[OF i v(1)] local_set_owner[OF l fo]) simp
    have "wp tot (nh_owner_remapped h c tm j n2) (\<lambda>n'. sees n' (out_A ?es (put_T tm (Some (?v (Some f))) A)))"
      by (rule owner_remapped[OF s2', where v = "?v (Some f)"]) (use i' in \<open>simp_all add: map_of_alist_update\<close>)
    then show "wp tot (nh_owner_remapped h c tm j n2) Q" by (rule wp_mono) (rule remap[OF f refl i'])
  next
    fix n2 :: "('te, 'x) node"
    assume fo: "map_of (vowners c v) c = None" and "sees n2 (out_A ((case map_of (vowners c v) c of None \<Rightarrow> []
      | Some f \<Rightarrow> [Node_Sent c (TerminalRemovedAck (m_mappedId f))]) @ [Node_Sent c (TerminalMapping j tm)])
      (put_T tm (Some (set_owners c (AList.update c (described j (map_of (vowners c v) c)) (vowners c v)) v)) A))"
    then have s2: "sees n2 (out_A [Node_Sent c (TerminalMapping j tm)] (put_T tm (Some (with_owner c j v)) A))" by (simp add: with_owner_def)
    let ?w = "described_view (a_nodes A) c j (v_binding v) v"
    have "tlink ?w = tlink v" using v(1) by (simp add: described_view_def tlink_def)
    from inv_put_T[OF i v(1) this local_described_old[OF l v(3) c j fo]] have i': "inv s {} (put_T tm (Some ?w) A)" .
    have bs: "id_valid bd \<and> distinct_keys (w_owners b) \<and> (\<forall>d \<in> fst ` set (w_owners b). \<not> remote_is_node d)" if "a_B A bd = Some b" for bd b
      using that inv_winv[OF i] links_okD(4)[OF lo that] unfolding winv_def by blast
    have no: False if "\<not> id_valid (v_binding v)" "a_B A bd = Some b" "w_ident b = v_ident v" "\<not> w_hidden b" for bd b
    proof -
      have "linked (T_links A) (B_links A)" using i by (simp add: inv_def complete_def)
      then have "v_binding v = bd" using T_links_Some[OF v(1)] B_links_Some[OF that(2)] that(3,4) v(3) unfolding linked_def by auto
      then show False using that(1) links_okD(4)[OF lo that(2)] by simp
    qed
    show "wp tot (welcome_owner h x tm c j (v_state v = STATE_JUST_CREATED) True n2) Q"
    proof (rule wp_welcome_owner[OF s2 _ fo k])
      show "\<exists>b. a_B (out_A [Node_Sent c (TerminalMapping j tm)] (put_T tm (Some (with_owner c j v)) A)) (v_binding v) = Some b \<and> w_terminal b = tm"
        if "id_valid (v_binding v)" using links_okD(3)[OF lo v(1) that] by (auto simp: blink_def)
      fix n' :: "('te, 'x) node" and es A' bd
      let ?A = "out_A [Node_Sent c (TerminalMapping j tm)] (put_T tm (Some (with_owner c j v)) A)"
      assume A': "A' = put_T tm (Some (described_view (a_nodes ?A) c j bd v)) ?A \<and> bd = v_binding v \<and>
          (id_valid (v_binding v) \<or> (\<forall>k b. a_B ?A k = Some b \<longrightarrow> w_ident b = v_ident v \<longrightarrow> w_hidden b)) \<or>
        (\<exists>b. \<not> id_valid (v_binding v) \<and> a_B ?A bd = Some b \<and> w_ident b = v_ident v \<and> \<not> w_hidden b \<and>
          A' = put_T tm (Some (described_view (a_nodes ?A) c j bd v)) (put_B bd (Some (b\<lparr>w_terminal := tm\<rparr>)) ?A))"
        and es: "filter status_event es = gained c j v (described_view (a_nodes ?A) c j bd v) A' @
          (if v_state v = STATE_JUST_CREATED then notify_out x True else [])" and s': "sees n' (out_A es A')"
      have e: "bd = v_binding v" "A' = out_A [Node_Sent c (TerminalMapping j tm)] (put_T tm (Some ?w) A)" using A' no by auto
      have g: "gained c j v ?w X = gained c j v v X" for X by (simp add: gained_def binding_owners_def described_view_def)
      show "Q n'"
        by (rule join[of "put_T tm (Some ?w) A" "[Node_Sent c (TerminalMapping j tm)] @ es", OF fo refl i'])
          (use es s' e g st vstate_known[of v] in simp_all)
    qed (use st i i' bs no in \<open>auto simp: inv_def conns_ok_def\<close>)
  qed
qed

lemma wp_new_terminal:
  fixes n :: "('te, 'x) node"
  assumes i: "inv s {} A" and c: "c \<in> set (if remote_is_node c then a_nodes A else a_leafs A)" and j: "id_valid j"
    and ins: "ireg_insert x (new_node_terminal h) (nd_terminals n) = ((tm, fresh), r)"
    and tm: "id_valid tm" "a_T A tm = None" "\<forall>k v. a_T A k = Some v \<longrightarrow> v_ident v = x \<longrightarrow> v_hidden v"
    and s0: "sees (n\<lparr>nd_terminals := r\<rparr>) (put_T tm (Some (tview_of (new_element x tm (new_node_terminal h)))) A)"
    and create: "\<And>n' es bd b A'. (if id_valid bd then a_B A bd = Some b \<and> w_ident b = x
        else bd = default_id \<and> (\<forall>k b. a_B A k = Some b \<longrightarrow> w_ident b \<noteq> x)) \<Longrightarrow>
      A' = put_T tm (Some (described_view (a_nodes A) c j bd (blank_terminal x)))
        (if id_valid bd then put_B bd (Some (b\<lparr>w_terminal := tm\<rparr>)) A else A) \<Longrightarrow> inv s {} A' \<Longrightarrow>
      filter status_event es = gained c j (blank_terminal x) (described_view (a_nodes A) c j bd (blank_terminal x)) A' @ notify_out x True \<Longrightarrow>
      sees n' (out_A es A') \<Longrightarrow> Q n'"
  shows "wp tot (node_TerminalDescription h x j c n) Q"
proof -
  let ?v = "blank_terminal x" and ?w = "\<lambda>bd. described_view (a_nodes A) c j bd (blank_terminal x)"
  have lo: "links_ok A" and co: "conns_ok A" using i by (simp_all add: inv_def)
  have bv: "tview_of (new_element x tm (new_node_terminal h)) = ?v" by (simp add: tview_of_def new_node_terminal_def blank_terminal_def)
  have e: "vowners c ?v = []" "v_state ?v = STATE_JUST_CREATED" "unowned ?v" "v_users ?v = []" "v_binding ?v = default_id" "owners_kinds ?v"
    by (simp_all add: blank_terminal_def vowners_def unowned_def owners_kinds_def)
  have bs: "id_valid bd \<and> distinct_keys (w_owners b) \<and> (\<forall>d \<in> fst ` set (w_owners b). \<not> remote_is_node d)" if "a_B A bd = Some b" for bd b
    using that inv_winv[OF i] links_okD(4)[OF lo that] unfolding winv_def by blast
  have wi: "v_ident (?w bd) = x" "v_binding (?w bd) = bd" "\<not> v_hidden (?w bd)" for bd by (simp_all add: described_view_def blank_terminal_def)
  have mk: "inv s {} (put_T tm (Some (?w bd)) (if id_valid bd then put_B bd (Some (b\<lparr>w_terminal := tm\<rparr>)) A else A))"
    if "if id_valid bd then a_B A bd = Some b \<and> w_ident b = x else bd = default_id \<and> (\<forall>k b. a_B A k = Some b \<longrightarrow> w_ident b = x \<longrightarrow> w_hidden b)"
    for bd b
    by (rule inv_new_terminal[OF i tm(2,1), where w = "?w bd" and b = b, unfolded wi])
      (use tm(3) local_described_new[OF c j co, where bd = bd and x = x] that wi in simp_all)
  have mk0: "inv s {} (put_T tm (Some (?w default_id)) A)" if "\<forall>k b. a_B A k = Some b \<longrightarrow> w_ident b = x \<longrightarrow> w_hidden b"
    using mk[of default_id undefined] that by (simp add: default_not_valid)
  have mk1: "inv s {} (put_T tm (Some (?w bd)) (put_B bd (Some (b\<lparr>w_terminal := tm\<rparr>)) A))" if "a_B A bd = Some b" "w_ident b = x" for bd b
    using mk[of bd b] bs[OF that(1)] that by simp
  have dv: "\<not> id_valid (v_binding ?v)" "v_ident ?v = x" by (simp_all add: blank_terminal_def default_not_valid)
  show ?thesis
  proof (rule wp_terminal_described[OF ins s0[unfolded bv]])
    show "a_T (put_T tm (Some ?v) A) tm = Some ?v" by simp
    fix n2 :: "('te, 'x) node"
    assume "sees n2 (out_A ((case map_of (vowners c ?v) c of None \<Rightarrow> []
      | Some f \<Rightarrow> [Node_Sent c (TerminalRemovedAck (m_mappedId f))]) @ [Node_Sent c (TerminalMapping j tm)])
      (put_T tm (Some (set_owners c (AList.update c (described j (map_of (vowners c ?v) c)) (vowners c ?v)) ?v)) (put_T tm (Some ?v) A)))"
    then have s2: "sees n2 (out_A [Node_Sent c (TerminalMapping j tm)] (put_T tm (Some (with_owner c j ?v)) A))" by (simp add: with_owner_def e)
    let ?A = "out_A [Node_Sent c (TerminalMapping j tm)] (put_T tm (Some (with_owner c j ?v)) A)"
    show "wp tot (welcome_owner h x tm c j (v_state ?v = STATE_JUST_CREATED) True n2) Q"
    proof (rule wp_welcome_owner[OF s2, of tm c j ?v])
      fix n' :: "('te, 'x) node" and es A' bd
      assume A': "A' = put_T tm (Some (described_view (a_nodes ?A) c j bd ?v)) ?A \<and> bd = v_binding ?v \<and>
          (id_valid (v_binding ?v) \<or> (\<forall>k b. a_B ?A k = Some b \<longrightarrow> w_ident b = v_ident ?v \<longrightarrow> w_hidden b)) \<or>
        (\<exists>b. \<not> id_valid (v_binding ?v) \<and> a_B ?A bd = Some b \<and> w_ident b = v_ident ?v \<and> \<not> w_hidden b \<and>
          A' = put_T tm (Some (described_view (a_nodes ?A) c j bd ?v)) (put_B bd (Some (b\<lparr>w_terminal := tm\<rparr>)) ?A))"
        and es: "filter status_event es = gained c j ?v (described_view (a_nodes ?A) c j bd ?v) A' @
          (if v_state ?v = STATE_JUST_CREATED then notify_out x True else [])" and s': "sees n' (out_A es A')"
      have vis: "\<not> w_hidden b" if "a_B A k = Some b" for k b using links_okD(4)[OF lo that] by simp
      have out: "\<exists>b A2. (if id_valid bd then a_B A bd = Some b \<and> w_ident b = x
          else bd = default_id \<and> (\<forall>k b. a_B A k = Some b \<longrightarrow> w_ident b \<noteq> x)) \<and>
        A2 = put_T tm (Some (?w bd)) (if id_valid bd then put_B bd (Some (b\<lparr>w_terminal := tm\<rparr>)) A else A) \<and>
        A' = out_A [Node_Sent c (TerminalMapping j tm)] A2"
        using A'
      proof (elim disjE exE conjE)
        assume "bd = v_binding ?v" "A' = put_T tm (Some (described_view (a_nodes ?A) c j bd ?v)) ?A"
          "\<forall>k b. a_B ?A k = Some b \<longrightarrow> w_ident b = v_ident ?v \<longrightarrow> w_hidden b"
        then show ?thesis using vis dv e(5) by (auto simp: default_not_valid)
      next
        fix b
        assume "a_B ?A bd = Some b" "w_ident b = v_ident ?v"
          "A' = put_T tm (Some (described_view (a_nodes ?A) c j bd ?v)) (put_B bd (Some (b\<lparr>w_terminal := tm\<rparr>)) ?A)"
        then show ?thesis using bs[of bd b] dv(2) by (intro exI[of _ b]) (simp add: put_B_put_T)
      qed (use dv(1) in simp)
      then obtain b A2 where b: "if id_valid bd then a_B A bd = Some b \<and> w_ident b = x
          else bd = default_id \<and> (\<forall>k b. a_B A k = Some b \<longrightarrow> w_ident b \<noteq> x)"
        and A2: "A2 = put_T tm (Some (?w bd)) (if id_valid bd then put_B bd (Some (b\<lparr>w_terminal := tm\<rparr>)) A else A)"
        and eq: "A' = out_A [Node_Sent c (TerminalMapping j tm)] A2" by blast
      have "inv s {} A2" unfolding A2 by (rule mk) (use b vis in auto)
      then show "Q n'"
        by (rule create[OF b A2, of "[Node_Sent c (TerminalMapping j tm)] @ es"]) (use es s' e eq in simp_all)
    qed (use e bs mk0 mk1 co dv in \<open>simp_all add: conns_ok_def put_B_put_T\<close>)
  qed (use e in simp_all)
qed

lemma wp_node_TerminalDescription:
  fixes n :: "('te, 'x) node"
  assumes sA: "sees n A" and i: "inv s {} A" and c: "c \<in> set (if remote_is_node c then a_nodes A else a_leafs A)" and j: "id_valid j"
    and remap: "\<And>n' tm v f A'. a_T A tm = Some v \<Longrightarrow> v_ident v = x \<Longrightarrow> \<not> v_hidden v \<Longrightarrow> map_of (vowners c v) c = Some f \<Longrightarrow>
      A' = put_T tm (Some (set_owners c (AList.update c (described j (Some f)) (vowners c v)) v)) A \<Longrightarrow> inv s {} A' \<Longrightarrow>
      sees n' (out_A [Node_Sent c (TerminalRemovedAck (m_mappedId f)), Node_Sent c (TerminalMapping j tm)] A') \<Longrightarrow> Q n'"
    and join: "\<And>n' tm v es A'. a_T A tm = Some v \<Longrightarrow> v_ident v = x \<Longrightarrow> \<not> v_hidden v \<Longrightarrow> map_of (vowners c v) c = None \<Longrightarrow>
      A' = put_T tm (Some (described_view (a_nodes A) c j (v_binding v) v)) A \<Longrightarrow>
      inv s {} A' \<Longrightarrow> filter status_event es = gained c j v v A' \<Longrightarrow> sees n' (out_A es A') \<Longrightarrow> Q n'"
    and create: "\<And>n' tm es bd b A'. a_T A tm = None \<Longrightarrow> \<forall>k v. a_T A k = Some v \<longrightarrow> v_ident v = x \<longrightarrow> v_hidden v \<Longrightarrow>
      (if id_valid bd then a_B A bd = Some b \<and> w_ident b = x else bd = default_id \<and> (\<forall>k b. a_B A k = Some b \<longrightarrow> w_ident b \<noteq> x)) \<Longrightarrow>
      A' = put_T tm (Some (described_view (a_nodes A) c j bd (blank_terminal x)))
        (if id_valid bd then put_B bd (Some (b\<lparr>w_terminal := tm\<rparr>)) A else A) \<Longrightarrow> inv s {} A' \<Longrightarrow>
      filter status_event es = gained c j (blank_terminal x) (described_view (a_nodes A) c j bd (blank_terminal x)) A' @ notify_out x True \<Longrightarrow>
      sees n' (out_A es A') \<Longrightarrow> Q n'"
  shows "wp tot (node_TerminalDescription h x j c n) Q"
proof -
  obtain tm fresh r where ins: "ireg_insert x (new_node_terminal h) (nd_terminals n) = ((tm, fresh), r)" by (metis prod.exhaust)
  have "nt_subscribers (new_node_terminal h) = []" by (simp add: new_node_terminal_def)
  note step = sees_insert_T[OF sA ins this]
  consider (old) v where "a_T A tm = Some v" "v_ident v = x" "\<not> v_hidden v" "sees (n\<lparr>nd_terminals := r\<rparr>) A"
    | (new) "id_valid tm" "a_T A tm = None" "\<forall>i v. a_T A i = Some v \<longrightarrow> v_ident v = x \<longrightarrow> v_hidden v"
      "sees (n\<lparr>nd_terminals := r\<rparr>) (put_T tm (Some (tview_of (new_element x tm (new_node_terminal h)))) A)"
    using step by (elim disjE exE conjE)
  then show ?thesis
  proof cases
    case old
    show ?thesis by (rule wp_old_terminal[OF i c j ins old]) (rule remap[OF old(1-3)] join[OF old(1-3)]; assumption)+
  next
    case new
    show ?thesis by (rule wp_new_terminal[OF i c j ins new]) (rule create[OF new(2,3)]; assumption)
  qed
qed

end

end
