(* ===== verification/Node_Connections.thy ===== *)
theory Node_Connections
  imports Node_Descriptions
begin

text \<open>
  The start and the end of a connection keep the invariant: a new node is told about every visible
  terminal, and nothing refers to a connection after its end.
\<close>

section \<open>The start of a connection\<close>

definition tell_terminals :: "connection \<Rightarrow> id set \<Rightarrow> nview \<Rightarrow> nview" where
  "tell_terminals c S A = A\<lparr>a_T := (\<lambda>i. map_option (\<lambda>v. if i \<in> S \<and> \<not> v_hidden v
     then v\<lparr>v_users := AList.update c told (v_users v)\<rparr> else v) (a_T A i))\<rparr>"

lemma tell_terminals_simps [simp]: "a_leafs (tell_terminals c S A) = a_leafs A" "a_nodes (tell_terminals c S A) = a_nodes A"
  "a_B (tell_terminals c S A) = a_B A" "a_out (tell_terminals c S A) = a_out A" "tell_terminals c {} A = A"
  "a_T (tell_terminals c S A) i = map_option (\<lambda>v. if i \<in> S \<and> \<not> v_hidden v then v\<lparr>v_users := AList.update c told (v_users v)\<rparr> else v) (a_T A i)"
  by (simp_all add: tell_terminals_def option.map_ident)

lemma tell_terminals_insert:
  assumes "a_T A tm = Some v" "tm \<notin> S"
  shows "tell_terminals c (insert tm S) A = (if v_hidden v then tell_terminals c S A
    else put_T tm (Some (v\<lparr>v_users := AList.update c told (v_users v)\<rparr>)) (tell_terminals c S A))"
proof (cases "v_hidden v")
  case True
  have "a_T (tell_terminals c (insert tm S) A) = a_T (tell_terminals c S A)"
  proof
    fix i
    show "a_T (tell_terminals c (insert tm S) A) i = a_T (tell_terminals c S A) i"
      using assms True by (cases "a_T A i"; cases "i = tm") auto
  qed
  then have "tell_terminals c (insert tm S) A = tell_terminals c S A" by (simp add: tell_terminals_def)
  then show ?thesis using True by simp
next
  case False
  have "a_T (tell_terminals c (insert tm S) A) = (a_T (tell_terminals c S A))(tm \<mapsto> v\<lparr>v_users := AList.update c told (v_users v)\<rparr>)"
  proof
    fix i
    show "a_T (tell_terminals c (insert tm S) A) i = ((a_T (tell_terminals c S A))(tm \<mapsto> v\<lparr>v_users := AList.update c told (v_users v)\<rparr>)) i"
      using assms False by (cases "a_T A i"; cases "i = tm") auto
  qed
  then have "tell_terminals c (insert tm S) A = put_T tm (Some (v\<lparr>v_users := AList.update c told (v_users v)\<rparr>)) (tell_terminals c S A)"
    by (simp add: tell_terminals_def put_T_def)
  then show ?thesis using False by simp
qed

definition with_conn :: "connection \<Rightarrow> nview \<Rightarrow> nview" where
  "with_conn c A = (if remote_is_node c then A\<lparr>a_nodes := a_nodes A @ [c]\<rparr> else A\<lparr>a_leafs := a_leafs A @ [c]\<rparr>)"

lemma with_conn_simps [simp]: "a_T (with_conn c A) = a_T A" "a_B (with_conn c A) = a_B A" "T_links (with_conn c A) = T_links A"
  "B_links (with_conn c A) = B_links A"
  by (auto simp: with_conn_def T_links_def B_links_def)

lemma with_conn_out [simp]: "with_conn c (out_A es A) = out_A es (with_conn c A)"
  by (simp add: with_conn_def out_A_def)

lemma sees_with_conn:
  assumes "sees n A"
  shows "remote_is_node c \<Longrightarrow> sees (n\<lparr>nd_nodeConnections := nd_nodeConnections n @ [c]\<rparr>) (with_conn c A)"
    and "\<not> remote_is_node c \<Longrightarrow> sees (n\<lparr>nd_leafConnections := nd_leafConnections n @ [c]\<rparr>) (with_conn c A)"
  using assms by (auto simp: sees_def view_def with_conn_def)

lemma T_links_tell [simp]: "T_links (tell_terminals c S A) = T_links A" "B_links (tell_terminals c S A) = B_links A"
  by (auto simp: T_links_def B_links_def option.map_comp comp_def tlink_def fun_eq_iff intro!: option.map_cong)

lemma inv_started_leaf:
  assumes i: "inv s {} A" and c: "\<not> remote_is_node c" "c \<notin> set (a_leafs A)"
  shows "inv s {} (with_conn c A)"
proof -
  have e: "a_leafs (with_conn c A) = a_leafs A @ [c]" "a_nodes (with_conn c A) = a_nodes A" using c(1) by (simp_all add: with_conn_def)
  have "local_ok s {} (with_conn c A) v" if "local_ok s {} A v" for v
    using that fsms_ok_mono[of owner_ok False "set (a_leafs A)" "v_leafs v" "set (a_leafs A @ [c])"] by (auto simp: local_ok_def e)
  moreover have "fsms_ok owner_ok False (set (a_leafs A @ [c])) m" if "fsms_ok owner_ok False (set (a_leafs A)) m" for m
    by (rule fsms_ok_mono[OF that]) auto
  ultimately show ?thesis using i c unfolding inv_def links_ok_def complete_def bindings_ok_def conns_ok_def with_conn_simps e Un_empty_right
    by auto
qed

lemma local_started_node:
  assumes l: "local_ok s {} A v" and c: "remote_is_node c" "c \<notin> set (a_nodes A)"
  shows "local_ok s {} (with_conn c A) (if \<not> v_hidden v then v\<lparr>v_users := AList.update c told (v_users v)\<rparr> else v)"
proof -
  let ?us = "AList.update c told (v_users v)" and ?N = "set (a_nodes A @ [c])"
  have e: "a_leafs (with_conn c A) = a_leafs A" "a_nodes (with_conn c A) = a_nodes A @ [c]" using c(1) by (simp_all add: with_conn_def)
  have l': "fsms_ok owner_ok True (set (a_nodes A)) (v_nodes v)" "fsms_ok user_ok True (set (a_nodes A)) (v_users v)"
    "users_ok (set (a_nodes A)) v" "subs_ok s v" using l by (simp_all add: local_ok_def)
  have sub: "set (a_nodes A) \<subseteq> ?N" by auto
  have us: "fsms_ok user_ok True ?N (v_users v)" "fsms_ok owner_ok True ?N (v_nodes v)"
    using fsms_ok_mono[OF l'(2) sub] fsms_ok_mono[OF l'(1) sub] .
  have us2: "fsms_ok user_ok True ?N ?us" by (rule fsms_ok_update[OF us(1)]) (use c told_ok in simp_all)
  have mo: "map_of ?us d = (if d = c then Some told else map_of (v_users v) d)" for d by (simp add: map_of_alist_update)
  have new: "map_of (v_users v) c = None" using fsms_okD(3)[OF l'(2), of c] c(2) by (auto simp: map_of_eq_None_iff)
  have ns: "\<not> sole_owner v c"
  proof
    assume "sole_owner v c"
    then have "c \<in> fst ` set (v_nodes v)" unfolding sole_owner_def by (metis list.set_intros(1) list.set_map)
    then show False using fsms_okD(3)[OF l'(1)] c(2) by blast
  qed
  have "subs_ok s (v\<lparr>v_users := ?us\<rparr>)"
  proof (rule subs_ok_users[OF l'(4)])
    show "map_of ?us d = map_of (v_users v) d" if "d \<in> fst ` set (v_subs v)" for d
      using that l'(4) new unfolding subs_ok_def by (auto simp: mo)
  qed
  moreover have "users_ok ?N (if \<not> v_hidden v then v\<lparr>v_users := ?us\<rparr> else v)"
    using l'(3) ns unfolding users_ok_def by (auto simp: mo)
  ultimately show ?thesis using l us us2 l'(4) unfolding local_ok_def e by (cases "v_hidden v") simp_all
qed

lemma inv_started_node:
  assumes i: "inv s {} A" and c: "remote_is_node c" "c \<notin> set (a_nodes A)" and S: "\<And>tm. a_T A tm \<noteq> None \<Longrightarrow> tm \<in> S"
  shows "inv s {} (with_conn c (tell_terminals c S A))"
proof -
  let ?A = "tell_terminals c S A"
  have e: "a_leafs (with_conn c ?A) = a_leafs A" "a_nodes (with_conn c ?A) = a_nodes A @ [c]"
    "a_leafs (with_conn c A) = a_leafs A" "a_nodes (with_conn c A) = a_nodes A @ [c]" using c(1) by (simp_all add: with_conn_def)
  have "local_ok s {} (with_conn c ?A) w" if w: "a_T ?A tm = Some w" for tm w
  proof -
    obtain v where v: "a_T A tm = Some v" "w = (if \<not> v_hidden v then v\<lparr>v_users := AList.update c told (v_users v)\<rparr> else v)"
      using w S[of tm] by (cases "a_T A tm") auto
    have "local_ok s {} A v" using i v(1) by (simp add: inv_def)
    from local_started_node[OF this c] show ?thesis unfolding v(2) local_ok_def e .
  qed
  moreover have "conns_ok (with_conn c ?A)" using i c unfolding inv_def conns_ok_def e by auto
  ultimately show ?thesis using i unfolding inv_def links_ok_def complete_def bindings_ok_def by (simp add: e)
qed

lemma wp_node_connection_started:
  fixes n :: "('te, 'x) node"
  assumes sA: "sees n A" and i: "inv s {} A" and c: "c \<notin> set (if remote_is_node c then a_nodes A else a_leafs A)"
    and Q: "\<And>n' es A'. inv s {} A' \<Longrightarrow> a_leafs A' = (if remote_is_node c then a_leafs A else a_leafs A @ [c]) \<Longrightarrow>
      a_nodes A' = (if remote_is_node c then a_nodes A @ [c] else a_nodes A) \<Longrightarrow> filter status_event es = [] \<Longrightarrow> sees n' (out_A es A') \<Longrightarrow> Q n'"
  shows "wp tot (node_connection_started c n) Q"
proof (cases "remote_is_node c")
  case False
  then have leafs: "c \<notin> set (a_leafs A)" using c by simp
  have "sees (n\<lparr>nd_leafConnections := nd_leafConnections n @ [c]\<rparr>) (out_A [] (with_conn c A))"
    using sees_with_conn(2)[OF sA False] by simp
  then show ?thesis using Q[OF inv_started_leaf[OF i False leafs], of "[]"] False leafs seesD(3)[OF sA]
    by (simp add: node_connection_started_def with_conn_def)
next
  case True
  then have nodes: "c \<notin> set (a_nodes A)" using c by simp
  let ?ids = "ireg_ids (nd_terminals n)"
  let ?body = "\<lambda>tm n. do {
         e \<leftarrow> find_id (nd_terminals n) tm;
         if \<not> el_hidden e then do {
           yassert (map_of (nt_usingNodes (el_data e)) c = None);
           reset_user tm c n }
         else Some n }"
  have all: "tm \<in> set ?ids \<longleftrightarrow> a_T A tm \<noteq> None" for tm
    using set_ireg_ids[OF seesD(1)[OF sA], of tm] seesD(5)[OF sA, of tm, symmetric] by (cases "find_id (nd_terminals n) tm") auto
  have fresh: "map_of (v_users v) c = None" if "a_T A tm = Some v" for tm v
  proof -
    have "fsms_ok user_ok True (set (a_nodes A)) (v_users v)" using i that by (simp add: inv_def local_ok_def)
    from fsms_okD(3)[OF this, of c] nodes show ?thesis by (auto simp: map_of_eq_None_iff)
  qed
  define P where "P = (\<lambda>ys (u :: ('te, 'x) node). \<exists>es. filter status_event es = [] \<and> distinct ys \<and> set ys \<subseteq> set ?ids \<and>
    sees u (out_A es (tell_terminals c (set ?ids - set ys) A)))"
  have "wp tot (for_each ?ids ?body n) (\<lambda>n1. \<exists>es. filter status_event es = [] \<and> sees n1 (out_A es (tell_terminals c (set ?ids) A)))"
  proof (rule wp_for_each[where P = P])
    show "P ?ids n" using sA sorted_ireg_ids[OF seesD(1)[OF sA]]
      by (auto simp: P_def strict_sorted_iff intro!: exI[of _ "[]"])
    fix tm ys and u :: "('te, 'x) node"
    assume "P (tm # ys) u" "set (tm # ys) \<subseteq> set ?ids"
    then obtain es where es: "filter status_event es = []" "distinct (tm # ys)" "set (tm # ys) \<subseteq> set ?ids"
      "sees u (out_A es (tell_terminals c (set ?ids - set (tm # ys)) A))" unfolding P_def by blast
    let ?A = "out_A es (tell_terminals c (set ?ids - set (tm # ys)) A)"
    obtain v where v: "a_T A tm = Some v" using all[of tm] es(3) by auto
    then have vA: "a_T ?A tm = Some v" by simp
    have ins: "set ?ids - set ys = insert tm (set ?ids - set (tm # ys))" using es(2,3) by auto
    have tt: "tell_terminals c (set ?ids - set ys) A = (if v_hidden v then tell_terminals c (set ?ids - set (tm # ys)) A
      else put_T tm (Some (v\<lparr>v_users := AList.update c told (v_users v)\<rparr>)) (tell_terminals c (set ?ids - set (tm # ys)) A))"
      unfolding ins by (rule tell_terminals_insert[OF v]) simp
    show "wp tot (?body tm u) (P ys)"
    proof (rule wp_bind, rule wp_find_nt[OF es(4) vA])
      fix e :: "'te node_terminal element"
      assume e: "el_hidden e = v_hidden v" "nt_usingNodes (el_data e) = v_users v"
      have "wp tot (reset_user tm c u) (P ys)" if "\<not> v_hidden v"
        by (rule wp_reset_user[OF es(4) vA]) (use es that tt in \<open>auto simp: P_def intro!: exI[of _ "es @ [Node_Sent c (TerminalDescription (v_ident v) tm)]"]\<close>)
      then show "wp tot (if \<not> el_hidden e then do { yassert (map_of (nt_usingNodes (el_data e)) c = None); reset_user tm c u } else Some u) (P ys)"
        using es tt fresh[OF v] by (auto simp: e P_def)
    qed
  qed (auto simp: P_def)
  then show ?thesis
    unfolding node_connection_started_def if_P[OF True]
  proof (rule wp_bind[OF wp_mono], elim exE conjE)
    fix n1 :: "('te, 'x) node" and es
    assume es: "filter status_event es = []" and s1: "sees n1 (out_A es (tell_terminals c (set ?ids) A))"
    let ?A = "with_conn c (tell_terminals c (set ?ids) A)"
    have nn: "nd_nodeConnections n1 = a_nodes A" using seesD(4)[OF s1] by simp
    have s2: "sees (n1\<lparr>nd_nodeConnections := nd_nodeConnections n1 @ [c]\<rparr>) (out_A es ?A)"
      using sees_with_conn(1)[OF s1 True] by simp
    have "inv s {} ?A" by (rule inv_started_node[OF i True nodes]) (use all in blast)
    from Q[OF this _ _ es s2] show "wp tot (do { yassert (c \<notin> set (nd_nodeConnections n1));
       Some (n1\<lparr>nd_nodeConnections := nd_nodeConnections n1 @ [c]\<rparr>) }) Q" using nn nodes True by (simp add: with_conn_def)
  qed
qed

section \<open>The end of a connection\<close>

definition without_conn :: "connection \<Rightarrow> nview \<Rightarrow> nview" where
  "without_conn c A = (if remote_is_node c then A\<lparr>a_nodes := remove1 c (a_nodes A)\<rparr> else A\<lparr>a_leafs := remove1 c (a_leafs A)\<rparr>)"

lemma without_conn_simps [simp]: "a_T (without_conn c A) = a_T A" "a_B (without_conn c A) = a_B A"
  "T_links (without_conn c A) = T_links A" "B_links (without_conn c A) = B_links A"
  by (auto simp: without_conn_def T_links_def B_links_def)

lemma without_conn_sets:
  assumes "conns_ok A"
  shows "set (a_nodes (without_conn c A)) = set (a_nodes A) - {c}" "set (a_leafs (without_conn c A)) = set (a_leafs A) - {c}"
    "conns_ok (without_conn c A)"
  using assms by (auto simp: without_conn_def conns_ok_def set_remove1_eq)

lemma inv_without_conn:
  assumes i: "inv s {} A"
  shows "inv s {c} (without_conn c A)"
proof -
  have co: "conns_ok A" using i by (simp add: inv_def)
  note e = without_conn_sets[OF co, of c]
  have mono: "fsms_ok P k (set (a_leafs (without_conn c A)) \<union> {c}) m" if "fsms_ok P k (set (a_leafs A)) m" for P k m
    by (rule fsms_ok_mono[OF that]) (auto simp: e)
  have mono': "fsms_ok P k (set (a_nodes (without_conn c A)) \<union> {c}) m" if "fsms_ok P k (set (a_nodes A)) m" for P k m
    by (rule fsms_ok_mono[OF that]) (auto simp: e)
  have "local_ok s {c} (without_conn c A) v" if "local_ok s {} A v" for v
    using that mono mono' unfolding local_ok_def users_ok_def by (simp add: e(1))
  then show ?thesis using i mono e(3) unfolding inv_def links_ok_def complete_def bindings_ok_def by simp
qed

text \<open>An entry that does not refer to the connection.\<close>

definition clean :: "connection \<Rightarrow> tview \<Rightarrow> bool" where
  "clean c v \<longleftrightarrow> c \<notin> fst ` set (v_leafs v) \<and> c \<notin> fst ` set (v_nodes v) \<and> c \<notin> fst ` set (v_users v)"

lemma fsms_ok_clean: "fsms_ok P k (insert c C) m \<Longrightarrow> c \<notin> fst ` set m \<Longrightarrow> fsms_ok P k C m"
  using fsms_ok_delete_gone[of P k c C m] by (simp add: delete_idem)

lemma inv_clean:
  assumes i: "inv s {c} A" and T: "\<And>tm v. a_T A tm = Some v \<Longrightarrow> clean c v"
    and B: "\<And>bd b. a_B A bd = Some b \<Longrightarrow> c \<notin> fst ` set (w_owners b)"
  shows "inv s {} A"
proof -
  have "local_ok s {} A v" if "a_T A tm = Some v" for tm v
  proof -
    have "local_ok s {c} A v" using i that by (simp add: inv_def)
    then show ?thesis using T[OF that] fsms_ok_clean[of owner_ok False c "set (a_leafs A)" "v_leafs v"]
        fsms_ok_clean[of owner_ok True c "set (a_nodes A)" "v_nodes v"] fsms_ok_clean[of user_ok True c "set (a_nodes A)" "v_users v"]
      by (simp add: local_ok_def clean_def)
  qed
  moreover have "bindings_ok {} A"
    unfolding bindings_ok_def
  proof (intro allI impI)
    fix bd b
    assume b: "a_B A bd = Some b"
    have "w_owners b \<noteq> [] \<and> fsms_ok owner_ok False (insert c (set (a_leafs A))) (w_owners b)"
      using i b by (simp add: inv_def bindings_ok_def)
    then show "w_owners b \<noteq> [] \<and> fsms_ok owner_ok False (set (a_leafs A) \<union> {}) (w_owners b)"
      using fsms_ok_clean[of owner_ok False c "set (a_leafs A)" "w_owners b"] B[OF b] by simp
  qed
  ultimately show ?thesis using i unfolding inv_def by blast
qed

lemma local_drop_user:
  assumes l: "local_ok s gone A v" and c: "c \<notin> set (a_nodes A)" and us: "v_hidden v \<longrightarrow> AList.delete c (v_users v) \<noteq> []"
  shows "local_ok s gone A (v\<lparr>v_users := AList.delete c (v_users v), v_subs := AList.delete c (v_subs v)\<rparr>)"
proof -
  let ?us = "AList.delete c (v_users v)" and ?sb = "AList.delete c (v_subs v)"
  have uo: "users_ok (set (a_nodes A)) v" and so: "subs_ok s v" and fs: "fsms_ok user_ok True (set (a_nodes A) \<union> gone) (v_users v)"
    using l by (simp_all add: local_ok_def)
  have sub: "set ?us \<subseteq> set (v_users v)" "set ?sb \<subseteq> set (v_subs v)" "c \<notin> fst ` set ?sb" by (auto simp: AList.delete_eq)
  have mo: "map_of ?us d = (if d = c then None else map_of (v_users v) d)" for d by (simp add: delete_conv')
  have "users_ok (set (a_nodes A)) (v\<lparr>v_users := ?us, v_subs := ?sb\<rparr>)"
    using uo us sub(1) c unfolding users_ok_def by (auto simp: mo split: if_splits)
  moreover have "subs_ok s (v\<lparr>v_subs := ?sb\<rparr>)"
    using so sub(2) distinct_keys_delete[of "v_subs v" c] unfolding subs_ok_def by auto
  then have "subs_ok s (v\<lparr>v_subs := ?sb, v_users := ?us\<rparr>)"
    by (rule subs_ok_users) (use sub(3) in \<open>auto simp: mo\<close>)
  then have "subs_ok s (v\<lparr>v_users := ?us, v_subs := ?sb\<rparr>)" by (simp add: subs_ok_def)
  ultimately show ?thesis using l fsms_ok_delete[OF fs] by (simp add: local_ok_def vstate_def)
qed

lemma keys_users_after: "fst ` set (users_after v) = fst ` set (v_users v)"
proof -
  have "map fst (users_after v) = map fst (v_users v)" by (auto simp: users_after_def tell_user_def)
  then show ?thesis by (metis set_map)
qed

lemma clean_after_removal:
  assumes k: "owners_kinds v" and us: "c \<notin> fst ` set (v_users v)"
    and x: "a_T (after_removal tm (without_owner c v) A) tm = Some x"
  shows "clean c x"
proof -
  let ?v = "without_owner c v"
  have "c \<notin> fst ` set (v_leafs ?v)" "c \<notin> fst ` set (v_nodes ?v)"
    using k unfolding without_owner_maps owners_kinds_def by (auto simp only: fst_delete split: if_splits)
  moreover have "c \<notin> fst ` set (users_after ?v)" using us keys_users_after[of ?v] by simp
  ultimately show ?thesis using x unfolding after_removal_def clean_def by (auto split: if_splits)
qed

lemma after_removal_others:
  "i \<noteq> tm \<Longrightarrow> a_T (after_removal tm v A) i = a_T A i" "a_leafs (after_removal tm v A) = a_leafs A" "a_nodes (after_removal tm v A) = a_nodes A"
  by (simp_all add: after_removal_def)

lemma after_removal_owners:
  assumes "a_B (after_removal tm v A) bd = Some b" "id_valid (v_binding v) \<Longrightarrow> a_B A (v_binding v) \<noteq> None"
  shows "\<exists>b'. a_B A bd = Some b' \<and> w_owners b' = w_owners b"
  using assms by (auto simp: after_removal_def unbind_def split: if_splits)

context node_class begin

text \<open>The first loop: the bindings the connection owned.\<close>

lemma wp_remove_binding_owner_of_connection:
  fixes n :: "('te, 'x) node"
  assumes sA: "sees n A" and i: "inv s gone A" and b: "a_B A bd = Some b"
    and Q: "\<And>n' A'. inv s gone A' \<Longrightarrow> a_leafs A' = a_leafs A \<Longrightarrow> a_nodes A' = a_nodes A \<Longrightarrow>
      (\<And>k. k \<noteq> bd \<Longrightarrow> a_B A' k = a_B A k) \<Longrightarrow> (\<And>x. a_B A' bd = Some x \<Longrightarrow> c \<notin> fst ` set (w_owners x)) \<Longrightarrow> sees n' A' \<Longrightarrow> Q n'"
  shows "wp tot (remove_binding_owner_of_connection h c bd n) Q"
proof -
  have ow: "fsms_ok owner_ok False (set (a_leafs A) \<union> gone) (w_owners b)" "w_owners b \<noteq> []"
    using i b by (auto simp: inv_def bindings_ok_def)
  show ?thesis unfolding remove_binding_owner_of_connection_def
  proof (rule wp_bind, rule wp_get_nb[OF sA b])
    fix t :: node_binding
    assume t: "nb_owningLeafs t = w_owners b"
    have stay: "wp tot (do { b1 \<leftarrow> get_nb n bd; if nb_owningLeafs b1 = [] then do { n2 \<leftarrow> disassociate_binding bd n; erase_nb bd n2 } else Some n }) Q"
      if no: "map_of (w_owners b) c = None"
      by (rule wp_bind, rule wp_get_nb[OF sA b]) (use no b ow(2) Q[OF i refl refl refl _ sA] in \<open>auto simp: map_of_eq_None_iff\<close>)
    have lose: "wp tot (do { n2 \<leftarrow> modify_nb bd (\<lambda>b. b\<lparr>nb_owningLeafs := AList.delete c (nb_owningLeafs b)\<rparr>) n;
         n3 \<leftarrow> nh_binding_owner_removed h c bd n2;
         b3 \<leftarrow> get_nb n3 bd;
         if nb_owningLeafs b3 = [] then do { n4 \<leftarrow> disassociate_binding bd n3; erase_nb bd n4 } else Some n3 }) Q"
      if own: "map_of (w_owners b) c \<noteq> None"
    proof (rule wp_lose_binding_owner[OF sA inv_winv[OF i] b])
      show "\<not> remote_is_node c" using own fsms_okD(2)[OF ow(1), of c] by auto
      fix n' :: "('te, 'x) node"
      assume s': "sees n' (after_unbinding bd c b A)"
      show "Q n'"
      proof (rule Q[OF inv_after_unbinding[OF i b] _ _ _ _ s'])
        show "a_leafs (after_unbinding bd c b A) = a_leafs A" "a_nodes (after_unbinding bd c b A) = a_nodes A" by (simp_all add: after_unbinding_def)
        show "a_B (after_unbinding bd c b A) k = a_B A k" if "k \<noteq> bd" for k using that by (simp add: after_unbinding_def)
        show "c \<notin> fst ` set (w_owners x)" if "a_B (after_unbinding bd c b A) bd = Some x" for x
        proof -
          have "w_owners x = AList.delete c (w_owners b)" using that by (auto simp: after_unbinding_def split: if_splits)
          then show ?thesis by (simp only: fst_delete) simp
        qed
      qed
    qed
    show "wp tot (do {
       n1 \<leftarrow> (if map_of (nb_owningLeafs t) c \<noteq> None then do {
           n' \<leftarrow> modify_nb bd (\<lambda>b. b\<lparr>nb_owningLeafs := AList.delete c (nb_owningLeafs b)\<rparr>) n;
           nh_binding_owner_removed h c bd n' } else Some n);
       b1 \<leftarrow> get_nb n1 bd;
       if nb_owningLeafs b1 = [] then do { n2 \<leftarrow> disassociate_binding bd n1; erase_nb bd n2 } else Some n1 }) Q"
      unfolding t using stay lose by (cases "map_of (w_owners b) c = None") simp_all
  qed
qed

text \<open>The second loop: the terminals that refer to the connection.\<close>

lemma wp_remove_lost_owner:
  fixes n :: "('te, 'x) node"
  assumes sA: "sees n A" and i: "inv s {c} A" and v: "a_T A tm = Some v" and us: "c \<notin> fst ` set (v_users v)"
    and Q: "\<And>n' es A'. inv s {c} A' \<Longrightarrow> a_leafs A' = a_leafs A \<Longrightarrow> a_nodes A' = a_nodes A \<Longrightarrow>
      (\<And>k. k \<noteq> tm \<Longrightarrow> a_T A' k = a_T A k) \<Longrightarrow> (\<And>x. a_T A' tm = Some x \<Longrightarrow> clean c x) \<Longrightarrow>
      (\<And>bd x. a_B A' bd = Some x \<Longrightarrow> \<exists>x'. a_B A bd = Some x' \<and> w_owners x' = w_owners x) \<Longrightarrow> sees n' (out_A es A') \<Longrightarrow> Q n'"
  shows "wp tot (remove_terminal_owner h tm c True n) Q"
proof -
  have l: "local_ok s {c} A v" and lo: "links_ok A" using i v by (simp_all add: inv_def)
  have k: "owners_kinds v" using l owners_kinds_fsms unfolding local_ok_def by blast
  have stay: "Q n" if "map_of (vowners c v) c = None"
  proof (rule Q[of A n "[]"])
    have "c \<notin> fst ` set (v_leafs v)" "c \<notin> fst ` set (v_nodes v)"
      using that k unfolding owners_kinds_def vowners_def map_of_eq_None_iff by (auto split: if_splits)
    then show "clean c x" if "a_T A tm = Some x" for x using that v us by (simp add: clean_def)
  qed (use i sA in auto)
  have lose: "wp tot (do { n2 \<leftarrow> modify_nt tm (map_owners c (AList.delete c)) n; n3 \<leftarrow> nh_owner_removed h c tm n2;
      after_owner_removed h c tm n3 }) Q" if own: "map_of (vowners c v) c \<noteq> None"
  proof -
    have vis: "\<not> v_hidden v" using l own by (auto simp: local_ok_def vowners_def split: if_splits)
    show ?thesis
    proof (rule wp_lose_owner[OF sA inv_removable[OF i v vis] subset_refl own])
      fix n' :: "('te, 'x) node" and es
      let ?A = "after_removal tm (without_owner c v) A"
      assume i': "inv s {c} ?A" and s': "sees n' (out_A es ?A)"
      have bd: "a_B A (v_binding (without_owner c v)) \<noteq> None" if "id_valid (v_binding (without_owner c v))"
        using links_okD(3)[OF lo v] that by auto
      show "Q n'"
        by (rule Q[OF i' after_removal_others(2,3) after_removal_others(1) clean_after_removal[OF k us] after_removal_owners[OF _ bd] s'])
    qed
  qed
  show ?thesis unfolding remove_terminal_owner_def
  proof (rule wp_bind, rule wp_get_nt[OF sA v])
    fix t :: "'te node_terminal"
    assume "nt_owningLeafs t = v_leafs v" "nt_owningNodes t = v_nodes v"
    then have t: "nt_owners c t = vowners c v" by (rule nt_owners_view)
    show "wp tot (if True \<and> map_of (nt_owners c t) c = None then Some n
     else do {
       (stillOwned, n1) \<leftarrow> (if True then Some (False, n)
         else do { (outs, n1) \<leftarrow> owner_fsm tm c default_id process_rcvd_removed n;
           Some (\<forall>out \<in> set outs. \<forall>b. out \<noteq> MappStChanged b, n1) });
       if stillOwned then Some n1
       else do {
         n2 \<leftarrow> modify_nt tm (map_owners c (AList.delete c)) n1;
         n3 \<leftarrow> nh_owner_removed h c tm n2;
         after_owner_removed h c tm n3 } }) Q"
      unfolding t using stay lose by (cases "map_of (vowners c v) c = None") auto
  qed
qed

lemma wp_remove_connection_from_terminal:
  fixes n :: "('te, 'x) node"
  assumes sA: "sees n A" and i: "inv s {c} A" and v: "a_T A tm = Some v" and c: "c \<notin> set (a_nodes A)"
    and Q: "\<And>n' es A'. inv s {c} A' \<Longrightarrow> a_leafs A' = a_leafs A \<Longrightarrow> a_nodes A' = a_nodes A \<Longrightarrow>
      (\<And>k. k \<noteq> tm \<Longrightarrow> a_T A' k = a_T A k) \<Longrightarrow> (\<And>x. a_T A' tm = Some x \<Longrightarrow> clean c x) \<Longrightarrow>
      (\<And>bd x. a_B A' bd = Some x \<Longrightarrow> \<exists>x'. a_B A bd = Some x' \<and> w_owners x' = w_owners x) \<Longrightarrow> sees n' (out_A es A') \<Longrightarrow> Q n'"
  shows "wp tot (remove_connection_from_terminal h c tm n) Q"
proof -
  let ?w = "v\<lparr>v_users := AList.delete c (v_users v)\<rparr>"
  let ?x = "v\<lparr>v_users := AList.delete c (v_users v), v_subs := AList.delete c (v_subs v)\<rparr>"
  have l: "local_ok s {c} A v" and lo: "links_ok A" using i v by (simp_all add: inv_def)
  then have subs: "subs_ok s v" and st: "v_state v = vstate v" and hid: "v_hidden v \<longleftrightarrow> v_leafs v = [] \<and> v_nodes v = []"
    by (simp_all add: local_ok_def)
  have k: "owners_kinds v" using l owners_kinds_fsms unfolding local_ok_def by blast
  have "v_users ?x = AList.delete c (v_users v)" by simp
  then have cu: "c \<notin> fst ` set (v_users ?x)" by (simp only: fst_delete) simp
  have winv: "winv (put_T tm (Some ?w) A)" by (rule winv_put_T[OF inv_winv[OF i] v]) (use subs in \<open>simp_all add: subs_ok_def\<close>)
  show ?thesis unfolding remove_connection_from_terminal_def
  proof (rule wp_bind, rule wp_modify_nt[OF sA v tview_map_users], rule wp_bind)
    fix n1 :: "('te, 'x) node"
    assume s1: "sees n1 (put_T tm (Some ?w) A)"
    have "wp tot (nh_user_removed h c tm n1) (\<lambda>n2. sees n2 (put_T tm (Some ?x) A))"
      using user_removed[OF s1 winv, where v = ?w and c = c and tm = tm] subs by (simp add: subs_ok_def delete_conv')
    then show "wp tot (nh_user_removed h c tm n1) (\<lambda>n2. wp tot (do { (alive, n3) \<leftarrow> update_state tm n2;
        if alive then remove_terminal_owner h tm c True n3 else Some n3 }) Q)"
    proof (rule wp_mono)
      fix n2 :: "('te, 'x) node"
      assume s2: "sees n2 (put_T tm (Some ?x) A)"
      show "wp tot (do { (alive, n3) \<leftarrow> update_state tm n2; if alive then remove_terminal_owner h tm c True n3 else Some n3 }) Q"
      proof (rule wp_bind, rule wp_update_state[OF s2])
        fix n3 :: "('te, 'x) node"
        assume "v_leafs ?x = []" "v_nodes ?x = []" and s3: "sees n3 (out_A (notify_out (v_ident ?x) False) (put_T tm None (put_T tm (Some ?x) A)))"
        then have "inv s {c} (put_T tm None A)" using inv_erase_T[OF i v] hid by simp
        then show "wp tot (case (False, n3) of (alive, n3) \<Rightarrow> if alive then remove_terminal_owner h tm c True n3 else Some n3) Q"
          using Q[of "put_T tm None A" n3 "notify_out (v_ident v) False"] s3 by simp
      next
        fix n3 :: "('te, 'x) node"
        assume own: "\<not> (v_leafs ?x = [] \<and> v_nodes ?x = [] \<and> v_users ?x = [])"
          and s3: "sees n3 (put_T tm (Some (?x\<lparr>v_state := vstate ?x\<rparr>)) (put_T tm (Some ?x) A))"
        have same: "?x\<lparr>v_state := vstate ?x\<rparr> = ?x" using st by simp
        have s3': "sees n3 (put_T tm (Some ?x) A)" using s3 unfolding same by simp
        have lx: "local_ok s {c} A ?x" by (rule local_drop_user[OF l c]) (use own hid in auto)
        have "inv s {c} (put_T tm (Some ?x) A)" by (rule inv_put_T[OF i v _ lx]) (simp add: tlink_def)
        then have "wp tot (remove_terminal_owner h tm c True n3) Q"
        proof (rule wp_remove_lost_owner[OF s3' _ _ cu])
          fix n' :: "('te, 'x) node" and es A'
          assume "inv s {c} A'" "a_leafs A' = a_leafs (put_T tm (Some ?x) A)" "a_nodes A' = a_nodes (put_T tm (Some ?x) A)"
            and T: "\<And>k. k \<noteq> tm \<Longrightarrow> a_T A' k = a_T (put_T tm (Some ?x) A) k" "\<And>x. a_T A' tm = Some x \<Longrightarrow> clean c x"
            and B: "\<And>bd x. a_B A' bd = Some x \<Longrightarrow> \<exists>x'. a_B (put_T tm (Some ?x) A) bd = Some x' \<and> w_owners x' = w_owners x"
            and "sees n' (out_A es A')"
          then show "Q n'" using Q[of A' n' es] T(2) by simp
        qed simp
        then show "wp tot (case (True, n3) of (alive, n3) \<Rightarrow> if alive then remove_terminal_owner h tm c True n3 else Some n3) Q" by simp
      qed simp
    qed
  qed
qed

lemma wp_node_connection_destroyed:
  fixes n :: "('te, 'x) node"
  assumes sA: "sees n A" and i: "inv s {} A"
    and Q: "\<And>n' es A'. inv s {} A' \<Longrightarrow> a_leafs A' = a_leafs (without_conn c A) \<Longrightarrow> a_nodes A' = a_nodes (without_conn c A) \<Longrightarrow>
      (\<And>tm v. a_T A' tm = Some v \<Longrightarrow> clean c v) \<Longrightarrow> (\<And>bd b. a_B A' bd = Some b \<Longrightarrow> c \<notin> fst ` set (w_owners b)) \<Longrightarrow>
      sees n' (out_A es A') \<Longrightarrow> Q n'"
  shows "wp tot (node_connection_destroyed h c n) Q"
proof (cases "c \<in> set (if remote_is_node c then nd_nodeConnections n else nd_leafConnections n)")
  case False
  then have out: "c \<notin> set (if remote_is_node c then a_nodes A else a_leafs A)" using seesD(3,4)[OF sA] by (cases "remote_is_node c") simp_all
  have gone: "c \<notin> fst ` set m" if "fsms_ok P k (set (if k then a_nodes A else a_leafs A)) m" for P k m
  proof
    assume "c \<in> fst ` set m"
    from fsms_okD(3)[OF that this] out show False by (cases k) simp_all
  qed
  have same: "without_conn c A = A" using out by (cases "remote_is_node c") (simp_all add: without_conn_def remove1_idem)
  have "clean c v" if "a_T A tm = Some v" for tm v
    using i that gone[where k = True and P = owner_ok and m = "v_nodes v"] gone[where k = False and P = owner_ok and m = "v_leafs v"]
      gone[where k = True and P = user_ok and m = "v_users v"] by (simp add: inv_def local_ok_def clean_def)
  moreover have "c \<notin> fst ` set (w_owners b)" if "a_B A bd = Some b" for bd b
    using i that gone[where k = False and P = owner_ok and m = "w_owners b"] by (simp add: inv_def bindings_ok_def)
  ultimately show ?thesis using Q[OF i, of n "[]"] sA False same by (simp add: node_connection_destroyed_def)
next
  case True
  have co: "conns_ok A" using i by (simp add: inv_def)
  define A0 where "A0 = without_conn c A"
  define n0 where "n0 = (if remote_is_node c then n\<lparr>nd_nodeConnections := remove1 c (nd_nodeConnections n)\<rparr>
         else n\<lparr>nd_leafConnections := remove1 c (nd_leafConnections n)\<rparr>)"
  have s0: "sees n0 A0" using sA by (auto simp: A0_def n0_def sees_def view_def without_conn_def)
  have i0: "inv s {c} A0" using inv_without_conn[OF i] by (simp add: A0_def)
  have cn: "c \<notin> set (a_nodes A0)" using without_conn_sets(1)[OF co, of c] by (simp add: A0_def)
  define P where "P = (\<lambda>ys (u :: ('te, 'x) node). \<exists>A'. sees u A' \<and> inv s {c} A' \<and> distinct ys \<and> a_leafs A' = a_leafs A0 \<and> a_nodes A' = a_nodes A0 \<and>
    (\<forall>k\<in>set ys. a_B A' k \<noteq> None) \<and> (\<forall>k x. k \<notin> set ys \<longrightarrow> a_B A' k = Some x \<longrightarrow> c \<notin> fst ` set (w_owners x)))"
  define R where "R = (\<lambda>ys (u :: ('te, 'x) node). \<exists>es A'. sees u (out_A es A') \<and> inv s {c} A' \<and> distinct ys \<and> a_leafs A' = a_leafs A0 \<and> a_nodes A' = a_nodes A0 \<and>
    (\<forall>k\<in>set ys. a_T A' k \<noteq> None) \<and> (\<forall>k x. k \<notin> set ys \<longrightarrow> a_T A' k = Some x \<longrightarrow> clean c x) \<and>
    (\<forall>k x. a_B A' k = Some x \<longrightarrow> c \<notin> fst ` set (w_owners x)))"
  have first: "wp tot (for_each (ireg_ids (nd_bindings n0)) (remove_binding_owner_of_connection h c) n0) (P [])"
  proof (rule wp_for_each[where P = P])
    have ids: "k \<in> set (ireg_ids (nd_bindings n0)) \<longleftrightarrow> a_B A0 k \<noteq> None" for k
      using set_ireg_ids[OF seesD(2)[OF s0], of k] seesD(6)[OF s0, of k, symmetric] by (cases "find_id (nd_bindings n0) k") auto
    show "P (ireg_ids (nd_bindings n0)) n0"
      using s0 i0 sorted_ireg_ids[OF seesD(2)[OF s0]] ids unfolding P_def strict_sorted_iff by (intro exI[of _ A0]) auto
    fix bd ys and u :: "('te, 'x) node"
    assume "P (bd # ys) u"
    then obtain A' where A': "sees u A'" "inv s {c} A'" "distinct (bd # ys)" "a_leafs A' = a_leafs A0" "a_nodes A' = a_nodes A0"
      "\<forall>k\<in>set (bd # ys). a_B A' k \<noteq> None" "\<forall>k x. k \<notin> set (bd # ys) \<longrightarrow> a_B A' k = Some x \<longrightarrow> c \<notin> fst ` set (w_owners x)"
      unfolding P_def by blast
    then obtain b where b: "a_B A' bd = Some b" by auto
    show "wp tot (remove_binding_owner_of_connection h c bd u) (P ys)"
    proof (rule wp_remove_binding_owner_of_connection[OF A'(1,2) b])
      fix u' :: "('te, 'x) node" and B
      assume B: "inv s {c} B" "a_leafs B = a_leafs A'" "a_nodes B = a_nodes A'" "\<And>k. k \<noteq> bd \<Longrightarrow> a_B B k = a_B A' k"
        "\<And>x. a_B B bd = Some x \<Longrightarrow> c \<notin> fst ` set (w_owners x)" "sees u' B"
      have "c \<notin> fst ` set (w_owners x)" if "k \<notin> set ys" "a_B B k = Some x" for k x
        using that A'(7) B(4)[of k] B(5) by (cases "k = bd") auto
      moreover have "a_B B k \<noteq> None" if "k \<in> set ys" for k
      proof -
        have "k \<noteq> bd" using that A'(3) by auto
        then show ?thesis using that A'(6) B(4)[of k] by simp
      qed
      ultimately show "P ys u'" using A'(3-5) B(1-3,6) unfolding P_def by (intro exI[of _ B]) simp
    qed
  qed simp
  have second: "wp tot (for_each (ireg_ids (nd_terminals n1)) (remove_connection_from_terminal h c) n1) (R [])" if P1: "P [] n1" for n1
  proof (rule wp_for_each[where P = R])
    obtain A' where A': "sees n1 A'" "inv s {c} A'" "a_leafs A' = a_leafs A0" "a_nodes A' = a_nodes A0"
      "\<forall>k x. a_B A' k = Some x \<longrightarrow> c \<notin> fst ` set (w_owners x)" using P1 unfolding P_def by auto
    have ids: "k \<in> set (ireg_ids (nd_terminals n1)) \<longleftrightarrow> a_T A' k \<noteq> None" for k
      using set_ireg_ids[OF seesD(1)[OF A'(1)], of k] seesD(5)[OF A'(1), of k, symmetric] by (cases "find_id (nd_terminals n1) k") auto
    show "R (ireg_ids (nd_terminals n1)) n1"
      using A' sorted_ireg_ids[OF seesD(1)[OF A'(1)]] ids unfolding R_def strict_sorted_iff
      by (intro exI[of _ "[]"] exI[of _ A']) auto
    fix tm ys and u :: "('te, 'x) node"
    assume "R (tm # ys) u"
    then obtain es A' where A': "sees u (out_A es A')" "inv s {c} A'" "distinct (tm # ys)" "a_leafs A' = a_leafs A0" "a_nodes A' = a_nodes A0"
      "\<forall>k\<in>set (tm # ys). a_T A' k \<noteq> None" "\<forall>k x. k \<notin> set (tm # ys) \<longrightarrow> a_T A' k = Some x \<longrightarrow> clean c x"
      "\<forall>k x. a_B A' k = Some x \<longrightarrow> c \<notin> fst ` set (w_owners x)"
      unfolding R_def by blast
    then obtain v where v: "a_T (out_A es A') tm = Some v" by auto
    have ie: "inv s {c} (out_A es A')" using A'(2) by simp
    have ce: "c \<notin> set (a_nodes (out_A es A'))" using cn A'(5) by simp
    show "wp tot (remove_connection_from_terminal h c tm u) (R ys)"
    proof (rule wp_remove_connection_from_terminal[OF A'(1) ie v ce])
      fix u' :: "('te, 'x) node" and B fs
      assume B: "inv s {c} B" "a_leafs B = a_leafs (out_A es A')" "a_nodes B = a_nodes (out_A es A')"
        "\<And>k. k \<noteq> tm \<Longrightarrow> a_T B k = a_T (out_A es A') k"
        "\<And>x. a_T B tm = Some x \<Longrightarrow> clean c x"
        "\<And>bd x. a_B B bd = Some x \<Longrightarrow> \<exists>x'. a_B (out_A es A') bd = Some x' \<and> w_owners x' = w_owners x" "sees u' (out_A fs B)"
      have "clean c x" if "k \<notin> set ys" "a_T B k = Some x" for k x
        using that A'(7) B(4)[of k] B(5) by (cases "k = tm") auto
      moreover have "a_T B k \<noteq> None" if "k \<in> set ys" for k
      proof -
        have "k \<noteq> tm" using that A'(3) by auto
        then show ?thesis using that A'(6) B(4)[of k] by simp
      qed
      moreover have "c \<notin> fst ` set (w_owners x)" if h: "a_B B k = Some x" for k x
      proof -
        obtain x' where "a_B A' k = Some x'" "w_owners x' = w_owners x" using B(6)[OF h] by auto
        then show ?thesis using A'(8) by metis
      qed
      ultimately show "R ys u'" using A'(3-5) B(1-3,7) unfolding R_def by (intro exI[of _ fs] exI[of _ B]) simp
    qed
  qed simp
  have last: "Q n'" if "R [] n'" for n'
  proof -
    obtain es A' where A': "sees n' (out_A es A')" "inv s {c} A'" "a_leafs A' = a_leafs A0" "a_nodes A' = a_nodes A0"
      "\<forall>k x. a_T A' k = Some x \<longrightarrow> clean c x" "\<forall>k x. a_B A' k = Some x \<longrightarrow> c \<notin> fst ` set (w_owners x)"
      using \<open>R [] n'\<close> unfolding R_def by auto
    have "inv s {} A'" by (rule inv_clean[OF A'(2)]) (use A'(5,6) in blast)+
    then show ?thesis using Q[of A' n' es] A' unfolding A0_def by blast
  qed
  show ?thesis unfolding node_connection_destroyed_def if_not_P[OF iffD2[OF not_not True]] Let_def
    unfolding n0_def[symmetric] by (rule wp_bind, rule wp_mono[OF first], rule wp_mono[OF second], assumption, rule last)
qed

end

end
