(* ===== verification/Node_Subscriptions.thy ===== *)
theory Node_Subscriptions
  imports Node_Scatter Node_Connections
begin

text \<open>
  The classes with subscriptions are classes in the sense of \<open>node_class\<close>, and what they tell the
  owners of a terminal follows one rule: an owner is subscribed as long as anybody else is interested
  in the terminal, where the interested connections are the subscribers and the owners of the binding.
\<close>

section \<open>Interest in a terminal\<close>

definition binding_interest :: "nview \<Rightarrow> tview \<Rightarrow> fsm_map" where
  "binding_interest A v = (if id_valid (v_binding v) then (case a_B A (v_binding v) of None \<Rightarrow> [] | Some b \<Rightarrow> w_owners b) else [])"

definition interest :: "nview \<Rightarrow> tview \<Rightarrow> connection set" where
  "interest A v = fst ` set (v_subs v) \<union> fst ` set (binding_interest A v)"

text \<open>The owners whose subscription changes when \<open>c\<close> enters or leaves an interest that is \<open>I\<close> without it.\<close>

definition concerned :: "connection set \<Rightarrow> connection \<Rightarrow> tview \<Rightarrow> (connection \<times> id) list" where
  "concerned I c v = map (\<lambda>(d, f). (d, m_mappedId f)) (filter (\<lambda>(d, f). d \<noteq> c \<and> I \<subseteq> {d}) (v_leafs v @ v_nodes v))"

lemma send_each_simps [simp]: "send_each m [] n = n" "send_each m ((c, i) # cs) n = send_each m cs (nsend c (m i) n)"
  "send_each m (xs @ ys) n = send_each m ys (send_each m xs n)"
  by (simp_all add: send_each_def)

lemma sees_send_each: "sees n A \<Longrightarrow> (\<forall>i. \<not> base_body (m i)) \<Longrightarrow> sees (send_each m cs n) A"
proof (induction cs arbitrary: n)
  case (Cons x cs)
  show ?case using Cons.IH[OF sees_class_send[OF Cons.prems(1)] Cons.prems(2)] Cons.prems(2) by (cases x) simp
qed simp

lemma out_send_each: "nd_out (send_each m cs n) = nd_out n @ map (\<lambda>(c, i). Node_Sent c (m i)) cs"
  by (induction cs arbitrary: n) (auto simp: nsend_def)

lemma one_key: "distinct_keys m \<Longrightarrow> fst ` set m = {c} \<Longrightarrow> map fst m = [c]"
  by (cases m; cases "tl m") auto

text \<open>A binding that a terminal refers to exists.\<close>

lemma binding_exists:
  assumes "winv A" "a_T A tm = Some v" "id_valid (v_binding v)"
  obtains b where "a_B A (v_binding v) = Some b" "w_terminal b = tm" "binding_interest A v = w_owners b" "distinct_keys (w_owners b)"
    "\<forall>c \<in> fst ` set (w_owners b). \<not> remote_is_node c"
proof -
  have lo: "links_ok A" using assms(1) by (simp add: winv_def)
  obtain b where "a_B A (v_binding v) = Some b" "w_terminal b = tm"
    using links_okD(3)[OF lo assms(2,3)] by (auto simp: blink_def)
  then show ?thesis using assms(1,3) that by (auto simp: binding_interest_def winv_def)
qed

lemma only_subscriber_spec:
  fixes n :: "('te, 'x) node"
  assumes sA: "sees n A" and w: "winv A" and v: "a_T A tm = Some v" and t: "nt_subscribers t = v_subs v" "nt_binding t = v_binding v"
  shows "\<exists>r. only_subscriber_or_binding_owner t n = Some r \<and> (\<forall>c. r = Some c \<longleftrightarrow> interest A v = {c})"
proof -
  have ds: "distinct (map fst (v_subs v))" using w v by (simp add: winv_def)
  show ?thesis
  proof (cases "id_valid (v_binding v)")
    case False
    then have I: "interest A v = set (map fst (v_subs v))" by (simp add: interest_def binding_interest_def)
    show ?thesis using False t ds I
      by (cases "map fst (v_subs v)"; cases "tl (map fst (v_subs v))") (auto simp: only_subscriber_or_binding_owner_def Let_def)
  next
    case True
    obtain b where b: "a_B A (v_binding v) = Some b" "binding_interest A v = w_owners b" "distinct_keys (w_owners b)"
      by (rule binding_exists[OF w v True])
    obtain e where e: "get_nb n (v_binding v) = Some e" "nb_owningLeafs e = w_owners b"
      using sees_B[OF sA b(1)] bview_of_eq by metis
    have I: "interest A v = set (map fst (v_subs v)) \<union> set (map fst (w_owners b))" by (simp add: interest_def b(2))
    show ?thesis using True t e ds b(3) I
      by (cases "map fst (v_subs v)"; cases "tl (map fst (v_subs v))"; cases "map fst (w_owners b)"; cases "tl (map fst (w_owners b))")
         (auto simp: only_subscriber_or_binding_owner_def Let_def)
  qed
qed

lemma other_entries: "distinct_keys m \<Longrightarrow> contains_entries_other_than m c \<longleftrightarrow> \<not> fst ` set m \<subseteq> {c}"
  by (cases m; cases "tl m") (auto simp: contains_entries_other_than_def split: prod.split)

definition bound :: "nview \<Rightarrow> tview \<Rightarrow> bool" where
  "bound A v \<longleftrightarrow> (id_valid (v_binding v) \<longrightarrow> binding_interest A v \<noteq> [])"

lemma interest_specs:
  fixes n :: "('te, 'x) node"
  assumes sA: "sees n A" and w: "winv A" and v: "a_T A tm = Some v" and t: "nt_subscribers t = v_subs v" "nt_binding t = v_binding v"
  shows "no_subscribers_or_binding_owners t n = Some (interest A v = {})"
    and "bound A v \<Longrightarrow> at_least_one_subscriber_or_binding_owner_besides t c n = Some (\<not> interest A v \<subseteq> {c})"
    and "bound A v \<Longrightarrow> no_other_subscriber_or_binding_owner t c n = Some (interest A v \<subseteq> {c})"
proof -
  have ds: "distinct_keys (v_subs v)" using w v by (simp add: winv_def)
  have only: "\<exists>r. only_subscriber_or_binding_owner t n = Some r \<and> (\<forall>c. r = Some c \<longleftrightarrow> interest A v = {c})"
    by (rule only_subscriber_spec[OF sA w v t])
  have "no_subscribers_or_binding_owners t n = Some (interest A v = {}) \<and>
    (bound A v \<longrightarrow> at_least_one_subscriber_or_binding_owner_besides t c n = Some (\<not> interest A v \<subseteq> {c})) \<and>
    (bound A v \<longrightarrow> no_other_subscriber_or_binding_owner t c n = Some (interest A v \<subseteq> {c}))"
  proof (cases "id_valid (v_binding v)")
    case False
    then have I: "interest A v = fst ` set (v_subs v)" by (simp add: interest_def binding_interest_def)
    from only obtain r where r: "only_subscriber_or_binding_owner t n = Some r" "\<forall>c. r = Some c \<longleftrightarrow> interest A v = {c}" by blast
    have "no_other_subscriber_or_binding_owner t c n = Some (interest A v \<subseteq> {c})"
      using False t r by (cases "v_subs v = []") (simp_all add: no_other_subscriber_or_binding_owner_def I subset_singleton_iff)
    then show ?thesis using False t other_entries[OF ds, of c]
      by (simp add: no_subscribers_or_binding_owners_def at_least_one_subscriber_or_binding_owner_besides_def I)
  next
    case True
    obtain b where b: "a_B A (v_binding v) = Some b" "binding_interest A v = w_owners b" "distinct_keys (w_owners b)"
      by (rule binding_exists[OF w v True])
    obtain e where e: "get_nb n (v_binding v) = Some e" "nb_owningLeafs e = w_owners b"
      using sees_B[OF sA b(1)] bview_of_eq by metis
    have I: "interest A v = fst ` set (v_subs v) \<union> fst ` set (w_owners b)" by (simp add: interest_def b(2))
    have ne: "bound A v \<Longrightarrow> interest A v \<noteq> {}" by (auto simp: I bound_def True b(2))
    from only obtain r where r: "only_subscriber_or_binding_owner t n = Some r" "\<forall>c. r = Some c \<longleftrightarrow> interest A v = {c}" by blast
    have "bound A v \<Longrightarrow> no_other_subscriber_or_binding_owner t c n = Some (interest A v \<subseteq> {c})"
      using True t e r ne by (auto simp: no_other_subscriber_or_binding_owner_def bound_def b(2) subset_singleton_iff)
    then show ?thesis using True t e I other_entries[OF ds] other_entries[OF b(3)]
      by (auto simp: no_subscribers_or_binding_owners_def at_least_one_subscriber_or_binding_owner_besides_def bound_def b(2))
  qed
  then show "no_subscribers_or_binding_owners t n = Some (interest A v = {})"
    "bound A v \<Longrightarrow> at_least_one_subscriber_or_binding_owner_besides t c n = Some (\<not> interest A v \<subseteq> {c})"
    "bound A v \<Longrightarrow> no_other_subscriber_or_binding_owner t c n = Some (interest A v \<subseteq> {c})" by simp_all
qed

section \<open>What the owners are told\<close>

definition owners_well :: "tview \<Rightarrow> bool" where
  "owners_well v \<longleftrightarrow> (\<exists>C. fsms_ok owner_ok False C (v_leafs v)) \<and> (\<exists>C. fsms_ok owner_ok True C (v_nodes v))"

lemma filter_key: "distinct_keys m \<Longrightarrow> filter (\<lambda>(d, f). d = c) m = (case map_of m c of None \<Rightarrow> [] | Some f \<Rightarrow> [(c, f)])"
  by (induction m) (auto simp: filter_empty_conv image_iff split: option.split)

lemma concerned_one:
  assumes o: "owners_well v" and "c \<noteq> d"
  shows "concerned {d} c v = (case map_of (vowners d v) d of None \<Rightarrow> [] | Some f \<Rightarrow> [(d, m_mappedId f)])"
proof -
  obtain C D where C: "fsms_ok owner_ok False C (v_leafs v)" "fsms_ok owner_ok True D (v_nodes v)" using o by (auto simp: owners_well_def)
  have f: "filter (\<lambda>(d', f). d' \<noteq> c \<and> {d} \<subseteq> {d'}) m = (case map_of m d of None \<Rightarrow> [] | Some f \<Rightarrow> [(d, f)])" if "distinct_keys m" for m :: fsm_map
  proof -
    have "filter (\<lambda>(d', f). d' \<noteq> c \<and> {d} \<subseteq> {d'}) m = filter (\<lambda>(d', f). d' = d) m" using assms(2) by (intro filter_cong) auto
    then show ?thesis using filter_key[OF that] by simp
  qed
  have "map_of (v_leafs v) d = None" if "remote_is_node d" using fsms_okD(2)[OF C(1), of d] that by (cases "map_of (v_leafs v) d") auto
  moreover have "map_of (v_nodes v) d = None" if "\<not> remote_is_node d" using fsms_okD(2)[OF C(2), of d] that by (cases "map_of (v_nodes v) d") auto
  ultimately show ?thesis using f[OF fsms_okD(1)[OF C(1)]] f[OF fsms_okD(1)[OF C(2)]]
    by (auto simp: concerned_def vowners_def split: option.split)
qed

lemma concerned_all:
  assumes o: "owners_well v" and t: "nt_owningLeafs t = v_leafs v" "nt_owningNodes t = v_nodes v"
  shows "mapped_owners t (Some c) = concerned {} c v"
proof -
  obtain C D where C: "fsms_ok owner_ok False C (v_leafs v)" "fsms_ok owner_ok True D (v_nodes v)" using o by (auto simp: owners_well_def)
  have "is_mapped f" if "(d, f) \<in> set (v_leafs v @ v_nodes v)" for d f
    using that C by (auto simp: fsms_ok_def owner_ok_def is_mapped_def)
  then have "filter (\<lambda>(d, f). Some c \<noteq> Some d \<and> is_mapped f) (v_leafs v @ v_nodes v) = filter (\<lambda>(d, f). d \<noteq> c \<and> {} \<subseteq> {d}) (v_leafs v @ v_nodes v)"
    by (intro filter_cong) auto
  then show ?thesis by (simp only: mapped_owners_def concerned_def t)
qed

lemma concerned_none: "I \<noteq> {} \<Longrightarrow> \<nexists>d. d \<noteq> c \<and> I = {d} \<Longrightarrow> concerned I c v = []"
  by (auto simp: concerned_def filter_empty_conv subset_singleton_iff)

lemma owner_id:
  assumes o: "owners_well v" and t: "nt_owningLeafs t = v_leafs v" "nt_owningNodes t = v_nodes v"
  shows "id_valid (terminal_owner_fsm_mapped_id t d) \<longleftrightarrow> map_of (vowners d v) d \<noteq> None"
    and "map_of (vowners d v) d = Some f \<Longrightarrow> terminal_owner_fsm_mapped_id t d = m_mappedId f"
proof -
  have n: "nt_owners d t = vowners d v" by (rule nt_owners_view[OF t])
  obtain C D where C: "fsms_ok owner_ok False C (v_leafs v)" "fsms_ok owner_ok True D (v_nodes v)" using o by (auto simp: owners_well_def)
  have "id_valid (m_mappedId f)" if "map_of (vowners d v) d = Some f" for f
    using that fsms_okD(2)[OF C(1), of d f] fsms_okD(2)[OF C(2), of d f] by (simp add: vowners_def owner_ok_def split: if_splits)
  then show "id_valid (terminal_owner_fsm_mapped_id t d) \<longleftrightarrow> map_of (vowners d v) d \<noteq> None"
    by (auto simp: terminal_owner_fsm_mapped_id_def n default_not_valid split: option.split)
  show "map_of (vowners d v) d = Some f \<Longrightarrow> terminal_owner_fsm_mapped_id t d = m_mappedId f"
    by (simp add: terminal_owner_fsm_mapped_id_def n)
qed

lemma unsubscribe_spec:
  fixes n :: "('te, 'x) node"
  assumes sA: "sees n A" and w: "winv A" and v: "a_T A tm = Some v" and c: "c \<notin> interest A v"
  shows "\<exists>l. unsubscribe_if_needed tm c n = Some (send_each Unsubscribe l n) \<and> (owners_well v \<longrightarrow> l = concerned (interest A v) c v)"
proof -
  obtain t where g: "get_nt n tm = Some t" and t: "nt_owningLeafs t = v_leafs v" "nt_owningNodes t = v_nodes v"
    "nt_subscribers t = v_subs v" "nt_binding t = v_binding v"
    using sees_T[OF sA v] tview_of_eq by metis
  obtain r where r: "only_subscriber_or_binding_owner t n = Some r" "\<And>c. r = Some c \<longleftrightarrow> interest A v = {c}"
    using only_subscriber_spec[OF sA w v t(3,4)] by blast
  note none = interest_specs(1)[OF sA w v t(3,4)]
  show ?thesis
  proof (cases r)
    case (Some d)
    then have I: "interest A v = {d}" "d \<noteq> c" using r(2)[of d] c by auto
    let ?i = "terminal_owner_fsm_mapped_id t d"
    have "unsubscribe_if_needed tm c n = Some (send_each Unsubscribe (if id_valid ?i then [(d, ?i)] else []) n)"
      using I Some by (simp add: unsubscribe_if_needed_def g r(1))
    moreover have "(if id_valid ?i then [(d, ?i)] else []) = concerned (interest A v) c v" if "owners_well v"
      using owner_id[OF that t(1,2), of d] concerned_one[OF that, of c d] I by (auto split: option.split)
    ultimately show ?thesis by blast
  next
    case None
    then have no: "\<nexists>d. interest A v = {d}" using r(2) by auto
    have "unsubscribe_if_needed tm c n = Some (send_each Unsubscribe (if interest A v = {} then mapped_owners t (Some c) else []) n)"
      using None by (simp add: unsubscribe_if_needed_def g r(1) none)
    moreover have "(if interest A v = {} then mapped_owners t (Some c) else []) = concerned (interest A v) c v" if "owners_well v"
      using concerned_all[OF that t(1,2), of c] concerned_none[of "interest A v" c v] no by auto
    ultimately show ?thesis by blast
  qed
qed

section \<open>The virtual functions\<close>

lemma inv_owners_well: "inv s gone A \<Longrightarrow> a_T A tm = Some v \<Longrightarrow> owners_well v"
  by (auto simp: inv_def local_ok_def owners_well_def)

lemma inv_bound:
  assumes "inv s gone A" "a_T A tm = Some v"
  shows "bound A v"
  using binding_exists[OF inv_winv[OF assms(1)] assms(2)] assms(1) unfolding bound_def inv_def bindings_ok_def by (metis)

text \<open>The interest of a connection is either that of a subscribed node or that of an owning leaf.\<close>

lemma winv_interest:
  assumes w: "winv A" and v: "a_T A tm = Some v"
  shows "\<forall>c \<in> fst ` set (v_subs v). remote_is_node c" "\<forall>c \<in> fst ` set (binding_interest A v). \<not> remote_is_node c"
proof -
  show "\<forall>c \<in> fst ` set (v_subs v). remote_is_node c" using w v by (simp add: winv_def)
  show "\<forall>c \<in> fst ` set (binding_interest A v). \<not> remote_is_node c"
  proof (cases "id_valid (v_binding v)")
    case True
    obtain b where "a_B A (v_binding v) = Some b" "w_terminal b = tm" "binding_interest A v = w_owners b" "distinct_keys (w_owners b)"
      "\<forall>c \<in> fst ` set (w_owners b). \<not> remote_is_node c"
      by (rule binding_exists[OF w v True])
    then show ?thesis by simp
  qed (simp add: binding_interest_def)
qed

lemma owner_told:
  fixes n :: "('te, 'x) node"
  assumes sA: "sees n A" and i: "inv s {} A" and v: "a_T A tm = Some v" and c: "map_of (vowners c v) c \<noteq> None"
  shows "sub_owner_added c tm j n = Some (if interest A v \<subseteq> {c} then n else nsend c (Subscribe j) n)"
    and "sub_owner_remapped c tm j n = Some (if interest A v \<subseteq> {c} then n else nsend c (Subscribe j) n)"
proof -
  obtain t where g: "get_nt n tm = Some t" and t: "nt_owningLeafs t = v_leafs v" "nt_owningNodes t = v_nodes v"
    "nt_subscribers t = v_subs v" "nt_binding t = v_binding v"
    using sees_T[OF sA v] tview_of_eq by metis
  have F: "fsms_ok owner_ok False (set (a_leafs A)) (v_leafs v)" "fsms_ok owner_ok True (set (a_nodes A)) (v_nodes v)"
    using i v by (auto simp: inv_def local_ok_def)
  have kinds: "map_of (v_leafs v) c \<noteq> None \<longleftrightarrow> \<not> remote_is_node c" "map_of (v_nodes v) c \<noteq> None \<longleftrightarrow> remote_is_node c"
    using c fsms_okD(2)[OF F(1), of c] fsms_okD(2)[OF F(2), of c] unfolding vowners_def
    by (cases "map_of (v_leafs v) c"; cases "map_of (v_nodes v) c"; force split: if_splits)+
  have m: "is_mapped_owner c (v_leafs v)" "is_mapped_owner c (v_nodes v)"
    using fsms_okD(2)[OF F(1), of c] fsms_okD(2)[OF F(2), of c]
    by (auto simp: is_mapped_owner_def owner_ok_def is_mapped_def split: option.split)
  note e = interest_specs(2)[OF sA inv_winv[OF i] v t(3,4) inv_bound[OF i v]]
  show "sub_owner_added c tm j n = Some (if interest A v \<subseteq> {c} then n else nsend c (Subscribe j) n)"
    using kinds m by (simp add: sub_owner_added_def g t e)
  show "sub_owner_remapped c tm j n = Some (if interest A v \<subseteq> {c} then n else nsend c (Subscribe j) n)"
    using m by (simp add: sub_owner_remapped_def g t e)
qed

lemma modify_nt_out: "modify_nt tm f n = Some n' \<Longrightarrow> nd_out n' = nd_out n \<and> nd_derived n' = nd_derived n"
  by (auto simp: modify_nt_def bind_eq_Some_conv)

lemma remove_subscriber_spec:
  fixes n :: "('te, 'x) node"
  assumes sA: "sees n A" and w: "winv A" and v: "a_T A tm = Some v" and c: "map_of (v_subs v) c \<noteq> None"
  defines "v' \<equiv> v\<lparr>v_subs := AList.delete c (v_subs v)\<rparr>"
  shows "\<exists>n1 l. remove_subscriber_if_needed removed c tm n = removed c tm n1 \<and> sees n1 (put_T tm (Some v') A) \<and>
    nd_out n1 = nd_out n @ map (\<lambda>(c, i). Node_Sent c (Unsubscribe i)) l \<and>
    (owners_well v \<longrightarrow> l = concerned (interest A v - {c}) c v)"
proof -
  obtain t where g: "get_nt n tm = Some t" and t: "nt_subscribers t = v_subs v"
    using sees_T[OF sA v] tview_of_eq by metis
  let ?f = "\<lambda>t. t\<lparr>nt_subscribers := AList.delete c (nt_subscribers t)\<rparr>" and ?A = "put_T tm (Some v') A"
  have cn: "remote_is_node c" using c winv_interest(1)[OF w v] by (force dest: map_of_SomeD)
  have "wp True (modify_nt tm ?f n) (\<lambda>n'. sees n' ?A)"
    unfolding v'_def
    by (rule wp_modify_nt[OF sA v, where g = "\<lambda>v. v\<lparr>v_subs := AList.delete c (v_subs v)\<rparr>"]) (simp_all add: tview_of_def)
  then obtain n0 where n0: "modify_nt tm ?f n = Some n0" "sees n0 ?A" by (auto simp: wp_total)
  have w': "winv ?A"
    by (rule winv_put_T[OF w v]) (use w v distinct_delete[of "v_subs v" c] in \<open>auto simp: v'_def tlink_def winv_def AList.delete_eq\<close>)
  have v1: "a_T ?A tm = Some v'" by simp
  have "v_subs v' = AList.delete c (v_subs v)" by (simp add: v'_def)
  then have "fst ` set (v_subs v') = fst ` set (v_subs v) - {c}" by (simp only: fst_delete)
  moreover have "binding_interest ?A v' = binding_interest A v" by (simp add: binding_interest_def v'_def)
  moreover have "c \<notin> fst ` set (binding_interest A v)" using cn winv_interest(2)[OF w v] by auto
  ultimately have I: "interest ?A v' = interest A v - {c}" by (auto simp: interest_def)
  have "owners_well v' = owners_well v" "concerned S c v' = concerned S c v" for S
    by (simp_all add: owners_well_def concerned_def v'_def)
  moreover obtain l where l: "unsubscribe_if_needed tm c n0 = Some (send_each Unsubscribe l n0)"
    "owners_well v' \<longrightarrow> l = concerned (interest ?A v') c v'"
    using unsubscribe_spec[OF n0(2) w' v1, of c] I by auto
  moreover obtain y where "map_of (v_subs v) c = Some y" using c by auto
  ultimately show ?thesis
    using n0(1) modify_nt_out[OF n0(1)] sees_send_each[OF n0(2), of Unsubscribe l]
    by (intro exI[of _ "send_each Unsubscribe l n0"] exI[of _ l]) (simp add: remove_subscriber_if_needed_def g t I out_send_each)
qed

lemma two_owners: "distinct [c, d] \<Longrightarrow> map fst (nb_owningLeafs b) \<in> {[c, d], [d, c]} \<Longrightarrow> second_binding_owner_of_two b c = Some d"
  by (auto simp: second_binding_owner_of_two_def)

lemma one_more: "S \<union> T - {c} = {d} \<Longrightarrow> c \<in> T \<Longrightarrow> S \<inter> T = {} \<Longrightarrow> S = {d} \<and> T = {c} \<or> S = {} \<and> T = {c, d}"
proof -
  assume "S \<union> T - {c} = {d}" and c: "c \<in> T" and e: "S \<inter> T = {}"
  then have A: "(x \<in> S \<or> x \<in> T) \<and> x \<noteq> c \<longleftrightarrow> x = d" for x by (auto simp: set_eq_iff)
  have E: "\<not> (x \<in> S \<and> x \<in> T)" for x using e by blast
  show ?thesis
  proof (cases "d \<in> S")
    case True
    have "x \<in> S \<longleftrightarrow> x = d" "x \<in> T \<longleftrightarrow> x = c" for x using A[of x] E[of x] E[of d] E[of c] c True by metis+
    then show ?thesis by (simp add: set_eq_iff)
  next
    case False
    have "x \<notin> S" "x \<in> T \<longleftrightarrow> x = c \<or> x = d" for x using A[of x] A[of d] E[of x] E[of c] c False by metis+
    then show ?thesis by (simp add: set_eq_iff)
  qed
qed

lemma binding_owner_told:
  fixes n :: "('te, 'x) node"
  assumes sA: "sees n A" and i: "inv s {} A" and b: "a_B A bd = Some b" and c: "map_of (w_owners b) c \<noteq> None"
  shows "\<exists>l. sub_binding_owner_added c bd j n = Some (send_each Subscribe l n) \<and>
    (\<forall>v. a_T A (w_terminal b) = Some v \<longrightarrow> l = concerned (interest A v - {c}) c v) \<and> (\<not> id_valid (w_terminal b) \<longrightarrow> l = [])"
proof -
  have w: "winv A" and lo: "links_ok A" using inv_winv[OF i] i by (simp_all add: inv_def)
  obtain e where e: "get_nb n bd = Some e" "nb_owningLeafs e = w_owners b" "nb_terminal e = w_terminal b"
    using sees_B[OF sA b] bview_of_eq by metis
  have co: "\<not> remote_is_node c" "distinct_keys (w_owners b)" "c \<in> fst ` set (w_owners b)"
  proof -
    show m: "c \<in> fst ` set (w_owners b)" using c by (simp add: map_of_eq_None_iff)
    show "\<not> remote_is_node c" "distinct_keys (w_owners b)" using w b m unfolding winv_def by blast+
  qed
  show ?thesis
  proof (cases "id_valid (w_terminal b)")
    case False
    then have "a_T A (w_terminal b) = None" using links_okD(1)[OF lo] by (cases "a_T A (w_terminal b)") auto
    then show ?thesis using False e c by (intro exI[of _ "[]"]) (simp add: sub_binding_owner_added_def)
  next
    case True
    obtain v where v: "a_T A (w_terminal b) = Some v" "v_binding v = bd"
      using links_okD(5)[OF lo b True] by (auto simp: tlink_def)
    obtain t where g: "get_nt n (w_terminal b) = Some t" and t: "nt_owningLeafs t = v_leafs v" "nt_owningNodes t = v_nodes v"
      "nt_subscribers t = v_subs v" "nt_binding t = v_binding v"
      using sees_T[OF sA v(1)] tview_of_eq by metis
    have bi: "binding_interest A v = w_owners b" using v(2) b links_okD(4)[OF lo b] by (simp add: binding_interest_def)
    have I: "interest A v = fst ` set (v_subs v) \<union> fst ` set (w_owners b)" by (simp add: interest_def bi)
    have sn: "\<forall>c \<in> fst ` set (v_subs v). remote_is_node c" by (rule winv_interest(1)[OF w v(1)])
    have on: "\<forall>c \<in> fst ` set (w_owners b). \<not> remote_is_node c" using winv_interest(2)[OF w v(1)] by (simp add: bi)
    have ds: "distinct_keys (v_subs v)" using w v(1) by (simp add: winv_def)
    have ow: "owners_well v" by (rule inv_owners_well[OF i v(1)])
    note no = interest_specs(3)[OF sA w v(1) t(3,4) inv_bound[OF i v(1)], of c]
    let ?J = "interest A v - {c}"
    have "sub_binding_owner_added c bd j n = Some (send_each Subscribe (concerned ?J c v) n)"
    proof (cases "?J = {}")
      case J: True
      then have "interest A v \<subseteq> {c}" by auto
      then show ?thesis using c True concerned_all[OF ow t(1,2), of c] by (simp add: sub_binding_owner_added_def e g no J)
    next
      case J: False
      then have nsub: "\<not> interest A v \<subseteq> {c}" by auto
      have add: "sub_binding_owner_added c bd j n =
        (if length (v_subs v) = 1 \<and> length (w_owners b) = 1 then (let s = fst (hd (v_subs v)) in
            case map_of (v_nodes v) s of None \<Rightarrow> Some n
            | Some f \<Rightarrow> do { yassert (is_mapped f); Some (nsend s (Subscribe (m_mappedId f)) n) })
         else if v_subs v = [] \<and> length (w_owners b) = 2 then do {
           other \<leftarrow> second_binding_owner_of_two e c;
           Some (if id_valid (terminal_owner_fsm_mapped_id t other)
             then nsend other (Subscribe (terminal_owner_fsm_mapped_id t other)) n else n) }
         else Some n)"
        using c True nsub by (simp add: sub_binding_owner_added_def e g t no binding_terminal_owner_mapped_id_def)
      have one: "\<exists>s. map fst (v_subs v) = [s] \<and> map fst (w_owners b) = [c]" if "length (v_subs v) = 1 \<and> length (w_owners b) = 1"
        using that co(3) by (cases "v_subs v"; cases "w_owners b") auto
      have two: "\<exists>d. map fst (w_owners b) \<in> {[c, d], [d, c]}" if "v_subs v = [] \<and> length (w_owners b) = 2"
        using that co(3) by (cases "w_owners b"; cases "tl (w_owners b)") auto
      consider (node) s where "map fst (v_subs v) = [s]" "map fst (w_owners b) = [c]"
        | (leaf) d where "v_subs v = []" "map fst (w_owners b) \<in> {[c, d], [d, c]}"
        | (none) "\<not> (length (v_subs v) = 1 \<and> length (w_owners b) = 1)" "\<not> (v_subs v = [] \<and> length (w_owners b) = 2)"
        using one two by metis
      then show ?thesis
      proof cases
        case node
        then have s: "fst ` set (v_subs v) = {s}" "fst ` set (w_owners b) = {c}" "length (v_subs v) = 1" "length (w_owners b) = 1" "fst (hd (v_subs v)) = s"
          by (auto simp flip: set_map simp: map_eq_Cons_conv)
        then have k: "remote_is_node s" "s \<noteq> c" using sn co by auto
        then have J': "?J = {s}" using s by (auto simp: I)
        have "is_mapped f" if "map_of (v_nodes v) s = Some f" for f
          using ow that fsms_okD(2)[of owner_ok True _ "v_nodes v" s f] by (auto simp: owners_well_def owner_ok_def is_mapped_def)
        then show ?thesis using k s unfolding add J' concerned_one[OF ow not_sym[OF k(2)]]
          by (auto simp: vowners_def split: option.split)
      next
        case leaf
        have d: "c \<noteq> d" using leaf co(2) by auto
        have "fst ` set (w_owners b) = {c, d}" using leaf(2) by (auto simp flip: set_map)
        then have J': "?J = {d}" using d leaf(1) by (auto simp: I)
        have len: "length (w_owners b) = 2" using leaf(2) by (auto dest: arg_cong[of _ _ length])
        have "second_binding_owner_of_two e c = Some d" by (rule two_owners) (use d leaf(2) e(2) in auto)
        then show ?thesis using leaf(1) len owner_id[OF ow t(1,2), of d] unfolding add J' concerned_one[OF ow d]
          by (auto split: option.split)
      next
        case none
        have len: "card (fst ` set (v_subs v)) = length (v_subs v)" "card (fst ` set (w_owners b)) = length (w_owners b)"
          using distinct_card[OF ds] distinct_card[OF co(2)] by simp_all
        have "\<not> (d \<noteq> c \<and> ?J = {d})" for d
        proof
          assume d: "d \<noteq> c \<and> ?J = {d}"
          have "fst ` set (v_subs v) \<inter> fst ` set (w_owners b) = {}" using sn on by blast
          from one_more[OF conjunct2[OF d, unfolded I] co(3) this] show False
          proof
            assume e: "fst ` set (v_subs v) = {d} \<and> fst ` set (w_owners b) = {c}"
            show False using none(1) len unfolding conjunct1[OF e] conjunct2[OF e] by simp
          next
            assume e: "fst ` set (v_subs v) = {} \<and> fst ` set (w_owners b) = {c, d}"
            have "v_subs v = []" using e by simp
            moreover have "length (w_owners b) = 2" using len(2) conjunct1[OF d] unfolding conjunct2[OF e] by simp
            ultimately show False using none(2) by blast
          qed
        qed
        then have "\<nexists>d. d \<noteq> c \<and> ?J = {d}" by blast
        then have "concerned ?J c v = []" by (rule concerned_none[OF J])
        then show ?thesis using none unfolding add by auto
      qed
    qed
    then show ?thesis using v(1) True by auto
  qed
qed

section \<open>The classes\<close>

lemma wp_sub_owner_removed:
  assumes "sees n A" "a_T A tm = Some v"
  shows "wp tot (sub_owner_removed c tm n) (\<lambda>n'. sees n' (put_T tm (Some (drop_subs v)) A))"
  unfolding sub_owner_removed_def
  by (rule wp_modify_nt[OF assms, where g = drop_subs]) (auto simp: tview_of_def drop_subs_def)

lemma wp_sub_user_removed:
  assumes sA: "sees n A" and w: "winv A" and v: "a_T A tm = Some v" and u: "map_of (v_users v) c = None"
    and R: "\<And>n A v. sees n A \<Longrightarrow> a_T A tm = Some v \<Longrightarrow> wp tot (removed c tm n) (\<lambda>n'. sees n' A)"
  shows "wp tot (sub_user_removed removed c tm n) (\<lambda>n'. sees n' (put_T tm (Some (v\<lparr>v_subs := AList.delete c (v_subs v)\<rparr>)) A))"
proof -
  let ?A = "put_T tm (Some (v\<lparr>v_subs := AList.delete c (v_subs v)\<rparr>)) A"
  have "wp tot (remove_subscriber_if_needed removed c tm n) (\<lambda>n'. sees n' ?A)"
  proof (cases "map_of (v_subs v) c")
    case None
    then have same: "v\<lparr>v_subs := AList.delete c (v_subs v)\<rparr> = v" by (simp add: delete_idem map_of_eq_None_iff)
    show ?thesis unfolding remove_subscriber_if_needed_def same put_T_same[OF v]
      by (rule wp_bind, rule wp_get_nt[OF sA v]) (simp add: None sA)
  next
    case (Some i)
    then have "map_of (v_subs v) c \<noteq> None" by simp
    from remove_subscriber_spec[OF sA w v this, of removed] obtain n1 where
      n1: "remove_subscriber_if_needed removed c tm n = removed c tm n1" "sees n1 ?A" by blast
    show ?thesis unfolding n1(1) by (rule R[OF n1(2)]) simp
  qed
  then show ?thesis unfolding sub_user_removed_def
    by (intro wp_bind wp_get_nt[OF sA v]) (simp add: u)
qed

lemma wp_sub_binding_owner_removed:
  assumes sA: "sees n A" and w: "winv A" and b: "a_B A bd = Some b" and c: "map_of (w_owners b) c = None" "\<not> remote_is_node c"
    and R: "\<And>tm n A v. sees n A \<Longrightarrow> a_T A tm = Some v \<Longrightarrow> wp tot (removed c tm n) (\<lambda>n'. sees n' A)"
  shows "wp tot (sub_binding_owner_removed removed c bd n) (\<lambda>n'. sees n' A)"
proof -
  have lo: "links_ok A" using w by (simp add: winv_def)
  have "wp tot (unsubscribe_if_needed (w_terminal b) c n \<bind> removed c (w_terminal b)) (\<lambda>n'. sees n' A)" if t: "id_valid (w_terminal b)"
  proof -
    obtain v where v: "a_T A (w_terminal b) = Some v" "v_binding v = bd"
      using links_okD(5)[OF lo b t] by (auto simp: tlink_def)
    have "binding_interest A v = w_owners b" using v(2) b links_okD(4)[OF lo b] by (simp add: binding_interest_def)
    then have "c \<notin> interest A v" using c winv_interest(1)[OF w v(1)] by (auto simp: interest_def map_of_eq_None_iff)
    then obtain l where l: "unsubscribe_if_needed (w_terminal b) c n = Some (send_each Unsubscribe l n)"
      using unsubscribe_spec[OF sA w v(1)] by blast
    have "sees (send_each Unsubscribe l n) A" by (rule sees_send_each[OF sA]) simp
    from R[OF this v(1)] show ?thesis by (simp add: l)
  qed
  then show ?thesis unfolding sub_binding_owner_removed_def
    by (intro wp_bind[OF wp_yassert[OF c(2)]] wp_bind[OF wp_get_nb[OF sA b]]) (simp add: c sA)
qed

lemma wp_binding_owner_told:
  assumes "sees n A" "inv s {} A" "a_B A bd = Some b" "map_of (w_owners b) c \<noteq> None"
  shows "wp tot (sub_binding_owner_added c bd j n) (\<lambda>n'. sees n' A)"
proof -
  obtain l where "sub_binding_owner_added c bd j n = Some (send_each Subscribe l n)" using binding_owner_told[OF assms] by blast
  moreover have "sees (send_each Subscribe l n) A" by (rule sees_send_each[OF assms(1)]) simp
  ultimately show ?thesis by simp
qed

lemma wp_owner_told:
  assumes "sees n A" "inv s {} A" "a_T A tm = Some v" "map_of (vowners c v) c \<noteq> None"
  shows "wp tot (sub_owner_added c tm j n) (\<lambda>n'. sees n' A)" "wp tot (sub_owner_remapped c tm j n) (\<lambda>n'. sees n' A)"
  using owner_told[OF assms] sees_class_send[OF assms(1), of "Subscribe j" c] assms(1) by simp_all

lemma subscribable_class:
  assumes R: "\<And>c tm n A v. sees n A \<Longrightarrow> a_T A tm = Some v \<Longrightarrow> wp tot (removed c tm n) (\<lambda>n'. sees n' A)"
    and h: "nh_owner_added h = sub_owner_added" "nh_owner_remapped h = sub_owner_remapped"
      "nh_user_removed h = sub_user_removed removed" "nh_binding_owner_removed h = sub_binding_owner_removed removed"
    and O: "\<And>n A tm v c. sees n A \<Longrightarrow> a_T A tm = Some v \<Longrightarrow> wp tot (nh_owner_removed h c tm n) (\<lambda>n'. sees n' (put_T tm (Some (drop_subs v)) A))"
    and B: "\<And>n A bd b c i. sees n A \<Longrightarrow> inv True {} A \<Longrightarrow> a_B A bd = Some b \<Longrightarrow> map_of (w_owners b) c \<noteq> None \<Longrightarrow>
      wp tot (nh_binding_owner_added h c bd i n) (\<lambda>n'. sees n' A) \<and> wp tot (nh_binding_owner_remapped h c bd i n) (\<lambda>n'. sees n' A)"
  shows "node_class h tot True"
proof (unfold_locales, goal_cases)
  case 1 then show ?case unfolding h by (rule wp_owner_told(1))
next
  case 2 then show ?case unfolding h by (rule wp_owner_told(2))
next
  case 3 then show ?case using O by blast
next
  case 4 then show ?case unfolding h by (intro wp_sub_user_removed R) assumption+
next
  case 5 then show ?case using B by blast
next
  case 6 then show ?case using B by blast
next
  case 7 then show ?case unfolding h by (intro wp_sub_binding_owner_removed R) assumption+
qed

interpretation ps_node: node_class ps_node_hooks True True
  by (rule subscribable_class[where removed = "\<lambda>c tm. Some"])
     (simp_all add: ps_node_hooks_def subscribable_hooks_def wp_sub_owner_removed wp_binding_owner_told)


lemma wp_send_cached_data:
  fixes n :: cached_node
  assumes "sees n A" "a_T A tm = Some v"
  shows "wp tot (send_cached_data c j tm n) (\<lambda>n'. sees n' A)"
  unfolding send_cached_data_def
  by (rule wp_bind, rule wp_get_nt[OF assms]) (simp add: assms(1) sees_class_send)

lemma wp_cached_binding_owner_remapped:
  fixes n :: cached_node
  assumes sA: "sees n A" and w: "winv A" and b: "a_B A bd = Some b"
  shows "wp tot (cached_binding_owner_remapped c bd j n) (\<lambda>n'. sees n' A)"
proof -
  have "wp tot (send_cached_data c j (w_terminal b) n) (\<lambda>n'. sees n' A)" if t: "id_valid (w_terminal b)"
  proof -
    obtain v where "a_T A (w_terminal b) = Some v" using links_okD(5)[OF _ b t] w by (auto simp: winv_def)
    then show ?thesis by (rule wp_send_cached_data[OF sA])
  qed
  then show ?thesis unfolding cached_binding_owner_remapped_def
    by (intro wp_bind wp_get_nb[OF sA b]) (simp add: sA)
qed

interpretation cached_node: node_class cached_node_hooks True True
proof (rule subscribable_class[where removed = "\<lambda>c tm. Some"])
  fix n :: cached_node and A bd b c and i :: id
  assume s: "sees n A" and inv: "inv True {} A" and b: "a_B A bd = Some b" and c: "map_of (w_owners b) c \<noteq> None"
  have "wp True (cached_binding_owner_added c bd i n) (\<lambda>n'. sees n' A)"
    unfolding cached_binding_owner_added_def
    by (rule wp_bind, rule wp_mono[OF wp_binding_owner_told[OF s inv b c]], rule wp_cached_binding_owner_remapped[OF _ inv_winv[OF inv] b])
  then show "wp True (nh_binding_owner_added cached_node_hooks c bd i n) (\<lambda>n'. sees n' A) \<and>
      wp True (nh_binding_owner_remapped cached_node_hooks c bd i n) (\<lambda>n'. sees n' A)"
    using wp_cached_binding_owner_remapped[OF s inv_winv[OF inv] b] by (simp add: cached_node_hooks_def)
qed (simp_all add: cached_node_hooks_def subscribable_hooks_def wp_sub_owner_removed)

text \<open>
  The scatter-gather class looks its operations up, which the invariant of the base class does not
  describe: its handlers keep the invariant where they return.
\<close>

lemma sees_derived: "sees n A \<Longrightarrow> sees (n\<lparr>nd_derived := x\<rparr>) A"
  by (simp add: sees_def view_def)

lemma wp_set_operation: "sees n A \<Longrightarrow> wp False (set_operation i p n) (\<lambda>n'. sees n' A)"
  by (cases "oreg_set i p (nd_derived n)") (simp_all add: set_operation_def wp_def sees_derived)

lemma wp_erase_operation: "sees n A \<Longrightarrow> wp False (erase_operation i n) (\<lambda>n'. sees n' A)"
  by (cases "oreg_erase no_operation i (nd_derived n)") (simp_all add: erase_operation_def wp_def sees_derived)

lemma wp_deactivate:
  assumes "sees n A" "a_T A tm = Some v"
  shows "wp tot (deactivate tm i n) (\<lambda>n'. sees n' A)"
  unfolding deactivate_def
  by (rule wp_modify_nt[OF assms, where g = "\<lambda>v. v"]) (simp_all add: tview_of_def put_T_same[OF assms(2)])

lemma sees_send_to_source: "sees n A \<Longrightarrow> sees (send_to_source p f d n) A"
  by (simp add: send_to_source_def sees_class_send split: option.split)

lemma wp_get_operation: "(\<And>p. Q p) \<Longrightarrow> wp False (oreg_get r i) Q"
  by (cases "oreg_get r i") (simp_all add: wp_def)

lemma wp_drop_responder:
  assumes s: "sees n A" and v: "a_T A tm = Some v"
  shows "wp False (drop_responder c tm alive i n) (\<lambda>n'. sees n' A)"
  unfolding drop_responder_def Let_def
proof (rule wp_bind, rule wp_get_operation)
  fix p :: node_operation
  let ?p = "p\<lparr>op_remainingResponses := removeAll c (op_remainingResponses p)\<rparr>"
  let ?f = "if remote_is_node c \<or> \<not> alive then GATHER_CONNECTIONLOST else GATHER_BINDINGDESTROYED"
  have "wp False (set_operation i ?p n \<bind> (\<lambda>n1. if op_remainingResponses ?p = [] then do {
         n2 \<leftarrow> deactivate tm i n1;
         n3 \<leftarrow> erase_operation i n2;
         Some (send_to_source p (?f OR GATHER_FINISHED) [] n3) }
       else Some (send_to_source p ?f [] n1))) (\<lambda>n'. sees n' A)"
  proof (rule wp_bind, rule wp_mono[OF wp_set_operation[OF s]])
    fix n1 :: sg_node
    assume s1: "sees n1 A"
    have "wp False (do { n2 \<leftarrow> deactivate tm i n1; n3 \<leftarrow> erase_operation i n2; Some (send_to_source p (?f OR GATHER_FINISHED) [] n3) }) (\<lambda>n'. sees n' A)"
      by (rule wp_bind, rule wp_mono[OF wp_deactivate[OF s1 v]], rule wp_bind, rule wp_mono[OF wp_erase_operation], assumption)
         (simp add: sees_send_to_source)
    then show "wp False (if op_remainingResponses ?p = [] then do {
         n2 \<leftarrow> deactivate tm i n1;
         n3 \<leftarrow> erase_operation i n2;
         Some (send_to_source p (?f OR GATHER_FINISHED) [] n3) }
       else Some (send_to_source p ?f [] n1)) (\<lambda>n'. sees n' A)" using s1 by (simp add: sees_send_to_source)
  qed
  then show "wp False (if op_source p = Some c \<or> alive \<and> remote_is_node c \<or> c \<notin> set (op_remainingResponses p) then Some n
     else set_operation i ?p n \<bind> (\<lambda>n1. if op_remainingResponses ?p = [] then do {
         n2 \<leftarrow> deactivate tm i n1;
         n3 \<leftarrow> erase_operation i n2;
         Some (send_to_source p (?f OR GATHER_FINISHED) [] n3) }
       else Some (send_to_source p ?f [] n1))) (\<lambda>n'. sees n' A)" using s by simp
qed

interpretation scatter_node: node_class sg_node_hooks False True
proof (rule subscribable_class[where removed = sg_subscriber_removed])
  fix n :: sg_node and A tm v c
  assume s: "sees n A" and v: "a_T A tm = Some v"
  have "wp False (for_each (nt_ext t) (drop_responder c tm alive) n) (\<lambda>n'. sees n' A)" for t alive
    by (rule wp_for_each[where P = "\<lambda>_ n. sees n A"]) (use s v wp_drop_responder in auto)
  then show "wp False (sg_subscriber_removed c tm n) (\<lambda>n'. sees n' A)"
    unfolding sg_subscriber_removed_def by (intro wp_bind[OF wp_get_nt[OF s v]])
next
  fix n :: sg_node and A tm v c
  assume s: "sees n A" and v: "a_T A tm = Some v"
  let ?A = "put_T tm (Some (drop_subs v)) A"
  let ?f = "\<lambda>i n. do {
       p \<leftarrow> oreg_get (nd_derived n) i;
       if op_source p = Some c then do {
         n1 \<leftarrow> set_operation i (p\<lparr>op_source := None\<rparr>) n;
         deactivate tm i n1 }
       else Some n }"
  have f: "wp False (?f i u) (\<lambda>n'. sees n' ?A)" if "sees u ?A" for i u
    by (rule wp_bind, rule wp_get_operation)
       (use that in \<open>auto intro!: wp_bind wp_mono[OF wp_set_operation[OF that]] wp_deactivate\<close>)
  have "wp False (for_each xs ?f u) (\<lambda>n'. sees n' ?A)" if "sees u ?A" for xs u
    by (rule wp_for_each[where P = "\<lambda>_ n. sees n ?A"]) (use that f in auto)
  then have "wp False (sg_owner_removed c tm n) (\<lambda>n'. sees n' ?A)"
    unfolding sg_owner_removed_def
    by (intro wp_bind[OF wp_mono[OF wp_sub_owner_removed[OF s v]]] wp_bind[OF wp_get_nt]) auto
  then show "wp False (nh_owner_removed sg_node_hooks c tm n) (\<lambda>n'. sees n' ?A)" by (simp add: sg_node_hooks_def)
qed (simp_all add: sg_node_hooks_def subscribable_hooks_def wp_binding_owner_told)

section \<open>Subscriptions and data\<close>

lemma local_add_subscriber:
  assumes l: "local_ok True {} A v" and f: "map_of (v_users v) c = Some f" "is_mapped f" and c: "map_of (v_subs v) c = None"
  shows "local_ok True {} A (v\<lparr>v_subs := AList.update c (m_mappedId f) (v_subs v)\<rparr>)"
proof -
  have "subs_ok True (v\<lparr>v_subs := AList.update c (m_mappedId f) (v_subs v)\<rparr>)"
    using l f distinct_keys_update[of "v_subs v" c "m_mappedId f"]
    unfolding local_ok_def subs_ok_def update_append[OF c[unfolded map_of_eq_None_iff]] by auto
  then show ?thesis using l by (simp add: local_ok_def vstate_def users_ok_def sole_owner_def)
qed

lemma subscribe_spec:
  fixes n :: "('te, 'x) node"
  assumes sA: "sees n A" and i: "inv True {} A" and v: "a_T A tm = Some v" and c: "remote_is_node c" "map_of (v_subs v) c = None"
    and f: "map_of (v_users v) c = Some f"
  defines "v' \<equiv> v\<lparr>v_subs := AList.update c (m_mappedId f) (v_subs v)\<rparr>"
  shows "\<not> is_mapped f \<Longrightarrow> node_Subscribe subscribed tm c n = Some n"
    and "is_mapped f \<Longrightarrow> inv True {} (put_T tm (Some v') A) \<and>
      (\<exists>n1. node_Subscribe subscribed tm c n = subscribed c (m_mappedId f) tm n1 \<and> sees n1 (put_T tm (Some v') A) \<and>
      nd_out n1 = nd_out n @ map (\<lambda>(c, i). Node_Sent c (Subscribe i)) (concerned (interest A v) c v))"
proof -
  have w: "winv A" and ow: "owners_well v" and l: "local_ok True {} A v"
    using inv_winv[OF i] inv_owners_well[OF i v] i v by (auto simp: inv_def)
  obtain t where g: "get_nt n tm = Some t" and t: "nt_owningLeafs t = v_leafs v" "nt_owningNodes t = v_nodes v"
    "nt_subscribers t = v_subs v" "nt_binding t = v_binding v" "nt_usingNodes t = v_users v"
    using sees_T[OF sA v] tview_of_eq by metis
  show "\<not> is_mapped f \<Longrightarrow> node_Subscribe subscribed tm c n = Some n"
    using c f by (simp add: node_Subscribe_def g t)
  assume m: "is_mapped f"
  have cI: "c \<notin> interest A v" using c winv_interest(2)[OF w v] by (auto simp: interest_def map_of_eq_None_iff)
  obtain r where r: "only_subscriber_or_binding_owner t n = Some r" "\<And>c. r = Some c \<longleftrightarrow> interest A v = {c}"
    using only_subscriber_spec[OF sA w v t(3,4)] by blast
  define l where "l = (if r \<noteq> None \<and> r \<noteq> Some c
    then (let d = the r; j = terminal_owner_fsm_mapped_id t d in if id_valid j then [(d, j)] else [])
    else if v_subs v = [] \<and> \<not> id_valid (v_binding v) then mapped_owners t (Some c) else [])"
  have "l = concerned (interest A v) c v"
  proof (cases r)
    case (Some d)
    then have I: "interest A v = {d}" "d \<noteq> c" using r(2)[of d] cI by auto
    then show ?thesis using Some owner_id[OF ow t(1,2), of d] concerned_one[OF ow, of c d]
      by (auto simp: l_def Let_def split: option.split)
  next
    case None
    then have no: "\<nexists>d. interest A v = {d}" using r(2) by auto
    have e: "interest A v = {} \<longleftrightarrow> v_subs v = [] \<and> \<not> id_valid (v_binding v)"
    proof (cases "id_valid (v_binding v)")
      case True
      then have "binding_interest A v \<noteq> []" using inv_bound[OF i v] by (simp add: bound_def)
      then show ?thesis using True by (simp add: interest_def)
    qed (simp add: interest_def binding_interest_def)
    show ?thesis
    proof (cases "interest A v = {}")
      case True
      then show ?thesis using None concerned_all[OF ow t(1,2), of c] e by (simp add: l_def)
    next
      case False
      have "concerned (interest A v) c v = []" by (rule concerned_none[OF False]) (use no in blast)
      then show ?thesis using None False e by (auto simp: l_def)
    qed
  qed
  moreover
  let ?n = "send_each Subscribe l n" and ?f = "\<lambda>t. t\<lparr>nt_subscribers := AList.update c (m_mappedId f) (nt_subscribers t)\<rparr>"
  have sn: "sees ?n A" by (rule sees_send_each[OF sA]) simp
  have "wp True (modify_nt tm ?f ?n) (\<lambda>n'. sees n' (put_T tm (Some v') A))"
    unfolding v'_def
    by (rule wp_modify_nt[OF sn v, where g = "\<lambda>v. v\<lparr>v_subs := AList.update c (m_mappedId f) (v_subs v)\<rparr>"]) (simp_all add: tview_of_def)
  then obtain n1 where n1: "modify_nt tm ?f ?n = Some n1" "sees n1 (put_T tm (Some v') A)" by (auto simp: wp_total)
  have "node_Subscribe subscribed tm c n = subscribed c (m_mappedId f) tm n1"
    using c f m n1(1) by (auto simp: node_Subscribe_def g t r(1) l_def Let_def split: if_splits)
  moreover have "inv True {} (put_T tm (Some v') A)"
    by (rule inv_put_T[OF i v]) (use local_add_subscriber[OF l f m c(2)] in \<open>simp_all add: v'_def tlink_def\<close>)
  ultimately show "inv True {} (put_T tm (Some v') A) \<and>
      (\<exists>n1. node_Subscribe subscribed tm c n = subscribed c (m_mappedId f) tm n1 \<and> sees n1 (put_T tm (Some v') A) \<and>
      nd_out n1 = nd_out n @ map (\<lambda>(c, i). Node_Sent c (Subscribe i)) (concerned (interest A v) c v))"
    using n1(2) modify_nt_out[OF n1(1)] by (auto simp: out_send_each)
qed

lemma local_drop_subscriber: "local_ok s gone A v \<Longrightarrow> local_ok s gone A (v\<lparr>v_subs := AList.delete c (v_subs v)\<rparr>)"
  unfolding local_ok_def subs_ok_def
  using distinct_keys_delete[of "v_subs v" c] by (auto simp: vstate_def users_ok_def sole_owner_def AList.delete_eq)

lemma inv_drop_subscriber:
  assumes "inv s {} A" "a_T A tm = Some v"
  shows "inv s {} (put_T tm (Some (v\<lparr>v_subs := AList.delete c (v_subs v)\<rparr>)) A)"
  by (rule inv_put_T[OF assms]) (use assms local_drop_subscriber in \<open>auto simp: inv_def tlink_def\<close>)

text \<open>Who gets the data, and under which Id.\<close>

definition receivers :: "nview \<Rightarrow> tview \<Rightarrow> connection \<Rightarrow> (connection \<times> id) list" where
  "receivers A v origin = filter (\<lambda>(c, i). c \<noteq> origin) (v_subs v @ map (\<lambda>(c, f). (c, m_mappedId f)) (binding_interest A v))"

lemma send_each_bindings: "nd_bindings (send_each m cs n) = nd_bindings n"
  by (induction cs arbitrary: n) (auto simp: nsend_def)

lemma for_each_send:
  assumes "\<And>c x. (c, x) \<in> set xs \<Longrightarrow> g (c, x) = (\<lambda>n. if c \<noteq> origin then Some (nsend c (m (k x)) n) else Some n)"
  shows "for_each xs g n = Some (send_each m (map (\<lambda>(c, x). (c, k x)) (filter (\<lambda>(c, x). c \<noteq> origin) xs)) n)"
  using assms
proof (induction xs arbitrary: n)
  case (Cons y ys)
  then show ?case by (cases y) auto
qed simp

lemma send_data_spec:
  fixes n :: "('te, 'x) node"
  assumes sA: "sees n A" and i: "inv True {} A" and v: "a_T A tm = Some v"
  shows "send_data_to_subscribers m d tm origin n = Some (send_each (\<lambda>j. m j d) (receivers A v origin) n)"
proof -
  have w: "winv A" and l: "local_ok True {} A v" using inv_winv[OF i] i v by (auto simp: inv_def)
  obtain t where g: "get_nt n tm = Some t" and t: "nt_subscribers t = v_subs v" "nt_binding t = v_binding v" "nt_usingNodes t = v_users v"
    using sees_T[OF sA v] tview_of_eq by metis
  have s: "\<exists>f. map_of (v_users v) c = Some f \<and> is_mapped f" if "(c, j) \<in> set (v_subs v)" for c j
    using l that unfolding local_ok_def subs_ok_def by fastforce
  let ?n = "send_each (\<lambda>j. m j d) (filter (\<lambda>(c, i). c \<noteq> origin) (v_subs v)) n"
  have one: "for_each (v_subs v) (\<lambda>(c, i) n. if c \<noteq> origin then do {
         f \<leftarrow> map_of (nt_usingNodes t) c;
         yassert (is_mapped f);
         Some (nsend c (m i d) n) } else Some n) n = Some ?n"
    by (subst for_each_send[where k = "\<lambda>i. i" and m = "\<lambda>j. m j d" and origin = origin]) (use s t(3) in \<open>fastforce simp: fun_eq_iff\<close>)+
  show ?thesis
  proof (cases "id_valid (v_binding v)")
    case False
    then show ?thesis using one by (simp add: send_data_to_subscribers_def g t receivers_def binding_interest_def)
  next
    case True
    obtain b where b: "a_B A (v_binding v) = Some b" "w_terminal b = tm" "binding_interest A v = w_owners b" "distinct_keys (w_owners b)"
      "\<forall>c \<in> fst ` set (w_owners b). \<not> remote_is_node c"
      by (rule binding_exists[OF w v True])
    have "get_nb ?n (v_binding v) = get_nb n (v_binding v)" by (simp add: get_nb_def send_each_bindings)
    then obtain e where e: "get_nb ?n (v_binding v) = Some e" "nb_owningLeafs e = w_owners b"
      using sees_B[OF sA b(1)] bview_of_eq by metis
    have mp: "is_mapped f" if "(c, f) \<in> set (w_owners b)" for c f
    proof -
      have "fsms_ok owner_ok False (set (a_leafs A)) (w_owners b)" using i b(1) by (simp add: inv_def bindings_ok_def)
      then have "owner_ok f" using that by (auto simp: fsms_ok_def)
      then show ?thesis by (simp add: owner_ok_def is_mapped_def)
    qed
    have "for_each (w_owners b) (\<lambda>(c, f) n. if c \<noteq> origin then do {
         yassert (is_mapped f);
         Some (nsend c (m (m_mappedId f) d) n) } else Some n) ?n =
      Some (send_each (\<lambda>j. m j d) (map (\<lambda>(c, f). (c, m_mappedId f)) (filter (\<lambda>(c, f). c \<noteq> origin) (w_owners b))) ?n)"
      by (rule for_each_send) (use mp in \<open>auto simp: fun_eq_iff\<close>)
    moreover have fm: "filter (\<lambda>(c, i). c \<noteq> origin) (map (\<lambda>(c, f). (c, m_mappedId f)) xs) =
      map (\<lambda>(c, f). (c, m_mappedId f)) (filter (\<lambda>(c, f). c \<noteq> origin) xs)" for xs :: fsm_map by (induction xs) auto
    ultimately show ?thesis using True one e
      by (simp add: send_data_to_subscribers_def g t receivers_def b(3) fm)
  qed
qed

end
