(* ===== verification/Node_Runs.thy ===== *)
theory Node_Runs
  imports Node_Subscriptions
begin

text \<open>
  The logic object of a terminal class on a node under any sequence of calls: connections start and
  end, and messages arrive that the other ends of the connections may send.
\<close>

section \<open>Calls\<close>

datatype node_call = Node_Started connection | Node_Destroyed connection | Node_Received body connection

text \<open>The states of a user and of an owner of a terminal or binding, where there is one.\<close>

definition user_machine :: "id \<Rightarrow> connection \<Rightarrow> ('te, 'x) node \<Rightarrow> fsm option" where
  "user_machine tm c n = do { t \<leftarrow> get_nt n tm; map_of (nt_usingNodes t) c }"

definition owner_machine :: "id \<Rightarrow> connection \<Rightarrow> ('te, 'x) node \<Rightarrow> fsm option" where
  "owner_machine tm c n = do { t \<leftarrow> get_nt n tm; map_of (nt_owners c t) c }"

definition binding_machine :: "id \<Rightarrow> connection \<Rightarrow> ('te, 'x) node \<Rightarrow> fsm option" where
  "binding_machine bd c n = do { b \<leftarrow> get_nb n bd; map_of (nb_owningLeafs b) c }"

definition in_states :: "fsm_state list \<Rightarrow> fsm option \<Rightarrow> bool" where
  "in_states ss m = (case m of None \<Rightarrow> False | Some f \<Rightarrow> m_state f \<in> set ss)"

text \<open>
  What the other end of a live connection may send: descriptions with its own valid Ids, mappings of
  what it was told about, removals of what it has described, acknowledgements that are awaited; a
  node subscribes once to a terminal it was told about.
\<close>

fun node_from_peer :: "body \<Rightarrow> connection \<Rightarrow> ('te, 'x) node \<Rightarrow> bool" where
  "node_from_peer (TerminalDescription x i) c n = id_valid i"
| "node_from_peer (TerminalMapping tm m) c n =
     (remote_is_node c \<and> in_states [UNUSED_UNCONFIRMED, AWAIT_CONFIRMATION] (user_machine tm c n))"
| "node_from_peer (TerminalRemoved tm) c n = (owner_machine tm c n \<noteq> None)"
| "node_from_peer (TerminalRemovedAck tm) c n = (remote_is_node c \<and> in_states [AWAIT_ACK] (user_machine tm c n))"
| "node_from_peer (BindingDescription x i) c n = (\<not> remote_is_node c \<and> id_valid i)"
| "node_from_peer (BindingRemoved bd) c n = (\<not> remote_is_node c \<and> binding_machine bd c n \<noteq> None)"
| "node_from_peer (Subscribe tm) c n = (remote_is_node c \<and> user_machine tm c n \<noteq> None \<and>
     (case get_nt n tm of None \<Rightarrow> False | Some t \<Rightarrow> map_of (nt_subscribers t) c = None))"
| "node_from_peer (Unsubscribe tm) c n = (get_nt n tm \<noteq> None)"
| "node_from_peer (Data tm d) c n = (get_nt n tm \<noteq> None)"
| "node_from_peer (CachedData tm d) c n = (get_nt n tm \<noteq> None)"
| "node_from_peer _ c n = False"

text \<open>The messages of a class; the deaf-mute class has those of the base class only.\<close>

type_synonym node_protocol = "body \<Rightarrow> bool"

definition base_protocol :: node_protocol where "base_protocol = base_body"

fun ps_protocol :: node_protocol where
  "ps_protocol (CachedData tm d) = False"
| "ps_protocol (Scatter tm i d) = False"
| "ps_protocol (Gather i f d) = False"
| "ps_protocol b = True"

fun cached_protocol :: node_protocol where
  "cached_protocol (Scatter tm i d) = False"
| "cached_protocol (Gather i f d) = False"
| "cached_protocol b = True"

fun node_legal :: "node_protocol \<Rightarrow> node_call \<Rightarrow> ('te, 'x) node \<Rightarrow> bool" where
  "node_legal p (Node_Started c) n = (\<not> is_connection_alive c n)"
| "node_legal p (Node_Destroyed c) n = True"
| "node_legal p (Node_Received b c) n = (p b \<and> is_connection_alive c n \<and> node_from_peer b c n)"

fun node_do ::
  "('te, 'x) node_hooks \<Rightarrow> (body \<Rightarrow> connection \<Rightarrow> ('te, 'x) node \<Rightarrow> ('te, 'x) node option) \<Rightarrow> node_call \<Rightarrow>
   ('te, 'x) node \<Rightarrow> ('te, 'x) node option" where
  "node_do h rcv (Node_Started c) n = node_connection_started c n"
| "node_do h rcv (Node_Destroyed c) n = node_connection_destroyed h c n"
| "node_do h rcv (Node_Received b c) n = rcv b c n"

text \<open>Every call of the sequence is legal in the state it finds; a failed call does not make it legal.\<close>

fun node_legal_run ::
  "('te, 'x) node_hooks \<Rightarrow> (body \<Rightarrow> connection \<Rightarrow> ('te, 'x) node \<Rightarrow> ('te, 'x) node option) \<Rightarrow> node_protocol \<Rightarrow>
   node_call list \<Rightarrow> ('te, 'x) node \<Rightarrow> bool" where
  "node_legal_run h rcv p [] n = True"
| "node_legal_run h rcv p (c # cs) n = (node_legal p c n \<and>
     (case node_do h rcv c n of None \<Rightarrow> True | Some n' \<Rightarrow> node_legal_run h rcv p cs n'))"

definition node_run ::
  "('te, 'x) node_hooks \<Rightarrow> (body \<Rightarrow> connection \<Rightarrow> ('te, 'x) node \<Rightarrow> ('te, 'x) node option) \<Rightarrow> node_call list \<Rightarrow>
   ('te, 'x) node \<Rightarrow> ('te, 'x) node option" where
  "node_run h rcv cs n = for_each cs (node_do h rcv) n"

section \<open>Consistency\<close>

text \<open>
  A node is consistent if every terminal and binding refers to live connections only, has been
  acknowledged to its owners, has been told to every node that does not own it alone, is in the state
  that goes with its owners, and refers to its counterpart, which refers to it.
\<close>

definition machines_ok :: "(fsm \<Rightarrow> bool) \<Rightarrow> connection list \<Rightarrow> fsm_map \<Rightarrow> bool" where
  "machines_ok P cs m \<longleftrightarrow> distinct_keys m \<and> (\<forall>(c, f) \<in> set m. c \<in> set cs \<and> P f)"

definition told_to_all :: "('te, 'x) node \<Rightarrow> 'te node_terminal \<Rightarrow> bool" where
  "told_to_all n t \<longleftrightarrow> (\<forall>c \<in> set (nd_nodeConnections n). map_of (nt_usingNodes t) c \<noteq> None \<or>
     nt_owningLeafs t = [] \<and> map fst (nt_owningNodes t) = [c])"

definition terminal_consistent :: "('te, 'x) node \<Rightarrow> id \<Rightarrow> bool" where
  "terminal_consistent n tm = (case find_id (nd_terminals n) tm of None \<Rightarrow> False | Some e \<Rightarrow> (let t = el_data e in
     machines_ok is_mapped (nd_leafConnections n) (nt_owningLeafs t) \<and>
     machines_ok is_mapped (nd_nodeConnections n) (nt_owningNodes t) \<and>
     machines_ok (\<lambda>f. m_skipRemovedAcks f = 0) (nd_nodeConnections n) (nt_usingNodes t) \<and>
     nt_state t = owners_state t \<and>
     (if el_hidden e then nt_owningLeafs t = [] \<and> nt_owningNodes t = [] \<and> nt_usingNodes t \<noteq> [] \<and> \<not> id_valid (nt_binding t)
      else (nt_owningLeafs t \<noteq> [] \<or> nt_owningNodes t \<noteq> []) \<and> told_to_all n t) \<and>
     (\<forall>(c, i) \<in> set (nt_subscribers t). case map_of (nt_usingNodes t) c of None \<Rightarrow> False | Some f \<Rightarrow> is_mapped f \<and> m_mappedId f = i) \<and>
     (id_valid (nt_binding t) \<longrightarrow> (case get_nb n (nt_binding t) of None \<Rightarrow> False | Some b \<Rightarrow> nb_terminal b = tm))))"

definition binding_consistent :: "('te, 'x) node \<Rightarrow> id \<Rightarrow> bool" where
  "binding_consistent n bd = (case find_id (nd_bindings n) bd of None \<Rightarrow> False | Some e \<Rightarrow> (let b = el_data e in
     nb_owningLeafs b \<noteq> [] \<and> machines_ok is_mapped (nd_leafConnections n) (nb_owningLeafs b) \<and>
     (id_valid (nb_terminal b) \<longrightarrow> (case get_nt n (nb_terminal b) of None \<Rightarrow> False | Some t \<Rightarrow> nt_binding t = bd)) \<and>
     (\<not> id_valid (nb_terminal b) \<longrightarrow> find_ident (nd_terminals n) (el_ident e) = None)))"

definition node_consistent :: "('te, 'x) node \<Rightarrow> bool" where
  "node_consistent n \<longleftrightarrow> distinct (nd_leafConnections n @ nd_nodeConnections n) \<and>
     (\<forall>tm \<in> set (ireg_ids (nd_terminals n)). terminal_consistent n tm) \<and>
     (\<forall>bd \<in> set (ireg_ids (nd_bindings n)). binding_consistent n bd)"

lemma machines_okI: "fsms_ok P k (set cs) m \<Longrightarrow> (\<And>f. P f \<Longrightarrow> P' f) \<Longrightarrow> machines_ok P' cs m"
  by (auto simp: fsms_ok_def machines_ok_def)

lemma owner_machines: "fsms_ok owner_ok k (set cs) m \<Longrightarrow> machines_ok is_mapped cs m"
  by (erule machines_okI) (simp_all add: owner_ok_def is_mapped_def)

lemma user_machines: "fsms_ok user_ok k (set cs) m \<Longrightarrow> machines_ok (\<lambda>f. m_skipRemovedAcks f = 0) cs m"
  by (erule machines_okI) (simp_all add: user_ok_def)

lemma inv_consistent:
  fixes n :: "('te, 'x) node"
  assumes s: "sees n A" and i: "inv s' {} A"
  shows "node_consistent n"
proof -
  have lo: "links_ok A" and co: "complete A" and cn: "conns_ok A" using i by (simp_all add: inv_def)
  have conns: "nd_leafConnections n = a_leafs A" "nd_nodeConnections n = a_nodes A" using seesD(3,4)[OF s] by simp_all
  have T: "terminal_consistent n tm" if h: "tm \<in> set (ireg_ids (nd_terminals n))" for tm
  proof -
    obtain e where e: "find_id (nd_terminals n) tm = Some e" using h set_ireg_ids[OF seesD(1)[OF s]] by auto
    define v where "v = tview_of e"
    have v: "a_T A tm = Some v" using seesD(5)[OF s, of tm] e by (simp add: v_def)
    have ev: "nt_state (el_data e) = v_state v" "nt_owningLeafs (el_data e) = v_leafs v" "nt_owningNodes (el_data e) = v_nodes v"
      "nt_usingNodes (el_data e) = v_users v" "nt_binding (el_data e) = v_binding v" "nt_subscribers (el_data e) = v_subs v"
      "el_hidden e = v_hidden v" by (simp_all add: v_def tview_of_def)
    have l: "local_ok s' {} A v" using i v by (simp add: inv_def)
    have "case get_nb n (v_binding v) of None \<Rightarrow> False | Some b \<Rightarrow> nb_terminal b = tm" if h: "id_valid (v_binding v)"
    proof -
      obtain b where b: "a_B A (v_binding v) = Some b" "w_terminal b = tm" using links_okD(3)[OF lo v h] by (auto simp: blink_def)
      have "wp True (get_nb n (v_binding v)) (\<lambda>b. nb_terminal b = tm)" by (rule wp_get_nb[OF s b(1)]) (simp add: b(2))
      then show ?thesis by (auto simp: wp_total)
    qed
    moreover have "v_state v = owners_state (el_data e)" using ev l by (simp add: local_ok_def owners_state_def vstate_def Let_def)
    moreover have "machines_ok is_mapped (a_leafs A) (v_leafs v)" "machines_ok is_mapped (a_nodes A) (v_nodes v)"
      "machines_ok (\<lambda>f. m_skipRemovedAcks f = 0) (a_nodes A) (v_users v)"
      using l owner_machines user_machines unfolding local_ok_def Un_empty_right by blast+
    moreover have "if v_hidden v then v_leafs v = [] \<and> v_nodes v = [] \<and> v_users v \<noteq> [] \<and> \<not> id_valid (v_binding v)
      else (v_leafs v \<noteq> [] \<or> v_nodes v \<noteq> []) \<and> told_to_all n (el_data e)"
      using l links_okD(2)[OF lo v] ev unfolding local_ok_def users_ok_def told_to_all_def sole_owner_def conns by auto
    moreover have "\<forall>(c, i) \<in> set (v_subs v). case map_of (v_users v) c of None \<Rightarrow> False | Some f \<Rightarrow> is_mapped f \<and> m_mappedId f = i"
      using l unfolding local_ok_def subs_ok_def by fastforce
    ultimately show ?thesis unfolding terminal_consistent_def e option.case Let_def conns ev by (intro conjI impI)
  qed
  have B: "binding_consistent n bd" if h: "bd \<in> set (ireg_ids (nd_bindings n))" for bd
  proof -
    obtain e where e: "find_id (nd_bindings n) bd = Some e" using h set_ireg_ids[OF seesD(2)[OF s]] by auto
    define b where "b = bview_of e"
    have b: "a_B A bd = Some b" using seesD(6)[OF s, of bd] e by (simp add: b_def)
    have eb: "nb_owningLeafs (el_data e) = w_owners b" "nb_terminal (el_data e) = w_terminal b" "el_ident e = w_ident b"
      by (simp_all add: b_def bview_of_def)
    have "case get_nt n (w_terminal b) of None \<Rightarrow> False | Some t \<Rightarrow> nt_binding t = bd" if h: "id_valid (w_terminal b)"
    proof -
      obtain v where v: "a_T A (w_terminal b) = Some v" "v_binding v = bd" using links_okD(5)[OF lo b h] by (auto simp: tlink_def)
      have "wp True (get_nt n (w_terminal b)) (\<lambda>t. nt_binding t = bd)" by (rule wp_get_nt[OF s v(1)]) (simp add: v(2))
      then show ?thesis by (auto simp: wp_total)
    qed
    moreover have "find_ident (nd_terminals n) (w_ident b) = None" if h: "\<not> id_valid (w_terminal b)"
    proof (rule ccontr)
      assume "find_ident (nd_terminals n) (w_ident b) \<noteq> None"
      then obtain x where "find_ident (nd_terminals n) (w_ident b) = Some x" by auto
      then obtain v where "a_T A (el_id x) = Some v" "v_ident v = w_ident b" "\<not> v_hidden v"
        using find_ident_T(1)[OF s, of "w_ident b" x] by auto
      then have "T_links A (el_id x) = Some (w_ident b, False, v_binding v)" "B_links A bd = Some (w_ident b, False, w_terminal b)"
        using b links_okD(4)[OF lo b] by (simp_all add: T_links_def B_links_def tlink_def blink_def)
      moreover from this co have "v_binding v = bd" unfolding complete_def linked_def by blast
      ultimately show False using linksD(3)[OF lo[unfolded links_ok_def], of "el_id x" "w_ident b" False bd] links_okD(4)[OF lo b]
          links_okD(1)[OF lo] h \<open>a_T A (el_id x) = Some v\<close> by auto
    qed
    moreover have "w_owners b \<noteq> [] \<and> machines_ok is_mapped (a_leafs A) (w_owners b)"
      using i b owner_machines unfolding inv_def bindings_ok_def Un_empty_right by blast
    ultimately show ?thesis unfolding binding_consistent_def e option.case Let_def conns eb by (intro conjI impI) simp_all
  qed
  show ?thesis using T B cn unfolding node_consistent_def conns conns_ok_def by auto
qed

section \<open>A terminal class\<close>

lemma sees_get_nt: "sees n A \<Longrightarrow> get_nt n tm = None \<longleftrightarrow> a_T A tm = None"
  using seesD(5)[of n A tm, symmetric] by (cases "find_id (nd_terminals n) tm") (simp_all add: get_nt_def)

lemma machines_view:
  fixes n :: "('te, 'x) node"
  assumes s: "sees n A"
  shows "user_machine tm c n = Some f \<Longrightarrow> \<exists>v. a_T A tm = Some v \<and> map_of (v_users v) c = Some f"
    and "owner_machine tm c n = Some f \<Longrightarrow> \<exists>v. a_T A tm = Some v \<and> map_of (vowners c v) c = Some f"
    and "binding_machine bd c n = Some f \<Longrightarrow> \<exists>b. a_B A bd = Some b \<and> map_of (w_owners b) c = Some f"
    and "get_nt n tm = Some t \<Longrightarrow> \<exists>v. a_T A tm = Some v \<and> v_subs v = nt_subscribers t \<and> v_users v = nt_usingNodes t"
proof -
  show "user_machine tm c n = Some f \<Longrightarrow> \<exists>v. a_T A tm = Some v \<and> map_of (v_users v) c = Some f"
    "owner_machine tm c n = Some f \<Longrightarrow> \<exists>v. a_T A tm = Some v \<and> map_of (vowners c v) c = Some f"
    "get_nt n tm = Some t \<Longrightarrow> \<exists>v. a_T A tm = Some v \<and> v_subs v = nt_subscribers t \<and> v_users v = nt_usingNodes t"
    using seesD(5)[OF s, of tm, symmetric]
    by (cases "find_id (nd_terminals n) tm";
        auto simp: user_machine_def owner_machine_def get_nt_def tview_of_def vowners_def nt_owners_def)+
  show "binding_machine bd c n = Some f \<Longrightarrow> \<exists>b. a_B A bd = Some b \<and> map_of (w_owners b) c = Some f"
    using seesD(6)[OF s, of bd, symmetric]
    by (cases "find_id (nd_bindings n) bd") (auto simp: binding_machine_def get_nb_def bview_of_def)
qed

text \<open>A node in some consistent state.\<close>

definition good :: "bool \<Rightarrow> ('te, 'x) node \<Rightarrow> bool" where
  "good s n \<longleftrightarrow> (\<exists>A. sees n A \<and> inv s {} A)"

lemma goodI: "sees n (out_A es A) \<Longrightarrow> inv s {} A \<Longrightarrow> good s n"
  unfolding good_def using inv_out[of s "{}" es A] by blast

lemma good_init: "good s (node_init x :: ('te, 'x) node)"
proof -
  have "inv s {} (view (node_init x :: ('te, 'x) node))"
    by (auto simp: inv_def view_def node_init_def conns_ok_def links_ok_def links_def complete_def linked_def T_links_def B_links_def bindings_ok_def)
  then show ?thesis by (auto simp: good_def sees_def node_init_def ireg_ok_empty)
qed

context node_class begin

lemma base_message:
  fixes n :: "('te, 'x) node"
  assumes sA: "sees n A" and i: "inv s {} A" and alive: "is_connection_alive c n" and b: "base_body b" and p: "node_from_peer b c n"
  shows "wp tot (node_receive h b c n) (good s)"
proof -
  have al: "c \<in> set (if remote_is_node c then a_nodes A else a_leafs A)"
    using alive seesD(3,4)[OF sA] by (auto simp: is_connection_alive_def)
  note m = machines_view[OF sA]
  show ?thesis
  proof (cases b)
    case (TerminalDescription x j)
    then have j: "id_valid j" using p by simp
    show ?thesis unfolding TerminalDescription node_receive.simps
      by (rule wp_node_TerminalDescription[OF sA i al j]) (erule (1) goodI)+
  next
    case (TerminalMapping tm k)
    then obtain f where c: "remote_is_node c" and f: "user_machine tm c n = Some f" "m_state f = UNUSED_UNCONFIRMED \<or> m_state f = AWAIT_CONFIRMATION"
      using p by (auto simp: in_states_def split: option.splits)
    obtain v where v: "a_T A tm = Some v" "map_of (v_users v) c = Some f" using m(1)[OF f(1)] by blast
    show ?thesis unfolding TerminalMapping node_receive.simps
      by (rule wp_node_TerminalMapping[OF sA i c v f(2)]) (erule (1) goodI)
  next
    case (TerminalRemoved tm)
    then obtain f where "owner_machine tm c n = Some f" using p by auto
    then obtain v where v: "a_T A tm = Some v" "map_of (vowners c v) c = Some f" using m(2) by blast
    show ?thesis unfolding TerminalRemoved node_receive.simps
      by (rule wp_node_TerminalRemoved[OF sA i v]) (auto simp: good_def dest: goodI)
  next
    case (TerminalRemovedAck tm)
    then obtain f where c: "remote_is_node c" and f: "user_machine tm c n = Some f" "m_state f = AWAIT_ACK"
      using p by (auto simp: in_states_def split: option.splits)
    obtain v where v: "a_T A tm = Some v" "map_of (v_users v) c = Some f" using m(1)[OF f(1)] by blast
    show ?thesis unfolding TerminalRemovedAck node_receive.simps
      by (rule wp_node_TerminalRemovedAck[OF sA i c v f(2)]) (erule (1) goodI)
  next
    case (BindingDescription x j)
    then have j: "id_valid j" and c: "\<not> remote_is_node c" "c \<in> set (a_leafs A)" using p al by auto
    show ?thesis unfolding BindingDescription node_receive.simps
      by (rule wp_node_BindingDescription[OF sA i c j]) (erule (1) goodI[rotated])+
  next
    case (BindingRemoved bd)
    then obtain f where c: "\<not> remote_is_node c" and f: "binding_machine bd c n = Some f" using p by auto
    obtain w where w: "a_B A bd = Some w" "map_of (w_owners w) c = Some f" using m(3)[OF f] by blast
    show ?thesis unfolding BindingRemoved node_receive.simps
      by (rule wp_node_BindingRemoved[OF sA i c w]) (auto simp: good_def dest: goodI)
  qed (use b p in simp_all)
qed

end

text \<open>The messages a class adds keep the invariant, too.\<close>

locale node_receiver = node_class h True s for h :: "('te, 'x) node_hooks" and s +
  fixes rcv :: "body \<Rightarrow> connection \<Rightarrow> ('te, 'x) node \<Rightarrow> ('te, 'x) node option" and p :: node_protocol
  assumes rcv_base: "base_body b \<Longrightarrow> rcv b = node_receive h b"
    and rcv_class: "\<not> base_body b \<Longrightarrow> p b \<Longrightarrow> sees n A \<Longrightarrow> inv s {} A \<Longrightarrow> node_from_peer b c n \<Longrightarrow> wp True (rcv b c n) (good s)"
begin

lemma node_do_good:
  assumes g: "good s n" and l: "node_legal p call n"
  shows "wp True (node_do h rcv call n) (good s)"
proof -
  obtain A where A: "sees n A" "inv s {} A" using g by (auto simp: good_def)
  show ?thesis
  proof (cases call)
    case (Node_Started c)
    then have "c \<notin> set (if remote_is_node c then a_nodes A else a_leafs A)"
      using l seesD(3,4)[OF A(1)] by (auto simp: is_connection_alive_def split: if_splits)
    then show ?thesis unfolding Node_Started node_do.simps
      by (rule wp_node_connection_started[OF A]) (auto dest: goodI)
  next
    case (Node_Destroyed c)
    show ?thesis unfolding Node_Destroyed node_do.simps
      by (rule wp_node_connection_destroyed[OF A]) (auto dest: goodI)
  next
    case (Node_Received b c)
    then have l': "p b" "is_connection_alive c n" "node_from_peer b c n" using l by auto
    show ?thesis
    proof (cases "base_body b")
      case True
      from base_message[OF A l'(2) this l'(3)] show ?thesis by (simp add: Node_Received rcv_base[OF True])
    next
      case False
      from rcv_class[OF this l'(1) A l'(3)] show ?thesis by (simp add: Node_Received)
    qed
  qed
qed

lemma runs: "good s n \<Longrightarrow> node_legal_run h rcv p cs n \<Longrightarrow> \<exists>n'. node_run h rcv cs n = Some n' \<and> good s n'"
proof (induction cs arbitrary: n)
  case (Cons c cs)
  from Cons.prems have "wp True (node_do h rcv c n) (good s)" by (intro node_do_good) simp_all
  then obtain n1 where "node_do h rcv c n = Some n1" "good s n1" by (auto simp: wp_total)
  then show ?case using Cons by (auto simp: node_run_def)
qed (simp add: node_run_def)

lemma runs_consistent:
  assumes "node_legal_run h rcv p cs (node_init x)"
  shows "\<exists>n. node_run h rcv cs (node_init x) = Some n \<and> node_consistent n"
  using runs[OF good_init assms] inv_consistent by (auto simp: good_def)

end

section \<open>The classes\<close>

interpretation deaf_mute_runs: node_receiver "no_hooks e" False "node_receive (no_hooks e)" base_protocol for e :: 'te
  by unfold_locales (simp_all add: base_protocol_def)

lemma wp_node_Subscribe:
  fixes n :: "('te, 'x) node"
  assumes s: "sees n A" and i: "inv True {} A" and p: "node_from_peer (Subscribe tm) c n"
    and R: "\<And>j n A v. sees n A \<Longrightarrow> a_T A tm = Some v \<Longrightarrow> wp True (subscribed c j tm n) (\<lambda>n'. sees n' A)"
  shows "wp True (node_Subscribe subscribed tm c n) (good True)"
proof -
  obtain f t where c: "remote_is_node c" and f: "user_machine tm c n = Some f" and t: "get_nt n tm = Some t" "map_of (nt_subscribers t) c = None"
    using p by (auto split: option.splits)
  obtain v where v: "a_T A tm = Some v" "v_subs v = nt_subscribers t" "v_users v = nt_usingNodes t" using machines_view(4)[OF s t(1)] by blast
  have fv: "map_of (v_users v) c = Some f" using f v t by (auto simp: user_machine_def)
  have cs: "map_of (v_subs v) c = None" using t v by simp
  note spec = subscribe_spec[OF s i v(1) c cs fv]
  show ?thesis
  proof (cases "is_mapped f")
    case False
    then show ?thesis using spec(1)[OF False] s i by (auto simp: good_def)
  next
    case True
    let ?A = "put_T tm (Some (v\<lparr>v_subs := AList.update c (m_mappedId f) (v_subs v)\<rparr>)) A"
    obtain n1 where n1: "node_Subscribe subscribed tm c n = subscribed c (m_mappedId f) tm n1" "sees n1 ?A" and iA: "inv True {} ?A"
      using spec(2)[OF True] by blast
    show ?thesis unfolding n1(1) by (rule wp_mono[OF R[OF n1(2)]]) (use iA in \<open>auto simp: good_def\<close>)
  qed
qed

lemma wp_node_Unsubscribe:
  fixes n :: "('te, 'x) node"
  assumes s: "sees n A" and i: "inv True {} A" and p: "node_from_peer (Unsubscribe tm) c n"
    and R: "\<And>n A v. sees n A \<Longrightarrow> a_T A tm = Some v \<Longrightarrow> wp True (removed c tm n) (\<lambda>n'. sees n' A)"
  shows "wp True (node_Unsubscribe removed tm c n) (good True)"
proof -
  obtain v where v: "a_T A tm = Some v" using p sees_get_nt[OF s] by auto
  obtain t where t: "get_nt n tm = Some t" "nt_subscribers t = v_subs v" using sees_T[OF s v] tview_of_eq by metis
  show ?thesis
  proof (cases "map_of (v_subs v) c")
    case None
    then show ?thesis using t s i by (auto simp: node_Unsubscribe_def remove_subscriber_if_needed_def good_def)
  next
    case (Some j)
    let ?A = "put_T tm (Some (v\<lparr>v_subs := AList.delete c (v_subs v)\<rparr>)) A"
    from Some have "map_of (v_subs v) c \<noteq> None" by simp
    from remove_subscriber_spec[OF s inv_winv[OF i] v this, of removed] obtain n1 where
      n1: "remove_subscriber_if_needed removed c tm n = removed c tm n1" "sees n1 ?A" by blast
    show ?thesis unfolding node_Unsubscribe_def t(1) bind.bind_lunit n1(1)
      by (rule wp_mono[OF R[OF n1(2)]]) (use inv_drop_subscriber[OF i v] in \<open>auto simp: good_def\<close>)
  qed
qed

lemma send_data_good:
  fixes n :: "('te, 'x) node"
  assumes s: "sees n A" and i: "inv True {} A" and p: "get_nt n tm \<noteq> None" and m: "\<forall>j. \<not> base_body (m j d)"
  shows "wp True (send_data_to_subscribers m d tm c n) (good True)"
proof -
  obtain v where v: "a_T A tm = Some v" using p sees_get_nt[OF s] by auto
  show ?thesis using send_data_spec[OF s i v, of m d c] sees_send_each[OF s, of "\<lambda>j. m j d"] m i by (auto simp: good_def)
qed

interpretation ps_runs: node_receiver ps_node_hooks True ps_node_receive ps_protocol
proof unfold_locales
  show "ps_node_receive b = node_receive ps_node_hooks b" if "base_body b" for b using that by (cases b) auto
  fix b c A and n :: "(unit, unit) node"
  assume b: "\<not> base_body b" "ps_protocol b" and s: "sees n A" "inv True {} A" and p: "node_from_peer b c n"
  then show "wp True (ps_node_receive b c n) (good True)"
    by (cases b) (auto intro!: wp_node_Subscribe[OF s] wp_node_Unsubscribe[OF s] send_data_good[OF s])
qed

lemma wp_cached_node_data:
  fixes n :: cached_node
  assumes s: "sees n A" and i: "inv True {} A" and p: "get_nt n tm \<noteq> None" and m: "\<forall>j. \<not> base_body (m j d)"
  shows "wp True (cached_node_data m d tm c n) (good True)"
proof -
  obtain v where v: "a_T A tm = Some v" using p sees_get_nt[OF s] by auto
  show ?thesis unfolding cached_node_data_def store_last_message_def
  proof (rule wp_bind, rule wp_modify_nt[OF s v, where g = "\<lambda>v. v"])
    fix n1 :: cached_node
    assume "sees n1 (put_T tm (Some v) A)"
    then have s1: "sees n1 A" by (simp add: put_T_same[OF v])
    show "wp True (send_data_to_subscribers m d tm c n1) (good True)"
      by (rule send_data_good[OF s1 i]) (use sees_get_nt[OF s1] v m in auto)
  qed (simp add: tview_of_def)
qed

interpretation cached_runs: node_receiver cached_node_hooks True cached_node_receive cached_protocol
proof unfold_locales
  show "cached_node_receive b = node_receive cached_node_hooks b" if "base_body b" for b using that by (cases b) auto
  fix b c A and n :: cached_node
  assume b: "\<not> base_body b" "cached_protocol b" and s: "sees n A" "inv True {} A" and p: "node_from_peer b c n"
  then show "wp True (cached_node_receive b c n) (good True)"
    by (cases b) (auto intro!: wp_node_Subscribe[OF s] wp_node_Unsubscribe[OF s] wp_cached_node_data[OF s] wp_send_cached_data)
qed

end
