(* ===== verification/Node_Status.thy ===== *)
theory Node_Status
  imports Node_Runs
begin

text \<open>
  What the leafs are told about their bindings.  A binding is established for its owner if the node
  knows the terminal at another connection; every message the node receives makes it tell exactly the
  owners for which this changes, once each.
\<close>

section \<open>Established bindings\<close>

definition binding_owners_of :: "('te, 'x) node \<Rightarrow> id \<Rightarrow> fsm_map" where
  "binding_owners_of n bd = (case get_nb n bd of None \<Rightarrow> [] | Some b \<Rightarrow> nb_owningLeafs b)"

definition node_established :: "('te, 'x) node \<Rightarrow> id \<Rightarrow> connection \<Rightarrow> bool" where
  "node_established n bd c = (case get_nb n bd of None \<Rightarrow> False
     | Some b \<Rightarrow> map_of (nb_owningLeafs b) c \<noteq> None \<and> id_valid (nb_terminal b) \<and>
         (case get_nt n (nb_terminal b) of None \<Rightarrow> False
          | Some t \<Rightarrow> \<exists>d \<in> fst ` set (nt_owningLeafs t @ nt_owningNodes t). d \<noteq> c))"

fun binding_event :: "node_event \<Rightarrow> bool" where
  "binding_event (Node_Sent c (BindingEstablished i)) = True"
| "binding_event (Node_Sent c (BindingReleased i)) = True"
| "binding_event _ = False"

definition changes_of :: "('te, 'x) node \<Rightarrow> ('te, 'x) node \<Rightarrow> id \<Rightarrow> node_event list" where
  "changes_of n n' bd =
     tell_binding_owners BindingEstablished (\<lambda>c. node_established n' bd c \<and> \<not> node_established n bd c) (binding_owners_of n' bd) @
     tell_binding_owners BindingReleased (\<lambda>c. node_established n bd c \<and> \<not> node_established n' bd c) (binding_owners_of n' bd)"

definition status_changes :: "('te, 'x) node \<Rightarrow> ('te, 'x) node \<Rightarrow> node_event list" where
  "status_changes n n' = concat (map (changes_of n n') (ireg_ids (nd_bindings n')))"

section \<open>Changes of the view\<close>

definition bowners :: "nview \<Rightarrow> id \<Rightarrow> fsm_map" where
  "bowners A bd = (case a_B A bd of None \<Rightarrow> [] | Some b \<Rightarrow> w_owners b)"

definition changes :: "nview \<Rightarrow> nview \<Rightarrow> id \<Rightarrow> node_event list" where
  "changes A A' bd = tell_binding_owners BindingEstablished (\<lambda>c. established A' bd c \<and> \<not> established A bd c) (bowners A' bd) @
     tell_binding_owners BindingReleased (\<lambda>c. established A bd c \<and> \<not> established A' bd c) (bowners A' bd)"

lemma established_view:
  fixes n :: "('te, 'x) node"
  assumes s: "sees n A"
  shows "node_established n = established A" "binding_owners_of n = bowners A"
proof -
  have "node_established n bd c = established A bd c \<and> binding_owners_of n bd = bowners A bd" for bd c
  proof (cases "a_B A bd")
    case None
    then have "find_id (nd_bindings n) bd = None" using seesD(6)[OF s, of bd] by simp
    then show ?thesis by (simp add: node_established_def established_def binding_owners_of_def bowners_def None get_nb_def)
  next
    case (Some b)
    obtain e where e: "get_nb n bd = Some e" "nb_owningLeafs e = w_owners b" "nb_terminal e = w_terminal b"
      using sees_B[OF s Some] bview_of_eq by metis
    have "(case get_nt n (w_terminal b) of None \<Rightarrow> False
          | Some t \<Rightarrow> \<exists>d \<in> fst ` set (nt_owningLeafs t @ nt_owningNodes t). d \<noteq> c) =
        (case a_T A (w_terminal b) of None \<Rightarrow> False | Some v \<Rightarrow> owned_elsewhere v c)"
      using seesD(5)[OF s, of "w_terminal b", symmetric]
      by (cases "find_id (nd_terminals n) (w_terminal b)") (simp_all add: get_nt_def owned_elsewhere_def tview_of_def)
    then show ?thesis using e Some by (simp add: node_established_def established_def binding_owners_of_def bowners_def)
  qed
  then show "node_established n = established A" "binding_owners_of n = bowners A" by (auto simp: fun_eq_iff)
qed

lemma concat_one:
  assumes "distinct xs" "\<And>x. x \<noteq> k \<Longrightarrow> g x = []" "k \<notin> set xs \<Longrightarrow> g k = []"
  shows "concat (map g xs) = g k"
  using assms(1,3)
proof (induction xs)
  case (Cons x xs)
  show ?case
  proof (cases "x = k")
    case True
    have "g y = []" if "y \<in> set xs" for y by (rule assms(2)) (use that True Cons.prems(1) in auto)
    then have "concat (map g xs) = []" by simp
    then show ?thesis using True by simp
  next
    case False
    then show ?thesis using Cons assms(2)[OF False] by auto
  qed
qed simp

lemma changes_none: "(\<And>c f. (c, f) \<in> set (bowners A' bd) \<Longrightarrow> established A' bd c = established A bd c) \<Longrightarrow> changes A A' bd = []"
  unfolding changes_def by (intro iffD2[OF append_is_Nil_conv] conjI tell_none) auto

text \<open>The events of a step that concerns the binding \<open>k\<close>.\<close>

lemma status_changes_view:
  fixes n n' :: "('te, 'x) node"
  assumes s: "sees n A" "sees n' (out_A es A')"
    and k: "\<And>bd c f. bd \<noteq> k \<Longrightarrow> (c, f) \<in> set (bowners A' bd) \<Longrightarrow> established A' bd c = established A bd c"
  shows "status_changes n n' = changes A A' k"
proof -
  have e: "bowners (out_A es A') = bowners A'" by (simp add: bowners_def fun_eq_iff)
  have ch: "changes_of n n' = changes A A'"
    using established_view[OF s(1)] established_view[OF s(2)] e by (simp add: changes_of_def changes_def fun_eq_iff)
  have "distinct (ireg_ids (nd_bindings n'))"
    using sorted_ireg_ids[OF seesD(2)[OF s(2)]] by (simp add: strict_sorted_iff)
  moreover have "changes A A' bd = []" if "bd \<noteq> k" for bd by (rule changes_none) (rule k[OF that])
  moreover have "changes A A' k = []" if "k \<notin> set (ireg_ids (nd_bindings n'))"
  proof -
    have "find_id (nd_bindings n') k = None" using that set_ireg_ids[OF seesD(2)[OF s(2)], of k] by simp
    then have "a_B A' k = None" using seesD(6)[OF s(2), of k] by simp
    then show ?thesis by (simp add: changes_def bowners_def)
  qed
  ultimately show ?thesis unfolding status_changes_def ch by (rule concat_one)
qed

lemma binding_events_view:
  assumes "sees n A"
  shows "filter binding_event (nd_out n) = filter binding_event (a_out A)"
proof -
  have "binding_event e \<Longrightarrow> base_event e" for e by (cases e rule: binding_event.cases) auto
  then have "filter binding_event (nd_out n) = filter binding_event (filter base_event (nd_out n))"
    by (auto intro: filter_cong)
  then show ?thesis using assms by (auto simp: sees_def view_def)
qed

lemma status_binding: "filter binding_event (filter status_event es) = filter binding_event es"
proof -
  have "binding_event e \<Longrightarrow> status_event e" for e by (cases e rule: binding_event.cases) auto
  then show ?thesis by (auto intro: filter_cong)
qed

text \<open>What a step tells the leafs: \<open>es\<close> are its events, \<open>L\<close> those about the binding \<open>k\<close>.\<close>

lemma told_exactly:
  fixes n n' :: "('te, 'x) node"
  assumes s: "sees n A" "sees n' (out_A es A')"
    and k: "\<And>bd c f. bd \<noteq> k \<Longrightarrow> (c, f) \<in> set (bowners A' bd) \<Longrightarrow> established A' bd c = established A bd c"
    and L: "filter binding_event es = changes A A' k" and o: "a_out A' = a_out A"
  shows "filter binding_event (nd_out n') = filter binding_event (nd_out n) @ status_changes n n'"
  using binding_events_view[OF s(1)] binding_events_view[OF s(2)] status_changes_view[OF s k] L o by simp

section \<open>Every message\<close>

lemma established_at:
  "established A bd c \<longleftrightarrow> (\<exists>b v. a_B A bd = Some b \<and> map_of (w_owners b) c \<noteq> None \<and> id_valid (w_terminal b) \<and>
     a_T A (w_terminal b) = Some v \<and> owned_elsewhere v c)"
  by (auto simp: established_def split: option.splits)

text \<open>Another binding does not refer to the terminal.\<close>

lemma other_binding:
  assumes "links_ok A" "a_T A tm = Some v" "a_B A bd = Some b" "id_valid (w_terminal b)" "w_terminal b = tm"
  shows "bd = v_binding v" "id_valid (v_binding v)" "\<not> v_hidden v" "w_ident b = v_ident v"
  using links_okD(5)[OF assms(1,3,4)] links_okD(4)[OF assms(1,3)] assms(2,5) by (auto simp: tlink_def)

lemma in_map_of: "(c, f) \<in> set m \<Longrightarrow> map_of m c \<noteq> None"
  by (auto dest: weak_map_of_SomeI)

lemma established_same: "a_B A' bd = a_B A bd \<Longrightarrow> a_T A' = a_T A \<Longrightarrow> established A' bd c = established A bd c"
  by (simp only: established_def)

lemma established_other:
  "(\<And>b. a_B A bd = Some b \<Longrightarrow> id_valid (w_terminal b) \<Longrightarrow> w_terminal b \<noteq> tm) \<Longrightarrow> established (put_T tm x A) bd c = established A bd c"
  by (cases "a_B A bd") (auto simp: established_def)

text \<open>The owners of a terminal change, or do not.\<close>

lemma terminal_changes:
  assumes lo: "links_ok A" and v: "a_T A tm = Some v"
  shows "bd \<noteq> v_binding v \<Longrightarrow> established (put_T tm x A) bd c = established A bd c"
    and "v_binding w = v_binding v \<Longrightarrow> changes A (put_T tm (Some w) A) (v_binding v) =
      tell_binding_owners BindingEstablished (\<lambda>c. owned_elsewhere w c \<and> \<not> owned_elsewhere v c) (binding_owners v A) @
      tell_binding_owners BindingReleased (\<lambda>c. owned_elsewhere v c \<and> \<not> owned_elsewhere w c) (binding_owners v A)"
proof -
  show "bd \<noteq> v_binding v \<Longrightarrow> established (put_T tm x A) bd c = established A bd c"
    using other_binding[OF lo v] by (auto simp: established_at)
  assume w: "v_binding w = v_binding v"
  let ?k = "v_binding v"
  show "changes A (put_T tm (Some w) A) ?k =
      tell_binding_owners BindingEstablished (\<lambda>c. owned_elsewhere w c \<and> \<not> owned_elsewhere v c) (binding_owners v A) @
      tell_binding_owners BindingReleased (\<lambda>c. owned_elsewhere v c \<and> \<not> owned_elsewhere w c) (binding_owners v A)"
  proof (cases "id_valid ?k")
    case False
    then have "a_B A ?k = None" using links_okD(4)[OF lo] by (cases "a_B A ?k") auto
    then show ?thesis using False by (simp add: changes_def bowners_def binding_owners_def)
  next
    case True
    obtain b where b: "a_B A ?k = Some b" "w_terminal b = tm" using links_okD(3)[OF lo v True] by (auto simp: blink_def)
    have ow: "bowners (put_T tm (Some w) A) ?k = binding_owners v A" using True b by (simp add: bowners_def binding_owners_def)
    have "established A ?k c = owned_elsewhere v c" "established (put_T tm (Some w) A) ?k c = owned_elsewhere w c"
      if "(c, f) \<in> set (binding_owners v A)" for c f
    proof -
      have "map_of (w_owners b) c \<noteq> None" using in_map_of[OF that] True b(1) by (simp add: binding_owners_def)
      then show "established A ?k c = owned_elsewhere v c" "established (put_T tm (Some w) A) ?k c = owned_elsewhere w c"
        using b v links_okD(1)[OF lo v] by (simp_all add: established_at)
    qed
    then show ?thesis unfolding changes_def ow by (intro arg_cong2[where f = append] tell_cong) auto
  qed
qed

lemma same_owners_told:
  fixes n n' :: "('te, 'x) node"
  assumes s: "sees n A" "sees n' (out_A es (put_T tm (Some w) A))" and i: "inv s' {} A" and v: "a_T A tm = Some v"
    and w: "v_binding w = v_binding v" "owned_elsewhere w = owned_elsewhere v" and es: "filter binding_event es = []"
  shows "filter binding_event (nd_out n') = filter binding_event (nd_out n) @ status_changes n n'"
proof (rule told_exactly[OF s])
  have lo: "links_ok A" using i by (simp add: inv_def)
  show "established (put_T tm (Some w) A) bd c = established A bd c" if "bd \<noteq> v_binding v" for bd c
    by (rule terminal_changes(1)[OF lo v that])
  show "filter binding_event es = changes A (put_T tm (Some w) A) (v_binding v)"
    unfolding terminal_changes(2)[OF lo v w(1)] w(2) es by (simp add: tell_none)
qed simp

text \<open>The owners of a binding change; only a new owner can be told.\<close>

lemma binding_changes:
  assumes lo: "links_ok A" and b: "a_B A bd = Some b" and w: "w_terminal b' = w_terminal b"
  shows "k \<noteq> bd \<Longrightarrow> established (put_B bd (Some b') A) k c = established A k c"
    and "map_of (w_owners b') c \<noteq> None \<Longrightarrow> map_of (w_owners b) c \<noteq> None \<Longrightarrow>
      established (put_B bd (Some b') A) bd c = established A bd c"
  using b w by (auto simp: established_at)

text \<open>The removal of an owner of a terminal.\<close>

lemma established_unbound:
  assumes lo: "links_ok A" and v: "a_T A tm = Some v" and w: "v_binding w = v_binding v"
  shows "bd \<noteq> v_binding v \<Longrightarrow> established (put_T tm x (unbind w A)) bd c = established A bd c"
    and "\<not> established (put_T tm x (unbind w A)) (v_binding v) c"
proof -
  have u: "a_T (put_T tm x (unbind w A)) = (a_T A)(tm := x)" by (simp add: unbind_def)
  show "bd \<noteq> v_binding v \<Longrightarrow> established (put_T tm x (unbind w A)) bd c = established A bd c"
  proof -
    assume "bd \<noteq> v_binding v"
    then have "a_B (put_T tm x (unbind w A)) bd = a_B A bd" using w by (simp add: unbind_def)
    then show ?thesis using other_binding(1)[OF lo v, of bd] \<open>bd \<noteq> v_binding v\<close> by (auto simp: established_at u)
  qed
  show "\<not> established (put_T tm x (unbind w A)) (v_binding v) c"
    using links_okD(4)[OF lo] w by (cases "id_valid (v_binding v)") (auto simp: established_at unbind_def)
qed

lemma removal_told:
  fixes n n' :: "('te, 'x) node"
  assumes s: "sees n A" "sees n' (out_A es (after_removal tm w A))" and i: "inv s' {} A" and v: "a_T A tm = Some v"
    and w: "v_binding w = v_binding v" "\<And>c. owned_elsewhere w c \<Longrightarrow> owned_elsewhere v c"
    and es: "filter status_event es = removal_status v w A"
  shows "filter binding_event (nd_out n') = filter binding_event (nd_out n) @ status_changes n n'"
proof -
  have lo: "links_ok A" using i by (simp add: inv_def)
  have f: "filter binding_event (tell_binding_owners BindingReleased P m) = tell_binding_owners BindingReleased P m" for P m
    by (induction m) auto
  have "filter binding_event (notify_out x b) = []" for x b by (simp add: notify_out_def)
  then have es': "filter binding_event es =
      tell_binding_owners BindingReleased (\<lambda>d. owned_elsewhere v d \<and> \<not> owned_elsewhere w d) (binding_owners w A)"
    using status_binding[of es] f unfolding es removal_status_def by (cases "unowned w \<and> v_users w = []") simp_all
  have bo: "binding_owners w A = binding_owners v A" by (simp add: binding_owners_def w)
  show ?thesis
  proof (cases "unowned w")
    case False
    let ?w = "w\<lparr>v_state := vstate w, v_users := users_after w\<rparr>"
    have A': "after_removal tm w A = put_T tm (Some ?w) A" using False by (simp add: after_removal_def)
    have ow: "owned_elsewhere ?w = owned_elsewhere w" by (simp add: owned_elsewhere_def fun_eq_iff)
    show ?thesis
    proof (rule told_exactly[OF s(1) s(2)[unfolded A']])
      show "established (put_T tm (Some ?w) A) bd c = established A bd c" if "bd \<noteq> v_binding v" for bd c
        by (rule terminal_changes(1)[OF lo v that])
      have b: "v_binding ?w = v_binding v" using w(1) by simp
      show "filter binding_event es = changes A (put_T tm (Some ?w) A) (v_binding v)"
        unfolding terminal_changes(2)[OF lo v b] ow es' bo using w(2) by (simp add: tell_none)
    qed simp
  next
    case True
    define x where "x = (if v_users w = [] then None else Some (w\<lparr>v_hidden := True, v_binding := default_id, v_users := users_after w, v_state := vstate w\<rparr>))"
    have A': "after_removal tm w A = put_T tm x (unbind w A)" using True by (simp add: after_removal_def x_def)
    note e = established_unbound[OF lo v w(1), where x = x]
    show ?thesis
    proof (rule told_exactly[OF s(1) s(2)[unfolded A']])
      show "established (put_T tm x (unbind w A)) bd c = established A bd c" if "bd \<noteq> v_binding v" for bd c
        by (rule e(1)[OF that])
      have no: "\<not> owned_elsewhere w c" for c using True by (simp add: owned_elsewhere_def unowned_def)
      have k: "bowners (put_T tm x (unbind w A)) (v_binding v) = binding_owners v A"
      proof (cases "id_valid (v_binding v)")
        case True
        then show ?thesis using links_okD(3)[OF lo v True] by (auto simp: bowners_def unbind_def w binding_owners_def)
      next
        case False
        then have "a_B A (v_binding v) = None" using links_okD(4)[OF lo] by (cases "a_B A (v_binding v)") auto
        then show ?thesis using False by (simp add: bowners_def unbind_def w binding_owners_def)
      qed
      have est: "established A (v_binding v) c = owned_elsewhere v c" if h: "(c, f) \<in> set (binding_owners v A)" for c f
      proof -
        have "id_valid (v_binding v)" using h by (auto simp: binding_owners_def split: if_splits)
        then obtain b where b: "a_B A (v_binding v) = Some b" "w_terminal b = tm" "binding_owners v A = w_owners b"
          using links_okD(3)[OF lo v] by (auto simp: blink_def binding_owners_def)
        have "map_of (w_owners b) c \<noteq> None" using in_map_of[OF h] b(3) by simp
        then show ?thesis using b v links_okD(1)[OF lo v] by (simp add: established_at)
      qed
      show "filter binding_event es = changes A (put_T tm x (unbind w A)) (v_binding v)"
        unfolding changes_def k es' bo using e(2) no est by (subst tell_none) (auto intro!: tell_cong)
    qed (simp add: unbind_def)
  qed
qed

text \<open>The other messages.\<close>

lemma nothing_told:
  fixes n n' :: "('te, 'x) node"
  assumes s: "sees n A" "sees n' (out_A es A')" and es: "filter binding_event es = []" and o: "a_out A' = a_out A"
    and e: "\<And>bd c f. (c, f) \<in> set (bowners A' bd) \<Longrightarrow> established A' bd c = established A bd c"
  shows "filter binding_event (nd_out n') = filter binding_event (nd_out n) @ status_changes n n'"
  by (rule told_exactly[OF s, where k = default_id]) (use es e changes_none[of A' default_id A] o in auto)

lemma with_owner_elsewhere:
  assumes "map_of (vowners c v) c = None"
  shows "owned_elsewhere v d \<Longrightarrow> owned_elsewhere (with_owner c j v) d"
  using assms unfolding owned_elsewhere_def with_owner_def vowners_def set_owners_def
  by (auto simp: update_append map_of_eq_None_iff split: if_splits)

lemma described_view_elsewhere: "owned_elsewhere (described_view ns c j bd v) = owned_elsewhere (with_owner c j v)"
  by (simp add: described_view_def owned_elsewhere_def fun_eq_iff)

lemma gained_binding [simp]: "filter binding_event (gained c j v w A) = gained c j v w A"
proof -
  have "filter binding_event (tell_binding_owners BindingEstablished P m) = tell_binding_owners BindingEstablished P m" for P m
    by (induction m) auto
  then show ?thesis by (simp add: gained_def)
qed

lemma join_told:
  fixes n n' :: "('te, 'x) node"
  assumes s: "sees n A" "sees n' (out_A es A')" and i: "inv s' {} A" and v: "a_T A tm = Some v" and c: "map_of (vowners c v) c = None"
    and A': "A' = put_T tm (Some (described_view (a_nodes A) c j (v_binding v) v)) A" and es: "filter status_event es = gained c j v v A'"
  shows "filter binding_event (nd_out n') = filter binding_event (nd_out n) @ status_changes n n'"
proof -
  have lo: "links_ok A" using i by (simp add: inv_def)
  let ?w = "described_view (a_nodes A) c j (v_binding v) v"
  have b: "v_binding ?w = v_binding v" by (simp add: described_view_def)
  show ?thesis
  proof (rule told_exactly[OF s(1) s(2)[unfolded A']])
    show "established (put_T tm (Some ?w) A) bd c = established A bd c" if "bd \<noteq> v_binding v" for bd c
      by (rule terminal_changes(1)[OF lo v that])
    have "filter binding_event es = gained c j v v A" using status_binding[of es] unfolding es A' by simp
    then show "filter binding_event es = changes A (put_T tm (Some ?w) A) (v_binding v)"
      unfolding terminal_changes(2)[OF lo v b] described_view_elsewhere gained_def
      using with_owner_elsewhere[OF c] by (simp add: tell_none)
  qed simp
qed

lemma create_told:
  fixes n n' :: "('te, 'x) node"
  assumes s: "sees n A" "sees n' (out_A es A')" and i: "inv s' {} A" and tm: "a_T A tm = None" and tm': "id_valid tm"
    and new: "\<forall>k v. a_T A k = Some v \<longrightarrow> v_ident v = x \<longrightarrow> v_hidden v"
    and bd: "if id_valid bd then a_B A bd = Some b \<and> w_ident b = x else bd = default_id \<and> (\<forall>k b. a_B A k = Some b \<longrightarrow> w_ident b \<noteq> x)"
    and A': "A' = put_T tm (Some (described_view (a_nodes A) c j bd (blank_terminal x)))
        (if id_valid bd then put_B bd (Some (b\<lparr>w_terminal := tm\<rparr>)) A else A)"
    and es: "filter status_event es = gained c j (blank_terminal x) (described_view (a_nodes A) c j bd (blank_terminal x)) A' @ notify_out x True"
  shows "filter binding_event (nd_out n') = filter binding_event (nd_out n) @ status_changes n n'"
proof -
  have lo: "links_ok A" using i by (simp add: inv_def)
  let ?w = "described_view (a_nodes A) c j bd (blank_terminal x)"
  have no: "\<not> owned_elsewhere (blank_terminal x) d" for d by (simp add: owned_elsewhere_def blank_terminal_def)
  have wb: "v_binding ?w = bd" by (simp add: described_view_def)
  have "filter binding_event (notify_out x True) = []" by (simp add: notify_out_def)
  then have es': "filter binding_event es = gained c j (blank_terminal x) ?w A'" using status_binding[of es] unfolding es by simp
  have other: "established A' k d = established A k d" if "k \<noteq> bd" for k d
  proof -
    let ?B = "if id_valid bd then put_B bd (Some (b\<lparr>w_terminal := tm\<rparr>)) A else A"
    have B: "a_B ?B k = a_B A k" "a_T ?B = a_T A" using that by simp_all
    have "established ?B k d = established A k d" by (rule established_same[OF B])
    moreover have "established (put_T tm (Some ?w) ?B) k d = established ?B k d"
    proof (rule established_other)
      fix b'
      assume b': "a_B ?B k = Some b'" "id_valid (w_terminal b')"
      from b'(1) have "a_B A k = Some b'" unfolding B .
      from links_okD(5)[OF lo this b'(2)] tm show "w_terminal b' \<noteq> tm" by auto
    qed
    ultimately show ?thesis by (simp add: A')
  qed
  have at: "filter binding_event es = changes A A' bd"
  proof (cases "id_valid bd")
    case False
    then have "a_B A bd = None" using links_okD(4)[OF lo] by (cases "a_B A bd") auto
    then show ?thesis using False by (simp add: es' gained_def changes_def bowners_def binding_owners_def wb A')
  next
    case True
    then have b: "a_B A bd = Some b" "w_ident b = x" using bd by auto
    have nb: "\<not> established A bd d" for d
    proof
      assume "established A bd d"
      then obtain v where "id_valid (w_terminal b)" "a_T A (w_terminal b) = Some v" using b(1) by (auto simp: established_at)
      then have "v_ident v = x" "\<not> v_hidden v" using links_okD(5)[OF lo b(1)] b(2) by (auto simp: tlink_def)
      then show False using new \<open>a_T A (w_terminal b) = Some v\<close> by blast
    qed
    have ow: "bowners A' bd = w_owners b" "binding_owners ?w A' = w_owners b" using True by (simp_all add: bowners_def binding_owners_def wb A')
    have e: "established A' bd d = owned_elsewhere (with_owner c j (blank_terminal x)) d" if "(d, f) \<in> set (w_owners b)" for d f
      using in_map_of[OF that] True tm' by (simp add: established_at A' described_view_elsewhere)
    show ?thesis unfolding es' gained_def changes_def ow using nb no e by (simp add: tell_none) (intro tell_cong, auto)
  qed
  have "a_out A' = a_out A" unfolding A' by simp
  then show ?thesis by (intro told_exactly[OF s other at])
qed

lemma ack_told:
  fixes n n' :: "('te, 'x) node"
  assumes s: "sees n A" "sees n' (out_A es (after_ack tm c v A))" and i: "inv s' {} A" and v: "a_T A tm = Some v"
    and es: "filter status_event es = ack_status c v"
  shows "filter binding_event (nd_out n') = filter binding_event (nd_out n) @ status_changes n n'"
proof -
  have lo: "links_ok A" using i by (simp add: inv_def)
  have es': "filter binding_event es = []" using status_binding[of es] unfolding es by (auto simp: ack_status_def notify_out_def split: if_splits)
  have same: "owned_elsewhere (v\<lparr>v_users := us\<rparr>) = owned_elsewhere v" for us by (simp add: owned_elsewhere_def fun_eq_iff)
  show ?thesis
  proof (cases "v_hidden v \<and> AList.delete c (v_users v) = []")
    case True
    then have A': "after_ack tm c v A = put_T tm None A" by (simp add: after_ack_def)
    show ?thesis
    proof (rule nothing_told[OF s es'])
      show "established (after_ack tm c v A) bd d = established A bd d" for bd d
        unfolding A' by (rule established_other) (use True other_binding(3)[OF lo v] in blast)
    qed (simp add: A')
  next
    case False
    then obtain us where A': "after_ack tm c v A = put_T tm (Some (v\<lparr>v_users := us\<rparr>)) A" unfolding after_ack_def by (metis (no_types))
    show ?thesis by (rule same_owners_told[OF s(1) s(2)[unfolded A'] i v _ same es']) simp
  qed
qed

lemma describe_told:
  fixes n n' :: "('te, 'x) node"
  assumes s: "sees n A" "sees n' (out_A (describe_events c bd j fo @ es) A')" and i: "inv s' {} A" and o: "a_out A' = a_out A"
    and other: "\<And>k d. k \<noteq> bd \<Longrightarrow> established A' k d = established A k d"
    and c: "(c, f) \<in> set (bowners A' bd)" "m_mappedId f = j" "distinct_keys (bowners A' bd)"
    and old: "\<And>d g. (d, g) \<in> set (bowners A' bd) \<Longrightarrow> d \<noteq> c \<Longrightarrow> established A' bd d = established A bd d"
    and es: "es = (if established A' bd c \<and> \<not> established A bd c then [Node_Sent c (BindingEstablished j)] else [])"
    and no: "established A bd c \<Longrightarrow> established A' bd c"
  shows "filter binding_event (nd_out n') = filter binding_event (nd_out n) @ status_changes n n'"
proof -
  have "filter binding_event (describe_events c bd j fo) = []" by (simp add: describe_events_def split: option.split)
  then have f: "filter binding_event (describe_events c bd j fo @ es) = es" by (simp add: es)
  have "tell_binding_owners BindingEstablished (\<lambda>d. established A' bd d \<and> \<not> established A bd d) (bowners A' bd) =
      tell_binding_owners BindingEstablished (\<lambda>d. (established A' bd c \<and> \<not> established A bd c) \<and> d = c) (bowners A' bd)"
    by (rule tell_cong) (use old in blast)
  also have "\<dots> = es"
  proof (cases "established A' bd c \<and> \<not> established A bd c")
    case True
    then show ?thesis using tell_one[OF c(3), of BindingEstablished c] map_of_is_SomeI[OF c(3,1)] c(2) by (simp add: es)
  qed (simp add: tell_none es)
  finally have E: "tell_binding_owners BindingEstablished (\<lambda>d. established A' bd d \<and> \<not> established A bd d) (bowners A' bd) = es" .
  have R: "tell_binding_owners BindingReleased (\<lambda>d. established A bd d \<and> \<not> established A' bd d) (bowners A' bd) = []"
    by (rule tell_none) (use old no in blast)
  show ?thesis by (rule told_exactly[OF s, where k = bd]) (use other E R f o in \<open>simp_all add: changes_def\<close>)
qed

lemma established_owner:
  assumes b: "a_B A bd = Some b" and t: "w_terminal b' = w_terminal b"
    and A': "a_B A' bd = Some b'" "a_T A' = a_T A"
  shows "map_of (w_owners b') d \<noteq> None \<Longrightarrow> map_of (w_owners b) d \<noteq> None \<Longrightarrow> established A' bd d = established A bd d"
    and "map_of (w_owners b) d = None \<Longrightarrow> \<not> established A bd d"
  using assms by (simp_all add: established_def)

lemma redescribed_told:
  fixes n n' :: "('te, 'x) node"
  assumes s: "sees n A" "sees n' (out_A (describe_events c bd j fo @ es) A')" and i: "inv s' {} A" "inv s' {} A'" and b: "a_B A bd = Some b"
    and A': "A' = put_B bd (Some (b\<lparr>w_owners := AList.update c f (w_owners b)\<rparr>)) A" and f: "m_mappedId f = j"
    and es: "es = (if map_of (w_owners b) c = None \<and> established A' bd c then [Node_Sent c (BindingEstablished j)] else [])"
  shows "filter binding_event (nd_out n') = filter binding_event (nd_out n) @ status_changes n n'"
proof (rule describe_told[OF s i(1)])
  let ?b = "b\<lparr>w_owners := AList.update c f (w_owners b)\<rparr>"
  have e: "w_terminal ?b = w_terminal b" "a_B A' bd = Some ?b" "a_T A' = a_T A" by (simp_all add: A')
  note est = established_owner[OF b e]
  have m: "map_of (w_owners ?b) d = (if d = c then Some f else map_of (w_owners b) d)" for d by (simp add: map_of_alist_update)
  have ow: "bowners A' bd = w_owners ?b" by (simp add: bowners_def A')
  show "established A' k d = established A k d" if "k \<noteq> bd" for k d
    by (rule established_same) (use that in \<open>simp_all add: A'\<close>)
  show "(c, f) \<in> set (bowners A' bd)" unfolding ow by (rule map_of_SomeD) (use m[of c] in simp)
  show "distinct_keys (bowners A' bd)" 
    using inv_winv[OF i(1)] b distinct_keys_update[of "w_owners b" c f] unfolding ow winv_def by simp
  show "established A' bd d = established A bd d" if "(d, g) \<in> set (bowners A' bd)" "d \<noteq> c" for d g
    using in_map_of[OF that(1)] that(2) est(1)[of d] unfolding ow m by simp
  show "es = (if established A' bd c \<and> \<not> established A bd c then [Node_Sent c (BindingEstablished j)] else [])"
    using es est[of c] m[of c] by (cases "map_of (w_owners b) c = None") auto
  show "established A' bd c" if "established A bd c" using that est[of c] m[of c] by (cases "map_of (w_owners b) c = None") auto
qed (simp_all add: A' f)

lemma established_owned:
  assumes "a_T A tm = Some v" "owned_elsewhere w = owned_elsewhere v"
  shows "established (put_T tm (Some w) A) bd c = established A bd c"
  using assms by (cases "a_B A bd") (auto simp: established_def)

lemma new_binding_told:
  fixes n n' :: "('te, 'x) node"
  assumes s: "sees n A" "sees n' (out_A (describe_events c bd j None @ (if established A' bd c then [Node_Sent c (BindingEstablished j)] else [])) A')"
    and i: "inv s' {} A" and b: "a_B A bd = None" and tm: "id_valid tm \<Longrightarrow> a_T A tm = Some v"
    and A': "A' = put_B bd (Some (new_binding x tm c j)) (if id_valid tm then put_T tm (Some (v\<lparr>v_binding := bd\<rparr>)) A else A)"
  shows "filter binding_event (nd_out n') = filter binding_event (nd_out n) @ status_changes n n'"
proof -
  let ?B = "if id_valid tm then put_T tm (Some (v\<lparr>v_binding := bd\<rparr>)) A else A"
  have old: "\<not> established A bd c" by (simp add: established_def b)
  have B: "established ?B k d = established A k d" for k d
    using established_owned[OF tm, of "v\<lparr>v_binding := bd\<rparr>"] by (simp add: owned_elsewhere_def fun_eq_iff)
  have ow: "bowners A' bd = [(c, described j None)]" by (simp add: bowners_def A' new_binding_def)
  have o: "a_out A' = a_out A" unfolding A' by simp
  show ?thesis
  proof (rule describe_told[OF s i o, where f = "described j None"])
    show "established A' k d = established A k d" if "k \<noteq> bd" for k d
    proof -
      have "a_B A' k = a_B ?B k" "a_T A' = a_T ?B" using that by (simp_all add: A')
      then have "established A' k d = established ?B k d" by (rule established_same)
      then show ?thesis using B by simp
    qed
  qed (use old ow in \<open>auto simp: described_def\<close>)
qed

lemma unbinding_told:
  fixes n n' :: "('te, 'x) node"
  assumes s: "sees n A" "sees n' (out_A es (after_unbinding bd c b A))" and i: "inv s' {} A" and b: "a_B A bd = Some b"
    and es: "filter binding_event es = []"
  shows "filter binding_event (nd_out n') = filter binding_event (nd_out n) @ status_changes n n'"
proof (rule nothing_told[OF s es])
  have lo: "links_ok A" using i by (simp add: inv_def)
  let ?L = "leave_terminal b A"
  have L: "established ?L k d = established A k d" for k d
  proof (cases "id_valid (w_terminal b)")
    case True
    then obtain v where v: "a_T A (w_terminal b) = Some v" using links_okD(5)[OF lo b] by auto
    show ?thesis unfolding leave_terminal_def using True v established_owned[OF v, of "v\<lparr>v_binding := default_id\<rparr>"]
      by (simp add: owned_elsewhere_def fun_eq_iff)
  qed (simp add: leave_terminal_def)
  show "a_out (after_unbinding bd c b A) = a_out A" by (simp add: after_unbinding_def leave_terminal_def)
  fix k d f
  assume h: "(d, f) \<in> set (bowners (after_unbinding bd c b A) k)"
  show "established (after_unbinding bd c b A) k d = established A k d"
  proof (cases "AList.delete c (w_owners b) = []")
    case True
    then have e: "after_unbinding bd c b A = put_B bd None ?L" by (simp add: after_unbinding_def)
    then have "k \<noteq> bd" using h by (auto simp: bowners_def)
    then have "established (put_B bd None ?L) k d = established ?L k d" by (intro established_same) simp_all
    then show ?thesis using L e by simp
  next
    case False
    let ?b = "b\<lparr>w_owners := AList.delete c (w_owners b)\<rparr>"
    have e: "after_unbinding bd c b A = put_B bd (Some ?b) A" using False by (simp add: after_unbinding_def)
    show ?thesis
    proof (cases "k = bd")
      case True
      have m: "map_of (w_owners ?b) d \<noteq> None" using in_map_of[OF h] True by (simp add: e bowners_def)
      then have "map_of (w_owners b) d \<noteq> None" by (auto simp: delete_conv' split: if_splits)
      with m show ?thesis unfolding e True using b by (intro established_owner(1)[OF b, of ?b]) simp_all
    next
      case F: False
      show ?thesis unfolding e by (rule established_same) (use F in simp_all)
    qed
  qed
qed

context node_class begin

lemma message_told:
  fixes n :: "('te, 'x) node"
  assumes sA: "sees n A" and i: "inv s {} A" and alive: "is_connection_alive c n" and b: "base_body b" and p: "node_from_peer b c n"
  shows "wp tot (node_receive h b c n) (\<lambda>n'. filter binding_event (nd_out n') = filter binding_event (nd_out n) @ status_changes n n')"
proof -
  have al: "c \<in> set (if remote_is_node c then a_nodes A else a_leafs A)"
    using alive seesD(3,4)[OF sA] by (auto simp: is_connection_alive_def)
  have lo: "links_ok A" using i by (simp add: inv_def)
  note m = machines_view[OF sA]
  have s0: "sees n' A' \<Longrightarrow> sees n' (out_A [] A')" for n' :: "('te, 'x) node" and A' by simp
  show ?thesis
  proof (cases b)
    case (TerminalDescription x j)
    then have j: "id_valid j" using p by simp
    show ?thesis unfolding TerminalDescription node_receive.simps
    proof (rule wp_node_TerminalDescription[OF sA i al j], goal_cases)
      case (1 n' tm v f A')
      show ?case
        by (rule same_owners_told[OF sA 1(7)[unfolded 1(5)] i 1(1)]) (use 1(4) set_owner_keys(5)[of c v] in simp_all)
    next
      case (2 n' tm v es A')
      then show ?case by (intro join_told[OF sA _ i])
    next
      case (3 n' tm es bd b A')
      have "id_valid tm" using 3(5) 3(4) by (auto simp: inv_def dest!: links_okD(1)[where tm = tm])
      with 3 show ?case by (intro create_told[OF sA _ i])
    qed
  next
    case (TerminalMapping tm k)
    then obtain f where c: "remote_is_node c" and f: "user_machine tm c n = Some f" "m_state f = UNUSED_UNCONFIRMED \<or> m_state f = AWAIT_CONFIRMATION"
      using p by (auto simp: in_states_def split: option.splits)
    obtain v where v: "a_T A tm = Some v" "map_of (v_users v) c = Some f" using m(1)[OF f(1)] by blast
    show ?thesis unfolding TerminalMapping node_receive.simps
    proof (rule wp_node_TerminalMapping[OF sA i c v f(2)], goal_cases)
      case (1 n' v' es)
      show ?case
        by (rule same_owners_told[OF sA 1(5) i v(1)])
           (use 1(1-4) status_binding[of es] in \<open>auto simp: tlink_def owned_elsewhere_def fun_eq_iff\<close>)
    qed
  next
    case (TerminalRemoved tm)
    then obtain f where "owner_machine tm c n = Some f" using p by auto
    then obtain v where v: "a_T A tm = Some v" "map_of (vowners c v) c = Some f" using m(2) by blast
    show ?thesis unfolding TerminalRemoved node_receive.simps
    proof (rule wp_node_TerminalRemoved[OF sA i v], goal_cases)
      case (1 n' v')
      show ?case
        by (rule same_owners_told[OF sA s0[OF 1(3)] i v(1)]) (use 1(2) v(2) set_owner_keys(5)[of c v] in simp_all)
    next
      case (2 n' es)
      show ?case
      proof (rule removal_told[OF sA 2(3) i v(1) _ _ 2(2)])
        show "v_binding (without_owner c v) = v_binding v" by (simp add: without_owner_def)
        show "owned_elsewhere v d" if "owned_elsewhere (without_owner c v) d" for d
          using that unfolding owned_elsewhere_def without_owner_def drop_simps set_owners_def vowners_def
          by (cases "remote_is_node c") (auto simp: AList.delete_eq)
      qed
    qed
  next
    case (TerminalRemovedAck tm)
    then obtain f where c: "remote_is_node c" and f: "user_machine tm c n = Some f" "m_state f = AWAIT_ACK"
      using p by (auto simp: in_states_def split: option.splits)
    obtain v where v: "a_T A tm = Some v" "map_of (v_users v) c = Some f" using m(1)[OF f(1)] by blast
    show ?thesis unfolding TerminalRemovedAck node_receive.simps
      by (rule wp_node_TerminalRemovedAck[OF sA i c v f(2)]) (rule ack_told[OF sA _ i v(1)])
  next
    case (BindingDescription x j)
    then have j: "id_valid j" and c: "\<not> remote_is_node c" "c \<in> set (a_leafs A)" using p al by auto
    show ?thesis unfolding BindingDescription node_receive.simps
    proof (rule wp_node_BindingDescription[OF sA i c j], goal_cases)
      case (1 n' bd b f A')
      show ?case
        by (rule redescribed_told[OF sA _ i 1(5,1,4), where fo = "Some f" and es = "[]" and j = j])
           (use 1(3,6) in \<open>simp_all add: described_def\<close>)
    next
      case (2 n' bd b A')
      show ?case
        by (rule redescribed_told[OF sA 2(6) i 2(5,1,4)]) (use 2(3) in \<open>simp_all add: described_def\<close>)
    next
      case (3 n' bd tm v A')
      show ?case by (rule new_binding_told[OF sA 3(6) i 3(1) _ 3(4)]) (use 3(3) in \<open>simp split: if_splits\<close>)
    qed
  next
    case (BindingRemoved bd)
    then obtain f where c: "\<not> remote_is_node c" and f: "binding_machine bd c n = Some f" using p by auto
    obtain w where w: "a_B A bd = Some w" "map_of (w_owners w) c = Some f" using m(3)[OF f] by blast
    show ?thesis unfolding BindingRemoved node_receive.simps
    proof (rule wp_node_BindingRemoved[OF sA i c w], goal_cases)
      case (1 n' b')
      show ?case
      proof (rule nothing_told[OF sA s0[OF 1(3)]])
        fix k d g
        assume h: "(d, g) \<in> set (bowners (put_B bd (Some b') A) k)"
        show "established (put_B bd (Some b') A) k d = established A k d"
        proof (cases "k = bd")
          case True
          have k: "map_of (w_owners b') d \<noteq> None" using in_map_of[OF h] True by (simp add: bowners_def)
          then have "map_of (w_owners w) d \<noteq> None" using w(2) by (auto simp: 1(2) map_of_alist_update split: if_splits)
          with k show ?thesis unfolding True by (intro established_owner(1)[OF w(1), of b']) (simp_all add: 1(2))
        next
          case False
          then show ?thesis by (intro established_same) simp_all
        qed
      qed simp_all
    next
      case (2 n' es)
      show ?case by (rule unbinding_told[OF sA 2(3) i w(1)]) (simp add: 2(2))
    qed
  qed (use b p in simp_all)
qed

end

end
