(* ===== verification/Node_Contract.thy ===== *)
theory Node_Contract
  imports Node_Status
begin

text \<open>
  What a node promises its neighbours, for the publish-subscribe class under any legal run: it stays
  consistent and never fails an assertion, tells the leafs exactly what changes for their bindings,
  keeps exactly the owners subscribed for which somebody else is interested, delivers data to exactly
  the interested connections and forgets a connection that ends.
\<close>

section \<open>Runs of the publish-subscribe class\<close>

abbreviation ps_legal :: "node_call list \<Rightarrow> bool" where
  "ps_legal cs \<equiv> node_legal_run ps_node_hooks ps_node_receive ps_protocol cs (node_init ())"

abbreviation ps_run :: "node_call list \<Rightarrow> (unit, unit) node option" where
  "ps_run cs \<equiv> node_run ps_node_hooks ps_node_receive cs (node_init ())"

lemma legal_run_append:
  "node_legal_run h rcv p (cs @ ds) n \<longleftrightarrow>
     node_legal_run h rcv p cs n \<and> (case node_run h rcv cs n of None \<Rightarrow> True | Some n' \<Rightarrow> node_legal_run h rcv p ds n')"
proof (induction cs arbitrary: n)
  case (Cons c cs)
  then show ?case by (cases "node_do h rcv c n") (auto simp: node_run_def)
qed (simp add: node_run_def)

lemma ps_reached:
  assumes "ps_legal cs" "ps_run cs = Some n"
  obtains A where "sees n A" "inv True {} A"
  using ps_runs.runs[OF good_init assms(1)] assms(2) by (auto simp: good_def)

text \<open>A legal message in a reached state.\<close>

lemma ps_received:
  assumes "ps_legal (cs @ [Node_Received b c])" "ps_run cs = Some n"
  obtains A where "sees n A" "inv True {} A" "ps_protocol b" "is_connection_alive c n" "node_from_peer b c n"
proof -
  have l: "ps_legal cs" "ps_protocol b \<and> is_connection_alive c n \<and> node_from_peer b c n" using assms by (simp_all add: legal_run_append)
  obtain A where "sees n A" "inv True {} A" by (rule ps_reached[OF l(1) assms(2)])
  then show ?thesis using that l(2) by blast
qed

section \<open>Interest and subscriptions\<close>

definition owners_of :: "('te, 'x) node \<Rightarrow> id \<Rightarrow> fsm_map" where
  "owners_of n tm = (case get_nt n tm of None \<Rightarrow> [] | Some t \<Rightarrow> nt_owningLeafs t @ nt_owningNodes t)"

definition interested :: "('te, 'x) node \<Rightarrow> id \<Rightarrow> (connection \<times> id) list" where
  "interested n tm = (case get_nt n tm of None \<Rightarrow> [] | Some t \<Rightarrow> nt_subscribers t @
     (if id_valid (nt_binding t) then map (\<lambda>(c, f). (c, m_mappedId f)) (binding_owners_of n (nt_binding t)) else []))"

text \<open>Somebody besides the owner \<open>c\<close> wants the terminal's messages.\<close>

definition wanted :: "('te, 'x) node \<Rightarrow> id \<Rightarrow> connection \<Rightarrow> bool" where
  "wanted n tm c \<longleftrightarrow> (\<exists>d \<in> fst ` set (interested n tm). d \<noteq> c)"

definition subscription_changes :: "('te, 'x) node \<Rightarrow> ('te, 'x) node \<Rightarrow> id \<Rightarrow> node_event list" where
  "subscription_changes n n' tm =
     tell_binding_owners Subscribe (\<lambda>c. wanted n' tm c \<and> \<not> wanted n tm c) (owners_of n tm) @
     tell_binding_owners Unsubscribe (\<lambda>c. wanted n tm c \<and> \<not> wanted n' tm c) (owners_of n tm)"

lemma interest_view:
  fixes n :: "('te, 'x) node"
  assumes s: "sees n A" and v: "a_T A tm = Some v"
  shows "owners_of n tm = v_leafs v @ v_nodes v" "wanted n tm c \<longleftrightarrow> \<not> interest A v \<subseteq> {c}"
    "interested n tm = v_subs v @ map (\<lambda>(c, f). (c, m_mappedId f)) (binding_interest A v)"
proof -
  obtain t where g: "get_nt n tm = Some t" and t: "nt_owningLeafs t = v_leafs v" "nt_owningNodes t = v_nodes v"
    "nt_subscribers t = v_subs v" "nt_binding t = v_binding v"
    using sees_T[OF s v] tview_of_eq by metis
  show "owners_of n tm = v_leafs v @ v_nodes v" by (simp add: owners_of_def g t)
  show i: "interested n tm = v_subs v @ map (\<lambda>(c, f). (c, m_mappedId f)) (binding_interest A v)"
    unfolding interested_def g option.case t established_view(2)[OF s] by (simp add: binding_interest_def bowners_def)
  have "map fst (interested n tm) = map fst (v_subs v) @ map fst (binding_interest A v)"
    unfolding i by (simp add: comp_def case_prod_beta)
  then have "fst ` set (interested n tm) = interest A v" unfolding interest_def by (metis set_append set_map)
  then show "wanted n tm c \<longleftrightarrow> \<not> interest A v \<subseteq> {c}" unfolding wanted_def by blast
qed

lemma concerned_tell:
  "map (\<lambda>(c, i). Node_Sent c (m i)) (concerned I c v) = tell_binding_owners m (\<lambda>d. d \<noteq> c \<and> I \<subseteq> {d}) (v_leafs v @ v_nodes v)"
  by (auto simp: concerned_def tell_binding_owners_def)

lemma keys_snoc: "fst ` set (m @ [(c, x)]) = insert c (fst ` set m)"
  by simp

lemma insert_sub: "insert c I \<subseteq> {d} \<longleftrightarrow> I \<subseteq> {d} \<and> c = d"
  by auto

section \<open>A sample run\<close>

text \<open>Two leafs and a node: the first leaf has the terminal, the second the binding, and the node subscribes.\<close>

definition leaf1 :: connection where "leaf1 = \<lparr>cn_addr = 1, remote_is_node = False\<rparr>"
definition leaf2 :: connection where "leaf2 = \<lparr>cn_addr = 2, remote_is_node = False\<rparr>"
definition node3 :: connection where "node3 = \<lparr>cn_addr = 3, remote_is_node = True\<rparr>"

definition sample_start :: "node_call list" where
  "sample_start = [Node_Started leaf1, Node_Started leaf2, Node_Started node3, Node_Received (BindingDescription default_ident (Id 22)) leaf2]"

definition sample_calls :: "node_call list" where
  "sample_calls = sample_start @ [Node_Received (TerminalDescription default_ident (Id 11)) leaf1,
     Node_Received (TerminalMapping (Id 1) (Id 33)) node3]"

definition sample_subscribed :: "node_call list" where
  "sample_subscribed = sample_calls @ [Node_Received (Subscribe (Id 1)) node3]"

section \<open>Properties\<close>

text \<open>C1: A node of the publish-subscribe class never fails an assertion: after any sequence of started
  and ended connections and of messages the other ends may send, it has handled every call and is
  consistent; terminals and bindings refer to live connections only and to each other, and every node
  has been told about every terminal it does not own alone.\<close>

theorem ps_node_consistent:
  assumes "ps_legal cs"
  shows "\<exists>n. ps_run cs = Some n \<and> node_consistent n"
  using assms by (rule ps_runs.runs_consistent)

lemma ps_node_consistent_witness: "\<exists>n. ps_run sample_subscribed = Some n \<and> node_consistent n \<and> length (nd_out n) = 6"
proof -
  have "ps_legal sample_subscribed" by code_simp
  moreover have "map_option (\<lambda>n. length (nd_out n)) (ps_run sample_subscribed) = Some 6" by code_simp
  ultimately show ?thesis using ps_node_consistent by fastforce
qed

text \<open>C4: Whenever a node of the publish-subscribe class handles a message about terminals or bindings,
  it sends \<^verbatim>\<open>BindingEstablished\<close> to exactly the owners of a binding that now have its terminal at
  another connection and did not before, \<^verbatim>\<open>BindingReleased\<close> to exactly the remaining owners for which
  the opposite holds, once each, and nothing of this kind to anybody else.\<close>

theorem bindings_told_exactly:
  assumes "ps_legal (cs @ [Node_Received b c])" "base_body b" "ps_run cs = Some n"
  shows "\<exists>n'. ps_node_receive b c n = Some n' \<and>
    filter binding_event (nd_out n') = filter binding_event (nd_out n) @ status_changes n n'"
proof -
  obtain A where A: "sees n A" "inv True {} A" "is_connection_alive c n" "node_from_peer b c n"
    by (rule ps_received[OF assms(1,3)])
  have "wp True (node_receive ps_node_hooks b c n) (\<lambda>n'. filter binding_event (nd_out n') = filter binding_event (nd_out n) @ status_changes n n')"
    by (rule ps_node.message_told[OF A(1-3) assms(2) A(4)])
  then show ?thesis using ps_runs.rcv_base[OF assms(2)] by (simp add: wp_total)
qed

lemma bindings_told_exactly_witness:
  "\<exists>n n'. ps_run sample_start = Some n \<and> ps_node_receive (TerminalDescription default_ident (Id 11)) leaf1 n = Some n' \<and>
    filter binding_event (nd_out n') = [Node_Sent leaf2 (BindingEstablished (Id 22))]"
proof -
  let ?b = "TerminalDescription default_ident (Id 11)"
  have l: "ps_legal (sample_start @ [Node_Received ?b leaf1])" by code_simp
  have e: "map_option (\<lambda>n. (filter binding_event (nd_out n), map_option (status_changes n) (ps_node_receive ?b leaf1 n))) (ps_run sample_start) =
    Some ([], Some [Node_Sent leaf2 (BindingEstablished (Id 22))])" by code_simp
  then obtain n where n: "ps_run sample_start = Some n" "filter binding_event (nd_out n) = []"
    "map_option (status_changes n) (ps_node_receive ?b leaf1 n) = Some [Node_Sent leaf2 (BindingEstablished (Id 22))]" by auto
  from bindings_told_exactly[OF l _ n(1)] n show ?thesis by auto
qed

text \<open>C5: When a node subscribes to a terminal or unsubscribes from it, the owners are told exactly what
  changes for them: an owner gets a \<^verbatim>\<open>Subscribe\<close> when the first connection besides itself becomes
  interested in the terminal, an \<^verbatim>\<open>Unsubscribe\<close> when the last one goes, and nothing else is sent.\<close>

theorem owners_told_exactly:
  assumes "ps_legal (cs @ [Node_Received b c])" "b = Subscribe tm \<or> b = Unsubscribe tm" "ps_run cs = Some n"
  shows "\<exists>n'. ps_node_receive b c n = Some n' \<and> nd_out n' = nd_out n @ subscription_changes n n' tm"
proof -
  obtain A where s: "sees n A" and i: "inv True {} A" and p: "node_from_peer b c n" by (rule ps_received[OF assms(1,3)])
  have w: "winv A" by (rule inv_winv[OF i])
  show ?thesis
  proof (cases "b = Subscribe tm")
    case True
    then obtain f t where c: "remote_is_node c" and f: "user_machine tm c n = Some f" and t: "get_nt n tm = Some t" "map_of (nt_subscribers t) c = None"
      using p by (auto split: option.splits)
    obtain v where v: "a_T A tm = Some v" "v_subs v = nt_subscribers t" "v_users v = nt_usingNodes t" using machines_view(4)[OF s t(1)] by blast
    have fv: "map_of (v_users v) c = Some f" "map_of (v_subs v) c = None" using f v t by (auto simp: user_machine_def)
    note spec = subscribe_spec[OF s i v(1) c fv(2,1)]
    show ?thesis
    proof (cases "is_mapped f")
      case False
      then show ?thesis using spec(1)[OF False] True by (simp add: subscription_changes_def tell_none)
    next
      case m: True
      let ?v = "v\<lparr>v_subs := AList.update c (m_mappedId f) (v_subs v)\<rparr>"
      let ?A = "put_T tm (Some ?v) A"
      obtain n1 where n1: "node_Subscribe (\<lambda>c i tm. Some) tm c n = Some n1" "sees n1 ?A"
        "nd_out n1 = nd_out n @ map (\<lambda>(c, i). Node_Sent c (Subscribe i)) (concerned (interest A v) c v)"
        using spec(2)[OF m, of "\<lambda>c i tm. Some"] by auto
      have "v_subs ?v = v_subs v @ [(c, m_mappedId f)]" using update_append[OF fv(2)[unfolded map_of_eq_None_iff]] by simp
      then have "fst ` set (v_subs ?v) = insert c (fst ` set (v_subs v))" using keys_snoc by metis
      moreover have "binding_interest ?A ?v = binding_interest A v" by (simp add: binding_interest_def)
      ultimately have I: "interest ?A ?v = insert c (interest A v)" unfolding interest_def by (simp only: Un_insert_left)
      have W: "wanted n1 tm d \<longleftrightarrow> \<not> (interest A v \<subseteq> {d} \<and> c = d)" "wanted n tm d \<longleftrightarrow> \<not> interest A v \<subseteq> {d}" for d
        using interest_view(2)[OF n1(2), of tm ?v d] interest_view(2)[OF s v(1), of d] unfolding I insert_sub by simp_all
      have "nd_out n1 = nd_out n @ subscription_changes n n1 tm"
        unfolding n1(3) concerned_tell subscription_changes_def interest_view(1)[OF s v(1)] W
        by (simp add: tell_none) (intro tell_cong, auto)
      then show ?thesis using n1(1) True by simp
    qed
  next
    case False
    then have b: "b = Unsubscribe tm" using assms(2) by simp
    obtain v where v: "a_T A tm = Some v" using p sees_get_nt[OF s] b by auto
    obtain t where t: "get_nt n tm = Some t" "nt_subscribers t = v_subs v" using sees_T[OF s v] tview_of_eq by metis
    show ?thesis
    proof (cases "map_of (v_subs v) c")
      case None
      then show ?thesis using t b
        by (simp add: node_Unsubscribe_def remove_subscriber_if_needed_def subscription_changes_def tell_none)
    next
      case (Some j)
      then have c: "map_of (v_subs v) c \<noteq> None" by simp
      let ?v = "v\<lparr>v_subs := AList.delete c (v_subs v)\<rparr>"
      let ?A = "put_T tm (Some ?v) A"
      obtain n1 where n1: "node_Unsubscribe (\<lambda>c tm. Some) tm c n = Some n1" "sees n1 ?A"
        "nd_out n1 = nd_out n @ map (\<lambda>(c, i). Node_Sent c (Unsubscribe i)) (concerned (interest A v - {c}) c v)"
        using remove_subscriber_spec[OF s w v c, of "\<lambda>c tm. Some"] inv_owners_well[OF i v] t by (auto simp: node_Unsubscribe_def)
      have "remote_is_node c" "c \<in> fst ` set (v_subs v)" using c winv_interest(1)[OF w v] by (force dest: map_of_SomeD)+
      then have cI: "c \<in> interest A v" "c \<notin> fst ` set (binding_interest A v)" using winv_interest(2)[OF w v] by (auto simp: interest_def)
      have "v_subs ?v = AList.delete c (v_subs v)" by simp
      then have "fst ` set (v_subs ?v) = fst ` set (v_subs v) - {c}" by (simp only: fst_delete)
      moreover have "binding_interest ?A ?v = binding_interest A v" by (simp add: binding_interest_def)
      ultimately have I: "interest ?A ?v = interest A v - {c}" unfolding interest_def by (simp only: Un_Diff Diff_insert0[OF cI(2)] Diff_empty)
      have W: "wanted n1 tm d \<longleftrightarrow> \<not> interest A v - {c} \<subseteq> {d}" "wanted n tm d \<longleftrightarrow> \<not> interest A v \<subseteq> {d}" for d
        using interest_view(2)[OF n1(2), of tm ?v d] interest_view(2)[OF s v, of d] unfolding I by simp_all
      have "nd_out n1 = nd_out n @ subscription_changes n n1 tm"
        unfolding n1(3) concerned_tell subscription_changes_def interest_view(1)[OF s v] W
        using cI(1) by (subst tell_none[of _ _ Subscribe]) (auto intro!: tell_cong)
      then show ?thesis using n1(1) b by simp
    qed
  qed
qed

lemma owners_told_exactly_witness:
  "\<exists>n n'. ps_run (sample_calls @ [Node_Received (BindingRemoved (Id 1)) leaf2]) = Some n \<and>
    ps_node_receive (Subscribe (Id 1)) node3 n = Some n' \<and> nd_out n' = nd_out n @ [Node_Sent leaf1 (Subscribe (Id 11))]"
proof -
  let ?cs = "sample_calls @ [Node_Received (BindingRemoved (Id 1)) leaf2]"
  have l: "ps_legal (?cs @ [Node_Received (Subscribe (Id 1)) node3])" by code_simp
  have "map_option (\<lambda>n. map_option (\<lambda>n'. subscription_changes n n' (Id 1)) (ps_node_receive (Subscribe (Id 1)) node3 n)) (ps_run ?cs) =
    Some (Some [Node_Sent leaf1 (Subscribe (Id 11))])" by code_simp
  then obtain n where n: "ps_run ?cs = Some n"
    "map_option (\<lambda>n'. subscription_changes n n' (Id 1)) (ps_node_receive (Subscribe (Id 1)) node3 n) = Some [Node_Sent leaf1 (Subscribe (Id 11))]" by auto
  from owners_told_exactly[OF l _ n(1), of "Id 1"] n show ?thesis by auto
qed

text \<open>C7: Data for a terminal goes to exactly the connections interested in it, the subscribed nodes and
  the owners of its binding, except where it came from: one \<^verbatim>\<open>Data\<close> message each with the Id the
  connection knows the terminal or binding by, and nothing else changes.\<close>

theorem data_reaches_interested:
  assumes "ps_legal (cs @ [Node_Received (Data tm d) c])" "ps_run cs = Some n"
  shows "\<exists>n'. ps_node_receive (Data tm d) c n = Some n' \<and>
    nd_out n' = nd_out n @ map (\<lambda>(e, i). Node_Sent e (Data i d)) (filter (\<lambda>(e, i). e \<noteq> c) (interested n tm)) \<and>
    distinct_keys (interested n tm) \<and> nd_terminals n' = nd_terminals n \<and> nd_bindings n' = nd_bindings n"
proof -
  obtain A where s: "sees n A" and i: "inv True {} A" and p: "node_from_peer (Data tm d) c n" by (rule ps_received[OF assms])
  have w: "winv A" by (rule inv_winv[OF i])
  obtain v where v: "a_T A tm = Some v" using p sees_get_nt[OF s] by auto
  note int = interest_view(3)[OF s v]
  have "distinct_keys (v_subs v)" using w v by (simp add: winv_def)
  moreover have "distinct_keys (binding_interest A v)"
  proof (cases "id_valid (v_binding v)")
    case True
    show ?thesis by (rule binding_exists[OF w v True]) simp
  qed (simp add: binding_interest_def)
  moreover have "fst ` set (v_subs v) \<inter> fst ` set (binding_interest A v) = {}" using winv_interest[OF w v] by blast
  moreover have "map fst (map (\<lambda>(c, f). (c, m_mappedId f)) m) = map fst m" for m :: fsm_map by (simp add: comp_def case_prod_beta)
  ultimately have "distinct_keys (interested n tm)" unfolding int by (simp only: map_append distinct_append set_map)
  moreover have "nd_terminals (send_each m xs n) = nd_terminals n" for m xs and n :: "(unit, unit) node"
    by (induction xs arbitrary: n) (auto simp: nsend_def)
  ultimately show ?thesis using send_data_spec[OF s i v, of Data d c]
    by (auto simp: receivers_def int out_send_each send_each_bindings)
qed

lemma data_reaches_interested_witness:
  "\<exists>n n'. ps_run sample_subscribed = Some n \<and> ps_node_receive (Data (Id 1) [7]) leaf1 n = Some n' \<and>
    nd_out n' = nd_out n @ [Node_Sent node3 (Data (Id 33) [7]), Node_Sent leaf2 (Data (Id 22) [7])]"
proof -
  have l: "ps_legal (sample_subscribed @ [Node_Received (Data (Id 1) [7]) leaf1])" by code_simp
  have "map_option (\<lambda>n. interested n (Id 1)) (ps_run sample_subscribed) = Some [(node3, Id 33), (leaf2, Id 22)]" by code_simp
  then obtain n where n: "ps_run sample_subscribed = Some n" "interested n (Id 1) = [(node3, Id 33), (leaf2, Id 22)]" by auto
  from data_reaches_interested[OF l n(1)] n show ?thesis by (auto simp: leaf1_def leaf2_def node3_def)
qed

text \<open>C8: After the end of a connection nothing refers to it: it owns no terminal and no binding, uses
  and subscribes to no terminal and is not a connection of the node.\<close>

theorem ended_connection_forgotten:
  assumes "ps_legal cs" "ps_run cs = Some n"
  shows "\<exists>n'. node_connection_destroyed ps_node_hooks c n = Some n' \<and> \<not> is_connection_alive c n' \<and>
    (\<forall>tm t. get_nt n' tm = Some t \<longrightarrow> c \<notin> fst ` set (nt_owningLeafs t @ nt_owningNodes t @ nt_usingNodes t) \<and>
       c \<notin> fst ` set (nt_subscribers t)) \<and>
    (\<forall>bd. c \<notin> fst ` set (binding_owners_of n' bd))"
proof -
  obtain A where s: "sees n A" and i: "inv True {} A" by (rule ps_reached[OF assms])
  have co: "conns_ok A" using i by (simp add: inv_def)
  have "wp True (node_connection_destroyed ps_node_hooks c n) (\<lambda>n'. \<not> is_connection_alive c n' \<and>
    (\<forall>tm t. get_nt n' tm = Some t \<longrightarrow> c \<notin> fst ` set (nt_owningLeafs t @ nt_owningNodes t @ nt_usingNodes t) \<and>
       c \<notin> fst ` set (nt_subscribers t)) \<and>
    (\<forall>bd. c \<notin> fst ` set (binding_owners_of n' bd)))"
  proof (rule ps_node.wp_node_connection_destroyed[OF s i], intro conjI allI impI)
    fix n' :: "(unit, unit) node" and es A'
    assume i': "inv True {} A'" and l: "a_leafs A' = a_leafs (without_conn c A)" "a_nodes A' = a_nodes (without_conn c A)"
      and T: "\<And>tm v. a_T A' tm = Some v \<Longrightarrow> clean c v" and B: "\<And>bd b. a_B A' bd = Some b \<Longrightarrow> c \<notin> fst ` set (w_owners b)"
      and s': "sees n' (out_A es A')"
    show "\<not> is_connection_alive c n'"
      using seesD(3,4)[OF s'] l without_conn_sets(1,2)[OF co, of c] by (simp add: is_connection_alive_def)
    show "c \<notin> fst ` set (binding_owners_of n' bd)" for bd
      unfolding established_view(2)[OF s'] using B by (cases "a_B A' bd") (simp_all add: bowners_def)
    fix tm t
    assume t: "get_nt n' tm = Some t"
    obtain v where v: "a_T (out_A es A') tm = Some v" using t sees_get_nt[OF s', of tm] by auto
    obtain t' where t': "get_nt n' tm = Some t'" "nt_owningLeafs t' = v_leafs v" "nt_owningNodes t' = v_nodes v" "nt_usingNodes t' = v_users v"
      "nt_subscribers t' = v_subs v"
      using sees_T[OF s' v] tview_of_eq by metis
    have cl: "c \<notin> fst ` set (v_leafs v)" "c \<notin> fst ` set (v_nodes v)" "c \<notin> fst ` set (v_users v)"
      using T[of tm v] v by (simp_all add: clean_def)
    show "c \<notin> fst ` set (nt_owningLeafs t @ nt_owningNodes t @ nt_usingNodes t)" using t t' cl by auto
    have "subs_ok True v" using i' v by (simp add: inv_def local_ok_def)
    then have "d \<in> fst ` set (v_users v)" if "d \<in> fst ` set (v_subs v)" for d
      using that unfolding subs_ok_def by (force dest: map_of_SomeD)
    then show "c \<notin> fst ` set (nt_subscribers t)" using t t' cl(3) by auto
  qed
  then show ?thesis by (simp add: wp_total)
qed

lemma ended_connection_forgotten_witness:
  "\<exists>n n'. ps_run sample_subscribed = Some n \<and> is_connection_alive leaf2 n \<and>
    node_connection_destroyed ps_node_hooks leaf2 n = Some n' \<and> \<not> is_connection_alive leaf2 n' \<and> binding_owners_of n' (Id 1) = []"
proof -
  have l: "ps_legal sample_subscribed" by code_simp
  have "map_option (\<lambda>n. (is_connection_alive leaf2 n, map_option (\<lambda>n'. binding_owners_of n' (Id 1))
      (node_connection_destroyed ps_node_hooks leaf2 n))) (ps_run sample_subscribed) = Some (True, Some [])" by code_simp
  then obtain n where n: "ps_run sample_subscribed = Some n" "is_connection_alive leaf2 n"
    "map_option (\<lambda>n'. binding_owners_of n' (Id 1)) (node_connection_destroyed ps_node_hooks leaf2 n) = Some []" by auto
  from ended_connection_forgotten[OF l n(1), of leaf2] n show ?thesis by auto
qed

lemma sees_out: "sees n A \<Longrightarrow> filter base_event (nd_out n) = a_out A"
  by (auto simp: sees_def view_def)

text \<open>C9: A leaf that destroys a binding before the node has acknowledged it and makes another one with
  the same identifier is not told that the new binding is established: the node answers the second
  description with the acknowledgement of the removal and a new mapping only, although the binding is
  established for this owner and stays so.\<close>

theorem remapped_binding_not_told:
  assumes "ps_legal (cs @ [Node_Received (BindingDescription x i) c])" "ps_run cs = Some n"
    and "find_ident (nd_bindings n) x = Some e" "map_of (nb_owningLeafs (el_data e)) c = Some f"
  shows "\<exists>n'. ps_node_receive (BindingDescription x i) c n = Some n' \<and>
    filter base_event (nd_out n') = filter base_event (nd_out n) @
      [Node_Sent c (BindingRemovedAck (m_mappedId f)), Node_Sent c (BindingMapping i (el_id e))] \<and>
    node_established n' (el_id e) c = node_established n (el_id e) c"
proof -
  obtain A where s: "sees n A" and iv: "inv True {} A" and al: "is_connection_alive c n" and p: "node_from_peer (BindingDescription x i) c n"
    by (rule ps_received[OF assms(1,2)])
  have lo: "links_ok A" using iv by (simp add: inv_def)
  have c: "\<not> remote_is_node c" "c \<in> set (a_leafs A)" and j: "id_valid i"
    using p al seesD(3)[OF s] by (auto simp: is_connection_alive_def)
  obtain b where b: "a_B A (el_id e) = Some b" "w_ident b = x" "bview_of e = b" "\<not> w_hidden b" using find_ident_B(1)[OF s assms(3)] by blast
  have own: "map_of (w_owners b) c = Some f" using bview_of_eq[OF b(3)] assms(4) by simp
  have uniq: "bd = el_id e" if "a_B A bd = Some b'" "w_ident b' = x" for bd b'
  proof -
    have "B_links A bd = Some (x, False, w_terminal b')" "B_links A (el_id e) = Some (x, False, w_terminal b)"
      using that b links_okD(4)[OF lo that(1)] by (simp_all add: B_links_def blink_def)
    from linksD(7)[OF lo[unfolded links_ok_def] this] show ?thesis .
  qed
  have "wp True (node_BindingDescription ps_node_hooks x i c n) (\<lambda>n'. filter base_event (nd_out n') = filter base_event (nd_out n) @
      [Node_Sent c (BindingRemovedAck (m_mappedId f)), Node_Sent c (BindingMapping i (el_id e))] \<and>
    node_established n' (el_id e) c = node_established n (el_id e) c)"
  proof (rule ps_node.wp_node_BindingDescription[OF s iv c j], goal_cases)
    case (1 n' bd b' g A')
    have e: "bd = el_id e" "b' = b" "g = f" using uniq[OF 1(1,2)] 1(1,3) b(1) own by auto
    let ?b = "b\<lparr>w_owners := AList.update c (described i (Some f)) (w_owners b)\<rparr>"
    have A': "A' = put_B (el_id e) (Some ?b) A" using 1(4) e by simp
    have "established A' (el_id e) c = established A (el_id e) c"
      by (rule established_owner(1)[OF b(1), of ?b]) (use own in \<open>simp_all add: A' map_of_alist_update\<close>)
    moreover have "filter base_event (nd_out n') = a_out A' @ describe_events c (el_id e) i (Some f)"
      using sees_out[OF 1(6)] e by simp
    moreover have "a_out A' = filter base_event (nd_out n)" using sees_out[OF s] by (simp add: A')
    ultimately show ?case using established_view(1)[OF s] established_view(1)[OF 1(6)] by (simp add: describe_events_def)
  next
    case (2 n' bd b' A')
    then show ?case using uniq[OF 2(1,2)] b(1) own by simp
  next
    case (3 n' bd tm v A')
    then show ?case using b by blast
  qed
  then show ?thesis by (simp add: wp_total)
qed

lemma remapped_binding_not_told_witness:
  "\<exists>n n'. ps_run sample_calls = Some n \<and> ps_node_receive (BindingDescription default_ident (Id 23)) leaf2 n = Some n' \<and>
    node_established n' (Id 1) leaf2 \<and> filter binding_event (nd_out n') = [Node_Sent leaf2 (BindingEstablished (Id 22))]"
proof -
  let ?b = "BindingDescription default_ident (Id 23)"
  have l: "ps_legal (sample_calls @ [Node_Received ?b leaf2])" by code_simp
  have "map_option (\<lambda>n. (map_option el_id (find_ident (nd_bindings n) default_ident),
      map_option (\<lambda>e. map_option m_mappedId (map_of (nb_owningLeafs (el_data e)) leaf2)) (find_ident (nd_bindings n) default_ident),
      node_established n (Id 1) leaf2, map_option (\<lambda>n'. filter binding_event (nd_out n')) (ps_node_receive ?b leaf2 n))) (ps_run sample_calls) =
    Some (Some (Id 1), Some (Some (Id 22)), True, Some [Node_Sent leaf2 (BindingEstablished (Id 22))])" by code_simp
  then obtain n e f where n: "ps_run sample_calls = Some n" "find_ident (nd_bindings n) default_ident = Some e" "el_id e = Id 1"
    "map_of (nb_owningLeafs (el_data e)) leaf2 = Some f" "node_established n (Id 1) leaf2"
    "map_option (\<lambda>n'. filter binding_event (nd_out n')) (ps_node_receive ?b leaf2 n) = Some [Node_Sent leaf2 (BindingEstablished (Id 22))]" by auto
  from remapped_binding_not_told[OF l n(1,2,4)] n show ?thesis by auto
qed

end
