(* ===== verification/Communicators.thy ===== *)
theory Communicators
  imports Event_Runs Messages
begin

text \<open>
  \<^verbatim>\<open>core/Leaf\<close> and \<^verbatim>\<open>core/Node\<close>: the objects that own one logic object per terminal class, hand every message to
  the handler its type is registered for, and pass the start and the end of a connection to all classes.
\<close>

section \<open>Handler tables\<close>

text \<open>A handler is known by the message type it was added for, to which it casts what it gets.\<close>

type_synonym handler_table = "msg_type option list"

definition resize_table :: "nat \<Rightarrow> handler_table \<Rightarrow> handler_table" where
  "resize_table n xs = xs @ replicate (n - length xs) None"

definition add_msg_handler :: "msg_type \<Rightarrow> handler_table \<Rightarrow> handler_table option" where
  "add_msg_handler t xs = (let i = number (message_type_id t); xs1 = (if length xs \<le> i then resize_table (i + 1) xs else xs) in
     do { yassert (xs1 ! i = None); Some (xs1[i := Some t]) })"

definition merge_message_handlers :: "handler_table \<Rightarrow> handler_table \<Rightarrow> handler_table" where
  "merge_message_handlers others xs = (let xs1 = (if length xs < length others then resize_table (length others) xs else xs) in
     fold (\<lambda>i ys. if others ! i \<noteq> None then ys[i := others ! i] else ys) [0..<length others] xs1)"

text \<open>The constructors of the logic classes add the handlers of their messages, base classes first.\<close>

definition LeafLogicBaseT_handlers :: "kind list" where
  "LeafLogicBaseT_handlers = [K_TerminalDescription, K_TerminalMapping, K_TerminalNoticed, K_TerminalRemoved, K_TerminalRemovedAck,
     K_BindingDescription, K_BindingMapping, K_BindingNoticed, K_BindingRemoved, K_BindingRemovedAck, K_BindingEstablished, K_BindingReleased]"

definition NodeLogicBaseT_handlers :: "kind list" where
  "NodeLogicBaseT_handlers = [K_TerminalDescription, K_TerminalMapping, K_TerminalRemoved, K_TerminalRemovedAck, K_BindingDescription,
     K_BindingRemoved]"

definition subscribable_handlers :: "kind list" where
  "subscribable_handlers = [K_Subscribe, K_Unsubscribe]"

fun class_handlers :: "kind list \<Rightarrow> tclass \<Rightarrow> kind list" where
  "class_handlers base DeafMute = base"
| "class_handlers base PublishSubscribe = base @ subscribable_handlers @ [K_Data]"
| "class_handlers base ScatterGather = base @ subscribable_handlers @ [K_Scatter, K_Gather]"
| "class_handlers base CachedPublishSubscribe = base @ subscribable_handlers @ [K_Data] @ [K_CachedData]"
| "class_handlers base ProducerConsumer = base @ subscribable_handlers @ [K_Data]"
| "class_handlers base CachedProducerConsumer = base @ subscribable_handlers @ [K_Data] @ [K_CachedData]"
| "class_handlers base MasterSlave = base @ subscribable_handlers @ [K_Data]"
| "class_handlers base CachedMasterSlave = base @ subscribable_handlers @ [K_Data] @ [K_CachedData]"
| "class_handlers base ServiceClient = base @ subscribable_handlers @ [K_Scatter, K_Gather]"

definition message_handlers :: "kind list \<Rightarrow> tclass \<Rightarrow> handler_table option" where
  "message_handlers base c = for_each (class_handlers base c) (\<lambda>k. add_msg_handler (c, k)) []"

definition all_classes :: "tclass list" where
  "all_classes = [DeafMute, PublishSubscribe, ScatterGather, CachedPublishSubscribe, ProducerConsumer, CachedProducerConsumer,
     MasterSlave, CachedMasterSlave, ServiceClient]"

lemma all_classes_all [simp]: "c \<in> set all_classes" "distinct all_classes"
  by (cases c) (simp_all add: all_classes_def)

definition communicator_table :: "kind list \<Rightarrow> handler_table option" where
  "communicator_table base = for_each all_classes (\<lambda>c xs. do { ys \<leftarrow> message_handlers base c; Some (merge_message_handlers ys xs) }) []"

definition leaf_table :: "handler_table option" where
  "leaf_table = communicator_table LeafLogicBaseT_handlers"

definition node_table :: "handler_table option" where
  "node_table = communicator_table NodeLogicBaseT_handlers"

text \<open>Calling an empty \<^verbatim>\<open>std::function\<close> throws \<^verbatim>\<open>std::bad_function_call\<close>.\<close>

datatype dispatch = Handled msg_type | Bad_Function_Call | Out_Of_Range

definition on_message_received :: "handler_table \<Rightarrow> message \<Rightarrow> dispatch" where
  "on_message_received tab m = (let i = number (type_id m) in
     if i < length tab then (case tab ! i of None \<Rightarrow> Bad_Function_Call | Some t \<Rightarrow> Handled t) else Out_Of_Range)"

section \<open>Reading a table\<close>

definition handler_at :: "handler_table \<Rightarrow> nat \<Rightarrow> msg_type option" where
  "handler_at xs i = (if i < length xs then xs ! i else None)"

lemma handler_at_resize [simp]: "handler_at (resize_table n xs) i = handler_at xs i"
  by (auto simp: handler_at_def resize_table_def nth_append)

lemma length_resize [simp]: "length (resize_table n xs) = max n (length xs)"
  by (simp add: resize_table_def)

lemma handler_at_update: "i < length xs \<Longrightarrow> handler_at (xs[i := v]) = (handler_at xs)(i := v)"
  by (auto simp: handler_at_def fun_eq_iff nth_list_update)

lemma add_msg_handler_at:
  assumes "handler_at xs (number (message_type_id t)) = None"
  shows "\<exists>ys. add_msg_handler t xs = Some ys \<and> handler_at ys = (handler_at xs)(number (message_type_id t) := Some t) \<and>
    length ys = max (length xs) (number (message_type_id t) + 1)"
proof -
  let ?i = "number (message_type_id t)" and ?xs1 = "if length xs \<le> number (message_type_id t) then resize_table (number (message_type_id t) + 1) xs else xs"
  have l: "length ?xs1 = max (length xs) (?i + 1)" "?i < length ?xs1" by auto
  have h: "handler_at ?xs1 = handler_at xs" by (simp add: fun_eq_iff)
  have "?xs1 ! ?i = handler_at ?xs1 ?i" unfolding handler_at_def using l(2) by (rule if_P[symmetric])
  then have "?xs1 ! ?i = None" using assms h by simp
  then show ?thesis using handler_at_update[OF l(2), of "Some t"] l h by (auto simp: add_msg_handler_def Let_def)
qed

lemma merge_loop:
  assumes "length others \<le> length xs" "n \<le> length others"
  shows "handler_at (fold (\<lambda>i ys. if others ! i \<noteq> None then ys[i := others ! i] else ys) [0..<n] xs) =
      (\<lambda>i. if i < n \<and> others ! i \<noteq> None then others ! i else handler_at xs i) \<and>
    length (fold (\<lambda>i ys. if others ! i \<noteq> None then ys[i := others ! i] else ys) [0..<n] xs) = length xs"
  using assms(2)
proof (induction n)
  case (Suc n)
  then show ?case using assms(1) by (auto simp: handler_at_update fun_eq_iff less_Suc_eq)
qed (simp add: fun_eq_iff)

lemma merge_at:
  "handler_at (merge_message_handlers others xs) = handler_at xs ++ handler_at others"
  "length (merge_message_handlers others xs) = max (length xs) (length others)"
proof -
  let ?xs1 = "if length xs < length others then resize_table (length others) xs else xs"
  have l: "length others \<le> length ?xs1" "length ?xs1 = max (length xs) (length others)" by auto
  have h: "handler_at ?xs1 = handler_at xs" by (simp add: fun_eq_iff)
  note m = merge_loop[OF l(1) order.refl]
  show "length (merge_message_handlers others xs) = max (length xs) (length others)"
    using m l(2) by (simp add: merge_message_handlers_def Let_def)
  have "(handler_at xs ++ handler_at others) i = (if i < length others \<and> others ! i \<noteq> None then others ! i else handler_at xs i)" for i
    by (auto simp: map_add_def handler_at_def[of others] split: option.splits)
  then show "handler_at (merge_message_handlers others xs) = handler_at xs ++ handler_at others"
    using conjunct1[OF m] unfolding h merge_message_handlers_def Let_def by (simp add: fun_eq_iff)
qed

text \<open>The numbers of different types are different.\<close>

lemma type_numbers:
  assumes "registered t" "registered t'" "number (message_type_id t) = number (message_type_id t')"
  shows "t = t'"
proof -
  have "message_type_id t = message_type_id t'" using assms(3) by (simp add: id.expand)
  then show ?thesis using message_type_ids[OF assms(1,2)] by blast
qed

lemma message_handlers_at:
  assumes "distinct ks" "\<forall>k \<in> set ks. registered (c, k)" "\<forall>k \<in> set ks. handler_at xs (number (message_type_id (c, k))) = None"
  shows "\<exists>ys. for_each ks (\<lambda>k. add_msg_handler (c, k)) xs = Some ys \<and>
    (\<forall>i t. handler_at ys i = Some t \<longleftrightarrow> handler_at xs i = Some t \<or> (\<exists>k \<in> set ks. t = (c, k) \<and> i = number (message_type_id t)))"
  using assms
proof (induction ks arbitrary: xs)
  case (Cons k ks)
  let ?i = "number (message_type_id (c, k))"
  obtain ys where y: "add_msg_handler (c, k) xs = Some ys" "handler_at ys = (handler_at xs)(?i := Some (c, k))"
    using add_msg_handler_at[of xs "(c, k)"] Cons.prems(3) by auto
  have n: "\<forall>k' \<in> set ks. number (message_type_id (c, k')) \<noteq> ?i"
  proof
    fix k' assume k: "k' \<in> set ks"
    then have "k' \<noteq> k" using Cons.prems(1) by auto
    then show "number (message_type_id (c, k')) \<noteq> ?i" using type_numbers[of "(c, k')" "(c, k)"] Cons.prems(2) k by auto
  qed
  obtain zs where "for_each ks (\<lambda>k. add_msg_handler (c, k)) ys = Some zs"
      "\<forall>i t. handler_at zs i = Some t \<longleftrightarrow> handler_at ys i = Some t \<or> (\<exists>k \<in> set ks. t = (c, k) \<and> i = number (message_type_id t))"
    using Cons.IH[of ys] Cons.prems n y(2) by auto
  then show ?case using y Cons.prems(3) by (auto simp: fun_upd_def split: if_splits)
qed simp

definition own_numbers :: "handler_table \<Rightarrow> bool" where
  "own_numbers xs \<longleftrightarrow> (\<forall>i t. handler_at xs i = Some t \<longrightarrow> registered t \<and> i = number (message_type_id t))"

lemma merge_union:
  assumes "own_numbers xs" "own_numbers ys"
  shows "own_numbers (merge_message_handlers ys xs)"
    "handler_at (merge_message_handlers ys xs) i = Some t \<longleftrightarrow> handler_at xs i = Some t \<or> handler_at ys i = Some t"
proof -
  have u: "handler_at (merge_message_handlers ys xs) i = Some t \<longleftrightarrow> handler_at xs i = Some t \<or> handler_at ys i = Some t" for i t
  proof (cases "handler_at ys i")
    case (Some t')
    then have "handler_at xs i = Some t \<Longrightarrow> t = t'" using assms type_numbers[of t t'] unfolding own_numbers_def by metis
    then show ?thesis using Some by (auto simp: merge_at)
  qed (auto simp: merge_at map_add_def)
  show "handler_at (merge_message_handlers ys xs) i = Some t \<longleftrightarrow> handler_at xs i = Some t \<or> handler_at ys i = Some t" by (rule u)
  show "own_numbers (merge_message_handlers ys xs)" using assms unfolding own_numbers_def u by blast
qed

definition handlers_registered :: "kind list \<Rightarrow> bool" where
  "handlers_registered base \<longleftrightarrow> list_all (\<lambda>c. distinct (class_handlers base c) \<and> list_all (\<lambda>k. registered (c, k)) (class_handlers base c)) all_classes"

lemma handlers_registered: "handlers_registered LeafLogicBaseT_handlers" "handlers_registered NodeLogicBaseT_handlers"
  by code_simp+

lemma merged_tables:
  assumes "handlers_registered base" "set cs \<subseteq> set all_classes" "own_numbers xs"
  shows "\<exists>tab. for_each cs (\<lambda>c xs. do { ys \<leftarrow> message_handlers base c; Some (merge_message_handlers ys xs) }) xs = Some tab \<and>
    (\<forall>i t. handler_at tab i = Some t \<longleftrightarrow> handler_at xs i = Some t \<or>
       fst t \<in> set cs \<and> snd t \<in> set (class_handlers base (fst t)) \<and> i = number (message_type_id t))"
  using assms(2,3)
proof (induction cs arbitrary: xs)
  case (Cons c cs)
  have r: "distinct (class_handlers base c)" "\<forall>k \<in> set (class_handlers base c). registered (c, k)"
    using assms(1) Cons.prems(1) by (auto simp: handlers_registered_def list_all_iff)
  obtain ys where y: "message_handlers base c = Some ys"
      "\<And>i t. handler_at ys i = Some t \<longleftrightarrow> (\<exists>k \<in> set (class_handlers base c). t = (c, k) \<and> i = number (message_type_id t))"
    using message_handlers_at[OF r, of "[]"] by (auto simp: message_handlers_def handler_at_def)
  have o: "own_numbers ys" using y(2) r(2) by (auto simp: own_numbers_def)
  note m = merge_union[OF Cons.prems(2) o]
  obtain tab where "for_each cs (\<lambda>c xs. do { ys \<leftarrow> message_handlers base c; Some (merge_message_handlers ys xs) })
        (merge_message_handlers ys xs) = Some tab"
      "\<forall>i t. handler_at tab i = Some t \<longleftrightarrow> handler_at (merge_message_handlers ys xs) i = Some t \<or>
        fst t \<in> set cs \<and> snd t \<in> set (class_handlers base (fst t)) \<and> i = number (message_type_id t)"
    using Cons.IH[OF _ m(1)] Cons.prems(1) by auto
  then show ?case using y m(2) by auto
qed simp

lemma communicator_table_at:
  assumes "handlers_registered base"
  shows "\<exists>tab. communicator_table base = Some tab \<and>
    (\<forall>i t. handler_at tab i = Some t \<longleftrightarrow> snd t \<in> set (class_handlers base (fst t)) \<and> i = number (message_type_id t))"
proof -
  show ?thesis
    using merged_tables[OF assms order.refl, of "[]"] by (simp add: communicator_table_def own_numbers_def handler_at_def)
qed

lemma registered_kinds:
  "list_all (\<lambda>(c, k). k \<in> set (class_handlers LeafLogicBaseT_handlers c) \<and>
     (k \<in> set (class_handlers NodeLogicBaseT_handlers c) \<longleftrightarrow>
       k \<notin> set [K_TerminalNoticed, K_BindingMapping, K_BindingNoticed, K_BindingRemovedAck, K_BindingEstablished, K_BindingReleased]))
     message_register"
  by code_simp

section \<open>Dispatch\<close>

definition for_leafs_only :: "kind \<Rightarrow> bool" where
  "for_leafs_only k \<longleftrightarrow> k \<in> set [K_TerminalNoticed, K_BindingMapping, K_BindingNoticed, K_BindingRemovedAck, K_BindingEstablished, K_BindingReleased]"

lemma last_number: "registered (ServiceClient, K_Gather)" "number (message_type_id (ServiceClient, K_Gather)) = 137"
  by code_simp+

lemma table_dispatch:
  assumes "handlers_registered base" "K_Gather \<in> set (class_handlers base ServiceClient)" "registered (message_type m)"
  shows "\<exists>tab. communicator_table base = Some tab \<and> on_message_received tab m =
    (if body_kind (snd m) \<in> set (class_handlers base (fst m)) then Handled (message_type m) else Bad_Function_Call)"
proof -
  obtain tab where t: "communicator_table base = Some tab"
      "\<forall>i t. handler_at tab i = Some t \<longleftrightarrow> snd t \<in> set (class_handlers base (fst t)) \<and> i = number (message_type_id t)"
    using communicator_table_at[OF assms(1)] by blast
  have "handler_at tab 137 = Some (ServiceClient, K_Gather)" using t(2) assms(2) last_number(2) by simp
  then have "137 < length tab" by (simp add: handler_at_def split: if_splits)
  then have l: "number (type_id m) < length tab" using message_type_of_type_id(3)[OF assms(3)] by (simp add: type_id_def)
  have "handler_at tab (number (type_id m)) = Some t' \<longleftrightarrow> t' = message_type m \<and> body_kind (snd m) \<in> set (class_handlers base (fst m))" for t'
  proof
    assume h: "handler_at tab (number (type_id m)) = Some t'"
    then have s: "snd t' \<in> set (class_handlers base (fst t'))" "number (message_type_id t') = number (message_type_id (message_type m))"
      using t(2) by (auto simp: type_id_def)
    then have "registered t'" using assms(1) by (cases t'; cases "fst t'") (auto simp: handlers_registered_def list_all_iff all_classes_def)
    then have "t' = message_type m" using type_numbers[OF _ assms(3) s(2)] by blast
    then show "t' = message_type m \<and> body_kind (snd m) \<in> set (class_handlers base (fst m))" using s(1) by (simp add: message_type_def)
  qed (use t(2) in \<open>auto simp: type_id_def message_type_def\<close>)
  then have "tab ! number (type_id m) = (if body_kind (snd m) \<in> set (class_handlers base (fst m)) then Some (message_type m) else None)"
    using l by (cases "tab ! number (type_id m)") (auto simp: handler_at_def)
  then show ?thesis using t(1) l by (simp add: on_message_received_def)
qed

section \<open>Properties\<close>

text \<open>C14: Every handler gets messages of the type it casts to: a leaf hands each of the 137 types of messages to the handler of its
  own class and type, a node likewise except for the six kinds that are meant for leafs only, which make it throw; neither
  reads its table out of range, and building the tables fails no assertion.\<close>

theorem handlers_get_their_type:
  assumes "registered (message_type m)"
  shows "(\<exists>tab. leaf_table = Some tab \<and> on_message_received tab m = Handled (message_type m)) \<and>
    (\<exists>tab. node_table = Some tab \<and> on_message_received tab m =
      (if for_leafs_only (body_kind (snd m)) then Bad_Function_Call else Handled (message_type m)))"
proof -
  have r: "body_kind (snd m) \<in> set (class_handlers LeafLogicBaseT_handlers (fst m))"
      "body_kind (snd m) \<in> set (class_handlers NodeLogicBaseT_handlers (fst m)) \<longleftrightarrow> \<not> for_leafs_only (body_kind (snd m))"
    using registered_kinds assms by (auto simp: registered_def message_type_def list_all_iff for_leafs_only_def)
  have g: "K_Gather \<in> set (class_handlers base ServiceClient)" for base by simp
  show ?thesis
    using table_dispatch[OF handlers_registered(1) g assms] table_dispatch[OF handlers_registered(2) g assms] r
    by (cases "for_leafs_only (body_kind (snd m))") (simp_all add: leaf_table_def node_table_def)
qed

lemma handlers_get_their_type_witness:
  "\<exists>tab. node_table = Some tab \<and> on_message_received tab (ProducerConsumer, Subscribe (Id 4)) = Handled (ProducerConsumer, K_Subscribe) \<and>
     on_message_received tab (ProducerConsumer, BindingReleased (Id 4)) = Bad_Function_Call"
proof -
  have "registered (ProducerConsumer, K_Subscribe)" "registered (ProducerConsumer, K_BindingReleased)" by code_simp+
  then have r: "registered (message_type (ProducerConsumer, Subscribe (Id 4)))" "registered (message_type (ProducerConsumer, BindingReleased (Id 4)))"
    by (simp_all add: message_type_def)
  obtain tab where "node_table = Some tab" "on_message_received tab (ProducerConsumer, Subscribe (Id 4)) = Handled (ProducerConsumer, K_Subscribe)"
    using handlers_get_their_type[OF r(1)] by (auto simp: for_leafs_only_def message_type_def)
  moreover obtain tab' where "node_table = Some tab'" "on_message_received tab' (ProducerConsumer, BindingReleased (Id 4)) = Bad_Function_Call"
    using handlers_get_their_type[OF r(2)] by (auto simp: for_leafs_only_def message_type_def)
  ultimately show ?thesis by (metis option.inject)
qed

end
