(* ===== verification/Node_Language.thy ===== *)
theory Node_Language
  imports Node_Contract Communicators
begin

text \<open>
  Which messages a node sends to whom: another node gets only messages it has a handler for, and a leaf no
  description of terminals or bindings and no removal, to which it would have to answer with messages a node has no handler for.
  The invariant holds for every operation of the node logic, whatever arrives.
\<close>

section \<open>Elements of a register\<close>

definition elements_ok :: "('a \<Rightarrow> bool) \<Rightarrow> 'a ireg \<Rightarrow> bool" where
  "elements_ok Q r \<longleftrightarrow> (\<forall>e. Some e \<in> set (ir_lut r) \<longrightarrow> Q (el_data e))"

lemma found_element:
  assumes "find_id r i = Some e"
  shows "Some e \<in> set (ir_lut r)"
proof -
  have "number i - 1 < length (ir_lut r)" "ir_lut r ! (number i - 1) = Some e"
    using assms by (auto simp: find_id_def split: if_splits)
  then show ?thesis by (metis nth_mem)
qed

lemma elements_find: "elements_ok Q r \<Longrightarrow> find_id r i = Some e \<Longrightarrow> Q (el_data e)"
  using found_element by (auto simp: elements_ok_def)

lemma elements_put: "elements_ok Q r \<Longrightarrow> (\<And>x. e = Some x \<Longrightarrow> Q (el_data x)) \<Longrightarrow> elements_ok Q (ireg_put i e r)"
  using set_update_subset_insert[of "ir_lut r" "number i - 1" e] by (fastforce simp: elements_ok_def ireg_put_def)

lemma elements_map [simp]: "elements_ok Q (r\<lparr>ir_map := m\<rparr>) = elements_ok Q r" "elements_ok Q (r\<lparr>ir_free := fs\<rparr>) = elements_ok Q r"
  by (simp_all add: elements_ok_def)

lemma elements_modify: "ireg_modify i f r = Some r' \<Longrightarrow> elements_ok Q r \<Longrightarrow> (\<And>x. Q x \<Longrightarrow> Q (f x)) \<Longrightarrow> elements_ok Q r'"
  by (auto simp: ireg_modify_def elim!: bind_SomeE intro!: elements_put dest: elements_find)

lemma elements_hide:
  assumes "ireg_hide i r = Some r'" "elements_ok Q r"
  shows "elements_ok Q r'"
proof -
  obtain e where e: "find_id r i = Some e"
      "r' = (if el_hidden e then r else (ireg_put i (Some (e\<lparr>el_hidden := True\<rparr>)) r)\<lparr>ir_map := (ir_map r)(el_ident e := None)\<rparr>)"
    using assms(1) by (auto simp: ireg_hide_def elim!: bind_SomeE split: if_splits)
  have "elements_ok Q (ireg_put i (Some (e\<lparr>el_hidden := True\<rparr>)) r)"
    using elements_put[OF assms(2), of "Some (e\<lparr>el_hidden := True\<rparr>)"] elements_find[OF assms(2) e(1)] by simp
  then show ?thesis using e(2) assms(2) by simp
qed

lemma elements_erase: "ireg_erase i r = Some r' \<Longrightarrow> elements_ok Q r \<Longrightarrow> elements_ok Q r'"
  by (auto simp: ireg_erase_def elim!: bind_SomeE intro!: elements_put dest: elements_hide)

lemma elements_insert: "elements_ok Q r \<Longrightarrow> Q d \<Longrightarrow> ireg_insert x d r = (p, r') \<Longrightarrow> elements_ok Q r'"
proof -
  assume q: "elements_ok Q r" "Q d" and i: "ireg_insert x d r = (p, r')"
  have r: "elements_ok Q (ireg_reserve r)" using q(1) by (auto simp: ireg_reserve_def elements_ok_def)
  show ?thesis
  proof (cases "ir_map (ireg_reserve r) x")
    case None
    let ?i = "hd (ir_free (ireg_reserve r))"
    let ?e = "\<lparr>el_ident = x, el_id = ?i, el_hidden = False, el_data = d\<rparr>"
    have "elements_ok Q (ireg_put ?i (Some ?e) (ireg_reserve r))" using elements_put[OF r, of "Some ?e"] q(2) by simp
    then show ?thesis using i None by (auto simp: ireg_insert_def Let_def ireg_put_def elements_ok_def)
  qed (use i r in \<open>simp add: ireg_insert_def Let_def\<close>)
qed

section \<open>The invariant\<close>

definition answered_by_leafs :: "kind \<Rightarrow> bool" where
  "answered_by_leafs k \<longleftrightarrow> k \<in> set [K_TerminalDescription, K_TerminalRemoved, K_BindingDescription, K_BindingRemoved, K_TerminalNoticed, K_BindingNoticed]"

text \<open>What may be said to the other end of a connection, in the class \<open>cl\<close>.\<close>

definition speaks :: "tclass \<Rightarrow> connection \<Rightarrow> body \<Rightarrow> bool" where
  "speaks cl c b \<longleftrightarrow> registered (cl, body_kind b) \<and>
     (if remote_is_node c then \<not> for_leafs_only (body_kind b) else \<not> answered_by_leafs (body_kind b))"

definition keys_are :: "bool \<Rightarrow> fsm_map \<Rightarrow> bool" where
  "keys_are nd m \<longleftrightarrow> (\<forall>c \<in> fst ` set m. remote_is_node c = nd)"

definition terminal_lang :: "'te node_terminal \<Rightarrow> bool" where
  "terminal_lang t \<longleftrightarrow> keys_are True (nt_usingNodes t) \<and> keys_are True (nt_owningNodes t)"

definition binding_lang :: "node_binding \<Rightarrow> bool" where
  "binding_lang b \<longleftrightarrow> keys_are False (nb_owningLeafs b)"

definition node_lang :: "tclass \<Rightarrow> ('te, 'x) node \<Rightarrow> bool" where
  "node_lang cl n \<longleftrightarrow> (\<forall>c \<in> set (nd_nodeConnections n). remote_is_node c) \<and> elements_ok terminal_lang (nd_terminals n) \<and>
     elements_ok binding_lang (nd_bindings n) \<and> (\<forall>c b. Node_Sent c b \<in> set (nd_out n) \<longrightarrow> speaks cl c b)"

lemma keys_are_simps [simp]:
  "keys_are nd []" "keys_are nd m \<Longrightarrow> keys_are nd (AList.delete c m)"
  "remote_is_node c = nd \<Longrightarrow> keys_are nd m \<Longrightarrow> keys_are nd (ensure_fsm c m)"
  "keys_are nd m \<Longrightarrow> map_of m c = Some f \<Longrightarrow> keys_are nd (AList.update c f' m)"
  using dom_delete_subset[of c m] by (force simp: keys_are_def ensure_fsm_def dom_update dest!: map_of_SomeD)+

lemma keys_areD: "keys_are nd m \<Longrightarrow> map_of m c = Some f \<Longrightarrow> remote_is_node c = nd" "keys_are nd m \<Longrightarrow> (c, f) \<in> set m \<Longrightarrow> remote_is_node c = nd"
  by (force simp: keys_are_def dest: map_of_SomeD)+

lemma registered_base: "k \<in> set LeafLogicBaseT_handlers \<Longrightarrow> registered (cl, k)"
proof -
  assume k: "k \<in> set LeafLogicBaseT_handlers"
  have "k \<in> set (class_handlers LeafLogicBaseT_handlers cl)" using k by (cases cl) simp_all
  then show ?thesis using handlers_registered(1) all_classes_all(1)[of cl] by (auto simp: handlers_registered_def list_all_iff)
qed

lemma speaks_simps [simp]:
  "speaks cl c (TerminalMapping i m)" "speaks cl c (TerminalRemovedAck i)"
  "speaks cl c (TerminalDescription x i) = remote_is_node c" "speaks cl c (TerminalRemoved i) = remote_is_node c"
  "speaks cl c (BindingMapping i m) = (\<not> remote_is_node c)" "speaks cl c (BindingRemovedAck i) = (\<not> remote_is_node c)"
  "speaks cl c (BindingEstablished i) = (\<not> remote_is_node c)" "speaks cl c (BindingReleased i) = (\<not> remote_is_node c)"
  "speaks cl c (Subscribe i) = registered (cl, K_Subscribe)" "speaks cl c (Unsubscribe i) = registered (cl, K_Unsubscribe)"
  "speaks cl c (Data i d) = registered (cl, K_Data)" "speaks cl c (CachedData i d) = registered (cl, K_CachedData)"
  "speaks cl c (Scatter i j d) = registered (cl, K_Scatter)" "speaks cl c (Gather i f d) = registered (cl, K_Gather)"
  by (simp_all add: speaks_def for_leafs_only_def answered_by_leafs_def registered_base LeafLogicBaseT_handlers_def)

section \<open>Basic steps\<close>

lemma lang_send: "speaks cl c b \<Longrightarrow> node_lang cl n \<Longrightarrow> node_lang cl (nsend c b n)"
  by (auto simp: node_lang_def nsend_def)

lemma lang_notify: "node_lang cl n \<Longrightarrow> node_lang cl (nnotify x added n)"
  by (auto simp: node_lang_def nnotify_def)

lemma lang_get_nt: "get_nt n tm = Some t \<Longrightarrow> node_lang cl n \<Longrightarrow> terminal_lang t"
  by (auto simp: node_lang_def get_nt_def dest: elements_find)

lemma lang_find: "find_id (nd_terminals n) tm = Some e \<Longrightarrow> node_lang cl n \<Longrightarrow> terminal_lang (el_data e)"
  by (auto simp: node_lang_def dest: elements_find)

lemma lang_get_nb: "get_nb n bd = Some b \<Longrightarrow> node_lang cl n \<Longrightarrow> binding_lang b"
  by (auto simp: node_lang_def get_nb_def dest: elements_find)

lemma lang_owning_leaf:
  assumes "get_nb n bd = Some b" "node_lang cl n"
  shows "map_of (nb_owningLeafs b) c = Some f \<Longrightarrow> \<not> remote_is_node c" "(c, f) \<in> set (nb_owningLeafs b) \<Longrightarrow> \<not> remote_is_node c"
proof -
  have k: "keys_are False (nb_owningLeafs b)" using lang_get_nb[OF assms] by (simp add: binding_lang_def)
  show "map_of (nb_owningLeafs b) c = Some f \<Longrightarrow> \<not> remote_is_node c" "(c, f) \<in> set (nb_owningLeafs b) \<Longrightarrow> \<not> remote_is_node c"
    using keys_areD[OF k] by simp_all
qed

lemma lang_modify_nt:
  "modify_nt tm f n = Some n' \<Longrightarrow> node_lang cl n \<Longrightarrow> (\<And>t. terminal_lang t \<Longrightarrow> terminal_lang (f t)) \<Longrightarrow> node_lang cl n'"
  by (auto simp: modify_nt_def node_lang_def elim!: bind_SomeE intro: elements_modify)

lemma lang_modify_nb:
  "modify_nb bd f n = Some n' \<Longrightarrow> node_lang cl n \<Longrightarrow> (\<And>b. binding_lang b \<Longrightarrow> binding_lang (f b)) \<Longrightarrow> node_lang cl n'"
  by (auto simp: modify_nb_def node_lang_def elim!: bind_SomeE intro: elements_modify)

lemma lang_hide_nt: "hide_nt tm n = Some n' \<Longrightarrow> node_lang cl n \<Longrightarrow> node_lang cl n'"
  by (auto simp: hide_nt_def node_lang_def elim!: bind_SomeE intro: elements_hide)

lemma lang_erase_nt: "erase_nt tm n = Some n' \<Longrightarrow> node_lang cl n \<Longrightarrow> node_lang cl n'"
  by (auto simp: erase_nt_def node_lang_def elim!: bind_SomeE intro: elements_erase)

lemma lang_erase_nb: "erase_nb bd n = Some n' \<Longrightarrow> node_lang cl n \<Longrightarrow> node_lang cl n'"
  by (auto simp: erase_nb_def node_lang_def elim!: bind_SomeE intro: elements_erase)

lemma lang_for_each:
  "for_each xs f n = Some n' \<Longrightarrow> node_lang cl n \<Longrightarrow> (\<And>x u v. x \<in> set xs \<Longrightarrow> f x u = Some v \<Longrightarrow> node_lang cl u \<Longrightarrow> node_lang cl v) \<Longrightarrow>
    node_lang cl n'"
  using for_each_invariant[of xs f n n' "node_lang cl"] by blast

lemma lang_init: "node_lang cl (node_init x)"
  by (simp add: node_lang_def node_init_def elements_ok_def ireg_empty_def)

lemma terminal_lang_simps [simp]:
  "terminal_lang (t\<lparr>nt_state := st\<rparr>) = terminal_lang t" "terminal_lang (t\<lparr>nt_binding := bd\<rparr>) = terminal_lang t"
  "terminal_lang (t\<lparr>nt_subscribers := ss\<rparr>) = terminal_lang t" "terminal_lang (t\<lparr>nt_ext := ext\<rparr>) = terminal_lang t"
  "binding_lang (b\<lparr>nb_terminal := tm\<rparr>) = binding_lang b"
  by (simp_all add: terminal_lang_def binding_lang_def)

lemma lang_associate:
  "associate_terminal tm n = Some (r, n') \<Longrightarrow> node_lang cl n \<Longrightarrow> node_lang cl n'"
  "associate_binding bd n = Some (r, n') \<Longrightarrow> node_lang cl n \<Longrightarrow> node_lang cl n'"
  "disassociate_terminal tm n = Some n' \<Longrightarrow> node_lang cl n \<Longrightarrow> node_lang cl n'"
  "disassociate_binding bd n = Some n' \<Longrightarrow> node_lang cl n \<Longrightarrow> node_lang cl n'"
  by (auto simp: associate_terminal_def associate_binding_def disassociate_terminal_def disassociate_binding_def
    elim!: bind_SomeE lang_modify_nt lang_modify_nb split: if_splits option.splits)

lemma lang_update_state: "update_state tm n = Some (r, n') \<Longrightarrow> node_lang cl n \<Longrightarrow> node_lang cl n'"
  by (auto simp: update_state_def Let_def elim!: bind_SomeE lang_modify_nt lang_erase_nt intro: lang_notify split: if_splits)

section \<open>State machines\<close>

lemma lang_user_callback: "user_callback x c tm out n = Some n' \<Longrightarrow> node_lang cl n \<Longrightarrow> remote_is_node c \<Longrightarrow> node_lang cl n'"
  by (cases out) (auto simp: user_callback_def intro: lang_send)

lemma lang_owner_callback: "owner_callback c tm i out n = Some n' \<Longrightarrow> node_lang cl n \<Longrightarrow> node_lang cl n'"
  by (cases out) (auto simp: owner_callback_def intro: lang_send)

lemma lang_binding_owner_callback: "binding_owner_callback c bd i out n = Some n' \<Longrightarrow> node_lang cl n \<Longrightarrow> \<not> remote_is_node c \<Longrightarrow> node_lang cl n'"
  by (cases out) (auto simp: binding_owner_callback_def intro: lang_send)

lemma lang_user_fsm:
  assumes "user_fsm tm c call n = Some (r, n')" "node_lang cl n"
  shows "node_lang cl n'"
proof -
  obtain e f f' outs n1 where u: "find_id (nd_terminals n) tm = Some e" "map_of (nt_usingNodes (el_data e)) c = Some f"
      "modify_nt tm (map_users (AList.update c f')) n = Some n1" "for_each outs (user_callback (el_ident e) c tm) n1 = Some n'"
    using assms(1) by (auto simp: user_fsm_def elim!: bind_SomeE)
  have c: "remote_is_node c" using lang_find[OF u(1) assms(2)] u(2) keys_areD(1) by (auto simp: terminal_lang_def)
  have "node_lang cl n1"
  proof -
    obtain r where r: "ireg_modify tm (map_users (AList.update c f')) (nd_terminals n) = Some r" "n1 = n\<lparr>nd_terminals := r\<rparr>"
      using u(3) by (auto simp: modify_nt_def elim!: bind_SomeE)
    have "terminal_lang (map_users (AList.update c f') (el_data e))"
      using lang_find[OF u(1) assms(2)] u(2) by (auto simp: terminal_lang_def map_users_def)
    then have "elements_ok terminal_lang r"
      using r(1) u(1) assms(2) by (auto simp: ireg_modify_def node_lang_def intro!: elements_put)
    then show ?thesis using r(2) assms(2) by (simp add: node_lang_def)
  qed
  then show ?thesis using lang_for_each[OF u(4)] lang_user_callback c by blast
qed

lemma lang_reset_user:
  assumes "reset_user tm c n = Some n'" "node_lang cl n" "remote_is_node c"
  shows "node_lang cl n'"
  using assms by (auto simp: reset_user_def elim!: bind_SomeE lang_user_fsm lang_modify_nt) (auto simp: terminal_lang_def map_users_def)

lemma lang_owner_fsm:
  assumes "owner_fsm tm c i call n = Some (r, n')" "node_lang cl n"
  shows "node_lang cl n'"
proof -
  obtain t f f' outs n1 where u: "get_nt n tm = Some t" "map_of (nt_owners c t) c = Some f"
      "modify_nt tm (map_owners c (AList.update c f')) n = Some n1" "for_each outs (owner_callback c tm i) n1 = Some n'"
    using assms(1) by (auto simp: owner_fsm_def elim!: bind_SomeE)
  have "node_lang cl n1"
  proof -
    obtain e where e: "find_id (nd_terminals n) tm = Some e" "el_data e = t" using u(1) by (auto simp: get_nt_def)
    obtain r where r: "ireg_modify tm (map_owners c (AList.update c f')) (nd_terminals n) = Some r" "n1 = n\<lparr>nd_terminals := r\<rparr>"
      using u(3) by (auto simp: modify_nt_def elim!: bind_SomeE)
    have "terminal_lang (map_owners c (AList.update c f') t)"
      using lang_get_nt[OF u(1) assms(2)] u(2) by (auto simp: terminal_lang_def map_owners_def nt_owners_def split: if_splits)
    then have "elements_ok terminal_lang r"
      using r(1) e assms(2) by (auto simp: ireg_modify_def node_lang_def intro!: elements_put)
    then show ?thesis using r(2) assms(2) by (simp add: node_lang_def)
  qed
  then show ?thesis using lang_for_each[OF u(4)] lang_owner_callback by blast
qed

lemma lang_binding_owner_fsm:
  assumes "binding_owner_fsm bd c i call n = Some (r, n')" "node_lang cl n"
  shows "node_lang cl n'"
proof -
  obtain b f f' outs n1 where u: "get_nb n bd = Some b" "map_of (nb_owningLeafs b) c = Some f"
      "modify_nb bd (\<lambda>b. b\<lparr>nb_owningLeafs := AList.update c f' (nb_owningLeafs b)\<rparr>) n = Some n1"
      "for_each outs (binding_owner_callback c bd i) n1 = Some n'"
    using assms(1) by (auto simp: binding_owner_fsm_def elim!: bind_SomeE)
  have k: "keys_are False (nb_owningLeafs b)" using lang_get_nb[OF u(1) assms(2)] by (simp add: binding_lang_def)
  then have c: "\<not> remote_is_node c" using u(2) keys_areD(1) by blast
  have "node_lang cl n1"
  proof -
    obtain e where e: "find_id (nd_bindings n) bd = Some e" "el_data e = b" using u(1) by (auto simp: get_nb_def)
    obtain r where r: "ireg_modify bd (\<lambda>b. b\<lparr>nb_owningLeafs := AList.update c f' (nb_owningLeafs b)\<rparr>) (nd_bindings n) = Some r"
        "n1 = n\<lparr>nd_bindings := r\<rparr>"
      using u(3) by (auto simp: modify_nb_def elim!: bind_SomeE)
    have "binding_lang (b\<lparr>nb_owningLeafs := AList.update c f' (nb_owningLeafs b)\<rparr>)" using k u(2) by (simp add: binding_lang_def)
    then have "elements_ok binding_lang r"
      using r(1) e assms(2) by (auto simp: ireg_modify_def node_lang_def intro!: elements_put)
    then show ?thesis using r(2) assms(2) by (simp add: node_lang_def)
  qed
  then show ?thesis using lang_for_each[OF u(4)] lang_binding_owner_callback c by blast
qed

section \<open>Hooks\<close>

text \<open>What the operations of the base class rely on: the virtual functions of a class keep the invariant.\<close>

locale speaking_hooks =
  fixes h :: "('te, 'x) node_hooks" and cl :: tclass
  assumes owner_added: "nh_owner_added h c tm i n = Some n' \<Longrightarrow> node_lang cl n \<Longrightarrow> node_lang cl n'"
    and owner_removed: "nh_owner_removed h c tm n = Some n' \<Longrightarrow> node_lang cl n \<Longrightarrow> node_lang cl n'"
    and owner_remapped: "nh_owner_remapped h c tm i n = Some n' \<Longrightarrow> node_lang cl n \<Longrightarrow> node_lang cl n'"
    and user_removed: "nh_user_removed h c tm n = Some n' \<Longrightarrow> node_lang cl n \<Longrightarrow> node_lang cl n'"
    and binding_owner_added: "nh_binding_owner_added h c bd i n = Some n' \<Longrightarrow> node_lang cl n \<Longrightarrow> node_lang cl n'"
    and binding_owner_removed: "nh_binding_owner_removed h c bd n = Some n' \<Longrightarrow> node_lang cl n \<Longrightarrow> node_lang cl n'"
    and binding_owner_remapped: "nh_binding_owner_remapped h c bd i n = Some n' \<Longrightarrow> node_lang cl n \<Longrightarrow> node_lang cl n'"
begin

lemma lang_abandoned: "update_users_for_abandoned_terminal h exn tm n = Some n' \<Longrightarrow> node_lang cl n \<Longrightarrow> node_lang cl n'"
  unfolding update_users_for_abandoned_terminal_def
  by (erule bind_SomeE, erule lang_for_each)
    (auto elim!: bind_SomeE lang_user_fsm user_removed lang_modify_nt simp: terminal_lang_def map_users_def split: if_splits)

lemma lang_tell_binding_owners:
  assumes "for_each (nb_owningLeafs b) (\<lambda>(o1, f) n. Some (if o1 \<noteq> c then nsend o1 (m (m_mappedId f)) n else n)) n = Some n'"
    and "get_nb n bd = Some b" "node_lang cl n" "\<And>o1 i. \<not> remote_is_node o1 \<Longrightarrow> speaks cl o1 (m i)"
  shows "node_lang cl n'"
proof (rule lang_for_each[OF assms(1,3)])
  fix x u v
  assume "x \<in> set (nb_owningLeafs b)" "(\<lambda>(o1, f) n. Some (if o1 \<noteq> c then nsend o1 (m (m_mappedId f)) n else n)) x u = Some v"
    "node_lang cl u"
  moreover obtain o1 f where "x = (o1, f)" by (cases x)
  ultimately show "node_lang cl v" using assms(4) lang_owning_leaf(2)[OF assms(2,3)] by (auto intro: lang_send split: if_splits)
qed

lemma lang_release: "release_binding_owners c bd n = Some n' \<Longrightarrow> node_lang cl n \<Longrightarrow> node_lang cl n'"
  unfolding release_binding_owners_def by (erule bind_SomeE, erule lang_tell_binding_owners) simp_all

lemma lang_tell_owning_leaf:
  assumes "get_nb n bd = Some b" "node_lang cl n" "\<And>i. \<not> remote_is_node c \<Longrightarrow> speaks cl c (m i)"
  shows "node_lang cl (case map_of (nb_owningLeafs b) c of None \<Rightarrow> n | Some f \<Rightarrow> nsend c (m (m_mappedId f)) n)"
  using assms(2,3) lang_owning_leaf(1)[OF assms(1,2)] by (auto intro!: lang_send split: option.split)

lemma lang_bindings_after_removal: "update_bindings_after_removal c tm bd n = Some n' \<Longrightarrow> node_lang cl n \<Longrightarrow> node_lang cl n'"
proof -
  assume a: "update_bindings_after_removal c tm bd n = Some n'" "node_lang cl n"
  show ?thesis
  proof (cases "id_valid bd")
    case True
    obtain t b where t: "get_nt n tm = Some t" "get_nb n bd = Some b"
      using a(1) True by (auto simp: update_bindings_after_removal_def elim!: bind_SomeE)
    show ?thesis using a True t lang_tell_owning_leaf[OF t(2) a(2), of "fst (hd (nt_owningLeafs t))" BindingReleased]
      by (auto simp: update_bindings_after_removal_def Let_def elim: lang_release split: if_splits)
  qed (use a in \<open>simp add: update_bindings_after_removal_def\<close>)
qed

lemma lang_tell_last: "tell_last_owning_node tm n = Some n' \<Longrightarrow> node_lang cl n \<Longrightarrow> node_lang cl n'"
  by (auto simp: tell_last_owning_node_def Let_def elim!: bind_SomeE lang_user_fsm split: if_splits)

lemma lang_abandon: "abandon_if_last h c tm n = Some n' \<Longrightarrow> node_lang cl n \<Longrightarrow> node_lang cl n'"
  by (auto simp: abandon_if_last_def elim!: bind_SomeE lang_abandoned lang_associate lang_hide_nt split: node_state.splits)

lemma lang_finish_removal: "finish_owner_removal c tm bd n = Some n' \<Longrightarrow> node_lang cl n \<Longrightarrow> node_lang cl n'"
  by (auto simp: finish_owner_removal_def
    elim!: bind_SomeE lang_release lang_bindings_after_removal lang_tell_last lang_associate lang_update_state split: if_splits)

lemma lang_after_removal: "after_owner_removed h c tm n = Some n' \<Longrightarrow> node_lang cl n \<Longrightarrow> node_lang cl n'"
  by (auto simp: after_owner_removed_def elim!: bind_SomeE lang_finish_removal lang_abandon)

lemma lang_drop_owner: "modify_nt tm (map_owners c (AList.delete c)) n = Some n' \<Longrightarrow> node_lang cl n \<Longrightarrow> node_lang cl n'"
  by (erule lang_modify_nt) (auto simp: terminal_lang_def map_owners_def)

lemma lang_drop_user: "modify_nt tm (map_users (AList.delete c)) n = Some n' \<Longrightarrow> node_lang cl n \<Longrightarrow> node_lang cl n'"
  by (erule lang_modify_nt) (auto simp: terminal_lang_def map_users_def)

lemma lang_drop_binding_owner:
  "modify_nb bd (\<lambda>b. b\<lparr>nb_owningLeafs := AList.delete c (nb_owningLeafs b)\<rparr>) n = Some n' \<Longrightarrow> node_lang cl n \<Longrightarrow> node_lang cl n'"
  by (erule lang_modify_nb) (auto simp: binding_lang_def)

lemma lang_remove_owner: "remove_terminal_owner h tm c broken n = Some n' \<Longrightarrow> node_lang cl n \<Longrightarrow> node_lang cl n'"
  by (auto simp: remove_terminal_owner_def
    elim!: bind_SomeE lang_after_removal owner_removed lang_drop_owner lang_owner_fsm split: if_splits)

lemma lang_started: "node_connection_started c n = Some n' \<Longrightarrow> node_lang cl n \<Longrightarrow> node_lang cl n'"
proof (cases "remote_is_node c")
  case True
  assume s: "node_connection_started c n = Some n'" "node_lang cl n"
  obtain n1 where n1: "for_each (ireg_ids (nd_terminals n)) (\<lambda>tm n. do {
      e \<leftarrow> find_id (nd_terminals n) tm;
      if \<not> el_hidden e then do { yassert (map_of (nt_usingNodes (el_data e)) c = None); reset_user tm c n } else Some n }) n = Some n1"
      "n' = n1\<lparr>nd_nodeConnections := nd_nodeConnections n1 @ [c]\<rparr>"
    using s(1) True by (auto simp: node_connection_started_def elim!: bind_SomeE split: if_splits)
  have "node_lang cl n1"
    using True by (intro lang_for_each[OF n1(1) s(2)]) (auto elim!: bind_SomeE lang_reset_user split: if_splits)
  then show ?thesis using n1(2) True by (simp add: node_lang_def)
qed (auto simp: node_connection_started_def node_lang_def elim!: bind_SomeE split: if_splits)

lemma lang_remove_binding_owner: "remove_binding_owner_of_connection h c bd n = Some n' \<Longrightarrow> node_lang cl n \<Longrightarrow> node_lang cl n'"
  by (auto simp: remove_binding_owner_of_connection_def
    elim!: bind_SomeE lang_erase_nb lang_associate binding_owner_removed lang_drop_binding_owner split: if_splits)

lemma lang_remove_connection: "remove_connection_from_terminal h c tm n = Some n' \<Longrightarrow> node_lang cl n \<Longrightarrow> node_lang cl n'"
  by (auto simp: remove_connection_from_terminal_def
    elim!: bind_SomeE lang_remove_owner lang_update_state user_removed lang_drop_user split: if_splits)

lemma lang_destroyed: "node_connection_destroyed h c n = Some n' \<Longrightarrow> node_lang cl n \<Longrightarrow> node_lang cl n'"
proof -
  assume d: "node_connection_destroyed h c n = Some n'" "node_lang cl n"
  let ?n0 = "if remote_is_node c then n\<lparr>nd_nodeConnections := remove1 c (nd_nodeConnections n)\<rparr>
    else n\<lparr>nd_leafConnections := remove1 c (nd_leafConnections n)\<rparr>"
  have n0: "node_lang cl ?n0" using d(2) by (auto simp: node_lang_def dest: notin_set_remove1)
  show ?thesis
  proof (cases "c \<in> set (if remote_is_node c then nd_nodeConnections n else nd_leafConnections n)")
    case True
    obtain n1 where n1: "for_each (ireg_ids (nd_bindings ?n0)) (remove_binding_owner_of_connection h c) ?n0 = Some n1"
        "for_each (ireg_ids (nd_terminals n1)) (remove_connection_from_terminal h c) n1 = Some n'"
      using d(1) True by (auto simp: node_connection_destroyed_def Let_def elim!: bind_SomeE)
    have "node_lang cl n1" using lang_for_each[OF n1(1) n0] lang_remove_binding_owner by blast
    then show ?thesis using lang_for_each[OF n1(2)] lang_remove_connection by blast
  qed (use d in \<open>simp add: node_connection_destroyed_def\<close>)
qed

lemma lang_announce: "announce_terminal tm origin n = Some n' \<Longrightarrow> node_lang cl n \<Longrightarrow> node_lang cl n'"
proof -
  assume a: "announce_terminal tm origin n = Some n'" "node_lang cl n"
  obtain t where t: "get_nt n tm = Some t" using a(1) by (auto simp: announce_terminal_def elim!: bind_SomeE)
  show ?thesis
  proof (cases "nt_state t")
    case STATE_JUST_CREATED
    have f: "for_each (nd_nodeConnections n) (\<lambda>c n. if c \<noteq> origin then reset_user tm c n else Some n) n = Some n'"
      using a(1) t STATE_JUST_CREATED by (simp add: announce_terminal_def)
    have "\<forall>c \<in> set (nd_nodeConnections n). remote_is_node c" using a(2) by (simp add: node_lang_def)
    then show ?thesis by (intro lang_for_each[OF f a(2)]) (auto elim!: lang_reset_user split: if_splits)
  next
    case STATE_OWNERS_0_LEAFS_1_NODES
    have "terminal_lang t" using lang_get_nt[OF t a(2)] .
    then have "remote_is_node (fst v)" if "find (\<lambda>v. fst v \<noteq> origin) (nt_owningNodes t) = Some v" for v
      using that keys_areD(2)[of True "nt_owningNodes t" "fst v" "snd v"] by (auto simp: find_Some_iff terminal_lang_def)
    then show ?thesis using a t STATE_OWNERS_0_LEAFS_1_NODES
      by (fastforce simp: announce_terminal_def elim!: bind_SomeE lang_reset_user split: if_splits)
  qed (use a t in \<open>simp_all add: announce_terminal_def\<close>)
qed

lemma lang_establish: "establish_bindings tm origin bd n = Some n' \<Longrightarrow> node_lang cl n \<Longrightarrow> node_lang cl n'"
proof -
  assume a: "establish_bindings tm origin bd n = Some n'" "node_lang cl n"
  show ?thesis
  proof (cases bd)
    case (Some d)
    obtain t b where t: "get_nt n tm = Some t" "get_nb n d = Some b" using a(1) Some by (auto simp: establish_bindings_def elim!: bind_SomeE)
    show ?thesis
    proof (cases "nt_state t = STATE_JUST_CREATED")
      case True
      have "for_each (nb_owningLeafs b) (\<lambda>(o1, f) n. Some (if o1 \<noteq> origin then nsend o1 (BindingEstablished (m_mappedId f)) n else n)) n = Some n'"
        using a(1) Some t True by (simp add: establish_bindings_def)
      then show ?thesis by (rule lang_tell_binding_owners[OF _ t(2) a(2)]) simp
    next
      case False
      then show ?thesis using a Some t lang_tell_owning_leaf[OF t(2) a(2), of _ BindingEstablished]
        by (auto simp: establish_bindings_def split: if_splits option.split_asm)
    qed
  qed (use a in \<open>simp add: establish_bindings_def\<close>)
qed

lemma lang_TerminalDescription: "node_TerminalDescription h x i origin n = Some n' \<Longrightarrow> node_lang cl n \<Longrightarrow> node_lang cl n'"
proof -
  assume a: "node_TerminalDescription h x i origin n = Some n'" "node_lang cl n"
  obtain tm b r where i: "ireg_insert x (new_node_terminal h) (nd_terminals n) = ((tm, b), r)" by (metis prod.exhaust)
  have "elements_ok terminal_lang r"
    by (rule elements_insert[OF _ _ i]) (use a(2) in \<open>simp_all add: node_lang_def new_node_terminal_def terminal_lang_def\<close>)
  then have l: "node_lang cl (n\<lparr>nd_terminals := r\<rparr>)" using a(2) by (simp add: node_lang_def)
  have o: "modify_nt tm (map_owners origin (ensure_fsm origin)) m = Some m' \<Longrightarrow> node_lang cl m \<Longrightarrow> node_lang cl m'" for m m' :: "('te, 'x) node"
    by (erule lang_modify_nt) (auto simp: terminal_lang_def map_owners_def)
  show ?thesis using a(1) l i
    by (auto simp: node_TerminalDescription_def Let_def elim!: bind_SomeE owner_remapped owner_added lang_update_state
      lang_establish lang_associate lang_announce lang_owner_fsm o intro!: lang_notify split: if_splits)
qed

lemma lang_TerminalMapping: "node_TerminalMapping tm m origin n = Some n' \<Longrightarrow> node_lang cl n \<Longrightarrow> node_lang cl n'"
  by (auto simp: node_TerminalMapping_def terminal_lang_def map_users_def elim!: bind_SomeE lang_user_fsm lang_modify_nt split: if_splits)

lemma lang_TerminalRemovedAck: "node_TerminalRemovedAck h tm origin n = Some n' \<Longrightarrow> node_lang cl n \<Longrightarrow> node_lang cl n'"
  by (auto simp: node_TerminalRemovedAck_def
    elim!: bind_SomeE lang_update_state lang_associate user_removed lang_drop_user lang_reset_user split: if_splits)

lemma lang_BindingDescription: "node_BindingDescription h x i origin n = Some n' \<Longrightarrow> node_lang cl n \<Longrightarrow> node_lang cl n'"
proof -
  assume a: "node_BindingDescription h x i origin n = Some n'" "node_lang cl n"
  obtain bd b r where i: "ireg_insert x new_node_binding (nd_bindings n) = ((bd, b), r)" by (metis prod.exhaust)
  have "elements_ok binding_lang r"
    by (rule elements_insert[OF _ _ i]) (use a(2) in \<open>simp_all add: node_lang_def new_node_binding_def binding_lang_def\<close>)
  then have l: "node_lang cl (n\<lparr>nd_bindings := r\<rparr>)" using a(2) by (simp add: node_lang_def)
  have c: "\<not> remote_is_node origin" using a(1) i by (auto simp: node_BindingDescription_def Let_def elim!: bind_SomeE split: if_splits)
  have o: "modify_nb bd (\<lambda>b. b\<lparr>nb_owningLeafs := ensure_fsm origin (nb_owningLeafs b)\<rparr>) m = Some m' \<Longrightarrow> node_lang cl m \<Longrightarrow> node_lang cl m'"
      for m m' :: "('te, 'x) node"
    by (erule lang_modify_nb) (use c in \<open>auto simp: binding_lang_def\<close>)
  define est where "est tm n3 = (case tm of None \<Rightarrow> Some n3
    | Some tm \<Rightarrow> do {
        t \<leftarrow> get_nt n3 tm;
        if nt_state t \<noteq> STATE_OWNERS_1_LEAFS_0_NODES then Some (nsend origin (BindingEstablished i) n3)
        else do {
          yassert (nt_owningLeafs t \<noteq> []);
          Some (if fst (hd (nt_owningLeafs t)) \<noteq> origin then nsend origin (BindingEstablished i) n3 else n3) } })"
    for tm and n3 :: "('te, 'x) node"
  have e: "est tm m = Some m' \<Longrightarrow> node_lang cl m \<Longrightarrow> node_lang cl m'" for tm m m'
    using c by (auto simp: est_def elim!: bind_SomeE intro!: lang_send split: if_splits option.splits)
  show ?thesis using a(1) l i
    by (auto simp: node_BindingDescription_def Let_def est_def[symmetric] elim!: bind_SomeE binding_owner_remapped binding_owner_added
      lang_associate lang_binding_owner_fsm o e split: if_splits)
qed

lemma lang_BindingRemoved: "node_BindingRemoved h bd origin n = Some n' \<Longrightarrow> node_lang cl n \<Longrightarrow> node_lang cl n'"
  by (auto simp: node_BindingRemoved_def
    elim!: bind_SomeE lang_erase_nb lang_associate binding_owner_removed lang_drop_binding_owner lang_binding_owner_fsm split: if_splits)

lemma lang_receive: "node_receive h b c n = Some n' \<Longrightarrow> node_lang cl n \<Longrightarrow> node_lang cl n'"
  by (cases b) (auto simp: node_TerminalRemoved_def elim: lang_TerminalDescription lang_TerminalMapping lang_remove_owner
    lang_TerminalRemovedAck lang_BindingDescription lang_BindingRemoved)

end

section \<open>The classes\<close>

interpretation mute_speaks: speaking_hooks "no_hooks e :: ('te, 'x) node_hooks" cl for e cl
  by unfold_locales (simp_all add: no_hooks_def)

text \<open>Subscriptions; \<open>removed\<close> and \<open>subscribed\<close> are the virtual functions of the derived classes.\<close>

definition subscribes :: "tclass \<Rightarrow> bool" where
  "subscribes cl \<longleftrightarrow> registered (cl, K_Subscribe) \<and> registered (cl, K_Unsubscribe)"

lemma lang_send_each: "(\<And>c i. speaks cl c (m i)) \<Longrightarrow> node_lang cl n \<Longrightarrow> node_lang cl (send_each m cs n)"
  by (induction cs arbitrary: n) (auto simp: send_each_def intro: lang_send)

lemma lang_unsubscribe: "unsubscribe_if_needed tm exn n = Some n' \<Longrightarrow> node_lang cl n \<Longrightarrow> subscribes cl \<Longrightarrow> node_lang cl n'"
  by (auto simp: unsubscribe_if_needed_def Let_def subscribes_def elim!: bind_SomeE intro!: lang_send lang_send_each
    split: if_splits option.splits)

lemma lang_subscribers: "modify_nt tm (\<lambda>t. t\<lparr>nt_subscribers := f t\<rparr>) n = Some n' \<Longrightarrow> node_lang cl n \<Longrightarrow> node_lang cl n'"
  by (erule lang_modify_nt) simp_all

locale speaking_subscribers =
  fixes removed :: "connection \<Rightarrow> id \<Rightarrow> ('te, 'x) node \<Rightarrow> ('te, 'x) node option" and cl :: tclass
  assumes removed_speaks: "removed c tm n = Some n' \<Longrightarrow> node_lang cl n \<Longrightarrow> node_lang cl n'"
    and subscribable: "subscribes cl"
begin

lemma lang_remove_subscriber: "remove_subscriber_if_needed removed c tm n = Some n' \<Longrightarrow> node_lang cl n \<Longrightarrow> node_lang cl n'"
  using subscribable by (auto simp: remove_subscriber_if_needed_def
    elim!: bind_SomeE removed_speaks lang_unsubscribe lang_subscribers split: if_splits)

lemma lang_owner_added: "sub_owner_added c tm i n = Some n' \<Longrightarrow> node_lang cl n \<Longrightarrow> node_lang cl n'"
  using subscribable by (auto simp: sub_owner_added_def subscribes_def elim!: bind_SomeE intro!: lang_send split: if_splits)

lemma lang_owner_remapped: "sub_owner_remapped c tm i n = Some n' \<Longrightarrow> node_lang cl n \<Longrightarrow> node_lang cl n'"
  using subscribable by (auto simp: sub_owner_remapped_def subscribes_def elim!: bind_SomeE intro!: lang_send split: if_splits)

lemma lang_owner_removed: "sub_owner_removed c tm n = Some n' \<Longrightarrow> node_lang cl n \<Longrightarrow> node_lang cl n'"
  unfolding sub_owner_removed_def by (erule lang_modify_nt) (simp_all split: if_split)

lemma lang_user_removed: "sub_user_removed removed c tm n = Some n' \<Longrightarrow> node_lang cl n \<Longrightarrow> node_lang cl n'"
  by (auto simp: sub_user_removed_def elim!: bind_SomeE lang_remove_subscriber split: if_splits)

lemma lang_binding_owner_added: "sub_binding_owner_added c bd i n = Some n' \<Longrightarrow> node_lang cl n \<Longrightarrow> node_lang cl n'"
  using subscribable by (auto simp: sub_binding_owner_added_def subscribes_def Let_def elim!: bind_SomeE
    intro!: lang_send lang_send_each split: if_splits option.splits)

lemma lang_binding_owner_removed: "sub_binding_owner_removed removed c bd n = Some n' \<Longrightarrow> node_lang cl n \<Longrightarrow> node_lang cl n'"
  using subscribable by (auto simp: sub_binding_owner_removed_def elim!: bind_SomeE removed_speaks lang_unsubscribe split: if_splits)

lemma lang_Unsubscribe: "node_Unsubscribe removed tm origin n = Some n' \<Longrightarrow> node_lang cl n \<Longrightarrow> node_lang cl n'"
  by (auto simp: node_Unsubscribe_def elim!: bind_SomeE lang_remove_subscriber)

lemma lang_Subscribe:
  assumes "node_Subscribe subscribed tm origin n = Some n'" "node_lang cl n"
    and s: "\<And>i n n'. subscribed origin i tm n = Some n' \<Longrightarrow> node_lang cl n \<Longrightarrow> node_lang cl n'"
  shows "node_lang cl n'"
  using assms(1,2) subscribable by (auto simp: node_Subscribe_def subscribes_def Let_def elim!: bind_SomeE s lang_subscribers
    intro!: lang_send lang_send_each split: if_splits)

lemma subscribable_speaks: "speaking_hooks (subscribable_hooks e removed) cl"
  by unfold_locales (simp_all add: subscribable_hooks_def lang_owner_added lang_owner_remapped lang_owner_removed lang_user_removed
    lang_binding_owner_added lang_binding_owner_removed)

end

lemma lang_data_to_subscribers:
  assumes "send_data_to_subscribers m d tm origin n = Some n'" "node_lang cl n" "\<And>c i. speaks cl c (m i d)"
  shows "node_lang cl n'"
proof -
  obtain t where "get_nt n tm = Some t" using assms(1) by (auto simp: send_data_to_subscribers_def elim!: bind_SomeE)
  let ?to_subscriber = "\<lambda>(c, i) n. if c \<noteq> origin then do { f \<leftarrow> map_of (nt_usingNodes t) c; yassert (is_mapped f); Some (nsend c (m i d) n) }
      else Some n"
  let ?to_owner = "\<lambda>(c, f) n. if c \<noteq> origin then do { yassert (is_mapped f); Some (nsend c (m (m_mappedId f) d) n) } else Some n"
  have step: "?to_subscriber x u = Some v \<or> ?to_owner y u = Some v \<Longrightarrow> node_lang cl u \<Longrightarrow> node_lang cl v" for x y u v
    using assms(3) by (cases x; cases y) (auto elim!: bind_SomeE intro!: lang_send split: if_splits)
  obtain n1 where n1: "for_each (nt_subscribers t) ?to_subscriber n = Some n1"
      "(if id_valid (nt_binding t) then do { b \<leftarrow> get_nb n1 (nt_binding t); for_each (nb_owningLeafs b) ?to_owner n1 } else Some n1) = Some n'"
    using assms(1) \<open>get_nt n tm = Some t\<close> unfolding send_data_to_subscribers_def by (auto elim!: bind_SomeE)
  have l: "node_lang cl n1" by (rule lang_for_each[OF n1(1) assms(2)]) (rule step, rule disjI1)
  show ?thesis
  proof (cases "id_valid (nt_binding t)")
    case True
    then have "do { b \<leftarrow> get_nb n1 (nt_binding t); for_each (nb_owningLeafs b) ?to_owner n1 } = Some n'" using n1(2) by simp
    then obtain b :: node_binding where b: "for_each (nb_owningLeafs b) ?to_owner n1 = Some n'" by (rule bind_SomeE)
    show ?thesis by (rule lang_for_each[OF b l]) (rule step, rule disjI2)
  qed (use n1(2) l in simp)
qed

section \<open>Publish-subscribe and its cached variant\<close>

lemma no_callbacks_speak: "subscribes cl \<Longrightarrow> speaking_subscribers (\<lambda>c tm. Some) cl"
  by unfold_locales simp_all

lemma ps_speaks: "subscribes cl \<Longrightarrow> speaking_hooks ps_node_hooks cl"
  unfolding ps_node_hooks_def by (rule speaking_subscribers.subscribable_speaks[OF no_callbacks_speak])

lemma ps_receive_speaks:
  assumes "subscribes cl" "registered (cl, K_Data)" "ps_node_receive b c n = Some n'" "node_lang cl n"
  shows "node_lang cl n'"
proof -
  note sub = no_callbacks_speak[OF assms(1)]
  show ?thesis
  proof (cases b)
    case (Subscribe tm)
    then show ?thesis using speaking_subscribers.lang_Subscribe[OF sub, of "\<lambda>c i tm. Some" tm c n n'] assms(3,4) by simp
  next
    case (Unsubscribe tm)
    then show ?thesis using speaking_subscribers.lang_Unsubscribe[OF sub] assms(3,4) by auto
  next
    case (Data tm d)
    then show ?thesis using lang_data_to_subscribers[of Data] assms(2-) by auto
  qed (use assms(3,4) speaking_hooks.lang_receive[OF ps_speaks[OF assms(1)], of b c n n'] in simp_all)
qed

lemma lang_send_cached: "send_cached_data c i tm n = Some n' \<Longrightarrow> node_lang cl n \<Longrightarrow> registered (cl, K_CachedData) \<Longrightarrow> node_lang cl n'"
  by (auto simp: send_cached_data_def elim!: bind_SomeE intro!: lang_send split: if_splits)

lemma lang_store: "store_last_message d tm n = Some n' \<Longrightarrow> node_lang cl n \<Longrightarrow> node_lang cl n'"
  unfolding store_last_message_def by (erule lang_modify_nt) simp_all

lemma lang_cached_data:
  assumes "cached_node_data m d tm origin n = Some n'" "node_lang cl n" "\<And>c i. speaks cl c (m i d)"
  shows "node_lang cl n'"
  using assms(1,2) unfolding cached_node_data_def by (auto elim!: bind_SomeE lang_data_to_subscribers lang_store intro: assms(3))

lemma cached_speaks:
  assumes "subscribes cl" "registered (cl, K_CachedData)"
  shows "speaking_hooks cached_node_hooks cl"
proof -
  note ps = speaking_subscribers.subscribable_speaks[OF no_callbacks_speak[OF assms(1)], of "\<lparr>cn_lastReceivedMessage = [], cn_lastReceivedMessageSet = False\<rparr>"]
  have r: "cached_binding_owner_remapped c bd i n = Some n' \<Longrightarrow> node_lang cl n \<Longrightarrow> node_lang cl n'" for c bd i n n'
    using assms(2) by (auto simp: cached_binding_owner_remapped_def elim!: bind_SomeE lang_send_cached split: if_splits)
  have a: "cached_binding_owner_added c bd i n = Some n' \<Longrightarrow> node_lang cl n \<Longrightarrow> node_lang cl n'" for c bd i n n'
    using r speaking_subscribers.lang_binding_owner_added[OF no_callbacks_speak[OF assms(1)]]
    by (fastforce simp: cached_binding_owner_added_def elim!: bind_SomeE)
  note base = speaking_hooks.owner_added[OF ps] speaking_hooks.owner_removed[OF ps] speaking_hooks.owner_remapped[OF ps]
    speaking_hooks.user_removed[OF ps] speaking_hooks.binding_owner_removed[OF ps]
  show ?thesis unfolding cached_node_hooks_def by (rule speaking_hooks.intro; simp) (erule (1) base r a)+
qed

lemma cached_receive_speaks:
  assumes "subscribes cl" "registered (cl, K_Data)" "registered (cl, K_CachedData)" "cached_node_receive b c n = Some n'" "node_lang cl n"
  shows "node_lang cl n'"
proof -
  note sub = no_callbacks_speak[OF assms(1)]
  show ?thesis
  proof (cases b)
    case (Subscribe tm)
    then show ?thesis
      using speaking_subscribers.lang_Subscribe[OF sub, of "\<lambda>c i tm. send_cached_data c i tm" tm c n n'] lang_send_cached assms(3-) by simp
  next
    case (Unsubscribe tm)
    then show ?thesis using speaking_subscribers.lang_Unsubscribe[OF sub] assms(4,5) by auto
  next
    case (Data tm d)
    then show ?thesis using lang_cached_data[of Data] assms(2-) by auto
  next
    case (CachedData tm d)
    then show ?thesis using lang_cached_data[of CachedData] assms(2-) by auto
  qed (use assms(4,5) speaking_hooks.lang_receive[OF cached_speaks[OF assms(1,3)], of b c n n'] in simp_all)
qed

section \<open>Scatter-gather\<close>

lemma lang_derived: "node_lang cl (n\<lparr>nd_derived := r\<rparr>) = node_lang cl n"
  by (simp add: node_lang_def)

lemma lang_operations:
  "set_operation i p n = Some n' \<Longrightarrow> node_lang cl n \<Longrightarrow> node_lang cl n'"
  "erase_operation i n = Some n' \<Longrightarrow> node_lang cl n \<Longrightarrow> node_lang cl n'"
  "deactivate tm i n = Some n' \<Longrightarrow> node_lang cl n \<Longrightarrow> node_lang cl n'"
  by (auto simp: set_operation_def erase_operation_def deactivate_def lang_derived elim!: bind_SomeE lang_modify_nt)

lemma lang_send_to_source: "node_lang cl n \<Longrightarrow> registered (cl, K_Gather) \<Longrightarrow> node_lang cl (send_to_source p f d n)"
  by (auto simp: send_to_source_def intro!: lang_send split: option.splits)

locale scatters =
  fixes cl :: tclass
  assumes sub: "subscribes cl" and scatter: "registered (cl, K_Scatter)" and gather: "registered (cl, K_Gather)"
begin

lemma lang_drop_responder: "drop_responder c tm alive i n = Some n' \<Longrightarrow> node_lang cl n \<Longrightarrow> node_lang cl n'"
  using gather by (auto simp: drop_responder_def Let_def elim!: bind_SomeE lang_operations intro!: lang_send_to_source split: if_splits)

lemma lang_subscriber_removed: "sg_subscriber_removed c tm n = Some n' \<Longrightarrow> node_lang cl n \<Longrightarrow> node_lang cl n'"
  unfolding sg_subscriber_removed_def by (erule bind_SomeE, erule lang_for_each) (auto elim: lang_drop_responder)

lemma lang_forward: "forward_scatter i d c j n = Some n' \<Longrightarrow> node_lang cl n \<Longrightarrow> node_lang cl n'"
  using scatter by (auto simp: forward_scatter_def elim!: bind_SomeE lang_operations intro!: lang_send split: if_splits)

lemma lang_Gather: "node_Gather i f d c n = Some n' \<Longrightarrow> node_lang cl n \<Longrightarrow> node_lang cl n'"
  using gather by (auto simp: node_Gather_def Let_def elim!: bind_SomeE lang_operations intro!: lang_send_to_source split: if_splits)

lemma sg_subscribers: "speaking_subscribers sg_subscriber_removed cl"
  by unfold_locales (use lang_subscriber_removed sub in auto)

lemma lang_Scatter:
  assumes "node_Scatter tm j d origin n = Some n'" "node_lang cl n"
  shows "node_lang cl n'"
proof -
  obtain i r where i: "oreg_insert \<lparr>op_source = Some origin, op_sourceOperationId = j, op_terminalId = tm, op_remainingResponses = []\<rparr>
      (nd_derived n) = (i, r)" by (cases "oreg_insert \<lparr>op_source = Some origin, op_sourceOperationId = j, op_terminalId = tm,
      op_remainingResponses = []\<rparr> (nd_derived n)")
  define to_subscriber :: "id list node_terminal \<Rightarrow> connection \<times> id \<Rightarrow> sg_node \<Rightarrow> sg_node option" where
    "to_subscriber t = (\<lambda>(c, sub) n. if c \<noteq> origin then do { f \<leftarrow> map_of (nt_usingNodes t) c; yassert (is_mapped f);
      forward_scatter i d c sub n } else Some n)" for t
  define to_owner :: "connection \<times> fsm \<Rightarrow> sg_node \<Rightarrow> sg_node option" where
    "to_owner = (\<lambda>(c, f) n. if c \<noteq> origin then do { yassert (is_mapped f); forward_scatter i d c (m_mappedId f) n } else Some n)"
  have s1: "for_each xs (to_subscriber t) u = Some v \<Longrightarrow> node_lang cl u \<Longrightarrow> node_lang cl v" for t u v xs
    by (erule lang_for_each) (auto simp: to_subscriber_def elim!: bind_SomeE lang_forward split: if_splits)
  have s2: "for_each xs to_owner u = Some v \<Longrightarrow> node_lang cl u \<Longrightarrow> node_lang cl v" for u v xs
    by (erule lang_for_each) (auto simp: to_owner_def elim!: bind_SomeE lang_forward split: if_splits)
  have e: "modify_nt tm (\<lambda>t. t\<lparr>nt_ext := nt_ext t @ [i]\<rparr>) u = Some v \<Longrightarrow> node_lang cl u \<Longrightarrow> node_lang cl v" for u v :: sg_node
    by (erule lang_modify_nt) simp_all
  show ?thesis using assms i lang_derived[of cl r n]
    by (auto simp: node_Scatter_def elim!: bind_SomeE s1[unfolded to_subscriber_def] s2[unfolded to_owner_def] e lang_operations split: if_splits)
qed

lemma lang_sg_owner_removed: "sg_owner_removed c tm n = Some n' \<Longrightarrow> node_lang cl n \<Longrightarrow> node_lang cl n'"
  unfolding sg_owner_removed_def
  by (erule bind_SomeE, erule bind_SomeE, erule lang_for_each)
    (auto elim!: bind_SomeE lang_operations speaking_subscribers.lang_owner_removed[OF sg_subscribers] split: if_splits)

lemma sg_speaks: "speaking_hooks sg_node_hooks cl"
proof -
  note ps = speaking_subscribers.subscribable_speaks[OF sg_subscribers, of "[]"]
  note base = speaking_hooks.owner_added[OF ps] speaking_hooks.owner_remapped[OF ps] speaking_hooks.user_removed[OF ps]
    speaking_hooks.binding_owner_added[OF ps] speaking_hooks.binding_owner_removed[OF ps] speaking_hooks.binding_owner_remapped[OF ps]
  show ?thesis unfolding sg_node_hooks_def by (rule speaking_hooks.intro; simp) (erule (1) base lang_sg_owner_removed)+
qed

lemma sg_receive_speaks:
  assumes "sg_node_receive b c n = Some n'" "node_lang cl n"
  shows "node_lang cl n'"
proof (cases b)
  case (Subscribe tm)
  then show ?thesis using speaking_subscribers.lang_Subscribe[OF sg_subscribers, of "\<lambda>c i tm. Some" tm c n n'] assms by simp
next
  case (Unsubscribe tm)
  then show ?thesis using speaking_subscribers.lang_Unsubscribe[OF sg_subscribers] assms by auto
next
  case (Scatter tm i d)
  then show ?thesis using lang_Scatter assms by auto
next
  case (Gather i f d)
  then show ?thesis using lang_Gather assms by auto
qed (use assms speaking_hooks.lang_receive[OF sg_speaks, of b c n n'] in simp_all)

end

section \<open>Runs\<close>

lemma lang_run:
  assumes "speaking_hooks h cl" "\<And>b c n n'. rcv b c n = Some n' \<Longrightarrow> node_lang cl n \<Longrightarrow> node_lang cl n'"
    and "node_run h rcv cs (node_init x) = Some n"
  shows "node_lang cl n"
proof (rule lang_for_each[OF assms(3)[unfolded node_run_def] lang_init])
  fix c u v
  assume "node_do h rcv c u = Some v" "node_lang cl u"
  then show "node_lang cl v"
    using assms(2) speaking_hooks.lang_started[OF assms(1)] speaking_hooks.lang_destroyed[OF assms(1)] by (cases c) auto
qed

text \<open>The logic class a node has for a terminal class, and what it does when its functions are called in this order.\<close>

definition mute_events :: "node_call list \<Rightarrow> node_event list option" where
  "mute_events cs = map_option nd_out (node_run (no_hooks ()) (node_receive (no_hooks ())) cs (node_init ()))"

definition ps_events :: "node_call list \<Rightarrow> node_event list option" where
  "ps_events cs = map_option nd_out (node_run ps_node_hooks ps_node_receive cs (node_init ()))"

definition cached_events :: "node_call list \<Rightarrow> node_event list option" where
  "cached_events cs = map_option nd_out (node_run cached_node_hooks cached_node_receive cs (node_init ()))"

definition sg_events :: "node_call list \<Rightarrow> node_event list option" where
  "sg_events cs = map_option nd_out (node_run sg_node_hooks sg_node_receive cs (node_init oreg_empty))"

fun node_events :: "tclass \<Rightarrow> node_call list \<Rightarrow> node_event list option" where
  "node_events DeafMute = mute_events"
| "node_events PublishSubscribe = ps_events"
| "node_events ScatterGather = sg_events"
| "node_events CachedPublishSubscribe = cached_events"
| "node_events ProducerConsumer = ps_events"
| "node_events CachedProducerConsumer = cached_events"
| "node_events MasterSlave = ps_events"
| "node_events CachedMasterSlave = cached_events"
| "node_events ServiceClient = sg_events"

definition kinds_registered :: "kind list \<Rightarrow> tclass list \<Rightarrow> bool" where
  "kinds_registered ks cs \<longleftrightarrow> list_all (\<lambda>c. list_all (\<lambda>k. registered (c, k)) ks) cs"

lemma class_kinds:
  "kinds_registered [K_Subscribe, K_Unsubscribe, K_Data] [PublishSubscribe, ProducerConsumer, MasterSlave]"
  "kinds_registered [K_Subscribe, K_Unsubscribe, K_Data, K_CachedData] [CachedPublishSubscribe, CachedProducerConsumer, CachedMasterSlave]"
  "kinds_registered [K_Subscribe, K_Unsubscribe, K_Scatter, K_Gather] [ScatterGather, ServiceClient]"
  by code_simp+

interpretation ps_subscribers: speaking_subscribers "\<lambda>c tm. Some" PublishSubscribe
  by (rule no_callbacks_speak) (use class_kinds(1) in \<open>simp add: kinds_registered_def subscribes_def\<close>)

interpretation scatter_speaks: scatters ScatterGather
  by unfold_locales (use class_kinds(3) in \<open>simp_all add: kinds_registered_def subscribes_def\<close>)

interpretation scatter_subscribers: speaking_subscribers sg_subscriber_removed ScatterGather
  by (rule scatter_speaks.sg_subscribers)

interpretation service_speaks: scatters ServiceClient
  by unfold_locales (use class_kinds(3) in \<open>simp_all add: kinds_registered_def subscribes_def\<close>)

lemma lang_out: "node_lang cl n \<Longrightarrow> Node_Sent c b \<in> set (nd_out n) \<Longrightarrow> speaks cl c b"
  by (simp add: node_lang_def)

lemma ps_events_speak:
  assumes "subscribes cl" "registered (cl, K_Data)" "ps_events cs = Some out" "Node_Sent c b \<in> set out"
  shows "speaks cl c b"
proof -
  obtain n where n: "node_run ps_node_hooks ps_node_receive cs (node_init ()) = Some n" "out = nd_out n" using assms(3) by (auto simp: ps_events_def)
  have "node_lang cl n" by (rule lang_run[OF ps_speaks[OF assms(1)] _ n(1)]) (rule ps_receive_speaks[OF assms(1,2)])
  then show ?thesis using lang_out n(2) assms(4) by blast
qed

lemma cached_events_speak:
  assumes "subscribes cl" "registered (cl, K_Data)" "registered (cl, K_CachedData)" "cached_events cs = Some out" "Node_Sent c b \<in> set out"
  shows "speaks cl c b"
proof -
  obtain n where n: "node_run cached_node_hooks cached_node_receive cs (node_init ()) = Some n" "out = nd_out n"
    using assms(4) by (auto simp: cached_events_def)
  have "node_lang cl n" by (rule lang_run[OF cached_speaks[OF assms(1,3)] _ n(1)]) (rule cached_receive_speaks[OF assms(1,2,3)])
  then show ?thesis using lang_out n(2) assms(5) by blast
qed

lemma sg_events_speak:
  assumes "subscribes cl" "registered (cl, K_Scatter)" "registered (cl, K_Gather)" "sg_events cs = Some out" "Node_Sent c b \<in> set out"
  shows "speaks cl c b"
proof -
  have s: "scatters cl" using assms(1-3) by unfold_locales
  obtain n where n: "node_run sg_node_hooks sg_node_receive cs (node_init oreg_empty) = Some n" "out = nd_out n"
    using assms(4) by (auto simp: sg_events_def)
  have "node_lang cl n" by (rule lang_run[OF scatters.sg_speaks[OF s] _ n(1)]) (rule scatters.sg_receive_speaks[OF s])
  then show ?thesis using lang_out n(2) assms(5) by blast
qed

lemma mute_events_speak:
  assumes "mute_events cs = Some out" "Node_Sent c b \<in> set out"
  shows "speaks cl c b"
proof -
  obtain n where n: "node_run (no_hooks ()) (node_receive (no_hooks ())) cs (node_init ()) = Some n" "out = nd_out n"
    using assms(1) by (auto simp: mute_events_def)
  have "node_lang cl n" by (rule lang_run[OF mute_speaks.speaking_hooks_axioms _ n(1)]) (rule mute_speaks.lang_receive)
  then show ?thesis using lang_out n(2) assms(2) by blast
qed

lemma node_events_speak:
  assumes "node_events cl cs = Some out" "Node_Sent c b \<in> set out"
  shows "speaks cl c b"
proof -
  have "speaks cl c b" if "ps_events cs = Some out" "cl \<in> {PublishSubscribe, ProducerConsumer, MasterSlave}"
    using ps_events_speak[OF _ _ that(1) assms(2), of cl] class_kinds(1) that(2) by (auto simp: kinds_registered_def subscribes_def)
  moreover have "speaks cl c b" if "cached_events cs = Some out" "cl \<in> {CachedPublishSubscribe, CachedProducerConsumer, CachedMasterSlave}"
    using cached_events_speak[OF _ _ _ that(1) assms(2), of cl] class_kinds(2) that(2) by (auto simp: kinds_registered_def subscribes_def)
  moreover have "speaks cl c b" if "sg_events cs = Some out" "cl \<in> {ScatterGather, ServiceClient}"
    using sg_events_speak[OF _ _ _ that(1) assms(2), of cl] class_kinds(3) that(2) by (auto simp: kinds_registered_def subscribes_def)
  moreover have "speaks cl c b" if "mute_events cs = Some out" using mute_events_speak[OF that assms(2)] .
  ultimately show ?thesis using assms(1) by (cases cl) simp_all
qed

section \<open>Properties\<close>

text \<open>C6: Whoever a node sends a message to has a handler for it, of exactly its type: in all nine classes, whatever calls and messages
  the node has handled, what it sends to another node or to a leaf is dispatched there to the handler of its own class and type,
  and never throws.\<close>

theorem node_messages_handled:
  assumes "node_events cl cs = Some out" "Node_Sent c b \<in> set out"
  shows "\<exists>tab. (if remote_is_node c then node_table else leaf_table) = Some tab \<and> on_message_received tab (cl, b) = Handled (cl, body_kind b)"
proof -
  have s: "registered (cl, body_kind b)" "remote_is_node c \<longrightarrow> \<not> for_leafs_only (body_kind b)"
    using node_events_speak[OF assms] by (auto simp: speaks_def split: if_splits)
  then have "body_kind b \<in> set (class_handlers (if remote_is_node c then NodeLogicBaseT_handlers else LeafLogicBaseT_handlers) cl)"
    using registered_kinds by (auto simp: registered_def list_all_iff for_leafs_only_def)
  then show ?thesis
    using table_dispatch[OF handlers_registered(1), of "(cl, b)"] table_dispatch[OF handlers_registered(2), of "(cl, b)"] s(1)
    by (auto simp: leaf_table_def node_table_def message_type_def)
qed

lemma node_messages_handled_witness:
  "\<exists>tab. leaf_table = Some tab \<and> on_message_received tab (PublishSubscribe, BindingEstablished (Id 22)) = Handled (PublishSubscribe, K_BindingEstablished)"
proof -
  have "map_option (\<lambda>out. Node_Sent leaf2 (BindingEstablished (Id 22)) \<in> set out) (node_events PublishSubscribe sample_calls) = Some True"
    by code_simp
  then obtain out where "node_events PublishSubscribe sample_calls = Some out" "Node_Sent leaf2 (BindingEstablished (Id 22)) \<in> set out" by auto
  then show ?thesis using node_messages_handled[of PublishSubscribe sample_calls out leaf2 "BindingEstablished (Id 22)"]
    by (simp add: leaf2_def)
qed

end
