(* ===== verification/State_Observer.thy ===== *)
theory State_Observer
  imports Event_Runs
begin

text \<open>
  \<^verbatim>\<open>core/BindingT\<close> and \<^verbatim>\<open>core/common/SubscribableTerminalBaseT\<close>: a state that the leaf logic publishes and
  that the user asks for, or whose next change he awaits.  The two classes have the same
  members and operations; a binding leaves the leaf at the end of its destructor, a terminal at the beginning.

  \<^verbatim>\<open>m_mutex\<close> is held while a handler of \<^verbatim>\<open>publish_state\<close> or of the posted function runs; \<^verbatim>\<open>async_get_state\<close> arms
  before it takes the mutex and posts after it has released it.
\<close>

section \<open>State\<close>

datatype op_kind = Get_State | State_Change

text \<open>What the user sees; \<open>Tells k h None\<close> is a cancelled operation.\<close>

datatype ('h, 's) notice = Takes op_kind 'h | Refuses op_kind 'h api_error | Tells op_kind 'h "'s option"

datatype destructor = Alive | Canceling | Waited

text \<open>
  \<open>b_arming\<close>, \<open>b_posting\<close>: threads in \<^verbatim>\<open>async_get_state\<close> before and after their critical section; \<open>b_posted\<close>: posted
  functions.  \<open>b_locked\<close>: which operation fires under the mutex, and whether it calls a handler.
\<close>

record ('h, 's) observer =
  b_state :: 's
  m_getStateActive :: bool
  m_getStateOp :: "'h async_op"
  m_awaitStateChangeOp :: "'h async_op"
  b_arming :: nat
  b_posting :: nat
  b_posted :: nat
  b_locked :: "(op_kind \<times> bool) option"
  b_registered :: bool
  b_stage :: destructor

definition observer_new :: "'s \<Rightarrow> ('h, 's) observer" where
  "observer_new s = \<lparr>b_state = s, m_getStateActive = False, m_getStateOp = async_init, m_awaitStateChangeOp = async_init,
     b_arming = 0, b_posting = 0, b_posted = 0, b_locked = None, b_registered = True, b_stage = Alive\<rparr>"

fun b_op :: "op_kind \<Rightarrow> ('h, 's) observer \<Rightarrow> 'h async_op" where
  "b_op Get_State b = m_getStateOp b"
| "b_op State_Change b = m_awaitStateChangeOp b"

fun set_op :: "op_kind \<Rightarrow> 'h async_op \<Rightarrow> ('h, 's) observer \<Rightarrow> ('h, 's) observer" where
  "set_op Get_State a b = b\<lparr>m_getStateOp := a\<rparr>"
| "set_op State_Change a b = b\<lparr>m_awaitStateChangeOp := a\<rparr>"

section \<open>Operations\<close>

type_synonym ('h, 's) observed = "('h, 's) observer \<times> ('h, 's) notice list"

text \<open>\<^verbatim>\<open>fire\<close> under the mutex up to the call of the handler, and its end.\<close>

definition fire_locked :: "op_kind \<Rightarrow> 's \<Rightarrow> ('h, 's) observer \<Rightarrow> ('h, 's) observed" where
  "fire_locked k s b = (let (h, a) = take_armed_handler (b_op k b) in
     ((set_op k a b)\<lparr>b_locked := Some (k, h \<noteq> None)\<rparr>, case h of None \<Rightarrow> [] | Some h \<Rightarrow> [Tells k h (Some s)]))"

definition fire_returns :: "op_kind \<Rightarrow> bool \<Rightarrow> ('h, 's) observer \<Rightarrow> ('h, 's) observer" where
  "fire_returns k called b = (if called then set_op k (finish_operation (b_op k b)) b else b)\<lparr>b_locked := None\<rparr>"

text \<open>\<^verbatim>\<open>fire<YOGI_ERR_CANCELED>\<close>, without the mutex.\<close>

definition fire_canceled :: "op_kind \<Rightarrow> ('h, 's) observer \<Rightarrow> ('h, 's) observed" where
  "fire_canceled k b = (let (h, a) = fire (\<lambda>h a. a) (b_op k b) in
     (set_op k a b, case h of None \<Rightarrow> [] | Some h \<Rightarrow> [Tells k h None]))"

definition async_get_state :: "'h \<Rightarrow> ('h, 's) observer \<Rightarrow> api_error + ('h, 's) observer" where
  "async_get_state h b = (case arm h (m_getStateOp b) of Inl e \<Rightarrow> Inl e
     | Inr a \<Rightarrow> Inr (b\<lparr>m_getStateOp := a, b_arming := b_arming b + 1\<rparr>))"

definition get_state_active :: "('h, 's) observer \<Rightarrow> ('h, 's) observer" where
  "get_state_active b = b\<lparr>b_arming := b_arming b - 1, b_posting := b_posting b + 1, m_getStateActive := True\<rparr>"

definition get_state_post :: "('h, 's) observer \<Rightarrow> ('h, 's) observer" where
  "get_state_post b = b\<lparr>b_posting := b_posting b - 1, b_posted := b_posted b + 1\<rparr>"

definition get_state_run :: "('h, 's) observer \<Rightarrow> ('h, 's) observed" where
  "get_state_run b = fire_locked Get_State (b_state b) (b\<lparr>b_posted := b_posted b - 1\<rparr>)"

definition async_await_state_change :: "'h \<Rightarrow> ('h, 's) observer \<Rightarrow> api_error + ('h, 's) observer" where
  "async_await_state_change h b = (case arm h (m_awaitStateChangeOp b) of Inl e \<Rightarrow> Inl e
     | Inr a \<Rightarrow> Inr (b\<lparr>m_awaitStateChangeOp := a\<rparr>))"

definition publish_state :: "'s \<Rightarrow> ('h, 's) observer \<Rightarrow> ('h, 's) observed" where
  "publish_state s b = fire_locked State_Change s (b\<lparr>b_state := s\<rparr>)"

text \<open>The end of a critical section: of the posted function, or of \<^verbatim>\<open>publish_state\<close>.\<close>

definition observer_unlock :: "('h, 's) observer \<Rightarrow> ('h, 's) observer" where
  "observer_unlock b = (case b_locked b of
      None \<Rightarrow> b
    | Some (Get_State, called) \<Rightarrow> (fire_returns Get_State called b)\<lparr>m_getStateActive := False\<rparr>
    | Some (State_Change, called) \<Rightarrow> fire_returns State_Change called b)"

text \<open>The destructor cancels both operations and then waits for them and for the posted function.\<close>

definition destroy_cancel :: "('h, 's) observer \<Rightarrow> ('h, 's) observed" where
  "destroy_cancel b = (let (b1, out1) = fire_canceled Get_State b; (b2, out2) = fire_canceled State_Change b1 in
     (b2\<lparr>b_stage := Canceling\<rparr>, out1 @ out2))"

definition destroy_may_end :: "('h, 's) observer \<Rightarrow> bool" where
  "destroy_may_end b \<longleftrightarrow> idle (m_getStateOp b) \<and> idle (m_awaitStateChangeOp b) \<and> b_locked b = None \<and> \<not> m_getStateActive b"

section \<open>Events\<close>

datatype ('h, 's) observer_event = Async_Get_State 'h | Get_Active | Get_Post | Get_Run | Async_Await_Change 'h | Cancel_Await_Change
  | Publish_State 's | Unlock | Destroy_Cancel | Destroy_End | Deregister

text \<open>
  The user's threads have left the object when it is destroyed; the leaf publishes states as long as the
  object is registered, and \<^verbatim>\<open>on_binding_destroyed\<close> and \<^verbatim>\<open>on_terminal_destroyed\<close> wait for the leaf.
\<close>

fun observer_event_ok :: "('h, 's) observer_event \<Rightarrow> ('h, 's) observer \<Rightarrow> bool" where
  "observer_event_ok (Async_Get_State h) b = (b_stage b = Alive \<and> b_registered b)"
| "observer_event_ok Get_Active b = (b_arming b > 0 \<and> b_locked b = None)"
| "observer_event_ok Get_Post b = (b_posting b > 0)"
| "observer_event_ok Get_Run b = (b_posted b > 0 \<and> b_locked b = None)"
| "observer_event_ok (Async_Await_Change h) b = (b_stage b = Alive \<and> b_registered b)"
| "observer_event_ok Cancel_Await_Change b = (b_stage b = Alive \<and> b_registered b)"
| "observer_event_ok (Publish_State s) b = (b_registered b \<and> b_locked b = None)"
| "observer_event_ok Unlock b = (b_locked b \<noteq> None)"
| "observer_event_ok Destroy_Cancel b = (b_stage b = Alive \<and> b_arming b = 0 \<and> b_posting b = 0)"
| "observer_event_ok Destroy_End b = (b_stage b = Canceling \<and> destroy_may_end b)"
| "observer_event_ok Deregister b = (b_registered b \<and> b_arming b = 0 \<and> b_posting b = 0 \<and>
     (case b_locked b of Some (State_Change, c) \<Rightarrow> False | _ \<Rightarrow> True))"

fun observer_do :: "('h, 's) observer_event \<Rightarrow> ('h, 's) observer \<Rightarrow> ('h, 's) observed option" where
  "observer_do (Async_Get_State h) b = Some (case async_get_state h b of Inl e \<Rightarrow> (b, [Refuses Get_State h e]) | Inr b1 \<Rightarrow> (b1, [Takes Get_State h]))"
| "observer_do Get_Active b = Some (get_state_active b, [])"
| "observer_do Get_Post b = Some (get_state_post b, [])"
| "observer_do Get_Run b = Some (get_state_run b)"
| "observer_do (Async_Await_Change h) b = Some (case async_await_state_change h b of
     Inl e \<Rightarrow> (b, [Refuses State_Change h e]) | Inr b1 \<Rightarrow> (b1, [Takes State_Change h]))"
| "observer_do Cancel_Await_Change b = Some (fire_canceled State_Change b)"
| "observer_do (Publish_State s) b = Some (publish_state s b)"
| "observer_do Unlock b = Some (observer_unlock b, [])"
| "observer_do Destroy_Cancel b = Some (destroy_cancel b)"
| "observer_do Destroy_End b = Some (b\<lparr>b_stage := Waited\<rparr>, [])"
| "observer_do Deregister b = Some (b\<lparr>b_registered := False\<rparr>, [])"

section \<open>Accounts\<close>

fun taken :: "op_kind \<Rightarrow> ('h, 's) notice list \<Rightarrow> 'h list" where
  "taken k [] = []"
| "taken k (Takes k' h # out) = (if k' = k then [h] else []) @ taken k out"
| "taken k (_ # out) = taken k out"

fun told :: "op_kind \<Rightarrow> ('h, 's) notice list \<Rightarrow> 'h list" where
  "told k [] = []"
| "told k (Tells k' h v # out) = (if k' = k then [h] else []) @ told k out"
| "told k (_ # out) = told k out"

lemma taken_append [simp]: "taken k (xs @ ys) = taken k xs @ taken k ys"
  by (induction k xs rule: taken.induct) simp_all

lemma told_append [simp]: "told k (xs @ ys) = told k xs @ told k ys"
  by (induction k xs rule: told.induct) simp_all

definition count :: "bool \<Rightarrow> nat" where
  "count b = (if b then 1 else 0)"

text \<open>
  A function is posted or about to be exactly while a handler of \<^verbatim>\<open>async_get_state\<close> is armed, or one
  was when the destructor began; the counters are those of the armed and running handlers.
\<close>

definition observer_ok :: "('h, 's) observer \<Rightarrow> bool" where
  "observer_ok b \<longleftrightarrow>
     (b_stage b = Alive \<longrightarrow> b_arming b + b_posting b + b_posted b = count (armed (m_getStateOp b))) \<and>
     (b_stage b \<noteq> Alive \<longrightarrow> \<not> armed (m_getStateOp b) \<and> \<not> armed (m_awaitStateChangeOp b) \<and> b_posted b \<le> 1) \<and>
     (b_stage b \<noteq> Alive \<or> \<not> b_registered b \<longrightarrow> b_arming b = 0 \<and> b_posting b = 0) \<and>
     (\<not> b_registered b \<longrightarrow> (\<forall>c. b_locked b \<noteq> Some (State_Change, c))) \<and>
     (m_getStateActive b \<longleftrightarrow> b_posting b + b_posted b > 0 \<or> (\<exists>c. b_locked b = Some (Get_State, c))) \<and>
     (\<forall>c. b_locked b = Some (Get_State, c) \<longrightarrow> b_posting b = 0 \<and> b_posted b = 0) \<and>
     (\<forall>k. m_runningOperations (b_op k b) = int (count (armed (b_op k b))) + int (count (b_locked b = Some (k, True)))) \<and>
     (b_stage b = Waited \<longrightarrow> \<not> m_getStateActive b)"

lemma all_kinds: "(\<forall>k. P k) \<longleftrightarrow> P Get_State \<and> P State_Change"
  by (metis op_kind.exhaust)

lemmas observer_defs = async_get_state_def get_state_active_def get_state_post_def get_state_run_def async_await_state_change_def
  publish_state_def observer_unlock_def destroy_cancel_def destroy_may_end_def fire_locked_def fire_returns_def fire_canceled_def
  arm_def take_armed_handler_def finish_operation_def fire_def idle_def armed_def Let_def

lemma observer_step_keeps:
  assumes b: "observer_ok b" and e: "observer_event_ok e b"
  shows "case observer_do e b of None \<Rightarrow> False | Some (b', out) \<Rightarrow> observer_ok b'"
proof (cases e)
  case (Async_Get_State h)
  then show ?thesis using b e
    by (cases "m_armedHandler (m_getStateOp b)") (auto simp: observer_defs observer_ok_def all_kinds count_def)
next
  case Get_Active
  then show ?thesis using b e by (auto simp: observer_defs observer_ok_def all_kinds count_def split: if_splits)
next
  case Get_Post
  then show ?thesis using b e by (auto simp: observer_defs observer_ok_def all_kinds count_def split: if_splits)
next
  case Get_Run
  then show ?thesis using b e
    by (cases "m_armedHandler (m_getStateOp b)") (auto simp: observer_defs observer_ok_def all_kinds count_def split: if_splits)
next
  case (Async_Await_Change h)
  then show ?thesis using b e
    by (cases "m_armedHandler (m_awaitStateChangeOp b)") (auto simp: observer_defs observer_ok_def all_kinds count_def)
next
  case Cancel_Await_Change
  then show ?thesis using b e
    by (cases "m_armedHandler (m_awaitStateChangeOp b)") (auto simp: observer_defs observer_ok_def all_kinds count_def)
next
  case (Publish_State s)
  then show ?thesis using b e
    by (cases "m_armedHandler (m_awaitStateChangeOp b)") (auto simp: observer_defs observer_ok_def all_kinds count_def split: if_splits)
next
  case Unlock
  then obtain k c where "b_locked b = Some (k, c)" using e by auto
  then show ?thesis using Unlock b e
    by (cases k; cases c) (auto simp: observer_defs observer_ok_def all_kinds count_def split: if_splits)
next
  case Destroy_Cancel
  then show ?thesis using b e
    by (cases "m_armedHandler (m_getStateOp b)"; cases "m_armedHandler (m_awaitStateChangeOp b)")
      (auto simp: observer_defs observer_ok_def all_kinds count_def split: if_splits)
next
  case Destroy_End
  then show ?thesis using b e by (auto simp: observer_defs observer_ok_def all_kinds count_def)
next
  case Deregister
  then show ?thesis using b e by (auto simp: observer_defs observer_ok_def all_kinds count_def split: op_kind.splits)
qed

lemma observer_accounts:
  assumes "observer_do e b = Some (b', out)"
  shows "told k out @ armed_list (b_op k b') = armed_list (b_op k b) @ taken k out"
proof (cases e)
  case (Async_Get_State h)
  then show ?thesis using assms
    by (cases "m_armedHandler (m_getStateOp b)"; cases k) (auto simp: observer_defs armed_list_def)
next
  case (Async_Await_Change h)
  then show ?thesis using assms
    by (cases "m_armedHandler (m_awaitStateChangeOp b)"; cases k) (auto simp: observer_defs armed_list_def)
next
  case Unlock
  then show ?thesis using assms
    by (cases k) (auto simp: observer_defs armed_list_def split: option.splits op_kind.splits prod.splits if_splits)
qed (use assms in \<open>(cases k; auto simp: observer_defs armed_list_def split: option.splits if_splits)+\<close>)


lemma observer_step_ok:
  assumes "observer_ok b" "observer_event_ok e b"
  shows "\<exists>b' out. observer_do e b = Some (b', out) \<and> observer_ok b' \<and>
    told k out @ armed_list (b_op k b') = armed_list (b_op k b) @ taken k out"
  using observer_step_keeps[OF assms] observer_accounts[of e b] by (auto split: option.splits)

interpretation state_handlers: handler_accounts observer_do observer_event_ok "b_op k" observer_ok "taken k" "told k" "\<lambda>out. True"
  by unfold_locales (simp_all add: observer_step_ok)

lemma observer_new_ok: "observer_ok (observer_new s)" "armed_list (b_op k (observer_new s)) = []"
  by (cases k; simp add: observer_ok_def observer_new_def async_init_def armed_def all_kinds count_def armed_list_def)+

section \<open>Tracking the state\<close>

definition changes :: "('h, 's) notice list \<Rightarrow> 's list" where
  "changes out = concat (map (\<lambda>x. case x of Tells State_Change h (Some s) \<Rightarrow> [s] | _ \<Rightarrow> []) out)"

definition published :: "('h, 's) observer_event list \<Rightarrow> 's list" where
  "published es = concat (map (\<lambda>e. case e of Publish_State s \<Rightarrow> [s] | _ \<Rightarrow> []) es)"

text \<open>
  As \<^verbatim>\<open>yogi_core.h\<close> recommends it: the user calls \<^verbatim>\<open>async_await_state_change\<close> from within every handler, so that
  the operation is armed when the mutex is released, and does not cancel.
\<close>

fun tracks :: "('h, 's) observer_event list \<Rightarrow> ('h, 's) observer \<Rightarrow> bool" where
  "tracks [] b = True"
| "tracks (e # es) b = ((e = Unlock \<longrightarrow> armed (m_awaitStateChangeOp b)) \<and> e \<noteq> Cancel_Await_Change \<and> e \<noteq> Destroy_Cancel \<and>
     (case observer_do e b of None \<Rightarrow> True | Some (b1, out) \<Rightarrow> tracks es b1))"

text \<open>Nobody publishes without somebody waiting.\<close>

definition attentive :: "('h, 's) observer \<Rightarrow> bool" where
  "attentive b \<longleftrightarrow> b_locked b \<noteq> None \<or> armed (m_awaitStateChangeOp b)"

lemma attentive_step:
  assumes "observer_do e b = Some (b', out)" "observer_event_ok e b" "attentive b"
    "e = Unlock \<longrightarrow> armed (m_awaitStateChangeOp b)" "e \<noteq> Cancel_Await_Change" "e \<noteq> Destroy_Cancel"
  shows "attentive b' \<and> changes out = published [e] \<and> b_state b' = last (b_state b # published [e])"
proof (cases e)
  case Unlock
  then obtain k c where "b_locked b = Some (k, c)" using assms(2) by auto
  then show ?thesis using assms Unlock
    by (cases k; cases c) (auto simp: attentive_def changes_def published_def observer_defs)
next
  case (Async_Get_State h)
  then show ?thesis using assms
    by (cases "m_armedHandler (m_getStateOp b)") (auto simp: attentive_def changes_def published_def observer_defs)
next
  case (Async_Await_Change h)
  then show ?thesis using assms
    by (cases "m_armedHandler (m_awaitStateChangeOp b)") (auto simp: attentive_def changes_def published_def observer_defs)
qed (use assms in \<open>(auto simp: attentive_def changes_def published_def observer_defs split: option.splits)+\<close>)

lemma changes_append: "changes (xs @ ys) = changes xs @ changes ys"
  by (simp add: changes_def)

lemma attentive_run:
  "legal_events observer_do observer_event_ok es b \<Longrightarrow> run_events observer_do es b = Some (b', out) \<Longrightarrow> tracks es b \<Longrightarrow> attentive b \<Longrightarrow>
    changes out = published es \<and> b_state b' = last (b_state b # published es)"
proof (induction es arbitrary: b out)
  case (Cons e es)
  obtain b1 o1 o2 where 1: "observer_do e b = Some (b1, o1)" "run_events observer_do es b1 = Some (b', o2)" "out = o1 @ o2"
    using Cons.prems(2) by (auto simp: bind_eq_Some_conv)
  have 2: "attentive b1 \<and> changes o1 = published [e] \<and> b_state b1 = last (b_state b # published [e])"
    using attentive_step[OF 1(1)] Cons.prems by simp
  have "changes o2 = published es \<and> b_state b' = last (b_state b1 # published es)"
    using Cons.IH[OF _ 1(2)] Cons.prems 1(1) 2 by simp
  moreover have "published (e # es) = published [e] @ published es" by (simp add: published_def)
  ultimately show ?case using 1(3) 2 by (auto simp: changes_append)
qed (simp add: changes_def published_def)

section \<open>Properties\<close>

text \<open>C16: Every handler given to \<^verbatim>\<open>async_get_state\<close> or \<^verbatim>\<open>async_await_state_change\<close> of a binding or terminal is called
  exactly once, in order, at the latest with an error by the destructor; and when the destructor has waited and the
  object has left its leaf, no handler runs, no posted function will touch the object, and the counters are 0.\<close>

theorem state_handlers_called:
  assumes "legal_events observer_do observer_event_ok es (observer_new s)"
  shows "\<exists>b out. run_events observer_do es (observer_new s) = Some (b, out) \<and>
    told k out @ armed_list (b_op k b) = taken k out \<and> (b_stage b \<noteq> Alive \<longrightarrow> told k out = taken k out) \<and>
    (b_stage b = Waited \<and> \<not> b_registered b \<longrightarrow> b_arming b + b_posting b + b_posted b = 0 \<and> b_locked b = None \<and> m_runningOperations (b_op k b) = 0)"
proof -
  obtain b out where r: "run_events observer_do es (observer_new s) = Some (b, out)" "observer_ok b"
      "told k out @ armed_list (b_op k b) = taken k out"
    using state_handlers.run_ok[OF observer_new_ok(1) assms, of k] observer_new_ok(2)[of k s] by auto
  have a: "b_stage b \<noteq> Alive \<longrightarrow> \<not> armed (b_op k b)" using r(2) by (cases k) (auto simp: observer_ok_def)
  then have "b_stage b \<noteq> Alive \<longrightarrow> told k out = taken k out" using r(3) by (auto simp: armed_def armed_list_def)
  moreover have "b_stage b = Waited \<and> \<not> b_registered b \<longrightarrow> b_arming b + b_posting b + b_posted b = 0 \<and> b_locked b = None \<and>
      m_runningOperations (b_op k b) = 0"
  proof
    assume w: "b_stage b = Waited \<and> \<not> b_registered b"
    then have l: "b_locked b = None" using r(2) by (cases "b_locked b") (auto simp: observer_ok_def intro: op_kind.exhaust)
    then have "m_runningOperations (b_op k b) = 0" using r(2) a w by (auto simp: observer_ok_def count_def)
    then show "b_arming b + b_posting b + b_posted b = 0 \<and> b_locked b = None \<and> m_runningOperations (b_op k b) = 0"
      using r(2) w l by (auto simp: observer_ok_def)
  qed
  ultimately show ?thesis using r by blast
qed

text \<open>C15: No change of the state is lost: a user who asks for the state and then, from within every handler, awaits the next
  change is told the state and after it every state that is published, in order.\<close>

theorem no_state_change_lost:
  assumes "legal_events observer_do observer_event_ok (es @ [Get_Run] @ es') (observer_new s)"
    and "run_events observer_do es (observer_new s) = Some (b, out)" "m_armedHandler (m_getStateOp b) = Some h"
    and "observer_do Get_Run b = Some (b1, out1)" "tracks es' b1"
  shows "out1 = [Tells Get_State h (Some (b_state b))] \<and> (\<exists>b2 out2. run_events observer_do es' b1 = Some (b2, out2) \<and>
    changes out2 = published es' \<and> b_state b2 = last (b_state b # published es'))"
proof -
  have l: "legal_events observer_do observer_event_ok es' b1" using assms(1,2,4) by (simp add: legal_events_append)
  obtain bb oo where "run_events observer_do (es @ [Get_Run] @ es') (observer_new s) = Some (bb, oo)"
    using state_handlers_called[OF assms(1)] by blast
  then obtain b2 out2 where r: "run_events observer_do es' b1 = Some (b2, out2)"
    using assms(2,4) by (auto simp: run_events_append bind_eq_Some_conv)
  have "attentive b1" "b_state b1 = b_state b" "out1 = [Tells Get_State h (Some (b_state b))]"
    using assms(3,4) by (auto simp: attentive_def observer_defs)
  then show ?thesis using attentive_run[OF l r assms(5)] r by simp
qed

text \<open>The destructor does not wait forever: at most one posted function and two critical sections are left to end.\<close>

definition destroy_rest :: "('h, 's) observer \<Rightarrow> ('h, 's) observer_event list" where
  "destroy_rest b = (if b_locked b \<noteq> None then [Unlock] else []) @ (if b_posted b > 0 then [Get_Run, Unlock] else [])"

theorem state_destructor_ends:
  assumes "legal_events observer_do observer_event_ok es (observer_new s)" "run_events observer_do es (observer_new s) = Some (b, out)"
    and "b_stage b = Canceling"
  shows "legal_events observer_do observer_event_ok (es @ destroy_rest b @ [Destroy_End]) (observer_new s)"
proof -
  have b: "observer_ok b" using state_handlers.run_ok[OF observer_new_ok(1) assms(1)] assms(2) by auto
  have "legal_events observer_do observer_event_ok (destroy_rest b @ [Destroy_End]) b"
  proof (cases "b_locked b")
    case None
    then show ?thesis using b assms(3)
      by (cases "b_posted b") (auto simp: destroy_rest_def observer_ok_def observer_defs all_kinds count_def)
  next
    case (Some l)
    obtain k c where "l = (k, c)" by (cases l)
    then show ?thesis using Some b assms(3)
      by (cases k; cases c; cases "b_posted b") (auto simp: destroy_rest_def observer_ok_def observer_defs all_kinds count_def)
  qed
  then show ?thesis using assms(1,2) by (simp add: legal_events_append)
qed

section \<open>Examples\<close>

text \<open>A binding: the user gets the state, tracks it and is told two changes; the destructor cancels the third wait.\<close>

definition sample_get :: "(nat, nat) observer_event list" where
  "sample_get = [Async_Get_State 10, Publish_State 1, Unlock, Get_Active, Get_Post]"

definition sample_track :: "(nat, nat) observer_event list" where
  "sample_track = [Async_Await_Change 11, Unlock, Publish_State 2, Async_Await_Change 12, Unlock, Publish_State 3, Async_Await_Change 13, Unlock]"

definition sample_destroy :: "(nat, nat) observer_event list" where
  "sample_destroy = [Async_Get_State 14, Get_Active, Get_Post, Destroy_Cancel, Get_Run, Unlock, Destroy_End, Deregister]"

lemma state_handlers_called_witness:
  "\<exists>b out. run_events observer_do (sample_get @ [Get_Run] @ sample_track @ sample_destroy) (observer_new 0) = Some (b, out) \<and>
     told State_Change out = [11, 12, 13] \<and> told Get_State out = [10, 14] \<and> m_runningOperations (m_getStateOp b) = 0"
proof -
  let ?es = "sample_get @ [Get_Run] @ sample_track @ sample_destroy"
  have l: "legal_events observer_do observer_event_ok ?es (observer_new 0)" by code_simp
  have d: "map_option (\<lambda>(b, out). (b_stage b, b_registered b, taken State_Change out, taken Get_State out))
      (run_events observer_do ?es (observer_new 0)) = Some (Waited, False, [11, 12, 13], [10, 14])" by code_simp
  obtain b out where r: "run_events observer_do ?es (observer_new 0) = Some (b, out)"
      "told State_Change out @ armed_list (b_op State_Change b) = taken State_Change out"
      "b_stage b \<noteq> Alive \<longrightarrow> told State_Change out = taken State_Change out"
    using state_handlers_called[OF l, of State_Change] by blast
  obtain b' out' where r': "run_events observer_do ?es (observer_new 0) = Some (b', out')"
      "b_stage b' \<noteq> Alive \<longrightarrow> told Get_State out' = taken Get_State out'"
      "b_stage b' = Waited \<and> \<not> b_registered b' \<longrightarrow> m_runningOperations (b_op Get_State b') = 0"
    using state_handlers_called[OF l, of Get_State] by blast
  show ?thesis using r r' d by (intro exI[of _ b] exI[of _ out]) simp
qed

lemma no_state_change_lost_witness:
  "\<exists>b out b1 out1 b2 out2. run_events observer_do sample_get (observer_new 0) = Some (b, out) \<and>
     observer_do Get_Run b = Some (b1, out1) \<and> out1 = [Tells Get_State 10 (Some 1)] \<and>
     run_events observer_do sample_track b1 = Some (b2, out2) \<and> changes out2 = [2, 3] \<and> b_state b2 = 3"
proof -
  have l: "legal_events observer_do observer_event_ok (sample_get @ [Get_Run] @ sample_track) (observer_new 0)" by code_simp
  have d: "map_option (\<lambda>(b, out). (b_state b, m_armedHandler (m_getStateOp b),
      map_option (\<lambda>(b1, out1). tracks sample_track b1) (observer_do Get_Run b))) (run_events observer_do sample_get (observer_new 0)) =
      Some (1, Some 10, Some True)" by code_simp
  then obtain b out where b: "run_events observer_do sample_get (observer_new 0) = Some (b, out)" "b_state b = 1"
      "m_armedHandler (m_getStateOp b) = Some 10"
      "map_option (\<lambda>(b1, out1). tracks sample_track b1) (observer_do Get_Run b) = Some True" by auto
  then obtain b1 out1 where r: "observer_do Get_Run b = Some (b1, out1)" "tracks sample_track b1" by auto
  have p: "published sample_track = [2, 3]" by code_simp
  obtain b2 out2 where x: "out1 = [Tells Get_State 10 (Some 1)]" "run_events observer_do sample_track b1 = Some (b2, out2)"
      "changes out2 = [2, 3]" "b_state b2 = 3"
    using no_state_change_lost[OF l b(1,3) r] b(2) p by auto
  show ?thesis using b(1) r(1) x by blast
qed

lemma state_destructor_ends_witness:
  "legal_events observer_do observer_event_ok
     ([Async_Get_State (14 :: nat), Get_Active, Get_Post, Destroy_Cancel] @ [Get_Run, Unlock] @ [Destroy_End]) (observer_new (0 :: nat))"
proof -
  let ?es = "[Async_Get_State 14, Get_Active, Get_Post, Destroy_Cancel] :: (nat, nat) observer_event list"
  have l: "legal_events observer_do observer_event_ok ?es (observer_new 0)" by code_simp
  have d: "map_option (\<lambda>(b, out). (b_stage b, destroy_rest b)) (run_events observer_do ?es (observer_new 0)) = Some (Canceling, [Get_Run, Unlock])"
    by code_simp
  then obtain b out where r: "run_events observer_do ?es (observer_new 0) = Some (b, out)" "b_stage b = Canceling" "destroy_rest b = [Get_Run, Unlock]"
    by auto
  show ?thesis using state_destructor_ends[OF l r(1,2)] r(3) by simp
qed

end
