(* ===== verification/Terminals.thy ===== *)
theory Terminals
  imports Event_Runs Leaf_Classes
begin

text \<open>
  \<^verbatim>\<open>core/common/PublishSubscribeTerminalBaseT\<close> and \<^verbatim>\<open>core/cached_publish_subscribe/Terminal\<close>: the user hands a terminal
  a buffer and a handler for the next message.  The terminal's mutex is recursive, so a handler may call the terminal again
  while \<^verbatim>\<open>on_data_received\<close> or \<^verbatim>\<open>cancel_receive_published_message\<close> has not returned.

  A buffer of the user is its size; what is copied into it goes to the notice.
\<close>

section \<open>State\<close>

text \<open>The calls that hold the mutex, the innermost first, and whether they are calling a handler.\<close>

datatype frame = In_Data bool | In_Cancel bool

record 'h receiver =
  m_rcvPublishedMsgOp :: "'h async_op"
  m_rcvBuffer :: nat
  r_frames :: "frame list"
  r_registered :: bool
  r_destroyed :: bool

definition receiver_new :: "'h receiver" where
  "receiver_new = \<lparr>m_rcvPublishedMsgOp = async_init, m_rcvBuffer = 0, r_frames = [], r_registered = True, r_destroyed = False\<rparr>"

text \<open>What the user sees; the error code, the size of the message, whether it is a cached one and what the buffer got.\<close>

datatype 'h rcv_notice = Takes_Receive 'h nat | Refuses_Receive 'h api_error | Tells_Data 'h "api_error option" nat bool buffer
  | Tells_Canceled 'h

section \<open>Operations\<close>

definition async_receive_published_message :: "nat \<Rightarrow> 'h \<Rightarrow> 'h receiver \<Rightarrow> api_error + 'h receiver" where
  "async_receive_published_message n h r = (case arm h (m_rcvPublishedMsgOp r) of Inl e \<Rightarrow> Inl e
     | Inr a \<Rightarrow> Inr (r\<lparr>m_rcvPublishedMsgOp := a, m_rcvBuffer := n\<rparr>))"

text \<open>Up to the call of the handler.\<close>

definition on_data_received :: "buffer \<Rightarrow> bool \<Rightarrow> 'h receiver \<Rightarrow> 'h receiver \<times> 'h rcv_notice list" where
  "on_data_received d cached r = (let copied = take (m_rcvBuffer r) d; (h, a) = take_armed_handler (m_rcvPublishedMsgOp r) in
     (r\<lparr>m_rcvBuffer := 0, m_rcvPublishedMsgOp := a, r_frames := In_Data (h \<noteq> None) # r_frames r\<rparr>,
      case h of None \<Rightarrow> []
      | Some h \<Rightarrow> [Tells_Data h (if length copied = length d then None else Some ERR_BUFFER_TOO_SMALL) (length d) cached copied]))"

definition cancel_receive_published_message :: "'h receiver \<Rightarrow> 'h receiver \<times> 'h rcv_notice list" where
  "cancel_receive_published_message r = (let (h, a) = take_armed_handler (m_rcvPublishedMsgOp r) in
     (r\<lparr>m_rcvPublishedMsgOp := a, r_frames := In_Cancel (h \<noteq> None) # r_frames r\<rparr>, case h of None \<Rightarrow> [] | Some h \<Rightarrow> [Tells_Canceled h]))"

text \<open>The handler has returned: only now does the cancelling call forget the buffer.\<close>

definition finish_call :: "bool \<Rightarrow> 'h receiver \<Rightarrow> 'h receiver" where
  "finish_call called r = (if called then r\<lparr>m_rcvPublishedMsgOp := finish_operation (m_rcvPublishedMsgOp r)\<rparr> else r)"

definition call_returns :: "'h receiver \<Rightarrow> 'h receiver" where
  "call_returns r = (case r_frames r of
      [] \<Rightarrow> r
    | In_Data c # fs \<Rightarrow> (finish_call c r)\<lparr>r_frames := fs\<rparr>
    | In_Cancel c # fs \<Rightarrow> (finish_call c r)\<lparr>r_frames := fs, m_rcvBuffer := 0\<rparr>)"

definition destroy_terminal :: "'h receiver \<Rightarrow> 'h receiver \<times> 'h rcv_notice list" where
  "destroy_terminal r = (let (h, a) = fire (\<lambda>h a. a) (m_rcvPublishedMsgOp r) in
     (r\<lparr>m_rcvPublishedMsgOp := a, r_destroyed := True\<rparr>, case h of None \<Rightarrow> [] | Some h \<Rightarrow> [Tells_Canceled h]))"

text \<open>\<^verbatim>\<open>get_cache\<close> of a cached terminal: whether there is a cached message, and its size.\<close>

definition terminal_get_cache :: "nat \<Rightarrow> id \<Rightarrow> cached_leaf \<Rightarrow> (api_error + bool \<times> nat) option" where
  "terminal_get_cache n tm lf = do { (cache, set) \<leftarrow> get_cache tm lf;
     Some (if \<not> set then Inr (False, 0) else if n < length cache then Inl ERR_BUFFER_TOO_SMALL
       else Inr (True, length (take n cache))) }"

section \<open>Events\<close>

datatype 'h rcv_event = Receive 'h nat | Cancel_Receive | Data_Arrives buffer bool | Call_Returns | Destroy_Terminal | Deregister_Terminal

text \<open>
  The leaf delivers one message at a time, under its own mutex, which \<^verbatim>\<open>on_terminal_destroyed\<close> waits for.
\<close>

fun rcv_event_ok :: "'h rcv_event \<Rightarrow> 'h receiver \<Rightarrow> bool" where
  "rcv_event_ok (Receive h n) r = (\<not> r_destroyed r)"
| "rcv_event_ok Cancel_Receive r = (\<not> r_destroyed r)"
| "rcv_event_ok (Data_Arrives d cached) r = (r_registered r \<and> r_frames r = [])"
| "rcv_event_ok Call_Returns r = (r_frames r \<noteq> [])"
| "rcv_event_ok Destroy_Terminal r = (\<not> r_destroyed r \<and> (\<forall>c. In_Cancel c \<notin> set (r_frames r)))"
| "rcv_event_ok Deregister_Terminal r = (r_destroyed r \<and> idle (m_rcvPublishedMsgOp r) \<and> r_frames r = [])"

fun rcv_do :: "'h rcv_event \<Rightarrow> 'h receiver \<Rightarrow> ('h receiver \<times> 'h rcv_notice list) option" where
  "rcv_do (Receive h n) r = Some (case async_receive_published_message n h r of
     Inl e \<Rightarrow> (r, [Refuses_Receive h e]) | Inr r1 \<Rightarrow> (r1, [Takes_Receive h n]))"
| "rcv_do Cancel_Receive r = Some (cancel_receive_published_message r)"
| "rcv_do (Data_Arrives d cached) r = Some (on_data_received d cached r)"
| "rcv_do Call_Returns r = Some (call_returns r, [])"
| "rcv_do Destroy_Terminal r = Some (destroy_terminal r)"
| "rcv_do Deregister_Terminal r = Some (r\<lparr>r_registered := False\<rparr>, [])"

section \<open>Accounts\<close>

definition takes :: "'h rcv_notice list \<Rightarrow> ('h \<times> nat) list" where
  "takes out = concat (map (\<lambda>x. case x of Takes_Receive h n \<Rightarrow> [(h, n)] | _ \<Rightarrow> []) out)"

definition receive_taken :: "'h rcv_notice list \<Rightarrow> 'h list" where
  "receive_taken out = map fst (takes out)"

definition receive_told :: "'h rcv_notice list \<Rightarrow> 'h list" where
  "receive_told out = concat (map (\<lambda>x. case x of Tells_Data h e n c d \<Rightarrow> [h] | Tells_Canceled h \<Rightarrow> [h] | _ \<Rightarrow> []) out)"

fun calls_handler :: "frame \<Rightarrow> bool" where
  "calls_handler (In_Data c) = c"
| "calls_handler (In_Cancel c) = c"

definition receiver_ok :: "'h receiver \<Rightarrow> bool" where
  "receiver_ok r \<longleftrightarrow> m_runningOperations (m_rcvPublishedMsgOp r) =
       int (length (filter calls_handler (r_frames r))) + (if armed (m_rcvPublishedMsgOp r) then 1 else 0) \<and>
     (r_destroyed r \<longrightarrow> \<not> armed (m_rcvPublishedMsgOp r)) \<and> (\<not> r_registered r \<longrightarrow> r_destroyed r \<and> r_frames r = [])"

lemmas receiver_defs = async_receive_published_message_def on_data_received_def cancel_receive_published_message_def call_returns_def
  finish_call_def destroy_terminal_def arm_def take_armed_handler_def finish_operation_def fire_def idle_def armed_def Let_def

lemma rcv_keeps:
  assumes "receiver_ok r" "rcv_event_ok e r"
  shows "case rcv_do e r of None \<Rightarrow> False | Some (r', out) \<Rightarrow> receiver_ok r'"
proof (cases e)
  case Call_Returns
  then obtain f fs where "r_frames r = f # fs" using assms(2) by (cases "r_frames r") auto
  then show ?thesis using Call_Returns assms by (cases f) (auto simp: receiver_defs receiver_ok_def)
qed (use assms in \<open>(cases "m_armedHandler (m_rcvPublishedMsgOp r)"; auto simp: receiver_defs receiver_ok_def)+\<close>)

lemma rcv_accounts:
  assumes "rcv_do e r = Some (r', out)"
  shows "receive_told out @ armed_list (m_rcvPublishedMsgOp r') = armed_list (m_rcvPublishedMsgOp r) @ receive_taken out"
proof (cases e)
  case Call_Returns
  then show ?thesis using assms
    by (auto simp: receiver_defs armed_list_def receive_told_def receive_taken_def takes_def split: list.splits frame.splits)
qed (use assms in \<open>(cases "m_armedHandler (m_rcvPublishedMsgOp r)";
  auto simp: receiver_defs armed_list_def receive_told_def receive_taken_def takes_def)+\<close>)

lemma rcv_step_ok:
  assumes "receiver_ok r" "rcv_event_ok e r"
  shows "\<exists>r' out. rcv_do e r = Some (r', out) \<and> receiver_ok r' \<and>
    receive_told out @ armed_list (m_rcvPublishedMsgOp r') = armed_list (m_rcvPublishedMsgOp r) @ receive_taken out"
  using rcv_keeps[OF assms] rcv_accounts[of e r] by (auto split: option.splits)

interpretation data_handlers:
    handler_accounts rcv_do rcv_event_ok m_rcvPublishedMsgOp receiver_ok receive_taken receive_told "\<lambda>out. True"
  by unfold_locales (simp_all add: rcv_step_ok, simp_all add: receive_taken_def receive_told_def takes_def)

lemma receiver_new_ok: "receiver_ok receiver_new" "armed_list (m_rcvPublishedMsgOp receiver_new) = []"
  by (simp_all add: receiver_ok_def receiver_new_def async_init_def armed_def armed_list_def)

section \<open>The buffer belongs to the handler\<close>

text \<open>The handler of a cancelled operation does not start another one.\<close>

fun no_receive_in_cancel :: "'h rcv_event list \<Rightarrow> 'h receiver \<Rightarrow> bool" where
  "no_receive_in_cancel [] r = True"
| "no_receive_in_cancel (e # es) r = ((case e of Receive h n \<Rightarrow> \<forall>c. In_Cancel c \<notin> set (r_frames r) | _ \<Rightarrow> True) \<and>
     (case rcv_do e r of None \<Rightarrow> True | Some (r1, out) \<Rightarrow> no_receive_in_cancel es r1))"

definition buffer_given :: "('h \<times> nat) list \<Rightarrow> 'h receiver \<Rightarrow> bool" where
  "buffer_given ts r \<longleftrightarrow> (case m_armedHandler (m_rcvPublishedMsgOp r) of None \<Rightarrow> True
     | Some h \<Rightarrow> ts \<noteq> [] \<and> last ts = (h, m_rcvBuffer r) \<and> (\<forall>c. In_Cancel c \<notin> set (r_frames r)))"

lemma buffer_given_step:
  assumes "rcv_do e r = Some (r', out)" "buffer_given ts r"
    and "case e of Receive h n \<Rightarrow> \<forall>c. In_Cancel c \<notin> set (r_frames r) | _ \<Rightarrow> True"
  shows "buffer_given (ts @ takes out) r'"
proof (cases e)
  case Call_Returns
  then show ?thesis using assms
    by (auto simp: receiver_defs buffer_given_def takes_def split: list.splits frame.splits option.splits if_splits)
qed (use assms in \<open>(cases "m_armedHandler (m_rcvPublishedMsgOp r)"; auto simp: receiver_defs buffer_given_def takes_def)+\<close>)

text \<open>In general the terminal may have forgotten the buffer, but it never has a different one.\<close>

definition buffer_or_none :: "('h \<times> nat) list \<Rightarrow> 'h receiver \<Rightarrow> bool" where
  "buffer_or_none ts r \<longleftrightarrow> (case m_armedHandler (m_rcvPublishedMsgOp r) of None \<Rightarrow> True
     | Some h \<Rightarrow> ts \<noteq> [] \<and> fst (last ts) = h \<and> (m_rcvBuffer r = 0 \<or> m_rcvBuffer r = snd (last ts)))"

lemma buffer_or_none_step:
  assumes "rcv_do e r = Some (r', out)" "buffer_or_none ts r"
  shows "buffer_or_none (ts @ takes out) r'"
proof (cases e)
  case Call_Returns
  then show ?thesis using assms
    by (auto simp: receiver_defs buffer_or_none_def takes_def split: list.splits frame.splits option.splits if_splits)
qed (use assms in \<open>(cases "m_armedHandler (m_rcvPublishedMsgOp r)"; auto simp: receiver_defs buffer_or_none_def takes_def)+\<close>)

lemma takes_run:
  assumes "\<And>e r r' out ts. rcv_do e r = Some (r', out) \<Longrightarrow> Q e r \<Longrightarrow> P ts r \<Longrightarrow> P (ts @ takes out) r'"
    and "\<And>e es r r1 out. R (e # es) r \<Longrightarrow> rcv_do e r = Some (r1, out) \<Longrightarrow> Q e r \<and> R es r1"
  shows "run_events rcv_do es r = Some (r', out) \<Longrightarrow> P ts r \<Longrightarrow> R es r \<Longrightarrow> P (ts @ takes out) r'"
proof (induction es arbitrary: r ts out)
  case Nil
  then show ?case by (simp add: takes_def)
next
  case (Cons e es)
  obtain r1 o1 o2 where 1: "rcv_do e r = Some (r1, o1)" "run_events rcv_do es r1 = Some (r', o2)" "out = o1 @ o2"
    using Cons.prems(1) by (auto simp: bind_eq_Some_conv)
  note q = assms(2)[OF Cons.prems(3) 1(1)]
  have "P (ts @ takes o1) r1" using assms(1)[OF 1(1) _ Cons.prems(2)] q by simp
  then have "P ((ts @ takes o1) @ takes o2) r'" by (rule Cons.IH[OF 1(2)]) (use q in simp)
  moreover have "takes out = takes o1 @ takes o2" by (simp add: 1(3) takes_def)
  ultimately show ?case by simp
qed

lemma buffer_given_run:
  assumes "run_events rcv_do es r = Some (r', out)" "buffer_given ts r" "no_receive_in_cancel es r"
  shows "buffer_given (ts @ takes out) r'"
  by (rule takes_run[where P = buffer_given and R = no_receive_in_cancel
      and Q = "\<lambda>e r. case e of Receive h n \<Rightarrow> \<forall>c. In_Cancel c \<notin> set (r_frames r) | _ \<Rightarrow> True", OF buffer_given_step _ assms]) auto

lemma buffer_or_none_run:
  assumes "run_events rcv_do es r = Some (r', out)" "buffer_or_none ts r"
  shows "buffer_or_none (ts @ takes out) r'"
  by (rule takes_run[where P = buffer_or_none and R = "\<lambda>es r. True" and Q = "\<lambda>e r. True", OF buffer_or_none_step _ assms]) auto

section \<open>Properties\<close>

text \<open>Every accepted \<^verbatim>\<open>async_receive_published_message\<close> of a publish-subscribe terminal has its handler called exactly
  once, in order, by the next message, by a cancellation or by the destructor at the latest, whatever handlers do in turn; a
  terminal that has left its leaf has no handler running.\<close>

theorem receive_handlers_called:
  assumes "legal_events rcv_do rcv_event_ok es receiver_new"
  shows "\<exists>r out. run_events rcv_do es receiver_new = Some (r, out) \<and>
    receive_told out @ armed_list (m_rcvPublishedMsgOp r) = receive_taken out \<and>
    (r_destroyed r \<longrightarrow> receive_told out = receive_taken out) \<and> (\<not> r_registered r \<longrightarrow> m_runningOperations (m_rcvPublishedMsgOp r) = 0)"
proof -
  obtain r out where r: "run_events rcv_do es receiver_new = Some (r, out)" "receiver_ok r"
      "receive_told out @ armed_list (m_rcvPublishedMsgOp r) = receive_taken out"
    using data_handlers.run_ok[OF receiver_new_ok(1) assms] receiver_new_ok(2) by auto
  then have "r_destroyed r \<longrightarrow> receive_told out = receive_taken out" by (auto simp: receiver_ok_def armed_def armed_list_def)
  then show ?thesis using r by (auto simp: receiver_ok_def)
qed

text \<open>C17: A message gets into the buffer that came with the handler: the handler that is called is the last one
  accepted; it gets the first bytes of the message, as many as the buffer takes and never more, the size of the message, and the error of
  a small buffer exactly if bytes are missing.  The buffer is the one handed over with the handler, in its full size if no handler of a
  cancelled call has started a receive operation; if one has, its buffer may have been forgotten and count as empty.\<close>

theorem message_fills_its_buffer:
  assumes "legal_events rcv_do rcv_event_ok (es @ [Data_Arrives d cached]) receiver_new"
    and "run_events rcv_do es receiver_new = Some (r, out)"
  shows "\<exists>r' out'. rcv_do (Data_Arrives d cached) r = Some (r', out') \<and>
    (case m_armedHandler (m_rcvPublishedMsgOp r) of None \<Rightarrow> out' = []
      | Some h \<Rightarrow> takes out \<noteq> [] \<and> fst (last (takes out)) = h \<and>
          (\<exists>n. (n = 0 \<or> n = snd (last (takes out))) \<and> (no_receive_in_cancel es receiver_new \<longrightarrow> n = snd (last (takes out))) \<and>
            out' = [Tells_Data h (if length d \<le> n then None else Some ERR_BUFFER_TOO_SMALL) (length d) cached (take n d)]))"
proof -
  have "buffer_or_none [] (receiver_new :: 'a receiver)" by (simp add: buffer_or_none_def receiver_new_def async_init_def)
  then have b: "buffer_or_none (takes out) r" using buffer_or_none_run[OF assms(2), of "[]"] by simp
  have "buffer_given [] (receiver_new :: 'a receiver)" by (simp add: buffer_given_def receiver_new_def async_init_def)
  then have g: "buffer_given (takes out) r" if "no_receive_in_cancel es receiver_new"
    using buffer_given_run[OF assms(2) _ that, of "[]"] by simp
  show ?thesis
  proof (cases "m_armedHandler (m_rcvPublishedMsgOp r)")
    case (Some h)
    have "no_receive_in_cancel es receiver_new \<longrightarrow> m_rcvBuffer r = snd (last (takes out))"
      using g Some by (auto simp: buffer_given_def)
    moreover have "takes out \<noteq> []" "fst (last (takes out)) = h" "m_rcvBuffer r = 0 \<or> m_rcvBuffer r = snd (last (takes out))"
      using b Some by (simp_all add: buffer_or_none_def)
    moreover obtain r' where "rcv_do (Data_Arrives d cached) r = Some (r', [Tells_Data h
        (if length d \<le> m_rcvBuffer r then None else Some ERR_BUFFER_TOO_SMALL) (length d) cached (take (m_rcvBuffer r) d)])"
      using Some by (simp add: on_data_received_def take_armed_handler_def Let_def)
    ultimately show ?thesis unfolding Some option.case by blast
  qed (simp add: on_data_received_def take_armed_handler_def Let_def)
qed

text \<open>The cache of a terminal is the message that was received last, if the user's buffer is large enough for it.\<close>

theorem cache_is_last_received:
  assumes "cached_on_data_received cached tm d lf = Some lf'"
  shows "terminal_get_cache n tm lf' = Some (if n < length d then Inl ERR_BUFFER_TOO_SMALL else Inr (True, length d)) \<and>
    (\<exists>p. lf_out lf' = lf_out lf @ [Data_Received p d cached])"
proof -
  obtain lf1 where 1: "modify_ext tm (\<lambda>c. c\<lparr>lastReceivedMessage := d, lastReceivedMessageSet := True\<rparr>) lf = Some lf1"
      "deliver_data cached tm d lf1 = Some lf'"
    using assms by (auto simp: cached_on_data_received_def elim!: bind_SomeE)
  obtain e where e: "find_id (lf_terminals lf) tm = Some e"
    using 1(1) by (auto simp: modify_ext_def modify_terminal_def ireg_modify_def elim!: bind_SomeE)
  have f: "find_id (ireg_put tm (Some e') (lf_terminals lf)) tm = Some e'" for e'
    using e by (simp add: find_id_put find_id_in_range)
  have "get_cache tm lf1 = Some (d, True)" "lf_out lf1 = lf_out lf"
    using 1(1) e by (auto simp: modify_ext_def modify_terminal_def ireg_modify_def get_cache_def get_terminal_info_def f)
  moreover have "get_cache tm lf' = get_cache tm lf1" "\<exists>p. lf_out lf' = lf_out lf1 @ [Data_Received p d cached]"
    using 1(2) by (auto simp: deliver_data_def get_cache_def get_terminal_info_def emit_def elim!: bind_SomeE)
  ultimately show ?thesis by (auto simp: terminal_get_cache_def)
qed

text \<open>A handler that is told of the cancellation and receives again loses its buffer: the cancelling call forgets it
  afterwards, and the next message is reported as too large although it fits.\<close>

definition receive_again :: "nat rcv_event list" where
  "receive_again = [Receive 1 8, Cancel_Receive, Receive 2 8, Call_Returns]"

theorem rearmed_buffer_lost:
  "legal_events rcv_do rcv_event_ok (receive_again @ [Data_Arrives [7] False]) receiver_new \<and>
   map_option snd (run_events rcv_do (receive_again @ [Data_Arrives [7] False]) receiver_new) =
     Some [Takes_Receive 1 8, Tells_Canceled 1, Takes_Receive 2 8, Tells_Data 2 (Some ERR_BUFFER_TOO_SMALL) 1 False []]"
  by code_simp

section \<open>Examples\<close>

text \<open>The handler of the first message receives the next one into a buffer of two bytes.\<close>

definition sample_receive :: "nat rcv_event list" where
  "sample_receive = [Data_Arrives [9] True, Call_Returns, Receive 1 4, Data_Arrives [1, 2, 3] False, Receive 2 2, Call_Returns]"

lemma receive_handlers_called_witness:
  "\<exists>r out. run_events rcv_do (sample_receive @ [Destroy_Terminal, Deregister_Terminal]) receiver_new = Some (r, out) \<and>
     receive_told out = [1, 2] \<and> m_runningOperations (m_rcvPublishedMsgOp r) = 0"
proof -
  let ?es = "sample_receive @ [Destroy_Terminal, Deregister_Terminal]"
  have l: "legal_events rcv_do rcv_event_ok ?es receiver_new" by code_simp
  have d: "map_option (\<lambda>(r, out). (r_destroyed r, r_registered r, receive_taken out)) (run_events rcv_do ?es receiver_new) =
      Some (True, False, [1, 2])" by code_simp
  obtain r out where "run_events rcv_do ?es receiver_new = Some (r, out)"
      "r_destroyed r \<longrightarrow> receive_told out = receive_taken out" "\<not> r_registered r \<longrightarrow> m_runningOperations (m_rcvPublishedMsgOp r) = 0"
    using receive_handlers_called[OF l] by blast
  then show ?thesis using d by (intro exI[of _ r] exI[of _ out]) simp
qed

lemma message_fills_its_buffer_witness:
  "\<exists>r r'. map_option fst (run_events rcv_do sample_receive receiver_new) = Some r \<and>
     rcv_do (Data_Arrives [5, 6, 7] False) r = Some (r', [Tells_Data 2 (Some ERR_BUFFER_TOO_SMALL) 3 False [5, 6]])"
proof -
  have l: "legal_events rcv_do rcv_event_ok (sample_receive @ [Data_Arrives [5, 6, 7] False]) receiver_new" by code_simp
  have n: "no_receive_in_cancel sample_receive receiver_new" by code_simp
  have d: "map_option (\<lambda>(r, out). (m_armedHandler (m_rcvPublishedMsgOp r), snd (last (takes out)))) (run_events rcv_do sample_receive receiver_new) =
      Some (Some 2, 2)" by code_simp
  then obtain r out where r: "run_events rcv_do sample_receive receiver_new = Some (r, out)" "m_armedHandler (m_rcvPublishedMsgOp r) = Some 2"
      "snd (last (takes out)) = 2" by auto
  obtain r' where "rcv_do (Data_Arrives [5, 6, 7] False) r = Some (r', [Tells_Data 2 (Some ERR_BUFFER_TOO_SMALL) 3 False [5, 6]])"
    using message_fills_its_buffer[OF l r(1)] n r(2,3) by auto
  then show ?thesis using r(1) by (intro exI[of _ r] exI[of _ r']) simp
qed

end
