(* ===== verification/Communicator_Objects.thy ===== *)
theory Communicator_Objects
  imports Communicators
begin

text \<open>
  The state of \<^verbatim>\<open>core/Leaf\<close> and \<^verbatim>\<open>core/Node\<close> besides their logic objects: the one connection of a leaf, the calls of
  all classes when a connection starts and ends, and the user's wait for changes of the terminals a node knows.
  Of a logic object only its connections are kept here.
\<close>

section \<open>Starting a connection\<close>

text \<open>
  \<^verbatim>\<open>YOGI_CONNECTION_STARTED\<close>: \<open>start\<close> yields whether \<^verbatim>\<open>on_connection_started\<close> of the class returned without an
  exception; if a later class throws, \<open>stop\<close> undoes it.
\<close>

fun start_classes :: "(tclass \<Rightarrow> 's \<Rightarrow> (bool \<times> 's) option) \<Rightarrow> (tclass \<Rightarrow> 's \<Rightarrow> 's option) \<Rightarrow> tclass list \<Rightarrow> 's \<Rightarrow> (bool \<times> 's) option" where
  "start_classes start stop [] s = Some (True, s)"
| "start_classes start stop (c # cs) s = do {
     (ok, s1) \<leftarrow> start c s;
     if \<not> ok then Some (False, s1)
     else do { (ok2, s2) \<leftarrow> start_classes start stop cs s1;
       if ok2 then Some (True, s2) else do { s3 \<leftarrow> stop c s2; Some (False, s3) } } }"

section \<open>Leaf\<close>

type_synonym conn = nat

record leaf_object =
  lo_connection :: "conn option"
  m_connectionStarted :: bool
  lo_logics :: "tclass \<Rightarrow> conn option"

definition leaf_object_new :: leaf_object where
  "leaf_object_new = \<lparr>lo_connection = None, m_connectionStarted = False, lo_logics = (\<lambda>c. None)\<rparr>"

text \<open>\<open>LeafLogicBaseT\<close> stores the connection before it sends anything; \<open>fails\<close> is the class whose sending throws.\<close>

definition leaf_logic_started :: "conn \<Rightarrow> tclass option \<Rightarrow> tclass \<Rightarrow> leaf_object \<Rightarrow> (bool \<times> leaf_object) option" where
  "leaf_logic_started k fails c s = do { yassert (lo_logics s c = None);
     Some (fails \<noteq> Some c, s\<lparr>lo_logics := (lo_logics s)(c := Some k)\<rparr>) }"

definition leaf_logic_destroyed :: "tclass \<Rightarrow> leaf_object \<Rightarrow> leaf_object option" where
  "leaf_logic_destroyed c s = do { yassert (lo_logics s c \<noteq> None); Some (s\<lparr>lo_logics := (lo_logics s)(c := None)\<rparr>) }"

definition leaf_on_new_connection :: "conn \<Rightarrow> leaf_object \<Rightarrow> api_error + leaf_object" where
  "leaf_on_new_connection k s = (if lo_connection s \<noteq> None then Inl ERR_ALREADY_CONNECTED else Inr (s\<lparr>lo_connection := Some k\<rparr>))"

definition leaf_on_connection_started :: "conn \<Rightarrow> tclass option \<Rightarrow> leaf_object \<Rightarrow> (bool \<times> leaf_object) option" where
  "leaf_on_connection_started k fails s = do { yassert (lo_connection s = Some k);
     (ok, s1) \<leftarrow> start_classes (leaf_logic_started k fails) leaf_logic_destroyed all_classes s;
     Some (ok, if ok then s1\<lparr>m_connectionStarted := True\<rparr> else s1) }"

definition leaf_on_connection_destroyed :: "leaf_object \<Rightarrow> leaf_object option" where
  "leaf_on_connection_destroyed s = (let s1 = s\<lparr>lo_connection := None\<rparr> in
     if m_connectionStarted s1 then do { s2 \<leftarrow> for_each all_classes leaf_logic_destroyed s1; Some (s2\<lparr>m_connectionStarted := False\<rparr>) }
     else Some s1)"

datatype leaf_object_event = Leaf_New conn | Leaf_Started conn "tclass option" | Leaf_Destroyed

text \<open>What the connection gets to know.\<close>

datatype leaf_object_out = Connection_Refused api_error | Connection_Accepted | Start_Failed

fun leaf_object_event_ok :: "leaf_object_event \<Rightarrow> leaf_object \<Rightarrow> bool" where
  "leaf_object_event_ok (Leaf_New k) s = True"
| "leaf_object_event_ok (Leaf_Started k fails) s = (lo_connection s = Some k \<and> \<not> m_connectionStarted s)"
| "leaf_object_event_ok Leaf_Destroyed s = (lo_connection s \<noteq> None)"

fun leaf_object_do :: "leaf_object_event \<Rightarrow> leaf_object \<Rightarrow> (leaf_object \<times> leaf_object_out list) option" where
  "leaf_object_do (Leaf_New k) s = Some (case leaf_on_new_connection k s of Inl e \<Rightarrow> (s, [Connection_Refused e]) | Inr s1 \<Rightarrow> (s1, [Connection_Accepted]))"
| "leaf_object_do (Leaf_Started k fails) s = do { (ok, s1) \<leftarrow> leaf_on_connection_started k fails s; Some (s1, if ok then [] else [Start_Failed]) }"
| "leaf_object_do Leaf_Destroyed s = do { s1 \<leftarrow> leaf_on_connection_destroyed s; Some (s1, []) }"

section \<open>Node\<close>

text \<open>\<^verbatim>\<open>NodeLogicBaseT\<close> stores the connection after it has sent everything, and ignores the end of one it has not stored.\<close>

record 'h node_object =
  no_logics :: "tclass \<Rightarrow> conn list"
  m_awaitKnownTerminalsChangeOp :: "'h async_op"

definition node_object_new :: "'h node_object" where
  "node_object_new = \<lparr>no_logics = (\<lambda>c. []), m_awaitKnownTerminalsChangeOp = async_init\<rparr>"

definition node_logic_started :: "conn \<Rightarrow> tclass option \<Rightarrow> tclass \<Rightarrow> 'h node_object \<Rightarrow> (bool \<times> 'h node_object) option" where
  "node_logic_started k fails c s = (if fails = Some c then Some (False, s)
     else do { yassert (k \<notin> set (no_logics s c)); Some (True, s\<lparr>no_logics := (no_logics s)(c := k # no_logics s c)\<rparr>) })"

definition node_logic_destroyed :: "conn \<Rightarrow> tclass \<Rightarrow> 'h node_object \<Rightarrow> 'h node_object option" where
  "node_logic_destroyed k c s = Some (s\<lparr>no_logics := (no_logics s)(c := remove1 k (no_logics s c))\<rparr>)"

definition node_on_connection_started :: "conn \<Rightarrow> tclass option \<Rightarrow> 'h node_object \<Rightarrow> (bool \<times> 'h node_object) option" where
  "node_on_connection_started k fails s = start_classes (node_logic_started k fails) (node_logic_destroyed k) all_classes s"

definition node_on_connection_destroyed :: "conn \<Rightarrow> 'h node_object \<Rightarrow> 'h node_object option" where
  "node_on_connection_destroyed k s = for_each all_classes (node_logic_destroyed k) s"

type_synonym known_change = "tclass \<times> ident \<times> bool"

datatype 'h known_notice = Takes_Known 'h | Refuses_Known 'h api_error | Tells_Known 'h "known_change option" | Node_Start_Failed

definition fire_known :: "known_change option \<Rightarrow> 'h node_object \<Rightarrow> 'h node_object \<times> 'h known_notice list" where
  "fire_known info s = (let (h, a) = fire (\<lambda>h a. a) (m_awaitKnownTerminalsChangeOp s) in
     (s\<lparr>m_awaitKnownTerminalsChangeOp := a\<rparr>, case h of None \<Rightarrow> [] | Some h \<Rightarrow> [Tells_Known h info]))"

definition on_known_terminals_changed :: "tclass \<Rightarrow> ident \<Rightarrow> bool \<Rightarrow> 'h node_object \<Rightarrow> 'h node_object \<times> 'h known_notice list" where
  "on_known_terminals_changed c x added s = fire_known (Some (c, x, added)) s"

definition async_await_known_terminals_change :: "'h \<Rightarrow> 'h node_object \<Rightarrow> api_error + 'h node_object" where
  "async_await_known_terminals_change h s = (case arm h (m_awaitKnownTerminalsChangeOp s) of Inl e \<Rightarrow> Inl e
     | Inr a \<Rightarrow> Inr (s\<lparr>m_awaitKnownTerminalsChangeOp := a\<rparr>))"

definition cancel_await_known_terminals_change :: "'h node_object \<Rightarrow> 'h node_object \<times> 'h known_notice list" where
  "cancel_await_known_terminals_change s = fire_known None s"

text \<open>The destructor does the same and waits for the handlers.\<close>

datatype 'h node_object_event = Node_Object_Started conn "tclass option" | Node_Object_Destroyed conn | Known_Changed tclass ident bool
  | Await_Known 'h | Cancel_Known

fun node_object_event_ok :: "'h node_object_event \<Rightarrow> 'h node_object \<Rightarrow> bool" where
  "node_object_event_ok (Node_Object_Started k fails) s = (\<forall>c \<in> set all_classes. k \<notin> set (no_logics s c))"
| "node_object_event_ok _ s = True"

fun node_object_do :: "'h node_object_event \<Rightarrow> 'h node_object \<Rightarrow> ('h node_object \<times> 'h known_notice list) option" where
  "node_object_do (Node_Object_Started k fails) s = do { (ok, s1) \<leftarrow> node_on_connection_started k fails s;
     Some (s1, if ok then [] else [Node_Start_Failed]) }"
| "node_object_do (Node_Object_Destroyed k) s = do { s1 \<leftarrow> node_on_connection_destroyed k s; Some (s1, []) }"
| "node_object_do (Known_Changed c x added) s = Some (on_known_terminals_changed c x added s)"
| "node_object_do (Await_Known h) s = Some (case async_await_known_terminals_change h s of
     Inl e \<Rightarrow> (s, [Refuses_Known h e]) | Inr s1 \<Rightarrow> (s1, [Takes_Known h]))"
| "node_object_do Cancel_Known s = Some (cancel_await_known_terminals_change s)"

section \<open>The connection of a leaf\<close>

definition leaf_object_ok :: "leaf_object \<Rightarrow> bool" where
  "leaf_object_ok s \<longleftrightarrow> lo_logics s = (\<lambda>c. if m_connectionStarted s then lo_connection s else None) \<and>
     (m_connectionStarted s \<longrightarrow> lo_connection s \<noteq> None)"

text \<open>All classes up to the one that throws are started; those before it are stopped again.\<close>

lemma leaf_start:
  assumes "distinct cs" "\<forall>c \<in> set cs. lo_logics s c = None"
  shows "\<exists>s'. start_classes (leaf_logic_started k fails) leaf_logic_destroyed cs s = Some (\<not> (\<exists>c \<in> set cs. fails = Some c), s') \<and>
    lo_logics s' = (\<lambda>c. if c \<in> set cs \<and> (fails = Some c \<or> \<not> (\<exists>d \<in> set cs. fails = Some d)) then Some k else lo_logics s c) \<and>
    lo_connection s' = lo_connection s \<and> m_connectionStarted s' = m_connectionStarted s"
  using assms
proof (induction cs arbitrary: s)
  case (Cons c cs)
  let ?s1 = "s\<lparr>lo_logics := (lo_logics s)(c := Some k)\<rparr>"
  have p: "distinct cs" "\<forall>d \<in> set cs. lo_logics ?s1 d = None" "c \<notin> set cs" "lo_logics s c = None" using Cons.prems by auto
  show ?case
  proof (cases "fails = Some c")
    case True
    then show ?thesis using p by (auto simp: leaf_logic_started_def fun_eq_iff)
  next
    case False
    obtain s' where s': "start_classes (leaf_logic_started k fails) leaf_logic_destroyed cs ?s1 = Some (\<not> (\<exists>c \<in> set cs. fails = Some c), s')"
        "lo_logics s' = (\<lambda>d. if d \<in> set cs \<and> (fails = Some d \<or> \<not> (\<exists>d \<in> set cs. fails = Some d)) then Some k else lo_logics ?s1 d)"
        "lo_connection s' = lo_connection ?s1" "m_connectionStarted s' = m_connectionStarted ?s1"
      using Cons.IH[OF p(1,2)] by blast
    have c: "leaf_logic_started k fails c s = Some (True, ?s1)" using False p(4) by (simp add: leaf_logic_started_def)
    show ?thesis
    proof (cases "\<exists>d \<in> set cs. fails = Some d")
      case True
      have "lo_logics s' c = Some k" using s'(2) p(3) by simp
      then have d: "leaf_logic_destroyed c s' = Some (s'\<lparr>lo_logics := (lo_logics s')(c := None)\<rparr>)" by (simp add: leaf_logic_destroyed_def)
      show ?thesis using c d s' True False p(3,4) by (intro exI[of _ "s'\<lparr>lo_logics := (lo_logics s')(c := None)\<rparr>"]) (auto simp: fun_eq_iff)
    next
      case no: False
      show ?thesis using c s' no False p(3,4) by (intro exI[of _ s']) (auto simp: fun_eq_iff)
    qed
  qed
qed simp

lemma leaf_stop:
  assumes "distinct cs" "\<forall>c \<in> set cs. lo_logics s c \<noteq> None"
  shows "\<exists>s'. for_each cs leaf_logic_destroyed s = Some s' \<and> lo_logics s' = (\<lambda>c. if c \<in> set cs then None else lo_logics s c) \<and>
    lo_connection s' = lo_connection s \<and> m_connectionStarted s' = m_connectionStarted s"
  using assms
proof (induction cs arbitrary: s)
  case (Cons c cs)
  let ?s1 = "s\<lparr>lo_logics := (lo_logics s)(c := None)\<rparr>"
  have p: "distinct cs" "\<forall>d \<in> set cs. lo_logics ?s1 d \<noteq> None" "c \<notin> set cs" "lo_logics s c \<noteq> None" using Cons.prems by auto
  obtain s' where "for_each cs leaf_logic_destroyed ?s1 = Some s'" "lo_logics s' = (\<lambda>d. if d \<in> set cs then None else lo_logics ?s1 d)"
      "lo_connection s' = lo_connection ?s1" "m_connectionStarted s' = m_connectionStarted ?s1"
    using Cons.IH[OF p(1,2)] by blast
  moreover have "leaf_logic_destroyed c s = Some ?s1" using p(4) by (simp add: leaf_logic_destroyed_def)
  ultimately show ?case using p(3) by (intro exI[of _ s']) (auto simp: fun_eq_iff)
qed simp

lemma leaf_object_step:
  assumes "leaf_object_ok s" "leaf_object_event_ok e s" "\<And>k c. e \<noteq> Leaf_Started k (Some c)"
  shows "case leaf_object_do e s of None \<Rightarrow> False | Some (s', out) \<Rightarrow> leaf_object_ok s'"
proof (cases e)
  case (Leaf_New k)
  then show ?thesis using assms by (auto simp: leaf_on_new_connection_def leaf_object_ok_def fun_eq_iff)
next
  case (Leaf_Started k fails)
  then have f: "fails = None" using assms(3) by (cases fails) auto
  have "\<forall>c \<in> set all_classes. lo_logics s c = None" using assms Leaf_Started by (simp add: leaf_object_ok_def)
  from leaf_start[OF all_classes_all(2) this, of k fails] show ?thesis using Leaf_Started f assms
    by (auto simp: leaf_on_connection_started_def leaf_object_ok_def)
next
  case Leaf_Destroyed
  then show ?thesis using assms leaf_stop[of all_classes "s\<lparr>lo_connection := None\<rparr>"]
    by (auto simp: leaf_on_connection_destroyed_def leaf_object_ok_def Let_def fun_eq_iff)
qed

section \<open>The handlers of a node\<close>

definition known_taken :: "'h known_notice list \<Rightarrow> 'h list" where
  "known_taken out = concat (map (\<lambda>x. case x of Takes_Known h \<Rightarrow> [h] | _ \<Rightarrow> []) out)"

definition known_told :: "'h known_notice list \<Rightarrow> 'h list" where
  "known_told out = concat (map (\<lambda>x. case x of Tells_Known h info \<Rightarrow> [h] | _ \<Rightarrow> []) out)"

text \<open>The connections of a node's classes; a failed start leaves none behind.\<close>

lemma node_start:
  assumes "distinct cs" "\<forall>c \<in> set cs. k \<notin> set (no_logics s c)"
  shows "\<exists>s'. start_classes (node_logic_started k fails) (node_logic_destroyed k) cs s = Some (\<not> (\<exists>c \<in> set cs. fails = Some c), s') \<and>
    no_logics s' = (\<lambda>c. if c \<in> set cs \<and> \<not> (\<exists>d \<in> set cs. fails = Some d) then k # no_logics s c else no_logics s c) \<and>
    m_awaitKnownTerminalsChangeOp s' = m_awaitKnownTerminalsChangeOp s"
  using assms
proof (induction cs arbitrary: s)
  case (Cons c cs)
  let ?s1 = "s\<lparr>no_logics := (no_logics s)(c := k # no_logics s c)\<rparr>"
  have p: "distinct cs" "\<forall>d \<in> set cs. k \<notin> set (no_logics ?s1 d)" "c \<notin> set cs" "k \<notin> set (no_logics s c)" using Cons.prems by auto
  show ?case
  proof (cases "fails = Some c")
    case True
    then show ?thesis using p by (auto simp: node_logic_started_def fun_eq_iff)
  next
    case False
    obtain s' where s': "start_classes (node_logic_started k fails) (node_logic_destroyed k) cs ?s1 = Some (\<not> (\<exists>c \<in> set cs. fails = Some c), s')"
        "no_logics s' = (\<lambda>d. if d \<in> set cs \<and> \<not> (\<exists>d \<in> set cs. fails = Some d) then k # no_logics ?s1 d else no_logics ?s1 d)"
        "m_awaitKnownTerminalsChangeOp s' = m_awaitKnownTerminalsChangeOp ?s1"
      using Cons.IH[OF p(1,2)] by blast
    have c: "node_logic_started k fails c s = Some (True, ?s1)" using False p(4) by (simp add: node_logic_started_def)
    show ?thesis
    proof (cases "\<exists>d \<in> set cs. fails = Some d")
      case True
      have d: "node_logic_destroyed k c s' = Some (s'\<lparr>no_logics := (no_logics s')(c := remove1 k (no_logics s' c))\<rparr>)"
        by (simp add: node_logic_destroyed_def)
      show ?thesis using c d s' True False p(3)
        by (intro exI[of _ "s'\<lparr>no_logics := (no_logics s')(c := remove1 k (no_logics s' c))\<rparr>"]) (auto simp: fun_eq_iff)
    next
      case no: False
      show ?thesis using c s' no False p(3) by (intro exI[of _ s']) (auto simp: fun_eq_iff)
    qed
  qed
qed simp

lemma node_stop: "\<exists>s'. for_each cs (node_logic_destroyed k) s = Some s' \<and> m_awaitKnownTerminalsChangeOp s' = m_awaitKnownTerminalsChangeOp s"
proof (induction cs arbitrary: s)
  case (Cons c cs)
  then show ?case using Cons[of "s\<lparr>no_logics := (no_logics s)(c := remove1 k (no_logics s c))\<rparr>"] by (auto simp: node_logic_destroyed_def)
qed simp

lemma node_object_step:
  assumes "node_object_event_ok e s"
  shows "\<exists>s' out. node_object_do e s = Some (s', out) \<and>
    known_told out @ armed_list (m_awaitKnownTerminalsChangeOp s') = armed_list (m_awaitKnownTerminalsChangeOp s) @ known_taken out"
proof (cases e)
  case (Node_Object_Started k fails)
  obtain s' where "start_classes (node_logic_started k fails) (node_logic_destroyed k) all_classes s =
      Some (\<not> (\<exists>c \<in> set all_classes. fails = Some c), s')" "m_awaitKnownTerminalsChangeOp s' = m_awaitKnownTerminalsChangeOp s"
    using node_start[OF all_classes_all(2), of k s fails] assms Node_Object_Started by auto
  then show ?thesis using Node_Object_Started by (auto simp: node_on_connection_started_def known_told_def known_taken_def)
next
  case (Node_Object_Destroyed k)
  obtain s' where "for_each all_classes (node_logic_destroyed k) s = Some s'" "m_awaitKnownTerminalsChangeOp s' = m_awaitKnownTerminalsChangeOp s"
    using node_stop by blast
  then show ?thesis using Node_Object_Destroyed by (simp add: node_on_connection_destroyed_def known_told_def known_taken_def)
qed (cases "m_armedHandler (m_awaitKnownTerminalsChangeOp s)"; simp add: on_known_terminals_changed_def fire_known_def
  async_await_known_terminals_change_def cancel_await_known_terminals_change_def arm_def fire_def take_armed_handler_def
  finish_operation_def known_told_def known_taken_def armed_list_def)+

interpretation known_terminals: handler_accounts node_object_do node_object_event_ok m_awaitKnownTerminalsChangeOp "\<lambda>s. True"
    known_taken known_told "\<lambda>out. True"
  by unfold_locales (simp_all add: node_object_step, simp_all add: known_taken_def known_told_def)

lemma leaf_object_run:
  "leaf_object_ok s \<Longrightarrow> legal_events leaf_object_do leaf_object_event_ok es s \<Longrightarrow> \<forall>k c. Leaf_Started k (Some c) \<notin> set es \<Longrightarrow>
    \<exists>s' out. run_events leaf_object_do es s = Some (s', out) \<and> leaf_object_ok s'"
proof (induction es arbitrary: s)
  case (Cons e es)
  have "leaf_object_event_ok e s" "\<And>k c. e \<noteq> Leaf_Started k (Some c)" using Cons.prems by auto
  from leaf_object_step[OF Cons.prems(1) this] obtain s1 o1 where 1: "leaf_object_do e s = Some (s1, o1)" "leaf_object_ok s1"
    by (auto split: option.splits)
  then obtain s' o2 where "run_events leaf_object_do es s1 = Some (s', o2)" "leaf_object_ok s'"
    using Cons.IH[OF 1(2)] Cons.prems by auto
  then show ?case using 1 by simp
qed simp

section \<open>Properties\<close>

text \<open>C18: A leaf has one connection at a time: as long as no class throws, all nine classes have the leaf's connection from its
  start to its end and none before or after, no assertion fails, and a second connection is refused.\<close>

theorem leaf_has_one_connection:
  assumes "legal_events leaf_object_do leaf_object_event_ok es leaf_object_new" "\<forall>k c. Leaf_Started k (Some c) \<notin> set es"
  shows "\<exists>s out. run_events leaf_object_do es leaf_object_new = Some (s, out) \<and>
    (\<forall>c. lo_logics s c = (if m_connectionStarted s then lo_connection s else None)) \<and>
    (lo_connection s \<noteq> None \<longrightarrow> leaf_object_do (Leaf_New k) s = Some (s, [Connection_Refused ERR_ALREADY_CONNECTED]))"
proof -
  have "leaf_object_ok leaf_object_new" by (simp add: leaf_object_ok_def leaf_object_new_def)
  from leaf_object_run[OF this assms] show ?thesis by (auto simp: leaf_object_ok_def leaf_on_new_connection_def)
qed

text \<open>When \<^verbatim>\<open>on_connection_started\<close> of one class throws, a node takes the connection back from all classes; a leaf takes it back
  from all others, but the class that has thrown keeps it.\<close>

theorem failed_start_taken_back:
  assumes "leaf_object_ok s" "lo_connection s = Some k" "\<not> m_connectionStarted s" "\<forall>c. j \<notin> set (no_logics n c)"
  shows "(\<exists>s'. leaf_on_connection_started k (Some c) s = Some (False, s') \<and> lo_logics s' = (\<lambda>d. if d = c then Some k else None) \<and>
      \<not> m_connectionStarted s') \<and>
    (\<exists>n'. node_on_connection_started j (Some c) n = Some (False, n') \<and> no_logics n' = no_logics n)"
proof
  have "\<forall>c \<in> set all_classes. lo_logics s c = None" using assms(1,3) by (simp add: leaf_object_ok_def)
  from leaf_start[OF all_classes_all(2) this, of k "Some c"]
  show "\<exists>s'. leaf_on_connection_started k (Some c) s = Some (False, s') \<and> lo_logics s' = (\<lambda>d. if d = c then Some k else None) \<and>
      \<not> m_connectionStarted s'"
    using assms(1-3) by (auto simp: leaf_on_connection_started_def leaf_object_ok_def fun_eq_iff)
  have "\<forall>c \<in> set all_classes. j \<notin> set (no_logics n c)" using assms(4) by simp
  from node_start[OF all_classes_all(2) this, of "Some c"]
  show "\<exists>n'. node_on_connection_started j (Some c) n = Some (False, n') \<and> no_logics n' = no_logics n"
    by (auto simp: node_on_connection_started_def)
qed

text \<open>The class that has thrown fails its assertion at the next connection.\<close>

definition failing_start :: "leaf_object_event list" where
  "failing_start = [Leaf_New 1, Leaf_Started 1 (Some ScatterGather), Leaf_Destroyed, Leaf_New 2]"

theorem failed_start_breaks_leaf:
  "legal_events leaf_object_do leaf_object_event_ok (failing_start @ [Leaf_Started 2 None]) leaf_object_new \<and>
   run_events leaf_object_do failing_start leaf_object_new \<noteq> None \<and>
   run_events leaf_object_do (failing_start @ [Leaf_Started 2 None]) leaf_object_new = None"
proof -
  have "legal_events leaf_object_do leaf_object_event_ok (failing_start @ [Leaf_Started 2 None]) leaf_object_new" by code_simp
  moreover have "map_option snd (run_events leaf_object_do failing_start leaf_object_new) \<noteq> None" by code_simp
  moreover have "map_option snd (run_events leaf_object_do (failing_start @ [Leaf_Started 2 None]) leaf_object_new) = None" by code_simp
  ultimately show ?thesis by simp
qed

text \<open>Every accepted \<^verbatim>\<open>async_await_known_terminals_change\<close> of a node has its handler called exactly once, in order: by the next
  change, which it gets with the terminal class, or by a cancellation.\<close>

theorem known_changes_told:
  assumes "legal_events node_object_do node_object_event_ok es node_object_new"
  shows "\<exists>s out. run_events node_object_do es node_object_new = Some (s, out) \<and>
    known_told out @ armed_list (m_awaitKnownTerminalsChangeOp s) = known_taken out \<and>
    map_option snd (node_object_do (Known_Changed c x added) s) =
      Some (map (\<lambda>h. Tells_Known h (Some (c, x, added))) (armed_list (m_awaitKnownTerminalsChangeOp s))) \<and>
    map_option snd (node_object_do Cancel_Known s) = Some (map (\<lambda>h. Tells_Known h None) (armed_list (m_awaitKnownTerminalsChangeOp s)))"
proof -
  obtain s out where r: "run_events node_object_do es node_object_new = Some (s, out)"
      "known_told out @ armed_list (m_awaitKnownTerminalsChangeOp s) = armed_list async_init @ known_taken out"
    using known_terminals.run_ok[OF TrueI assms] by (auto simp: node_object_new_def)
  show ?thesis using r
    by (cases "m_armedHandler (m_awaitKnownTerminalsChangeOp s)")
      (auto simp: armed_list_def async_init_def on_known_terminals_changed_def cancel_await_known_terminals_change_def fire_known_def
        fire_def take_armed_handler_def)
qed

section \<open>Examples\<close>

lemma leaf_has_one_connection_witness:
  "\<exists>s out. run_events leaf_object_do [Leaf_New 1, Leaf_Started 1 None, Leaf_New 2, Leaf_Destroyed, Leaf_New 2] leaf_object_new = Some (s, out) \<and>
     lo_logics s MasterSlave = None \<and> leaf_object_do (Leaf_New 3) s = Some (s, [Connection_Refused ERR_ALREADY_CONNECTED])"
proof -
  let ?es = "[Leaf_New 1, Leaf_Started 1 None, Leaf_New 2, Leaf_Destroyed, Leaf_New 2]"
  have l: "legal_events leaf_object_do leaf_object_event_ok ?es leaf_object_new" by code_simp
  have f: "\<forall>k c. Leaf_Started k (Some c) \<notin> set ?es" by simp
  have d: "map_option (\<lambda>(s, out). (lo_connection s, m_connectionStarted s)) (run_events leaf_object_do ?es leaf_object_new) = Some (Some 2, False)"
    by code_simp
  obtain s out where "run_events leaf_object_do ?es leaf_object_new = Some (s, out)"
      "\<forall>c. lo_logics s c = (if m_connectionStarted s then lo_connection s else None)"
      "lo_connection s \<noteq> None \<longrightarrow> leaf_object_do (Leaf_New 3) s = Some (s, [Connection_Refused ERR_ALREADY_CONNECTED])"
    using leaf_has_one_connection[OF l f] by blast
  then show ?thesis using d by (intro exI[of _ s] exI[of _ out]) simp
qed

lemma failed_start_taken_back_witness:
  "\<exists>s' n'. leaf_on_connection_started 1 (Some ScatterGather) (leaf_object_new\<lparr>lo_connection := Some 1\<rparr>) = Some (False, s') \<and>
     lo_logics s' ScatterGather = Some 1 \<and> lo_logics s' DeafMute = None \<and>
     node_on_connection_started 1 (Some ScatterGather) (node_object_new :: nat node_object) = Some (False, n') \<and> no_logics n' DeafMute = []"
proof -
  let ?s = "leaf_object_new\<lparr>lo_connection := Some 1\<rparr>" and ?n = "node_object_new :: nat node_object"
  have a: "leaf_object_ok ?s" "lo_connection ?s = Some 1" "\<not> m_connectionStarted ?s" "\<forall>c. 1 \<notin> set (no_logics ?n c)"
    by (simp_all add: leaf_object_ok_def leaf_object_new_def node_object_new_def)
  have e: "no_logics ?n DeafMute = []" by (simp add: node_object_new_def)
  obtain s' n' where "leaf_on_connection_started 1 (Some ScatterGather) ?s = Some (False, s')"
      "lo_logics s' = (\<lambda>d. if d = ScatterGather then Some 1 else None)"
      "node_on_connection_started 1 (Some ScatterGather) ?n = Some (False, n')" "no_logics n' = no_logics ?n"
    using failed_start_taken_back[OF a, of ScatterGather] by blast
  then show ?thesis using e by (intro exI[of _ s'] exI[of _ n']) simp
qed

lemma known_changes_told_witness:
  "\<exists>s out. run_events node_object_do [Await_Known (7 :: nat), Known_Changed MasterSlave default_ident True, Await_Known 8] node_object_new = Some (s, out) \<and>
     known_told out = [7] \<and> map_option snd (node_object_do Cancel_Known s) = Some [Tells_Known 8 None]"
proof -
  let ?es = "[Await_Known (7 :: nat), Known_Changed MasterSlave default_ident True, Await_Known 8]"
  have l: "legal_events node_object_do node_object_event_ok ?es node_object_new" by code_simp
  have d: "map_option (\<lambda>(s, out). (armed_list (m_awaitKnownTerminalsChangeOp s), known_taken out)) (run_events node_object_do ?es node_object_new) =
      Some ([8], [7, 8])" by code_simp
  obtain s out where "run_events node_object_do ?es node_object_new = Some (s, out)"
      "known_told out @ armed_list (m_awaitKnownTerminalsChangeOp s) = known_taken out"
      "map_option snd (node_object_do Cancel_Known s) = Some (map (\<lambda>h. Tells_Known h None) (armed_list (m_awaitKnownTerminalsChangeOp s)))"
    using known_changes_told[OF l] by blast
  then show ?thesis using d by (intro exI[of _ s] exI[of _ out]) simp
qed

end
