(* ===== verification/Object_Ownership.thy ===== *)
theory Object_Ownership
  imports Event_Runs
begin

text \<open>
  The register of public objects, \<^verbatim>\<open>api/PublicObjectRegister\<close>, over the life of a program: objects are created from
  objects that exist, used and destroyed in any order, and an object goes only when nobody owns it any more.
\<close>

section \<open>Events\<close>

text \<open>
  A pointer to an object is taken and dropped outside the register when a call or a handler uses the object.
\<close>

datatype 'k object_event = Create_Object handle "'k pobject" | Add_Object handle "'k pobject" | Destroy_Object handle
  | Pointer_Taken handle | Pointer_Dropped handle

text \<open>A new object has an address of its own, and was made from objects its creator has got by their handles.\<close>

fun object_event_ok :: "'k object_event \<Rightarrow> 'k objects \<Rightarrow> bool" where
  "object_event_ok (Create_Object h ob) objs = (map_of objs h = None \<and> (\<forall>r \<in> set (po_refs ob). get_s (\<lambda>k. True) objs r = Inr r))"
| "object_event_ok (Add_Object h ob) objs = (map_of objs h = None \<and> (\<forall>r \<in> set (po_refs ob). get_s (\<lambda>k. True) objs r = Inr r))"
| "object_event_ok (Destroy_Object h) objs = True"
| "object_event_ok (Pointer_Taken h) objs = (map_of objs h \<noteq> None)"
| "object_event_ok (Pointer_Dropped h) objs = (case map_of objs h of None \<Rightarrow> False | Some ob \<Rightarrow> po_external ob > 0)"

definition change_pointers :: "(nat \<Rightarrow> nat) \<Rightarrow> handle \<Rightarrow> 'k objects \<Rightarrow> 'k objects" where
  "change_pointers f h objs = (case map_of objs h of None \<Rightarrow> objs
     | Some ob \<Rightarrow> AList.update h (ob\<lparr>po_external := f (po_external ob)\<rparr>) objs)"

fun object_do :: "'k object_event \<Rightarrow> 'k objects \<Rightarrow> ('k objects \<times> api_error list) option" where
  "object_do (Create_Object h ob) objs = Some (snd (create_object h ob objs), [])"
| "object_do (Add_Object h ob) objs = map_option (\<lambda>r. (snd r, [])) (add_object h ob objs)"
| "object_do (Destroy_Object h) objs = Some (case destroy_object h objs of Inl e \<Rightarrow> (objs, [e]) | Inr objs' \<Rightarrow> (objs', []))"
| "object_do (Pointer_Taken h) objs = Some (change_pointers (\<lambda>n. n + 1) h objs, [])"
| "object_do (Pointer_Dropped h) objs = Some (change_pointers (\<lambda>n. n - 1) h objs, [])"

section \<open>Ownership\<close>

text \<open>Who is owned is registered.\<close>

definition owned_registered :: "'k objects \<Rightarrow> bool" where
  "owned_registered objs \<longleftrightarrow> distinct_keys objs \<and> (\<forall>h ob r. map_of objs h = Some ob \<longrightarrow> r \<in> set (po_refs ob) \<longrightarrow> map_of objs r \<noteq> None)"

definition owner_of :: "'k objects \<Rightarrow> handle \<Rightarrow> handle \<Rightarrow> bool" where
  "owner_of objs k h \<longleftrightarrow> (\<exists>ob. map_of objs k = Some ob \<and> h \<in> set (po_refs ob))"

lemma get_any: "get_s (\<lambda>k. True) objs h = Inr h \<longleftrightarrow> map_of objs h \<noteq> None"
  by (auto simp: get_s_def split: option.splits)

lemma unique_owner:
  assumes "distinct_keys objs"
  shows "unique objs h ob \<longleftrightarrow> po_external ob = 0 \<and> (\<forall>k. \<not> owner_of objs k h)"
  using assms by (force simp: unique_def owner_of_def)

lemma create_registered:
  assumes "owned_registered objs" "\<forall>r \<in> set (po_refs ob). map_of objs r \<noteq> None"
  shows "owned_registered (AList.update h ob objs)"
  using assms by (auto simp: owned_registered_def update_conv' distinct_update split: if_splits)

lemma change_registered: "owned_registered objs \<Longrightarrow> owned_registered (change_pointers f h objs)"
proof (cases "map_of objs h")
  case (Some ob)
  assume o: "owned_registered objs"
  then have "\<forall>r \<in> set (po_refs ob). map_of objs r \<noteq> None" using Some unfolding owned_registered_def by blast
  then show ?thesis using create_registered[OF o, of "ob\<lparr>po_external := f (po_external ob)\<rparr>"] Some by (simp add: change_pointers_def)
qed (simp add: change_pointers_def)

lemma destroy_registered:
  assumes "owned_registered objs" "destroy_object h objs = Inr objs'"
  shows "owned_registered objs'"
proof -
  obtain ob where ob: "map_of objs h = Some ob" "unique objs h ob" "objs' = AList.delete h objs"
    using assms(2) by (auto simp: destroy_object_def split: option.splits if_splits)
  have "\<forall>k. \<not> owner_of objs k h" using unique_owner ob(2) assms(1) by (auto simp: owned_registered_def)
  then show ?thesis using assms(1) ob(3)
    by (auto simp: owned_registered_def owner_of_def delete_conv' distinct_delete split: if_splits)
qed

lemma object_step:
  assumes "owned_registered objs" "object_event_ok e objs"
  shows "\<exists>objs' out. object_do e objs = Some (objs', out) \<and> owned_registered objs'"
proof (cases e)
  case (Destroy_Object h)
  then show ?thesis using assms destroy_registered by (cases "destroy_object h objs") auto
qed (use assms create_registered in \<open>auto simp: create_object_def add_object_def change_registered get_any\<close>)

lemma object_run:
  "owned_registered objs \<Longrightarrow> legal_events object_do object_event_ok es objs \<Longrightarrow>
    \<exists>objs' out. run_events object_do es objs = Some (objs', out) \<and> owned_registered objs'"
proof (induction es arbitrary: objs)
  case (Cons e es)
  have "object_event_ok e objs" using Cons.prems(2) by simp
  from object_step[OF Cons.prems(1) this] obtain o1 out1 where 1: "object_do e objs = Some (o1, out1)" "owned_registered o1" by blast
  then show ?case using Cons.IH[OF 1(2)] Cons.prems(2) by fastforce
qed simp

section \<open>Properties\<close>

text \<open>C32: Nobody's object is destroyed: whatever objects are created, used and destroyed, in any order, the owned objects of every
  registered object are registered, and \<^verbatim>\<open>destroy\<close> fails with \<^verbatim>\<open>INVALID_HANDLE\<close> exactly for an unknown handle, with
  \<^verbatim>\<open>OBJECT_STILL_USED\<close> exactly if some pointer from outside or some registered object holds the object, and otherwise
  makes exactly its handle unknown.\<close>

theorem destroy_only_unowned:
  assumes "legal_events object_do object_event_ok es []"
  shows "\<exists>objs out. run_events object_do es [] = Some (objs, out) \<and>
    (\<forall>k h. owner_of objs k h \<longrightarrow> get_s (\<lambda>k. True) objs h = Inr h) \<and>
    (\<forall>h. case destroy_object h objs of
        Inl e \<Rightarrow> e = ERR_INVALID_HANDLE \<and> map_of objs h = None \<or>
          e = ERR_OBJECT_STILL_USED \<and> (\<exists>ob. map_of objs h = Some ob \<and> (po_external ob > 0 \<or> (\<exists>k. owner_of objs k h)))
      | Inr objs' \<Rightarrow> map_of objs' = (map_of objs)(h := None) \<and> (\<exists>ob. map_of objs h = Some ob \<and> po_external ob = 0) \<and>
          (\<forall>k. \<not> owner_of objs k h))"
proof -
  have "owned_registered ([] :: 'a objects)" by (simp add: owned_registered_def)
  from object_run[OF this assms] obtain objs out where r: "run_events object_do es [] = Some (objs, out)" "owned_registered objs" by blast
  have d: "distinct_keys objs" using r(2) by (simp add: owned_registered_def)
  have "case destroy_object h objs of
        Inl e \<Rightarrow> e = ERR_INVALID_HANDLE \<and> map_of objs h = None \<or>
          e = ERR_OBJECT_STILL_USED \<and> (\<exists>ob. map_of objs h = Some ob \<and> (po_external ob > 0 \<or> (\<exists>k. owner_of objs k h)))
      | Inr objs' \<Rightarrow> map_of objs' = (map_of objs)(h := None) \<and> (\<exists>ob. map_of objs h = Some ob \<and> po_external ob = 0) \<and>
          (\<forall>k. \<not> owner_of objs k h)" for h
    using unique_owner[OF d, of h] by (auto simp: destroy_object_def delete_conv fun_eq_iff split: option.split)
  moreover have "owner_of objs k h \<longrightarrow> get_s (\<lambda>k. True) objs h = Inr h" for k h
    using r(2) unfolding get_any by (auto simp: owner_of_def owned_registered_def)
  ultimately show ?thesis using r(1) by blast
qed

text \<open>A scheduler, a leaf and a terminal; the leaf cannot be destroyed before the terminal.\<close>

definition sample_objects :: "string object_event list" where
  "sample_objects = [Create_Object 10 \<lparr>po_kind = ''Scheduler'', po_refs = [], po_external = 0\<rparr>,
     Create_Object 20 \<lparr>po_kind = ''Leaf'', po_refs = [10], po_external = 0\<rparr>,
     Create_Object 30 \<lparr>po_kind = ''Terminal'', po_refs = [20], po_external = 0\<rparr>,
     Destroy_Object 20, Pointer_Taken 30, Destroy_Object 30, Pointer_Dropped 30, Destroy_Object 30]"

lemma destroy_only_unowned_witness:
  "\<exists>objs. run_events object_do sample_objects [] = Some (objs, [ERR_OBJECT_STILL_USED, ERR_OBJECT_STILL_USED]) \<and>
     (\<forall>k h. owner_of objs k h \<longrightarrow> get_s (\<lambda>k. True) objs h = Inr h) \<and> (\<exists>objs'. destroy_object 20 objs = Inr objs')"
proof -
  have l: "legal_events object_do object_event_ok sample_objects []" by code_simp
  have o: "map_option snd (run_events object_do sample_objects []) = Some [ERR_OBJECT_STILL_USED, ERR_OBJECT_STILL_USED]" by code_simp
  have d: "map_option (\<lambda>r. case destroy_object 20 (fst r) of Inl e \<Rightarrow> False | Inr r' \<Rightarrow> True) (run_events object_do sample_objects []) = Some True"
    by code_simp
  obtain objs out where "run_events object_do sample_objects [] = Some (objs, out)"
      "\<forall>k h. owner_of objs k h \<longrightarrow> get_s (\<lambda>k. True) objs h = Inr h" using destroy_only_unowned[OF l] by blast
  then show ?thesis using o d by (auto split: sum.splits)
qed

end
