(* ===== verification/Spec2Isabelle.thy ===== *)
theory Spec2Isabelle
  imports Ring_Concurrent Tcp_Connection Local_Connection Mapped_Protocol Node_Language Node_Contract State_Observer Terminals
    Communicator_Objects Object_Ownership
begin

text \<open>
  A development beside \<^verbatim>\<open>yogi-core\<close>, the C++ library of the YOGI messaging framework; paths are relative to
  \<^verbatim>\<open>src/yogi-core/src\<close>.

  \<^bold>\<open>The program.\<close>  Processes own \<^emph>\<open>leafs\<close>, which have \<^emph>\<open>terminals\<close> and \<^emph>\<open>bindings\<close> of nine classes; \<^emph>\<open>nodes\<close> join leafs and
  other nodes to a network.  Communicators are joined by connections, local or TCP, which deliver messages in
  order.  A leaf describes its terminals and bindings to its neighbour; a node maps all descriptions with one identifier to
  one entry, tells the other nodes, tells a leaf when a terminal for its binding exists elsewhere, and passes subscriptions and
  data on.  The user is told by asynchronous operations whose handlers the library calls.

  \<^bold>\<open>Conventions.\<close>  An object is a record with the members of the class, an operation a function on it.
  A failed \<^verbatim>\<open>YOGI_ASSERT\<close>, a case that is never to be reached and an access to nothing is \<open>None\<close>; an API exception is an \<open>Inl\<close>;
  what leaves an object (messages, calls of handlers) is a list of events.  \<open>Prelude\<close> has this vocabulary.  Virtual functions
  are records of functions (\<open>leaf_hooks\<close>, \<open>node_hooks\<close>), one for each class.  Where threads interleave, their atomic
  sections are the steps of a relation or the events of a step function, and the theorems hold for every sequence of them;
  \<open>Event_Runs\<close> has runs of events.

  \<^bold>\<open>Base.\<close>
  \<^item> \<open>Ids\<close>: \<^verbatim>\<open>base/Id\<close>, \<^verbatim>\<open>base/Identifier\<close>.
  \<^item> \<open>Registers\<close>: \<^verbatim>\<open>base/ObjectRegister\<close>, \<^verbatim>\<open>base/IdentifiedObjectRegister\<close> (insert, erase, hide, find, iteration).  The locales
    \<open>id_register\<close> and \<open>ident_register\<close> state what their clients rely on.
  \<^item> \<open>Ring_Buffer\<close>, \<open>Ring_Concurrent\<close>: \<^verbatim>\<open>base/LockFreeRingBuffer\<close>.  The sequential operations refine a bounded queue (locale
    \<open>bounded_queue\<close>); with one producer and one consumer thread the data is read in the order it was written.
  \<^item> \<open>Async_Op\<close>, \<open>Event_Runs\<close>: \<^verbatim>\<open>base/AsyncOperation\<close>; every armed handler is taken once, by a call or by \<^verbatim>\<open>disarm\<close>,
    also while \<^verbatim>\<open>fire_and_reload\<close> calls it without taking it.  The locale \<open>handler_accounts\<close> gives the same for every object with such an operation: client, server, connection, binding,
    terminal and node are interpretations.
  \<^item> \<open>Serialization\<close>, \<open>Messages\<close>: \<^verbatim>\<open>serialization/\<close>, \<^verbatim>\<open>messaging/\<close>; the wire format, the 137 message types and their numbers,
    with the round trips.
  \<^item> \<open>Api\<close>, \<open>Object_Ownership\<close>: \<^verbatim>\<open>api/\<close>; error codes and the register of public objects, whose \<^verbatim>\<open>clear\<close> terminates and leaves
    nothing, and whose \<^verbatim>\<open>destroy\<close> removes only what nobody owns, in every run.

  \<^bold>\<open>Protocol.\<close>
  \<^item> \<open>Mapped_Fsm\<close>: \<^verbatim>\<open>core/common/MappedObjectFsm\<close>, the state of one object with respect to the other end.
  \<^item> \<open>Mapped_Protocol\<close>: two such machines with a connection between them.  Whatever is created and destroyed while messages are
    under way, neither gets a message it does not expect; when the messages have arrived both agree, and they do arrive
    after a bounded number of deliveries, which a measure gives.

  \<^bold>\<open>Leafs.\<close>
  \<^item> \<open>Leaf_Logic\<close>, \<open>Leaf_Classes\<close>: \<^verbatim>\<open>core/common/LeafLogicBaseT\<close>, \<^verbatim>\<open>SubscribableLeafLogicBaseT\<close>, \<^verbatim>\<open>PublishSubscribeLeafLogicBaseT\<close>,
    \<^verbatim>\<open>core/cached_publish_subscribe/LeafLogic\<close>.
  \<^item> \<open>Leaf_Invariant\<close>, \<open>Leaf_Runs\<close>: the invariant of the base class for any class whose virtual functions leave its members alone
    (locale \<open>leaf_virtuals\<close>), and what follows for every legal sequence of calls (locale \<open>leaf_class\<close>).
  \<^item> \<open>Scatter_Gather\<close>, \<open>Scatter_Rounds\<close>: \<^verbatim>\<open>core/scatter_gather/LeafLogic\<close> and \<^verbatim>\<open>Terminal\<close>; the answers to one scattered message.
  \<^item> \<open>State_Observer\<close>: \<^verbatim>\<open>core/BindingT\<close>, \<^verbatim>\<open>SubscribableTerminalBaseT\<close>; nobody who asks for the state and awaits its change as
    documented misses a change, and the destructor ends.
  \<^item> \<open>Terminals\<close>: \<^verbatim>\<open>PublishSubscribeTerminalBaseT\<close>, \<^verbatim>\<open>core/cached_publish_subscribe/Terminal\<close>; a handler gets what fits into the buffer
    it came with.

  \<^bold>\<open>Nodes.\<close>
  \<^item> \<open>Node_Logic\<close>, \<open>Node_Classes\<close>, \<open>Node_Scatter\<close>: \<^verbatim>\<open>core/common/NodeLogicBaseT\<close>, \<^verbatim>\<open>SubscribableNodeLogicBaseT\<close>,
    \<^verbatim>\<open>PublishSubscribeNodeLogicBaseT\<close>, \<^verbatim>\<open>core/cached_publish_subscribe/NodeLogic\<close>, \<^verbatim>\<open>core/scatter_gather/NodeLogic\<close>.
  \<^item> \<open>Node_View\<close>, \<open>Node_Invariant\<close>: an abstract view of a node without registers and extensions, of which every primitive is
    an update, weakest preconditions over it and the invariant.
  \<^item> \<open>Node_Handlers\<close> (locale \<open>node_class\<close>: what the virtual functions may do), \<open>Node_Descriptions\<close>, \<open>Node_Bindings\<close>,
    \<open>Node_Connections\<close>, \<open>Node_Preservation\<close>, \<open>Node_Subscriptions\<close>: every handler keeps the invariant.
  \<^item> \<open>Node_Runs\<close> (locale \<open>node_receiver\<close>), \<open>Node_Status\<close>, \<open>Node_Contract\<close>: the contract of a node of the publish-subscribe class
    under any legal run: consistent, no failed assertion, leafs and owners told exactly what changes, data to exactly those
    interested, nothing left of an ended connection.
  \<^item> \<open>Node_Language\<close> (locales \<open>speaking_hooks\<close>, \<open>speaking_subscribers\<close>, \<open>scatters\<close>): in all nine classes a node sends
    everybody only messages that its receiver has a handler for.

  \<^bold>\<open>Communicators.\<close>  \<open>Communicators\<close>, \<open>Communicator_Objects\<close>: \<^verbatim>\<open>core/Leaf\<close>, \<^verbatim>\<open>core/Node\<close>; the tables of handlers, which are complete and
  of the right types, the one connection of a leaf, starts that fail in one of the classes, the wait for known terminals.

  \<^bold>\<open>Connections.\<close>
  \<^item> \<open>Local_Connection\<close>: \<^verbatim>\<open>connections/local/LocalConnection\<close>; what both communicators see, and that the waits of constructor
    and destructor end, if no message is lost to a lack of memory while the communicators are being registered.
  \<^item> \<open>Tcp_Handshake\<close>, \<open>Tcp_Connect\<close>: \<^verbatim>\<open>connections/tcp/TcpConnectionFactory\<close>, \<^verbatim>\<open>TcpClient\<close>, \<^verbatim>\<open>TcpServer\<close> (locale \<open>handler_owner\<close>); a
    handshake ends once, and what it accepts.
  \<^item> \<open>Tcp_Stream\<close>: the byte stream of \<^verbatim>\<open>TcpConnection\<close> on the ring; messages that fit survive any cutting of the stream, and \<^verbatim>\<open>send\<close>
    of one that does not fit repeats bytes or does not return.
  \<^item> \<open>Tcp_Connection\<close>: its life cycle, with heartbeats, silence, death and the destructor.  The ring is its contents; a \<^verbatim>\<open>send\<close> and
    a heartbeat that do not fit wait, and the thread wakes up in a step of its own.

  \<^bold>\<open>Bounds.\<close>  There is no fuel: loops over data are structural, \<^verbatim>\<open>clear\<close> and \<^verbatim>\<open>deserialize\<close> have termination proofs, and what
  may go on for ever is a relation or a list of events.  Sizes on the wire and the index arithmetic of the ring are
  64-bit words, with wrap-around; bytes are 8-bit words.  Ids are natural numbers: the 64 bits of an \<^verbatim>\<open>Id\<close> are not exhausted before
  memory is.  The ring has 65535 bytes (\<^verbatim>\<open>config.h\<close>), the ring's theorems hold for any size.

  \<^bold>\<open>Assumptions.\<close>  Events of an object are legal if the code that calls it can produce them: boost::asio completes what was
  started once, a strand runs one function after the other, a mutex excludes, the user does not call an object that is destroyed,
  and the other end of a connection sends what its own state machine allows (\<open>node_from_peer\<close>, \<open>legal\<close>).  Each such
  predicate is executable, and the witnesses evaluate it on a concrete run.  Atomic variables are sequentially consistent.

  \<^bold>\<open>Not modelled.\<close>  Logging, \<^verbatim>\<open>to_string\<close> and descriptions (text without effect); the scheduler (threads that run
  boost::asio); \<^verbatim>\<open>yogi_core.cpp\<close> (parameter checks around the modelled classes); the C++ binding \<^verbatim>\<open>yogi-cpp\<close>, the applications and the
  generated protobuf files; the bindings in other languages.  Not proved: the contract of a node for the scatter-gather classes
  (the operations leak, see the findings of the manifest); two threads in \<^verbatim>\<open>TcpConnection::send\<close> of which one waits, for which
  C++ defines no behaviour (they share the buffers); and the composition of many leafs and nodes to a network.
\<close>

end
